(* ===== verification/Prelude.thy ===== *)
theory Prelude
  imports Main "HOL-Library.Monad_Syntax" "HOL-Library.Word"
begin

text \<open>
  Shared vocabulary of the development.

  Pointers of the C program are natural numbers, \<open>0\<close> being the null pointer. A
  computation that the C standard leaves undefined, or that stops in \<open>assert\<close> or
  \<open>abort\<close>, is the value \<^const>\<open>None\<close> of an \<open>option\<close>; every other
  outcome, the error returns of the API included, is a value under \<^const>\<open>Some\<close>.
  Array accesses go through \<open>get_at\<close> and \<open>set_at\<close>, which fail outside the
  allocated cells, so that an out-of-bounds access is never given a meaning.
\<close>

unbundle bit_operations_syntax

named_theorems fault_simps \<open>unfold a checked access to the condition under which it succeeds\<close>

type_synonym ptr = nat

abbreviation (input) NULL :: ptr where
  "NULL \<equiv> 0"

type_synonym int8 = "8 word"
type_synonym int32 = "32 word"
type_synonym uint64 = "64 word"

section \<open>Checked accesses\<close>

definition need :: "bool \<Rightarrow> unit option" where
  "need b = (if b then Some () else None)"

lemma need_eq_Some [simp]: "need b = Some u \<longleftrightarrow> b"
  by (simp add: need_def)

lemma need_simps [simp]: "need True = Some ()" "need False = None"
  by (simp_all add: need_def)

lemma need_bind [simp]: "need b \<bind> f = (if b then f () else None)"
  by (simp add: need_def)

definition get_at :: "'a list \<Rightarrow> int \<Rightarrow> 'a option" where
  "get_at xs i = (if 0 \<le> i \<and> i < int (length xs) then Some (xs ! nat i) else None)"

definition set_at :: "'a list \<Rightarrow> int \<Rightarrow> 'a \<Rightarrow> 'a list option" where
  "set_at xs i x = (if 0 \<le> i \<and> i < int (length xs) then Some (xs[nat i := x]) else None)"

lemma get_at_eq_Some [fault_simps]:
  "get_at xs i = Some x \<longleftrightarrow> 0 \<le> i \<and> i < int (length xs) \<and> x = xs ! nat i"
  by (auto simp: get_at_def)

lemma get_at_eq_None [fault_simps]:
  "get_at xs i = None \<longleftrightarrow> i < 0 \<or> int (length xs) \<le> i"
  by (auto simp: get_at_def)

lemma set_at_eq_Some [fault_simps]:
  "set_at xs i x = Some ys \<longleftrightarrow> 0 \<le> i \<and> i < int (length xs) \<and> ys = xs[nat i := x]"
  by (auto simp: set_at_def)

lemma get_at_length: "get_at xs (int (length xs)) = None"
  by (simp add: get_at_def)

lemma get_at_set_at:
  "set_at xs i x = Some ys \<Longrightarrow> get_at ys j = (if j = i then Some x else get_at xs j)"
  by (auto simp: get_at_def set_at_def nth_list_update split: if_splits)

section \<open>Ranges of machine integers\<close>

definition int32_ok :: "int \<Rightarrow> bool" where
  "int32_ok i \<longleftrightarrow> - (2 ^ 31) \<le> i \<and> i < 2 ^ 31"

section \<open>Lists\<close>

lemma filter_neq_id: "a \<notin> set xs \<Longrightarrow> filter (\<lambda>x. x \<noteq> a) xs = xs"
  by (induction xs) auto

lemma all_update: "\<forall>x \<in> set xs. P x \<Longrightarrow> P y \<Longrightarrow> \<forall>x \<in> set (xs[i := y]). P x"
  using set_update_subset_insert by fastforce

end
