(* ===== verification/Vec.thy ===== *)
theory Vec
  imports Prelude
begin

text \<open>
  The id vector of \<^verbatim>\<open>ksid/vec.h\<close>: a growing array of pointers whose indices
  are the ids handed to clients, with a LIFO list of freed ids. The last part states what
  its clients rely on (the node list of each graph version, the time sequence resources)
  as the locale \<open>id_table\<close>, interpreted on the model.
\<close>

section \<open>Linked lists of the vector header\<close>

text \<open>
  The list macros walk singly linked cells owned by one list head; the model is the list
  of the cells' contents. \<open>ksiVecListDelete\<close> is given the predicate and whether its
  \<open>break\<close> argument is present.
\<close>

fun ksiVecListDelete :: "('a \<Rightarrow> bool) \<Rightarrow> bool \<Rightarrow> 'a list \<Rightarrow> 'a list" where
  "ksiVecListDelete P brk [] = []"
| "ksiVecListDelete P brk (me # rest) =
     (if P me then (if brk then rest else ksiVecListDelete P brk rest)
      else me # ksiVecListDelete P brk rest)"

definition ksiVecIdlistPush :: "int list \<Rightarrow> int \<Rightarrow> int list" where
  "ksiVecIdlistPush head i = i # head"

fun ksiVecIdlistPop :: "int list \<Rightarrow> (int \<times> int list) option" where
  "ksiVecIdlistPop [] = None"
| "ksiVecIdlistPop (f # rest) = Some (f, rest)"

fun ksiVecIdlistSearch :: "int list \<Rightarrow> int \<Rightarrow> bool" where
  "ksiVecIdlistSearch [] i = False"
| "ksiVecIdlistSearch (l # rest) i = (if l = i then True else ksiVecIdlistSearch rest i)"

lemma ksiVecListDelete_all [simp]: "ksiVecListDelete P False xs = filter (\<lambda>x. \<not> P x) xs"
  by (induction xs) auto

lemma ksiVecListDelete_first_distinct:
  "distinct xs \<Longrightarrow> ksiVecListDelete (\<lambda>x. x = a) True xs = filter (\<lambda>x. x \<noteq> a) xs"
  by (induction xs) (auto simp: filter_neq_id)

lemma ksiVecIdlistSearch_iff [simp]: "ksiVecIdlistSearch xs i \<longleftrightarrow> i \<in> set xs"
  by (induction xs) auto

section \<open>The vector\<close>

record ksi_vec =
  vsize :: int
  vcap :: int
  vdata :: "ptr list"
  vfree :: "int list"

text \<open>
  \<open>malloc\<close> leaves the cells of \<open>data\<close> indeterminate; no operation reads a cell
  at or above \<open>size\<close> before writing it, so the initial content is immaterial and
  \<open>NULL\<close> stands for it.
\<close>

definition ksiVecInit :: "int \<Rightarrow> ksi_vec" where
  "ksiVecInit cap = \<lparr>vsize = 0, vcap = cap, vdata = replicate (nat cap) NULL, vfree = []\<rparr>"

text \<open>Doubling the capacity is an \<open>int32_t\<close> multiplication: overflow is undefined.\<close>

definition ksiVecGrow :: "ksi_vec \<Rightarrow> ksi_vec option" where
  "ksiVecGrow v = (if vsize v < vcap v - 1 then Some v
     else do {
       need (int32_ok (vcap v * 2));
       Some (v\<lparr>vcap := vcap v * 2,
               vdata := vdata v @ replicate (nat (vcap v * 2) - length (vdata v)) NULL\<rparr>)
     })"

definition ksiVecInsert :: "ksi_vec \<Rightarrow> ptr \<Rightarrow> (int \<times> ksi_vec) option" where
  "ksiVecInsert v item =
     (case ksiVecIdlistPop (vfree v) of
        Some (ret, fl) \<Rightarrow> do {
          d \<leftarrow> set_at (vdata v) ret item;
          Some (ret, v\<lparr>vdata := d, vfree := fl\<rparr>)
        }
      | None \<Rightarrow> do {
          v \<leftarrow> ksiVecGrow v;
          d \<leftarrow> set_at (vdata v) (vsize v) item;
          Some (vsize v, v\<lparr>vdata := d, vsize := vsize v + 1\<rparr>)
        })"

definition ksiVecDelete :: "ksi_vec \<Rightarrow> int \<Rightarrow> ksi_vec option" where
  "ksiVecDelete v i =
     (if i = vsize v - 1 then Some (v\<lparr>vsize := vsize v - 1\<rparr>)
      else do {
        d \<leftarrow> set_at (vdata v) i NULL;
        Some (v\<lparr>vdata := d, vfree := ksiVecIdlistPush (vfree v) i\<rparr>)
      })"

text \<open>The condition of \<open>CHECK_VEC\<close>: \<open>True\<close> when the id passes the check.\<close>

definition CHECK_VEC :: "int \<Rightarrow> ksi_vec \<Rightarrow> bool option" where
  "CHECK_VEC i v =
     (if vsize v \<le> i then Some False
      else do { p \<leftarrow> get_at (vdata v) i; Some (p \<noteq> NULL) })"

text \<open>The pairs a \<open>ksiVecBeginIterate\<close> loop visits, in its order.\<close>

definition ksiVecIterate :: "ksi_vec \<Rightarrow> (int \<times> ptr) list" where
  "ksiVecIterate v = filter (\<lambda>(i, p). p \<noteq> NULL)
     (map (\<lambda>k. (int k, vdata v ! k)) [0..<nat (vsize v)])"

section \<open>Invariant and abstraction\<close>

definition vec_wf :: "ksi_vec \<Rightarrow> bool" where
  "vec_wf v \<longleftrightarrow>
     0 \<le> vsize v \<and> vsize v < vcap v \<and> int (length (vdata v)) = vcap v \<and>
     distinct (vfree v) \<and>
     (\<forall>i. i \<in> set (vfree v) \<longleftrightarrow> 0 \<le> i \<and> i < vsize v \<and> vdata v ! nat i = NULL)"

lemma vec_wfI:
  assumes "0 \<le> vsize v" "vsize v < vcap v" "int (length (vdata v)) = vcap v" "distinct (vfree v)"
    and "\<And>i. i \<in> set (vfree v) \<longleftrightarrow> 0 \<le> i \<and> i < vsize v \<and> vdata v ! nat i = NULL"
  shows "vec_wf v"
  using assms by (simp add: vec_wf_def)

lemma vec_wfD:
  assumes "vec_wf v"
  shows "0 \<le> vsize v" "vsize v < vcap v" "int (length (vdata v)) = vcap v" "distinct (vfree v)"
    and "i \<in> set (vfree v) \<longleftrightarrow> 0 \<le> i \<and> i < vsize v \<and> vdata v ! nat i = NULL"
  using assms by (simp_all add: vec_wf_def)

definition vec_map :: "ksi_vec \<Rightarrow> int \<Rightarrow> ptr option" where
  "vec_map v i = (if 0 \<le> i \<and> i < vsize v \<and> vdata v ! nat i \<noteq> NULL
                  then Some (vdata v ! nat i) else None)"

lemma vec_wf_init: "0 < cap \<Longrightarrow> vec_wf (ksiVecInit cap)"
  by (auto simp: vec_wf_def ksiVecInit_def)

lemma vec_map_init [simp]: "vec_map (ksiVecInit cap) = Map.empty"
  by (rule ext) (simp add: vec_map_def ksiVecInit_def)

lemma ksiVecInit_sizes: "vsize (ksiVecInit cap) = 0" "vcap (ksiVecInit cap) = cap"
  by (simp_all add: ksiVecInit_def)

lemma CHECK_VEC_wf:
  assumes "vec_wf v" "0 \<le> i"
  shows "CHECK_VEC i v = Some (vec_map v i \<noteq> None)"
  using assms by (auto simp: CHECK_VEC_def vec_map_def vec_wf_def get_at_def)

lemma nth_update_int:
  "0 \<le> i \<Longrightarrow> 0 \<le> j \<Longrightarrow> i < int (length xs) \<Longrightarrow>
     xs[nat i := x] ! nat j = (if j = i then x else xs ! nat j)"
  by (auto simp: nth_list_update)

lemma nth_append_int: "0 \<le> j \<Longrightarrow> j < int (length xs) \<Longrightarrow> (xs @ ys) ! nat j = xs ! nat j"
  by (simp add: nth_append nat_less_iff)

lemma ksiVecGrow_spec:
  assumes wf: "vec_wf v" and small: "vcap v < 2 ^ 30"
  obtains v' where "ksiVecGrow v = Some v'" "vec_wf v'" "vec_map v' = vec_map v"
    "vsize v' = vsize v" "vfree v' = vfree v" "vsize v' < vcap v' - 1"
    "vcap v' \<le> max (vcap v) (2 * (vsize v + 1))"
proof (cases "vsize v < vcap v - 1")
  case True
  then show ?thesis using wf by (intro that [of v]) (auto simp: ksiVecGrow_def)
next
  case False
  note b = vec_wfD [OF wf]
  define d where "d = vdata v @ replicate (nat (vcap v * 2) - length (vdata v)) NULL"
  let ?v = "v\<lparr>vcap := vcap v * 2, vdata := d\<rparr>"
  have nth: "d ! nat i = vdata v ! nat i" if "0 \<le> i" "i < vsize v" for i
    unfolding d_def using that b(2,3) by (intro nth_append_int) simp_all
  have len: "int (length d) = vcap v * 2" using b(1-3) by (simp add: d_def)
  have one: "1 < vcap v \<or> vsize v = 0" using b(1,2) by linarith
  show ?thesis
  proof (rule that [of ?v])
    show "ksiVecGrow v = Some ?v"
      using False b(1,2) small by (simp add: ksiVecGrow_def int32_ok_def d_def)
    show "vec_wf ?v"
      by (rule vec_wfI) (use b nth len in \<open>auto\<close>)
    show "vec_map ?v = vec_map v"
      by (rule ext) (use nth in \<open>auto simp: vec_map_def\<close>)
    show "vsize ?v < vcap ?v - 1" using b(1,2) one by auto
    show "vcap ?v \<le> max (vcap v) (2 * (vsize v + 1))" using False by simp
  qed simp_all
qed

text \<open>Insertion returns an id that was free and binds exactly that id.\<close>

lemma ksiVecInsert_spec:
  assumes wf: "vec_wf v" and small: "vcap v < 2 ^ 30" and p: "p \<noteq> NULL"
  obtains i v' where "ksiVecInsert v p = Some (i, v')" "vec_wf v'" "0 \<le> i"
    "vec_map v i = None" "vec_map v' = (vec_map v)(i \<mapsto> p)"
    "i = (if vfree v = [] then vsize v else hd (vfree v))" "vcap v' \<le> max (vcap v) (2 * vsize v')" "vsize v' \<le> vsize v + 1"
proof (cases "vfree v")
  case Nil
  obtain w where w: "ksiVecGrow v = Some w" "vec_wf w" "vec_map w = vec_map v"
    "vsize w = vsize v" "vfree w = vfree v" "vsize w < vcap w - 1" "vcap w \<le> max (vcap v) (2 * (vsize v + 1))"
    using ksiVecGrow_spec [OF wf small] by blast
  note b = vec_wfD [OF w(2)]
  let ?n = "vsize w"
  let ?v = "w\<lparr>vdata := (vdata w)[nat ?n := p], vsize := ?n + 1\<rparr>"
  have nth: "(vdata w)[nat ?n := p] ! nat j = (if j = ?n then p else vdata w ! nat j)"
    if "0 \<le> j" for j
    using that b(1-3) by (intro nth_update_int) simp_all
  show ?thesis
  proof (rule that [of ?n ?v])
    show "ksiVecInsert v p = Some (?n, ?v)"
      using w(1) b(1-3) Nil by (simp add: ksiVecInsert_def set_at_def)
    have cells: "j \<in> set (vfree ?v) \<longleftrightarrow> 0 \<le> j \<and> j < vsize ?v \<and> vdata ?v ! nat j = NULL" for j
    proof (cases "0 \<le> j")
      case True
      then show ?thesis using b(5) [of j] nth [of j] p Nil w(5) by (cases "j = ?n") auto
    next
      case False
      then show ?thesis using b(5) [of j] by simp
    qed
    show "vec_wf ?v"
      by (rule vec_wfI) (use b(1-4) w(6) cells in \<open>simp_all\<close>)
    show none: "vec_map v ?n = None" using w(3,4) by (simp add: vec_map_def)
    show "vec_map ?v = (vec_map v)(?n \<mapsto> p)"
      unfolding w(3) [symmetric]
    proof
      fix j
      show "vec_map ?v j = ((vec_map w)(?n \<mapsto> p)) j"
        using nth [of j] b(1) p by (cases "0 \<le> j") (auto simp: vec_map_def)
    qed
    show "?n = (if vfree v = [] then vsize v else hd (vfree v))" using Nil w(4) by simp
    show "vcap ?v \<le> max (vcap v) (2 * vsize ?v)" "vsize ?v \<le> vsize v + 1"
      using w(4,7) by simp_all
  qed (rule b(1))
next
  case (Cons i fl)
  note b = vec_wfD [OF wf]
  have i: "0 \<le> i" "i < vsize v" "vdata v ! nat i = NULL" using b(5) [of i] Cons by auto
  have nth: "(vdata v)[nat i := p] ! nat j = (if j = i then p else vdata v ! nat j)"
    if "0 \<le> j" for j
    using that i b(2,3) by (intro nth_update_int) simp_all
  let ?v = "v\<lparr>vdata := (vdata v)[nat i := p], vfree := fl\<rparr>"
  show ?thesis
  proof (rule that [of i ?v])
    show "ksiVecInsert v p = Some (i, ?v)"
      using i b(2,3) Cons by (simp add: ksiVecInsert_def set_at_def)
    have fl: "j \<in> set fl \<longleftrightarrow> j \<in> set (vfree v) \<and> j \<noteq> i" for j
      using b(4) Cons by auto
    have cells: "j \<in> set (vfree ?v) \<longleftrightarrow> 0 \<le> j \<and> j < vsize ?v \<and> vdata ?v ! nat j = NULL" for j
    proof (cases "0 \<le> j")
      case True
      then show ?thesis using fl [of j] b(5) [of j] nth [of j] p by simp
    next
      case False
      then show ?thesis using fl [of j] b(5) [of j] by simp
    qed
    show "vec_wf ?v"
      by (rule vec_wfI) (use b(1-4) Cons cells in \<open>simp_all\<close>)
    show "vec_map ?v = (vec_map v)(i \<mapsto> p)"
    proof
      fix j
      show "vec_map ?v j = ((vec_map v)(i \<mapsto> p)) j"
        using nth [of j] i p by (cases "0 \<le> j") (auto simp: vec_map_def)
    qed
    show "vcap ?v \<le> max (vcap v) (2 * vsize ?v)" by simp
  qed (use i Cons in \<open>simp_all add: vec_map_def\<close>)
qed

lemma ksiVecDelete_spec:
  assumes wf: "vec_wf v" and i: "vec_map v i = Some p"
  obtains v' where "ksiVecDelete v i = Some v'" "vec_wf v'" "vec_map v' = (vec_map v)(i := None)"
    "vcap v' = vcap v" "vsize v' \<le> vsize v"
proof -
  note b = vec_wfD [OF wf]
  from i have i: "0 \<le> i" "i < vsize v" "vdata v ! nat i = p" "p \<noteq> NULL"
    by (auto simp: vec_map_def split: if_splits)
  show ?thesis
  proof (cases "i = vsize v - 1")
    case True
    let ?v = "v\<lparr>vsize := vsize v - 1\<rparr>"
    show ?thesis
    proof (rule that [of ?v])
      have cells: "j \<in> set (vfree ?v) \<longleftrightarrow> 0 \<le> j \<and> j < vsize ?v \<and> vdata ?v ! nat j = NULL" for j
        using b(5) [of j] i True by (cases "j = i") auto
      show "vec_wf ?v" by (rule vec_wfI) (use b(1-4) i cells in \<open>simp_all\<close>)
      show "vec_map ?v = (vec_map v)(i := None)"
        by (rule ext) (use True in \<open>auto simp: vec_map_def\<close>)
    qed (use True in \<open>simp_all add: ksiVecDelete_def\<close>)
  next
    case False
    have nth: "(vdata v)[nat i := NULL] ! nat j = (if j = i then NULL else vdata v ! nat j)"
      if "0 \<le> j" for j
      using that i b(2,3) by (intro nth_update_int) simp_all
    let ?v = "v\<lparr>vdata := (vdata v)[nat i := NULL], vfree := i # vfree v\<rparr>"
    have cells: "j \<in> set (vfree ?v) \<longleftrightarrow> 0 \<le> j \<and> j < vsize ?v \<and> vdata ?v ! nat j = NULL" for j
    proof (cases "0 \<le> j")
      case True
      then show ?thesis using b(5) [of j] nth [of j] i by auto
    next
      case neg: False
      then show ?thesis using b(5) [of j] i by auto
    qed
    show ?thesis
    proof (rule that [of ?v])
      have "i \<notin> set (vfree v)" using b(5) [of i] i by simp
      then show "vec_wf ?v" by (intro vec_wfI) (use b(1-4) cells in \<open>simp_all\<close>)
      show "vec_map ?v = (vec_map v)(i := None)"
      proof
        fix j
        show "vec_map ?v j = ((vec_map v)(i := None)) j"
          using nth [of j] i by (cases "0 \<le> j") (auto simp: vec_map_def)
      qed
    qed (use False i b(2,3) in \<open>simp_all add: ksiVecDelete_def ksiVecIdlistPush_def set_at_def\<close>)
  qed
qed

lemma ksiVecIterate_set:
  "set (ksiVecIterate v) = {(i, p). vec_map v i = Some p}"
proof -
  have "x \<in> set (ksiVecIterate v) \<longleftrightarrow> vec_map v (fst x) = Some (snd x)" for x
    by (cases x) (auto simp: ksiVecIterate_def vec_map_def image_iff intro: bexI [of _ "nat (fst x)"])
  then show ?thesis by auto
qed

section \<open>The interface of the id vector\<close>

locale id_table =
  fixes ins :: "'v \<Rightarrow> ptr \<Rightarrow> (int \<times> 'v) option"
    and del :: "'v \<Rightarrow> int \<Rightarrow> 'v option"
    and chk :: "int \<Rightarrow> 'v \<Rightarrow> bool option"
    and tbl :: "'v \<Rightarrow> int \<Rightarrow> ptr option"
    and inv :: "'v \<Rightarrow> bool"
    and room :: "'v \<Rightarrow> bool"
  assumes ins_ok: "inv v \<Longrightarrow> room v \<Longrightarrow> p \<noteq> NULL \<Longrightarrow>
      \<exists>i v'. ins v p = Some (i, v') \<and> inv v' \<and> 0 \<le> i \<and> tbl v i = None \<and> tbl v' = (tbl v)(i \<mapsto> p)"
    and del_ok: "inv v \<Longrightarrow> tbl v i = Some p \<Longrightarrow>
      \<exists>v'. del v i = Some v' \<and> inv v' \<and> tbl v' = (tbl v)(i := None)"
    and chk_ok: "inv v \<Longrightarrow> 0 \<le> i \<Longrightarrow> chk i v = Some (tbl v i \<noteq> None)"
begin

lemma ins_fresh:
  assumes "inv v" "room v" "p \<noteq> NULL" "ins v p = Some (i, v')"
  shows "inv v'" "0 \<le> i" "tbl v i = None" "tbl v' = (tbl v)(i \<mapsto> p)" "chk i v' = Some True"
proof -
  from ins_ok [OF assms(1-3)] assms(4)
  show *: "inv v'" "0 \<le> i" "tbl v i = None" "tbl v' = (tbl v)(i \<mapsto> p)" by auto
  show "chk i v' = Some True" using chk_ok [OF *(1,2)] *(4) by simp
qed

lemma ins_keeps:
  assumes "inv v" "room v" "p \<noteq> NULL" "ins v p = Some (i, v')" "tbl v j = Some q"
  shows "j \<noteq> i" "tbl v' j = Some q"
  using ins_fresh [OF assms(1-4)] assms(5) by auto

lemma ins_del:
  assumes "inv v" "room v" "p \<noteq> NULL" "ins v p = Some (i, v')"
  shows "\<exists>v''. del v' i = Some v'' \<and> inv v'' \<and> tbl v'' = tbl v"
proof -
  note f = ins_fresh [OF assms]
  have "tbl v' i = Some p" using f(4) by simp
  from del_ok [OF f(1) this] obtain v'' where
    "del v' i = Some v''" "inv v''" "tbl v'' = (tbl v')(i := None)" by auto
  then show ?thesis using f(3,4) by (auto simp: fun_upd_idem)
qed

lemma del_unbinds:
  assumes "inv v" "tbl v i = Some p" "0 \<le> i" "del v i = Some v'"
  shows "inv v'" "chk i v' = Some False" "j \<noteq> i \<Longrightarrow> tbl v' j = tbl v j"
  using del_ok [OF assms(1,2)] chk_ok [of v' i] assms(3,4) by auto

end

interpretation ids: id_table ksiVecInsert ksiVecDelete CHECK_VEC vec_map vec_wf "\<lambda>v. vcap v < 2 ^ 30"
proof
  fix v p assume "vec_wf v" "vcap v < 2 ^ 30" "p \<noteq> NULL"
  from ksiVecInsert_spec [OF this] show "\<exists>i v'. ksiVecInsert v p = Some (i, v') \<and> vec_wf v' \<and> 0 \<le> i \<and>
      vec_map v i = None \<and> vec_map v' = (vec_map v)(i \<mapsto> p)" by metis
next
  fix v i p assume "vec_wf v" "vec_map v i = Some p"
  from ksiVecDelete_spec [OF this]
  show "\<exists>v'. ksiVecDelete v i = Some v' \<and> vec_wf v' \<and> vec_map v' = (vec_map v)(i := None)" by metis
next
  fix v i assume "vec_wf v" "(0::int) \<le> i"
  then show "CHECK_VEC i v = Some (vec_map v i \<noteq> None)" by (rule CHECK_VEC_wf)
qed

section \<open>Runs\<close>

text \<open>
  A client's use of the vector: insertions, and deletions guarded by \<open>CHECK_VEC\<close>. The
  run returns the ids handed out; \<open>table_run\<close> is what the sequence does to the abstract
  table when those are the ids.
\<close>

datatype id_op = Put ptr | Drop int

fun vec_run :: "id_op list \<Rightarrow> ksi_vec \<Rightarrow> (int list \<times> ksi_vec) option" where
  "vec_run [] v = Some ([], v)"
| "vec_run (Put p # ops) v = do {
     (i, v) \<leftarrow> ksiVecInsert v p;
     (is, v) \<leftarrow> vec_run ops v;
     Some (i # is, v)
   }"
| "vec_run (Drop i # ops) v = do {
     ok \<leftarrow> CHECK_VEC i v;
     v \<leftarrow> (if ok then ksiVecDelete v i else Some v);
     vec_run ops v
   }"

fun table_run :: "id_op list \<Rightarrow> int list \<Rightarrow> (int \<Rightarrow> ptr option) \<Rightarrow> (int \<Rightarrow> ptr option)" where
  "table_run (Put p # ops) (i # is) m = table_run ops is (m(i \<mapsto> p))"
| "table_run (Drop i # ops) is m = table_run ops is (m(i := None))"
| "table_run ops is m = m"

text \<open>Every id handed out was unbound at that moment.\<close>

fun fresh_ids :: "id_op list \<Rightarrow> int list \<Rightarrow> (int \<Rightarrow> ptr option) \<Rightarrow> bool" where
  "fresh_ids (Put p # ops) (i # is) m \<longleftrightarrow> 0 \<le> i \<and> m i = None \<and> fresh_ids ops is (m(i \<mapsto> p))"
| "fresh_ids (Drop i # ops) is m \<longleftrightarrow> fresh_ids ops is (m(i := None))"
| "fresh_ids [] is m \<longleftrightarrow> is = []"
| "fresh_ids (Put p # ops) [] m \<longleftrightarrow> False"

fun op_ok :: "id_op \<Rightarrow> bool" where
  "op_ok (Put p) \<longleftrightarrow> p \<noteq> NULL"
| "op_ok (Drop i) \<longleftrightarrow> 0 \<le> i"

fun puts :: "id_op list \<Rightarrow> int" where
  "puts [] = 0"
| "puts (Put p # ops) = 1 + puts ops"
| "puts (Drop i # ops) = puts ops"

lemma puts_nonneg [simp]: "0 \<le> puts ops"
  by (induction ops rule: puts.induct) auto

lemma vec_run_spec:
  assumes "vec_wf v" "\<forall>x \<in> set ops. op_ok x" "vcap v < 2 ^ 30" "vsize v + puts ops < 2 ^ 29"
  shows "\<exists>is v'. vec_run ops v = Some (is, v') \<and> vec_wf v' \<and> fresh_ids ops is (vec_map v) \<and>
           vec_map v' = table_run ops is (vec_map v)"
  using assms
proof (induction ops arbitrary: v rule: puts.induct)
  case 1
  then show ?case by simp
next
  case (2 p ops)
  then have p: "p \<noteq> NULL" by simp
  obtain i w where w: "ksiVecInsert v p = Some (i, w)" "vec_wf w" "0 \<le> i" "vec_map v i = None"
    "vec_map w = (vec_map v)(i \<mapsto> p)" "vcap w \<le> max (vcap v) (2 * vsize w)" "vsize w \<le> vsize v + 1"
    using ksiVecInsert_spec [OF 2(2,4) p] by metis
  have size: "vsize w + puts ops < 2 ^ 29" using w(7) 2(5) by simp
  then have "vsize w < 2 ^ 29" using puts_nonneg [of ops] by linarith
  then have "vcap w < 2 ^ 30" using w(6) 2(4) by simp
  from 2(1) [OF w(2) _ this size] 2(3) obtain "is" v' where "vec_run ops w = Some (is, v')"
    "vec_wf v'" "fresh_ids ops is (vec_map w)" "vec_map v' = table_run ops is (vec_map w)" by auto
  then show ?case using w by simp
next
  case (3 i ops)
  then have i: "0 \<le> i" by simp
  show ?case
  proof (cases "vec_map v i")
    case None
    then have "(vec_map v)(i := None) = vec_map v" by auto
    moreover have "CHECK_VEC i v = Some False" using CHECK_VEC_wf [OF 3(2) i] None by simp
    ultimately show ?thesis using 3 by simp
  next
    case (Some p)
    obtain w where w: "ksiVecDelete v i = Some w" "vec_wf w" "vec_map w = (vec_map v)(i := None)"
      "vcap w = vcap v" "vsize w \<le> vsize v" using ksiVecDelete_spec [OF 3(2) Some] by metis
    from 3(1) [OF w(2)] 3(3-5) w(4,5) obtain "is" v' where "vec_run ops w = Some (is, v')"
      "vec_wf v'" "fresh_ids ops is (vec_map w)" "vec_map v' = table_run ops is (vec_map w)" by auto
    moreover have "CHECK_VEC i v = Some True" using CHECK_VEC_wf [OF 3(2) i] Some by simp
    ultimately show ?thesis using w by simp
  qed
qed

section \<open>Properties\<close>



text \<open>deleting the id an insertion returned succeeds and restores the table the insertion
  started from, whatever the history of the vector.\<close>

theorem vec_insert_delete:
  assumes "vec_wf v" "vcap v < 2 ^ 30" "p \<noteq> NULL" "ksiVecInsert v p = Some (i, v')"
  shows "\<exists>v''. ksiVecDelete v' i = Some v'' \<and> vec_wf v'' \<and> vec_map v'' = vec_map v"
  by (rule ids.ins_del [OF assms])

theorem vec_insert_delete_witness:
  "\<exists>i v' v''. ksiVecInsert (ksiVecInit 4) 7 = Some (i, v') \<and> ksiVecDelete v' i = Some v'' \<and>
     vec_wf v'' \<and> vec_map v'' = Map.empty"
proof -
  have wf: "vec_wf (ksiVecInit 4)" by (rule vec_wf_init) simp
  moreover have cap: "vcap (ksiVecInit 4) < 2 ^ 30" by (simp add: ksiVecInit_def)
  ultimately obtain i v' where i: "ksiVecInsert (ksiVecInit 4) 7 = Some (i, v')"
    using ids.ins_ok [of "ksiVecInit 4" 7] by auto
  show ?thesis using vec_insert_delete [OF wf cap _ i] i by auto
qed

text \<open>the check that guards every operation on ids does not look at negative ids: it reads the
  cell before the array (undefined behaviour) instead of reporting that the id is unknown.\<close>

theorem CHECK_VEC_negative:
  assumes "vec_wf v" "i < 0"
  shows "CHECK_VEC i v = None"
  using assms by (auto simp: CHECK_VEC_def get_at_def dest: vec_wfD(1))

theorem CHECK_VEC_negative_witness: "CHECK_VEC (- 1) (ksiVecInit 4) = None"
  by (rule CHECK_VEC_negative) (simp_all add: vec_wf_init)

end
