(* ===== verification/Spsc.thy ===== *)
theory Spsc
  imports Prelude
begin

text \<open>
  The single-producer single-consumer list of \<^verbatim>\<open>ksid/spsc_queue.h\<close>, at the level
  of its cells: a chain of nodes that starts with the recycled ones (\<open>cacheHead\<close> up to
  \<open>tail\<close>), goes on with the last consumed one (\<open>tail\<close>) and ends in the last
  produced one (\<open>head\<close>). The queue is parameterised by the value that stands for
  "empty" (\<open>invalidVal\<close> of the macro). What the clients rely on is the locale
  \<open>fifo\<close>, interpreted on the model at the end.
\<close>

section \<open>Cells and operations\<close>

record 'a spsc_node =
  qnext :: ptr
  payload :: 'a

text \<open>
  \<open>qmem\<close> holds the queue's live cells and \<open>qfresh\<close> the address the allocator
  returns next; addresses are only ever compared for equality.
\<close>

record 'a spsc =
  qhead :: ptr
  cacheHead :: ptr
  cacheTail :: ptr
  qtail :: ptr
  qmem :: "ptr \<Rightarrow> 'a spsc_node option"
  qfresh :: ptr

definition ksiSPSCListInit :: "'a \<Rightarrow> 'a spsc" where
  "ksiSPSCListInit invalidVal =
     \<lparr>qhead = 1, cacheHead = 1, cacheTail = 1, qtail = 1,
      qmem = Map.empty(1 \<mapsto> \<lparr>qnext = NULL, payload = invalidVal\<rparr>), qfresh = 2\<rparr>"

text \<open>
  A recycled cell leaves the cache; the cell's fields keep their old values until
  \<open>Enqueue\<close> overwrites them. A new cell has an indeterminate payload, which
  \<open>Enqueue\<close> overwrites too: \<open>junk\<close> stands for it.
\<close>

definition ksiSPSCListNodeAlloc :: "'a \<Rightarrow> 'a spsc \<Rightarrow> (ptr \<times> 'a spsc) option" where
  "ksiSPSCListNodeAlloc junk q =
     (if cacheHead q \<noteq> cacheTail q then do {
        c \<leftarrow> qmem q (cacheHead q);
        Some (cacheHead q, q\<lparr>cacheHead := qnext c\<rparr>)
      }
      else let q = q\<lparr>cacheTail := qtail q\<rparr> in
        if cacheHead q \<noteq> cacheTail q then do {
          c \<leftarrow> qmem q (cacheHead q);
          Some (cacheHead q, q\<lparr>cacheHead := qnext c\<rparr>)
        }
        else Some (qfresh q,
          q\<lparr>qmem := (qmem q)(qfresh q \<mapsto> \<lparr>qnext = NULL, payload = junk\<rparr>),
            qfresh := Suc (qfresh q)\<rparr>))"

definition ksiSPSCListEnqueue :: "'a spsc \<Rightarrow> 'a \<Rightarrow> 'a spsc option" where
  "ksiSPSCListEnqueue q d = do {
     (n, q) \<leftarrow> ksiSPSCListNodeAlloc d q;
     _ \<leftarrow> qmem q n;
     q \<leftarrow> Some (q\<lparr>qmem := (qmem q)(n \<mapsto> \<lparr>qnext = NULL, payload = d\<rparr>)\<rparr>);
     h \<leftarrow> qmem q (qhead q);
     Some (q\<lparr>qmem := (qmem q)(qhead q \<mapsto> h\<lparr>qnext := n\<rparr>), qhead := n\<rparr>)
   }"

definition ksiSPSCListDequeue :: "'a \<Rightarrow> 'a spsc \<Rightarrow> ('a \<times> 'a spsc) option" where
  "ksiSPSCListDequeue invalidVal q = do {
     n \<leftarrow> qmem q (qtail q);
     (if qnext n \<noteq> NULL then do {
        nn \<leftarrow> qmem q (qnext n);
        Some (payload nn, q\<lparr>qtail := qnext n\<rparr>)
      }
      else Some (invalidVal, q))
   }"

text \<open>
  \<open>Destroy\<close> frees the chain from \<open>cacheHead\<close>; the result is the memory left. The
  first argument bounds the walk by the number of cells.
\<close>

fun spsc_free_from :: "nat \<Rightarrow> ptr \<Rightarrow> (ptr \<Rightarrow> 'a spsc_node option) \<Rightarrow> (ptr \<Rightarrow> 'a spsc_node option) option" where
  "spsc_free_from 0 n mem = (if n = NULL then Some mem else None)"
| "spsc_free_from (Suc fuel) n mem =
     (if n = NULL then Some mem
      else do {
        c \<leftarrow> mem n;
        spsc_free_from fuel (qnext c) (mem(n := None))
      })"

definition ksiSPSCListDestroy :: "'a spsc \<Rightarrow> (ptr \<Rightarrow> 'a spsc_node option) option" where
  "ksiSPSCListDestroy q = spsc_free_from (qfresh q) (cacheHead q) (qmem q)"

section \<open>Chains of cells\<close>

fun chain :: "(ptr \<Rightarrow> 'a spsc_node option) \<Rightarrow> ptr list \<Rightarrow> ptr \<Rightarrow> bool" where
  "chain m [] e = True"
| "chain m [a] e \<longleftrightarrow> a \<noteq> NULL \<and> (\<exists>c. m a = Some c \<and> qnext c = e)"
| "chain m (a # b # r) e \<longleftrightarrow> a \<noteq> NULL \<and> (\<exists>c. m a = Some c \<and> qnext c = b) \<and> chain m (b # r) e"

lemma chain_live: "chain m ns e \<Longrightarrow> a \<in> set ns \<Longrightarrow> a \<noteq> NULL \<and> m a \<noteq> None"
  by (induction m ns e rule: chain.induct) auto

lemma chain_Cons:
  "chain m (a # ns) e \<longleftrightarrow>
     a \<noteq> NULL \<and> (\<exists>c. m a = Some c \<and> qnext c = (case ns of [] \<Rightarrow> e | b # _ \<Rightarrow> b)) \<and> chain m ns e"
  by (cases ns) auto

lemma chain_append:
  "chain m (xs @ ys) e \<longleftrightarrow> chain m xs (case ys of [] \<Rightarrow> e | y # _ \<Rightarrow> y) \<and> chain m ys e"
proof (induction xs)
  case Nil
  then show ?case by simp
next
  case (Cons a xs)
  then show ?case by (cases xs; cases ys) (auto simp: chain_Cons)
qed

lemma chain_cong: "(\<And>a. a \<in> set ns \<Longrightarrow> m a = m' a) \<Longrightarrow> chain m ns e = chain m' ns e"
  by (induction m ns e rule: chain.induct) auto

definition pays :: "(ptr \<Rightarrow> 'a spsc_node option) \<Rightarrow> ptr list \<Rightarrow> 'a list" where
  "pays m ns = map (\<lambda>a. payload (the (m a))) ns"

lemma pays_cong: "(\<And>a. a \<in> set ns \<Longrightarrow> m a = m' a) \<Longrightarrow> pays m ns = pays m' ns"
  by (simp add: pays_def)

section \<open>Invariant and abstraction\<close>

text \<open>
  \<open>spsc_rep q rs cs ls\<close>: the chain of \<open>q\<close> is \<open>rs @ cs @ ls\<close>, with \<open>rs\<close> the
  cells the producer knows to be recycled (up to \<open>cacheTail\<close>, exclusive), \<open>cs\<close> those
  between \<open>cacheTail\<close> and \<open>tail\<close> inclusive, and \<open>ls\<close> the queued ones.
\<close>

definition spsc_rep :: "'a spsc \<Rightarrow> ptr list \<Rightarrow> ptr list \<Rightarrow> ptr list \<Rightarrow> bool" where
  "spsc_rep q rs cs ls \<longleftrightarrow>
     chain (qmem q) (rs @ cs @ ls) NULL \<and> distinct (rs @ cs @ ls) \<and> cs \<noteq> [] \<and>
     cacheHead q = hd (rs @ cs) \<and> cacheTail q = hd cs \<and> qtail q = last cs \<and>
     qhead q = last (cs @ ls) \<and> dom (qmem q) = set (rs @ cs @ ls) \<and>
     (\<forall>a \<in> set (rs @ cs @ ls). a < qfresh q) \<and> NULL < qfresh q"

definition spsc_inv :: "'a spsc \<Rightarrow> bool" where
  "spsc_inv q \<longleftrightarrow> (\<exists>rs cs ls. spsc_rep q rs cs ls)"

text \<open>The queued values: what lies behind \<open>tail\<close>, in order.\<close>

fun follow :: "nat \<Rightarrow> (ptr \<Rightarrow> 'a spsc_node option) \<Rightarrow> ptr \<Rightarrow> 'a list" where
  "follow 0 m a = []"
| "follow (Suc k) m a =
     (case m a of None \<Rightarrow> [] | Some c \<Rightarrow>
        (case m (qnext c) of None \<Rightarrow> [] | Some c' \<Rightarrow> payload c' # follow k m (qnext c)))"

definition spsc_list :: "'a spsc \<Rightarrow> 'a list" where
  "spsc_list q = follow (qfresh q) (qmem q) (qtail q)"

lemma follow_chain:
  assumes "chain m (a # ls) NULL" "m NULL = None" "length ls \<le> k"
  shows "follow k m a = pays m ls"
  using assms
proof (induction ls arbitrary: a k)
  case Nil
  then show ?case by (cases k) (auto simp: pays_def)
next
  case (Cons b ls)
  then obtain k' where k: "k = Suc k'" by (cases k) auto
  from Cons.prems have c: "chain m (b # ls) NULL" by simp
  with Cons.prems have "m b \<noteq> None" by (auto simp: chain_Cons)
  with Cons.IH [OF c Cons.prems(2), of k'] Cons.prems k
  show ?case by (auto simp: pays_def)
qed

lemma spsc_rep_split:
  assumes "spsc_rep q rs cs ls"
  shows "chain (qmem q) (qtail q # ls) NULL" "qmem q NULL = None"
    "length (rs @ cs @ ls) < qfresh q"
proof -
  from assms have c: "chain (qmem q) (rs @ cs @ ls) NULL" and ne: "cs \<noteq> []"
    and t: "qtail q = last cs" by (auto simp: spsc_rep_def)
  from ne have "cs = butlast cs @ [last cs]" by simp
  then have "rs @ cs @ ls = (rs @ butlast cs) @ last cs # ls" by (metis append.assoc append_Cons append_Nil)
  with c t show "chain (qmem q) (qtail q # ls) NULL" by (simp add: chain_append)
  have nn: "NULL \<notin> set (rs @ cs @ ls)" using c chain_live by metis
  with assms show "qmem q NULL = None" unfolding spsc_rep_def by (metis domIff)
  have "set (rs @ cs @ ls) \<subseteq> {1..<qfresh q}"
    using assms nn by (auto simp: spsc_rep_def Suc_le_eq intro: gr0I)
  then have "card (set (rs @ cs @ ls)) \<le> card {1..<qfresh q}" by (rule card_mono [rotated]) simp
  with assms show "length (rs @ cs @ ls) < qfresh q"
    unfolding spsc_rep_def by (simp add: distinct_card del: set_append distinct_append) linarith
qed

lemma spsc_list_rep: "spsc_rep q rs cs ls \<Longrightarrow> spsc_list q = pays (qmem q) ls"
  unfolding spsc_list_def
  by (rule follow_chain) (use spsc_rep_split [of q rs cs ls] in auto)

lemma spsc_inv_init: "spsc_inv (ksiSPSCListInit v)" and spsc_list_init: "spsc_list (ksiSPSCListInit v) = []"
proof -
  have r: "spsc_rep (ksiSPSCListInit v) [] [1] []"
    by (auto simp: spsc_rep_def ksiSPSCListInit_def)
  then show "spsc_inv (ksiSPSCListInit v)" by (auto simp: spsc_inv_def)
  show "spsc_list (ksiSPSCListInit v) = []" using spsc_list_rep [OF r] by (simp add: pays_def)
qed

section \<open>Enqueue and dequeue\<close>

text \<open>Linking a detached live cell \<open>n\<close> behind \<open>head\<close> extends the chain by it.\<close>

lemma spsc_link:
  assumes rep: "spsc_rep (q\<lparr>qmem := (qmem q)(n := None)\<rparr>) rs cs ls"
    and n: "n \<noteq> NULL" "n < qfresh q"
  obtains h where "((qmem q)(n \<mapsto> \<lparr>qnext = NULL, payload = d\<rparr>)) (qhead q) = Some h"
    "spsc_rep (q\<lparr>qmem := (qmem q)(n \<mapsto> \<lparr>qnext = NULL, payload = d\<rparr>,
                                  qhead q \<mapsto> h\<lparr>qnext := n\<rparr>), qhead := n\<rparr>) rs cs (ls @ [n])"
    "pays ((qmem q)(n \<mapsto> \<lparr>qnext = NULL, payload = d\<rparr>, qhead q \<mapsto> h\<lparr>qnext := n\<rparr>)) (ls @ [n])
       = pays (qmem q) ls @ [d]"
proof -
  let ?m = "(qmem q)(n := None)" and ?h = "qhead q"
  let ?all = "rs @ cs @ ls"
  from rep have c: "chain ?m ?all NULL" and dist: "distinct ?all" and ne: "cs \<noteq> []"
    and hd: "?h = last (cs @ ls)" and dom: "dom ?m = set ?all"
    by (auto simp: spsc_rep_def)
  have nin: "n \<notin> set ?all" using dom by (metis domIff fun_upd_same)
  define pre where "pre = butlast ?all"
  have "?h = last ?all" using ne hd by simp
  moreover have "?all \<noteq> []" using ne by simp
  ultimately have all: "?all = pre @ [?h]"
    unfolding pre_def by (metis append_butlast_last_id)
  have "?h \<in> set ?all" by (simp add: all)
  with dom have "?m ?h \<noteq> None" by (metis domIff)
  with nin all obtain h where h: "qmem q ?h = Some h" "?h \<noteq> n" by (auto split: if_splits)
  let ?m' = "(qmem q)(n \<mapsto> \<lparr>qnext = NULL, payload = d\<rparr>, ?h \<mapsto> h\<lparr>qnext := n\<rparr>)"
  have pre: "chain ?m' pre ?h"
  proof -
    have "chain ?m pre ?h" using c unfolding all by (simp add: chain_append)
    moreover have "?m a = ?m' a" if "a \<in> set pre" for a
      using that dist nin unfolding all by (auto simp: fun_upd_def)
    ultimately show ?thesis by (subst chain_cong [of pre ?m' ?m]) auto
  qed
  have "?h \<noteq> NULL" using c unfolding all by (simp add: chain_append)
  then have c': "chain ?m' (?all @ [n]) NULL"
    unfolding all using pre h(2) n by (simp add: chain_append)
  have dom': "dom ?m' = insert n (set ?all)"
    using dom h by (auto simp: all)
  show ?thesis
  proof (rule that [of h])
    show "((qmem q)(n \<mapsto> \<lparr>qnext = NULL, payload = d\<rparr>)) ?h = Some h" using h by simp
    show "spsc_rep (q\<lparr>qmem := ?m', qhead := n\<rparr>) rs cs (ls @ [n])"
      using rep c' dom' nin dist n(2) unfolding spsc_rep_def by auto
    have same: "payload (the (?m' a)) = payload (the (qmem q a))" if "a \<in> set ls" for a
      using that nin h by auto
    show "pays ?m' (ls @ [n]) = pays (qmem q) ls @ [d]"
      using same h(2) by (simp add: pays_def)
  qed
qed

lemma spsc_alloc_cached:
  assumes rep: "spsc_rep q (r # rs) cs ls"
  obtains c where "qmem q r = Some c" "qnext c = hd (rs @ cs)" "cacheHead q = r" "r \<noteq> NULL"
    "r < qfresh q" "cacheHead q \<noteq> cacheTail q"
    "spsc_rep (q\<lparr>cacheHead := qnext c, qmem := (qmem q)(r := None)\<rparr>) rs cs ls"
proof -
  from rep have ch: "chain (qmem q) (r # rs @ cs @ ls) NULL" and ne: "cs \<noteq> []"
    and dist: "distinct (r # rs @ cs @ ls)" by (auto simp: spsc_rep_def)
  have tl: "(case rs @ cs @ ls of [] \<Rightarrow> NULL | b # _ \<Rightarrow> b) = hd (rs @ cs)"
    using ne by (cases rs; cases cs) simp_all
  from ch obtain c where c: "qmem q r = Some c" "qnext c = hd (rs @ cs)" "r \<noteq> NULL"
    unfolding chain_Cons tl by blast
  have "chain (qmem q) (rs @ cs @ ls) NULL" using ch by (simp add: chain_Cons)
  then have "chain ((qmem q)(r := None)) (rs @ cs @ ls) NULL"
    using dist by (subst chain_cong [of _ _ "qmem q"]) auto
  then have "spsc_rep (q\<lparr>cacheHead := qnext c, qmem := (qmem q)(r := None)\<rparr>) rs cs ls"
    using rep c dist unfolding spsc_rep_def by auto
  moreover have "cacheHead q \<noteq> cacheTail q"
    using rep dist ne by (auto simp: spsc_rep_def)
  ultimately show ?thesis using that c rep by (auto simp: spsc_rep_def)
qed

lemma spsc_alloc_fresh:
  assumes rep: "spsc_rep q rs cs ls"
  shows "spsc_rep (q\<lparr>qfresh := Suc (qfresh q), qmem := (qmem q)(qfresh q := None)\<rparr>) rs cs ls"
proof -
  have "qfresh q \<notin> set (rs @ cs @ ls)" using rep unfolding spsc_rep_def by blast
  moreover from this rep have "qmem q (qfresh q) = None"
    unfolding spsc_rep_def by (metis domIff)
  then have "(qmem q)(qfresh q := None) = qmem q" by auto
  ultimately show ?thesis using rep unfolding spsc_rep_def by (auto simp: less_Suc_eq)
qed

lemma spsc_retail:
  assumes rep: "spsc_rep q [] cs ls"
  shows "spsc_rep (q\<lparr>cacheTail := qtail q\<rparr>) (butlast cs) [last cs] ls"
proof -
  from rep have ne: "cs \<noteq> []" by (simp add: spsc_rep_def)
  then have cs: "cs = butlast cs @ [last cs]" by simp
  have all: "butlast cs @ [last cs] @ ls = [] @ cs @ ls" using cs by (metis append_Nil append.assoc)
  have hd: "hd (butlast cs @ [last cs]) = hd cs" using cs by simp
  show ?thesis
    using rep ne unfolding spsc_rep_def all hd by simp
qed

text \<open>\<open>NodeAlloc\<close> always succeeds, and detaches a cell the queue does not use.\<close>

lemma spsc_alloc_spec:
  assumes rep: "spsc_rep q rs cs ls"
  obtains n q' rs' cs' where "ksiSPSCListNodeAlloc junk q = Some (n, q')" "n \<noteq> NULL"
    "n < qfresh q'" "qmem q' n \<noteq> None" "spsc_rep (q'\<lparr>qmem := (qmem q')(n := None)\<rparr>) rs' cs' ls"
    "\<And>a. a \<in> set ls \<Longrightarrow> qmem q' a = qmem q a" "qtail q' = qtail q" "qfresh q' \<le> Suc (qfresh q)"
proof (cases rs)
  case (Cons r rs')
  obtain c where c: "qmem q r = Some c" "qnext c = hd (rs' @ cs)" "cacheHead q = r" "r \<noteq> NULL"
    "r < qfresh q" "cacheHead q \<noteq> cacheTail q"
    "spsc_rep (q\<lparr>cacheHead := qnext c, qmem := (qmem q)(r := None)\<rparr>) rs' cs ls"
    using spsc_alloc_cached rep Cons by blast
  show ?thesis
    by (rule that [of r "q\<lparr>cacheHead := qnext c\<rparr>" rs' cs])
      (use c in \<open>auto simp: ksiSPSCListNodeAlloc_def\<close>)
next
  case Nil
  with rep have rep0: "spsc_rep q [] cs ls" by simp
  then have eq: "cacheHead q = cacheTail q" "cs \<noteq> []" by (auto simp: spsc_rep_def)
  let ?q = "q\<lparr>cacheTail := qtail q\<rparr>"
  have rep1: "spsc_rep ?q (butlast cs) [last cs] ls" by (rule spsc_retail [OF rep0])
  show ?thesis
  proof (cases "butlast cs")
    case (Cons r rs')
    obtain c where c: "qmem q r = Some c" "cacheHead q = r" "r \<noteq> NULL" "r < qfresh q"
      "cacheHead ?q \<noteq> cacheTail ?q"
      "spsc_rep (?q\<lparr>cacheHead := qnext c, qmem := (qmem q)(r := None)\<rparr>) rs' [last cs] ls"
    proof (rule spsc_alloc_cached [of ?q r rs' "[last cs]" ls])
      show "spsc_rep ?q (r # rs') [last cs] ls" using rep1 Cons by simp
    qed simp
    show ?thesis
      by (rule that [of r "?q\<lparr>cacheHead := qnext c\<rparr>" rs' "[last cs]"])
        (use c eq in \<open>auto simp: ksiSPSCListNodeAlloc_def\<close>)
  next
    case Nil
    have same: "cacheHead ?q = cacheTail ?q" using rep1 Nil by (simp add: spsc_rep_def)
    have fr: "qfresh q \<notin> set ls" using rep by (auto simp: spsc_rep_def)
    let ?r = "?q\<lparr>qmem := (qmem q)(qfresh q \<mapsto> \<lparr>qnext = NULL, payload = junk\<rparr>),
            qfresh := Suc (qfresh q)\<rparr>"
    show ?thesis
    proof (rule that [of "qfresh q" ?r "butlast cs" "[last cs]"])
      show "ksiSPSCListNodeAlloc junk q = Some (qfresh q, ?r)"
        using same eq(1) by (simp add: ksiSPSCListNodeAlloc_def)
      show "qfresh q \<noteq> NULL" using rep by (simp add: spsc_rep_def)
      show "spsc_rep (?r\<lparr>qmem := (qmem ?r)(qfresh q := None)\<rparr>) (butlast cs) [last cs] ls"
        using spsc_alloc_fresh [OF rep1] by simp
      show "qmem ?r a = qmem q a" if "a \<in> set ls" for a
        using that fr by auto
    qed simp_all
  qed
qed

lemma ksiSPSCListEnqueue_spec:
  assumes "spsc_inv q"
  obtains q' where "ksiSPSCListEnqueue q d = Some q'" "spsc_inv q'"
    "spsc_list q' = spsc_list q @ [d]"
proof -
  from assms obtain rs cs ls where rep: "spsc_rep q rs cs ls" by (auto simp: spsc_inv_def)
  obtain n q1 rs' cs' where a: "ksiSPSCListNodeAlloc d q = Some (n, q1)" "n \<noteq> NULL" "n < qfresh q1"
    "qmem q1 n \<noteq> None" "spsc_rep (q1\<lparr>qmem := (qmem q1)(n := None)\<rparr>) rs' cs' ls"
    "\<And>a. a \<in> set ls \<Longrightarrow> qmem q1 a = qmem q a"
    using spsc_alloc_spec [OF rep, of d] by metis
  obtain h where h: "((qmem q1)(n \<mapsto> \<lparr>qnext = NULL, payload = d\<rparr>)) (qhead q1) = Some h"
    "spsc_rep (q1\<lparr>qmem := (qmem q1)(n \<mapsto> \<lparr>qnext = NULL, payload = d\<rparr>,
                                  qhead q1 \<mapsto> h\<lparr>qnext := n\<rparr>), qhead := n\<rparr>) rs' cs' (ls @ [n])"
    "pays ((qmem q1)(n \<mapsto> \<lparr>qnext = NULL, payload = d\<rparr>, qhead q1 \<mapsto> h\<lparr>qnext := n\<rparr>)) (ls @ [n])
       = pays (qmem q1) ls @ [d]"
    using spsc_link [OF a(5,2,3)] by blast
  let ?q = "q1\<lparr>qmem := (qmem q1)(n \<mapsto> \<lparr>qnext = NULL, payload = d\<rparr>,
                                  qhead q1 \<mapsto> h\<lparr>qnext := n\<rparr>), qhead := n\<rparr>"
  show ?thesis
  proof (rule that [of ?q])
    show "ksiSPSCListEnqueue q d = Some ?q"
      using a(1,4) h(1) by (auto simp: ksiSPSCListEnqueue_def)
    show "spsc_inv ?q" using h(2) by (auto simp: spsc_inv_def)
    show "spsc_list ?q = spsc_list q @ [d]"
      using spsc_list_rep [OF h(2)] spsc_list_rep [OF rep] h(3) pays_cong [OF a(6)] by simp
  qed
qed

lemma ksiSPSCListDequeue_spec:
  assumes "spsc_inv q"
  obtains q' where
    "ksiSPSCListDequeue iv q = Some (case spsc_list q of [] \<Rightarrow> iv | x # _ \<Rightarrow> x, q')" "spsc_inv q'"
    "spsc_list q' = tl (spsc_list q)"
proof -
  from assms obtain rs cs ls where rep: "spsc_rep q rs cs ls" by (auto simp: spsc_inv_def)
  have ch: "chain (qmem q) (qtail q # ls) NULL" by (rule spsc_rep_split(1) [OF rep])
  then obtain c where c: "qmem q (qtail q) = Some c" "qnext c = (case ls of [] \<Rightarrow> NULL | b # _ \<Rightarrow> b)"
    by (auto simp: chain_Cons)
  note lst = spsc_list_rep [OF rep]
  show ?thesis
  proof (cases ls)
    case Nil
    then have "ksiSPSCListDequeue iv q = Some (iv, q)"
      using c by (simp add: ksiSPSCListDequeue_def)
    with assms lst Nil show ?thesis by (intro that [of q]) (simp_all add: pays_def)
  next
    case (Cons b ls')
    with ch obtain c' where b: "qmem q b = Some c'" "b \<noteq> NULL" by (auto simp: chain_Cons)
    let ?q = "q\<lparr>qtail := b\<rparr>"
    have rep': "spsc_rep ?q rs (cs @ [b]) ls'"
      using rep Cons unfolding spsc_rep_def by (auto simp: hd_append)
    show ?thesis
    proof (rule that [of ?q])
      show "ksiSPSCListDequeue iv q = Some (case spsc_list q of [] \<Rightarrow> iv | x # _ \<Rightarrow> x, ?q)"
        using c b Cons lst by (simp add: ksiSPSCListDequeue_def pays_def)
      show "spsc_inv ?q" using rep' by (auto simp: spsc_inv_def)
      show "spsc_list ?q = tl (spsc_list q)"
        using spsc_list_rep [OF rep'] lst Cons by (simp add: pays_def)
    qed
  qed
qed

text \<open>\<open>Destroy\<close> frees every cell of the queue exactly once.\<close>

lemma spsc_free_chain:
  "chain m ns NULL \<Longrightarrow> distinct ns \<Longrightarrow> length ns \<le> fuel \<Longrightarrow>
     spsc_free_from fuel (case ns of [] \<Rightarrow> NULL | a # _ \<Rightarrow> a) m = Some (m |` (- set ns))"
proof (induction ns arbitrary: m fuel)
  case Nil
  then show ?case by (cases fuel) (simp_all add: restrict_map_def)
next
  case (Cons a ns)
  then obtain f where f: "fuel = Suc f" by (cases fuel) auto
  from Cons.prems obtain c where c: "m a = Some c" "qnext c = (case ns of [] \<Rightarrow> NULL | b # _ \<Rightarrow> b)"
    "a \<noteq> NULL" "chain m ns NULL" by (auto simp: chain_Cons)
  have "chain (m(a := None)) ns NULL"
    using c(4) Cons.prems(2) by (subst chain_cong [of _ _ m]) auto
  then have "spsc_free_from f (qnext c) (m(a := None)) = Some ((m(a := None)) |` (- set ns))"
    using Cons.IH [of "m(a := None)" f] Cons.prems(2,3) f c(2) by (simp del: fun_upd_apply)
  moreover have "(m(a := None)) |` (- set ns) = m |` (- set (a # ns))"
    by (auto simp: restrict_map_def)
  ultimately show ?case using c f by simp
qed

lemma ksiSPSCListDestroy_spec:
  assumes "spsc_inv q"
  shows "ksiSPSCListDestroy q = Some Map.empty"
proof -
  from assms obtain rs cs ls where rep: "spsc_rep q rs cs ls" by (auto simp: spsc_inv_def)
  let ?ns = "rs @ cs @ ls"
  have hd: "cacheHead q = (case ?ns of [] \<Rightarrow> NULL | a # _ \<Rightarrow> a)"
    using rep by (cases rs; cases cs) (simp_all add: spsc_rep_def)
  have "ksiSPSCListDestroy q = Some (qmem q |` (- set ?ns))"
    unfolding ksiSPSCListDestroy_def hd
    by (rule spsc_free_chain) (use rep spsc_rep_split(3) [OF rep] in \<open>auto simp: spsc_rep_def\<close>)
  also have "qmem q |` (- set ?ns) = Map.empty"
    using rep unfolding spsc_rep_def by (intro ext) (auto simp: restrict_map_def domIff [symmetric])
  finally show ?thesis .
qed

section \<open>The queue interface\<close>

text \<open>
  What the editing code relies on: both operations succeed and act on the abstract list
  as a FIFO. \<open>deqs\<close> and \<open>enqs\<close> run several operations.
\<close>

locale fifo =
  fixes enq :: "'q \<Rightarrow> 'a \<Rightarrow> 'q option"
    and deq :: "'q \<Rightarrow> ('a \<times> 'q) option"
    and list_of :: "'q \<Rightarrow> 'a list"
    and inv :: "'q \<Rightarrow> bool"
    and invalid :: 'a
  assumes enq_law: "inv q \<Longrightarrow> \<exists>q'. enq q x = Some q' \<and> inv q' \<and> list_of q' = list_of q @ [x]"
    and deq_law: "inv q \<Longrightarrow> \<exists>q'. deq q = Some (case list_of q of [] \<Rightarrow> invalid | x # _ \<Rightarrow> x, q')
                    \<and> inv q' \<and> list_of q' = tl (list_of q)"
begin

primrec enqs :: "'a list \<Rightarrow> 'q \<Rightarrow> 'q option" where
  "enqs [] q = Some q"
| "enqs (x # xs) q = Option.bind (enq q x) (enqs xs)"

primrec deqs :: "nat \<Rightarrow> 'q \<Rightarrow> ('a list \<times> 'q) option" where
  "deqs 0 q = Some ([], q)"
| "deqs (Suc n) q =
     Option.bind (deq q) (\<lambda>(x, q). Option.bind (deqs n q) (\<lambda>(xs, q). Some (x # xs, q)))"

lemma enqs_spec: "inv q \<Longrightarrow> \<exists>q'. enqs xs q = Some q' \<and> inv q' \<and> list_of q' = list_of q @ xs"
proof (induction xs arbitrary: q)
  case Nil
  then show ?case by simp
next
  case (Cons x xs)
  obtain q1 where "enq q x = Some q1" "inv q1" "list_of q1 = list_of q @ [x]"
    using enq_law [OF Cons.prems] by blast
  with Cons.IH [of q1] show ?case by auto
qed

lemma deqs_spec:
  "inv q \<Longrightarrow> list_of q = xs @ ys \<Longrightarrow>
     \<exists>q'. deqs (length xs) q = Some (xs, q') \<and> inv q' \<and> list_of q' = ys"
proof (induction xs arbitrary: q)
  case Nil
  then show ?case by simp
next
  case (Cons x xs)
  obtain q1 where "deq q = Some (x, q1)" "inv q1" "list_of q1 = xs @ ys"
    using deq_law [OF Cons.prems(1)] Cons.prems(2) by auto
  with Cons.IH [of q1] show ?case by auto
qed

text \<open>Everything the producer puts in comes out once, in order.\<close>

lemma enqs_deqs:
  assumes "inv q" "list_of q = []"
  shows "\<exists>q' q''. enqs xs q = Some q' \<and> deqs (length xs) q' = Some (xs, q'')
           \<and> inv q'' \<and> list_of q'' = []"
proof -
  obtain q' where q': "enqs xs q = Some q'" "inv q'" "list_of q' = list_of q @ xs"
    using enqs_spec [OF assms(1)] by blast
  with deqs_spec [of q' xs "[]"] assms(2) show ?thesis by auto
qed

text \<open>
  Any interleaving of the two sides, on the queue and on the list it stands for: the
  outputs are those of the dequeues, in order.
\<close>

fun queue_run :: "'a option list \<Rightarrow> 'q \<Rightarrow> ('a list \<times> 'q) option" where
  "queue_run [] q = Some ([], q)"
| "queue_run (Some x # ops) q = Option.bind (enq q x) (queue_run ops)"
| "queue_run (None # ops) q =
     Option.bind (deq q) (\<lambda>(x, q). Option.bind (queue_run ops q) (\<lambda>(xs, q). Some (x # xs, q)))"

fun list_run :: "'a option list \<Rightarrow> 'a list \<Rightarrow> 'a list \<times> 'a list" where
  "list_run [] xs = ([], xs)"
| "list_run (Some x # ops) xs = list_run ops (xs @ [x])"
| "list_run (None # ops) [] = (let (out, ys) = list_run ops [] in (invalid # out, ys))"
| "list_run (None # ops) (x # xs) = (let (out, ys) = list_run ops xs in (x # out, ys))"

lemma queue_run_spec:
  "inv q \<Longrightarrow> \<exists>q'. queue_run ops q = Some (fst (list_run ops (list_of q)), q') \<and> inv q' \<and>
     list_of q' = snd (list_run ops (list_of q))"
proof (induction ops "list_of q" arbitrary: q rule: list_run.induct)
  case 1
  then show ?case by simp
next
  case (2 x ops)
  obtain q1 where "enq q x = Some q1" "inv q1" "list_of q1 = list_of q @ [x]"
    using enq_law [OF 2(2)] by blast
  with 2(1) [of q1] show ?case by auto
next
  case (3 ops)
  obtain q1 where "deq q = Some (invalid, q1)" "inv q1" "list_of q1 = []"
    using deq_law [OF 3(3)] 3(2) by (metis list.sel(2) list.simps(4))
  with 3(1) [of q1] 3(2) show ?case by (auto simp: split_beta)
next
  case (4 ops x xs)
  obtain q1 where "deq q = Some (x, q1)" "inv q1" "list_of q1 = xs"
    using deq_law [OF 4(3)] 4(2) by (metis list.sel(3) list.simps(5))
  moreover have "list_of q = x # xs" using 4(2) by simp
  ultimately show ?case using 4(1) [of q1] by (auto simp: split_beta)
qed

lemma deq_empty: "inv q \<Longrightarrow> list_of q = [] \<Longrightarrow> \<exists>q'. deq q = Some (invalid, q') \<and> inv q' \<and> list_of q' = []"
  using deq_law by fastforce

lemma deq_Cons: "inv q \<Longrightarrow> list_of q = x # xs \<Longrightarrow> \<exists>q'. deq q = Some (x, q') \<and> inv q' \<and> list_of q' = xs"
  using deq_law by fastforce

end

interpretation sq: fifo ksiSPSCListEnqueue "ksiSPSCListDequeue iv" spsc_list spsc_inv iv for iv
proof
  fix q :: "'a spsc" and x
  assume "spsc_inv q"
  then show "\<exists>q'. ksiSPSCListEnqueue q x = Some q' \<and> spsc_inv q' \<and> spsc_list q' = spsc_list q @ [x]"
    by (rule ksiSPSCListEnqueue_spec) blast
next
  fix q :: "'a spsc"
  assume "spsc_inv q"
  then show "\<exists>q'. ksiSPSCListDequeue iv q = Some (case spsc_list q of [] \<Rightarrow> iv | x # _ \<Rightarrow> x, q')
      \<and> spsc_inv q' \<and> spsc_list q' = tl (spsc_list q)"
    by (rule ksiSPSCListDequeue_spec) blast
qed

section \<open>Properties\<close>

text \<open>The producer's and consumer's calls, any order: \<open>Some x\<close> enqueues, \<open>None\<close> dequeues.\<close>

fun spsc_run :: "'a \<Rightarrow> 'a option list \<Rightarrow> 'a spsc \<Rightarrow> ('a list \<times> 'a spsc) option" where
  "spsc_run iv [] q = Some ([], q)"
| "spsc_run iv (Some x # ops) q = do { q \<leftarrow> ksiSPSCListEnqueue q x; spsc_run iv ops q }"
| "spsc_run iv (None # ops) q = do {
     (x, q) \<leftarrow> ksiSPSCListDequeue iv q;
     (xs, q) \<leftarrow> spsc_run iv ops q;
     Some (x # xs, q)
   }"

fun fifo_run :: "'a \<Rightarrow> 'a option list \<Rightarrow> 'a list \<Rightarrow> 'a list \<times> 'a list" where
  "fifo_run iv [] xs = ([], xs)"
| "fifo_run iv (Some x # ops) xs = fifo_run iv ops (xs @ [x])"
| "fifo_run iv (None # ops) [] = (let (out, ys) = fifo_run iv ops [] in (iv # out, ys))"
| "fifo_run iv (None # ops) (x # xs) = (let (out, ys) = fifo_run iv ops xs in (x # out, ys))"

lemma spsc_run_eq: "spsc_run iv ops q = sq.queue_run iv ops q"
  by (induction iv ops q rule: spsc_run.induct) (auto intro!: Option.bind_cong)

lemma fifo_run_eq: "fifo_run iv ops xs = sq.list_run iv ops xs"
  by (induction iv ops xs rule: fifo_run.induct) auto

lemma spsc_run_spec:
  "spsc_inv q \<Longrightarrow> \<exists>q'. spsc_run iv ops q = Some (fst (fifo_run iv ops (spsc_list q)), q') \<and> spsc_inv q' \<and>
     spsc_list q' = snd (fifo_run iv ops (spsc_list q))"
  unfolding spsc_run_eq fifo_run_eq by (rule sq.queue_run_spec)

text \<open>C38: for any interleaving of enqueues and dequeues on a queue fresh from \<open>Init\<close>, with its
  recycling of cells, no access leaves the queue's cells and every dequeue returns what a FIFO list
  returns (the invalid value when it is empty); what stays queued is what the list holds.\<close>

theorem spsc_refines_fifo:
  "\<exists>q. spsc_run iv ops (ksiSPSCListInit iv) = Some (fst (fifo_run iv ops []), q) \<and> spsc_inv q \<and>
     spsc_list q = snd (fifo_run iv ops [])"
  using spsc_run_spec [OF spsc_inv_init, of iv ops iv] by (simp add: spsc_list_init)

text \<open>after any interleaving of enqueues and dequeues, \<open>Destroy\<close> frees every cell the queue
  ever allocated, each exactly once: nothing leaks and nothing is freed twice.\<close>

theorem spsc_destroy_frees_all:
  assumes "spsc_run iv ops (ksiSPSCListInit iv) = Some (out, q)"
  shows "ksiSPSCListDestroy q = Some Map.empty"
  using spsc_run_spec [OF spsc_inv_init, of iv ops iv] assms by (auto intro: ksiSPSCListDestroy_spec)

theorem spsc_destroy_frees_all_witness:
  "\<exists>q. spsc_run (0::nat) [Some 5, None, Some 6, Some 7, None] (ksiSPSCListInit 0) = Some ([5, 6], q) \<and>
     ksiSPSCListDestroy q = Some Map.empty"
proof -
  let ?ops = "[Some (5::nat), None, Some 6, Some 7, None]"
  obtain q where q: "spsc_run 0 ?ops (ksiSPSCListInit 0) = Some ([5, 6], q)"
    using spsc_run_spec [OF spsc_inv_init, of 0 ?ops 0] by (auto simp: spsc_list_init)
  from q spsc_destroy_frees_all [OF q] show ?thesis by blast
qed

end
