(* ===== verification/Data.thy ===== *)
theory Data
  imports Prelude
begin

text \<open>
  Sample values and port types: \<^verbatim>\<open>ksid/data.h\<close>, the error codes of
  \<^verbatim>\<open>ksid/err.h\<close> and the plugin table of \<^verbatim>\<open>ksid/inline_meta.h\<close>. A
  \<open>KsiData\<close> is a union of an \<open>int32_t\<close> and a \<open>float\<close>; its model is the 32-bit
  pattern the two members share, and the float operations are those of IEEE 754 binary32
  on that pattern.
\<close>

section \<open>Error codes\<close>

datatype KsiError =
    ksiErrorNone
  | ksiErrorIdNotFound
  | ksiErrorSrcIdNotFound
  | ksiErrorDesIdNotFound
  | ksiErrorTimeSeqIdNotFound
  | ksiErrorPortNotFound
  | ksiErrorSrcPortNotFound
  | ksiErrorDesPortNotFound
  | ksiErrorAlreadyWire
  | ksiErrorMultipleFinal
  | ksiErrorRing
  | ksiErrorWireNotFound
  | ksiErrorFileSystem
  | ksiErrorAudio
  | ksiErrorIdempotent
  | ksiErrorSyntax
  | ksiErrorResIdNotFound
  | ksiErrorType
  | ksiErrorNeedSignal
  | ksiErrorNoEditCmd
  | ksiErrorNoPlugin
  | ksiErrorPlugin
  | ksiErrorUninitialized
  | ksiErrorNotInBatch
  | ksiErrorAudioNotStarted

section \<open>Binary32 arithmetic\<close>

text \<open>
  Round to nearest, ties to even, as C's \<open>float\<close> on the platforms the code targets;
  every NaN result is the default quiet NaN. \<open>f32_round s n k\<close> is the pattern nearest
  to \<open>n * 2 ^ k\<close> with sign \<open>s\<close>.
\<close>

type_synonym KsiData = int32

definition f32_nan :: KsiData where "f32_nan = 0x7FC00000"

definition f32_sign :: "KsiData \<Rightarrow> bool" where "f32_sign w \<longleftrightarrow> bit w 31"

definition f32_exp :: "KsiData \<Rightarrow> int" where "f32_exp w = uint (drop_bit 23 w AND 0xFF)"

definition f32_frac :: "KsiData \<Rightarrow> int" where "f32_frac w = uint (w AND 0x7FFFFF)"

definition f32_is_nan :: "KsiData \<Rightarrow> bool" where
  "f32_is_nan w \<longleftrightarrow> f32_exp w = 255 \<and> f32_frac w \<noteq> 0"

definition f32_is_inf :: "KsiData \<Rightarrow> bool" where
  "f32_is_inf w \<longleftrightarrow> f32_exp w = 255 \<and> f32_frac w = 0"

definition f32_mant :: "KsiData \<Rightarrow> int" where
  "f32_mant w = (if f32_exp w = 0 then f32_frac w else f32_frac w + 2 ^ 23)"

definition f32_scale :: "KsiData \<Rightarrow> int" where
  "f32_scale w = (if f32_exp w = 0 then - 149 else f32_exp w - 150)"

definition f32_pack :: "bool \<Rightarrow> int \<Rightarrow> int \<Rightarrow> KsiData" where
  "f32_pack s e m = word_of_int ((if s then 2 ^ 31 else 0) + e * 2 ^ 23 + m)"

function bit_length :: "int \<Rightarrow> int" where
  "bit_length n = (if n \<le> 0 then 0 else 1 + bit_length (n div 2))"
  by pat_completeness auto
termination
  by (relation "measure nat") auto

declare bit_length.simps [simp del]

definition f32_round :: "bool \<Rightarrow> int \<Rightarrow> int \<Rightarrow> KsiData" where
  "f32_round s n k =
     (let sh = max (bit_length n - 24) (- 149 - k);
          q = (if sh \<le> 0 then n * 2 ^ nat (- sh)
               else let d = n div 2 ^ nat sh; r = n mod 2 ^ nat sh; h = 2 ^ (nat sh - 1) in
                 if h < r \<or> (r = h \<and> odd d) then d + 1 else d);
          (q, e) = (if q = 2 ^ 24 then (2 ^ 23, k + sh + 1) else (q, k + sh))
      in if q < 2 ^ 23 then f32_pack s 0 q
         else if 255 \<le> e + 150 then f32_pack s 255 0
         else f32_pack s (e + 150) (q - 2 ^ 23))"

definition f32_add :: "KsiData \<Rightarrow> KsiData \<Rightarrow> KsiData" where
  "f32_add a b =
     (if f32_is_nan a \<or> f32_is_nan b then f32_nan
      else if f32_is_inf a then
        (if f32_is_inf b \<and> f32_sign a \<noteq> f32_sign b then f32_nan else a)
      else if f32_is_inf b then b
      else let k = min (f32_scale a) (f32_scale b);
               val = (\<lambda>w. (if f32_sign w then - 1 else 1) * f32_mant w * 2 ^ nat (f32_scale w - k));
               n = val a + val b
        in if n = 0 then f32_pack (f32_sign a \<and> f32_sign b) 0 0
           else f32_round (n < 0) \<bar>n\<bar> k)"

definition f32_mul :: "KsiData \<Rightarrow> KsiData \<Rightarrow> KsiData" where
  "f32_mul a b =
     (let s = (f32_sign a \<noteq> f32_sign b) in
      if f32_is_nan a \<or> f32_is_nan b then f32_nan
      else if f32_is_inf a \<or> f32_is_inf b then
        (if (f32_is_inf a \<or> f32_mant a \<noteq> 0) \<and> (f32_is_inf b \<or> f32_mant b \<noteq> 0)
         then f32_pack s 255 0 else f32_nan)
      else let n = f32_mant a * f32_mant b in
        if n = 0 then f32_pack s 0 0 else f32_round s n (f32_scale a + f32_scale b))"

text \<open>The comparison \<open>d.f == 1.0f\<close>: one pattern compares equal to one.\<close>

definition f32_one :: KsiData where "f32_one = 0x3F800000"

section \<open>Multiplying by one\<close>

lemma bit_length_pos: "0 < n \<Longrightarrow> bit_length n = 1 + bit_length (n div 2)"
  by (subst bit_length.simps) simp

lemma bit_length_nonpos [simp]: "n \<le> 0 \<Longrightarrow> bit_length n = 0"
  by (subst bit_length.simps) simp

lemma bit_length_shift: "0 < n \<Longrightarrow> bit_length (n * 2 ^ k) = bit_length n + int k"
proof (induction k)
  case 0
  then show ?case by simp
next
  case (Suc k)
  have "n * 2 ^ Suc k div 2 = n * 2 ^ k" by simp
  then show ?case using Suc by (subst bit_length_pos) simp_all
qed

lemma bit_length_le: "0 \<le> n \<Longrightarrow> n < 2 ^ k \<Longrightarrow> bit_length n \<le> int k"
proof (induction k arbitrary: n)
  case 0
  then show ?case by simp
next
  case (Suc k)
  show ?case
  proof (cases "n = 0")
    case False
    then show ?thesis using Suc.IH [of "n div 2"] Suc.prems by (subst bit_length_pos) auto
  qed simp
qed

lemma bit_length_ge: "2 ^ k \<le> n \<Longrightarrow> int k + 1 \<le> bit_length n"
proof (induction k arbitrary: n)
  case 0
  have "0 \<le> bit_length m" for m
    by (induction m rule: bit_length.induct) (subst bit_length.simps, simp)
  with 0 show ?case by (subst bit_length_pos) auto
next
  case (Suc k)
  then have "2 ^ k \<le> n div 2" by auto
  moreover have "0 < n" using Suc.prems by (smt (verit) zero_less_power)
  ultimately show ?case using Suc.IH [of "n div 2"] by (subst bit_length_pos) auto
qed

lemma f32_fields:
  "f32_exp w = uint w div 2 ^ 23 mod 2 ^ 8" "f32_frac w = uint w mod 2 ^ 23"
  "f32_sign w \<longleftrightarrow> 2 ^ 31 \<le> uint w"
proof -
  have 1: "(0xFF :: KsiData) = mask 8" "(0x7FFFFF :: KsiData) = mask 23" by (simp_all add: mask_eq_exp_minus_1)
  show "f32_exp w = uint w div 2 ^ 23 mod 2 ^ 8"
    unfolding f32_exp_def 1 by (simp add: take_bit_eq_mask [symmetric] unsigned_take_bit_eq uint_div_distrib uint_mod_distrib drop_bit_eq_div take_bit_eq_mod)
  show "f32_frac w = uint w mod 2 ^ 23"
    unfolding f32_frac_def 1 by (simp add: take_bit_eq_mask [symmetric] uint_mod_distrib take_bit_eq_mod)
  have "uint w < 2 ^ 32" using uint_lt2p [of w] by simp
  then have "uint w div 2 ^ 31 = (if 2 ^ 31 \<le> uint w then 1 else 0)" by auto
  moreover have "bit (uint w) 31 \<longleftrightarrow> odd (uint w div 2 ^ 31)" by (rule bit_iff_odd)
  moreover have "bit (uint w) 31 = bit w 31" by (simp add: bit_uint_iff)
  ultimately show "f32_sign w \<longleftrightarrow> 2 ^ 31 \<le> uint w"
    unfolding f32_sign_def by auto
qed

lemma f32_pack_fields: "f32_pack (f32_sign w) (f32_exp w) (f32_frac w) = w"
proof -
  have u: "0 \<le> uint w" "uint w < 2 ^ 32" using uint_lt2p [of w] by simp_all
  have "(if f32_sign w then 2 ^ 31 else 0) + f32_exp w * 2 ^ 23 + f32_frac w = uint w"
  proof -
    have d: "uint w = uint w div 2 ^ 23 * 2 ^ 23 + uint w mod 2 ^ 23" by (rule div_mult_mod_eq [symmetric])
    show ?thesis
    proof (cases "2 ^ 31 \<le> uint w")
      case True
      then have "2 ^ 8 \<le> uint w div 2 ^ 23" "uint w div 2 ^ 23 < 2 * 2 ^ 8" using u by auto
      then have "uint w div 2 ^ 23 mod 2 ^ 8 = uint w div 2 ^ 23 - 2 ^ 8"
        by (subst mod_pos_pos_trivial [of "uint w div 2 ^ 23 - 2 ^ 8" "2 ^ 8", symmetric]) auto
      then show ?thesis unfolding f32_fields using True d by simp
    next
      case False
      then have "uint w div 2 ^ 23 < 2 ^ 8" using u by auto
      moreover have "0 \<le> uint w div 2 ^ 23" using u by (simp add: pos_imp_zdiv_nonneg_iff)
      ultimately have "uint w div 2 ^ 23 mod 2 ^ 8 = uint w div 2 ^ 23" by (rule mod_pos_pos_trivial [rotated])
      then show ?thesis unfolding f32_fields using False d by simp
    qed
  qed
  then show ?thesis unfolding f32_pack_def by simp
qed

lemma f32_bounds: "0 \<le> f32_exp w" "f32_exp w < 256" "0 \<le> f32_frac w" "f32_frac w < 2 ^ 23"
  unfolding f32_fields by simp_all

lemma f32_one_fields: "f32_mant f32_one = 2 ^ 23" "f32_scale f32_one = - 23" "\<not> f32_is_nan f32_one"
  "\<not> f32_is_inf f32_one" "\<not> f32_sign f32_one"
  by (simp_all add: f32_mant_def f32_scale_def f32_is_nan_def f32_is_inf_def f32_fields f32_one_def)

text \<open>Rounding a value that already is one of the format gives it back.\<close>

lemma f32_round_exact:
  assumes "0 < f32_mant w" "f32_exp w \<noteq> 255"
  shows "f32_round (f32_sign w) (f32_mant w * 2 ^ 23) (f32_scale w - 23) = w"
proof -
  note b = f32_bounds [of w]
  let ?m = "f32_mant w" and ?k = "f32_scale w"
  have bl: "bit_length (?m * 2 ^ 23) = bit_length ?m + 23"
    using bit_length_shift [OF assms(1), of 23] by simp
  have m: "?m < 2 ^ 24" using b by (auto simp: f32_mant_def)
  have sh: "max (bit_length (?m * 2 ^ 23) - 24) (- 149 - (?k - 23)) = 23"
  proof (cases "f32_exp w = 0")
    case True
    then have "bit_length ?m \<le> 23" using bit_length_le [of ?m 23] b by (simp add: f32_mant_def)
    with True bl show ?thesis by (simp add: f32_scale_def)
  next
    case False
    then have "2 ^ 23 \<le> ?m" using b by (simp add: f32_mant_def)
    then have "bit_length ?m = 24"
      using bit_length_ge [of 23 ?m] bit_length_le [of ?m 24] m assms(1) by simp
    with False bl b show ?thesis by (simp add: f32_scale_def)
  qed
  have q: "?m * 2 ^ 23 div 2 ^ 23 = ?m" "?m * 2 ^ 23 mod 2 ^ 23 = 0" by simp_all
  have "f32_round (f32_sign w) (?m * 2 ^ 23) (?k - 23) =
     (if ?m < 2 ^ 23 then f32_pack (f32_sign w) 0 ?m
      else if 255 \<le> ?k + 150 then f32_pack (f32_sign w) 255 0
      else f32_pack (f32_sign w) (?k + 150) (?m - 2 ^ 23))"
    unfolding f32_round_def Let_def sh using m by simp
  also have "\<dots> = w"
  proof (cases "f32_exp w = 0")
    case True
    then show ?thesis using b f32_pack_fields [of w] by (simp add: f32_mant_def)
  next
    case False
    then show ?thesis using b assms(2) f32_pack_fields [of w] by (simp add: f32_mant_def f32_scale_def)
  qed
  finally show ?thesis .
qed

lemma f32_mul_one:
  assumes "\<not> f32_is_nan w"
  shows "f32_mul w f32_one = w"
proof (cases "f32_is_inf w")
  case True
  then have "f32_pack (f32_sign w) 255 0 = w"
    using f32_pack_fields [of w] by (simp add: f32_is_inf_def)
  then show ?thesis using assms True by (simp add: f32_mul_def f32_one_fields)
next
  case False
  have e: "f32_exp w \<noteq> 255" using assms False by (auto simp: f32_is_nan_def f32_is_inf_def)
  show ?thesis
  proof (cases "f32_mant w = 0")
    case True
    then have "f32_exp w = 0 \<and> f32_frac w = 0"
      using f32_bounds [of w] by (auto simp: f32_mant_def split: if_splits)
    then have "f32_pack (f32_sign w) 0 0 = w" using f32_pack_fields [of w] by simp
    then show ?thesis using assms False True by (simp add: f32_mul_def f32_one_fields)
  next
    case nz: False
    then have "0 < f32_mant w" using f32_bounds [of w] by (auto simp: f32_mant_def split: if_splits)
    from f32_round_exact [OF this e] show ?thesis
      using assms False nz by (simp add: f32_mul_def f32_one_fields Let_def)
  qed
qed

section \<open>Port types\<close>

definition ksiNodePortTypeFloat :: int8 where "ksiNodePortTypeFloat = 0x0"
definition ksiNodePortTypeGate :: int8 where "ksiNodePortTypeGate = 0x1"
definition ksiNodePortTypeInt32 :: int8 where "ksiNodePortTypeInt32 = 0x2"
definition ksiNodePortTypeEventFlag :: int8 where "ksiNodePortTypeEventFlag = 0x8"
definition ksiNodePortTypeEventFloat :: int8 where "ksiNodePortTypeEventFloat = 0x0 OR 0x8"
definition ksiNodePortTypeEventGate :: int8 where "ksiNodePortTypeEventGate = 0x1 OR 0x8"
definition ksiNodePortTypeEventInt32 :: int8 where "ksiNodePortTypeEventInt32 = 0x2 OR 0x8"
definition ksiNodePortTypeEventString :: int8 where "ksiNodePortTypeEventString = 0x3 OR 0x8"
definition ksiNodePortTypeEventList :: int8 where "ksiNodePortTypeEventList = 0x4 OR 0x8"
definition ksiNodePortTypeMask :: int8 where "ksiNodePortTypeMask = 0xF"
definition ksiNodePortTypeDataMask :: int8 where "ksiNodePortTypeDataMask = 0x7"
definition ksiNodePortIOMask :: int8 where "ksiNodePortIOMask = 0xF0"
definition ksiNodePortIODirty :: int8 where "ksiNodePortIODirty = 0x10"

lemmas port_type_defs =
  ksiNodePortTypeFloat_def ksiNodePortTypeGate_def ksiNodePortTypeInt32_def
  ksiNodePortTypeEventFlag_def ksiNodePortTypeEventFloat_def ksiNodePortTypeEventGate_def
  ksiNodePortTypeEventInt32_def ksiNodePortTypeEventString_def ksiNodePortTypeEventList_def
  ksiNodePortTypeMask_def ksiNodePortTypeDataMask_def ksiNodePortIOMask_def ksiNodePortIODirty_def

definition ksiNodePortIOClear :: "int8 \<Rightarrow> int8" where
  "ksiNodePortIOClear t = t AND NOT ksiNodePortIOMask"

definition ksiNodePortIOSetDirty :: "int8 \<Rightarrow> int8" where
  "ksiNodePortIOSetDirty t = (t AND NOT ksiNodePortIOMask) OR ksiNodePortIODirty"

abbreviation is_event :: "int8 \<Rightarrow> bool" where
  "is_event t \<equiv> t AND ksiNodePortTypeEventFlag \<noteq> 0"

abbreviation port_type :: "int8 \<Rightarrow> int8" where
  "port_type t \<equiv> t AND ksiNodePortTypeMask"

definition ksiDataTypeToCharacter :: "int8 \<Rightarrow> char option" where
  "ksiDataTypeToCharacter typeFlag =
     (let t = port_type typeFlag in
      if t = ksiNodePortTypeEventFloat then Some (CHR ''F'')
      else if t = ksiNodePortTypeEventGate then Some (CHR ''G'')
      else if t = ksiNodePortTypeEventInt32 then Some (CHR ''I'')
      else if t = ksiNodePortTypeEventString then Some (CHR ''S'')
      else if t = ksiNodePortTypeEventList then Some (CHR ''L'')
      else if t = ksiNodePortTypeFloat then Some (CHR ''f'')
      else if t = ksiNodePortTypeGate then Some (CHR ''g'')
      else if t = ksiNodePortTypeInt32 then Some (CHR ''i'')
      else None)"

section \<open>Operations on samples\<close>

definition ksiDataIncrease :: "KsiData \<Rightarrow> KsiData \<Rightarrow> int8 \<Rightarrow> KsiData" where
  "ksiDataIncrease s i type =
     (let t = port_type type in
      if t = ksiNodePortTypeFloat then f32_add s i
      else if t = ksiNodePortTypeInt32 then s + i
      else if t = ksiNodePortTypeGate then s OR i
      else s)"

definition ksiDataIsUnit :: "KsiData \<Rightarrow> int8 \<Rightarrow> bool" where
  "ksiDataIsUnit d type =
     (let t = port_type type in
      if t = ksiNodePortTypeFloat then d = f32_one
      else if t = ksiNodePortTypeInt32 then d = 1
      else if t = ksiNodePortTypeGate then d = 0
      else False)"

definition ksiDataWeightedIncrease :: "KsiData \<Rightarrow> KsiData \<Rightarrow> KsiData \<Rightarrow> int8 \<Rightarrow> KsiData" where
  "ksiDataWeightedIncrease s i c type =
     (let t = port_type type in
      if t = ksiNodePortTypeFloat then f32_add s (f32_mul i c)
      else if t = ksiNodePortTypeInt32 then s + i * c
      else if t = ksiNodePortTypeGate then s OR (i OR c)
      else s)"

text \<open>
  The loop over \<open>sz\<close> samples, \<open>i\<close> counting up from 0; the second argument is the
  number of rounds left. Signed 32-bit additions and products that overflow are undefined
  in C; like the compilers the code is built with, the model wraps around.
\<close>

fun buffer_increase_from :: "int \<Rightarrow> nat \<Rightarrow> KsiData list \<Rightarrow> KsiData list \<Rightarrow> KsiData \<Rightarrow> int8 \<Rightarrow> KsiData list option" where
  "buffer_increase_from i 0 des src coeff type = Some des"
| "buffer_increase_from i (Suc n) des src coeff type = do {
     d \<leftarrow> get_at des i;
     s \<leftarrow> get_at src i;
     des \<leftarrow> set_at des i (ksiDataWeightedIncrease d s coeff type);
     buffer_increase_from (i + 1) n des src coeff type
   }"

definition ksiDataBufferWeightedIncrease ::
  "KsiData list \<Rightarrow> KsiData list \<Rightarrow> KsiData \<Rightarrow> int \<Rightarrow> int8 \<Rightarrow> KsiData list option" where
  "ksiDataBufferWeightedIncrease des src coeff sz type =
     (if port_type type \<in> {ksiNodePortTypeFloat, ksiNodePortTypeInt32, ksiNodePortTypeGate}
      then buffer_increase_from 0 (nat sz) des src coeff type
      else Some des)"

text \<open>Within the buffers the loop is the pointwise weighted sum of the first samples.\<close>

lemma buffer_increase_from_spec:
  assumes "0 \<le> i" "i + int n \<le> int (length des)" "i + int n \<le> int (length src)"
  shows "buffer_increase_from i n des src coeff type =
    Some (take (nat i) des
      @ map2 (\<lambda>d s. ksiDataWeightedIncrease d s coeff type)
          (take n (drop (nat i) des)) (take n (drop (nat i) src))
      @ drop (nat i + n) des)"
  using assms
proof (induction n arbitrary: i des)
  case 0
  then show ?case by simp
next
  case (Suc n)
  let ?w = "ksiDataWeightedIncrease (des ! nat i) (src ! nat i) coeff type"
  let ?d = "des[nat i := ?w]"
  have b: "nat i < length des" "nat i < length src" "0 \<le> i" using Suc.prems by auto
  have IH: "buffer_increase_from (i + 1) n ?d src coeff type =
    Some (take (nat (i + 1)) ?d
      @ map2 (\<lambda>d s. ksiDataWeightedIncrease d s coeff type)
          (take n (drop (nat (i + 1)) ?d)) (take n (drop (nat (i + 1)) src))
      @ drop (nat (i + 1) + n) ?d)"
    by (rule Suc.IH) (use Suc.prems in simp_all)
  have n1: "nat (i + 1) = Suc (nat i)" using b by simp
  have t: "take (Suc (nat i)) ?d = take (nat i) des @ [?w]"
    using b by (simp add: take_Suc_conv_app_nth)
  have d: "drop (nat i) des = des ! nat i # drop (Suc (nat i)) des"
    "drop (nat i) src = src ! nat i # drop (Suc (nat i)) src"
    using b by (simp_all add: Cons_nth_drop_Suc)
  show ?case
    using b IH by (simp add: get_at_def set_at_def nat_less_iff n1 t d)
qed

text \<open>when the gain of an input is a unit of its type (1.0, 1, or 0 for a gate), weighting the
  source by it is the same as taking the source, bit for bit in \<open>float\<close> arithmetic too. This
  is what lets \<open>refreshCopying\<close> alias the source's buffer instead of mixing.\<close>

theorem unit_gain_is_plain_increase:
  assumes "ksiDataIsUnit c type"
  shows "ksiDataWeightedIncrease s i c type = ksiDataIncrease s i type"
proof (cases "f32_is_nan i")
  case True
  then have "f32_mul i c = f32_nan" "f32_add s i = f32_nan" by (simp_all add: f32_mul_def f32_add_def)
  moreover have "f32_add s f32_nan = f32_nan" by (simp add: f32_add_def f32_is_nan_def f32_fields f32_nan_def)
  ultimately show ?thesis
    using assms by (auto simp: ksiDataIsUnit_def ksiDataWeightedIncrease_def ksiDataIncrease_def Let_def split: if_splits)
next
  case False
  then show ?thesis
    using assms f32_mul_one by (auto simp: ksiDataIsUnit_def ksiDataWeightedIncrease_def ksiDataIncrease_def Let_def split: if_splits)
qed

theorem unit_gain_is_plain_increase_witness:
  "ksiDataWeightedIncrease 0x40490FDB 0x3DCCCCCD f32_one ksiNodePortTypeFloat
     = ksiDataIncrease 0x40490FDB 0x3DCCCCCD ksiNodePortTypeFloat"
  by (rule unit_gain_is_plain_increase) (simp add: ksiDataIsUnit_def port_type_defs)

text \<open>within the two buffers, the mixing loop is the pointwise weighted sum of the first
  \<open>sz\<close> samples and leaves the rest of the destination alone, for each of the three signal
  types; event types leave the whole buffer alone.\<close>

theorem mix_loop_is_pointwise:
  assumes "0 \<le> sz" "sz \<le> int (length des)" "sz \<le> int (length src)"
  shows "ksiDataBufferWeightedIncrease des src coeff sz type =
    Some (if port_type type \<in> {ksiNodePortTypeFloat, ksiNodePortTypeInt32, ksiNodePortTypeGate}
          then map2 (\<lambda>d s. ksiDataWeightedIncrease d s coeff type) (take (nat sz) des) (take (nat sz) src)
               @ drop (nat sz) des
          else des)"
  using buffer_increase_from_spec [of 0 "nat sz" des src coeff type] assms
  by (simp add: ksiDataBufferWeightedIncrease_def)

theorem mix_loop_is_pointwise_witness:
  "ksiDataBufferWeightedIncrease [1, 2, 3] [10, 20, 30] 2 2 ksiNodePortTypeInt32 = Some [21, 42, 3]"
  by (subst mix_loop_is_pointwise)
    (simp_all add: ksiDataWeightedIncrease_def Let_def port_type_defs numeral_2_eq_2)

section \<open>Plugin table\<close>

text \<open>
  The rows of \<open>INLINE_LIST\<close>: id, whether \<open>Reset\<close>, \<open>Init\<close>/\<open>Destroy\<close> and
  \<open>EditCmd\<close> exist, and the port types. In the table the type names are
  \<open>Float\<close>, \<open>Gate\<close>, \<open>Int32\<close> and \<open>EventGate\<close>.
\<close>

record plugin =
  requireReset :: bool
  dynamicMemory :: bool
  editCmd :: bool
  inPorts :: "int8 list"
  outPorts :: "int8 list"

definition INLINE_LIST :: "int32 \<Rightarrow> plugin option" where
  "INLINE_LIST i =
     (if i = 1 then Some \<lparr>requireReset = False, dynamicMemory = False, editCmd = True,
        inPorts = [ksiNodePortTypeFloat], outPorts = [ksiNodePortTypeFloat]\<rparr>
      else if i = 2 then Some \<lparr>requireReset = False, dynamicMemory = False, editCmd = False,
        inPorts = [ksiNodePortTypeFloat], outPorts = [ksiNodePortTypeFloat]\<rparr>
      else if i = 3 then Some \<lparr>requireReset = True, dynamicMemory = True, editCmd = True,
        inPorts = [], outPorts = [ksiNodePortTypeFloat, ksiNodePortTypeEventGate]\<rparr>
      else if i = 4 then Some \<lparr>requireReset = False, dynamicMemory = True, editCmd = False,
        inPorts = [ksiNodePortTypeFloat, ksiNodePortTypeGate, ksiNodePortTypeInt32, ksiNodePortTypeFloat],
        outPorts = [ksiNodePortTypeFloat, ksiNodePortTypeGate]\<rparr>
      else if i = 5 then Some \<lparr>requireReset = True, dynamicMemory = True, editCmd = False,
        inPorts = [ksiNodePortTypeEventGate, ksiNodePortTypeFloat, ksiNodePortTypeFloat,
          ksiNodePortTypeFloat, ksiNodePortTypeFloat],
        outPorts = [ksiNodePortTypeFloat, ksiNodePortTypeGate]\<rparr>
      else if i = 6 then Some \<lparr>requireReset = False, dynamicMemory = False, editCmd = False,
        inPorts = [ksiNodePortTypeFloat, ksiNodePortTypeFloat], outPorts = [ksiNodePortTypeFloat]\<rparr>
      else None)"

end
