(* ===== verification/Engine_State.thy ===== *)
theory Engine_State
  imports Vec Spsc Data
begin

text \<open>
  The state of an engine (\<^verbatim>\<open>ksid/engine.h\<close>), its nodes (\<^verbatim>\<open>ksid/dag.h\<close>,
  \<^verbatim>\<open>ksid/dag_members.h\<close>) and the memory operations shared by the two versions of
  the graph (\<^verbatim>\<open>ksid/mvcc_utils.h\<close>).

  The two graph versions have nodes of their own, at addresses of their own
  (\<open>nheap\<close>, numbered by \<open>nnext\<close>); what they share is the memory that goes through
  \<open>ksiMVCCMonitoredMalloc\<close> (sample buffers and event queues, \<open>blocks\<close>) and the
  plugins' private data (\<open>plugs\<close>).
\<close>

section \<open>Nodes\<close>

record KsiEventEnvEntry =
  srcPort :: int
  src :: ptr
  gain :: KsiData

text \<open>
  \<open>KsiEnvPtr\<close> is a union tagged by the port's type; \<open>SignalEnv\<close> carries
  \<open>buffer\<close>, \<open>internalBufferPtr\<close> and \<open>mixer\<close>.
\<close>

datatype KsiEnv =
    EventEnv (ees: "KsiEventEnvEntry list")
  | SignalEnv (sbuffer: ptr) (internalBufferPtr: ptr) (mixer: "KsiEventEnvEntry list")

text \<open>
  \<open>inputTypes\<close> and \<open>outputTypes\<close> point to the plugin's static array, which all its
  nodes share, until a port count change gives the node an array of its own.
\<close>

datatype type_array = NoTypes | InPorts int32 | OutPorts int32 | Own "int8 list"

record KsiNode =
  depNum :: int
  successors :: "int list"
  nid :: int
  ntype :: int32
  outputCount :: int
  outputTypes :: type_array
  outputBuffer :: "ptr list"
  inputCount :: int
  inputTypes :: type_array
  nenv :: "KsiEnv list"
  nargs :: ptr
  extArgs :: "8 word list"

definition ksiNodeTypeOutputMask :: int32 where "ksiNodeTypeOutputMask = 0xF0"
definition ksiNodeTypeOutputNormal :: int32 where "ksiNodeTypeOutputNormal = 0x00"
definition ksiNodeTypeOutputFinal :: int32 where "ksiNodeTypeOutputFinal = 0x10"
definition ksiNodeTypeScratchPredecessor :: int32 where "ksiNodeTypeScratchPredecessor = 0x100"
definition ksiNodeTypeDynamicInputType :: int32 where "ksiNodeTypeDynamicInputType = 0x1000"
definition ksiNodeTypeDynamicOutputType :: int32 where "ksiNodeTypeDynamicOutputType = 0x2000"
definition ksiNodeTypeInlineNodeFuncMask :: int32 where "ksiNodeTypeInlineNodeFuncMask = 0xFFFF0000"

lemmas node_type_defs =
  ksiNodeTypeOutputMask_def ksiNodeTypeOutputNormal_def ksiNodeTypeOutputFinal_def
  ksiNodeTypeScratchPredecessor_def ksiNodeTypeDynamicInputType_def
  ksiNodeTypeDynamicOutputType_def ksiNodeTypeInlineNodeFuncMask_def

definition ksiNodeTypeInlineId :: "int32 \<Rightarrow> int32" where
  "ksiNodeTypeInlineId t = drop_bit 16 (t AND ksiNodeTypeInlineNodeFuncMask)"

section \<open>Graph versions and the engine\<close>

record version =
  nlist :: ksi_vec
  nheap :: "ptr \<Rightarrow> KsiNode option"
  nnext :: ptr
  finalNode :: ptr

record KsiEvent =
  timeStamp :: uint64
  edata :: KsiData

text \<open>A block of shared memory: bytes not given a structure yet, or an event queue.\<close>

datatype block = Raw int | EventQueue "KsiEvent list"

datatype plugin_env =
    MidiSegEnv (ms_tree: ptr) (ms_current: ptr)
  | WavetableEnv
  | ADSREnv (adsr_stage: int) (adsr_mod: KsiData)

datatype KsiDagEditCmd =
    ksiDagEditInvalid
  | ksiDagEditAddNode int32 "8 word list" ptr
  | ksiDagEditMakeWire int int int int KsiData
  | ksiDagEditMakeBias int int KsiData
  | ksiDagEditDetachNodes int int
  | ksiDagEditRemoveNode int
  | ksiDagEditRemoveWire int int int int
  | ksiDagEditSendEditingCmd int string

record KsiEngine =
  framesPerBuffer :: int
  framesPerSecond :: int
  driver_env :: bool
  etime :: uint64
  playing :: int
  notRequireReset :: bool
  epoch :: nat
  audioEpoch :: nat
  ver :: "nat \<Rightarrow> version"
  timeseqResources :: ksi_vec
  committingSem :: nat
  migratedSem :: nat
  committedFlag :: bool
  syncCmds :: "KsiDagEditCmd spsc"
  mallocBufs :: "ptr spsc"
  freeBufs :: "ptr spsc"
  blocks :: "ptr \<Rightarrow> block option"
  plugs :: "ptr \<Rightarrow> plugin_env option"
  nextblock :: ptr
  staticIn :: "int32 \<Rightarrow> int8 list"
  staticOut :: "int32 \<Rightarrow> int8 list"

definition ksiEngineStopped :: int where "ksiEngineStopped = 0"
definition ksiEnginePlaying :: int where "ksiEnginePlaying = 1"
definition ksiEnginePaused :: int where "ksiEnginePaused = 2"
definition ksiEngineFinalizing :: int where "ksiEngineFinalizing = - 1"
definition ksiEngineUninitialized :: int where "ksiEngineUninitialized = - 2"

lemmas playing_defs = ksiEngineStopped_def ksiEnginePlaying_def ksiEnginePaused_def
  ksiEngineFinalizing_def ksiEngineUninitialized_def

definition uninitialized :: "KsiEngine \<Rightarrow> bool" where
  "uninitialized e \<longleftrightarrow> playing e = ksiEngineUninitialized"

text \<open>\<open>hotList\<close>: editing works on the version the audio threads are not given.\<close>

definition hotEpoch :: "KsiEngine \<Rightarrow> nat" where
  "hotEpoch e = (1 + epoch e) mod 2"

definition hot :: "KsiEngine \<Rightarrow> version" where
  "hot e = ver e (hotEpoch e)"

definition set_hot :: "version \<Rightarrow> KsiEngine \<Rightarrow> KsiEngine" where
  "set_hot v e = e\<lparr>ver := (ver e)(hotEpoch e := v)\<rparr>"

definition get_node :: "KsiEngine \<Rightarrow> ptr \<Rightarrow> KsiNode option" where
  "get_node e p = nheap (hot e) p"

definition set_node :: "ptr \<Rightarrow> KsiNode \<Rightarrow> KsiEngine \<Rightarrow> KsiEngine" where
  "set_node p n e = set_hot ((hot e)\<lparr>nheap := (nheap (hot e))(p \<mapsto> n)\<rparr>) e"

definition types_of :: "KsiEngine \<Rightarrow> type_array \<Rightarrow> int8 list" where
  "types_of e a =
     (case a of NoTypes \<Rightarrow> [] | InPorts i \<Rightarrow> staticIn e i | OutPorts i \<Rightarrow> staticOut e i | Own ts \<Rightarrow> ts)"

text \<open>The port arrays of \<open>inline_meta.c\<close> and the state \<open>ksiEngineInit\<close> leaves.\<close>

definition initPorts :: "(plugin \<Rightarrow> int8 list) \<Rightarrow> int32 \<Rightarrow> int8 list" where
  "initPorts sel i = (case INLINE_LIST i of None \<Rightarrow> [] | Some pl \<Rightarrow> sel pl)"

definition ksiEngineNodesDefaultCapacity :: int where "ksiEngineNodesDefaultCapacity = 256"

definition empty_version :: version where
  "empty_version = \<lparr>nlist = ksiVecInit ksiEngineNodesDefaultCapacity, nheap = Map.empty,
     nnext = 1, finalNode = NULL\<rparr>"

definition ksiEngineInit :: "int \<Rightarrow> int \<Rightarrow> KsiEngine" where
  "ksiEngineInit fb fs =
     \<lparr>framesPerBuffer = fb, framesPerSecond = fs, driver_env = False, etime = 0,
      playing = 0, notRequireReset = True, epoch = 0, audioEpoch = 0,
      ver = (\<lambda>_. empty_version),
      timeseqResources = ksiVecInit ksiEngineNodesDefaultCapacity,
      committingSem = 0, migratedSem = 0, committedFlag = False,
      syncCmds = ksiSPSCListInit ksiDagEditInvalid,
      mallocBufs = ksiSPSCListInit NULL, freeBufs = ksiSPSCListInit NULL,
      blocks = Map.empty, plugs = Map.empty, nextblock = 1,
      staticIn = initPorts inPorts, staticOut = initPorts outPorts\<rparr>"

section \<open>Shared memory\<close>

definition malloc_block :: "KsiEngine \<Rightarrow> int \<Rightarrow> ptr \<times> KsiEngine" where
  "malloc_block e sz =
     (nextblock e, e\<lparr>blocks := (blocks e)(nextblock e \<mapsto> Raw sz), nextblock := Suc (nextblock e)\<rparr>)"

definition free_block :: "KsiEngine \<Rightarrow> ptr \<Rightarrow> KsiEngine option" where
  "free_block e p = do { _ \<leftarrow> blocks e p; Some (e\<lparr>blocks := (blocks e)(p := None)\<rparr>) }"

text \<open>
  \<open>flag\<close> is 0 in the editor and 1 in the committer: the editor allocates and records,
  the committer takes the recorded pointer. A negative size converts to a huge
  \<open>size_t\<close>, on which \<open>ksiMalloc\<close> aborts.
\<close>

definition ksiMVCCMonitoredMalloc :: "nat \<Rightarrow> KsiEngine \<Rightarrow> int \<Rightarrow> (ptr \<times> KsiEngine) option" where
  "ksiMVCCMonitoredMalloc flag e sz =
     (if sz = 0 then Some (NULL, e)
      else if flag = 0 then do {
        need (0 < sz);
        (ret, e) \<leftarrow> Some (malloc_block e sz);
        q \<leftarrow> ksiSPSCListEnqueue (mallocBufs e) ret;
        Some (ret, e\<lparr>mallocBufs := q\<rparr>)
      }
      else if flag = 1 then do {
        (ret, q) \<leftarrow> ksiSPSCListDequeue NULL (mallocBufs e);
        need (ret \<noteq> NULL);
        Some (ret, e\<lparr>mallocBufs := q\<rparr>)
      }
      else None)"

definition ksiMVCCDeferredFree :: "nat \<Rightarrow> KsiEngine \<Rightarrow> ptr \<Rightarrow> KsiEngine option" where
  "ksiMVCCDeferredFree flag e p =
     (if p = NULL then Some e
      else if flag = 0 then do {
        q \<leftarrow> ksiSPSCListEnqueue (freeBufs e) p;
        Some (e\<lparr>freeBufs := q\<rparr>)
      }
      else if flag = 1 then do {
        (fptr, q) \<leftarrow> ksiSPSCListDequeue NULL (freeBufs e);
        need (fptr = p);
        free_block (e\<lparr>freeBufs := q\<rparr>) fptr
      }
      else if flag = 2 then free_block e p
      else None)"

text \<open>\<open>realloc\<close> moves the block: the old address is released, a new one returned.\<close>

definition ksiMVCCRealloc :: "nat \<Rightarrow> KsiEngine \<Rightarrow> ptr \<Rightarrow> int \<Rightarrow> (ptr \<times> KsiEngine) option" where
  "ksiMVCCRealloc flag e p sz =
     (if p = NULL then ksiMVCCMonitoredMalloc flag e sz
      else if flag = 0 then do {
        need (0 < sz);
        e \<leftarrow> free_block e p;
        (ret, e) \<leftarrow> Some (malloc_block e sz);
        q \<leftarrow> ksiSPSCListEnqueue (mallocBufs e) ret;
        Some (ret, e\<lparr>mallocBufs := q\<rparr>)
      }
      else if flag = 1 then do {
        (ret, q) \<leftarrow> ksiSPSCListDequeue NULL (mallocBufs e);
        need (ret \<noteq> NULL);
        Some (ret, e\<lparr>mallocBufs := q\<rparr>)
      }
      else None)"

text \<open>\<open>ksiEventClearQueue\<close>: every event node of the queue is freed.\<close>

definition ksiEventClearQueue :: "KsiEngine \<Rightarrow> ptr \<Rightarrow> KsiEngine option" where
  "ksiEventClearQueue e p =
     (case blocks e p of
        Some (EventQueue _) \<Rightarrow> Some (e\<lparr>blocks := (blocks e)(p \<mapsto> EventQueue [])\<rparr>)
      | _ \<Rightarrow> None)"

definition ksiEventEnqueue :: "KsiEngine \<Rightarrow> ptr \<Rightarrow> KsiData \<Rightarrow> uint64 \<Rightarrow> KsiEngine option" where
  "ksiEventEnqueue e p d t =
     (case blocks e p of
        Some (EventQueue es) \<Rightarrow>
          Some (e\<lparr>blocks := (blocks e)(p \<mapsto> EventQueue (es @ [\<lparr>timeStamp = t, edata = d\<rparr>]))\<rparr>)
      | _ \<Rightarrow> None)"

end
