(* ===== verification/Scan.thy ===== *)
theory Scan
  imports Prelude
begin

text \<open>
  The part of C's \<open>sscanf\<close> the program uses on its command strings: the conversion of
  a decimal integer. Strings are lists of characters without the terminating NUL.
\<close>

definition is_space :: "char \<Rightarrow> bool" where
  "is_space c \<longleftrightarrow> c \<in> {CHR '' '', CHR 0x09, CHR 0x0A, CHR 0x0B, CHR 0x0C, CHR 0x0D}"

definition is_digit :: "char \<Rightarrow> bool" where
  "is_digit c \<longleftrightarrow> 48 \<le> (of_char c :: nat) \<and> (of_char c :: nat) \<le> 57"

fun scan_digits :: "int \<Rightarrow> string \<Rightarrow> int \<times> string" where
  "scan_digits acc [] = (acc, [])"
| "scan_digits acc (c # cs) =
     (if is_digit c then scan_digits (acc * 10 + (of_char c - 48)) cs else (acc, c # cs))"

text \<open>
  \<open>scan_int s\<close> skips white space, takes an optional sign and at least one digit, and
  returns the value with the rest of the input; \<^const>\<open>None\<close> is a matching failure.
\<close>

definition scan_unsigned :: "string \<Rightarrow> (int \<times> string) option" where
  "scan_unsigned s =
     (case s of c # cs \<Rightarrow> if is_digit c then Some (scan_digits 0 s) else None | [] \<Rightarrow> None)"

definition scan_int :: "string \<Rightarrow> (int \<times> string) option" where
  "scan_int s =
     (case dropWhile is_space s of
        [] \<Rightarrow> None
      | c # cs \<Rightarrow>
          if c = CHR ''-'' then map_option (\<lambda>(v, r). (- v, r)) (scan_unsigned cs)
          else if c = CHR ''+'' then scan_unsigned cs
          else scan_unsigned (c # cs))"

text \<open>
  \<open>sscanf(s, "%"SCNd32, ...)\<close>: a value that does not fit the object is undefined
  behaviour; the inner option says whether the conversion succeeded.
\<close>

definition sscanf_d32 :: "string \<Rightarrow> (int \<times> string) option option" where
  "sscanf_d32 s =
     (case scan_int s of
        None \<Rightarrow> Some None
      | Some (v, r) \<Rightarrow> if int32_ok v then Some (Some (v, r)) else None)"

end
