(* ===== verification/Kernels.thy ===== *)
theory Kernels
  imports Engine_State Scan
begin

text \<open>
  The editing operations of \<^verbatim>\<open>ksid/dagedit_kernels.h\<close>, which the editor (\<open>flag\<close>
  0) and the committer (\<open>flag\<close> 1) both run, and the editing commands of the plugins
  that have one. Every operation takes and returns the whole engine; \<^const>\<open>None\<close> is
  undefined behaviour or a failed assertion, a \<open>KsiError\<close> is a result.
\<close>

section \<open>Ports\<close>

text \<open>\<open>CHECK_SRC_PORT\<close>, \<open>CHECK_DES_PORT\<close>: only the upper end is checked.\<close>

definition CHECK_SRC_PORT :: "KsiNode \<Rightarrow> int \<Rightarrow> bool" where
  "CHECK_SRC_PORT n port \<longleftrightarrow> port < outputCount n"

definition CHECK_DES_PORT :: "KsiNode \<Rightarrow> int \<Rightarrow> bool" where
  "CHECK_DES_PORT n port \<longleftrightarrow> port < inputCount n"

definition entries :: "KsiEnv \<Rightarrow> KsiEventEnvEntry list" where
  "entries v = (case v of EventEnv es \<Rightarrow> es | SignalEnv b i m \<Rightarrow> m)"

definition get_env :: "KsiEngine \<Rightarrow> ptr \<Rightarrow> int \<Rightarrow> KsiEnv option" where
  "get_env e p port = do { n \<leftarrow> get_node e p; get_at (nenv n) port }"

definition set_env :: "KsiEngine \<Rightarrow> ptr \<Rightarrow> int \<Rightarrow> KsiEnv \<Rightarrow> KsiEngine option" where
  "set_env e p port v = do {
     n \<leftarrow> get_node e p;
     vs \<leftarrow> set_at (nenv n) port v;
     Some (set_node p (n\<lparr>nenv := vs\<rparr>) e)
   }"

definition input_type :: "KsiEngine \<Rightarrow> ptr \<Rightarrow> int \<Rightarrow> int8 option" where
  "input_type e p port = do { n \<leftarrow> get_node e p; get_at (types_of e (inputTypes n)) port }"

text \<open>\<open>env[port].e->ees\<close> and \<open>env[port].d->mixer\<close>: the member the port's type selects.\<close>

definition get_ees :: "KsiEngine \<Rightarrow> ptr \<Rightarrow> int \<Rightarrow> KsiEventEnvEntry list option" where
  "get_ees e p port =
     do { v \<leftarrow> get_env e p port; (case v of EventEnv es \<Rightarrow> Some es | _ \<Rightarrow> None) }"

definition get_sig :: "KsiEngine \<Rightarrow> ptr \<Rightarrow> int \<Rightarrow> (ptr \<times> ptr \<times> KsiEventEnvEntry list) option" where
  "get_sig e p port =
     do { v \<leftarrow> get_env e p port; (case v of SignalEnv b i m \<Rightarrow> Some (b, i, m) | _ \<Rightarrow> None) }"

definition debug_check_node :: "KsiEngine \<Rightarrow> ptr \<Rightarrow> unit option" where
  "debug_check_node e p =
     (if p = NULL then Some ()
      else do {
        n \<leftarrow> get_node e p;
        q \<leftarrow> get_at (vdata (nlist (hot e))) (nid n);
        need (p = q)
      })"

section \<open>Buffers of an input port\<close>

definition refreshCopying :: "nat \<Rightarrow> KsiEngine \<Rightarrow> ptr \<Rightarrow> int \<Rightarrow> KsiEngine option" where
  "refreshCopying flag e p port = do {
     t \<leftarrow> input_type e p port;
     (if is_event t then Some e
      else do {
        (buf, ibp, ms) \<leftarrow> get_sig e p port;
        (case ms of
           [] \<Rightarrow> set_env e p port (SignalEnv buf NULL ms)
         | me # rest \<Rightarrow>
             if rest = [] \<and> ksiDataIsUnit (gain me) t then do {
               e \<leftarrow> (if buf \<noteq> NULL then do {
                        e \<leftarrow> ksiMVCCDeferredFree flag e buf;
                        set_env e p port (SignalEnv NULL ibp ms)
                      } else Some e);
               (if src me \<noteq> NULL then do {
                  s \<leftarrow> get_node e (src me);
                  ob \<leftarrow> get_at (outputBuffer s) (srcPort me);
                  set_env e p port (SignalEnv NULL ob ms)
                } else Some e)
             }
             else do {
               (buf, e) \<leftarrow> (if buf = NULL
                            then ksiMVCCMonitoredMalloc flag e (4 * framesPerBuffer e)
                            else Some (buf, e));
               set_env e p port (SignalEnv buf buf ms)
             })
      })
   }"

definition impl_delete_env :: "nat \<Rightarrow> KsiEngine \<Rightarrow> KsiNode \<Rightarrow> int \<Rightarrow> KsiEngine option" where
  "impl_delete_env flag e n i = do {
     t \<leftarrow> get_at (types_of e (inputTypes n)) i;
     v \<leftarrow> get_at (nenv n) i;
     (if is_event t
      then (case v of EventEnv _ \<Rightarrow> Some e | _ \<Rightarrow> None)
      else (case v of
              SignalEnv buf _ _ \<Rightarrow>
                (if buf \<noteq> NULL then ksiMVCCDeferredFree flag e buf else Some e)
            | _ \<Rightarrow> None))
   }"

definition impl_delete_output :: "nat \<Rightarrow> KsiEngine \<Rightarrow> KsiNode \<Rightarrow> int \<Rightarrow> KsiEngine option" where
  "impl_delete_output flag e n i = do {
     t \<leftarrow> get_at (types_of e (outputTypes n)) i;
     ob \<leftarrow> get_at (outputBuffer n) i;
     (if is_event t then do {
        e \<leftarrow> (if flag \<noteq> 0 then ksiEventClearQueue e ob else Some e);
        ksiMVCCDeferredFree flag e ob
      }
      else ksiMVCCDeferredFree flag e ob)
   }"

text \<open>
  The \<open>for\<close> loops over ports: the body at \<open>i\<close>, \<open>i + 1\<close>, \<dots>, as many times
  as the natural number says.
\<close>

fun for_ports :: "(KsiEngine \<Rightarrow> int \<Rightarrow> KsiEngine option) \<Rightarrow> nat \<Rightarrow> int \<Rightarrow> KsiEngine \<Rightarrow> KsiEngine option" where
  "for_ports body 0 i e = Some e"
| "for_ports body (Suc k) i e = do { e \<leftarrow> body e i; for_ports body k (i + 1) e }"

section \<open>Adding a node\<close>

text \<open>
  The output loop of \<open>AddNode\<close> for a normal node: one buffer or event queue per port,
  in port order. An event queue is initialised by the editor only.
\<close>

definition new_output :: "nat \<Rightarrow> KsiEngine \<Rightarrow> int8 \<Rightarrow> (ptr \<times> KsiEngine) option" where
  "new_output flag e t =
     (if is_event t then do {
        (q, e) \<leftarrow> ksiMVCCMonitoredMalloc flag e 16;
        Some (q, if flag = 0 then e\<lparr>blocks := (blocks e)(q \<mapsto> EventQueue [])\<rparr> else e)
      }
      else ksiMVCCMonitoredMalloc flag e (4 * framesPerBuffer e))"

fun new_outputs :: "nat \<Rightarrow> KsiEngine \<Rightarrow> int8 list \<Rightarrow> (ptr list \<times> KsiEngine) option" where
  "new_outputs flag e [] = Some ([], e)"
| "new_outputs flag e (t # ts) = do {
     (b, e) \<leftarrow> new_output flag e t;
     (bs, e) \<leftarrow> new_outputs flag e ts;
     Some (b # bs, e)
   }"

definition new_env :: "int8 \<Rightarrow> KsiEnv" where
  "new_env t = (if is_event t then EventEnv [] else SignalEnv NULL NULL [])"

text \<open>
  The plugins' \<open>Init\<close> functions allocate the private data; the others leave
  \<open>args\<close> indeterminate, for which \<open>NULL\<close> stands.
\<close>

definition plugin_init_env :: "int32 \<Rightarrow> plugin_env" where
  "plugin_init_env i =
     (if i = 3 then MidiSegEnv NULL NULL else if i = 4 then WavetableEnv else ADSREnv 0 0)"

definition plugin_init :: "nat \<Rightarrow> KsiEngine \<Rightarrow> int32 \<Rightarrow> plugin \<Rightarrow> ptr \<times> KsiEngine" where
  "plugin_init flag e i pl =
     (if flag = 0 \<and> dynamicMemory pl
      then (nextblock e, e\<lparr>plugs := (plugs e)(nextblock e \<mapsto> plugin_init_env i),
                           nextblock := Suc (nextblock e)\<rparr>)
      else (NULL, e))"

definition impl_ksiEngineAddNode ::
  "nat \<Rightarrow> KsiEngine \<Rightarrow> int32 \<Rightarrow> 8 word list \<Rightarrow> ((KsiError \<times> int \<times> ptr) \<times> KsiEngine) option" where
  "impl_ksiEngineAddNode flag e typeFlags args =
     (if uninitialized e then Some ((ksiErrorUninitialized, 0, NULL), e)
      else if typeFlags AND ksiNodeTypeOutputMask = ksiNodeTypeOutputFinal \<and> finalNode (hot e) \<noteq> NULL
      then Some ((ksiErrorMultipleFinal, 0, NULL), e)
      else case INLINE_LIST (ksiNodeTypeInlineId typeFlags) of
        None \<Rightarrow> Some ((ksiErrorNoPlugin, 0, NULL), e)
      | Some pl \<Rightarrow> do {
          let ity = (if inPorts pl \<noteq> [] then InPorts (ksiNodeTypeInlineId typeFlags) else NoTypes);
          let oty = (if outPorts pl \<noteq> [] then OutPorts (ksiNodeTypeInlineId typeFlags) else NoTypes);
          let p = nnext (hot e);
          e \<leftarrow> Some (set_hot ((hot e)\<lparr>nnext := Suc p\<rparr>) e);
          (obs, e) \<leftarrow> (if typeFlags AND ksiNodeTypeOutputMask = ksiNodeTypeOutputNormal
                       then new_outputs flag e (types_of e oty)
                       else Some (replicate (length (outPorts pl)) NULL, e));
          e \<leftarrow> Some (if typeFlags AND ksiNodeTypeOutputMask = ksiNodeTypeOutputFinal
                     then set_hot ((hot e)\<lparr>finalNode := p\<rparr>) e else e);
          (a, e) \<leftarrow> Some (plugin_init flag e (ksiNodeTypeInlineId typeFlags) pl);
          (i, vec) \<leftarrow> ksiVecInsert (nlist (hot e)) p;
          let n = \<lparr>depNum = 0, successors = [], nid = i, ntype = typeFlags,
                   outputCount = int (length (outPorts pl)), outputTypes = oty, outputBuffer = obs,
                   inputCount = int (length (inPorts pl)), inputTypes = ity,
                   nenv = map new_env (types_of e ity), nargs = a, extArgs = args\<rparr>;
          e \<leftarrow> Some (set_hot ((hot e)\<lparr>nlist := vec\<rparr>) e);
          Some ((ksiErrorNone, i, p), set_node p n e)
        })"

section \<open>Wires and biases\<close>

text \<open>
  The mixer loop of \<open>MakeWire\<close>: check each matching entry's source, set the gain of
  the first match. \<^const>\<open>None\<close> inside the result means no match.
\<close>

fun set_wire_gain :: "ptr \<Rightarrow> int \<Rightarrow> KsiData \<Rightarrow> KsiEventEnvEntry list \<Rightarrow> KsiEventEnvEntry list option" where
  "set_wire_gain s port g [] = None"
| "set_wire_gain s port g (me # rest) =
     (if src me = s \<and> srcPort me = port then Some (me\<lparr>gain := g\<rparr> # rest)
      else map_option ((#) me) (set_wire_gain s port g rest))"

fun has_wire :: "ptr \<Rightarrow> int \<Rightarrow> KsiEventEnvEntry list \<Rightarrow> bool" where
  "has_wire s port [] = False"
| "has_wire s port (ee # rest) =
     (if src ee = s \<and> srcPort ee = port then True else has_wire s port rest)"

definition link_nodes :: "KsiEngine \<Rightarrow> ptr \<Rightarrow> ptr \<Rightarrow> int \<Rightarrow> KsiEngine option" where
  "link_nodes e s d desId = do {
     sn \<leftarrow> get_node e s;
     (if ksiVecIdlistSearch (successors sn) desId then Some e
      else do {
        e \<leftarrow> Some (set_node s (sn\<lparr>successors := ksiVecIdlistPush (successors sn) desId\<rparr>) e);
        dn \<leftarrow> get_node e d;
        Some (set_node d (dn\<lparr>depNum := depNum dn + 1\<rparr>) e)
      })
   }"

definition make_event_wire ::
  "KsiEngine \<Rightarrow> ptr \<Rightarrow> int \<Rightarrow> ptr \<Rightarrow> int \<Rightarrow> (KsiError \<times> KsiEngine) option" where
  "make_event_wire e s srcPrt d desPort = do {
     es \<leftarrow> get_ees e d desPort;
     (if has_wire s srcPrt es then Some (ksiErrorAlreadyWire, e)
      else do {
        e \<leftarrow> set_env e d desPort (EventEnv (\<lparr>srcPort = srcPrt, src = s, gain = 0\<rparr> # es));
        Some (ksiErrorNone, e)
      })
   }"

definition make_signal_wire ::
  "nat \<Rightarrow> KsiEngine \<Rightarrow> ptr \<Rightarrow> int \<Rightarrow> ptr \<Rightarrow> int \<Rightarrow> KsiData \<Rightarrow> (KsiError \<times> KsiEngine) option" where
  "make_signal_wire flag e s srcPrt d desPort g = do {
     (buf, ibp, ms) \<leftarrow> get_sig e d desPort;
     (case set_wire_gain s srcPrt g ms of
        Some ms' \<Rightarrow> do {
          _ \<leftarrow> debug_check_node e s;
          e \<leftarrow> set_env e d desPort (SignalEnv buf ibp ms');
          e \<leftarrow> refreshCopying flag e d desPort;
          Some (ksiErrorNone, e)
        }
      | None \<Rightarrow> do {
          e \<leftarrow> set_env e d desPort (SignalEnv buf ibp (\<lparr>srcPort = srcPrt, src = s, gain = g\<rparr> # ms));
          e \<leftarrow> refreshCopying flag e d desPort;
          Some (ksiErrorNone, e)
        })
   }"

definition impl_ksiEngineMakeWire ::
  "nat \<Rightarrow> KsiEngine \<Rightarrow> int \<Rightarrow> int \<Rightarrow> int \<Rightarrow> int \<Rightarrow> KsiData \<Rightarrow> (KsiError \<times> KsiEngine) option" where
  "impl_ksiEngineMakeWire flag e srcId srcPrt desId desPort g =
     (if uninitialized e then Some (ksiErrorUninitialized, e)
      else do {
        okS \<leftarrow> CHECK_VEC srcId (nlist (hot e));
        (if \<not> okS then Some (ksiErrorSrcIdNotFound, e)
         else do {
           okD \<leftarrow> CHECK_VEC desId (nlist (hot e));
           (if \<not> okD then Some (ksiErrorDesIdNotFound, e)
            else do {
              s \<leftarrow> get_at (vdata (nlist (hot e))) srcId;
              d \<leftarrow> get_at (vdata (nlist (hot e))) desId;
              sn \<leftarrow> get_node e s;
              dn \<leftarrow> get_node e d;
              (if \<not> CHECK_SRC_PORT sn srcPrt then Some (ksiErrorSrcPortNotFound, e)
               else if \<not> CHECK_DES_PORT dn desPort then Some (ksiErrorDesPortNotFound, e)
               else do {
                 ti \<leftarrow> get_at (types_of e (inputTypes dn)) desPort;
                 to \<leftarrow> get_at (types_of e (outputTypes sn)) srcPrt;
                 (if port_type ti \<noteq> port_type to then Some (ksiErrorType, e)
                  else do {
                    e \<leftarrow> link_nodes e s d desId;
                    (if is_event (port_type ti) then make_event_wire e s srcPrt d desPort
                     else make_signal_wire flag e s srcPrt d desPort g)
                  })
               })
            })
         })
      })"

text \<open>
  The mixer loop of \<open>MakeBias\<close>: the sources before the bias entry are checked, the gain
  of the first entry without a source is set.
\<close>

fun set_bias_gain :: "KsiEngine \<Rightarrow> KsiData \<Rightarrow> KsiEventEnvEntry list \<Rightarrow> KsiEventEnvEntry list option option" where
  "set_bias_gain e g [] = Some None"
| "set_bias_gain e g (me # rest) =
     (if src me = NULL then Some (Some (me\<lparr>gain := g\<rparr> # rest))
      else do {
        _ \<leftarrow> debug_check_node e (src me);
        r \<leftarrow> set_bias_gain e g rest;
        Some (map_option ((#) me) r)
      })"

definition impl_ksiEngineMakeBias ::
  "nat \<Rightarrow> KsiEngine \<Rightarrow> int \<Rightarrow> int \<Rightarrow> KsiData \<Rightarrow> (KsiError \<times> KsiEngine) option" where
  "impl_ksiEngineMakeBias flag e desId desPort bias =
     (if uninitialized e then Some (ksiErrorUninitialized, e)
      else do {
        okD \<leftarrow> CHECK_VEC desId (nlist (hot e));
        (if \<not> okD then Some (ksiErrorIdNotFound, e)
         else do {
           d \<leftarrow> get_at (vdata (nlist (hot e))) desId;
           dn \<leftarrow> get_node e d;
           (if \<not> CHECK_DES_PORT dn desPort then Some (ksiErrorPortNotFound, e)
            else do {
              t \<leftarrow> get_at (types_of e (inputTypes dn)) desPort;
              (if is_event t then Some (ksiErrorNeedSignal, e)
               else do {
                 (buf, ibp, ms) \<leftarrow> get_sig e d desPort;
                 r \<leftarrow> set_bias_gain e bias ms;
                 e \<leftarrow> set_env e d desPort (SignalEnv buf ibp
                       (case r of Some ms' \<Rightarrow> ms'
                        | None \<Rightarrow> \<lparr>srcPort = 0, src = NULL, gain = bias\<rparr> # ms));
                 e \<leftarrow> refreshCopying flag e d desPort;
                 Some (ksiErrorNone, e)
               })
            })
         })
      })"

section \<open>Detaching and removing\<close>

text \<open>\<open>delete_src\<close>: every entry of the port that comes from \<open>s\<close> goes.\<close>

definition delete_src :: "nat \<Rightarrow> ptr \<Rightarrow> ptr \<Rightarrow> KsiEngine \<Rightarrow> int \<Rightarrow> KsiEngine option" where
  "delete_src flag d s e i = do {
     t \<leftarrow> input_type e d i;
     (if is_event t then do {
        es \<leftarrow> get_ees e d i;
        set_env e d i (EventEnv (ksiVecListDelete (\<lambda>me. src me = s) False es))
      }
      else do {
        (buf, ibp, ms) \<leftarrow> get_sig e d i;
        e \<leftarrow> set_env e d i (SignalEnv buf ibp (ksiVecListDelete (\<lambda>me. src me = s) False ms));
        refreshCopying flag e d i
      })
   }"

definition drop_successor :: "KsiEngine \<Rightarrow> ptr \<Rightarrow> int \<Rightarrow> KsiEngine option" where
  "drop_successor e s desId = do {
     sn \<leftarrow> get_node e s;
     Some (set_node s (sn\<lparr>successors := ksiVecListDelete (\<lambda>l. l = desId) True (successors sn)\<rparr>) e)
   }"

definition dec_depNum :: "KsiEngine \<Rightarrow> ptr \<Rightarrow> KsiEngine option" where
  "dec_depNum e d = do {
     dn \<leftarrow> get_node e d;
     Some (set_node d (dn\<lparr>depNum := depNum dn - 1\<rparr>) e)
   }"

definition impl_ksiEngineDetachNodes ::
  "nat \<Rightarrow> KsiEngine \<Rightarrow> int \<Rightarrow> int \<Rightarrow> (KsiError \<times> KsiEngine) option" where
  "impl_ksiEngineDetachNodes flag e srcId desId =
     (if uninitialized e then Some (ksiErrorUninitialized, e)
      else do {
        okS \<leftarrow> CHECK_VEC srcId (nlist (hot e));
        (if \<not> okS then Some (ksiErrorSrcIdNotFound, e)
         else do {
           okD \<leftarrow> CHECK_VEC desId (nlist (hot e));
           (if \<not> okD then Some (ksiErrorDesIdNotFound, e)
            else do {
              s \<leftarrow> get_at (vdata (nlist (hot e))) srcId;
              d \<leftarrow> get_at (vdata (nlist (hot e))) desId;
              e \<leftarrow> dec_depNum e d;
              dn \<leftarrow> get_node e d;
              e \<leftarrow> for_ports (delete_src flag d s) (nat (inputCount dn)) 0 e;
              e \<leftarrow> drop_successor e s desId;
              Some (ksiErrorNone, e)
            })
         })
      })"

text \<open>The loop over the successors of the node \<open>p\<close> being removed.\<close>

fun detach_successors :: "nat \<Rightarrow> ptr \<Rightarrow> int list \<Rightarrow> KsiEngine \<Rightarrow> KsiEngine option" where
  "detach_successors flag p [] e = Some e"
| "detach_successors flag p (loc # sns) e = do {
     s \<leftarrow> get_at (vdata (nlist (hot e))) loc;
     e \<leftarrow> dec_depNum e s;
     sn \<leftarrow> get_node e s;
     e \<leftarrow> for_ports (delete_src flag s p) (nat (inputCount sn)) 0 e;
     detach_successors flag p sns e
   }"

text \<open>
  \<open>REG_PRECS\<close>: the sources of a port's entries are pushed on \<open>precs\<close> once each, a
  bit in the node's type marking the ones already pushed.
\<close>

fun reg_precs :: "KsiEventEnvEntry list \<Rightarrow> ptr list \<times> KsiEngine \<Rightarrow> (ptr list \<times> KsiEngine) option" where
  "reg_precs [] (precs, e) = Some (precs, e)"
| "reg_precs (me # rest) (precs, e) = do {
     _ \<leftarrow> debug_check_node e (src me);
     (if src me = NULL then reg_precs rest (precs, e)
      else do {
        pn \<leftarrow> get_node e (src me);
        (if ntype pn AND ksiNodeTypeScratchPredecessor = 0
         then reg_precs rest (src me # precs,
                set_node (src me) (pn\<lparr>ntype := ntype pn OR ksiNodeTypeScratchPredecessor\<rparr>) e)
         else reg_precs rest (precs, e))
      })
   }"

fun reg_precs_ports :: "ptr \<Rightarrow> nat \<Rightarrow> int \<Rightarrow> ptr list \<times> KsiEngine \<Rightarrow> (ptr list \<times> KsiEngine) option" where
  "reg_precs_ports p 0 i (precs, e) = Some (precs, e)"
| "reg_precs_ports p (Suc k) i (precs, e) = do {
     t \<leftarrow> input_type e p i;
     es \<leftarrow> (if is_event t then get_ees e p i
           else do { (buf, ibp, ms) \<leftarrow> get_sig e p i; Some ms });
     r \<leftarrow> reg_precs es (precs, e);
     reg_precs_ports p k (i + 1) r
   }"

fun unlink_precs :: "int \<Rightarrow> ptr list \<Rightarrow> KsiEngine \<Rightarrow> KsiEngine option" where
  "unlink_precs i [] e = Some e"
| "unlink_precs i (p # ps) e = do {
     pn \<leftarrow> get_node e p;
     e \<leftarrow> Some (set_node p (pn\<lparr>ntype := ntype pn AND NOT ksiNodeTypeScratchPredecessor\<rparr>) e);
     e \<leftarrow> drop_successor e p i;
     unlink_precs i ps e
   }"

definition impl_ksiEngineRemoveNode ::
  "nat \<Rightarrow> KsiEngine \<Rightarrow> int \<Rightarrow> ((KsiError \<times> ptr) \<times> KsiEngine) option" where
  "impl_ksiEngineRemoveNode flag e i =
     (if uninitialized e then Some ((ksiErrorUninitialized, NULL), e)
      else do {
        ok \<leftarrow> CHECK_VEC i (nlist (hot e));
        (if \<not> ok then Some ((ksiErrorIdNotFound, NULL), e)
         else do {
           p \<leftarrow> get_at (vdata (nlist (hot e))) i;
           vec \<leftarrow> ksiVecDelete (nlist (hot e)) i;
           e \<leftarrow> Some (set_hot ((hot e)\<lparr>nlist := vec\<rparr>) e);
           n \<leftarrow> get_node e p;
           e \<leftarrow> detach_successors flag p (successors n) e;
           n \<leftarrow> get_node e p;
           (precs, e) \<leftarrow> reg_precs_ports p (nat (inputCount n)) 0 ([], e);
           n \<leftarrow> get_node e p;
           e \<leftarrow> unlink_precs (nid n) precs e;
           n \<leftarrow> get_node e p;
           e \<leftarrow> Some (if ntype n AND ksiNodeTypeOutputMask = ksiNodeTypeOutputFinal
                      then set_hot ((hot e)\<lparr>finalNode := NULL\<rparr>) e else e);
           Some ((ksiErrorNone, p), e)
         })
      })"

text \<open>
  The loop of \<open>RemoveWire\<close> over the entries of the port, with its two flags; the
  result is the remaining list with the final values of \<open>foundEntries\<close> (as a Boolean)
  and \<open>deleted\<close>. Each entry from \<open>s\<close> has its source checked.
\<close>

fun remove_wire_loop ::
  "ptr \<Rightarrow> int \<Rightarrow> bool \<Rightarrow> bool \<Rightarrow> KsiEventEnvEntry list \<Rightarrow> KsiEventEnvEntry list \<times> bool \<times> bool" where
  "remove_wire_loop s port found deleted [] = ([], found, deleted)"
| "remove_wire_loop s port found deleted (me # rest) =
     (if src me = s then
        (if srcPort me = port then
           (if found then (rest, found, True)
            else remove_wire_loop s port found True rest)
         else
           (if deleted then (me # rest, True, deleted)
            else let (r, f, d) = remove_wire_loop s port True deleted rest in (me # r, f, d)))
      else let (r, f, d) = remove_wire_loop s port found deleted rest in (me # r, f, d))"

definition impl_ksiEngineRemoveWire ::
  "nat \<Rightarrow> KsiEngine \<Rightarrow> int \<Rightarrow> int \<Rightarrow> int \<Rightarrow> int \<Rightarrow> (KsiError \<times> KsiEngine) option" where
  "impl_ksiEngineRemoveWire flag e srcId srcPrt desId desPort =
     (if uninitialized e then Some (ksiErrorUninitialized, e)
      else do {
        okS \<leftarrow> CHECK_VEC srcId (nlist (hot e));
        (if \<not> okS then Some (ksiErrorSrcIdNotFound, e)
         else do {
           okD \<leftarrow> CHECK_VEC desId (nlist (hot e));
           (if \<not> okD then Some (ksiErrorDesIdNotFound, e)
            else do {
              s \<leftarrow> get_at (vdata (nlist (hot e))) srcId;
              d \<leftarrow> get_at (vdata (nlist (hot e))) desId;
              sn \<leftarrow> get_node e s;
              dn \<leftarrow> get_node e d;
              (if \<not> CHECK_SRC_PORT sn srcPrt then Some (ksiErrorSrcPortNotFound, e)
               else if \<not> CHECK_DES_PORT dn desPort then Some (ksiErrorDesPortNotFound, e)
               else do {
                 t \<leftarrow> get_at (types_of e (inputTypes dn)) desPort;
                 v \<leftarrow> get_env e d desPort;
                 need (is_event t = (case v of EventEnv _ \<Rightarrow> True | _ \<Rightarrow> False));
                 _ \<leftarrow> (if \<exists>me \<in> set (entries v). src me = s then debug_check_node e s else Some ());
                 (es, found, deleted) \<leftarrow> Some (remove_wire_loop s srcPrt False False (entries v));
                 e \<leftarrow> set_env e d desPort (case v of EventEnv _ \<Rightarrow> EventEnv es
                        | SignalEnv buf ibp _ \<Rightarrow> SignalEnv buf ibp es);
                 e \<leftarrow> (if \<not> found \<and> deleted then do {
                          dn \<leftarrow> get_node e d;
                          e \<leftarrow> drop_successor e s (nid dn);
                          dec_depNum e d
                        } else Some e);
                 (if deleted \<and> \<not> is_event t then do {
                    e \<leftarrow> refreshCopying flag e d desPort;
                    Some (ksiErrorNone, e)
                  }
                  else Some (ksiErrorWireNotFound, e))
               })
            })
         })
      })"

section \<open>Port counts\<close>

text \<open>\<open>memcpy\<close> of the first \<open>k\<close> type bytes; reading beyond the source array fails.\<close>

definition copy_types :: "int8 list \<Rightarrow> int \<Rightarrow> int \<Rightarrow> int8 list option" where
  "copy_types ts k cnt =
     (if k \<le> int (length ts) then Some (take (nat k) ts @ replicate (nat (cnt - k)) 0) else None)"

fun grow_inputs :: "nat \<Rightarrow> int \<Rightarrow> int \<Rightarrow> int8 list \<Rightarrow> int8 list \<times> KsiEnv list \<Rightarrow> (int8 list \<times> KsiEnv list) option" where
  "grow_inputs 0 i old newTypes (ts, vs) = Some (ts, vs)"
| "grow_inputs (Suc k) i old newTypes (ts, vs) = do {
     t \<leftarrow> get_at newTypes (i - old);
     (if is_event t then grow_inputs k (i + 1) old newTypes (ts, vs @ [EventEnv []])
      else do {
        ts \<leftarrow> set_at ts i t;
        grow_inputs k (i + 1) old newTypes (ts, vs @ [SignalEnv NULL NULL []])
      })
   }"

text \<open>
  The first step of both port count changes: the node gets a type array of its own, of
  the new length, or its own array is extended. Fresh bytes are indeterminate (0 here).
\<close>

definition own_types :: "KsiEngine \<Rightarrow> type_array \<Rightarrow> bool \<Rightarrow> int \<Rightarrow> int \<Rightarrow> int8 list option" where
  "own_types e a dyn oldCount newCount =
     (if \<not> dyn then copy_types (types_of e a) (min oldCount newCount) newCount
      else if newCount > oldCount then
        Some (take (nat newCount) (types_of e a)
              @ replicate (nat newCount - length (types_of e a)) 0)
      else Some (types_of e a))"

definition impl_ksiNodeChangeInputPortCount ::
  "nat \<Rightarrow> KsiEngine \<Rightarrow> ptr \<Rightarrow> int \<Rightarrow> int8 list \<Rightarrow> KsiEngine option" where
  "impl_ksiNodeChangeInputPortCount flag e p port_count newTypes = do {
     n \<leftarrow> get_node e p;
     ts \<leftarrow> own_types e (inputTypes n) (ntype n AND ksiNodeTypeDynamicInputType \<noteq> 0)
            (inputCount n) port_count;
     n \<leftarrow> Some (n\<lparr>inputTypes := Own ts, ntype := ntype n OR ksiNodeTypeDynamicInputType\<rparr>);
     e \<leftarrow> (if port_count < inputCount n
           then for_ports (\<lambda>e i. impl_delete_env flag e n i)
                  (nat (inputCount n - port_count)) port_count e
           else Some e);
     (ts, vs) \<leftarrow> (if port_count > inputCount n
           then grow_inputs (nat (port_count - inputCount n)) (inputCount n) (inputCount n)
                  newTypes (ts, nenv n)
           else Some (ts, take (nat port_count) (nenv n)));
     Some (set_node p (n\<lparr>inputTypes := Own ts, nenv := vs, inputCount := port_count\<rparr>) e)
   }"

fun grow_outputs :: "nat \<Rightarrow> bool \<Rightarrow> nat \<Rightarrow> int \<Rightarrow> int \<Rightarrow> int8 list \<Rightarrow> int8 list \<times> ptr list \<times> KsiEngine
     \<Rightarrow> (int8 list \<times> ptr list \<times> KsiEngine) option" where
  "grow_outputs flag normal 0 i old newTypes (ts, obs, e) = Some (ts, obs, e)"
| "grow_outputs flag normal (Suc k) i old newTypes (ts, obs, e) = do {
     t \<leftarrow> get_at newTypes (i - old);
     ts \<leftarrow> set_at ts i t;
     (ob, e) \<leftarrow> (if normal then new_output flag e t else Some (NULL, e));
     grow_outputs flag normal k (i + 1) old newTypes (ts, obs @ [ob], e)
   }"

definition impl_ksiNodeChangeOutputPortCount ::
  "nat \<Rightarrow> KsiEngine \<Rightarrow> ptr \<Rightarrow> int \<Rightarrow> int8 list \<Rightarrow> KsiEngine option" where
  "impl_ksiNodeChangeOutputPortCount flag e p port_count newTypes = do {
     n \<leftarrow> get_node e p;
     ts \<leftarrow> own_types e (outputTypes n) (ntype n AND ksiNodeTypeDynamicOutputType \<noteq> 0)
            (outputCount n) port_count;
     n \<leftarrow> Some (n\<lparr>outputTypes := Own ts, ntype := ntype n OR ksiNodeTypeDynamicOutputType\<rparr>);
     let normal = (ntype n AND ksiNodeTypeOutputMask = ksiNodeTypeOutputNormal);
     e \<leftarrow> (if normal \<and> port_count < outputCount n
           then for_ports (\<lambda>e i. impl_delete_output flag e n i)
                  (nat (outputCount n - port_count)) port_count e
           else Some e);
     (ts, obs, e) \<leftarrow> (if port_count > outputCount n
           then grow_outputs flag normal (nat (port_count - outputCount n)) (outputCount n)
                  (outputCount n) newTypes (ts, outputBuffer n, e)
           else Some (ts, take (nat port_count) (outputBuffer n), e));
     Some (set_node p (n\<lparr>outputTypes := Own ts, outputBuffer := obs, outputCount := port_count\<rparr>) e)
   }"

section \<open>Editing commands of the plugins\<close>

definition ksiBuiltinNodeFuncIdEditCmd ::
  "nat \<Rightarrow> KsiEngine \<Rightarrow> ptr \<Rightarrow> string \<Rightarrow> (KsiError \<times> KsiEngine) option" where
  "ksiBuiltinNodeFuncIdEditCmd flag e p args = do {
     r \<leftarrow> sscanf_d32 args;
     (case r of
        None \<Rightarrow> Some (ksiErrorSyntax, e)
      | Some (port_count, _) \<Rightarrow>
          if \<not> port_count > 0 then Some (ksiErrorPlugin, e)
          else do {
            n \<leftarrow> get_node e p;
            let newTypes = (if port_count > inputCount n
              then replicate (nat (port_count - inputCount n)) ksiNodePortTypeFloat else []);
            e \<leftarrow> impl_ksiNodeChangeInputPortCount flag e p port_count newTypes;
            e \<leftarrow> impl_ksiNodeChangeOutputPortCount flag e p port_count newTypes;
            Some (ksiErrorNone, e)
          })
   }"

definition kscarletMidiSegEditCmd ::
  "nat \<Rightarrow> KsiEngine \<Rightarrow> ptr \<Rightarrow> string \<Rightarrow> (KsiError \<times> KsiEngine) option" where
  "kscarletMidiSegEditCmd flag e p args = do {
     n \<leftarrow> get_node e p;
     (case args of
        [] \<Rightarrow> Some (ksiErrorSyntax, e)
      | c # rest \<Rightarrow>
          if c = CHR ''m'' then do {
            r \<leftarrow> sscanf_d32 rest;
            (case r of
               None \<Rightarrow> Some (ksiErrorSyntax, e)
             | Some (mid, _) \<Rightarrow> do {
                 ok \<leftarrow> CHECK_VEC mid (timeseqResources e);
                 (if \<not> ok then Some (ksiErrorTimeSeqIdNotFound, e)
                  else do {
                    t \<leftarrow> get_at (vdata (timeseqResources e)) mid;
                    pe \<leftarrow> plugs e (nargs n);
                    (case pe of
                       MidiSegEnv _ cur \<Rightarrow>
                         Some (ksiErrorNone, e\<lparr>plugs := (plugs e)(nargs n \<mapsto> MidiSegEnv t cur)\<rparr>)
                     | _ \<Rightarrow> None)
                  })
               })
          }
          else if c = CHR ''p'' \<or> c = CHR ''P'' then Some (ksiErrorNone, e)
          else Some (ksiErrorSyntax, e))
   }"

definition impl_ksiEngineSendEditingCommand ::
  "nat \<Rightarrow> KsiEngine \<Rightarrow> int \<Rightarrow> string \<Rightarrow> (KsiError \<times> KsiEngine) option" where
  "impl_ksiEngineSendEditingCommand flag e i args =
     (if uninitialized e then Some (ksiErrorUninitialized, e)
      else do {
        ok \<leftarrow> CHECK_VEC i (nlist (hot e));
        (if \<not> ok then Some (ksiErrorIdNotFound, e)
         else do {
           p \<leftarrow> get_at (vdata (nlist (hot e))) i;
           n \<leftarrow> get_node e p;
           (case INLINE_LIST (ksiNodeTypeInlineId (ntype n)) of
              None \<Rightarrow> Some (ksiErrorNone, e)
            | Some pl \<Rightarrow>
                if \<not> editCmd pl then Some (ksiErrorNoEditCmd, e)
                else if ksiNodeTypeInlineId (ntype n) = 1 then ksiBuiltinNodeFuncIdEditCmd flag e p args
                else if ksiNodeTypeInlineId (ntype n) = 3 then kscarletMidiSegEditCmd flag e p args
                else None)
         })
      })"

section \<open>Destroying a node\<close>

text \<open>
  The node's own memory (successor cells, environments, type arrays, \<open>extArgs\<close>) goes
  with the node's record, which the caller removes from the version's heap.
\<close>

definition ksiEngineDestroyNode :: "nat \<Rightarrow> KsiEngine \<Rightarrow> KsiNode \<Rightarrow> KsiEngine option" where
  "ksiEngineDestroyNode flag e n = do {
     e \<leftarrow> for_ports (\<lambda>e i. impl_delete_env flag e n i) (nat (inputCount n)) 0 e;
     e \<leftarrow> (if ntype n AND ksiNodeTypeOutputMask = ksiNodeTypeOutputNormal
           then for_ports (\<lambda>e i. impl_delete_output flag e n i) (nat (outputCount n)) 0 e
           else Some e);
     (if flag \<noteq> 0
      then (case INLINE_LIST (ksiNodeTypeInlineId (ntype n)) of
              Some pl \<Rightarrow>
                if dynamicMemory pl then do {
                  _ \<leftarrow> plugs e (nargs n);
                  Some (e\<lparr>plugs := (plugs e)(nargs n := None)\<rparr>)
                }
                else Some e
            | None \<Rightarrow> Some e)
      else Some e)
   }"

definition free_node :: "KsiEngine \<Rightarrow> ptr \<Rightarrow> KsiEngine" where
  "free_node e p = set_hot ((hot e)\<lparr>nheap := (nheap (hot e))(p := None)\<rparr>) e"

end
