(* ===== verification/Dagedit.thy ===== *)
theory Dagedit
  imports Kernels
begin

text \<open>
  The editing interface of \<^verbatim>\<open>ksid/dagedit.c\<close> (the calls the command interpreter
  makes) and the committer of \<^verbatim>\<open>ksid/dagedit_commit.c\<close>, on top of the operations
  of \<^verbatim>\<open>dagedit_kernels.h\<close>. A call runs with the engine's lock held, so it is one
  step on the engine; a call or a round that has to wait is not a step (\<^const>\<open>None\<close>).
\<close>

section \<open>Waiting\<close>

text \<open>
  \<open>ksiCondWait\<close> returns at once when \<open>committedFlag\<close> is clear; otherwise the caller
  sleeps until \<open>ksiCondSignal\<close> has cleared it. Semaphores are counters.
\<close>

definition ksiCondWait :: "KsiEngine \<Rightarrow> KsiEngine option" where
  "ksiCondWait e = (if committedFlag e then None else Some e)"

definition ksiCondSetWait :: "KsiEngine \<Rightarrow> KsiEngine" where
  "ksiCondSetWait e = e\<lparr>committedFlag := True\<rparr>"

definition ksiCondSignal :: "KsiEngine \<Rightarrow> KsiEngine" where
  "ksiCondSignal e = e\<lparr>committedFlag := False\<rparr>"

definition ksiSemPost :: "nat \<Rightarrow> nat" where
  "ksiSemPost s = Suc s"

definition ksiSemWait :: "nat \<Rightarrow> nat option" where
  "ksiSemWait s = (case s of 0 \<Rightarrow> None | Suc k \<Rightarrow> Some k)"

section \<open>The editor's calls\<close>

definition send_cmd :: "KsiEngine \<Rightarrow> KsiDagEditCmd \<Rightarrow> KsiEngine option" where
  "send_cmd e cmd = do {
     q \<leftarrow> ksiSPSCListEnqueue (syncCmds e) cmd;
     Some (e\<lparr>syncCmds := q\<rparr>)
   }"

definition ksiEngineAddNode ::
  "KsiEngine \<Rightarrow> int32 \<Rightarrow> 8 word list \<Rightarrow> ((KsiError \<times> int) \<times> KsiEngine) option" where
  "ksiEngineAddNode e typeFlags xargs = do {
     e \<leftarrow> ksiCondWait e;
     ((ret, i, p), e) \<leftarrow> impl_ksiEngineAddNode 0 e typeFlags xargs;
     e \<leftarrow> (if ret = ksiErrorNone then do {
              n \<leftarrow> get_node e p;
              send_cmd e (ksiDagEditAddNode typeFlags xargs (nargs n))
            } else Some e);
     Some ((ret, i), e)
   }"

definition ksiEngineMakeWire ::
  "KsiEngine \<Rightarrow> int \<Rightarrow> int \<Rightarrow> int \<Rightarrow> int \<Rightarrow> KsiData \<Rightarrow> (KsiError \<times> KsiEngine) option" where
  "ksiEngineMakeWire e srcId srcPrt desId desPort g = do {
     e \<leftarrow> ksiCondWait e;
     (ret, e) \<leftarrow> impl_ksiEngineMakeWire 0 e srcId srcPrt desId desPort g;
     e \<leftarrow> (if ret = ksiErrorNone
           then send_cmd e (ksiDagEditMakeWire srcId srcPrt desId desPort g) else Some e);
     Some (ret, e)
   }"

definition ksiEngineMakeBias :: "KsiEngine \<Rightarrow> int \<Rightarrow> int \<Rightarrow> KsiData \<Rightarrow> (KsiError \<times> KsiEngine) option" where
  "ksiEngineMakeBias e desId desPort bias = do {
     e \<leftarrow> ksiCondWait e;
     (ret, e) \<leftarrow> impl_ksiEngineMakeBias 0 e desId desPort bias;
     e \<leftarrow> (if ret = ksiErrorNone
           then send_cmd e (ksiDagEditMakeBias desId desPort bias) else Some e);
     Some (ret, e)
   }"

definition ksiEngineGetInputType :: "KsiEngine \<Rightarrow> int \<Rightarrow> int \<Rightarrow> ((KsiError \<times> int8 option) \<times> KsiEngine) option" where
  "ksiEngineGetInputType e i port = do {
     e \<leftarrow> ksiCondWait e;
     ok \<leftarrow> CHECK_VEC i (nlist (hot e));
     (if \<not> ok then Some ((ksiErrorIdNotFound, None), e)
      else do {
        p \<leftarrow> get_at (vdata (nlist (hot e))) i;
        n \<leftarrow> get_node e p;
        (if \<not> CHECK_DES_PORT n port then Some ((ksiErrorPortNotFound, None), e)
         else do {
           t \<leftarrow> get_at (types_of e (inputTypes n)) port;
           Some ((ksiErrorNone, Some t), e)
         })
      })
   }"

definition ksiEngineDetachNodes :: "KsiEngine \<Rightarrow> int \<Rightarrow> int \<Rightarrow> (KsiError \<times> KsiEngine) option" where
  "ksiEngineDetachNodes e srcId desId = do {
     e \<leftarrow> ksiCondWait e;
     (ret, e) \<leftarrow> impl_ksiEngineDetachNodes 0 e srcId desId;
     e \<leftarrow> (if ret = ksiErrorNone
           then send_cmd e (ksiDagEditDetachNodes srcId desId) else Some e);
     Some (ret, e)
   }"

definition ksiEngineRemoveNode :: "KsiEngine \<Rightarrow> int \<Rightarrow> (KsiError \<times> KsiEngine) option" where
  "ksiEngineRemoveNode e i = do {
     e \<leftarrow> ksiCondWait e;
     ((ret, p), e) \<leftarrow> impl_ksiEngineRemoveNode 0 e i;
     e \<leftarrow> (if ret = ksiErrorNone then do {
              n \<leftarrow> get_node e p;
              e \<leftarrow> ksiEngineDestroyNode 0 e n;
              send_cmd (free_node e p) (ksiDagEditRemoveNode i)
            } else Some e);
     Some (ret, e)
   }"

definition ksiEngineRemoveWire ::
  "KsiEngine \<Rightarrow> int \<Rightarrow> int \<Rightarrow> int \<Rightarrow> int \<Rightarrow> (KsiError \<times> KsiEngine) option" where
  "ksiEngineRemoveWire e srcId srcPrt desId desPort = do {
     e \<leftarrow> ksiCondWait e;
     (ret, e) \<leftarrow> impl_ksiEngineRemoveWire 0 e srcId srcPrt desId desPort;
     e \<leftarrow> (if ret = ksiErrorNone
           then send_cmd e (ksiDagEditRemoveWire srcId srcPrt desId desPort) else Some e);
     Some (ret, e)
   }"

text \<open>The command's error is dropped: the call always reports success.\<close>

definition ksiEngineSendEditingCommand :: "KsiEngine \<Rightarrow> int \<Rightarrow> string \<Rightarrow> (KsiError \<times> KsiEngine) option" where
  "ksiEngineSendEditingCommand e i args = do {
     e \<leftarrow> ksiCondWait e;
     (err, e) \<leftarrow> impl_ksiEngineSendEditingCommand 0 e i args;
     e \<leftarrow> (if err = ksiErrorNone
           then send_cmd e (ksiDagEditSendEditingCmd i args) else Some e);
     Some (ksiErrorNone, e)
   }"

text \<open>
  \<open>ksiEngineCommit\<close>: nothing to do when the command queue is empty (the test compares
  the queue's \<open>head\<close> and \<open>tail\<close>). Otherwise the roles of the two versions are
  exchanged and the committer is woken.
\<close>

definition ksiEngineCommit :: "KsiEngine \<Rightarrow> (KsiError \<times> KsiEngine) option" where
  "ksiEngineCommit e =
     (if uninitialized e then Some (ksiErrorUninitialized, e)
      else if qhead (syncCmds e) = qtail (syncCmds e) then Some (ksiErrorNone, e)
      else do {
        e \<leftarrow> ksiCondWait e;
        e \<leftarrow> Some (ksiCondSetWait e);
        Some (ksiErrorNone, e\<lparr>epoch := (epoch e + 1) mod 2,
                              committingSem := ksiSemPost (committingSem e)\<rparr>)
      })"

section \<open>The committer\<close>

text \<open>
  One command: the operation again, on the version the audio threads have left, with
  \<open>flag\<close> 1. Error results are ignored; a node that an operation did not return is an
  uninitialised pointer.
\<close>

definition commit_cmd :: "KsiDagEditCmd \<Rightarrow> KsiEngine \<Rightarrow> KsiEngine option" where
  "commit_cmd cmd e =
     (case cmd of
        ksiDagEditInvalid \<Rightarrow> None
      | ksiDagEditAddNode typeFlags xargs a \<Rightarrow> do {
          ((_, _, p), e) \<leftarrow> impl_ksiEngineAddNode 1 e typeFlags xargs;
          n \<leftarrow> get_node e p;
          Some (set_node p (n\<lparr>nargs := a\<rparr>) e)
        }
      | ksiDagEditMakeWire srcId srcPrt desId desPort g \<Rightarrow> do {
          (_, e) \<leftarrow> impl_ksiEngineMakeWire 1 e srcId srcPrt desId desPort g;
          Some e
        }
      | ksiDagEditMakeBias desId desPort g \<Rightarrow> do {
          (_, e) \<leftarrow> impl_ksiEngineMakeBias 1 e desId desPort g;
          Some e
        }
      | ksiDagEditDetachNodes srcId desId \<Rightarrow> do {
          (_, e) \<leftarrow> impl_ksiEngineDetachNodes 1 e srcId desId;
          Some e
        }
      | ksiDagEditRemoveNode i \<Rightarrow> do {
          ((_, p), e) \<leftarrow> impl_ksiEngineRemoveNode 1 e i;
          n \<leftarrow> get_node e p;
          e \<leftarrow> ksiEngineDestroyNode 1 e n;
          Some (free_node e p)
        }
      | ksiDagEditRemoveWire srcId srcPrt desId desPort \<Rightarrow> do {
          (_, e) \<leftarrow> impl_ksiEngineRemoveWire 1 e srcId srcPrt desId desPort;
          Some e
        }
      | ksiDagEditSendEditingCmd i args \<Rightarrow> do {
          (_, e) \<leftarrow> impl_ksiEngineSendEditingCommand 1 e i args;
          Some e
        })"

text \<open>The \<open>while(cmd.cmd)\<close> loop: until the queue yields the invalid command.\<close>

partial_function (option) commit_loop :: "KsiEngine \<Rightarrow> KsiEngine option" where
  "commit_loop e = do {
     (cmd, q) \<leftarrow> ksiSPSCListDequeue ksiDagEditInvalid (syncCmds e);
     e \<leftarrow> Some (e\<lparr>syncCmds := q\<rparr>);
     (if cmd = ksiDagEditInvalid then Some e
      else do {
        e \<leftarrow> commit_cmd cmd e;
        commit_loop e
      })
   }"

declare commit_loop.simps [code]

text \<open>
  A round of the committer, from \<open>ksiSemWait(&e->committingSem)\<close> on. When the engine is
  not playing, no callback will acknowledge the new epoch, and the committer sets
  \<open>audioEpoch\<close> itself.
\<close>

definition await_migration :: "KsiEngine \<Rightarrow> KsiEngine option" where
  "await_migration e =
     (if playing e = ksiEnginePlaying then
        (if epoch e \<noteq> audioEpoch e \<and> driver_env e then do {
           s \<leftarrow> ksiSemWait (migratedSem e);
           Some (e\<lparr>migratedSem := s\<rparr>)
         } else Some e)
      else Some (e\<lparr>audioEpoch := (epoch e + 1) mod 2\<rparr>))"

definition ksiMVCCCommitter_round :: "KsiEngine \<Rightarrow> KsiEngine option" where
  "ksiMVCCCommitter_round e = do {
     s \<leftarrow> ksiSemWait (committingSem e);
     e \<leftarrow> await_migration (e\<lparr>committingSem := s\<rparr>);
     commit_loop (ksiCondSignal e)
   }"

text \<open>
  \<open>ksiEngineDestroyChild\<close>: the nodes of version 0 are destroyed as the editor would,
  those of version 1 as the committer would.
\<close>

fun destroy_all :: "nat \<Rightarrow> nat \<Rightarrow> (int \<times> ptr) list \<Rightarrow> KsiEngine \<Rightarrow> KsiEngine option" where
  "destroy_all flag v [] e = Some e"
| "destroy_all flag v ((i, p) # rest) e = do {
     n \<leftarrow> nheap (ver e v) p;
     e \<leftarrow> ksiEngineDestroyNode flag e n;
     destroy_all flag v rest
       (e\<lparr>ver := (ver e)(v := (ver e v)\<lparr>nheap := (nheap (ver e v))(p := None)\<rparr>)\<rparr>)
   }"

definition ksiEngineDestroyChild :: "KsiEngine \<Rightarrow> KsiEngine option" where
  "ksiEngineDestroyChild e = do {
     e \<leftarrow> ksiCondWait e;
     e \<leftarrow> destroy_all 0 0 (ksiVecIterate (nlist (ver e 0))) e;
     destroy_all 1 1 (ksiVecIterate (nlist (ver e 1))) e
   }"

section \<open>Sequences of calls\<close>

text \<open>The editor's calls as data; \<open>edit\<close> makes one and \<open>edits\<close> a sequence.\<close>

datatype edit_call =
    AddNode int32 "8 word list"
  | MakeWire int int int int KsiData
  | MakeBias int int KsiData
  | DetachNodes int int
  | RemoveNode int
  | RemoveWire int int int int
  | SendEditingCommand int string

definition edit :: "edit_call \<Rightarrow> KsiEngine \<Rightarrow> (KsiError \<times> KsiEngine) option" where
  "edit call e =
     (case call of
        AddNode t x \<Rightarrow> map_option (\<lambda>((ret, i), e). (ret, e)) (ksiEngineAddNode e t x)
      | MakeWire s sp d dp g \<Rightarrow> ksiEngineMakeWire e s sp d dp g
      | MakeBias d dp g \<Rightarrow> ksiEngineMakeBias e d dp g
      | DetachNodes s d \<Rightarrow> ksiEngineDetachNodes e s d
      | RemoveNode i \<Rightarrow> ksiEngineRemoveNode e i
      | RemoveWire s sp d dp \<Rightarrow> ksiEngineRemoveWire e s sp d dp
      | SendEditingCommand i x \<Rightarrow> ksiEngineSendEditingCommand e i x)"

fun edits :: "edit_call list \<Rightarrow> KsiEngine \<Rightarrow> (KsiError list \<times> KsiEngine) option" where
  "edits [] e = Some ([], e)"
| "edits (call # calls) e = do {
     (ret, e) \<leftarrow> edit call e;
     (rets, e) \<leftarrow> edits calls e;
     Some (ret # rets, e)
   }"

end
