(* ===== verification/Mix.thy ===== *)
theory Mix
  imports Engine_State
begin

text \<open>
  How a worker prepares the input ports of a node before it calls the node's function
  (\<^verbatim>\<open>ksid/engine.c\<close>), and how the function reads an input
  (\<^verbatim>\<open>ksiNodeGetInput\<close> of \<^verbatim>\<open>ksid/dag.h\<close>).

  The sample memory is a map from buffers to their samples. The audio threads work on version
  \<open>audioEpoch\<close> of the graph. Port types are read and written through the arrays the nodes
  point to, which the nodes of a plugin share.
\<close>

type_synonym samples = "ptr \<Rightarrow> KsiData list option"

section \<open>Accesses\<close>

definition audio_node :: "KsiEngine \<Rightarrow> ptr \<Rightarrow> KsiNode option" where
  "audio_node e p = nheap (ver e (audioEpoch e)) p"

definition sample_at :: "samples \<Rightarrow> ptr \<Rightarrow> int \<Rightarrow> KsiData option" where
  "sample_at m p j = do { xs \<leftarrow> m p; get_at xs j }"

definition set_sample :: "ptr \<Rightarrow> int \<Rightarrow> KsiData \<Rightarrow> samples \<Rightarrow> samples option" where
  "set_sample p j x m = do { xs \<leftarrow> m p; ys \<leftarrow> set_at xs j x; Some (m(p \<mapsto> ys)) }"

text \<open>\<open>n->inputTypes[i] = t\<close>, through the array the node points to.\<close>

definition set_input_type :: "ptr \<Rightarrow> int \<Rightarrow> int8 \<Rightarrow> KsiEngine \<Rightarrow> KsiEngine option" where
  "set_input_type p i t e = do {
     n \<leftarrow> audio_node e p;
     ts \<leftarrow> set_at (types_of e (inputTypes n)) i t;
     (case inputTypes n of
        InPorts k \<Rightarrow> Some (e\<lparr>staticIn := (staticIn e)(k := ts)\<rparr>)
      | OutPorts k \<Rightarrow> Some (e\<lparr>staticOut := (staticOut e)(k := ts)\<rparr>)
      | Own _ \<Rightarrow> Some (e\<lparr>ver := (ver e)(audioEpoch e := (ver e (audioEpoch e))
          \<lparr>nheap := (nheap (ver e (audioEpoch e)))(p \<mapsto> n\<lparr>inputTypes := Own ts\<rparr>)\<rparr>)\<rparr>)
      | NoTypes \<Rightarrow> None)
   }"

definition get_input_type :: "ptr \<Rightarrow> int \<Rightarrow> KsiEngine \<Rightarrow> int8 option" where
  "get_input_type p i e = do { n \<leftarrow> audio_node e p; get_at (types_of e (inputTypes n)) i }"

definition output_dirty :: "KsiEngine \<Rightarrow> ptr \<Rightarrow> int \<Rightarrow> bool option" where
  "output_dirty e p port = do {
     n \<leftarrow> audio_node e p;
     t \<leftarrow> get_at (types_of e (outputTypes n)) port;
     Some (t AND ksiNodePortIODirty \<noteq> 0)
   }"

definition output_buffer :: "KsiEngine \<Rightarrow> ptr \<Rightarrow> int \<Rightarrow> ptr option" where
  "output_buffer e p port = do { n \<leftarrow> audio_node e p; get_at (outputBuffer n) port }"

section \<open>The mixer\<close>

text \<open>
  The first loop: biases and the cached values (the last samples) of the clean sources are
  added up in the last sample of the buffer; the result says whether a source is dirty.
\<close>

fun mix_clean :: "KsiEngine \<Rightarrow> int8 \<Rightarrow> ptr \<Rightarrow> KsiEventEnvEntry list \<Rightarrow> samples \<Rightarrow> int8 \<Rightarrow> (samples \<times> int8) option" where
  "mix_clean e type buf [] m dirty = Some (m, dirty)"
| "mix_clean e type buf (me # rest) m dirty =
     (if src me = NULL then do {
        c \<leftarrow> sample_at m buf (framesPerBuffer e - 1);
        m \<leftarrow> set_sample buf (framesPerBuffer e - 1) (ksiDataIncrease c (gain me) type) m;
        mix_clean e type buf rest m dirty
      }
      else do {
        d \<leftarrow> output_dirty e (src me) (srcPort me);
        (if d then mix_clean e type buf rest m ksiNodePortIODirty
         else do {
           c \<leftarrow> sample_at m buf (framesPerBuffer e - 1);
           b \<leftarrow> output_buffer e (src me) (srcPort me);
           x \<leftarrow> sample_at m b (framesPerBuffer e - 1);
           m \<leftarrow> set_sample buf (framesPerBuffer e - 1) (ksiDataWeightedIncrease c x (gain me) type) m;
           mix_clean e type buf rest m dirty
         })
      })"

text \<open>Copying the cached value to the samples before it.\<close>

fun spread_cache :: "KsiEngine \<Rightarrow> ptr \<Rightarrow> nat \<Rightarrow> samples \<Rightarrow> samples option" where
  "spread_cache e buf 0 m = Some m"
| "spread_cache e buf (Suc j) m = do {
     m \<leftarrow> spread_cache e buf j m;
     c \<leftarrow> sample_at m buf (framesPerBuffer e - 1);
     set_sample buf (int j) c m
   }"

text \<open>The second loop: the buffers of the dirty sources are added sample by sample.\<close>

fun mix_dirty :: "KsiEngine \<Rightarrow> int8 \<Rightarrow> ptr \<Rightarrow> KsiEventEnvEntry list \<Rightarrow> samples \<Rightarrow> samples option" where
  "mix_dirty e type buf [] m = Some m"
| "mix_dirty e type buf (me # rest) m =
     (if src me = NULL then mix_dirty e type buf rest m
      else do {
        d \<leftarrow> output_dirty e (src me) (srcPort me);
        (if d then do {
           b \<leftarrow> output_buffer e (src me) (srcPort me);
           des \<leftarrow> m buf;
           xs \<leftarrow> m b;
           des \<leftarrow> ksiDataBufferWeightedIncrease des xs (gain me) (framesPerBuffer e) type;
           mix_dirty e type buf rest (m(buf \<mapsto> des))
         }
         else mix_dirty e type buf rest m)
      })"

text \<open>One input port; \<open>mix_inputs\<close> is the loop over all ports from \<open>i\<close> on.\<close>

definition mix_input :: "ptr \<Rightarrow> int \<Rightarrow> KsiEngine \<times> samples \<Rightarrow> (KsiEngine \<times> samples) option" where
  "mix_input p i s = do {
     let (e, m) = s;
     n \<leftarrow> audio_node e p;
     type \<leftarrow> get_input_type p i e;
     (if is_event type then Some (e, m)
      else do {
        env \<leftarrow> get_at (nenv n) i;
        (case env of
           EventEnv _ \<Rightarrow> None
         | SignalEnv buf ibuf mes \<Rightarrow>
             (if buf \<noteq> NULL then do {
                m \<leftarrow> set_sample buf (framesPerBuffer e - 1) 0 m;
                (m, dirty) \<leftarrow> mix_clean e type buf mes m 0;
                m \<leftarrow> (if dirty \<noteq> 0 then do {
                        m \<leftarrow> spread_cache e buf (nat (framesPerBuffer e - 1)) m;
                        mix_dirty e type buf mes m
                      } else Some m);
                t \<leftarrow> get_input_type p i e;
                e \<leftarrow> set_input_type p i ((t AND NOT ksiNodePortIOMask) OR dirty) e;
                Some (e, m)
              }
              else do {
                t \<leftarrow> get_input_type p i e;
                dirty \<leftarrow> (case mes of
                    [] \<Rightarrow> Some False
                  | me # _ \<Rightarrow> if src me \<noteq> NULL then output_dirty e (src me) (srcPort me) else Some False);
                e \<leftarrow> set_input_type p i (if dirty then ksiNodePortIOSetDirty t else ksiNodePortIOClear t) e;
                Some (e, m)
              }))
      })
   }"

fun mix_inputs :: "ptr \<Rightarrow> int \<Rightarrow> nat \<Rightarrow> KsiEngine \<times> samples \<Rightarrow> (KsiEngine \<times> samples) option" where
  "mix_inputs p i 0 s = Some s"
| "mix_inputs p i (Suc k) s = do { s \<leftarrow> mix_input p i s; mix_inputs p (i + 1) k s }"

section \<open>Reading an input\<close>

definition ksiNodeGetInput :: "KsiEngine \<Rightarrow> samples \<Rightarrow> ptr \<Rightarrow> int \<Rightarrow> int \<Rightarrow> int \<Rightarrow> KsiData option" where
  "ksiNodeGetInput e m p frames port i = do {
     n \<leftarrow> audio_node e p;
     env \<leftarrow> get_at (nenv n) port;
     t \<leftarrow> get_input_type p port e;
     (case env of
        EventEnv _ \<Rightarrow> None
      | SignalEnv buf ibuf mes \<Rightarrow>
          (if t AND ksiNodePortIODirty \<noteq> 0 then sample_at m ibuf i
           else if ibuf \<noteq> NULL then sample_at m ibuf (frames - 1)
           else (case mes of me # _ \<Rightarrow> Some (gain me) | [] \<Rightarrow> Some 0)))
   }"

section \<open>The reference: an input as a weighted sum\<close>

definition source_dirty :: "KsiEngine \<Rightarrow> KsiEventEnvEntry \<Rightarrow> bool" where
  "source_dirty e me \<longleftrightarrow> output_dirty e (src me) (srcPort me) = Some True"

definition source_value :: "KsiEngine \<Rightarrow> samples \<Rightarrow> KsiEventEnvEntry \<Rightarrow> int \<Rightarrow> KsiData" where
  "source_value e m me j =
     (case output_buffer e (src me) (srcPort me) of
        Some b \<Rightarrow> (case m b of Some xs \<Rightarrow> xs ! nat j | None \<Rightarrow> 0) | None \<Rightarrow> 0)"

definition add_clean :: "KsiEngine \<Rightarrow> samples \<Rightarrow> int8 \<Rightarrow> KsiData \<Rightarrow> KsiEventEnvEntry \<Rightarrow> KsiData" where
  "add_clean e m type acc me =
     (if src me = NULL then ksiDataIncrease acc (gain me) type
      else if source_dirty e me then acc
      else ksiDataWeightedIncrease acc (source_value e m me (framesPerBuffer e - 1)) (gain me) type)"

definition add_dirty :: "KsiEngine \<Rightarrow> samples \<Rightarrow> int8 \<Rightarrow> int \<Rightarrow> KsiData \<Rightarrow> KsiEventEnvEntry \<Rightarrow> KsiData" where
  "add_dirty e m type j acc me =
     (if src me \<noteq> NULL \<and> source_dirty e me
      then ksiDataWeightedIncrease acc (source_value e m me j) (gain me) type else acc)"

definition input_value :: "KsiEngine \<Rightarrow> samples \<Rightarrow> int8 \<Rightarrow> KsiEventEnvEntry list \<Rightarrow> int \<Rightarrow> KsiData" where
  "input_value e m type mes j = foldl (add_dirty e m type j) (foldl (add_clean e m type) 0 mes) mes"

text \<open>A source that can be read: a bias, or a node with a buffer of its own of the right size.\<close>

definition source_ok :: "KsiEngine \<Rightarrow> samples \<Rightarrow> ptr \<Rightarrow> KsiEventEnvEntry \<Rightarrow> bool" where
  "source_ok e m buf me \<longleftrightarrow> src me \<noteq> NULL \<longrightarrow>
     (output_dirty e (src me) (srcPort me) \<noteq> None \<and>
      (\<exists>b xs. output_buffer e (src me) (srcPort me) = Some b \<and> b \<noteq> buf \<and> m b = Some xs \<and> framesPerBuffer e \<le> int (List.length xs)))"

lemma source_okD:
  assumes "source_ok e m buf me" "src me \<noteq> NULL"
  shows "output_dirty e (src me) (srcPort me) = Some (source_dirty e me)"
    "\<exists>b xs. output_buffer e (src me) (srcPort me) = Some b \<and> b \<noteq> buf \<and> m b = Some xs \<and> framesPerBuffer e \<le> int (List.length xs) \<and>
       (\<forall>j. source_value e m me j = xs ! nat j)"
  using assms by (auto simp: source_ok_def source_dirty_def source_value_def)

definition any_dirty :: "KsiEngine \<Rightarrow> KsiEventEnvEntry list \<Rightarrow> bool" where
  "any_dirty e mes \<longleftrightarrow> (\<exists>me \<in> set mes. src me \<noteq> NULL \<and> source_dirty e me)"

lemma mix_clean_sum:
  assumes "0 < framesPerBuffer e" "framesPerBuffer e \<le> int (List.length des)"
    "\<forall>me \<in> set mes. source_ok e m buf me"
  shows "mix_clean e type buf mes (m(buf \<mapsto> des[nat (framesPerBuffer e - 1) := c])) d =
     Some (m(buf \<mapsto> des[nat (framesPerBuffer e - 1) := foldl (add_clean e m type) c mes]),
       if any_dirty e mes then ksiNodePortIODirty else d)"
proof -
  let ?l = "nat (framesPerBuffer e - 1)"
  define M where "M = (\<lambda>c. m(buf \<mapsto> des[?l := c]))"
  have l: "?l < List.length des" "0 \<le> framesPerBuffer e - 1" using assms(1,2) by linarith+
  have rd: "sample_at (M c) buf (framesPerBuffer e - 1) = Some c" for c
    using l by (simp add: sample_at_def get_at_def M_def)
  have wr: "set_sample buf (framesPerBuffer e - 1) x (M c) = Some (M x)" for x c
    using l by (simp add: set_sample_def set_at_def M_def)
  have "mix_clean e type buf mes (M c) d =
     Some (M (foldl (add_clean e m type) c mes), if any_dirty e mes then ksiNodePortIODirty else d)"
    using assms(3)
  proof (induction mes arbitrary: c d)
    case (Cons me mes)
    have IH: "mix_clean e type buf mes (M c) d =
       Some (M (foldl (add_clean e m type) c mes), if any_dirty e mes then ksiNodePortIODirty else d)" for c d
      by (rule Cons.IH) (use Cons.prems in simp)
    show ?case
    proof (cases "src me = NULL")
      case True
      then have "any_dirty e (me # mes) = any_dirty e mes" "add_clean e m type c me = ksiDataIncrease c (gain me) type"
        by (simp_all add: any_dirty_def add_clean_def)
      then show ?thesis using True by (simp add: rd wr IH)
    next
      case False
      have ok: "source_ok e m buf me" using Cons.prems by simp
      obtain b xs where b: "output_buffer e (src me) (srcPort me) = Some b" "b \<noteq> buf" "m b = Some xs"
        "framesPerBuffer e \<le> int (List.length xs)" "\<forall>j. source_value e m me j = xs ! nat j"
        using source_okD(2) [OF ok False] by blast
      have x: "sample_at (M c) b (framesPerBuffer e - 1) = Some (source_value e m me (framesPerBuffer e - 1))" for c
        using b l by (simp add: sample_at_def get_at_def M_def)
      show ?thesis
      proof (cases "source_dirty e me")
        case True
        then have "any_dirty e (me # mes)" "add_clean e m type c me = c" using False by (simp_all add: any_dirty_def add_clean_def)
        then show ?thesis using True False source_okD(1) [OF ok False] by (simp add: IH)
      next
        case clean: False
        then have "any_dirty e (me # mes) = any_dirty e mes"
          "add_clean e m type c me = ksiDataWeightedIncrease c (source_value e m me (framesPerBuffer e - 1)) (gain me) type"
          using False by (simp_all add: any_dirty_def add_clean_def)
        then show ?thesis using clean False b(1) source_okD(1) [OF ok False] by (simp add: rd wr x IH)
      qed
    qed
  qed (simp add: any_dirty_def)
  then show ?thesis by (simp only: M_def)
qed

lemma buffer_increase_nth:
  assumes "0 \<le> sz" "sz \<le> int (List.length des)" "sz \<le> int (List.length xs)"
  shows "\<exists>ys. ksiDataBufferWeightedIncrease des xs c sz type = Some ys \<and> List.length ys = List.length des \<and>
     (\<forall>j < nat sz. ys ! j = ksiDataWeightedIncrease (des ! j) (xs ! j) c type)"
proof (cases "port_type type \<in> {ksiNodePortTypeFloat, ksiNodePortTypeInt32, ksiNodePortTypeGate}")
  case True
  let ?ys = "map2 (\<lambda>d s. ksiDataWeightedIncrease d s c type) (take (nat sz) des) (take (nat sz) xs) @ drop (nat sz) des"
  have "ksiDataBufferWeightedIncrease des xs c sz type = Some ?ys"
    using buffer_increase_from_spec [of 0 "nat sz" des xs c type] assms True
    by (simp add: ksiDataBufferWeightedIncrease_def)
  moreover have "List.length ?ys = List.length des" using assms by simp
  moreover have "\<forall>j < nat sz. ?ys ! j = ksiDataWeightedIncrease (des ! j) (xs ! j) c type"
    using assms by (simp add: nth_append)
  ultimately show ?thesis by blast
next
  case False
  then show ?thesis by (auto simp: ksiDataBufferWeightedIncrease_def ksiDataWeightedIncrease_def Let_def)
qed

lemma mix_dirty_sum:
  assumes "0 < framesPerBuffer e" "framesPerBuffer e = int (List.length des)"
    "\<forall>me \<in> set mes. source_ok e m buf me"
  shows "\<exists>ys. mix_dirty e type buf mes (m(buf \<mapsto> des)) = Some (m(buf \<mapsto> ys)) \<and> List.length ys = List.length des \<and>
     (\<forall>j. 0 \<le> j \<and> j < framesPerBuffer e \<longrightarrow> ys ! nat j = foldl (add_dirty e m type j) (des ! nat j) mes)"
  using assms(2,3)
proof (induction mes arbitrary: des)
  case (Cons me mes)
  show ?case
  proof (cases "src me \<noteq> NULL \<and> source_dirty e me")
    case True
    have ok: "source_ok e m buf me" using Cons.prems by simp
    obtain b xs where b: "output_buffer e (src me) (srcPort me) = Some b" "b \<noteq> buf" "m b = Some xs"
      "framesPerBuffer e \<le> int (List.length xs)" "\<forall>j. source_value e m me j = xs ! nat j"
      using source_okD(2) [OF ok] True by blast
    obtain ds where ds: "ksiDataBufferWeightedIncrease des xs (gain me) (framesPerBuffer e) type = Some ds"
      "List.length ds = List.length des"
      "\<forall>j < nat (framesPerBuffer e). ds ! j = ksiDataWeightedIncrease (des ! j) (xs ! j) (gain me) type"
      using buffer_increase_nth [of "framesPerBuffer e" des xs "gain me" type] assms(1) Cons.prems(1) b(4) by auto
    obtain ys where ys: "mix_dirty e type buf mes (m(buf \<mapsto> ds)) = Some (m(buf \<mapsto> ys))" "List.length ys = List.length ds"
      "\<forall>j. 0 \<le> j \<and> j < framesPerBuffer e \<longrightarrow> ys ! nat j = foldl (add_dirty e m type j) (ds ! nat j) mes"
      using Cons.IH [of ds] Cons.prems ds(2) by (auto simp del: fun_upd_apply)
    have "add_dirty e m type j (des ! nat j) me = ds ! nat j" if "0 \<le> j \<and> j < framesPerBuffer e" for j
      using True ds(3) b(5) that by (simp add: add_dirty_def nat_less_iff)
    moreover have "mix_dirty e type buf (me # mes) (m(buf \<mapsto> des)) = mix_dirty e type buf mes (m(buf \<mapsto> ds))"
      using True source_okD(1) [OF ok] b(1-3) ds(1) by simp
    ultimately show ?thesis using ds(2) ys by (intro exI [of _ ys]) (simp del: fun_upd_apply mix_dirty.simps)
  next
    case False
    have ok: "source_ok e m buf me" using Cons.prems by simp
    have "add_dirty e m type j d me = d" for j d using False unfolding add_dirty_def by (rule if_not_P)
    moreover have "mix_dirty e type buf (me # mes) (m(buf \<mapsto> des)) = mix_dirty e type buf mes (m(buf \<mapsto> des))"
      using False source_okD(1) [OF ok] by (cases "src me = NULL") simp_all
    ultimately show ?thesis using Cons.IH [of des] Cons.prems by (simp del: fun_upd_apply)
  qed
next
  case Nil
  then show ?case by (intro exI [of _ des]) simp
qed

lemma spread_cache_all:
  assumes "List.length des = Suc l" "framesPerBuffer e = int (Suc l)" "j \<le> l"
  shows "spread_cache e buf j (m(buf \<mapsto> des)) = Some (m(buf \<mapsto> replicate j (des ! l) @ drop j des))"
  using assms(3)
proof (induction j)
  case (Suc j)
  let ?xs = "replicate j (des ! l) @ drop j des"
  let ?m = "m(buf \<mapsto> ?xs)"
  have l: "?xs ! l = des ! l" "List.length ?xs = Suc l" using Suc.prems assms(1) by (simp_all add: nth_append)
  have "drop j des = des ! j # drop (Suc j) des" using Suc.prems assms(1) by (simp add: Cons_nth_drop_Suc)
  then have "?xs[j := des ! l] = replicate (Suc j) (des ! l) @ drop (Suc j) des"
    by (simp add: list_update_append replicate_append_same [symmetric])
  moreover have "sample_at ?m buf (framesPerBuffer e - 1) = Some (des ! l)"
    using l assms(2) by (simp add: sample_at_def get_at_def)
  moreover have "set_sample buf (int j) (des ! l) ?m = Some (m(buf \<mapsto> ?xs[j := des ! l]))"
    using l(2) Suc.prems by (simp add: set_sample_def set_at_def)
  ultimately show ?case using Suc by (simp del: fun_upd_apply list_update.simps replicate.simps)
qed simp

section \<open>An input as the node sees it\<close>

lemma set_input_type_result:
  assumes "audio_node e p = Some n" "get_at (types_of e (inputTypes n)) i = Some t"
  shows "\<exists>e' n'. set_input_type p i t' e = Some e' \<and> framesPerBuffer e' = framesPerBuffer e \<and>
     audio_node e' p = Some n' \<and> nenv n' = nenv n \<and> get_input_type p i e' = Some t'"
proof -
  have i: "0 \<le> i" "i < int (List.length (types_of e (inputTypes n)))" using assms(2) by (simp_all add: fault_simps)
  then show ?thesis
  proof (cases "inputTypes n")
    case NoTypes
    then show ?thesis using i by (simp add: types_of_def)
  next
    case (InPorts k)
    then show ?thesis using assms i
      by (simp add: set_input_type_def set_at_def get_input_type_def get_at_def audio_node_def types_of_def)
  next
    case (OutPorts k)
    then show ?thesis using assms i
      by (simp add: set_input_type_def set_at_def get_input_type_def get_at_def audio_node_def types_of_def)
  next
    case (Own ts)
    then show ?thesis using assms i
      by (simp add: set_input_type_def set_at_def get_input_type_def get_at_def audio_node_def types_of_def)
  qed
qed

lemma dirty_bit:
  "((t AND NOT ksiNodePortIOMask) OR ksiNodePortIODirty) AND ksiNodePortIODirty \<noteq> 0"
  "((t AND NOT ksiNodePortIOMask) OR 0) AND ksiNodePortIODirty = 0"
proof -
  have "((t AND NOT 0xF0) OR 0x10) AND 0x10 = (0x10 :: int8)"
    by (rule bit_word_eqI) (auto simp: bit_simps bit_numeral_rec less_Suc_eq numeral_eq_Suc)
  then show "((t AND NOT ksiNodePortIOMask) OR ksiNodePortIODirty) AND ksiNodePortIODirty \<noteq> 0"
    by (simp add: port_type_defs)
  show "((t AND NOT ksiNodePortIOMask) OR 0) AND ksiNodePortIODirty = 0"
    by (rule bit_word_eqI) (auto simp: port_type_defs bit_simps bit_numeral_rec less_Suc_eq numeral_eq_Suc)
qed

lemma foldl_same: "(\<And>x a. x \<in> set xs \<Longrightarrow> f a x = a) \<Longrightarrow> foldl f a xs = a"
  by (induction xs arbitrary: a) auto

text \<open>
  What \<open>refreshCopying\<close> sets up for an input with a buffer of its own: the reading pointer is the
  buffer, and the buffer has one sample per frame.
\<close>

lemma mix_input_buffer:
  assumes n: "audio_node e p = Some n" "get_at (nenv n) i = Some (SignalEnv buf buf mes)" "buf \<noteq> NULL"
    and t: "get_input_type p i e = Some t" "\<not> is_event t"
    and b: "0 < framesPerBuffer e" "m buf = Some des" "framesPerBuffer e = int (List.length des)"
    and s: "\<forall>me \<in> set mes. source_ok e m buf me"
  shows "\<exists>e' ys. mix_input p i (e, m) = Some (e', m(buf \<mapsto> ys)) \<and>
     (\<forall>j. 0 \<le> j \<and> j < framesPerBuffer e \<longrightarrow>
        ksiNodeGetInput e' (m(buf \<mapsto> ys)) p (framesPerBuffer e) i j = Some (input_value e m t mes j))"
proof -
  obtain l where l: "List.length des = Suc l" "nat (framesPerBuffer e - 1) = l" "framesPerBuffer e - 1 = int l"
    using b(1,3) by (cases "List.length des") auto
  let ?c = "foldl (add_clean e m t) 0 mes"
  let ?d1 = "des[l := ?c]"
  have zero: "set_sample buf (framesPerBuffer e - 1) 0 m = Some (m(buf \<mapsto> des[l := 0]))"
    using l b(2) by (simp add: set_sample_def set_at_def)
  have clean: "mix_clean e t buf mes (m(buf \<mapsto> des[l := 0])) 0 = Some (m(buf \<mapsto> ?d1), if any_dirty e mes then ksiNodePortIODirty else 0)"
    using mix_clean_sum [of e des mes m buf t 0 0] b(1,3) s l(2) by simp
  have ty: "get_at (types_of e (inputTypes n)) i = Some t" using t(1) n(1) by (simp add: get_input_type_def)
  have nd: "ksiNodePortIODirty \<noteq> 0" by (simp add: port_type_defs)
  show ?thesis
  proof (cases "any_dirty e mes")
    case False
    obtain e' n' where e': "set_input_type p i ((t AND NOT ksiNodePortIOMask) OR 0) e = Some e'"
      "audio_node e' p = Some n'" "nenv n' = nenv n" "get_input_type p i e' = Some ((t AND NOT ksiNodePortIOMask) OR 0)"
      using set_input_type_result [OF n(1) ty] by blast
    have run: "mix_input p i (e, m) = Some (e', m(buf \<mapsto> ?d1))"
      using n t(2) zero clean e'(1) False unfolding mix_input_def Let_def split_conv
      by (simp del: fun_upd_apply add: t(1))
    have "add_dirty e m t j a me = a" if "me \<in> set mes" for a j me
      using False that unfolding any_dirty_def add_dirty_def by (intro if_not_P) blast
    then have "input_value e m t mes j = ?c" for j by (simp add: input_value_def foldl_same)
    moreover have "ksiNodeGetInput e' (m(buf \<mapsto> ?d1)) p (framesPerBuffer e) i j = Some ?c" for j
    proof -
      have "sample_at (m(buf \<mapsto> ?d1)) buf (framesPerBuffer e - 1) = Some ?c" using l by (simp add: sample_at_def get_at_def)
      then show ?thesis using e'(2-4) n(2,3) dirty_bit(2) [of t] by (simp add: ksiNodeGetInput_def)
    qed
    ultimately show ?thesis using run by (intro exI [of _ e'] exI [of _ ?d1]) (simp del: fun_upd_apply)
  next
    case True
    let ?d2 = "replicate l ?c @ [?c]"
    have "drop l ?d1 = [?c]" using l(1) by (simp add: list_eq_iff_nth_eq)
    then have spread: "spread_cache e buf (nat (framesPerBuffer e - 1)) (m(buf \<mapsto> ?d1)) = Some (m(buf \<mapsto> ?d2))"
      using spread_cache_all [of ?d1 l e l buf m] l b(3) by simp
    obtain ys where ys: "mix_dirty e t buf mes (m(buf \<mapsto> ?d2)) = Some (m(buf \<mapsto> ys))" "List.length ys = List.length ?d2"
      "\<forall>j. 0 \<le> j \<and> j < framesPerBuffer e \<longrightarrow> ys ! nat j = foldl (add_dirty e m t j) (?d2 ! nat j) mes"
      using mix_dirty_sum [of e ?d2 mes m buf t] b(1,3) l(1) s by auto
    obtain e' n' where e': "set_input_type p i ((t AND NOT ksiNodePortIOMask) OR ksiNodePortIODirty) e = Some e'"
      "audio_node e' p = Some n'" "nenv n' = nenv n"
      "get_input_type p i e' = Some ((t AND NOT ksiNodePortIOMask) OR ksiNodePortIODirty)"
      using set_input_type_result [OF n(1) ty] by blast
    have run: "mix_input p i (e, m) = Some (e', m(buf \<mapsto> ys))"
      using n t(2) zero clean e'(1) True nd spread ys(1) unfolding mix_input_def Let_def split_conv
      by (simp del: fun_upd_apply add: t(1))
    have "ksiNodeGetInput e' (m(buf \<mapsto> ys)) p (framesPerBuffer e) i j = Some (input_value e m t mes j)"
      if j: "0 \<le> j \<and> j < framesPerBuffer e" for j
    proof -
      have "nat j < l \<or> nat j = l" using j b(3) l(1) by linarith
      then have "?d2 ! nat j = ?c" by (auto simp: nth_append)
      then have "ys ! nat j = input_value e m t mes j" using ys(3) j by (simp add: input_value_def)
      moreover have "j < int (List.length ys)" using j ys(2) b(3) l(1) by simp
      ultimately have "sample_at (m(buf \<mapsto> ys)) buf j = Some (input_value e m t mes j)"
        using j by (simp add: sample_at_def get_at_def)
      then show ?thesis using e'(2-4) n(2,3) dirty_bit(1) [of t] by (simp add: ksiNodeGetInput_def)
    qed
    then show ?thesis using run by (intro exI [of _ e'] exI [of _ ys]) (simp del: fun_upd_apply)
  qed
qed

section \<open>Properties\<close>

text \<open>C20: The dirty flags and cached values are only an optimisation: after the worker has mixed a
  port with its own buffer, what the node's function reads at frame \<open>j\<close> is the sum of the
  biases, the weighted last samples of the sources that did not change, and the weighted
  \<open>j\<close>-th samples of those that did, in the port's arithmetic and in the order of the wires;
  no other buffer is changed.\<close>

theorem mixed_input_is_weighted_sum:
  assumes "audio_node e p = Some n" "get_at (nenv n) i = Some (SignalEnv buf buf mes)" "buf \<noteq> NULL"
    "get_input_type p i e = Some t" "\<not> is_event t"
    "0 < framesPerBuffer e" "m buf = Some des" "framesPerBuffer e = int (List.length des)"
    "\<forall>me \<in> set mes. source_ok e m buf me"
  shows "\<exists>e' ys. mix_input p i (e, m) = Some (e', m(buf \<mapsto> ys)) \<and>
     (\<forall>j. 0 \<le> j \<and> j < framesPerBuffer e \<longrightarrow>
        ksiNodeGetInput e' (m(buf \<mapsto> ys)) p (framesPerBuffer e) i j = Some (input_value e m t mes j))"
  by (rule mix_input_buffer [OF assms])

text \<open>An engine with a changing source (node 1), a constant source (node 2) and two nodes of one
  plugin reading them (nodes 3 and 4).\<close>

definition ex_sink :: "ptr \<Rightarrow> KsiEventEnvEntry list \<Rightarrow> KsiNode" where
  "ex_sink buf mes = \<lparr>depNum = 0, successors = [], nid = 0, ntype = 0, outputCount = 0, outputTypes = NoTypes,
     outputBuffer = [], inputCount = 1, inputTypes = InPorts 9, nenv = [SignalEnv buf buf mes], nargs = NULL, extArgs = []\<rparr>"

definition ex_source :: "int8 \<Rightarrow> ptr \<Rightarrow> KsiNode" where
  "ex_source t buf = \<lparr>depNum = 0, successors = [], nid = 0, ntype = 0, outputCount = 1, outputTypes = Own [t],
     outputBuffer = [buf], inputCount = 0, inputTypes = NoTypes, nenv = [], nargs = NULL, extArgs = []\<rparr>"

definition ex_wire :: "ptr \<Rightarrow> KsiData \<Rightarrow> KsiEventEnvEntry" where
  "ex_wire p g = \<lparr>srcPort = 0, src = p, gain = g\<rparr>"

definition ex_engine :: KsiEngine where
  "ex_engine = (ksiEngineInit 4 48000)
     \<lparr>ver := (\<lambda>_. empty_version\<lparr>nheap := [1 \<mapsto> ex_source 0x12 11, 2 \<mapsto> ex_source 0x2 12,
        3 \<mapsto> ex_sink 13 [ex_wire NULL 7, ex_wire 1 2, ex_wire 2 3], 4 \<mapsto> ex_sink 14 [ex_wire 2 1]]\<rparr>),
      staticIn := (\<lambda>k. if k = 9 then [ksiNodePortTypeInt32] else [])\<rparr>"

definition ex_samples :: samples where
  "ex_samples = [11 \<mapsto> [1, 2, 3, 4], 12 \<mapsto> [9, 9, 9, 5], 13 \<mapsto> [0, 0, 0, 0], 14 \<mapsto> [0, 0, 0, 0]]"

theorem mixed_input_is_weighted_sum_witness:
  "\<exists>e' m'. mix_input 3 0 (ex_engine, ex_samples) = Some (e', m') \<and> ksiNodeGetInput e' m' 3 4 0 2 = Some (7 + 3 * 2 + 5 * 3)"
proof -
  let ?mes = "[ex_wire NULL 7, ex_wire 1 2, ex_wire 2 3]"
  have n: "audio_node ex_engine 3 = Some (ex_sink 13 ?mes)" "get_input_type 3 0 ex_engine = Some ksiNodePortTypeInt32"
    by (simp_all add: audio_node_def get_input_type_def ex_engine_def ex_sink_def empty_version_def types_of_def get_at_def)
  have f: "framesPerBuffer ex_engine = 4" by (simp add: ex_engine_def ksiEngineInit_def)
  have "\<forall>me \<in> set ?mes. source_ok ex_engine ex_samples 13 me"
    by (simp add: source_ok_def ex_wire_def output_dirty_def output_buffer_def f)
      (simp add: audio_node_def ex_engine_def ex_source_def empty_version_def types_of_def get_at_def ex_samples_def)
  moreover have "get_at (nenv (ex_sink 13 ?mes)) 0 = Some (SignalEnv 13 13 ?mes)" by (simp add: ex_sink_def get_at_def)
  ultimately have "\<exists>e' ys. mix_input 3 0 (ex_engine, ex_samples) = Some (e', ex_samples(13 \<mapsto> ys)) \<and>
     (\<forall>j. 0 \<le> j \<and> j < framesPerBuffer ex_engine \<longrightarrow>
        ksiNodeGetInput e' (ex_samples(13 \<mapsto> ys)) 3 (framesPerBuffer ex_engine) 0 j =
          Some (input_value ex_engine ex_samples ksiNodePortTypeInt32 ?mes j))"
    by (intro mixed_input_is_weighted_sum [OF n(1) _ _ n(2)]) (auto simp: f port_type_defs ex_samples_def)
  moreover have "input_value ex_engine ex_samples ksiNodePortTypeInt32 ?mes 2 = 7 + 3 * 2 + 5 * 3" by code_simp
  ultimately show ?thesis unfolding f by force
qed

text \<open>All nodes of a plugin share the array of their input types, dirty flags included: when
  another worker mixes an unchanging input of a second node of the plugin between the mixing and the
  function of the first, the first reads the last sample of its input for every frame.\<close>

theorem shared_flags_lose_samples:
  "do { (e, m) \<leftarrow> mix_input 3 0 (ex_engine, ex_samples); ksiNodeGetInput e m 3 4 0 0 } = Some 24 \<and>
   do { (e, m) \<leftarrow> mix_input 3 0 (ex_engine, ex_samples); (e, m) \<leftarrow> mix_input 4 0 (e, m);
        ksiNodeGetInput e m 3 4 0 0 } = Some 30"
  by code_simp

end
