(* ===== verification/Pool.thy ===== *)
theory Pool
  imports Prelude
begin

text \<open>
  The life of the audio workers (\<^verbatim>\<open>ksid/engine.c\<close>): how a worker waits for tasks
  (\<^verbatim>\<open>dequeue_blocked\<close>), goes to sleep when no engine is online, is woken by a launch, and ends
  with the pool.

  A step is one atomic access to the shared counters, one attempt on the queues or one semaphore
  operation, by one thread; all interleavings are considered. The queues are the number of
  tasks in them; an attempt may fail although there is a task, since it looks at one queue only.
  \<open>KsiSem\<close> is a counting semaphore whose timed wait may give up at any moment, and
  \<open>KsiBSem\<close>, of which Apple's implementation is the one for which \<open>KsiSem\<close> exists too,
  wakes the threads that wait at the moment of the post and no other.
\<close>

section \<open>Threads and the pool\<close>

text \<open>
  Where a worker is: in \<open>dequeue_blocked\<close> before the first attempt, at the head of its loop
  with the counters \<open>trials\<close> and \<open>failed\<close>, before a \<open>ksiWorkQueueTake\<close>, in the timed
  wait (with or without a task in \<open>result\<close>); back in the worker's loop with a task or the
  failure value; after it saw no engine alive; after it saw the pool running; in
  \<open>ksiBSemWait\<close>; working on a node; in \<open>enqueue_signaled\<close> before the load, the
  subtraction and the post; ended.
\<close>

datatype thread =
    Getting
  | Trying nat nat
  | Taking nat nat
  | Backoff bool nat
  | Returned bool
  | NoEngines
  | Hang
  | Sleeping
  | Working
  | Signalling
  | Subtracting
  | Posting
  | Exited

record worker_pool =
  pstate :: int
  ready :: nat
  waitingCount :: int
  waitingSem :: nat
  enginesAlive :: int
  threads :: "thread list"

definition TRIALS_BEFORE_HANGING :: nat where "TRIALS_BEFORE_HANGING = 16"
definition SLEEP_NSEC_BASE :: nat where "SLEEP_NSEC_BASE = 10000"
definition SLEEP_NSEC_MAX_FAIL :: nat where "SLEEP_NSEC_MAX_FAIL = 7"
definition ksiEngineWorkerPoolStateRunning :: int where "ksiEngineWorkerPoolStateRunning = 1"
definition ksiEngineWorkerPoolStateFinalizing :: int where "ksiEngineWorkerPoolStateFinalizing = 0"

lemmas pool_defs = TRIALS_BEFORE_HANGING_def SLEEP_NSEC_BASE_def SLEEP_NSEC_MAX_FAIL_def
  ksiEngineWorkerPoolStateRunning_def ksiEngineWorkerPoolStateFinalizing_def

section \<open>Steps\<close>

definition goto :: "nat \<Rightarrow> thread \<Rightarrow> worker_pool \<Rightarrow> worker_pool" where
  "goto w th wp = wp\<lparr>threads := (threads wp)[w := th]\<rparr>"

text \<open>An attempt on a queue: the outcome \<open>got\<close> is possible only with a task there.\<close>

definition attempt :: "bool \<Rightarrow> worker_pool \<Rightarrow> worker_pool option" where
  "attempt got wp = (if \<not> got then Some wp else if ready wp = 0 then None else Some (wp\<lparr>ready := ready wp - 1\<rparr>))"

text \<open>
  The loop of \<open>dequeue_blocked\<close>: leaving it, an attempt, the wait after too many attempts
  (a task may already have been found then), and what follows the wait.
\<close>

definition loop_next :: "bool \<Rightarrow> nat \<Rightarrow> nat \<Rightarrow> thread" where
  "loop_next got trials failed = (if got then Returned True else Trying trials failed)"

definition dequeue_blocked :: "nat \<Rightarrow> bool \<Rightarrow> thread \<Rightarrow> worker_pool \<Rightarrow> worker_pool option" where
  "dequeue_blocked w c th wp =
     (case th of
        Getting \<Rightarrow> do { wp \<leftarrow> attempt c wp; Some (goto w (loop_next c 0 0) wp) }
      | Trying trials failed \<Rightarrow>
          Some (goto w (if enginesAlive wp = 0 then Returned False else Taking trials failed) wp)
      | Taking trials failed \<Rightarrow> do {
          wp \<leftarrow> attempt c wp;
          (if trials + 1 > TRIALS_BEFORE_HANGING
           then Some (goto w (Backoff c failed) (wp\<lparr>waitingCount := waitingCount wp + 1\<rparr>))
           else Some (goto w (loop_next c (trials + 1) failed) wp))
        }
      | Backoff got failed \<Rightarrow>
          (if c then
             (if waitingSem wp = 0 then None
              else Some (goto w (loop_next got 0 0) (wp\<lparr>waitingSem := waitingSem wp - 1\<rparr>)))
           else Some (goto w (loop_next got 0 (if failed < SLEEP_NSEC_MAX_FAIL then failed + 1 else failed)) wp))
      | _ \<Rightarrow> None)"

text \<open>The sleep of the timed wait.\<close>

definition backoff_nsec :: "nat \<Rightarrow> nat" where
  "backoff_nsec failed = SLEEP_NSEC_BASE * 2 ^ failed"

text \<open>\<open>enqueue_signaled\<close>, after \<open>ksiWorkQueueCommit\<close>.\<close>

definition enqueue_signaled :: "nat \<Rightarrow> thread \<Rightarrow> worker_pool \<Rightarrow> worker_pool option" where
  "enqueue_signaled w th wp =
     (case th of
        Signalling \<Rightarrow> Some (goto w (if waitingCount wp > 0 then Subtracting else Working) wp)
      | Subtracting \<Rightarrow> Some (goto w Posting (wp\<lparr>waitingCount := waitingCount wp - 1\<rparr>))
      | Posting \<Rightarrow> Some (goto w Working (wp\<lparr>waitingSem := waitingSem wp + 1\<rparr>))
      | _ \<Rightarrow> None)"

text \<open>
  One step of worker \<open>w\<close>; \<open>c\<close> is the outcome of an attempt, whether the timed wait got
  the semaphore, and whether the node at work enqueues a successor or is finished without a
  continuation.
\<close>

definition ksiEngineAudioWorker :: "nat \<Rightarrow> bool \<Rightarrow> thread \<Rightarrow> worker_pool \<Rightarrow> worker_pool option" where
  "ksiEngineAudioWorker w c th wp =
     (case th of
        Returned True \<Rightarrow> Some (goto w Working wp)
      | Returned False \<Rightarrow> Some (goto w (if enginesAlive wp = 0 then NoEngines else Exited) wp)
      | NoEngines \<Rightarrow> Some (goto w (if pstate wp = 0 then Exited else Hang) wp)
      | Hang \<Rightarrow> Some (goto w Sleeping wp)
      | Sleeping \<Rightarrow> None
      | Working \<Rightarrow>
          (if c then Some (goto w Signalling (wp\<lparr>ready := ready wp + 1\<rparr>)) else Some (goto w Getting wp))
      | Signalling \<Rightarrow> enqueue_signaled w th wp
      | Subtracting \<Rightarrow> enqueue_signaled w th wp
      | Posting \<Rightarrow> enqueue_signaled w th wp
      | Exited \<Rightarrow> None
      | _ \<Rightarrow> dequeue_blocked w c th wp)"

definition ksiBSemPost :: "worker_pool \<Rightarrow> worker_pool" where
  "ksiBSemPost wp = wp\<lparr>threads := map (\<lambda>th. if th = Sleeping then Getting else th) (threads wp)\<rparr>"

text \<open>The two steps of \<open>ksiEngineWorkerPoolOnlineIncrease\<close>.\<close>

definition online_post :: "worker_pool \<Rightarrow> worker_pool" where
  "online_post wp = (if enginesAlive wp = 0 then ksiBSemPost wp else wp)"

definition online_add :: "worker_pool \<Rightarrow> worker_pool" where
  "online_add wp = wp\<lparr>enginesAlive := enginesAlive wp + 1\<rparr>"

definition ksiEngineWorkerPoolOnlineIncrease :: "worker_pool \<Rightarrow> worker_pool" where
  "ksiEngineWorkerPoolOnlineIncrease wp = online_add (online_post wp)"

definition ksiEngineWorkerPoolOnlineDecrease :: "worker_pool \<Rightarrow> worker_pool" where
  "ksiEngineWorkerPoolOnlineDecrease wp = wp\<lparr>enginesAlive := enginesAlive wp - 1\<rparr>"

text \<open>
  \<open>ksiEngineWorkerPoolDestroy\<close> up to its joins: the state, the post for sleeping workers, and
  a post for every waiting one. \<open>while(i--)\<close> with a negative \<open>i\<close> runs into the overflow
  of \<open>i\<close>. The joins return when every worker has ended.
\<close>

definition destroy_finalize :: "worker_pool \<Rightarrow> worker_pool" where
  "destroy_finalize wp = wp\<lparr>pstate := ksiEngineWorkerPoolStateFinalizing\<rparr>"

definition destroy_wake :: "worker_pool \<Rightarrow> worker_pool" where
  "destroy_wake wp = (if enginesAlive wp = 0 then ksiBSemPost wp else wp)"

definition destroy_posts :: "worker_pool \<Rightarrow> worker_pool option" where
  "destroy_posts wp = do {
     need (0 \<le> waitingCount wp);
     Some (wp\<lparr>waitingSem := waitingSem wp + nat (waitingCount wp)\<rparr>)
   }"

definition joined :: "worker_pool \<Rightarrow> bool" where
  "joined wp \<longleftrightarrow> (\<forall>th \<in> set (threads wp). th = Exited)"

text \<open>\<open>ksiEngineWorkerPoolInit\<close>: the workers start in \<open>dequeue_blocked\<close>. The field
  \<open>enginesAlive\<close> keeps the value \<open>alive\<close> it has: zero in the daemon, whose pool is a static
  object, anything on the stack of \<^verbatim>\<open>cmd/main.c\<close>.\<close>

definition ksiEngineWorkerPoolInit :: "nat \<Rightarrow> int \<Rightarrow> worker_pool" where
  "ksiEngineWorkerPoolInit nprocs alive = \<lparr>pstate = ksiEngineWorkerPoolStateRunning, ready = 0, waitingCount = 0,
     waitingSem = 0, enginesAlive = alive, threads = replicate nprocs Getting\<rparr>"

datatype pool_event =
    Worker nat bool
  | Enqueue
  | OnlinePost
  | OnlineAdd
  | Offline
  | Finalize
  | FinalWake
  | FinalPosts

definition pool_do :: "pool_event \<Rightarrow> worker_pool \<Rightarrow> worker_pool option" where
  "pool_do ev wp =
     (case ev of
        Worker w c \<Rightarrow> (if w < List.length (threads wp) then ksiEngineAudioWorker w c (threads wp ! w) wp else None)
      | Enqueue \<Rightarrow> Some (wp\<lparr>ready := ready wp + 1\<rparr>)
      | OnlinePost \<Rightarrow> Some (online_post wp)
      | OnlineAdd \<Rightarrow> Some (online_add wp)
      | Offline \<Rightarrow> Some (ksiEngineWorkerPoolOnlineDecrease wp)
      | Finalize \<Rightarrow> Some (destroy_finalize wp)
      | FinalWake \<Rightarrow> Some (destroy_wake wp)
      | FinalPosts \<Rightarrow> destroy_posts wp)"

fun pool_run :: "pool_event list \<Rightarrow> worker_pool \<Rightarrow> worker_pool option" where
  "pool_run [] wp = Some wp"
| "pool_run (ev # evs) wp = do { wp \<leftarrow> pool_do ev wp; pool_run evs wp }"

section \<open>Counting threads\<close>

definition number :: "(thread \<Rightarrow> bool) \<Rightarrow> worker_pool \<Rightarrow> int" where
  "number P wp = int (List.length (filter P (threads wp)))"

lemma number_update:
  "w < List.length ths \<Longrightarrow>
   int (List.length (filter P (ths[w := th]))) =
     int (List.length (filter P ths)) + (if P th then 1 else 0) - (if P (ths ! w) then 1 else 0)"
proof (induction ths arbitrary: w)
  case (Cons a ths)
  show ?case
  proof (cases w)
    case (Suc v)
    then show ?thesis using Cons.IH [of v] Cons.prems by (auto split: if_splits)
  qed simp
qed simp

lemma number_goto:
  "w < List.length (threads wp) \<Longrightarrow>
   number P (goto w th wp) = number P wp + (if P th then 1 else 0) - (if P (threads wp ! w) then 1 else 0)"
  by (simp add: number_def goto_def number_update)

lemma number_fields [simp]:
  "number P (wp\<lparr>pstate := a\<rparr>) = number P wp" "number P (wp\<lparr>ready := r\<rparr>) = number P wp"
  "number P (wp\<lparr>waitingCount := b\<rparr>) = number P wp" "number P (wp\<lparr>waitingSem := s\<rparr>) = number P wp"
  "number P (wp\<lparr>enginesAlive := b\<rparr>) = number P wp"
  by (simp_all add: number_def)

lemma goto_fields [simp]:
  "waitingCount (goto w th wp) = waitingCount wp" "waitingSem (goto w th wp) = waitingSem wp"
  "enginesAlive (goto w th wp) = enginesAlive wp" "pstate (goto w th wp) = pstate wp"
  "ready (goto w th wp) = ready wp" "threads (goto w th wp) = (threads wp)[w := th]"
  by (simp_all add: goto_def)

lemma number_wake:
  "\<not> P Sleeping \<Longrightarrow> \<not> P Getting \<Longrightarrow> number P (ksiBSemPost wp) = number P wp"
proof -
  assume "\<not> P Sleeping" "\<not> P Getting"
  then have "List.length (filter P (map (\<lambda>th. if th = Sleeping then Getting else th) ths)) = List.length (filter P ths)" for ths
    by (induction ths) auto
  then show ?thesis by (simp add: number_def ksiBSemPost_def)
qed

lemma wake_set: "set (threads (ksiBSemPost wp)) \<subseteq> insert Getting (set (threads wp) - {Sleeping})"
  by (auto simp: ksiBSemPost_def)

lemma wake_fields [simp]:
  "waitingCount (ksiBSemPost wp) = waitingCount wp" "waitingSem (ksiBSemPost wp) = waitingSem wp"
  "enginesAlive (ksiBSemPost wp) = enginesAlive wp" "pstate (ksiBSemPost wp) = pstate wp"
  "ready (ksiBSemPost wp) = ready wp" "List.length (threads (ksiBSemPost wp)) = List.length (threads wp)"
  by (simp_all add: ksiBSemPost_def)

lemma number_pos: "w < List.length (threads wp) \<Longrightarrow> P (threads wp ! w) \<Longrightarrow> 1 \<le> number P wp"
  unfolding number_def by (metis filter_empty_conv length_0_conv nth_mem of_nat_0_less_iff int_one_le_iff_zero_less length_greater_0_conv)

lemma number_le: "number P wp \<le> int (List.length (threads wp))"
  by (simp add: number_def)

text \<open>One rule for a step of a worker, by where it is.\<close>

lemmas worker_defs = ksiEngineAudioWorker_def dequeue_blocked_def enqueue_signaled_def attempt_def loop_next_def

lemmas event_defs = online_post_def online_add_def ksiEngineWorkerPoolOnlineDecrease_def destroy_finalize_def
  destroy_wake_def destroy_posts_def

lemma pool_do_cases [consumes 1, case_names worker enqueue wake alive finalize posts]:
  assumes "pool_do ev wp = Some wp'"
  obtains w c where "ev = Worker w c" "w < List.length (threads wp)"
      "ksiEngineAudioWorker w c (threads wp ! w) wp = Some wp'"
    | "ev = Enqueue" "wp' = wp\<lparr>ready := ready wp + 1\<rparr>"
    | "ev = OnlinePost \<or> ev = FinalWake" "wp' = (if enginesAlive wp = 0 then ksiBSemPost wp else wp)"
    | a where "ev = OnlineAdd \<and> a = enginesAlive wp + 1 \<or> ev = Offline \<and> a = enginesAlive wp - 1" "wp' = wp\<lparr>enginesAlive := a\<rparr>"
    | "ev = Finalize" "wp' = wp\<lparr>pstate := 0\<rparr>"
    | "ev = FinalPosts" "0 \<le> waitingCount wp" "wp' = wp\<lparr>waitingSem := waitingSem wp + nat (waitingCount wp)\<rparr>"
  using assms by (cases ev) (auto simp: pool_do_def event_defs pool_defs split: if_split_asm)

lemma pool_run_inv:
  assumes "pool_run evs wp = Some wp'" "I wp" "\<And>ev wp wp'. ev \<in> set evs \<Longrightarrow> pool_do ev wp = Some wp' \<Longrightarrow> I wp \<Longrightarrow> I wp'"
  shows "I wp'"
  using assms
proof (induction evs arbitrary: wp)
  case (Cons ev evs)
  then obtain wp1 where "pool_do ev wp = Some wp1" "pool_run evs wp1 = Some wp'" by (auto simp: bind_eq_Some_conv)
  with Cons show ?case by (metis list.set_intros)
qed simp

section \<open>Waiting workers are accounted for\<close>

definition is_backoff :: "thread \<Rightarrow> bool" where
  "is_backoff th = (case th of Backoff _ _ \<Rightarrow> True | _ \<Rightarrow> False)"

definition accounted :: "worker_pool \<Rightarrow> bool" where
  "accounted wp \<longleftrightarrow> number is_backoff wp \<le> waitingCount wp + int (waitingSem wp) + number (\<lambda>th. th = Posting) wp"

lemma accounted_step:
  assumes "pool_do ev wp = Some wp'" "accounted wp"
  shows "accounted wp'"
  using assms(1)
proof (cases rule: pool_do_cases)
  case (worker w c)
  have p: "is_backoff (threads wp ! w) \<Longrightarrow> 1 \<le> number is_backoff wp"
    using number_pos [of w wp is_backoff] worker(2) by blast
  show ?thesis using worker(2,3) assms(2) p
    by (cases "threads wp ! w") (auto simp: worker_defs accounted_def number_goto is_backoff_def split: if_split_asm bool.splits)
qed (use assms(2) in \<open>auto simp: accounted_def number_wake is_backoff_def\<close>)

section \<open>Bounds\<close>

fun thread_bounds :: "thread \<Rightarrow> bool" where
  "thread_bounds (Trying t f) = (t \<le> TRIALS_BEFORE_HANGING \<and> f \<le> SLEEP_NSEC_MAX_FAIL)"
| "thread_bounds (Taking t f) = (t \<le> TRIALS_BEFORE_HANGING \<and> f \<le> SLEEP_NSEC_MAX_FAIL)"
| "thread_bounds (Backoff got f) = (f \<le> SLEEP_NSEC_MAX_FAIL)"
| "thread_bounds _ = True"

definition pool_bounds :: "nat \<Rightarrow> worker_pool \<Rightarrow> bool" where
  "pool_bounds n wp \<longleftrightarrow> List.length (threads wp) = n \<and> (\<forall>th \<in> set (threads wp). thread_bounds th) \<and>
     1 - int n \<le> waitingCount wp - number (\<lambda>th. th = Subtracting) wp"

lemma pool_bounds_step:
  assumes "pool_do ev wp = Some wp'" "pool_bounds n wp"
  shows "pool_bounds n wp'"
  using assms(1)
proof (cases rule: pool_do_cases)
  case (worker w c)
  have len: "List.length (threads wp) = n" and all: "\<forall>th \<in> set (threads wp). thread_bounds th"
    and cnt: "1 - int n \<le> waitingCount wp - number (\<lambda>th. th = Subtracting) wp"
    using assms(2) by (simp_all add: pool_bounds_def)
  have th: "thread_bounds (threads wp ! w)" using all worker(2) by simp
  obtain th' where th': "threads wp' = (threads wp)[w := th']" "thread_bounds th'"
    using worker(3) th by (cases "threads wp ! w") (auto simp: worker_defs pool_defs split: if_split_asm bool.splits)
  have "number (\<lambda>th. th = Subtracting) wp + (if threads wp ! w = Subtracting then 0 else 1) \<le> int n"
  proof -
    have "number (\<lambda>th. th = Subtracting) (goto w Subtracting wp) \<le> int n" using number_le len by (metis goto_fields(6) length_list_update)
    then show ?thesis using worker(2) by (simp add: number_goto split: if_splits)
  qed
  then have "1 - int n \<le> waitingCount wp' - number (\<lambda>th. th = Subtracting) wp'"
    using worker(2,3) cnt
    by (cases "threads wp ! w") (auto simp: worker_defs number_goto split: if_split_asm bool.splits)
  then show ?thesis using th' len all_update [OF all th'(2)] by (simp add: pool_bounds_def)
qed (use assms(2) wake_set [of wp] in \<open>fastforce simp: pool_bounds_def number_wake\<close>)+

section \<open>Serving an engine\<close>

text \<open>Where a worker is that found no engine, or has ended.\<close>

definition leaving :: "thread \<Rightarrow> bool" where
  "leaving th \<longleftrightarrow> th \<in> {Returned False, NoEngines, Hang, Exited}"

definition serving :: "worker_pool \<Rightarrow> bool" where
  "serving wp \<longleftrightarrow> 0 < enginesAlive wp \<and> (\<forall>th \<in> set (threads wp). \<not> leaving th \<and> th \<noteq> Sleeping)"

lemma serving_step:
  assumes "pool_do ev wp = Some wp'" "ev \<noteq> Offline" "serving wp"
  shows "serving wp'"
  using assms(1)
proof (cases rule: pool_do_cases)
  case (worker w c)
  have all: "\<forall>th \<in> set (threads wp). \<not> leaving th \<and> th \<noteq> Sleeping" and al: "0 < enginesAlive wp"
    using assms(3) by (simp_all add: serving_def)
  then have th: "\<not> leaving (threads wp ! w)" "threads wp ! w \<noteq> Sleeping" using worker(2) by simp_all
  have r: "threads wp' = (threads wp)[w := threads wp' ! w]" "\<not> leaving (threads wp' ! w) \<and> threads wp' ! w \<noteq> Sleeping"
    "enginesAlive wp' = enginesAlive wp"
    using worker(2,3) th al
    by (cases "threads wp ! w"; auto simp: worker_defs leaving_def split: if_split_asm bool.splits)+
  have "\<forall>th \<in> set (threads wp'). \<not> leaving th \<and> th \<noteq> Sleeping"
    by (subst r(1)) (rule all_update [OF all r(2)])
  then show ?thesis using al r(3) by (simp add: serving_def)
qed (use assms(2,3) in \<open>auto simp: serving_def\<close>)

fun dequeuing :: "thread \<Rightarrow> bool" where
  "dequeuing Getting = True"
| "dequeuing (Trying t f) = True"
| "dequeuing (Taking t f) = True"
| "dequeuing (Backoff got f) = True"
| "dequeuing _ = False"

lemma goto_goto: "goto w b (goto w a wp) = goto w b wp"
  by (simp add: goto_def)

lemma worker_do:
  "w < List.length (threads wp) \<Longrightarrow> threads wp ! w = th \<Longrightarrow> pool_do (Worker w c) wp = ksiEngineAudioWorker w c th wp"
  by (simp add: pool_do_def)

lemma take_task:
  assumes "w < List.length (threads wp)" "enginesAlive wp \<noteq> 0" "0 < ready wp" "dequeuing (threads wp ! w)"
  shows "\<exists>cs wp'. List.length cs \<le> 6 \<and> pool_run (map (Worker w) cs) wp = Some wp' \<and> threads wp' ! w = Working"
proof -
  have ret: "\<exists>wp'. pool_run (map (Worker w) [False]) q = Some wp' \<and> threads wp' ! w = Working"
    if "w < List.length (threads q)" "threads q ! w = Returned True" for q
    using that by (simp add: worker_do ksiEngineAudioWorker_def)
  have bo: "\<exists>wp'. pool_run (map (Worker w) [False, False]) q = Some wp' \<and> threads wp' ! w = Working"
    if "w < List.length (threads q)" "threads q ! w = Backoff True f" for q f
    using that by (simp add: worker_do worker_defs)
  have tk: "\<exists>cs wp'. List.length cs \<le> 3 \<and> pool_run (map (Worker w) cs) q = Some wp' \<and> threads wp' ! w = Working"
    if q: "w < List.length (threads q)" "0 < ready q" "threads q ! w = Taking t f" for q t f
  proof (cases "t + 1 > TRIALS_BEFORE_HANGING")
    case True
    then have "pool_do (Worker w True) q = Some (goto w (Backoff True f) (q\<lparr>ready := ready q - 1, waitingCount := waitingCount q + 1\<rparr>))"
      using q by (simp add: worker_do worker_defs)
    moreover obtain wp' where "pool_run (map (Worker w) [False, False])
        (goto w (Backoff True f) (q\<lparr>ready := ready q - 1, waitingCount := waitingCount q + 1\<rparr>)) = Some wp'" "threads wp' ! w = Working"
      using bo [of "goto w (Backoff True f) (q\<lparr>ready := ready q - 1, waitingCount := waitingCount q + 1\<rparr>)" f] q(1) by auto
    ultimately show ?thesis by (intro exI [of _ "[True, False, False]"]) simp
  next
    case False
    then have "pool_do (Worker w True) q = Some (goto w (Returned True) (q\<lparr>ready := ready q - 1\<rparr>))"
      using q by (simp add: worker_do worker_defs)
    then show ?thesis using ret [of "goto w (Returned True) (q\<lparr>ready := ready q - 1\<rparr>)"] q(1)
      by (intro exI [of _ "[True, False]"]) auto
  qed
  have tr: "\<exists>cs wp'. List.length cs \<le> 4 \<and> pool_run (map (Worker w) cs) q = Some wp' \<and> threads wp' ! w = Working"
    if q: "w < List.length (threads q)" "enginesAlive q \<noteq> 0" "0 < ready q" "threads q ! w = Trying t f" for q t f
  proof -
    have "pool_do (Worker w True) q = Some (goto w (Taking t f) q)" using q by (simp add: worker_do worker_defs)
    moreover obtain cs wp' where "List.length cs \<le> 3" "pool_run (map (Worker w) cs) (goto w (Taking t f) q) = Some wp'" "threads wp' ! w = Working"
      using tk [of "goto w (Taking t f) q" t f] q by auto
    ultimately show ?thesis by (intro exI [of _ "True # cs"]) simp
  qed
  show ?thesis
  proof (cases "threads wp ! w")
    case Getting
    then have "pool_do (Worker w True) wp = Some (goto w (Returned True) (wp\<lparr>ready := ready wp - 1\<rparr>))"
      using assms by (simp add: worker_do worker_defs)
    then show ?thesis using ret [of "goto w (Returned True) (wp\<lparr>ready := ready wp - 1\<rparr>)"] assms(1)
      by (intro exI [of _ "[True, False]"]) auto
  next
    case (Trying t f)
    then obtain cs wp' where "List.length cs \<le> 4" "pool_run (map (Worker w) cs) wp = Some wp'" "threads wp' ! w = Working"
      using tr [OF assms(1-3)] by blast
    then show ?thesis by (intro exI [of _ cs]) simp
  next
    case (Taking t f)
    then obtain cs wp' where "List.length cs \<le> 3" "pool_run (map (Worker w) cs) wp = Some wp'" "threads wp' ! w = Working"
      using tk [OF assms(1,3)] by blast
    then show ?thesis by (intro exI [of _ cs]) simp
  next
    case (Backoff got f)
    show ?thesis
    proof (cases got)
      case True
      then show ?thesis using bo [OF assms(1), of f] Backoff by (intro exI [of _ "[False, False]"]) simp
    next
      case False
      let ?f = "if f < SLEEP_NSEC_MAX_FAIL then f + 1 else f"
      have "pool_do (Worker w False) wp = Some (goto w (Trying 0 ?f) wp)" using assms(1) Backoff False by (simp add: worker_do worker_defs)
      moreover obtain cs wp' where "List.length cs \<le> 4" "pool_run (map (Worker w) cs) (goto w (Trying 0 ?f) wp) = Some wp'" "threads wp' ! w = Working"
        using tr [of "goto w (Trying 0 ?f) wp" 0 ?f] assms by auto
      ultimately show ?thesis by (intro exI [of _ "False # cs"]) simp
    qed
  qed (use assms(4) in simp_all)
qed

section \<open>Properties\<close>



text \<open>C29: The wakeups of waiting workers are not lost: at every moment at most as many workers are in
  the timed wait as \<open>waitingCount\<close> shows, together with the posts made and about to be made; so
  while a worker waits and no post is on its way, the next \<open>enqueue_signaled\<close> posts.\<close>

theorem waiting_workers_accounted:
  assumes "pool_run evs (ksiEngineWorkerPoolInit n alive) = Some wp"
  shows "number is_backoff wp \<le> waitingCount wp + int (waitingSem wp) + number (\<lambda>th. th = Posting) wp"
proof -
  have "accounted (ksiEngineWorkerPoolInit n alive)"
    by (simp add: accounted_def number_def ksiEngineWorkerPoolInit_def is_backoff_def)
  then show ?thesis using pool_run_inv [OF assms, of accounted] accounted_step unfolding accounted_def by metis
qed

text \<open>Worker 0 tries in vain until it waits.\<close>

definition ex_tries :: "pool_event list" where
  "ex_tries = OnlineAdd # Worker 0 False # concat (replicate 17 [Worker 0 False, Worker 0 False])"

theorem waiting_workers_accounted_witness:
  "\<exists>wp. pool_run ex_tries (ksiEngineWorkerPoolInit 3 0) = Some wp \<and> threads wp = [Backoff False 0, Getting, Getting] \<and>
     number is_backoff wp \<le> waitingCount wp + int (waitingSem wp) + number (\<lambda>th. th = Posting) wp"
proof -
  have "map_option threads (pool_run ex_tries (ksiEngineWorkerPoolInit 3 0)) = Some [Backoff False 0, Getting, Getting]"
    by code_simp
  then obtain wp where "pool_run ex_tries (ksiEngineWorkerPoolInit 3 0) = Some wp" "threads wp = [Backoff False 0, Getting, Getting]"
    by auto
  with waiting_workers_accounted show ?thesis by blast
qed

text \<open>The counters keep their ranges: a timed wait is for at most 1.28 ms, and
  \<open>waitingCount\<close> does not fall below one less the number of workers (it can be
  negative: several workers may read the last one waiting before they subtract).\<close>

theorem backoff_bounded:
  assumes "pool_run evs (ksiEngineWorkerPoolInit n alive) = Some wp" "0 < n"
  shows "(\<forall>got failed. Backoff got failed \<in> set (threads wp) \<longrightarrow> backoff_nsec failed \<le> 1280000) \<and> 1 - int n \<le> waitingCount wp"
proof -
  have "pool_bounds n (ksiEngineWorkerPoolInit n alive)"
    using assms(2) by (simp add: pool_bounds_def number_def ksiEngineWorkerPoolInit_def)
  then have b: "pool_bounds n wp" using pool_run_inv [OF assms(1), of "pool_bounds n"] pool_bounds_step by metis
  have "backoff_nsec failed \<le> 1280000" if "Backoff got failed \<in> set (threads wp)" for got failed
  proof -
    have "failed \<le> 7" using b that by (auto simp: pool_bounds_def pool_defs)
    then have "(2::nat) ^ failed \<le> 2 ^ 7" by (rule power_increasing) simp
    then show ?thesis by (simp add: backoff_nsec_def pool_defs)
  qed
  moreover have "0 \<le> number (\<lambda>th. th = Subtracting) wp" by (simp add: number_def)
  ultimately show ?thesis using b unfolding pool_bounds_def by force
qed

theorem backoff_bounded_witness:
  "\<exists>wp. pool_run (ex_tries @ [Enqueue, Enqueue, Worker 1 True, Worker 1 True, Worker 1 True, Worker 1 True, Worker 2 True,
       Worker 2 True, Worker 2 True, Worker 2 True, Worker 1 True, Worker 2 True]) (ksiEngineWorkerPoolInit 3 0) = Some wp \<and>
     waitingCount wp = -1 \<and> 1 - int 3 \<le> waitingCount wp"
proof -
  let ?evs = "ex_tries @ [Enqueue, Enqueue, Worker 1 True, Worker 1 True, Worker 1 True, Worker 1 True, Worker 2 True,
       Worker 2 True, Worker 2 True, Worker 2 True, Worker 1 True, Worker 2 True]"
  have "map_option waitingCount (pool_run ?evs (ksiEngineWorkerPoolInit 3 0)) = Some (- 1)" by code_simp
  then obtain wp where wp: "pool_run ?evs (ksiEngineWorkerPoolInit 3 0) = Some wp" "waitingCount wp = - 1" by auto
  with backoff_bounded [OF wp(1)] show ?thesis by auto
qed

text \<open>A launch that is interleaved with a worker on its way to sleep loses the worker for ever: it ends,
  because an engine came alive between its two looks, or it goes to sleep after the post and stays
  asleep while there is an engine and a task.\<close>

theorem launch_loses_worker:
  "map_option (\<lambda>wp. (pstate wp, enginesAlive wp, threads wp))
     (pool_run [Worker 0 False, Worker 0 False, OnlinePost, OnlineAdd, Worker 0 False] (ksiEngineWorkerPoolInit 1 0)) =
     Some (ksiEngineWorkerPoolStateRunning, 1, [Exited]) \<and>
   map_option (\<lambda>wp. (ready wp, enginesAlive wp, threads wp, pool_do (Worker 0 True) wp, pool_do (Worker 0 False) wp))
     (pool_run [Worker 0 False, Worker 0 False, Worker 0 False, Worker 0 False, OnlinePost, OnlineAdd, Worker 0 False, Enqueue]
       (ksiEngineWorkerPoolInit 1 0)) = Some (1, 1, [Sleeping], None, None)"
  by code_simp

text \<open>Destroying the pool may never return: a worker that saw the pool running goes to sleep after the only
  post, so the join waits for it for ever; and with a negative \<open>waitingCount\<close> the loop of the posts does
  not end properly.\<close>

theorem destroy_never_returns:
  "map_option (\<lambda>wp. (joined wp, threads wp, pool_do (Worker 0 True) wp, pool_do (Worker 0 False) wp))
     (pool_run [Worker 0 False, Worker 0 False, Worker 0 False, Worker 0 False, Finalize, FinalWake, FinalPosts, Worker 0 False]
       (ksiEngineWorkerPoolInit 1 0)) = Some (False, [Sleeping], None, None) \<and>
   pool_run (ex_tries @ [Enqueue, Enqueue, Worker 1 True, Worker 1 True, Worker 1 True, Worker 1 True, Worker 2 True,
       Worker 2 True, Worker 2 True, Worker 2 True, Worker 1 True, Worker 2 True, Finalize, FinalWake, FinalPosts])
     (ksiEngineWorkerPoolInit 3 0) = None"
  by code_simp

end
