(* ===== verification/Engine_Run.thy ===== *)
theory Engine_Run
  imports Dagedit Mix Pool
begin

text \<open>
  Running an engine (\<^verbatim>\<open>ksid/engine.c\<close>): launch, stop, pause, resume and reset, and what
  the audio callback does before and after the workers evaluate the graph. A call runs with the
  engine's lock held. \<open>playingMutex\<close> is recursive and the calls do not wait, so each is one step
  on the engine and its worker pool.
\<close>

section \<open>Reset\<close>

definition kscarletMidiSegReset :: "KsiNode \<Rightarrow> KsiEngine \<Rightarrow> KsiEngine option" where
  "kscarletMidiSegReset n e =
     (case plugs e (nargs n) of
        Some (MidiSegEnv tree current) \<Rightarrow> Some (e\<lparr>plugs := (plugs e)(nargs n \<mapsto> MidiSegEnv tree NULL)\<rparr>)
      | _ \<Rightarrow> None)"

definition stageHalt :: int where "stageHalt = 0"

definition kscarletADSRReset :: "KsiNode \<Rightarrow> KsiEngine \<Rightarrow> KsiEngine option" where
  "kscarletADSRReset n e =
     (case plugs e (nargs n) of
        Some (ADSREnv stage md) \<Rightarrow> Some (e\<lparr>plugs := (plugs e)(nargs n \<mapsto> ADSREnv stageHalt 0)\<rparr>)
      | _ \<Rightarrow> None)"

text \<open>The switch on the plugin: two of them have a reset.\<close>

definition reset_node :: "KsiNode \<Rightarrow> KsiEngine \<Rightarrow> KsiEngine option" where
  "reset_node n e =
     (if ksiNodeTypeInlineId (ntype n) = 3 then kscarletMidiSegReset n e
      else if ksiNodeTypeInlineId (ntype n) = 5 then kscarletADSRReset n e
      else Some e)"

fun reset_nodes :: "(int \<times> ptr) list \<Rightarrow> KsiEngine \<Rightarrow> KsiEngine option" where
  "reset_nodes [] e = Some e"
| "reset_nodes ((i, p) # rest) e = do {
     n \<leftarrow> nheap (ver e (audioEpoch e)) p;
     e \<leftarrow> reset_node n e;
     reset_nodes rest e
   }"

text \<open>\<open>_ksiEngineReset\<close>\<close>

definition impl_ksiEngineReset :: "KsiEngine \<Rightarrow> KsiEngine option" where
  "impl_ksiEngineReset e = reset_nodes (ksiVecIterate (nlist (ver e (audioEpoch e)))) e"

definition ksiEngineReset :: "KsiEngine \<Rightarrow> KsiError \<times> KsiEngine" where
  "ksiEngineReset e = (ksiErrorNone, e\<lparr>notRequireReset := False\<rparr>)"

section \<open>Launch, stop, pause, resume\<close>

type_synonym running = "KsiEngine \<times> worker_pool"

definition impl_ksiEngineStop :: "int \<Rightarrow> running \<Rightarrow> KsiError \<times> running" where
  "impl_ksiEngineStop state s =
     (let (e, wp) = s in (ksiErrorNone, (e\<lparr>playing := state\<rparr>, ksiEngineWorkerPoolOnlineDecrease wp)))"

definition ksiEngineStop :: "running \<Rightarrow> KsiError \<times> running" where
  "ksiEngineStop s = impl_ksiEngineStop 0 s"

definition ksiEngineLaunch :: "running \<Rightarrow> (KsiError \<times> running) option" where
  "ksiEngineLaunch s = do {
     let (e, wp) = s;
     (_, e) \<leftarrow> ksiEngineCommit e;
     (if playing e > 0 then Some (ksiErrorIdempotent, (e, wp))
      else do {
        e \<leftarrow> impl_ksiEngineReset e;
        Some (ksiErrorNone, (e\<lparr>playing := 1\<rparr>, ksiEngineWorkerPoolOnlineIncrease wp))
      })
   }"

text \<open>Both compute an error and return \<open>ksiErrorNone\<close>.\<close>

definition ksiEnginePause :: "running \<Rightarrow> KsiError \<times> running" where
  "ksiEnginePause s =
     (let (e, wp) = s in
      if \<not> playing e > 0 then (ksiErrorNone, (e, wp))
      else if playing e = ksiEnginePaused then (ksiErrorNone, (e, wp))
      else (ksiErrorNone, (e\<lparr>playing := ksiEnginePaused\<rparr>, ksiEngineWorkerPoolOnlineDecrease wp)))"

definition ksiEngineResume :: "running \<Rightarrow> KsiError \<times> running" where
  "ksiEngineResume s =
     (let (e, wp) = s in
      if \<not> playing e > 0 then (ksiErrorNone, (e, wp))
      else if playing e = 1 then (ksiErrorNone, (e, wp))
      else (ksiErrorNone, (e\<lparr>playing := ksiEnginePlaying\<rparr>, wp)))"

section \<open>The audio callback\<close>

text \<open>
  \<open>memset\<close> of a channel: its first \<open>frameCount\<close> samples become zero. \<open>out\<close> is the array of the
  driver's two channel buffers.
\<close>

definition clear_channel :: "int \<Rightarrow> samples \<Rightarrow> ptr \<Rightarrow> samples option" where
  "clear_channel frames m p = do {
     xs \<leftarrow> m p;
     need (frames \<le> int (List.length xs));
     Some (m(p \<mapsto> replicate (nat frames) 0 @ drop (nat frames) xs))
   }"

fun clear_from :: "int \<Rightarrow> ptr list \<Rightarrow> nat \<Rightarrow> nat \<Rightarrow> samples \<Rightarrow> samples option" where
  "clear_from frames out i 0 m = Some m"
| "clear_from frames out i (Suc k) m = do {
     p \<leftarrow> get_at out (int i);
     m \<leftarrow> clear_channel frames m p;
     clear_from frames out (Suc i) k m
   }"

definition audioChans :: nat where "audioChans = 2"

definition fillChans :: "KsiNode \<Rightarrow> nat" where
  "fillChans n = nat (if outputCount n < int audioChans then outputCount n else int audioChans)"

text \<open>The final node writes into the driver's buffers.\<close>

fun give_buffers :: "ptr list \<Rightarrow> nat \<Rightarrow> KsiNode \<Rightarrow> KsiNode option" where
  "give_buffers out 0 n = Some n"
| "give_buffers out (Suc i) n = do {
     n \<leftarrow> give_buffers out i n;
     p \<leftarrow> get_at out (int i);
     bs \<leftarrow> set_at (outputBuffer n) (int i) p;
     Some (n\<lparr>outputBuffer := bs\<rparr>)
   }"

definition migrate :: "KsiEngine \<Rightarrow> KsiEngine" where
  "migrate e =
     (if epoch e \<noteq> audioEpoch e
      then e\<lparr>audioEpoch := epoch e, migratedSem := ksiSemPost (migratedSem e)\<rparr> else e)"

text \<open>
  The callback up to the point where it hands out the nodes; the result tells whether it comes
  to that. The part after the evaluation is \<open>callback_end\<close>.
\<close>

definition callback_begin :: "ptr list \<Rightarrow> int \<Rightarrow> KsiEngine \<times> samples \<Rightarrow> (bool \<times> KsiEngine \<times> samples) option" where
  "callback_begin out frames s = do {
     let (e, m) = s;
     let e = e\<lparr>framesPerBuffer := frames\<rparr>;
     e \<leftarrow> (if notRequireReset e then Some e else impl_ksiEngineReset (e\<lparr>notRequireReset := True\<rparr>));
     (if \<not> playing e > 0 then Some (False, e, m)
      else do {
        let e = migrate e;
        (if playing e = ksiEnginePaused \<or> finalNode (ver e (epoch e)) = NULL
         then do { m \<leftarrow> clear_from frames out 0 2 m; Some (False, e, m) }
         else do {
           let v = ver e (epoch e);
           n \<leftarrow> nheap v (finalNode v);
           n \<leftarrow> give_buffers out (fillChans n) n;
           Some (True, e\<lparr>ver := (ver e)(epoch e := v\<lparr>nheap := (nheap v)(finalNode v \<mapsto> n)\<rparr>)\<rparr>, m)
         })
      })
   }"

definition callback_end :: "ptr list \<Rightarrow> int \<Rightarrow> nat \<Rightarrow> KsiEngine \<times> samples \<Rightarrow> (KsiEngine \<times> samples) option" where
  "callback_end out frames fill s = do {
     let (e, m) = s;
     m \<leftarrow> clear_from frames out (fill + 1) (audioChans - (fill + 1)) m;
     Some (e\<lparr>etime := etime e + word_of_int frames\<rparr>, m)
   }"

section \<open>Reset restarts the players\<close>

fun is_reset :: "plugin_env \<Rightarrow> bool" where
  "is_reset (MidiSegEnv tree current) = (current = NULL)"
| "is_reset (ADSREnv stage md) = (stage = stageHalt \<and> md = 0)"
| "is_reset WavetableEnv = False"

definition plug_is_reset :: "KsiEngine \<Rightarrow> ptr \<Rightarrow> bool" where
  "plug_is_reset e a = (case plugs e a of Some pl \<Rightarrow> is_reset pl | None \<Rightarrow> False)"

definition has_reset :: "KsiNode \<Rightarrow> bool" where
  "has_reset n \<longleftrightarrow> (case INLINE_LIST (ksiNodeTypeInlineId (ntype n)) of Some pl \<Rightarrow> requireReset pl | None \<Rightarrow> False)"

lemma reset_node_result:
  assumes "reset_node n e = Some e'"
  shows "\<exists>ps. e' = e\<lparr>plugs := ps\<rparr>" "has_reset n \<Longrightarrow> plug_is_reset e' (nargs n)" "plug_is_reset e a \<Longrightarrow> plug_is_reset e' a"
proof -
  show "\<exists>ps. e' = e\<lparr>plugs := ps\<rparr>"
  proof (cases "ksiNodeTypeInlineId (ntype n) = 3 \<or> ksiNodeTypeInlineId (ntype n) = 5")
    case True
    then show ?thesis using assms
      by (auto simp: reset_node_def kscarletMidiSegReset_def kscarletADSRReset_def split: option.splits plugin_env.splits)
  next
    case False
    then show ?thesis using assms by (intro exI [of _ "plugs e"]) (simp add: reset_node_def)
  qed
qed (use assms in \<open>auto simp: reset_node_def kscarletMidiSegReset_def kscarletADSRReset_def has_reset_def INLINE_LIST_def
      plug_is_reset_def split: option.splits plugin_env.splits if_split_asm\<close>)

lemma reset_nodes_result:
  assumes "reset_nodes ps e = Some e'"
  shows "(\<exists>pl. e' = e\<lparr>plugs := pl\<rparr>) \<and> (\<forall>a. plug_is_reset e a \<longrightarrow> plug_is_reset e' a) \<and>
    (\<forall>(i, p) \<in> set ps. \<forall>n. nheap (ver e (audioEpoch e)) p = Some n \<and> has_reset n \<longrightarrow> plug_is_reset e' (nargs n))"
  using assms
proof (induction ps arbitrary: e)
  case Nil
  then show ?case by (auto intro: exI [of _ "plugs e"])
next
  case (Cons ip ps)
  obtain i p where ip: "ip = (i, p)" by (cases ip)
  obtain n e1 where n: "nheap (ver e (audioEpoch e)) p = Some n" and e1: "reset_node n e = Some e1"
    and r: "reset_nodes ps e1 = Some e'"
    using Cons.prems by (auto simp: ip bind_eq_Some_conv)
  obtain pl where pl: "e1 = e\<lparr>plugs := pl\<rparr>" using reset_node_result(1) [OF e1] by blast
  note IH = Cons.IH [OF r]
  then have "\<exists>pl. e' = e\<lparr>plugs := pl\<rparr>" using pl by auto
  moreover have "plug_is_reset e' a" if "plug_is_reset e a" for a
    using IH reset_node_result(3) [OF e1 that] by blast
  moreover have "plug_is_reset e' (nargs n)" if "has_reset n"
    using IH reset_node_result(2) [OF e1 that] by blast
  ultimately show ?case using IH n pl by (auto simp: ip)
qed

section \<open>The calls\<close>

datatype run_call = Launch | Stop | Pause | Resume

definition run_call :: "run_call \<Rightarrow> running \<Rightarrow> (KsiError \<times> running) option" where
  "run_call c s =
     (case c of Launch \<Rightarrow> ksiEngineLaunch s | Stop \<Rightarrow> Some (ksiEngineStop s) | Pause \<Rightarrow> Some (ksiEnginePause s)
      | Resume \<Rightarrow> Some (ksiEngineResume s))"

fun run_calls :: "run_call list \<Rightarrow> running \<Rightarrow> (KsiError list \<times> running) option" where
  "run_calls [] s = Some ([], s)"
| "run_calls (c # cs) s = do {
     (ret, s) \<leftarrow> run_call c s;
     (rets, s) \<leftarrow> run_calls cs s;
     Some (ret # rets, s)
   }"

text \<open>The calls that leave the count wrong: to stop an engine that is not playing, and to resume.\<close>

fun stray_calls :: "run_call list \<Rightarrow> running \<Rightarrow> int" where
  "stray_calls [] s = 0"
| "stray_calls (c # cs) s =
     (if c = Stop \<and> playing (fst s) \<noteq> ksiEnginePlaying \<or> c = Resume \<and> playing (fst s) = ksiEnginePaused then 1 else 0) +
     (case run_call c s of Some (_, s) \<Rightarrow> stray_calls cs s | None \<Rightarrow> 0)"

definition online :: "KsiEngine \<Rightarrow> int" where
  "online e = (if playing e = ksiEnginePlaying then 1 else 0)"

definition run_ok :: "KsiEngine \<Rightarrow> bool" where
  "run_ok e \<longleftrightarrow> playing e \<in> {ksiEngineStopped, ksiEnginePlaying, ksiEnginePaused}"

lemma commit_playing: "ksiEngineCommit e = Some (r, e') \<Longrightarrow> playing e' = playing e"
  by (auto simp: ksiEngineCommit_def ksiCondWait_def ksiCondSetWait_def bind_eq_Some_conv split: if_split_asm)

lemma impl_reset_playing: "impl_ksiEngineReset e = Some e' \<Longrightarrow> playing e' = playing e"
  using reset_nodes_result unfolding impl_ksiEngineReset_def by fastforce

lemma run_call_alive:
  assumes "run_call c (e, wp) = Some (r, (e', wp'))" "run_ok e"
  shows "run_ok e' \<and> enginesAlive wp' - online e' = enginesAlive wp - online e -
    (if c = Stop \<and> playing e \<noteq> ksiEnginePlaying \<or> c = Resume \<and> playing e = ksiEnginePaused then 1 else 0)"
proof (cases c)
  case Launch
  then obtain r1 e1 where c: "ksiEngineCommit e = Some (r1, e1)"
    and l: "if playing e1 > 0 then e' = e1 \<and> wp' = wp
       else \<exists>e2. impl_ksiEngineReset e1 = Some e2 \<and> e' = e2\<lparr>playing := 1\<rparr> \<and> wp' = ksiEngineWorkerPoolOnlineIncrease wp"
    using assms(1) by (auto simp: run_call_def ksiEngineLaunch_def bind_eq_Some_conv split: if_split_asm)
  have p: "playing e1 = playing e" by (rule commit_playing [OF c])
  show ?thesis
  proof (cases "playing e > 0")
    case True
    then show ?thesis using l p assms(2) Launch by (simp add: run_ok_def online_def)
  next
    case False
    then have "playing e' = 1" "enginesAlive wp' = enginesAlive wp + 1"
      using l p by (auto simp: ksiEngineWorkerPoolOnlineIncrease_def online_add_def online_post_def)
    then show ?thesis using False assms(2) Launch by (auto simp: run_ok_def online_def playing_defs)
  qed
qed (use assms in \<open>auto simp: run_call_def ksiEngineStop_def impl_ksiEngineStop_def ksiEnginePause_def ksiEngineResume_def
    ksiEngineWorkerPoolOnlineDecrease_def run_ok_def online_def playing_defs split: if_split_asm\<close>)

lemma run_calls_alive:
  assumes "run_calls cs (e, wp) = Some (rs, (e', wp'))" "run_ok e"
  shows "run_ok e' \<and> enginesAlive wp' - online e' = enginesAlive wp - online e - stray_calls cs (e, wp)"
  using assms
proof (induction cs arbitrary: e wp rs)
  case (Cons c cs)
  then obtain r e1 wp1 rs1 where c: "run_call c (e, wp) = Some (r, (e1, wp1))" and cs: "run_calls cs (e1, wp1) = Some (rs1, (e', wp'))"
    by (auto simp: bind_eq_Some_conv)
  note a = run_call_alive [OF c Cons.prems(2)]
  show ?case using a Cons.IH [OF cs] by (simp add: c)
qed simp

section \<open>What the callback writes\<close>

definition silent :: "int \<Rightarrow> samples \<Rightarrow> samples \<Rightarrow> ptr \<Rightarrow> bool" where
  "silent frames m m' p \<longleftrightarrow> (\<exists>xs. m p = Some xs \<and> m' p = Some (replicate (nat frames) 0 @ drop (nat frames) xs))"

lemma clear_two:
  assumes "m a = Some xs" "m b = Some ys" "a \<noteq> b" "frames \<le> int (List.length xs)" "frames \<le> int (List.length ys)"
  shows "\<exists>m'. clear_from frames [a, b] 0 2 m = Some m' \<and> silent frames m m' a \<and> silent frames m m' b \<and>
    (\<forall>p. p \<notin> {a, b} \<longrightarrow> m' p = m p)"
  using assms by (simp add: numeral_2_eq_2 clear_channel_def get_at_def silent_def)

lemma give_buffers_result:
  assumes "give_buffers out k n = Some n'"
  shows "\<exists>bs. n' = n\<lparr>outputBuffer := bs\<rparr> \<and> List.length bs = List.length (outputBuffer n) \<and>
    (\<forall>i < k. i < List.length out \<and> i < List.length bs \<and> bs ! i = out ! i) \<and>
    (\<forall>i. k \<le> i \<and> i < List.length bs \<longrightarrow> bs ! i = outputBuffer n ! i)"
  using assms
proof (induction k arbitrary: n')
  case 0
  then show ?case by (intro exI [of _ "outputBuffer n"]) simp
next
  case (Suc k)
  then obtain n1 p bs' where g: "give_buffers out k n = Some n1" "get_at out (int k) = Some p"
    "set_at (outputBuffer n1) (int k) p = Some bs'" "n' = n1\<lparr>outputBuffer := bs'\<rparr>"
    by (auto simp: bind_eq_Some_conv)
  obtain bs where bs: "n1 = n\<lparr>outputBuffer := bs\<rparr>" "List.length bs = List.length (outputBuffer n)"
    "\<forall>i < k. i < List.length out \<and> i < List.length bs \<and> bs ! i = out ! i"
    "\<forall>i. k \<le> i \<and> i < List.length bs \<longrightarrow> bs ! i = outputBuffer n ! i"
    using Suc.IH [OF g(1)] by blast
  have b': "k < List.length bs" "bs' = bs[k := out ! k]" "k < List.length out"
    using g(2,3) bs(1) by (auto simp: fault_simps)
  then show ?case using bs g(4)
    by (intro exI [of _ bs']) (auto simp: nth_list_update less_Suc_eq)
qed

lemma migrate_fields [simp]:
  "playing (migrate e) = playing e" "epoch (migrate e) = epoch e" "audioEpoch (migrate e) = epoch e"
  "ver (migrate e) = ver e" "etime (migrate e) = etime e" "framesPerBuffer (migrate e) = framesPerBuffer e"
  "migratedSem (migrate e) = migratedSem e + (if epoch e = audioEpoch e then 0 else 1)"
  by (simp_all add: migrate_def ksiSemPost_def)

section \<open>Properties\<close>

text \<open>When the engine is paused or has no final node the callback writes silence to both channels
  and to nothing else, migrates to the edited version if there is a new one, and does not advance
  the time.\<close>

theorem callback_silence:
  assumes "notRequireReset e" "playing e > 0" "playing e = ksiEnginePaused \<or> finalNode (ver e (epoch e)) = NULL"
    "m a = Some xs" "m b = Some ys" "a \<noteq> b" "frames \<le> int (List.length xs)" "frames \<le> int (List.length ys)"
  shows "\<exists>m'. callback_begin [a, b] frames (e, m) = Some (False, migrate (e\<lparr>framesPerBuffer := frames\<rparr>), m') \<and>
     silent frames m m' a \<and> silent frames m m' b \<and> (\<forall>p. p \<notin> {a, b} \<longrightarrow> m' p = m p) \<and>
     etime (migrate (e\<lparr>framesPerBuffer := frames\<rparr>)) = etime e"
proof -
  obtain m' where "clear_from frames [a, b] 0 2 m = Some m'" "silent frames m m' a \<and> silent frames m m' b \<and>
    (\<forall>p. p \<notin> {a, b} \<longrightarrow> m' p = m p)"
    using clear_two [OF assms(4-8)] by blast
  then show ?thesis using assms(1-3) by (simp add: callback_begin_def)
qed

theorem callback_silence_witness:
  "\<exists>m'. callback_begin [1, 2] 2 ((ksiEngineInit 2 48000)\<lparr>playing := ksiEnginePaused\<rparr>, [1 \<mapsto> [5, 6], 2 \<mapsto> [7, 8]]) =
       Some (False, migrate (((ksiEngineInit 2 48000)\<lparr>playing := ksiEnginePaused\<rparr>)\<lparr>framesPerBuffer := 2\<rparr>), m') \<and> m' 1 = Some [0, 0]"
proof -
  have h: "notRequireReset ((ksiEngineInit 2 48000)\<lparr>playing := ksiEnginePaused\<rparr>)"
    "playing ((ksiEngineInit 2 48000)\<lparr>playing := ksiEnginePaused\<rparr>) > 0" "(2::int) \<le> int (List.length [5::KsiData, 6])"
    by (simp_all add: ksiEngineInit_def playing_defs)
  have s: "silent 2 [1 \<mapsto> [5, 6], 2 \<mapsto> [7, 8]] m' 1 \<Longrightarrow> m' 1 = Some [0, 0]" for m' :: samples
    by (auto simp: silent_def numeral_2_eq_2)
  show ?thesis
    using callback_silence [OF h(1,2), of "[1 \<mapsto> [5, 6], 2 \<mapsto> [7, 8]]" 1 "[5, 6]" 2 "[7, 8]" 2] s h(3)
    by (fastforce simp: playing_defs)
qed

text \<open>C30: When the callback hands out the graph, it hands out the version last committed: both epochs
  agree, a post went to \<open>migratedSem\<close> exactly if they did not, no sample has been written, and
  the version is unchanged except that the first outputs of the final node are the driver's
  buffers.\<close>

theorem callback_hands_out_committed:
  assumes "notRequireReset e" "callback_begin out frames (e, m) = Some (True, e', m')"
  shows "playing e > 0 \<and> playing e \<noteq> ksiEnginePaused \<and> m' = m \<and> epoch e' = epoch e \<and> audioEpoch e' = epoch e \<and>
    migratedSem e' = migratedSem e + (if epoch e = audioEpoch e then 0 else 1) \<and>
    (\<exists>n bs. nheap (ver e (epoch e)) (finalNode (ver e (epoch e))) = Some n \<and>
       ver e' = (ver e)(epoch e := (ver e (epoch e))
         \<lparr>nheap := (nheap (ver e (epoch e)))(finalNode (ver e (epoch e)) \<mapsto> n\<lparr>outputBuffer := bs\<rparr>)\<rparr>) \<and>
       List.length bs = List.length (outputBuffer n) \<and>
       (\<forall>i < fillChans n. bs ! i = out ! i) \<and> (\<forall>i. fillChans n \<le> i \<and> i < List.length bs \<longrightarrow> bs ! i = outputBuffer n ! i))"
proof -
  let ?e = "migrate (e\<lparr>framesPerBuffer := frames\<rparr>)"
  let ?v = "ver e (epoch e)"
  obtain n n' where n: "nheap ?v (finalNode ?v) = Some n" and g: "give_buffers out (fillChans n) n = Some n'"
    and r: "playing e > 0" "playing e \<noteq> ksiEnginePaused" "m' = m"
      "e' = ?e\<lparr>ver := (ver e)(epoch e := ?v\<lparr>nheap := (nheap ?v)(finalNode ?v \<mapsto> n')\<rparr>)\<rparr>"
    using assms by (auto simp: callback_begin_def Let_def bind_eq_Some_conv split: if_split_asm)
  obtain bs where "n' = n\<lparr>outputBuffer := bs\<rparr>" "List.length bs = List.length (outputBuffer n)"
    "\<forall>i < fillChans n. i < List.length out \<and> i < List.length bs \<and> bs ! i = out ! i"
    "\<forall>i. fillChans n \<le> i \<and> i < List.length bs \<longrightarrow> bs ! i = outputBuffer n ! i"
    using give_buffers_result [OF g] by blast
  then have "\<exists>n bs. nheap ?v (finalNode ?v) = Some n \<and>
       ver e' = (ver e)(epoch e := ?v\<lparr>nheap := (nheap ?v)(finalNode ?v \<mapsto> n\<lparr>outputBuffer := bs\<rparr>)\<rparr>) \<and>
       List.length bs = List.length (outputBuffer n) \<and>
       (\<forall>i < fillChans n. bs ! i = out ! i) \<and> (\<forall>i. fillChans n \<le> i \<and> i < List.length bs \<longrightarrow> bs ! i = outputBuffer n ! i)"
    using n r(4) by (intro exI [of _ n] exI [of _ bs]) (simp del: fun_upd_apply)
  moreover have "epoch e' = epoch e \<and> audioEpoch e' = epoch e \<and>
    migratedSem e' = migratedSem e + (if epoch e = audioEpoch e then 0 else 1)"
    using r(4) by simp
  ultimately show ?thesis using r(1-3) by blast
qed

definition ex_final :: "KsiEngine option" where
  "ex_final = do {
     (_, e) \<leftarrow> edits [AddNode 0x20010 []] (ksiEngineInit 2 48000);
     (_, e) \<leftarrow> ksiEngineCommit e;
     Some (e\<lparr>playing := ksiEnginePlaying\<rparr>)
   }"

theorem callback_hands_out_committed_witness:
  "\<exists>e e' m'. ex_final = Some e \<and> audioEpoch e \<noteq> epoch e \<and>
     callback_begin [11, 12] 2 (e, [11 \<mapsto> [5, 6], 12 \<mapsto> [7, 8]]) = Some (True, e', m') \<and>
     audioEpoch e' = epoch e \<and> migratedSem e' = migratedSem e + 1 \<and> m' 12 = Some [7, 8]"
proof -
  let ?m = "[11 \<mapsto> [5, 6], 12 \<mapsto> [7, 8]]"
  have "do { e \<leftarrow> ex_final; (go, _, _) \<leftarrow> callback_begin [11, 12] 2 (e, ?m);
      Some (go, audioEpoch e \<noteq> epoch e, notRequireReset e) } = Some (True, True, True)" by code_simp
  then obtain e e' m' where e: "ex_final = Some e" "audioEpoch e \<noteq> epoch e" "notRequireReset e"
    "callback_begin [11, 12] 2 (e, ?m) = Some (True, e', m')"
    by (auto simp: bind_eq_Some_conv)
  have "audioEpoch e' = epoch e \<and> migratedSem e' = migratedSem e + 1 \<and> m' = ?m"
    using callback_hands_out_committed [OF e(3,4)] e(2) by auto
  moreover have "?m 12 = Some [7, 8]" by simp
  ultimately show ?thesis using e(1,2,4) by blast
qed

text \<open>The channel after those the final node fills is never written by the callback: with a final
  node of one output the second channel keeps what the driver had in it.\<close>

theorem callback_leaves_channel:
  assumes "fill < audioChans" "fill < List.length out" "distinct out" "callback_end out frames fill (e, m) = Some (e', m')"
  shows "m' (out ! fill) = m (out ! fill)"
proof -
  have "clear_from frames out i k m = Some m' \<Longrightarrow> fill < i \<Longrightarrow> m' (out ! fill) = m (out ! fill)" for i k m
  proof (induction k arbitrary: i m)
    case (Suc k)
    then obtain p m1 where p: "get_at out (int i) = Some p" "clear_channel frames m p = Some m1"
      "clear_from frames out (Suc i) k m1 = Some m'"
      by (auto simp: bind_eq_Some_conv)
    have "p \<noteq> out ! fill" using p(1) assms(2,3) Suc.prems(2) by (auto simp: fault_simps nth_eq_iff_index_eq)
    then have "m1 (out ! fill) = m (out ! fill)" using p(2) by (auto simp: clear_channel_def bind_eq_Some_conv split: if_split_asm)
    then show ?case using Suc.IH [OF p(3)] Suc.prems(2) by simp
  qed simp
  then show ?thesis using assms(4) by (auto simp: callback_end_def bind_eq_Some_conv)
qed

theorem callback_leaves_channel_witness:
  "\<exists>e' m'. callback_end [1, 2] 2 1 (ksiEngineInit 2 48000, [1 \<mapsto> [5, 6], 2 \<mapsto> [7, 8]]) = Some (e', m') \<and> m' 2 = Some [7, 8]"
proof -
  obtain e' m' where r: "callback_end [1, 2] 2 1 (ksiEngineInit 2 48000, [1 \<mapsto> [5, 6], 2 \<mapsto> [7, 8]]) = Some (e', m')"
    by (simp add: callback_end_def audioChans_def)
  from callback_leaves_channel [OF _ _ _ this] show ?thesis using r by (simp add: audioChans_def)
qed

text \<open>C31: A reset takes effect in the next callback: every node of the version being played whose plugin has
  a reset starts over (a player forgets its position, an envelope halts at zero), and the request is
  consumed.\<close>

theorem reset_restarts_players:
  assumes "callback_begin out frames (snd (ksiEngineReset e), m) = Some (go, e', m')"
    "(i, p) \<in> set (ksiVecIterate (nlist (ver e (audioEpoch e))))" "nheap (ver e (audioEpoch e)) p = Some n" "has_reset n"
  shows "plug_is_reset e' (nargs n) \<and> notRequireReset e'"
proof -
  let ?e = "e\<lparr>framesPerBuffer := frames, notRequireReset := True\<rparr>"
  obtain e1 where e1: "impl_ksiEngineReset ?e = Some e1"
    and r: "\<exists>v. e' = e1 \<or> e' = migrate e1 \<or> e' = (migrate e1)\<lparr>ver := v\<rparr>"
    using assms(1) by (auto simp: callback_begin_def ksiEngineReset_def Let_def bind_eq_Some_conv split: if_split_asm)
  have "reset_nodes (ksiVecIterate (nlist (ver e (audioEpoch e)))) ?e = Some e1" using e1 by (simp add: impl_ksiEngineReset_def)
  note rs = reset_nodes_result [OF this]
  have "plug_is_reset e1 (nargs n)" using rs assms(2-4) by fastforce
  moreover have "notRequireReset e1" using rs by auto
  ultimately show ?thesis using r by (auto simp: plug_is_reset_def migrate_def)
qed

text \<open>An engine with one envelope node (plugin 5) in both versions, in the middle of a note.\<close>

definition ex_playing :: "KsiEngine option" where
  "ex_playing = do {
     (_, e) \<leftarrow> edits [AddNode 0x50000 []] (ksiEngineInit 2 48000);
     (_, e) \<leftarrow> ksiEngineCommit e;
     (_, e, _) \<leftarrow> callback_begin [1, 2] 2 (e\<lparr>playing := 1\<rparr>, [1 \<mapsto> [5, 6], 2 \<mapsto> [7, 8]]);
     e \<leftarrow> ksiMVCCCommitter_round e;
     Some (e\<lparr>plugs := (plugs e)(3 \<mapsto> ADSREnv 2 7)\<rparr>)
   }"

theorem reset_restarts_players_witness:
  "\<exists>e go e' m'. ex_playing = Some e \<and> plugs e 3 = Some (ADSREnv 2 7) \<and>
     callback_begin [1, 2] 2 (snd (ksiEngineReset e), [1 \<mapsto> [5, 6], 2 \<mapsto> [7, 8]]) = Some (go, e', m') \<and> plug_is_reset e' 3"
proof -
  let ?m = "[1 \<mapsto> [5, 6], 2 \<mapsto> [7, 8]]"
  have "do { e \<leftarrow> ex_playing; (go, e', m') \<leftarrow> callback_begin [1, 2] 2 (snd (ksiEngineReset e), ?m);
      n \<leftarrow> nheap (ver e (audioEpoch e)) 1;
      Some (plugs e 3, (0, 1) \<in> set (ksiVecIterate (nlist (ver e (audioEpoch e)))), has_reset n, nargs n) } =
    Some (Some (ADSREnv 2 7), True, True, 3)" by code_simp
  then obtain e go e' m' n where "ex_playing = Some e" "plugs e 3 = Some (ADSREnv 2 7)"
    "callback_begin [1, 2] 2 (snd (ksiEngineReset e), ?m) = Some (go, e', m')"
    "nheap (ver e (audioEpoch e)) 1 = Some n" "(0, 1) \<in> set (ksiVecIterate (nlist (ver e (audioEpoch e))))" "has_reset n" "nargs n = 3"
    by (auto simp: bind_eq_Some_conv)
  moreover from this reset_restarts_players [of "[1, 2]" 2 e ?m go e' m' 0 1 n] have "plug_is_reset e' 3" by simp
  ultimately show ?thesis by blast
qed

text \<open>C32: The pool's count of engines is exact up to stray calls: over any sequence of calls it changes as the
  engine comes and goes online, less one for every stop of an engine that is not playing and for
  every resume.\<close>

theorem alive_counts_playing:
  assumes "run_calls cs (e, wp) = Some (rets, (e', wp'))" "run_ok e"
  shows "enginesAlive wp' - online e' = enginesAlive wp - online e - stray_calls cs (e, wp)"
  using run_calls_alive [OF assms] by simp

theorem alive_counts_playing_witness:
  "\<exists>rets e' wp'. run_calls [Launch, Pause, Resume, Stop, Stop] (ksiEngineInit 2 48000, ksiEngineWorkerPoolInit 1 0) = Some (rets, (e', wp')) \<and>
     enginesAlive wp' - online e' = 0 - 0 - 2"
proof -
  let ?s = "(ksiEngineInit 2 48000, ksiEngineWorkerPoolInit 1 0)"
  let ?cs = "[Launch, Pause, Resume, Stop, Stop]"
  have "map_option fst (run_calls ?cs ?s) \<noteq> None \<and> stray_calls ?cs ?s = 2" by code_simp
  then obtain rets e' wp' where r: "run_calls ?cs ?s = Some (rets, (e', wp'))" "stray_calls ?cs ?s = 2" by auto
  have "run_ok (ksiEngineInit 2 48000)" "online (ksiEngineInit 2 48000) = 0" "enginesAlive (ksiEngineWorkerPoolInit 1 0) = 0"
    by (simp_all add: run_ok_def online_def ksiEngineInit_def playing_defs ksiEngineWorkerPoolInit_def)
  with alive_counts_playing [OF r(1)] r show ?thesis by simp
qed

text \<open>After a pause and a resume the engine is playing but not counted, so its workers stay asleep and the
  tasks the callback enqueues are never taken.\<close>

theorem resume_leaves_workers_asleep:
  "do { (_, e, wp) \<leftarrow> run_calls [Launch, Pause] (ksiEngineInit 2 48000, ksiEngineWorkerPoolInit 1 0);
        wp \<leftarrow> pool_run (replicate 5 (Worker 0 False)) wp;
        (rets, e, wp) \<leftarrow> run_calls [Resume] (e, wp);
        wp \<leftarrow> pool_run [Enqueue] wp;
        Some (rets, playing e, enginesAlive wp, ready wp, threads wp, pool_do (Worker 0 True) wp, pool_do (Worker 0 False) wp) } =
   Some ([ksiErrorNone], ksiEnginePlaying, 0, 1, [Sleeping], None, None)"
  by code_simp

definition next_commit :: "KsiEngine \<Rightarrow> bool option" where
  "next_commit e = do {
     (_, e) \<leftarrow> edits [AddNode 0x10000 []] e;
     (_, e) \<leftarrow> ksiEngineCommit e;
     e \<leftarrow> await_migration e;
     Some (hotEpoch e = audioEpoch e)
   }"

text \<open>The committer can be let through without the audio threads having migrated. A callback that comes
  between a commit and the committer's test leaves a post in \<open>migratedSem\<close> that nobody takes, and
  so does the first callback after an offline commit; with the next commit the committer goes on to
  edit the version the audio threads are still evaluating.\<close>

theorem stale_migration_post:
  "do { (_, e) \<leftarrow> edits [AddNode 0x10000 []] ((ksiEngineInit 2 48000)\<lparr>playing := 1, driver_env := True\<rparr>);
        (_, e) \<leftarrow> ksiEngineCommit e;
        (_, e, _) \<leftarrow> callback_begin [1, 2] 2 (e, [1 \<mapsto> [5, 6], 2 \<mapsto> [7, 8]]);
        e \<leftarrow> ksiMVCCCommitter_round e;
        next_commit e } = Some True \<and>
   do { (_, e) \<leftarrow> edits [AddNode 0x10000 []] ((ksiEngineInit 2 48000)\<lparr>driver_env := True\<rparr>);
        (_, e) \<leftarrow> ksiEngineCommit e;
        e \<leftarrow> ksiMVCCCommitter_round e;
        (_, e, wp) \<leftarrow> ksiEngineLaunch (e, ksiEngineWorkerPoolInit 1 0);
        (_, e, _) \<leftarrow> callback_begin [1, 2] 2 (e, [1 \<mapsto> [5, 6], 2 \<mapsto> [7, 8]]);
        next_commit e } = Some True"
  by code_simp

end
