(* ===== verification/Rbtree.thy ===== *)
theory Rbtree
  imports Prelude
begin

text \<open>
  The red-black trees of \<^verbatim>\<open>ksid/rbtree.c\<close>, which hold time sequences: nodes linked by
  parent and child pointers in a memory, with one black sentinel node for every missing
  child. Reading through a pointer that is not a node is \<^const>\<open>None\<close>.
\<close>

section \<open>State\<close>

record rbnode =
  rparent :: ptr
  rright :: ptr
  rleft :: ptr
  rkey :: int
  rtype :: int32
  rdata :: uint64

record rbtree =
  rroot :: ptr
  rsentinel :: ptr
  rmem :: "ptr \<Rightarrow> rbnode option"

definition RB_COLORMASK :: int32 where "RB_COLORMASK = 1"

definition rbtree_red :: "rbnode \<Rightarrow> rbnode" where
  "rbtree_red n = n\<lparr>rtype := rtype n AND NOT RB_COLORMASK\<rparr>"

definition rbtree_black :: "rbnode \<Rightarrow> rbnode" where
  "rbtree_black n = n\<lparr>rtype := rtype n OR RB_COLORMASK\<rparr>"

definition rbtree_is_black :: "rbnode \<Rightarrow> bool" where
  "rbtree_is_black n \<longleftrightarrow> rtype n AND RB_COLORMASK \<noteq> 0"

definition rbtree_is_red :: "rbnode \<Rightarrow> bool" where
  "rbtree_is_red n \<longleftrightarrow> \<not> rbtree_is_black n"

definition rbtree_copy_color :: "rbnode \<Rightarrow> rbnode \<Rightarrow> rbnode" where
  "rbtree_copy_color n m = n\<lparr>rtype := (rtype n AND NOT RB_COLORMASK) OR (rtype m AND RB_COLORMASK)\<rparr>"

definition rupd :: "ptr \<Rightarrow> (rbnode \<Rightarrow> rbnode) \<Rightarrow> rbtree \<Rightarrow> rbtree option" where
  "rupd p f t = do { n \<leftarrow> rmem t p; Some (t\<lparr>rmem := (rmem t)(p \<mapsto> f n)\<rparr>) }"

section \<open>Reading\<close>

definition rbtree_node_init :: "rbnode \<Rightarrow> rbnode" where
  "rbtree_node_init n = n\<lparr>rleft := NULL, rright := NULL, rparent := NULL, rkey := - 1\<rparr>"

partial_function (option) rbtree_node_min :: "rbtree \<Rightarrow> ptr \<Rightarrow> ptr option" where
  "rbtree_node_min t p = do {
     n \<leftarrow> rmem t p;
     (if rleft n \<noteq> rsentinel t then rbtree_node_min t (rleft n) else Some p)
   }"

partial_function (option) rbtree_node_max :: "rbtree \<Rightarrow> ptr \<Rightarrow> ptr option" where
  "rbtree_node_max t p = do {
     n \<leftarrow> rmem t p;
     (if rright n \<noteq> rsentinel t then rbtree_node_max t (rright n) else Some p)
   }"

definition rbtree_min :: "rbtree \<Rightarrow> ptr option" where
  "rbtree_min t = (if rroot t = rsentinel t then Some NULL else rbtree_node_min t (rroot t))"

definition rbtree_max :: "rbtree \<Rightarrow> ptr option" where
  "rbtree_max t = (if rroot t = rsentinel t then Some NULL else rbtree_node_max t (rroot t))"

text \<open>The climbing loop of \<open>rbtree_next\<close> from \<open>node\<close> with its \<open>parent\<close>.\<close>

partial_function (option) climb_right :: "rbtree \<Rightarrow> ptr \<Rightarrow> ptr \<Rightarrow> ptr option" where
  "climb_right t node parent =
     (if parent \<noteq> rroot t then do {
        p \<leftarrow> rmem t parent;
        (if node = rright p then climb_right t parent (rparent p) else Some parent)
      } else Some parent)"

partial_function (option) climb_left :: "rbtree \<Rightarrow> ptr \<Rightarrow> ptr \<Rightarrow> ptr option" where
  "climb_left t node parent =
     (if parent \<noteq> rroot t then do {
        p \<leftarrow> rmem t parent;
        (if node = rleft p then climb_left t parent (rparent p) else Some parent)
      } else Some parent)"

definition rbtree_next :: "rbtree \<Rightarrow> ptr \<Rightarrow> ptr option" where
  "rbtree_next t node =
     (if node = rsentinel t then Some NULL
      else do {
        n \<leftarrow> rmem t node;
        (if rright n \<noteq> rsentinel t then rbtree_node_min t (rright n)
         else climb_right t node (rparent n))
      })"

definition rbtree_prev :: "rbtree \<Rightarrow> ptr \<Rightarrow> ptr option" where
  "rbtree_prev t node =
     (if node = rsentinel t then Some NULL
      else do {
        n \<leftarrow> rmem t node;
        (if rleft n \<noteq> rsentinel t then rbtree_node_max t (rleft n)
         else climb_left t node (rparent n))
      })"

partial_function (option) search_from :: "rbtree \<Rightarrow> int \<Rightarrow> ptr \<Rightarrow> ptr option" where
  "search_from t key node =
     (if node \<noteq> rsentinel t then do {
        n \<leftarrow> rmem t node;
        (if key < rkey n then search_from t key (rleft n)
         else if key > rkey n then search_from t key (rright n)
         else Some node)
      } else Some NULL)"

definition rbtree_search :: "rbtree \<Rightarrow> int \<Rightarrow> ptr option" where
  "rbtree_search t key = search_from t key (rroot t)"

text \<open>
  The loop of \<open>ksiRBTreeNextForKey\<close>, with the candidate \<open>c\<close>. It runs on until
  \<^const>\<open>NULL\<close>, through the sentinel.
\<close>

partial_function (option) next_for_key :: "rbtree \<Rightarrow> int \<Rightarrow> ptr \<Rightarrow> ptr \<Rightarrow> ptr option" where
  "next_for_key t key c n =
     (if n \<noteq> NULL then do {
        nn \<leftarrow> rmem t n;
        (if key < rkey nn then do {
           better \<leftarrow> (if c = NULL then Some True
                      else do { cn \<leftarrow> rmem t c; Some (rkey nn < rkey cn) });
           next_for_key t key (if better then n else c) (rleft nn)
         }
         else if key > rkey nn then next_for_key t key c (rright nn)
         else Some n)
      } else Some c)"

definition ksiRBTreeNextForKey :: "rbtree \<Rightarrow> int \<Rightarrow> ptr option" where
  "ksiRBTreeNextForKey t key = next_for_key t key NULL (rroot t)"

definition ksiRBTreeNext :: "rbtree \<Rightarrow> ptr \<Rightarrow> ptr option" where
  "ksiRBTreeNext t n = rbtree_next t n"

section \<open>Rotations\<close>

text \<open>Replacing \<open>node\<close> by \<open>new\<close> at its place: the root or a child of its parent.\<close>

definition rbtree_left_rotate :: "rbtree \<Rightarrow> ptr \<Rightarrow> rbtree option" where
  "rbtree_left_rotate t node = do {
     n \<leftarrow> rmem t node;
     let right = rright n;
     r \<leftarrow> rmem t right;
     t \<leftarrow> rupd node (rright_update (\<lambda>_. rleft r)) t;
     r \<leftarrow> rmem t right;
     t \<leftarrow> (if rleft r \<noteq> rsentinel t then rupd (rleft r) (rparent_update (\<lambda>_. node)) t else Some t);
     n \<leftarrow> rmem t node;
     t \<leftarrow> rupd right (rparent_update (\<lambda>_. rparent n)) t;
     t \<leftarrow> (if node = rroot t then Some (t\<lparr>rroot := right\<rparr>)
           else do {
             n \<leftarrow> rmem t node;
             p \<leftarrow> rmem t (rparent n);
             (if node = rleft p then rupd (rparent n) (rleft_update (\<lambda>_. right)) t
              else rupd (rparent n) (rright_update (\<lambda>_. right)) t)
           });
     t \<leftarrow> rupd right (rleft_update (\<lambda>_. node)) t;
     rupd node (rparent_update (\<lambda>_. right)) t
   }"

definition rbtree_right_rotate :: "rbtree \<Rightarrow> ptr \<Rightarrow> rbtree option" where
  "rbtree_right_rotate t node = do {
     n \<leftarrow> rmem t node;
     let left = rleft n;
     l \<leftarrow> rmem t left;
     t \<leftarrow> rupd node (rleft_update (\<lambda>_. rright l)) t;
     l \<leftarrow> rmem t left;
     t \<leftarrow> (if rright l \<noteq> rsentinel t then rupd (rright l) (rparent_update (\<lambda>_. node)) t else Some t);
     n \<leftarrow> rmem t node;
     t \<leftarrow> rupd left (rparent_update (\<lambda>_. rparent n)) t;
     t \<leftarrow> (if node = rroot t then Some (t\<lparr>rroot := left\<rparr>)
           else do {
             n \<leftarrow> rmem t node;
             p \<leftarrow> rmem t (rparent n);
             (if node = rright p then rupd (rparent n) (rright_update (\<lambda>_. left)) t
              else rupd (rparent n) (rleft_update (\<lambda>_. left)) t)
           });
     t \<leftarrow> rupd left (rright_update (\<lambda>_. node)) t;
     rupd node (rparent_update (\<lambda>_. left)) t
   }"

section \<open>Insertion\<close>

text \<open>The descent to the free place: the last node and whether the left child is free.\<close>

partial_function (option) insert_place :: "rbtree \<Rightarrow> int \<Rightarrow> ptr \<Rightarrow> (ptr \<times> bool) option" where
  "insert_place t key parent = do {
     p \<leftarrow> rmem t parent;
     (if key < rkey p then
        (if rleft p = rsentinel t then Some (parent, True) else insert_place t key (rleft p))
      else
        (if rright p = rsentinel t then Some (parent, False) else insert_place t key (rright p)))
   }"

text \<open>Parent and grandparent of a node, and the colour at a pointer.\<close>

definition rb_parent :: "rbtree \<Rightarrow> ptr \<Rightarrow> ptr option" where
  "rb_parent t p = map_option rparent (rmem t p)"

definition rb_red :: "rbtree \<Rightarrow> ptr \<Rightarrow> bool option" where
  "rb_red t p = map_option rbtree_is_red (rmem t p)"

text \<open>One turn of the re-balancing loop: the new node to look at, and the tree.\<close>

definition rebalance_step :: "rbtree \<Rightarrow> ptr \<Rightarrow> (ptr \<times> rbtree) option" where
  "rebalance_step t node = do {
     par \<leftarrow> rb_parent t node;
     gp \<leftarrow> rb_parent t par;
     g \<leftarrow> rmem t gp;
     (if par = rleft g then do {
        red \<leftarrow> rb_red t (rright g);
        (if red then do {
           t \<leftarrow> rupd par rbtree_black t;
           t \<leftarrow> rupd (rright g) rbtree_black t;
           t \<leftarrow> rupd gp rbtree_red t;
           Some (gp, t)
         }
         else do {
           p \<leftarrow> rmem t par;
           (node, t) \<leftarrow> (if node = rright p then do { t \<leftarrow> rbtree_left_rotate t par; Some (par, t) }
                         else Some (node, t));
           par \<leftarrow> rb_parent t node;
           t \<leftarrow> rupd par rbtree_black t;
           gp \<leftarrow> rb_parent t par;
           t \<leftarrow> rupd gp rbtree_red t;
           t \<leftarrow> rbtree_right_rotate t gp;
           Some (node, t)
         })
      }
      else do {
        red \<leftarrow> rb_red t (rleft g);
        (if red then do {
           t \<leftarrow> rupd par rbtree_black t;
           t \<leftarrow> rupd (rleft g) rbtree_black t;
           t \<leftarrow> rupd gp rbtree_red t;
           Some (gp, t)
         }
         else do {
           p \<leftarrow> rmem t par;
           (node, t) \<leftarrow> (if node = rleft p then do { t \<leftarrow> rbtree_right_rotate t par; Some (par, t) }
                         else Some (node, t));
           par \<leftarrow> rb_parent t node;
           t \<leftarrow> rupd par rbtree_black t;
           gp \<leftarrow> rb_parent t par;
           t \<leftarrow> rupd gp rbtree_red t;
           t \<leftarrow> rbtree_left_rotate t gp;
           Some (node, t)
         })
      })
   }"

partial_function (option) rebalance :: "rbtree \<Rightarrow> ptr \<Rightarrow> rbtree option" where
  "rebalance t node =
     (if node = rroot t then Some t
      else do {
        par \<leftarrow> rb_parent t node;
        red \<leftarrow> rb_red t par;
        (if red then do { (node, t) \<leftarrow> rebalance_step t node; rebalance t node } else Some t)
      })"

definition rbtree_insert :: "rbtree \<Rightarrow> ptr \<Rightarrow> rbtree option" where
  "rbtree_insert t node =
     (if rroot t = rsentinel t then do {
        t \<leftarrow> rupd node (\<lambda>n. rbtree_black (n\<lparr>rparent := NULL, rleft := rsentinel t, rright := rsentinel t\<rparr>)) t;
        Some (t\<lparr>rroot := node\<rparr>)
      }
      else do {
        n \<leftarrow> rmem t node;
        (parent, lft) \<leftarrow> insert_place t (rkey n) (rroot t);
        t \<leftarrow> rupd parent (if lft then rleft_update (\<lambda>_. node) else rright_update (\<lambda>_. node)) t;
        t \<leftarrow> rupd node (\<lambda>n. rbtree_red (n\<lparr>rparent := parent, rleft := rsentinel t, rright := rsentinel t\<rparr>)) t;
        t \<leftarrow> rebalance t node;
        rupd (rroot t) rbtree_black t
      })"

text \<open>A new tree with its sentinel at \<open>p\<close>, whose other fields \<open>malloc\<close> leaves indeterminate.\<close>

definition ksiRBTreeInit :: "ptr \<Rightarrow> rbnode \<Rightarrow> rbtree" where
  "ksiRBTreeInit p n =
     \<lparr>rroot = p, rsentinel = p, rmem = [p \<mapsto> rbtree_black (rbtree_node_init n)]\<rparr>"

definition ksiRBTreeAttach :: "rbtree \<Rightarrow> ptr \<Rightarrow> rbtree option" where
  "ksiRBTreeAttach t node = rbtree_insert t node"

section \<open>Destruction\<close>

definition rfree :: "ptr \<Rightarrow> rbtree \<Rightarrow> rbtree option" where
  "rfree p t = do { _ \<leftarrow> rmem t p; Some (t\<lparr>rmem := (rmem t)(p := None)\<rparr>) }"

partial_function (option) ksiRBNodeDestroy :: "rbtree \<Rightarrow> ptr \<Rightarrow> rbtree option" where
  "ksiRBNodeDestroy t p =
     (if p = rsentinel t then Some t
      else do {
        n \<leftarrow> rmem t p;
        t \<leftarrow> (if rleft n \<noteq> NULL then ksiRBNodeDestroy t (rleft n) else Some t);
        n \<leftarrow> rmem t p;
        t \<leftarrow> (if rright n \<noteq> NULL then ksiRBNodeDestroy t (rright n) else Some t);
        rfree p t
      })"

definition ksiRBTreeDestroy :: "rbtree \<Rightarrow> rbtree option" where
  "ksiRBTreeDestroy t = do { t \<leftarrow> ksiRBNodeDestroy t (rroot t); rfree (rsentinel t) t }"

declare rbtree_node_min.simps [code] rbtree_node_max.simps [code] climb_right.simps [code]
  climb_left.simps [code] search_from.simps [code] next_for_key.simps [code]
  insert_place.simps [code] rebalance.simps [code] ksiRBNodeDestroy.simps [code]

end
