(* ===== verification/Rbtree_Rep.thy ===== *)
theory Rbtree_Rep
  imports Rbtree "HOL-Library.Tree"
begin

text \<open>
  The abstraction of the pointer structure: a binary tree of addresses, described for a
  subtree (\<open>rep\<close>) and for the path from the root to a subtree (\<open>rep_path\<close>), and the two
  rotations on it.
\<close>

section \<open>Trees and paths in the memory\<close>

definition rtop :: "ptr \<Rightarrow> ptr tree \<Rightarrow> ptr" where
  "rtop s t = (case t of Leaf \<Rightarrow> s | Node l a r \<Rightarrow> a)"

lemma rtop_simps [simp]: "rtop s Leaf = s" "rtop s (Node l a r) = a"
  by (simp_all add: rtop_def)

type_synonym rbmem = "ptr \<Rightarrow> rbnode option"

fun rep :: "rbmem \<Rightarrow> ptr \<Rightarrow> ptr \<Rightarrow> ptr tree \<Rightarrow> bool" where
  "rep h s p Leaf = True"
| "rep h s p (Node l a r) =
     ((\<exists>n. h a = Some n \<and> rparent n = p \<and> rleft n = rtop s l \<and> rright n = rtop s r) \<and>
      rep h s a l \<and> rep h s a r)"

text \<open>A path frame: whether the hole is the left child, the node, and the other child's tree.\<close>

type_synonym path = "(bool \<times> ptr \<times> ptr tree) list"

fun plug :: "path \<Rightarrow> ptr tree \<Rightarrow> ptr tree" where
  "plug [] t = t"
| "plug ((lft, a, u) # C) t = plug C (if lft then Node t a u else Node u a t)"

fun up :: "path \<Rightarrow> ptr" where
  "up [] = NULL"
| "up ((lft, a, u) # C) = a"

fun rep_path :: "rbmem \<Rightarrow> ptr \<Rightarrow> ptr \<Rightarrow> path \<Rightarrow> bool" where
  "rep_path h s q [] = True"
| "rep_path h s q ((lft, a, u) # C) =
     ((\<exists>n. h a = Some n \<and> rparent n = up C \<and>
         (if lft then rleft n = q \<and> rright n = rtop s u else rleft n = rtop s u \<and> rright n = q)) \<and>
      rep h s a u \<and> rep_path h s a C)"

fun path_set :: "path \<Rightarrow> ptr set" where
  "path_set [] = {}"
| "path_set ((lft, a, u) # C) = insert a (set_tree u \<union> path_set C)"

fun lefts :: "path \<Rightarrow> ptr list" where
  "lefts [] = []"
| "lefts ((lft, a, u) # C) = lefts C @ (if lft then [] else inorder u @ [a])"

fun rights :: "path \<Rightarrow> ptr list" where
  "rights [] = []"
| "rights ((lft, a, u) # C) = (if lft then a # inorder u else []) @ rights C"

lemma inorder_plug: "inorder (plug C t) = lefts C @ inorder t @ rights C"
  by (induction C t rule: plug.induct) auto

lemma path_set_lists: "path_set C = set (lefts C) \<union> set (rights C)"
  by (induction C rule: path_set.induct) auto

lemma set_plug: "set_tree (plug C t) = set_tree t \<union> path_set C"
  using arg_cong [OF inorder_plug [of C t], of set] by (auto simp: path_set_lists)

lemma rep_plug: "rep h s NULL (plug C t) \<longleftrightarrow> rep_path h s (rtop s t) C \<and> rep h s (up C) t"
proof (induction C t rule: plug.induct)
  case (2 lft a u C t)
  then show ?case by (cases lft) auto
qed simp

lemma rtop_plug: "rtop s (plug C t) = (if C = [] then rtop s t else fst (snd (last C)))"
  by (induction C t rule: plug.induct) auto

lemma last_path: "C \<noteq> [] \<Longrightarrow> fst (snd (last C)) \<in> path_set C"
  by (induction C rule: path_set.induct) auto

lemma up_path: "C \<noteq> [] \<Longrightarrow> up C \<in> path_set C"
  by (cases C rule: path_set.cases) auto

lemma plug_eq_Leaf: "plug C t = Leaf \<longleftrightarrow> C = [] \<and> t = Leaf"
  by (induction C t rule: plug.induct) auto

text \<open>Only the links of the addresses in the tree matter.\<close>

definition links :: "rbnode \<Rightarrow> ptr \<times> ptr \<times> ptr" where
  "links n = (rparent n, rleft n, rright n)"

definition same_links :: "rbmem \<Rightarrow> rbmem \<Rightarrow> ptr set \<Rightarrow> bool" where
  "same_links h h' A \<longleftrightarrow> (\<forall>a \<in> A. map_option links (h' a) = map_option links (h a))"

lemma same_links_subset: "same_links h h' B \<Longrightarrow> A \<subseteq> B \<Longrightarrow> same_links h h' A"
  by (auto simp: same_links_def)

lemma same_linksD: "same_links h h' A \<Longrightarrow> a \<in> A \<Longrightarrow> h a = Some n \<Longrightarrow> \<exists>m. h' a = Some m \<and> links m = links n"
  by (force simp: same_links_def)

lemma rep_cong: "rep h s p t \<Longrightarrow> same_links h h' (set_tree t) \<Longrightarrow> rep h' s p t"
proof (induction h s p t rule: rep.induct)
  case (2 h s p l a r)
  then obtain n where n: "h a = Some n" "rparent n = p" "rleft n = rtop s l" "rright n = rtop s r" by auto
  obtain m where "h' a = Some m" "links m = links n" using same_linksD [OF 2(4) _ n(1)] by auto
  moreover have "same_links h h' (set_tree l)" "same_links h h' (set_tree r)"
    by (rule same_links_subset [OF 2(4)]; auto)+
  ultimately show ?case using 2 n by (auto simp: links_def)
qed simp

lemma rep_path_cong: "rep_path h s q C \<Longrightarrow> same_links h h' (path_set C) \<Longrightarrow> rep_path h' s q C"
proof (induction h s q C rule: rep_path.induct)
  case (2 h s q lft a u C)
  then obtain n where n: "h a = Some n" "rparent n = up C"
    "if lft then rleft n = q \<and> rright n = rtop s u else rleft n = rtop s u \<and> rright n = q" by auto
  obtain m where m: "h' a = Some m" "links m = links n" using same_linksD [OF 2(3) _ n(1)] by auto
  have s: "same_links h h' (set_tree u)" "same_links h h' (path_set C)"
    by (rule same_links_subset [OF 2(3)]; auto)+
  have "rep h' s a u" using rep_cong s(1) 2(2) by auto
  moreover have "rep_path h' s a C" using 2(1) 2(2) s(2) by auto
  ultimately show ?case using m n by (auto simp: links_def split: if_split_asm)
qed simp

lemma rep_dom: "rep h s p t \<Longrightarrow> set_tree t \<subseteq> dom h"
  by (induction h s p t rule: rep.induct) auto

section \<open>A tree object\<close>

text \<open>
  \<open>rb t T\<close>: the memory of \<open>t\<close> holds the tree \<open>T\<close>, whose nodes are distinct and none of
  them the sentinel or \<^const>\<open>NULL\<close>. The sentinel is as \<open>ksiRBTreeInit\<close> left it.
\<close>

definition rb :: "rbtree \<Rightarrow> ptr tree \<Rightarrow> bool" where
  "rb t T \<longleftrightarrow> rep (rmem t) (rsentinel t) NULL T \<and> rroot t = rtop (rsentinel t) T \<and>
     distinct (inorder T) \<and> rsentinel t \<notin> set_tree T \<and> NULL \<notin> set_tree T \<and> rsentinel t \<noteq> NULL \<and>
     (\<exists>n. rmem t (rsentinel t) = Some n \<and> rbtree_is_black n \<and> rleft n = NULL \<and> rright n = NULL \<and> rkey n = - 1)"

text \<open>What the rotations leave alone.\<close>

definition payload_of :: "rbnode \<Rightarrow> int \<times> int32 \<times> uint64" where
  "payload_of n = (rkey n, rtype n, rdata n)"

definition keeps_payload :: "rbtree \<Rightarrow> rbtree \<Rightarrow> bool" where
  "keeps_payload t t' \<longleftrightarrow> rsentinel t' = rsentinel t \<and>
     (\<forall>a. map_option payload_of (rmem t' a) = map_option payload_of (rmem t a)) \<and>
     rmem t' (rsentinel t) = rmem t (rsentinel t)"

section \<open>Left rotation\<close>

lemma rep_reparent:
  assumes "rep h s p T" "T \<noteq> Leaf \<Longrightarrow> h' (rtop s T) = map_option (rparent_update (\<lambda>_. q)) (h (rtop s T))"
    "same_links h h' (set_tree T - {rtop s T})" "distinct (inorder T)"
  shows "rep h' s q T"
proof (cases T)
  case (Node l b r)
  then obtain n where n: "h b = Some n" "rleft n = rtop s l" "rright n = rtop s r" "rep h s b l" "rep h s b r"
    using assms(1) by auto
  have "b \<notin> set_tree l \<union> set_tree r" using assms(4) Node by auto
  then have "same_links h h' (set_tree l)" "same_links h h' (set_tree r)"
    by (auto intro!: same_links_subset [OF assms(3)] simp: Node)
  then show ?thesis using n assms(2) rep_cong Node by auto
qed simp

lemma same_linksI: "(\<And>a. a \<in> A \<Longrightarrow> h' a = h a) \<Longrightarrow> same_links h h' A"
  by (simp add: same_links_def)

text \<open>The hole's pointer in the frame above.\<close>

definition set_child :: "bool \<Rightarrow> ptr \<Rightarrow> rbnode \<Rightarrow> rbnode" where
  "set_child lft q n = (if lft then n\<lparr>rleft := q\<rparr> else n\<lparr>rright := q\<rparr>)"

lemma rep_path_hole:
  assumes "rep_path h s x ((lft, p, u) # C)" "h' p = map_option (set_child lft q) (h p)"
    "same_links h h' (set_tree u \<union> path_set C)"
  shows "rep_path h' s q ((lft, p, u) # C)"
proof -
  have u: "rep h' s p u" using rep_cong [of h s p u h'] assms(1,3) same_links_subset [OF assms(3)] by auto
  have "rep_path h' s p C" using rep_path_cong [of h s p C h'] assms(1) same_links_subset [OF assms(3)] by auto
  then show ?thesis using u assms(1,2) by (auto simp: set_child_def split: if_split_asm)
qed

text \<open>The memory after a left rotation at \<open>x\<close> with right child \<open>y\<close>.\<close>

definition left_mem :: "rbmem \<Rightarrow> ptr \<Rightarrow> path \<Rightarrow> ptr tree \<Rightarrow> ptr \<Rightarrow> ptr \<Rightarrow> rbmem" where
  "left_mem h s C B x y = (\<lambda>a.
     if a = x then map_option (\<lambda>n. n\<lparr>rright := rtop s B, rparent := y\<rparr>) (h a)
     else if a = y then map_option (\<lambda>n. n\<lparr>rparent := up C, rleft := x\<rparr>) (h a)
     else if B \<noteq> Leaf \<and> a = rtop s B then map_option (\<lambda>n. n\<lparr>rparent := x\<rparr>) (h a)
     else if C \<noteq> [] \<and> a = up C then map_option (set_child (fst (hd C)) y) (h a)
     else h a)"

lemma left_rotate_run:
  assumes "rb t (plug C (Node A x (Node B y D)))"
  shows "rbtree_left_rotate t x = Some (t\<lparr>rmem := left_mem (rmem t) (rsentinel t) C B x y,
      rroot := (if C = [] then y else rroot t)\<rparr>)"
proof -
  let ?h = "rmem t" and ?s = "rsentinel t"
  have r: "rep_path ?h ?s x C" "rep ?h ?s (up C) (Node A x (Node B y D))"
    and root: "rroot t = (if C = [] then x else fst (snd (last C)))"
    and d: "distinct (inorder (plug C (Node A x (Node B y D))))" and ns: "?s \<notin> set_tree (plug C (Node A x (Node B y D)))"
    using assms by (auto simp: rb_def rep_plug rtop_plug)
  obtain nx where x: "?h x = Some nx" "rparent nx = up C" "rright nx = y" using r(2) by auto
  obtain ny where y: "?h y = Some ny" "rleft ny = rtop ?s B" using r(2) by auto
  have xy: "x \<noteq> y" using d by (auto simp: inorder_plug)
  have B: "B = Leaf \<or> (\<exists>l b r nb. B = Node l b r \<and> ?h b = Some nb \<and> b \<noteq> ?s \<and> b \<noteq> x \<and> b \<noteq> y)"
    using r(2) d ns by (cases B) (auto simp: inorder_plug set_plug)
  have C: "C = [] \<or> (\<exists>lft p u C' np. C = (lft, p, u) # C' \<and> ?h p = Some np \<and> p \<noteq> x \<and> p \<noteq> y \<and>
      (B \<noteq> Leaf \<longrightarrow> p \<noteq> rtop ?s B) \<and> x \<noteq> rroot t \<and> (x = rleft np \<longleftrightarrow> lft))"
  proof (cases C)
    case (Cons f C')
    obtain lft p u where f: "f = (lft, p, u)" by (cases f)
    obtain np where p: "?h p = Some np" "if lft then rleft np = x else rleft np = rtop ?s u"
      using r(1) Cons f by (auto split: if_split_asm)
    have pC: "p \<in> path_set C" by (simp add: Cons f)
    have np: "x \<notin> path_set C" "y \<notin> path_set C" "B \<noteq> Leaf \<longrightarrow> rtop ?s B \<notin> path_set C"
      using d by (auto simp: inorder_plug path_set_lists rtop_def split: tree.split)
    have "rroot t \<in> path_set C" using Cons root last_path [of C] by simp
    then have xr: "x \<noteq> rroot t" using np(1) by auto
    have "rtop ?s u = ?s \<or> rtop ?s u \<in> path_set C" using Cons f by (cases u) auto
    moreover have "x \<noteq> ?s" using ns by (auto simp: set_plug)
    ultimately have "x = rleft np \<longleftrightarrow> lft" using p(2) np(1) by (cases lft) auto
    moreover have "p \<noteq> x" "p \<noteq> y" "B \<noteq> Leaf \<longrightarrow> p \<noteq> rtop ?s B" using np pC by auto
    ultimately show ?thesis using p(1) Cons f xr by blast
  qed simp
  show ?thesis
    using B
  proof (elim disjE exE conjE)
    assume B: "B = Leaf"
    show ?thesis using C
    proof (elim disjE exE conjE)
      assume "C = []"
      then show ?thesis using x y xy B root
        by (auto simp: rbtree_left_rotate_def rupd_def left_mem_def fun_eq_iff)
    next
      fix lft p u C' np assume c: "C = (lft, p, u) # C'" "?h p = Some np" "p \<noteq> x" "p \<noteq> y"
        "x \<noteq> rroot t" "x = rleft np \<longleftrightarrow> lft"
      then show ?thesis using x y xy B
        by (cases lft) (auto simp: rbtree_left_rotate_def rupd_def left_mem_def fun_eq_iff set_child_def)
    qed
  next
    fix l b r nb assume B: "B = Node l b r" "?h b = Some nb" "b \<noteq> ?s" "b \<noteq> x" "b \<noteq> y"
    show ?thesis using C
    proof (elim disjE exE conjE)
      assume "C = []"
      then show ?thesis using x y xy B root
        by (auto simp: rbtree_left_rotate_def rupd_def left_mem_def fun_eq_iff)
    next
      fix lft p u C' np assume c: "C = (lft, p, u) # C'" "?h p = Some np" "p \<noteq> x" "p \<noteq> y"
        "B \<noteq> Leaf \<longrightarrow> p \<noteq> rtop ?s B" "x \<noteq> rroot t" "x = rleft np \<longleftrightarrow> lft"
      then show ?thesis using x y xy B
        by (cases lft) (auto simp: rbtree_left_rotate_def rupd_def left_mem_def fun_eq_iff set_child_def)
    qed
  qed
qed

lemma left_mem_same: 
  "a \<noteq> x \<Longrightarrow> a \<noteq> y \<Longrightarrow> (B \<noteq> Leaf \<Longrightarrow> a \<noteq> rtop s B) \<Longrightarrow> (C \<noteq> [] \<Longrightarrow> a \<noteq> up C) \<Longrightarrow> left_mem h s C B x y a = h a"
  by (auto simp: left_mem_def)

lemma left_mem_rep:
  assumes r: "rep_path h s x C" "rep h s (up C) (Node A x (Node B y D))"
    and d: "distinct (inorder (plug C (Node A x (Node B y D))))"
    and ns: "s \<notin> set_tree (plug C (Node A x (Node B y D)))"
  shows "rep (left_mem h s C B x y) s NULL (plug C (Node (Node A x B) y D))"
proof -
  let ?h = "left_mem h s C B x y"
  have xy: "x \<noteq> y" using d by (auto simp: inorder_plug)
  have upC: "C \<noteq> [] \<Longrightarrow> up C \<in> path_set C" by (cases C rule: path_set.cases) auto
  have tB: "B \<noteq> Leaf \<Longrightarrow> rtop s B \<in> set_tree B" by (cases B) auto
  have sets: "x \<notin> set_tree A" "y \<notin> set_tree A" "x \<notin> set_tree D" "y \<notin> set_tree D" "x \<notin> set_tree B" "y \<notin> set_tree B"
    "x \<notin> path_set C" "y \<notin> path_set C" "set_tree A \<inter> set_tree B = {}" "set_tree D \<inter> set_tree B = {}"
    "set_tree A \<inter> path_set C = {}" "set_tree B \<inter> path_set C = {}" "set_tree D \<inter> path_set C = {}"
    "distinct (inorder B)"
    using d by (auto simp: inorder_plug path_set_lists)
  have same: "same_links h ?h S" if "x \<notin> S" "y \<notin> S" "S \<inter> set_tree B = {}" "C \<noteq> [] \<Longrightarrow> up C \<notin> S" for S
    using that tB by (intro same_linksI left_mem_same) auto
  have A: "rep ?h s x A"
    by (rule rep_cong [OF _ same]) (use r(2) sets upC in auto)
  have D: "rep ?h s y D"
    by (rule rep_cong [OF _ same]) (use r(2) sets upC in auto)
  have B: "rep ?h s x B"
  proof (rule rep_reparent)
    show "rep h s y B" using r(2) by simp
    show "?h (rtop s B) = map_option (rparent_update (\<lambda>_. x)) (h (rtop s B))" if "B \<noteq> Leaf"
      using tB [OF that] sets that by (auto simp: left_mem_def)
    show "same_links h ?h (set_tree B - {rtop s B})"
      using sets upC by (intro same_linksI left_mem_same) auto
  qed (rule sets)
  have path: "rep_path ?h s y C"
  proof (cases C)
    case (Cons f C')
    obtain lft p u where f: "f = (lft, p, u)" by (cases f)
    have p: "p \<noteq> x" "p \<noteq> y" "p \<notin> set_tree B" "p \<notin> set_tree u \<union> path_set C'"
      using sets d by (auto simp: Cons f inorder_plug path_set_lists split: if_split_asm)
    show ?thesis
      unfolding Cons f
    proof (rule rep_path_hole)
      show "rep_path h s x ((lft, p, u) # C')" using r(1) by (simp only: Cons f)
      show "left_mem h s ((lft, p, u) # C') B x y p = map_option (set_child lft y) (h p)"
        using p tB by (auto simp: left_mem_def)
      show "same_links h (left_mem h s ((lft, p, u) # C') B x y) (set_tree u \<union> path_set C')"
        unfolding f [symmetric] Cons [symmetric]
      proof (rule same)
        show "C \<noteq> [] \<Longrightarrow> up C \<notin> set_tree u \<union> path_set C'" using p(4) by (simp add: Cons f)
      qed (use sets(7,8,12) in \<open>auto simp: Cons f\<close>)
    qed
  qed simp
  obtain nx ny where "h x = Some nx" "h y = Some ny" "rleft nx = rtop s A" "rright ny = rtop s D"
    using r(2) by auto
  then show ?thesis using A B D path xy by (auto simp: rep_plug left_mem_def)
qed

lemma left_mem_payload: "map_option payload_of (left_mem h s C B x y a) = map_option payload_of (h a)"
  by (cases "h a"; cases "fst (hd C)") (auto simp: left_mem_def payload_of_def set_child_def)

lemma left_rotate:
  assumes "rb t (plug C (Node A x (Node B y D)))"
  obtains t' where "rbtree_left_rotate t x = Some t'" "rb t' (plug C (Node (Node A x B) y D))" "keeps_payload t t'"
proof -
  let ?s = "rsentinel t" and ?T = "plug C (Node A x (Node B y D))" and ?T' = "plug C (Node (Node A x B) y D)"
  define t' where "t' = t\<lparr>rmem := left_mem (rmem t) ?s C B x y, rroot := (if C = [] then y else rroot t)\<rparr>"
  have r: "rep_path (rmem t) ?s x C" "rep (rmem t) ?s (up C) (Node A x (Node B y D))"
    "distinct (inorder ?T)" "?s \<notin> set_tree ?T" "NULL \<notin> set_tree ?T"
    using assms by (auto simp: rb_def rep_plug)
  have eq: "inorder ?T' = inorder ?T" by (simp add: inorder_plug)
  have set: "set_tree ?T' = set_tree ?T" by (simp add: set_plug) blast
  have sen: "left_mem (rmem t) ?s C B x y ?s = rmem t ?s"
  proof (rule left_mem_same)
    show "C \<noteq> [] \<Longrightarrow> ?s \<noteq> up C" using r(4) up_path by (auto simp: set_plug)
    show "B \<noteq> Leaf \<Longrightarrow> ?s \<noteq> rtop ?s B" using r(4) by (cases B) (auto simp: set_plug)
  qed (use r(4) in \<open>auto simp: set_plug\<close>)
  have "rb t' ?T'"
    using assms left_mem_rep [OF r(1-4)] sen
    unfolding rb_def t'_def eq set by (simp add: rtop_plug)
  moreover have "keeps_payload t t'" by (simp add: keeps_payload_def t'_def left_mem_payload sen)
  ultimately show ?thesis using that left_rotate_run [OF assms] by (simp add: t'_def)
qed

section \<open>The mirror image\<close>

definition flip :: "rbnode \<Rightarrow> rbnode" where
  "flip n = n\<lparr>rleft := rright n, rright := rleft n\<rparr>"

definition flip_tree :: "rbtree \<Rightarrow> rbtree" where
  "flip_tree t = t\<lparr>rmem := (\<lambda>a. map_option flip (rmem t a))\<rparr>"

lemma flip_simps [simp]:
  "rleft (flip n) = rright n" "rright (flip n) = rleft n" "rparent (flip n) = rparent n"
  "rkey (flip n) = rkey n" "rtype (flip n) = rtype n" "rdata (flip n) = rdata n" "flip (flip n) = n"
  by (simp_all add: flip_def)

lemma flip_tree_simps [simp]:
  "rmem (flip_tree t) a = map_option flip (rmem t a)" "rroot (flip_tree t) = rroot t"
  "rsentinel (flip_tree t) = rsentinel t" "flip_tree (flip_tree t) = t"
  by (simp_all add: flip_tree_def option.map_comp comp_def option.map_ident)

lemma rupd_flip:
  assumes "\<And>n. f (flip n) = flip (g n)"
  shows "rupd p f (flip_tree t) = map_option flip_tree (rupd p g t)"
  using assms by (cases "rmem t p") (auto simp: rupd_def flip_tree_def fun_eq_iff)

text \<open>Running the mirrored code on the mirrored tree, statement by statement.\<close>

lemma flip_bind:
  "m = map_option flip_tree k \<Longrightarrow> (\<And>t. f (flip_tree t) = map_option F (g t)) \<Longrightarrow>
   Option.bind m f = map_option F (Option.bind k g)"
  by (cases k) auto

lemma flip_read:
  "a = b \<Longrightarrow> (\<And>n. f (flip n) = map_option F (g n)) \<Longrightarrow>
   Option.bind (rmem (flip_tree t) a) f = map_option F (Option.bind (rmem t b) g)"
  by (cases "rmem t b") auto

lemma flip_if:
  "P = Q \<Longrightarrow> m = map_option F k \<Longrightarrow> m' = map_option F k' \<Longrightarrow>
   (if P then m else m') = map_option F (if Q then k else k')"
  by simp

lemma flip_if_not:
  "P = (\<not> Q) \<Longrightarrow> m = map_option F k \<Longrightarrow> m' = map_option F k' \<Longrightarrow>
   (if P then m else m') = map_option F (if Q then k' else k)"
  by simp

lemma flip_write:
  "p = p' \<Longrightarrow> q = q' \<Longrightarrow>
     rupd p (rleft_update (\<lambda>_. q)) (flip_tree t) = map_option flip_tree (rupd p' (rright_update (\<lambda>_. q')) t)"
  "p = p' \<Longrightarrow> q = q' \<Longrightarrow>
     rupd p (rright_update (\<lambda>_. q)) (flip_tree t) = map_option flip_tree (rupd p' (rleft_update (\<lambda>_. q')) t)"
  "p = p' \<Longrightarrow> q = q' \<Longrightarrow>
     rupd p (rparent_update (\<lambda>_. q)) (flip_tree t) = map_option flip_tree (rupd p' (rparent_update (\<lambda>_. q')) t)"
  by (simp, rule rupd_flip, simp add: flip_def)+

lemma flip_some:
  "Some (flip_tree t) = map_option flip_tree (Some t)"
  "q = q' \<Longrightarrow> Some (flip_tree t\<lparr>rroot := q\<rparr>) = map_option flip_tree (Some (t\<lparr>rroot := q'\<rparr>))"
  by (simp_all add: flip_tree_def)

lemma right_rotate_flip: "rbtree_right_rotate (flip_tree t) x = map_option flip_tree (rbtree_left_rotate t x)"
  unfolding rbtree_right_rotate_def rbtree_left_rotate_def Let_def
  by (rule flip_read flip_bind flip_if flip_write flip_some | simp only: flip_simps flip_tree_simps)+

end
