(* ===== verification/Rbtree_Bal.thy ===== *)
theory Rbtree_Bal
  imports Rbtree_Rep
begin

text \<open>
  Colours and the red-black invariants of a tree in memory, recolouring, and the two kinds
  of turn of the re-balancing loop of \<^verbatim>\<open>rbtree_insert\<close>.
\<close>

section \<open>Mirror images\<close>

fun mirror_path :: "path \<Rightarrow> path" where
  "mirror_path [] = []"
| "mirror_path ((lft, a, u) # C) = (\<not> lft, a, mirror u) # mirror_path C"

lemma mirror_plug: "mirror (plug C t) = plug (mirror_path C) (mirror t)"
  by (induction C t rule: plug.induct) auto

lemma rtop_mirror [simp]: "rtop s (mirror t) = rtop s t"
  by (cases t) auto

lemma rep_mirror: "rep h s p t \<Longrightarrow> rep (\<lambda>a. map_option flip (h a)) s p (mirror t)"
  by (induction h s p t rule: rep.induct) auto

lemma set_mirror [simp]: "set_tree (mirror t) = set_tree t"
  by (induction t) auto

lemma rb_mirror: "rb t T \<Longrightarrow> rb (flip_tree t) (mirror T)"
  by (auto simp: rb_def inorder_mirror rep_mirror flip_tree_def rbtree_is_black_def)

lemma rb_mirror_iff: "rb (flip_tree t) T \<longleftrightarrow> rb t (mirror T)"
  using rb_mirror [of t "mirror T"] rb_mirror [of "flip_tree t" T] by auto

section \<open>Colours\<close>

definition reds :: "rbtree \<Rightarrow> ptr set" where
  "reds t = {a. \<exists>n. rmem t a = Some n \<and> rbtree_is_red n}"

text \<open>What insertion keeps: the sentinel, the set of nodes, their keys and their data.\<close>

definition keeps_nodes :: "rbtree \<Rightarrow> rbtree \<Rightarrow> bool" where
  "keeps_nodes t t' \<longleftrightarrow> rsentinel t' = rsentinel t \<and>
     (\<forall>a. map_option (\<lambda>n. (rkey n, rdata n)) (rmem t' a) = map_option (\<lambda>n. (rkey n, rdata n)) (rmem t a)) \<and>
     rmem t' (rsentinel t) = rmem t (rsentinel t)"

lemma keeps_nodes_refl [simp]: "keeps_nodes t t"
  by (simp add: keeps_nodes_def)

lemma keeps_nodes_trans [trans]: "keeps_nodes t t' \<Longrightarrow> keeps_nodes t' t'' \<Longrightarrow> keeps_nodes t t''"
  by (simp add: keeps_nodes_def)

lemma keeps_payload_keeps: "keeps_payload t t' \<Longrightarrow> keeps_nodes t t'"
proof -
  assume k: "keeps_payload t t'"
  have "map_option (\<lambda>n. (rkey n, rdata n)) m = map_option (\<lambda>(k, c, d). (k, d)) (map_option payload_of m)" for m
    by (cases m) (auto simp: payload_of_def)
  then show ?thesis using k by (simp add: keeps_nodes_def keeps_payload_def)
qed

lemma keeps_payload_reds: "keeps_payload t t' \<Longrightarrow> reds t' = reds t"
proof -
  assume k: "keeps_payload t t'"
  have "a \<in> reds u \<longleftrightarrow>
      map_option (\<lambda>(k, c, d). c AND RB_COLORMASK = 0) (map_option payload_of (rmem u a)) = Some True" for a u
    by (cases "rmem u a") (auto simp: reds_def payload_of_def rbtree_is_red_def rbtree_is_black_def)
  then show ?thesis using k unfolding keeps_payload_def set_eq_iff by metis
qed

lemma reds_flip [simp]: "reds (flip_tree t) = reds t"
  by (auto simp: reds_def flip_tree_def rbtree_is_red_def rbtree_is_black_def split: option.splits)

lemma keeps_nodes_flip [simp]: "keeps_nodes (flip_tree t) (flip_tree t') = keeps_nodes t t'"
proof -
  have e: "map_option (\<lambda>n. (rkey n, rdata n)) (map_option flip m) = map_option (\<lambda>n. (rkey n, rdata n)) m" for m
    by (cases m) auto
  have "map_option flip m = map_option flip k \<longleftrightarrow> m = k" for m k
    by (cases m; cases k) (simp_all, metis flip_simps(7))
  then show ?thesis by (simp add: keeps_nodes_def e)
qed

lemma is_red_black [simp]: "\<not> rbtree_is_red (rbtree_black n)" "rbtree_is_red (rbtree_red n)"
proof -
  have b: "bit (1::int32) i \<longleftrightarrow> i = 0" for i by (simp add: bit_1_iff)
  have "(w OR 1) AND 1 = (1::int32)" for w :: int32
    by (rule bit_word_eqI) (auto simp: bit_simps b)
  moreover have "(w AND NOT 1) AND 1 = (0::int32)" for w :: int32
    by (rule bit_word_eqI) (auto simp: bit_simps b)
  ultimately show "\<not> rbtree_is_red (rbtree_black n)" "rbtree_is_red (rbtree_red n)"
    by (simp_all add: rbtree_is_red_def rbtree_is_black_def rbtree_red_def rbtree_black_def RB_COLORMASK_def)
qed

lemma links_paint [simp]: "links (rbtree_black n) = links n" "links (rbtree_red n) = links n"
  "rkey (rbtree_black n) = rkey n" "rkey (rbtree_red n) = rkey n"
  "rdata (rbtree_black n) = rdata n" "rdata (rbtree_red n) = rdata n"
  by (simp_all add: rbtree_red_def rbtree_black_def links_def)

lemma links_fields: "links m = links n \<Longrightarrow> rparent m = rparent n \<and> rleft m = rleft n \<and> rright m = rright n"
  by (simp add: links_def)

lemma rb_recolour:
  assumes "rb t T" "a \<in> set_tree T" "\<And>n. links (f n) = links n"
    "\<And>n. rkey (f n) = rkey n \<and> rdata (f n) = rdata n"
  shows "\<exists>t'. rupd a f t = Some t' \<and> rb t' T \<and> keeps_nodes t t' \<and> rroot t' = rroot t \<and>
     (\<forall>b. map_option links (rmem t' b) = map_option links (rmem t b)) \<and>
     reds t' = (if \<exists>n. rmem t a = Some n \<and> rbtree_is_red (f n) then insert a (reds t) else reds t - {a})"
proof -
  have "a \<in> dom (rmem t)" using assms by (auto simp: rb_def dest!: rep_dom)
  then obtain n where n: "rmem t a = Some n" by auto
  define t' where "t' = t\<lparr>rmem := (rmem t)(a \<mapsto> f n)\<rparr>"
  have a: "a \<noteq> rsentinel t" using assms(1,2) by (auto simp: rb_def)
  have "rep (rmem t') (rsentinel t) NULL T"
    by (rule rep_cong [of "rmem t"]) (use assms(1,3) n in \<open>auto simp: rb_def t'_def same_links_def\<close>)
  then have "rb t' T" using assms(1) a by (auto simp: rb_def t'_def)
  moreover have "keeps_nodes t t'" using a n assms(4) by (auto simp: keeps_nodes_def t'_def)
  moreover have "reds t' = (if rbtree_is_red (f n) then insert a (reds t) else reds t - {a})"
    by (auto simp: reds_def t'_def)
  ultimately show ?thesis using n assms(3) by (simp add: rupd_def t'_def)
qed

lemma blacken:
  assumes "rb t T" "a \<in> set_tree T"
  obtains t' where "rupd a rbtree_black t = Some t'" "rb t' T" "keeps_nodes t t'" "rroot t' = rroot t"
    "\<And>b. map_option links (rmem t' b) = map_option links (rmem t b)" "reds t' = reds t - {a}"
  using rb_recolour [OF assms, of rbtree_black] by (auto simp del: not_None_eq)

lemma redden:
  assumes "rb t T" "a \<in> set_tree T"
  obtains t' where "rupd a rbtree_red t = Some t'" "rb t' T" "keeps_nodes t t'" "rroot t' = rroot t"
    "\<And>b. map_option links (rmem t' b) = map_option links (rmem t b)" "reds t' = insert a (reds t)"
proof -
  have "a \<in> dom (rmem t)" using assms by (auto simp: rb_def dest!: rep_dom)
  then show ?thesis using that rb_recolour [OF assms, of rbtree_red] by auto
qed

section \<open>The red-black invariants\<close>

fun bh :: "ptr set \<Rightarrow> ptr tree \<Rightarrow> nat" where
  "bh R Leaf = 0"
| "bh R (Node l a r) = bh R l + (if a \<in> R then 0 else 1)"

definition redtop :: "ptr set \<Rightarrow> ptr tree \<Rightarrow> bool" where
  "redtop R t = (case t of Leaf \<Rightarrow> False | Node l a r \<Rightarrow> a \<in> R)"

lemma redtop_simps [simp]: "\<not> redtop R Leaf" "redtop R (Node l a r) \<longleftrightarrow> a \<in> R"
  by (simp_all add: redtop_def)

fun okh :: "ptr set \<Rightarrow> ptr tree \<Rightarrow> bool" where
  "okh R Leaf = True"
| "okh R (Node l a r) = (bh R l = bh R r \<and> okh R l \<and> okh R r)"

fun okc :: "ptr set \<Rightarrow> ptr tree \<Rightarrow> bool" where
  "okc R Leaf = True"
| "okc R (Node l a r) = ((a \<in> R \<longrightarrow> \<not> redtop R l \<and> \<not> redtop R r) \<and> okc R l \<and> okc R r)"

fun okhp :: "ptr set \<Rightarrow> nat \<Rightarrow> path \<Rightarrow> bool" where
  "okhp R b [] = True"
| "okhp R b ((lft, a, u) # C) = (okh R u \<and> bh R u = b \<and> okhp R (b + (if a \<in> R then 0 else 1)) C)"

fun okcp :: "ptr set \<Rightarrow> bool \<Rightarrow> path \<Rightarrow> bool" where
  "okcp R red [] = True"
| "okcp R red ((lft, a, u) # C) = (okc R u \<and> (a \<in> R \<longrightarrow> \<not> redtop R u \<and> \<not> red) \<and> okcp R (a \<in> R) C)"

lemma bh_ok: "okh R t \<Longrightarrow> bh R (mirror t) = bh R t"
  by (induction t) auto

lemma okh_mirror: "okh R t \<Longrightarrow> okh R (mirror t)"
  by (induction t) (auto simp: bh_ok)

lemma redtop_mirror [simp]: "redtop R (mirror t) = redtop R t"
  by (cases t) auto

lemma okc_mirror [simp]: "okc R (mirror t) = okc R t"
  by (induction t) auto

lemma okh_plug: "okh R (plug C t) \<longleftrightarrow> okh R t \<and> okhp R (bh R t) C"
proof (induction C t rule: plug.induct)
  case (2 lft a u C t)
  then show ?case by (cases lft) auto
qed simp

lemma okc_plug: "okc R (plug C t) \<longleftrightarrow> okc R t \<and> okcp R (redtop R t) C"
proof (induction C t rule: plug.induct)
  case (2 lft a u C t)
  then show ?case by (cases lft) auto
qed simp

text \<open>Only the colours of the tree's own nodes count.\<close>

definition same_col :: "ptr set \<Rightarrow> ptr set \<Rightarrow> ptr set \<Rightarrow> bool" where
  "same_col R S A \<longleftrightarrow> (\<forall>a \<in> A. a \<in> R \<longleftrightarrow> a \<in> S)"

lemma same_col_simps [simp]:
  "same_col R S (insert a A) \<longleftrightarrow> (a \<in> R \<longleftrightarrow> a \<in> S) \<and> same_col R S A"
  "same_col R S (A \<union> B) \<longleftrightarrow> same_col R S A \<and> same_col R S B"
  "same_col R S {}"
  by (auto simp: same_col_def)

lemma redtop_cong: "same_col R S (set_tree t) \<Longrightarrow> redtop R t = redtop S t"
  by (cases t) auto

lemma bh_cong: "same_col R S (set_tree t) \<Longrightarrow> bh R t = bh S t"
  by (induction t) auto

lemma okh_cong: "same_col R S (set_tree t) \<Longrightarrow> okh R t = okh S t"
  by (induction t) (auto simp: bh_cong [of R S])

lemma okc_cong: "same_col R S (set_tree t) \<Longrightarrow> okc R t = okc S t"
  by (induction t) (auto simp: redtop_cong [of R S])

lemma okhp_cong: "same_col R S (path_set C) \<Longrightarrow> okhp R b C = okhp S b C"
proof (induction C arbitrary: b)
  case (Cons f C)
  then show ?case by (cases f) (auto simp: bh_cong [of R S] okh_cong [of R S])
qed simp

lemma okcp_cong: "same_col R S (path_set C) \<Longrightarrow> okcp R d C = okcp S d C"
proof (induction C arbitrary: d)
  case (Cons f C)
  then show ?case by (cases f) (auto simp: redtop_cong [of R S] okc_cong [of R S])
qed simp

lemmas col_congs = redtop_cong bh_cong okh_cong okc_cong okhp_cong okcp_cong

section \<open>Rotations of a tree in memory\<close>

lemma left_rotated:
  assumes "rb t (plug C (Node A x (Node B y D)))"
  shows "\<exists>t'. rbtree_left_rotate t x = Some t' \<and> rb t' (plug C (Node (Node A x B) y D)) \<and> keeps_nodes t t' \<and> reds t' = reds t"
  using assms by (rule left_rotate) (use keeps_payload_keeps keeps_payload_reds in blast)

lemma left_rotate_flip: "rbtree_left_rotate (flip_tree t) x = map_option flip_tree (rbtree_right_rotate t x)"
  using right_rotate_flip [of "flip_tree t" x]
  by (simp add: option.map_comp comp_def option.map_ident)

lemma right_rotated:
  assumes "rb t (plug C (Node (Node A x B) y D))"
  shows "\<exists>t'. rbtree_right_rotate t y = Some t' \<and> rb t' (plug C (Node A x (Node B y D))) \<and> keeps_nodes t t' \<and> reds t' = reds t"
proof -
  have "rb (flip_tree t) (plug (mirror_path C) (Node (mirror D) y (Node (mirror B) x (mirror A))))"
    using rb_mirror [OF assms] by (simp add: mirror_plug)
  then obtain t' where t': "rbtree_left_rotate (flip_tree t) y = Some t'"
    "rb t' (plug (mirror_path C) (Node (Node (mirror D) y (mirror B)) x (mirror A)))" "keeps_nodes (flip_tree t) t'" "reds t' = reds t"
    using left_rotated by fastforce
  then have "rbtree_right_rotate t y = Some (flip_tree t')"
    using right_rotate_flip [of "flip_tree t" y] by simp
  moreover have "rb (flip_tree t') (plug C (Node A x (Node B y D)))"
    using t'(2) unfolding rb_mirror_iff by (simp add: mirror_plug)
  ultimately show ?thesis using t'(3,4) keeps_nodes_flip [of "flip_tree t" t'] by auto
qed

section \<open>One turn of the loop\<close>

lemma flip_bind_pair:
  "m = map_option (map_prod id flip_tree) k \<Longrightarrow> (\<And>a t. f (a, flip_tree t) = map_option F (g (a, t))) \<Longrightarrow>
   Option.bind m f = map_option F (Option.bind k g)"
  by (cases k) auto

lemma flip_read_par:
  "(\<And>a. f a = map_option F (g a)) \<Longrightarrow> Option.bind (rb_parent (flip_tree t) p) f = map_option F (Option.bind (rb_parent t p) g)"
  by (cases "rmem t p") (auto simp: rb_parent_def)

lemma flip_read_red:
  "p = q \<Longrightarrow> (\<And>a. f a = map_option F (g a)) \<Longrightarrow> Option.bind (rb_red (flip_tree t) p) f = map_option F (Option.bind (rb_red t q) g)"
  by (cases "rmem t q") (auto simp: rb_red_def rbtree_is_red_def rbtree_is_black_def)

lemma flip_paint:
  "p = q \<Longrightarrow> rupd p rbtree_black (flip_tree t) = map_option flip_tree (rupd q rbtree_black t)"
  "p = q \<Longrightarrow> rupd p rbtree_red (flip_tree t) = map_option flip_tree (rupd q rbtree_red t)"
  by (simp, rule rupd_flip, simp add: flip_def rbtree_black_def rbtree_red_def)+

lemma flip_some_pair: "Some (a, flip_tree t) = map_option (map_prod id flip_tree) (Some (a, t))"
  by simp

lemmas flip_rules = flip_read flip_read_par flip_read_red flip_bind_pair flip_bind flip_if
  flip_paint flip_some flip_some_pair right_rotate_flip left_rotate_flip

lemma rebalance_step_flip:
  assumes "rb_parent t x = Some p" "rb_parent t p = Some g" "rmem t g = Some ng"
    "rleft ng \<noteq> rright ng" "p = rleft ng \<or> p = rright ng"
  shows "rebalance_step (flip_tree t) x = map_option (map_prod id flip_tree) (rebalance_step t x)"
proof -
  have e: "p = rleft (flip ng) \<longleftrightarrow> \<not> p = rleft ng" using assms(4,5) by auto
  have r: "rb_parent (flip_tree t) x = Some p" "rb_parent (flip_tree t) p = Some g" "rmem (flip_tree t) g = Some (flip ng)"
    using assms(1-3) by (auto simp: rb_parent_def)
  show ?thesis
    unfolding rebalance_step_def assms(1-3) r Option.bind.simps
    by (rule flip_if_not, rule e) (rule flip_rules | simp only: flip_simps flip_tree_simps split_conv)+
qed

text \<open>The nodes around the one to repair.\<close>

lemma family:
  assumes "rb t (plug ((d1, p, u1) # (d2, g, u2) # C) (Node l x r))"
  obtains nx np ng where "rmem t x = Some nx" "rmem t p = Some np" "rmem t g = Some ng"
    "rparent nx = p" "rparent np = g" "if d1 then rleft np = x \<and> rright np \<noteq> x else rright np = x \<and> rleft np \<noteq> x"
    "if d2 then rleft ng = p \<and> rright ng = rtop (rsentinel t) u2 else rright ng = p \<and> rleft ng = rtop (rsentinel t) u2"
    "rtop (rsentinel t) u2 \<noteq> p"
proof -
  let ?s = "rsentinel t"
  have r: "rep_path (rmem t) ?s x ((d1, p, u1) # (d2, g, u2) # C)" "rep (rmem t) ?s p (Node l x r)"
    and d: "distinct (inorder (plug ((d1, p, u1) # (d2, g, u2) # C) (Node l x r)))"
    and s: "?s \<notin> {x, p}"
    using assms by (auto simp: rb_def rep_plug set_plug simp del: plug.simps)
  have "rtop ?s u1 \<noteq> x" using d s by (cases u1; cases d1; cases d2) (auto simp: inorder_plug)
  moreover have "rtop ?s u2 \<noteq> p" using d s by (cases u2; cases d1; cases d2) (auto simp: inorder_plug)
  ultimately show ?thesis using r that by (auto split: if_split_asm)
qed

lemma rtop_mem: "redtop R u \<Longrightarrow> rtop s u \<in> set_tree u"
  by (cases u) auto

lemma red_top:
  assumes "rb t (plug C N)" "(d, a, u) \<in> set C"
  shows "rb_red t (rtop (rsentinel t) u) = Some (redtop (reds t) u)"
proof (cases u)
  case Leaf
  then show ?thesis using assms(1) by (auto simp: rb_def rb_red_def rbtree_is_red_def)
next
  case (Node l b r)
  have "set_tree u \<subseteq> path_set C" using assms(2) by (induction C rule: path_set.induct) auto
  then have "b \<in> dom (rmem t)" using assms(1) Node by (auto simp: rb_def set_plug dest!: rep_dom)
  then show ?thesis using Node by (auto simp: rb_red_def reds_def)
qed

lemma links_eq:
  assumes "\<And>b. map_option links (rmem t' b) = map_option links (rmem t b)" "rmem t b = Some n"
  shows "\<exists>m. rmem t' b = Some m \<and> rparent m = rparent n \<and> rleft m = rleft n \<and> rright m = rright n"
proof -
  have "map_option links (rmem t' b) = Some (links n)" using assms(1) [of b] assms(2) by simp
  then show ?thesis by (cases "rmem t' b") (auto simp: links_def)
qed

lemma recolour_turn:
  assumes rb: "rb t (plug ((d1, p, u1) # (d2, g, u2) # C) (Node l x r))" and u: "redtop (reds t) u2"
  shows "\<exists>t'. rebalance_step t x = Some (g, t') \<and> rb t' (plug ((d1, p, u1) # (d2, g, u2) # C) (Node l x r)) \<and>
     keeps_nodes t t' \<and> reds t' = insert g (reds t - {p} - {rtop (rsentinel t) u2})"
proof -
  let ?T = "plug ((d1, p, u1) # (d2, g, u2) # C) (Node l x r)" and ?u = "rtop (rsentinel t) u2"
  obtain nx np ng where f: "rmem t x = Some nx" "rmem t p = Some np" "rmem t g = Some ng"
    "rparent nx = p" "rparent np = g" "if d1 then rleft np = x \<and> rright np \<noteq> x else rright np = x \<and> rleft np \<noteq> x"
    "if d2 then rleft ng = p \<and> rright ng = ?u else rright ng = p \<and> rleft ng = ?u" "?u \<noteq> p"
    by (rule family [OF rb])
  have mem: "p \<in> set_tree ?T" "?u \<in> set_tree ?T" "g \<in> set_tree ?T"
    using rtop_mem [OF u] by (auto simp: set_plug simp del: plug.simps)
  have red: "rb_red t ?u = Some True" using red_top [OF rb, of d2 g u2] u by simp
  obtain t1 where 1: "rupd p rbtree_black t = Some t1" "rb t1 ?T" "keeps_nodes t t1" "reds t1 = reds t - {p}"
    using blacken [OF rb mem(1)] by metis
  obtain t2 where 2: "rupd ?u rbtree_black t1 = Some t2" "rb t2 ?T" "keeps_nodes t1 t2" "reds t2 = reds t1 - {?u}"
    using blacken [OF 1(2) mem(2)] by metis
  obtain t3 where 3: "rupd g rbtree_red t2 = Some t3" "rb t3 ?T" "keeps_nodes t2 t3" "reds t3 = insert g (reds t2)"
    using redden [OF 2(2) mem(3)] by metis
  have "rebalance_step t x = Some (g, t3)"
    using f red 1(1) 2(1) 3(1) by (cases d2) (simp_all add: rebalance_step_def rb_parent_def)
  moreover have "keeps_nodes t t3" by (rule keeps_nodes_trans [OF 1(3) keeps_nodes_trans [OF 2(3) 3(3)]])
  ultimately show ?thesis using 1(4) 2(4) 3(2,4) by simp
qed

text \<open>The rotating turn under the left child of the grandparent.\<close>

lemma rotate_turn_left:
  assumes rb: "rb t (plug ((d1, p, u1) # (True, g, u2) # C) (Node l x r))" and u: "\<not> redtop (reds t) u2"
  shows "\<exists>t' q m A D. rebalance_step t x = Some (q, t') \<and> rb t' (plug C (Node A m (Node D g u2))) \<and>
     keeps_nodes t t' \<and> reds t' = insert g (reds t - {m}) \<and> rtop NULL A = q \<and>
     (if d1 then A = Node l x r \<and> m = p \<and> D = u1 else A = Node u1 p l \<and> m = x \<and> D = r)"
proof -
  obtain nx np ng where f: "rmem t x = Some nx" "rmem t p = Some np" "rmem t g = Some ng"
    "rparent nx = p" "rparent np = g" "if d1 then rleft np = x \<and> rright np \<noteq> x else rright np = x \<and> rleft np \<noteq> x"
    "if True then rleft ng = p \<and> rright ng = rtop (rsentinel t) u2 else rright ng = p \<and> rleft ng = rtop (rsentinel t) u2"
    "rtop (rsentinel t) u2 \<noteq> p"
    by (rule family [OF rb])
  have red: "rb_red t (rtop (rsentinel t) u2) = Some False" using red_top [OF rb, of True g u2] u by simp
  define m where "m = (if d1 then p else x)"
  define q where "q = (if d1 then x else p)"
  define A where "A = (if d1 then Node l x r else Node u1 p l)"
  define D where "D = (if d1 then u1 else r)"
  obtain t1 where 1: "(if x = rright np then do { t \<leftarrow> rbtree_left_rotate t p; Some (p, t) } else Some (x, t)) = Some (q, t1)"
    "rb t1 (plug ((True, g, u2) # C) (Node A m D))" "keeps_nodes t t1" "reds t1 = reds t"
  proof (cases d1)
    case True
    then show ?thesis using that [of t] f(6) rb by (simp add: q_def A_def m_def D_def)
  next
    case False
    then have "rb t (plug ((True, g, u2) # C) (Node u1 p (Node l x r)))" using rb by simp
    then obtain t' where "rbtree_left_rotate t p = Some t'" "rb t' (plug ((True, g, u2) # C) (Node (Node u1 p l) x r))"
      "keeps_nodes t t'" "reds t' = reds t"
      using left_rotated by blast
    then show ?thesis using that [of t'] f(6) False by (simp add: q_def A_def m_def D_def)
  qed
  have tq: "rtop NULL A = q" by (simp add: A_def q_def)
  let ?T = "plug ((True, g, u2) # C) (Node A m D)"
  have q: "\<exists>n. rmem t1 q = Some n \<and> rparent n = m" "\<exists>n. rmem t1 m = Some n \<and> rparent n = g"
    using 1(2) by (cases d1; simp add: rb_def rep_plug A_def q_def; blast)+
  have mem: "m \<in> set_tree ?T" "g \<in> set_tree ?T" by (auto simp: set_plug simp del: plug.simps)
  obtain t2 where 2: "rupd m rbtree_black t1 = Some t2" "rb t2 ?T" "keeps_nodes t1 t2" "reds t2 = reds t1 - {m}"
    "\<And>b. map_option links (rmem t2 b) = map_option links (rmem t1 b)"
    using blacken [OF 1(2) mem(1)] by metis
  have m2: "\<exists>n. rmem t2 m = Some n \<and> rparent n = g" using q(2) links_eq [OF 2(5)] by metis
  obtain t3 where 3: "rupd g rbtree_red t2 = Some t3" "rb t3 ?T" "keeps_nodes t2 t3" "reds t3 = insert g (reds t2)"
    using redden [OF 2(2) mem(2)] by metis
  obtain t4 where 4: "rbtree_right_rotate t3 g = Some t4" "rb t4 (plug C (Node A m (Node D g u2)))" "keeps_nodes t3 t4" "reds t4 = reds t3"
    using right_rotated [of t3 C A m D g u2] 3(2) by auto
  have "rebalance_step t x = Some (q, t4)"
    using f red 1(1) q m2 2(1) 3(1) 4(1) by (auto simp: rebalance_step_def rb_parent_def simp del: bind_split)
  moreover have "keeps_nodes t t4" by (rule keeps_nodes_trans [OF 1(3) keeps_nodes_trans [OF 2(3) keeps_nodes_trans [OF 3(3) 4(3)]]])
  moreover have "reds t4 = insert g (reds t - {m})" using 1(4) 2(4) 3(4) 4(4) by simp
  moreover have "if d1 then A = Node l x r \<and> m = p \<and> D = u1 else A = Node u1 p l \<and> m = x \<and> D = r"
    by (simp add: A_def m_def D_def)
  ultimately show ?thesis using 4(2) tq by blast
qed

end
