(* ===== verification/Rbtree_Insert.thy ===== *)
theory Rbtree_Insert
  imports Rbtree_Bal
begin

text \<open>
  The re-balancing loop of \<^verbatim>\<open>rbtree_insert\<close> ends with a red-black tree of the
  same nodes in the same order, and insertion adds one node at its place.
\<close>

lemma rb_dom: "rb t T \<Longrightarrow> a \<in> set_tree T \<Longrightarrow> \<exists>n. rmem t a = Some n"
  using rep_dom [of "rmem t" "rsentinel t" NULL T] by (auto simp: rb_def)

lemma rb_root: "rb t T \<Longrightarrow> T \<noteq> Leaf \<Longrightarrow> rroot t = rtop NULL T \<and> rroot t \<in> set_tree T"
  by (cases T) (auto simp: rb_def)

section \<open>What a turn does to the invariants\<close>

lemma okcp_mirror [simp]: "okcp R d (mirror_path C) = okcp R d C"
  by (induction R d C rule: okcp.induct) auto

lemma okh_mirror_iff [simp]: "okh R (mirror t) = okh R t"
  using okh_mirror [of R t] okh_mirror [of R "mirror t"] by auto

lemma same_colI: "(\<And>a. a \<in> A \<Longrightarrow> a \<noteq> g \<and> a \<noteq> m) \<Longrightarrow> same_col (insert g (R - {m})) R A"
  by (auto simp: same_col_def)

lemma same_colI3: "(\<And>a. a \<in> A \<Longrightarrow> a \<noteq> g \<and> a \<noteq> m \<and> a \<noteq> k) \<Longrightarrow> same_col (insert g (R - {m} - {k})) R A"
  by (auto simp: same_col_def)

lemma recolour_ok:
  assumes d: "distinct (inorder (plug ((d1, p, u1) # (d2, g, u2) # C) (Node l x r)))"
    and h: "okh R (plug ((d1, p, u1) # (d2, g, u2) # C) (Node l x r))"
    and c: "okc R (Node l x r)" "okcp R False ((d1, p, u1) # (d2, g, u2) # C)"
    and R: "x \<in> R" "p \<in> R" "g \<notin> R" "redtop R u2"
    and R': "R' = insert g (R - {p} - {rtop s u2})"
  shows "okh R' (plug ((d1, p, u1) # (d2, g, u2) # C) (Node l x r))"
    "okc R' (plug [(d1, p, u1), (d2, g, u2)] (Node l x r))" "okcp R' False C"
proof -
  obtain ul v ur where u: "u2 = Node ul v ur" "v \<in> R" using R(4) by (cases u2) auto
  have R'': "R' = insert g (R - {p} - {v})" by (simp add: R' u)
  have sets: "same_col R' R (set_tree l)" "same_col R' R (set_tree r)" "same_col R' R (set_tree u1)"
    "same_col R' R (set_tree ul)" "same_col R' R (set_tree ur)" "same_col R' R (path_set C)"
    unfolding R'' by (intro same_colI3; use d in \<open>auto simp: inorder_plug path_set_lists u split: if_split_asm\<close>)+
  have n: "x \<in> R'" "p \<notin> R'" "v \<notin> R'" "g \<in> R'"
    using d R u by (auto simp: R'' inorder_plug split: if_split_asm)
  note co = sets(1-5) [THEN redtop_cong] sets(1-5) [THEN bh_cong] sets(1-5) [THEN okh_cong] sets(1-5) [THEN okc_cong]
    sets(6) [THEN okhp_cong] sets(6) [THEN okcp_cong]
  show "okh R' (plug ((d1, p, u1) # (d2, g, u2) # C) (Node l x r))"
    using h R n u by (cases d1; cases d2) (auto simp: okh_plug co)
  show "okc R' (plug [(d1, p, u1), (d2, g, u2)] (Node l x r))"
    using c R n u by (cases d1; cases d2) (auto simp: co)
  show "okcp R' False C"
    using c R by (simp add: co)
qed

lemma rotate_ok:
  assumes d: "distinct (inorder (plug ((d1, p, u1) # (True, g, u2) # C) (Node l x r)))"
    and h: "okh R (plug ((d1, p, u1) # (True, g, u2) # C) (Node l x r))"
    and c: "okc R (Node l x r)" "okcp R False ((d1, p, u1) # (True, g, u2) # C)"
    and R: "x \<in> R" "p \<in> R" "g \<notin> R" "\<not> redtop R u2"
    and R': "R' = insert g (R - {m})"
    and N: "if d1 then A = Node l x r \<and> m = p \<and> D = u1 else A = Node u1 p l \<and> m = x \<and> D = r"
  shows "okh R' (plug C (Node A m (Node D g u2)))" "okc R' (plug C (Node A m (Node D g u2)))"
    "inorder (Node A m (Node D g u2)) = inorder (plug [(d1, p, u1), (True, g, u2)] (Node l x r))" "m \<notin> R'"
proof -
  have m: "m = x \<or> m = p" using N by (auto split: if_split_asm)
  have sets: "same_col R' R (set_tree l)" "same_col R' R (set_tree r)" "same_col R' R (set_tree u1)"
    "same_col R' R (set_tree u2)" "same_col R' R (path_set C)"
    unfolding R' by (intro same_colI; use d m in \<open>auto simp: inorder_plug path_set_lists split: if_split_asm\<close>)+
  note co = sets(1-4) [THEN redtop_cong] sets(1-4) [THEN bh_cong] sets(1-4) [THEN okh_cong] sets(1-4) [THEN okc_cong]
    sets(5) [THEN okhp_cong] sets(5) [THEN okcp_cong]
  have n: "x \<noteq> p" "g \<noteq> m" using d m by (auto simp: inorder_plug split: if_split_asm)
  have n': "g \<in> R'" "m \<notin> R'" "d1 \<Longrightarrow> x \<in> R'" "\<not> d1 \<Longrightarrow> p \<in> R'"
    using n N R by (auto simp: R' split: if_split_asm)
  show "okh R' (plug C (Node A m (Node D g u2)))"
    using h R n' N by (cases d1) (auto simp: okh_plug co)
  have "okcp R False C" using c R by simp
  then show "okc R' (plug C (Node A m (Node D g u2)))"
    using c R n' N by (cases d1) (auto simp: okc_plug co)
  show "inorder (Node A m (Node D g u2)) = inorder (plug [(d1, p, u1), (True, g, u2)] (Node l x r))"
    using N by (cases d1) auto
  show "m \<notin> R'" using n by (simp add: R')
qed

section \<open>The loop\<close>

text \<open>The rotating turn on either side: it leaves a red-black tree and a node under a black parent.\<close>

definition turned :: "rbtree \<Rightarrow> ptr tree \<Rightarrow> path \<Rightarrow> ptr \<Rightarrow> rbtree \<Rightarrow> bool" where
  "turned t N C q t' \<longleftrightarrow> (\<exists>N' m n. rb t' (plug C N') \<and> keeps_nodes t t' \<and> inorder N' = inorder N \<and>
     okh (reds t') (plug C N') \<and> okc (reds t') (plug C N') \<and>
     rmem t' q = Some n \<and> rparent n = m \<and> m \<in> set_tree N' \<and> m \<notin> reds t' \<and> q \<noteq> rroot t')"

lemma rotate_left_turned:
  assumes rb: "rb t (plug ((d1, p, u1) # (True, g, u2) # C) (Node l x r))"
    and h: "okh (reds t) (plug ((d1, p, u1) # (True, g, u2) # C) (Node l x r))"
    and c: "okc (reds t) (Node l x r)" "okcp (reds t) False ((d1, p, u1) # (True, g, u2) # C)"
    and R: "x \<in> reds t" "p \<in> reds t" "g \<notin> reds t" "\<not> redtop (reds t) u2"
  shows "\<exists>q t'. rebalance_step t x = Some (q, t') \<and> turned t (plug [(d1, p, u1), (True, g, u2)] (Node l x r)) C q t'"
proof -
  obtain t' q m A D where t': "rebalance_step t x = Some (q, t')" "rb t' (plug C (Node A m (Node D g u2)))"
    "keeps_nodes t t'" "reds t' = insert g (reds t - {m})" "rtop NULL A = q"
    "if d1 then A = Node l x r \<and> m = p \<and> D = u1 else A = Node u1 p l \<and> m = x \<and> D = r"
    using rotate_turn_left [OF rb R(4)] by blast
  have d: "distinct (inorder (plug ((d1, p, u1) # (True, g, u2) # C) (Node l x r)))" using rb by (simp add: rb_def)
  note ok = rotate_ok [OF d h c R t'(4,6)]
  have A: "A \<noteq> Leaf" "q \<in> set_tree A" using t'(5,6) by (auto split: if_split_asm)
  have "\<exists>n. rmem t' q = Some n \<and> rparent n = m"
    using t'(2,5) A by (cases A) (auto simp: rb_def rep_plug)
  moreover have "q \<noteq> rroot t'"
  proof -
    have d': "distinct (inorder (plug C (Node A m (Node D g u2))))" using t'(2) by (simp add: rb_def)
    have "rroot t' = (if C = [] then m else fst (snd (last C)))" using t'(2) by (simp add: rb_def rtop_plug)
    then show ?thesis using A(2) d' last_path [of C] by (auto simp: inorder_plug path_set_lists split: if_split_asm)
  qed
  ultimately show ?thesis unfolding turned_def using t'(1-3) ok
    by (intro exI [of _ q] exI [of _ t'] conjI exI [of _ "Node A m (Node D g u2)"] exI [of _ m])
      (auto simp del: inorder.simps)
qed

lemma turned_mirror:
  assumes "turned (flip_tree t) (mirror N) (mirror_path C) q t'"
  shows "turned t N C q (flip_tree t')"
proof -
  obtain N' m n where N': "rb t' (plug (mirror_path C) N')" "keeps_nodes (flip_tree t) t'" "inorder N' = inorder (mirror N)"
    "okh (reds t') (plug (mirror_path C) N')" "okc (reds t') (plug (mirror_path C) N')"
    "rmem t' q = Some n" "rparent n = m" "m \<in> set_tree N'" "m \<notin> reds t'" "q \<noteq> rroot t'"
    using assms by (auto simp: turned_def)
  have e: "plug (mirror_path C) N' = mirror (plug C (mirror N'))" by (simp add: mirror_plug)
  have "rb (flip_tree t') (plug C (mirror N'))" using N'(1) unfolding e rb_mirror_iff by simp
  moreover have "keeps_nodes t (flip_tree t')" using N'(2) keeps_nodes_flip [of "flip_tree t" t'] by simp
  moreover have "inorder (mirror N') = inorder N" using N'(3) by (simp add: inorder_mirror)
  moreover have "okh (reds t') (plug C (mirror N'))" "okc (reds t') (plug C (mirror N'))"
    using N'(4,5) unfolding e by simp_all
  ultimately show ?thesis unfolding turned_def using N'(6-10)
    by (intro exI [of _ "mirror N'"] exI [of _ m] exI [of _ "flip n"]) simp
qed

lemma rotate_turned:
  assumes rb: "rb t (plug ((d1, p, u1) # (d2, g, u2) # C) (Node l x r))"
    and h: "okh (reds t) (plug ((d1, p, u1) # (d2, g, u2) # C) (Node l x r))"
    and c: "okc (reds t) (Node l x r)" "okcp (reds t) False ((d1, p, u1) # (d2, g, u2) # C)"
    and R: "x \<in> reds t" "p \<in> reds t" "g \<notin> reds t" "\<not> redtop (reds t) u2"
  shows "\<exists>q t'. rebalance_step t x = Some (q, t') \<and> turned t (plug [(d1, p, u1), (d2, g, u2)] (Node l x r)) C q t'"
proof (cases d2)
  case True
  then show ?thesis using rotate_left_turned assms by simp
next
  case False
  let ?T = "plug ((d1, p, u1) # (d2, g, u2) # C) (Node l x r)"
  let ?M = "plug ((\<not> d1, p, mirror u1) # (True, g, mirror u2) # mirror_path C) (Node (mirror r) x (mirror l))"
  have M: "?M = mirror ?T" using False by (simp add: mirror_plug)
  have M2: "plug [(\<not> d1, p, mirror u1), (True, g, mirror u2)] (Node (mirror r) x (mirror l)) =
      mirror (plug [(d1, p, u1), (d2, g, u2)] (Node l x r))" using False by (simp add: mirror_plug)
  have "\<exists>q t'. rebalance_step (flip_tree t) x = Some (q, t') \<and>
      turned (flip_tree t) (plug [(\<not> d1, p, mirror u1), (True, g, mirror u2)] (Node (mirror r) x (mirror l))) (mirror_path C) q t'"
  proof (rule rotate_left_turned)
    show "rb (flip_tree t) ?M" unfolding M using rb by (rule rb_mirror)
    show "okh (reds (flip_tree t)) ?M" unfolding M using h by (simp del: plug.simps)
  qed (use c R False in auto)
  then obtain q t' where q: "rebalance_step (flip_tree t) x = Some (q, t')"
    "turned (flip_tree t) (mirror (plug [(d1, p, u1), (d2, g, u2)] (Node l x r))) (mirror_path C) q t'"
    unfolding M2 by blast
  obtain nx np ng where f: "rmem t x = Some nx" "rmem t p = Some np" "rmem t g = Some ng"
    "rparent nx = p" "rparent np = g" "if d1 then rleft np = x \<and> rright np \<noteq> x else rright np = x \<and> rleft np \<noteq> x"
    "if d2 then rleft ng = p \<and> rright ng = rtop (rsentinel t) u2 else rright ng = p \<and> rleft ng = rtop (rsentinel t) u2"
    "rtop (rsentinel t) u2 \<noteq> p"
    by (rule family [OF rb])
  have "rebalance_step (flip_tree t) x = map_option (map_prod id flip_tree) (rebalance_step t x)"
    by (rule rebalance_step_flip [of t x p g ng]) (use f False in \<open>auto simp: rb_parent_def\<close>)
  then have "rebalance_step t x = Some (q, flip_tree t')" using q(1) by (cases "rebalance_step t x") auto
  then show ?thesis using turned_mirror [OF q(2)] by blast
qed

text \<open>The loop's result: a red-black tree, but for the colour of the root.\<close>

definition balanced :: "rbtree \<Rightarrow> ptr tree \<Rightarrow> rbtree \<Rightarrow> bool" where
  "balanced t T t' \<longleftrightarrow> (\<exists>T'. rb t' T' \<and> keeps_nodes t t' \<and> inorder T' = inorder T \<and> okh (reds t') T' \<and> okc (reds t') T')"

lemma root_plug: "rb t (plug C (Node l x r)) \<Longrightarrow> x = rroot t \<longleftrightarrow> C = []"
  using last_path [of C] by (auto simp: rb_def rtop_plug inorder_plug path_set_lists split: if_split_asm)

lemma turned_balanced:
  assumes "turned t N C q t'"
  shows "\<exists>t''. rebalance t' q = Some t'' \<and> balanced t (plug C N) t''"
proof -
  obtain N' m n where N': "rb t' (plug C N')" "keeps_nodes t t'" "inorder N' = inorder N"
    "okh (reds t') (plug C N')" "okc (reds t') (plug C N')"
    "rmem t' q = Some n" "rparent n = m" "m \<in> set_tree N'" "m \<notin> reds t'" "q \<noteq> rroot t'"
    using assms by (auto simp: turned_def)
  have "\<exists>n. rmem t' m = Some n" using N'(1,8) by (auto intro: rb_dom simp: set_plug)
  then have "rb_red t' m = Some False" using N'(9) by (auto simp: rb_red_def reds_def)
  then have "rebalance t' q = Some t'"
    using N'(6,7,10) by (subst rebalance.simps) (simp add: rb_parent_def)
  moreover have "balanced t (plug C N) t'"
    unfolding balanced_def using N'(1-5) by (intro exI [of _ "plug C N'"]) (simp add: inorder_plug)
  ultimately show ?thesis by blast
qed

lemma rebalance_balanced:
  "rb t (plug C (Node l x r)) \<Longrightarrow> okh (reds t) (plug C (Node l x r)) \<Longrightarrow> okc (reds t) (Node l x r) \<Longrightarrow>
   okcp (reds t) False C \<Longrightarrow> x \<in> reds t \<Longrightarrow> (C \<noteq> [] \<longrightarrow> fst (snd (last C)) \<notin> reds t) \<Longrightarrow>
   \<exists>t'. rebalance t x = Some t' \<and> balanced t (plug C (Node l x r)) t'"
proof (induction C arbitrary: t l x r rule: measure_induct_rule [of List.length])
  case (less C)
  note rb = less.prems(1) and ok = less.prems(2-6)
  let ?N = "Node l x r"
  show ?case
  proof (cases C)
    case Nil
    have "rebalance t x = Some t" using root_plug [OF rb] Nil by (subst rebalance.simps) simp
    then show ?thesis using rb ok Nil by (auto simp: balanced_def simp del: inorder.simps okh.simps okc.simps)
  next
    case (Cons f C1)
    obtain d1 p u1 where f: "f = (d1, p, u1)" by (cases f)
    have "rep_path (rmem t) (rsentinel t) x C" "rep (rmem t) (rsentinel t) p ?N"
      using rb by (simp_all add: rb_def rep_plug, simp add: Cons f)
    then obtain nx np where n: "rmem t x = Some nx" "rparent nx = p" "rmem t p = Some np" by (auto simp: Cons f)
    have loop: "rebalance t x = (if p \<in> reds t then do { (node, t) \<leftarrow> rebalance_step t x; rebalance t node } else Some t)"
      using n root_plug [OF rb] Cons
      by (subst rebalance.simps) (simp add: rb_parent_def rb_red_def reds_def)
    show ?thesis
    proof (cases "p \<in> reds t")
      case False
      then have "okc (reds t) (plug C ?N)" using ok by (simp add: Cons f okc_plug)
      then show ?thesis using False loop rb ok(1) by (auto simp: balanced_def)
    next
      case True
      then obtain d2 g u2 C2 where C1: "C1 = (d2, g, u2) # C2"
        using ok(5) by (cases C1) (auto simp: Cons f)
      have g: "g \<notin> reds t" "okc (reds t) u2" using True ok(3) by (auto simp: Cons f C1)
      note C = Cons [unfolded f C1]
      show ?thesis
      proof (cases "redtop (reds t) u2")
        case False
        obtain q t' where q: "rebalance_step t x = Some (q, t')" "turned t (plug [(d1, p, u1), (d2, g, u2)] ?N) C2 q t'"
          using rotate_turned [OF rb [unfolded C] ok(1,2,3) [unfolded C] ok(4) True g(1) False] by blast
        show ?thesis using turned_balanced [OF q(2)] q(1) loop True by (simp add: C)
      next
        case red: True
        let ?R = "insert g (reds t - {p} - {rtop (rsentinel t) u2})"
        obtain t' where t': "rebalance_step t x = Some (g, t')" "rb t' (plug C ?N)" "keeps_nodes t t'" "reds t' = ?R"
          using recolour_turn [OF rb [unfolded C] red] unfolding C by blast
        have d: "distinct (inorder (plug C ?N))" using rb by (simp add: rb_def)
        note o = recolour_ok [OF d [unfolded C] ok(1,2,3) [unfolded C] ok(4) True g(1) red refl]
        obtain l' r' where N': "plug [(d1, p, u1), (d2, g, u2)] ?N = Node l' g r'" by (cases d2) auto
        then have T: "plug C2 (Node l' g r') = plug C ?N" by (simp add: C)
        have "\<exists>t''. rebalance t' g = Some t'' \<and> balanced t' (plug C2 (Node l' g r')) t''"
        proof (rule less.IH)
          show "rb t' (plug C2 (Node l' g r'))" using t'(2) by (simp only: T)
          show "okh (reds t') (plug C2 (Node l' g r'))" using o(1) by (simp only: T C t'(4))
          show "okc (reds t') (Node l' g r')" "okcp (reds t') False C2" using o(2,3) by (simp_all only: N' t'(4))
          show "C2 \<noteq> [] \<longrightarrow> fst (snd (last C2)) \<notin> reds t'"
            using ok(5) d last_path [of C2] by (auto simp: C t'(4) inorder_plug path_set_lists split: if_split_asm)
        qed (auto simp: C t'(4))
        then obtain t'' where "rebalance t' g = Some t''" "balanced t' (plug C ?N) t''" unfolding T by blast
        moreover have "balanced t (plug C ?N) t''"
          using calculation(2) keeps_nodes_trans [OF t'(3)] by (auto simp: balanced_def)
        ultimately show ?thesis using loop True t'(1) by simp
      qed
    qed
  qed
qed

section \<open>The place of a key\<close>

definition keyof :: "rbtree \<Rightarrow> ptr \<Rightarrow> int" where
  "keyof t a = (case rmem t a of Some n \<Rightarrow> rkey n | None \<Rightarrow> 0)"

lemma keyof_Some [simp]: "rmem t a = Some n \<Longrightarrow> keyof t a = rkey n"
  by (simp add: keyof_def)

lemma keeps_nodes_keyof: "keeps_nodes t t' \<Longrightarrow> keyof t' = keyof t"
proof
  fix a
  assume "keeps_nodes t t'"
  then have "map_option (\<lambda>n. (rkey n, rdata n)) (rmem t' a) = map_option (\<lambda>n. (rkey n, rdata n)) (rmem t a)"
    by (simp add: keeps_nodes_def)
  then show "keyof t' a = keyof t a" by (cases "rmem t a"; cases "rmem t' a") (auto simp: keyof_def)
qed

definition ordered :: "rbtree \<Rightarrow> ptr tree \<Rightarrow> bool" where
  "ordered t T \<longleftrightarrow> sorted (map (keyof t) (inorder T))"

lemma plug_append: "plug (D @ E) t = plug E (plug D t)"
  by (induction D t rule: plug.induct) auto

lemma lefts_append: "lefts (D @ E) = lefts E @ lefts D" "rights (D @ E) = rights D @ rights E"
  by (induction D rule: lefts.induct) auto

lemma insert_place_path:
  assumes "rep (rmem t) (rsentinel t) p T" "T \<noteq> Leaf" "rsentinel t \<notin> set_tree T" "ordered t T"
  shows "\<exists>lft q u D. plug ((lft, q, u) # D) Leaf = T \<and> insert_place t k (rtop (rsentinel t) T) = Some (q, lft) \<and>
     (\<forall>a \<in> set (lefts ((lft, q, u) # D)). keyof t a \<le> k) \<and> (\<forall>a \<in> set (rights ((lft, q, u) # D)). k < keyof t a)"
  using assms
proof (induction T arbitrary: p)
  case (Node l a r)
  obtain n where n: "rmem t a = Some n" "rleft n = rtop (rsentinel t) l" "rright n = rtop (rsentinel t) r"
    and reps: "rep (rmem t) (rsentinel t) a l" "rep (rmem t) (rsentinel t) a r"
    using Node.prems(1) by auto
  have key: "keyof t a = rkey n" using n(1) by simp
  have o: "ordered t l" "ordered t r" "\<forall>b \<in> set_tree l. keyof t b \<le> keyof t a" "\<forall>b \<in> set_tree r. keyof t a \<le> keyof t b"
    using Node.prems(4) by (auto simp: ordered_def sorted_append)
  have top: "rtop (rsentinel t) w = rsentinel t \<longleftrightarrow> w = Leaf" if "rsentinel t \<notin> set_tree w" for w
    using that by (cases w) auto
  show ?case
  proof (cases "k < rkey n")
    case True
    show ?thesis
    proof (cases "l = Leaf")
      case L: True
      have "insert_place t k a = Some (a, True)" using n True L by (subst insert_place.simps) simp
      then show ?thesis using L o(4) True key
        by (intro exI [of _ True] exI [of _ a] exI [of _ r] exI [of _ "[]"]) force
    next
      case L: False
      then obtain lft q u D where D: "plug ((lft, q, u) # D) Leaf = l" "insert_place t k (rtop (rsentinel t) l) = Some (q, lft)"
        "\<forall>a \<in> set (lefts ((lft, q, u) # D)). keyof t a \<le> k" "\<forall>a \<in> set (rights ((lft, q, u) # D)). k < keyof t a"
        using Node.IH(1) [OF reps(1)] o(1) Node.prems(3) by auto
      have "insert_place t k a = Some (q, lft)" using n True L top [of l] Node.prems(3) D(2) by (subst insert_place.simps) simp
      then show ?thesis using D o(4) True key
        by (intro exI [of _ lft] exI [of _ q] exI [of _ u] exI [of _ "D @ [(True, a, r)]"])
          (force simp: plug_append lefts_append simp flip: append_Cons simp del: append_Cons)
    qed
  next
    case False
    show ?thesis
    proof (cases "r = Leaf")
      case L: True
      have "insert_place t k a = Some (a, False)" using n False L by (subst insert_place.simps) simp
      then show ?thesis using L o(3) False key
        by (intro exI [of _ False] exI [of _ a] exI [of _ l] exI [of _ "[]"]) force
    next
      case L: False
      then obtain lft q u D where D: "plug ((lft, q, u) # D) Leaf = r" "insert_place t k (rtop (rsentinel t) r) = Some (q, lft)"
        "\<forall>a \<in> set (lefts ((lft, q, u) # D)). keyof t a \<le> k" "\<forall>a \<in> set (rights ((lft, q, u) # D)). k < keyof t a"
        using Node.IH(2) [OF reps(2)] o(2) Node.prems(3) by auto
      have "insert_place t k a = Some (q, lft)" using n False L top [of r] Node.prems(3) D(2) by (subst insert_place.simps) simp
      then show ?thesis using D o(3) False key
        by (intro exI [of _ lft] exI [of _ q] exI [of _ u] exI [of _ "D @ [(False, a, l)]"])
          (force simp: plug_append lefts_append simp flip: append_Cons simp del: append_Cons)
    qed
  qed
qed simp

section \<open>Attaching a node\<close>

text \<open>A red-black tree whose keys ascend in order.\<close>

definition rbt :: "rbtree \<Rightarrow> ptr tree \<Rightarrow> bool" where
  "rbt t T \<longleftrightarrow> rb t T \<and> ordered t T \<and> okh (reds t) T \<and> okc (reds t) T \<and> \<not> redtop (reds t) T"

lemma blacken_root_ok:
  assumes "okh R T" "okc R T" "distinct (inorder T)"
  shows "okh (R - {rtop s T}) T \<and> okc (R - {rtop s T}) T \<and> \<not> redtop (R - {rtop s T}) T"
proof (cases T)
  case (Node l a r)
  have "same_col (R - {a}) R (set_tree l)" "same_col (R - {a}) R (set_tree r)"
    using assms(3) Node by (auto simp: same_col_def)
  then show ?thesis using assms(1,2) Node
    by (auto simp: okh_cong [of "R - {a}" R] okc_cong [of "R - {a}" R] bh_cong [of "R - {a}" R])
qed simp

lemma link_leaf:
  assumes rb: "rb t (plug ((lft, q, u) # D) Leaf)" and x: "rmem t x = Some n" "x \<notin> set_tree (plug ((lft, q, u) # D) Leaf)"
    "x \<noteq> rsentinel t" "x \<noteq> NULL"
  shows "\<exists>t1 t2. rupd q (if lft then rleft_update (\<lambda>_. x) else rright_update (\<lambda>_. x)) t = Some t1 \<and>
      rupd x (\<lambda>n. rbtree_red (n\<lparr>rparent := q, rleft := rsentinel t1, rright := rsentinel t1\<rparr>)) t1 = Some t2 \<and>
      rb t2 (plug ((lft, q, u) # D) (Node Leaf x Leaf)) \<and> keeps_nodes t t2 \<and> reds t2 = insert x (reds t)"
proof -
  let ?s = "rsentinel t" and ?C = "(lft, q, u) # D"
  let ?f = "\<lambda>n. rbtree_red (n\<lparr>rparent := q, rleft := ?s, rright := ?s\<rparr>)"
  have path: "rep_path (rmem t) ?s ?s ?C" using rb by (simp add: rb_def rep_plug del: plug.simps)
  have d: "q \<notin> set_tree u \<union> path_set D" "q \<noteq> ?s" "q \<noteq> NULL"
    using rb by (auto simp: rb_def inorder_plug path_set_lists set_plug split: if_split_asm)
  have xC: "x \<notin> path_set ?C" using x(2) by (simp add: set_plug del: plug.simps)
  have qx: "q \<noteq> x" using xC by auto
  obtain nq where nq: "rmem t q = Some nq" using path by auto
  define h where "h = (rmem t)(q \<mapsto> set_child lft x nq, x \<mapsto> ?f n)"
  define t1 where "t1 = t\<lparr>rmem := (rmem t)(q \<mapsto> set_child lft x nq)\<rparr>"
  have s1: "rsentinel t1 = ?s" by (simp add: t1_def)
  have 1: "rupd q (if lft then rleft_update (\<lambda>_. x) else rright_update (\<lambda>_. x)) t = Some t1"
    using nq by (simp add: rupd_def set_child_def t1_def)
  have 2: "rupd x (\<lambda>n. rbtree_red (n\<lparr>rparent := q, rleft := rsentinel t1, rright := rsentinel t1\<rparr>)) t1 = Some (t\<lparr>rmem := h\<rparr>)"
    unfolding s1 using x(1) qx by (simp add: rupd_def h_def t1_def)
  have red_child: "rbtree_is_red (set_child d y m) = rbtree_is_red m" for d y m
    by (simp add: set_child_def rbtree_is_red_def rbtree_is_black_def)
  have "rep_path h ?s x ?C"
  proof (rule rep_path_hole [OF path])
    show "h q = map_option (set_child lft x) (rmem t q)" using nq qx by (simp add: h_def)
    show "same_links (rmem t) h (set_tree u \<union> path_set D)"
      using d xC by (intro same_linksI) (auto simp: h_def)
  qed
  then have rep: "rep h ?s NULL (plug ?C (Node Leaf x Leaf))"
    unfolding rep_plug by (simp add: h_def rbtree_red_def)
  have "rroot t = fst (snd (last ?C))" using rb unfolding rb_def rtop_plug by simp
  then have "rroot t = rtop ?s (plug ?C (Node Leaf x Leaf))" by (simp add: rtop_plug del: plug.simps)
  moreover have "h ?s = rmem t ?s" using x(3) d(2) by (simp add: h_def)
  moreover have "distinct (inorder (plug ?C (Node Leaf x Leaf)))"
    using rb xC by (auto simp: rb_def inorder_plug path_set_lists)
  ultimately have "rb (t\<lparr>rmem := h\<rparr>) (plug ?C (Node Leaf x Leaf))"
    using rb rep x(3,4) by (simp add: rb_def set_plug del: plug.simps)
  moreover have "keeps_nodes t (t\<lparr>rmem := h\<rparr>)"
    using nq x d by (auto simp: keeps_nodes_def h_def set_child_def)
  moreover have "reds (t\<lparr>rmem := h\<rparr>) = insert x (reds t)"
    using nq qx red_child by (auto simp: reds_def h_def split: if_split_asm)
  ultimately show ?thesis using 1 2 by blast
qed

lemma filter_split:
  assumes "\<forall>a \<in> set xs. f a \<le> (k::int)" "\<forall>a \<in> set ys. k < f a"
  shows "filter (\<lambda>a. f a \<le> k) (xs @ ys) = xs" "filter (\<lambda>a. k < f a) (xs @ ys) = ys"
proof -
  have "filter (\<lambda>a. f a \<le> k) ys = []" "filter (\<lambda>a. k < f a) xs = []"
    using assms by (auto simp: filter_empty_conv)
  moreover have "filter (\<lambda>a. f a \<le> k) xs = xs" "filter (\<lambda>a. k < f a) ys = ys"
    using assms by (auto simp: filter_id_conv)
  ultimately show "filter (\<lambda>a. f a \<le> k) (xs @ ys) = xs" "filter (\<lambda>a. k < f a) (xs @ ys) = ys" by simp_all
qed

text \<open>What attaching the node \<open>x\<close> to the tree \<open>T\<close> gives.\<close>

definition attached :: "rbtree \<Rightarrow> ptr tree \<Rightarrow> ptr \<Rightarrow> rbtree \<Rightarrow> bool" where
  "attached t T x t' \<longleftrightarrow> (\<exists>T'. rbt t' T' \<and> keeps_nodes t t' \<and>
     inorder T' = filter (\<lambda>a. keyof t a \<le> keyof t x) (inorder T) @ x # filter (\<lambda>a. keyof t x < keyof t a) (inorder T))"

lemma insert_empty:
  assumes "rb t Leaf" "rmem t x = Some n" "x \<noteq> rsentinel t" "x \<noteq> NULL"
  shows "\<exists>t'. rbtree_insert t x = Some t' \<and> attached t Leaf x t'"
proof -
  let ?n = "rbtree_black (n\<lparr>rparent := NULL, rleft := rsentinel t, rright := rsentinel t\<rparr>)"
  let ?t = "t\<lparr>rroot := x, rmem := (rmem t)(x \<mapsto> ?n)\<rparr>"
  have "rbtree_insert t x = Some ?t" using assms by (simp add: rbtree_insert_def rb_def rupd_def)
  moreover have "rb ?t (Node Leaf x Leaf)" using assms by (auto simp: rb_def rbtree_black_def)
  moreover have "x \<notin> reds ?t" by (simp add: reds_def)
  moreover have "keeps_nodes t ?t" using assms by (simp add: keeps_nodes_def)
  ultimately show ?thesis
    by (auto simp: attached_def rbt_def ordered_def intro!: exI [of _ "Node Leaf x Leaf"])
qed

lemma insert_attached:
  assumes rbt: "rbt t T" and x: "rmem t x = Some n" "x \<notin> set_tree T" "x \<noteq> rsentinel t" "x \<noteq> NULL"
  shows "\<exists>t'. rbtree_insert t x = Some t' \<and> attached t T x t'"
proof (cases "T = Leaf")
  case True
  then show ?thesis using insert_empty rbt x by (auto simp: rbt_def)
next
  case False
  have rb: "rb t T" and inv: "ordered t T" "okh (reds t) T" "okc (reds t) T" "\<not> redtop (reds t) T"
    using rbt by (simp_all add: rbt_def)
  obtain lft q u D where D: "plug ((lft, q, u) # D) Leaf = T" "insert_place t (rkey n) (rroot t) = Some (q, lft)"
    "\<forall>a \<in> set (lefts ((lft, q, u) # D)). keyof t a \<le> rkey n" "\<forall>a \<in> set (rights ((lft, q, u) # D)). rkey n < keyof t a"
    using insert_place_path [of t NULL T "rkey n"] rb False inv(1) by (auto simp: rb_def)
  let ?C = "(lft, q, u) # D"
  obtain t1 t2 where 1: "rupd q (if lft then rleft_update (\<lambda>_. x) else rright_update (\<lambda>_. x)) t = Some t1"
    and 2: "rupd x (\<lambda>n. rbtree_red (n\<lparr>rparent := q, rleft := rsentinel t1, rright := rsentinel t1\<rparr>)) t1 = Some t2"
    and rb2: "rb t2 (plug ?C (Node Leaf x Leaf))" and keep: "keeps_nodes t t2" and reds: "reds t2 = insert x (reds t)"
    using link_leaf [OF rb [folded D(1)] x(1) x(2) [folded D(1)] x(3,4)] by blast
  have xC: "x \<notin> path_set ?C" using x(2) D(1) set_plug [of ?C Leaf] by simp
  have sc: "same_col (reds t2) (reds t) (path_set ?C)" using xC by (auto simp: same_col_def reds)
  have old: "okhp (reds t) 0 ?C" "okcp (reds t) False ?C"
    using inv(2,3) unfolding D(1) [symmetric] okh_plug okc_plug by simp_all
  have top: "fst (snd (last ?C)) \<notin> reds t2"
  proof -
    have "rtop NULL T = fst (snd (last ?C))" unfolding D(1) [symmetric] rtop_plug by simp
    then have "fst (snd (last ?C)) \<notin> reds t" using inv(4) False by (cases T) auto
    moreover have "fst (snd (last ?C)) \<noteq> x" using xC last_path [of ?C] by auto
    ultimately show ?thesis by (simp add: reds)
  qed
  obtain t3 where 3: "rebalance t2 x = Some t3" "balanced t2 (plug ?C (Node Leaf x Leaf)) t3"
  proof (atomize_elim, rule rebalance_balanced [OF rb2])
    show "okh (reds t2) (plug ?C (Node Leaf x Leaf))"
    proof -
      have "okhp (reds t2) 0 ?C" by (simp only: old(1) okhp_cong [OF sc])
      then show ?thesis unfolding okh_plug by (simp add: reds)
    qed
    show "okcp (reds t2) False ?C" by (simp only: old(2) okcp_cong [OF sc])
  qed (use top in \<open>auto simp: reds\<close>)
  then obtain T' where T': "rb t3 T'" "keeps_nodes t2 t3" "inorder T' = inorder (plug ?C (Node Leaf x Leaf))"
    "okh (reds t3) T'" "okc (reds t3) T'"
    by (auto simp: balanced_def)
  have root: "rroot t3 = rtop NULL T'" "rroot t3 \<in> set_tree T'"
  proof -
    have "inorder T' \<noteq> []" unfolding T'(3) inorder_plug by simp
    then have "T' \<noteq> Leaf" by auto
    then show "rroot t3 = rtop NULL T'" "rroot t3 \<in> set_tree T'" using rb_root [OF T'(1)] by auto
  qed
  obtain t4 where 4: "rupd (rroot t3) rbtree_black t3 = Some t4" "rb t4 T'" "keeps_nodes t3 t4" "reds t4 = reds t3 - {rroot t3}"
    using blacken [OF T'(1) root(2)] by metis
  have run: "rbtree_insert t x = Some t4"
  proof -
    have "rroot t \<noteq> rsentinel t" using False rb by (cases T) (auto simp: rb_def)
    then show ?thesis unfolding rbtree_insert_def using x(1) D(2) by (simp only: 1 2 3(1) 4(1) Option.bind.simps split_conv if_False)
  qed
  have k: "keeps_nodes t t4" by (rule keeps_nodes_trans [OF keep keeps_nodes_trans [OF T'(2) 4(3)]])
  have ino: "inorder T' = lefts ?C @ x # rights ?C" using T'(3) by (simp add: inorder_plug)
  have "inorder T = lefts ?C @ rights ?C" unfolding D(1) [symmetric] inorder_plug by simp
  then have "inorder T' = filter (\<lambda>a. keyof t a \<le> keyof t x) (inorder T) @ x # filter (\<lambda>a. keyof t x < keyof t a) (inorder T)"
    using filter_split [OF D(3,4)] ino x(1) by simp
  moreover have "ordered t4 T'"
  proof -
    have "sorted (map (keyof t) (lefts ?C @ rights ?C))"
      using inv(1) \<open>inorder T = lefts ?C @ rights ?C\<close> unfolding ordered_def by simp
    then show ?thesis using D(3,4) x(1) unfolding ordered_def keeps_nodes_keyof [OF k] ino
      by (fastforce simp: sorted_append simp del: lefts.simps rights.simps)
  qed
  moreover have "okh (reds t4) T' \<and> okc (reds t4) T' \<and> \<not> redtop (reds t4) T'"
    unfolding 4(4) root(1) by (rule blacken_root_ok) (use T' in \<open>auto simp: rb_def\<close>)
  ultimately show ?thesis using run 4(2) k by (auto simp: attached_def rbt_def)
qed

end
