(* ===== verification/Rbtree_Search.thy ===== *)
theory Rbtree_Search
  imports Rbtree_Insert
begin

text \<open>
  Looking up a key, walking to the next node and destroying the tree, for a tree in memory
  as insertion leaves it.
\<close>

section \<open>Successors\<close>

lemma rtop_sentinel: "s \<notin> set_tree w \<Longrightarrow> rtop s w = s \<longleftrightarrow> w = Leaf"
  by (cases w) auto

lemma node_min:
  "rep (rmem t) (rsentinel t) p T \<Longrightarrow> T \<noteq> Leaf \<Longrightarrow> rsentinel t \<notin> set_tree T \<Longrightarrow>
   rbtree_node_min t (rtop (rsentinel t) T) = Some (hd (inorder T))"
proof (induction T arbitrary: p)
  case (Node l a r)
  obtain n where "rmem t a = Some n" "rleft n = rtop (rsentinel t) l" using Node.prems(1) by auto
  then show ?case using Node rtop_sentinel [of "rsentinel t" l]
    by (subst rbtree_node_min.simps; cases "l = Leaf") (auto simp: hd_append)
qed simp

lemma climb:
  "rep_path (rmem t) (rsentinel t) q C \<Longrightarrow> C \<noteq> [] \<Longrightarrow> rroot t = fst (snd (last C)) \<Longrightarrow>
   distinct (lefts C @ q # rights C) \<Longrightarrow> rsentinel t \<notin> insert q (path_set C) \<Longrightarrow>
   climb_right t q (up C) = Some (case rights C of [] \<Rightarrow> rroot t | b # _ \<Rightarrow> b)"
proof (induction C arbitrary: q)
  case (Cons f C)
  obtain lft a u where f: "f = (lft, a, u)" by (cases f)
  obtain n where n: "rmem t a = Some n" "rparent n = up C"
    "if lft then rleft n = q \<and> rright n = rtop (rsentinel t) u else rright n = q"
    using Cons.prems(1) by (auto simp: f)
  show ?case
  proof (cases "C = []")
    case True
    then show ?thesis using Cons.prems(3) by (subst climb_right.simps) (auto simp: f)
  next
    case False
    have "a \<notin> path_set C" using Cons.prems(4) by (auto simp: f path_set_lists split: if_split_asm)
    then have root: "a \<noteq> rroot t" using last_path [OF False] Cons.prems(3) False by auto
    show ?thesis
    proof (cases lft)
      case True
      have "q \<noteq> rright n" using n(3) True Cons.prems(4,5) by (cases u) (auto simp: f)
      then show ?thesis using True n root by (subst climb_right.simps) (simp add: f)
    next
      case lft: False
      have "climb_right t a (up C) = Some (case rights C of [] \<Rightarrow> rroot t | b # _ \<Rightarrow> b)"
      proof (rule Cons.IH)
        show "rep_path (rmem t) (rsentinel t) a C" using Cons.prems(1) by (simp add: f)
        show "rroot t = fst (snd (last C))" using Cons.prems(3) False by simp
        show "distinct (lefts C @ a # rights C)" using Cons.prems(4) lft by (auto simp: f)
        show "rsentinel t \<notin> insert a (path_set C)" using Cons.prems(5) by (simp add: f)
      qed (rule False)
      then show ?thesis using lft n root by (subst climb_right.simps) (simp add: f)
    qed
  qed
qed simp

lemma node_path:
  assumes "a \<in> set_tree T"
  shows "\<exists>C l r. T = plug C (Node l a r)"
  using assms
proof (induction T)
  case (Node l b r)
  have lift: "\<exists>C l' r'. (if d then Node w b u else Node u b w) = plug C (Node l' a r')" if "w = plug C' (Node l' a r')" for w u d C' l' r'
    using that by (intro exI [of _ "C' @ [(d, b, u)]"]) (auto simp: plug_append)
  show ?case
  proof (cases "a = b")
    case True
    then show ?thesis by (metis plug.simps(1))
  next
    case False
    then show ?thesis using Node lift [of l _ _ _ True] lift [of r _ _ _ False] by fastforce
  qed
qed simp

lemma next_node:
  assumes "rb t (plug C (Node l a r))" "r \<noteq> Leaf \<or> C \<noteq> []"
  shows "rbtree_next t a = Some (case inorder r @ rights C of [] \<Rightarrow> rroot t | b # _ \<Rightarrow> b)"
proof -
  have rep: "rep_path (rmem t) (rsentinel t) a C" "rep (rmem t) (rsentinel t) (up C) (Node l a r)"
    and root: "C \<noteq> [] \<Longrightarrow> rroot t = fst (snd (last C))"
    and s: "rsentinel t \<notin> set_tree (Node l a r)" "rsentinel t \<notin> path_set C"
    and d: "distinct (lefts C @ a # rights C)"
    using assms(1) by (auto simp: rb_def rep_plug rtop_plug set_plug inorder_plug)
  obtain n where n: "rmem t a = Some n" "rright n = rtop (rsentinel t) r" "rparent n = up C" using rep(2) by auto
  show ?thesis
  proof (cases "r = Leaf")
    case True
    then have C: "C \<noteq> []" using assms(2) by simp
    have "climb_right t a (up C) = Some (case rights C of [] \<Rightarrow> rroot t | b # _ \<Rightarrow> b)"
      by (rule climb [OF rep(1) C root [OF C] d]) (use s in auto)
    then show ?thesis using True n s by (simp add: rbtree_next_def)
  next
    case False
    have r: "rep (rmem t) (rsentinel t) a r" "rsentinel t \<notin> set_tree r" "a \<noteq> rsentinel t" using rep(2) s by auto
    have "rright n \<noteq> rsentinel t" using n(2) r(2) False rtop_sentinel by simp
    then have "rbtree_next t a = rbtree_node_min t (rtop (rsentinel t) r)" using n r(3) by (simp add: rbtree_next_def)
    also have "\<dots> = Some (hd (inorder r))" by (rule node_min [OF r(1) False r(2)])
    finally show ?thesis using False by (cases "inorder r") (auto simp: eq_inorder_Nil)
  qed
qed

lemma next_of:
  assumes "rb t T" "inorder T = xs @ a # ys" "\<And>l. T \<noteq> Node l a Leaf"
  shows "rbtree_next t a = Some (case ys of [] \<Rightarrow> rroot t | b # _ \<Rightarrow> b)"
proof -
  have "a \<in> set (inorder T)" by (simp add: assms(2))
  then have "a \<in> set_tree T" by simp
  then obtain C l' r where T: "T = plug C (Node l' a r)" using node_path by blast
  have d: "distinct (inorder T)" using assms(1) by (simp add: rb_def)
  have e: "xs @ a # ys = (lefts C @ inorder l') @ a # inorder r @ rights C"
    using assms(2) by (simp add: T inorder_plug)
  moreover have "a \<notin> set xs" "a \<notin> set ys" using d by (simp_all add: assms(2))
  ultimately have "ys = inorder r @ rights C" using append_Cons_eq_iff [of a xs ys] by blast
  moreover have "r \<noteq> Leaf \<or> C \<noteq> []" using assms(3) T by (cases C) auto
  ultimately show ?thesis using next_node assms(1) T by simp
qed

section \<open>Looking up\<close>

lemma search_from_key:
  "rep (rmem t) (rsentinel t) p T \<Longrightarrow> rsentinel t \<notin> set_tree T \<Longrightarrow> ordered t T \<Longrightarrow>
   \<exists>m. search_from t k (rtop (rsentinel t) T) = Some m \<and>
     (if \<exists>a \<in> set_tree T. keyof t a = k then m \<in> set_tree T \<and> keyof t m = k else m = NULL)"
proof (induction T arbitrary: p)
  case Leaf
  then show ?case by (subst search_from.simps) simp
next
  case (Node l a r)
  obtain n where n: "rmem t a = Some n" "rleft n = rtop (rsentinel t) l" "rright n = rtop (rsentinel t) r"
    and a: "a \<noteq> rsentinel t" using Node.prems(1,2) by auto
  have o: "ordered t l" "ordered t r" "\<forall>b \<in> set_tree l. keyof t b \<le> keyof t a" "\<forall>b \<in> set_tree r. keyof t a \<le> keyof t b"
    using Node.prems(3) by (auto simp: ordered_def sorted_append)
  note IH = Node.IH(1) [of a] Node.IH(2) [of a]
  consider "k < rkey n" | "k > rkey n" | "k = rkey n" by linarith
  then show ?case
  proof cases
    case 1
    then have "\<forall>b \<in> set_tree r. keyof t b \<noteq> k" using o(4) n(1) by fastforce
    then have "(\<exists>b \<in> set_tree (Node l a r). keyof t b = k) \<longleftrightarrow> (\<exists>b \<in> set_tree l. keyof t b = k)" using 1 n(1) by auto
    moreover have "search_from t k a = search_from t k (rtop (rsentinel t) l)"
      using 1 n a by (subst search_from.simps) simp
    ultimately show ?thesis using IH(1) Node.prems(1,2) o(1) by (auto split: if_split_asm)
  next
    case 2
    then have "\<forall>b \<in> set_tree l. keyof t b \<noteq> k" using o(3) n(1) by fastforce
    then have "(\<exists>b \<in> set_tree (Node l a r). keyof t b = k) \<longleftrightarrow> (\<exists>b \<in> set_tree r. keyof t b = k)" using 2 n(1) by auto
    moreover have "search_from t k a = search_from t k (rtop (rsentinel t) r)"
      using 2 n a by (subst search_from.simps) simp
    ultimately show ?thesis using IH(2) Node.prems(1,2) o(2) by (auto split: if_split_asm)
  next
    case 3
    then show ?thesis using n a by (subst search_from.simps) simp
  qed
qed

text \<open>
  The candidate \<open>c\<close> of \<open>ksiRBTreeNextForKey\<close> is a node at or after every node of
  the subtree still to be searched, or \<^const>\<open>NULL\<close>.
\<close>

definition candidate :: "rbtree \<Rightarrow> int \<Rightarrow> ptr \<Rightarrow> ptr tree \<Rightarrow> bool" where
  "candidate t k c T \<longleftrightarrow> c = NULL \<or> (\<exists>n. rmem t c = Some n \<and> k < rkey n) \<and> (\<forall>a \<in> set_tree T. keyof t a \<le> keyof t c)"

definition least_from :: "rbtree \<Rightarrow> int \<Rightarrow> ptr \<Rightarrow> ptr \<Rightarrow> ptr tree \<Rightarrow> bool" where
  "least_from t k c m T \<longleftrightarrow> (if \<exists>a \<in> set_tree T. k \<le> keyof t a
     then m \<in> set_tree T \<union> ({c} - {NULL}) \<and> k \<le> keyof t m \<and> (\<forall>a \<in> set_tree T. k \<le> keyof t a \<longrightarrow> keyof t m \<le> keyof t a)
     else m = c)"

lemma next_for_key_least:
  assumes s: "\<exists>n. rmem t (rsentinel t) = Some n \<and> rright n = NULL \<and> rkey n = - 1" "rsentinel t \<noteq> NULL" "- 1 < k"
  shows "rep (rmem t) (rsentinel t) p T \<Longrightarrow> NULL \<notin> set_tree T \<Longrightarrow> ordered t T \<Longrightarrow> candidate t k c T \<Longrightarrow>
   \<exists>m. next_for_key t k c (rtop (rsentinel t) T) = Some m \<and> least_from t k c m T"
proof (induction T arbitrary: p c)
  case Leaf
  have "next_for_key t k c (rsentinel t) = Some c"
    using s by (subst next_for_key.simps) (auto simp: next_for_key.simps [of t k c NULL])
  then show ?case by (simp add: least_from_def)
next
  case (Node l a r)
  obtain n where n: "rmem t a = Some n" "rleft n = rtop (rsentinel t) l" "rright n = rtop (rsentinel t) r"
    and a: "a \<noteq> NULL" using Node.prems(1,2) by auto
  have key: "keyof t a = rkey n" using n(1) by simp
  have o: "ordered t l" "ordered t r" "\<forall>b \<in> set_tree l. keyof t b \<le> rkey n" "\<forall>b \<in> set_tree r. rkey n \<le> keyof t b"
    using Node.prems(3) by (auto simp: ordered_def sorted_append key)
  consider "k < rkey n" | "k > rkey n" | "k = rkey n" by linarith
  then show ?case
  proof cases
    case 1
    define c' where "c' = (if c = NULL \<or> rkey n < keyof t c then a else c)"
    have c: "c = NULL \<or> (\<exists>cn. rmem t c = Some cn \<and> k < rkey cn \<and> rkey n \<le> rkey cn)"
      using Node.prems(4) key by (auto simp: candidate_def)
    have step: "next_for_key t k c a = next_for_key t k c' (rtop (rsentinel t) l)"
      using 1 n(1,2) a c by (subst next_for_key.simps) (auto simp: c'_def)
    have c': "keyof t c' = rkey n" "c' = a \<or> c' = c \<and> c \<noteq> NULL" using c key by (auto simp: c'_def)
    have "candidate t k c' l" using c 1 n(1) o(3) key by (auto simp: candidate_def c'_def)
    then obtain m where m: "next_for_key t k c' (rtop (rsentinel t) l) = Some m" "least_from t k c' m l"
      using Node.IH(1) [of a c'] Node.prems o(1) by auto
    have "least_from t k c m (Node l a r)"
    proof (cases "\<exists>b \<in> set_tree l. k \<le> keyof t b")
      case True
      then obtain b where b: "b \<in> set_tree l" "k \<le> keyof t b" by blast
      then have "keyof t m \<le> keyof t b" using m(2) by (auto simp: least_from_def split: if_split_asm)
      also have "\<dots> \<le> rkey n" using b(1) o(3) by blast
      finally have "keyof t m \<le> rkey n" .
      moreover have l: "m \<in> set_tree l \<union> ({c'} - {NULL})" "k \<le> keyof t m"
        "\<forall>b \<in> set_tree l. k \<le> keyof t b \<longrightarrow> keyof t m \<le> keyof t b"
        using m(2) True by (auto simp: least_from_def split: if_split_asm)
      moreover have "\<forall>b \<in> set_tree r. keyof t m \<le> keyof t b" using calculation(1) o(4) order_trans by blast
      moreover have "m \<in> set_tree (Node l a r) \<union> ({c} - {NULL})" using l(1) c'(2) by auto
      moreover have "\<exists>b \<in> set_tree (Node l a r). k \<le> keyof t b" using True by auto
      ultimately show ?thesis by (auto simp: least_from_def key)
    next
      case False
      then show ?thesis using m(2) c' o(4) 1 key by (fastforce simp: least_from_def)
    qed
    then show ?thesis using step m(1) by auto
  next
    case 2
    then have "\<forall>b \<in> set_tree l. keyof t b < k" using o(3) by fastforce
    moreover have "candidate t k c r" using Node.prems(4) by (auto simp: candidate_def)
    then obtain m where "next_for_key t k c (rtop (rsentinel t) r) = Some m" "least_from t k c m r"
      using Node.IH(2) [of a c] Node.prems o(2) by auto
    ultimately show ?thesis using 2 n a key by (subst next_for_key.simps) (auto simp: least_from_def split: if_split_asm)
  next
    case 3
    then show ?thesis using n a key by (subst next_for_key.simps) (auto simp: least_from_def)
  qed
qed

section \<open>Destruction\<close>

definition without :: "ptr set \<Rightarrow> rbtree \<Rightarrow> rbtree" where
  "without A t = t\<lparr>rmem := (\<lambda>a. if a \<in> A then None else rmem t a)\<rparr>"

lemma without_simps [simp]:
  "rsentinel (without A t) = rsentinel t" "rroot (without A t) = rroot t"
  "rmem (without A t) a = (if a \<in> A then None else rmem t a)"
  "without A (without B t) = without (A \<union> B) t" "without {} t = t"
  by (simp_all add: without_def) (rule arg_cong [where f = "\<lambda>h. t\<lparr>rmem := h\<rparr>"], auto)

lemma rfree_node: "rmem t a = Some n \<Longrightarrow> rfree a t = Some (without {a} t)"
  by (auto simp: rfree_def without_def fun_eq_iff)

lemma destroy_nodes:
  "rep (rmem t) (rsentinel t) p T \<Longrightarrow> distinct (inorder T) \<Longrightarrow> rsentinel t \<notin> set_tree T \<Longrightarrow> NULL \<notin> set_tree T \<Longrightarrow>
   rsentinel t \<noteq> NULL \<Longrightarrow> ksiRBNodeDestroy t (rtop (rsentinel t) T) = Some (without (set_tree T) t)"
proof (induction T arbitrary: p t)
  case Leaf
  then show ?case by (subst ksiRBNodeDestroy.simps) simp
next
  case (Node l a r)
  let ?s = "rsentinel t"
  obtain n where n: "rmem t a = Some n" "rleft n = rtop ?s l" "rright n = rtop ?s r"
    and reps: "rep (rmem t) ?s a l" "rep (rmem t) ?s a r" using Node.prems(1) by auto
  have d: "a \<notin> set_tree l" "a \<notin> set_tree r" "set_tree l \<inter> set_tree r = {}" "a \<noteq> ?s"
    using Node.prems(2,3) by auto
  have null: "rtop ?s l \<noteq> NULL" "rtop ?s r \<noteq> NULL" using Node.prems(4,5) by (cases l; cases r; auto)+
  let ?t1 = "without (set_tree l) t" and ?t2 = "without (set_tree l \<union> set_tree r) t"
  have 1: "ksiRBNodeDestroy t (rtop ?s l) = Some ?t1" using Node.IH(1) [OF reps(1)] Node.prems by simp
  have "rep (rmem ?t1) ?s a r"
    by (rule rep_cong [OF reps(2)]) (use d in \<open>auto simp: same_links_def\<close>)
  then have "ksiRBNodeDestroy ?t1 (rtop (rsentinel ?t1) r) = Some (without (set_tree r) ?t1)"
    by (intro Node.IH(2) [of _ a]) (use Node.prems in \<open>auto simp del: without_simps(3)\<close>)
  then have 2: "ksiRBNodeDestroy ?t1 (rtop ?s r) = Some ?t2" by (simp add: Un_commute)
  have 3: "rfree a ?t2 = Some (without (set_tree (Node l a r)) t)"
    using rfree_node [of ?t2 a n] n(1) d by simp
  show ?case using n d null 1 2 3 by (subst ksiRBNodeDestroy.simps) simp
qed

lemma destroyed:
  assumes "rb t T"
  shows "ksiRBTreeDestroy t = Some (t\<lparr>rmem := (\<lambda>a. if a \<in> insert (rsentinel t) (set_tree T) then None else rmem t a)\<rparr>)"
proof -
  have nodes: "ksiRBNodeDestroy t (rroot t) = Some (without (set_tree T) t)"
    using destroy_nodes [of t NULL T] assms by (auto simp: rb_def)
  have "\<exists>n. rmem (without (set_tree T) t) (rsentinel t) = Some n" using assms by (auto simp: rb_def)
  then obtain n where "rmem (without (set_tree T) t) (rsentinel t) = Some n" by blast
  from rfree_node [OF this] have "rfree (rsentinel t) (without (set_tree T) t) = Some (without (insert (rsentinel t) (set_tree T)) t)"
    by simp
  with nodes show ?thesis by (simp add: ksiRBTreeDestroy_def without_def)
qed

section \<open>An example\<close>

text \<open>A tree of three nodes and a node not attached yet, for the examples.\<close>

definition ex_tree :: rbtree where
  "ex_tree = \<lparr>rroot = 3, rsentinel = 1, rmem =
     [1 \<mapsto> \<lparr>rparent = 0, rright = 0, rleft = 0, rkey = - 1, rtype = 1, rdata = 0\<rparr>,
      2 \<mapsto> \<lparr>rparent = 3, rright = 1, rleft = 1, rkey = 5, rtype = 0, rdata = 0\<rparr>,
      3 \<mapsto> \<lparr>rparent = 0, rright = 4, rleft = 2, rkey = 7, rtype = 1, rdata = 0\<rparr>,
      4 \<mapsto> \<lparr>rparent = 3, rright = 1, rleft = 1, rkey = 9, rtype = 0, rdata = 0\<rparr>,
      5 \<mapsto> \<lparr>rparent = 0, rright = 0, rleft = 0, rkey = 6, rtype = 0, rdata = 0\<rparr>]\<rparr>"

definition ex_shape :: "ptr tree" where
  "ex_shape = Node (Node Leaf 2 Leaf) 3 (Node Leaf 4 Leaf)"

lemma ex_rbt: "rbt ex_tree ex_shape"
  by (auto simp: rbt_def rb_def ex_tree_def ex_shape_def ordered_def keyof_def reds_def rbtree_is_red_def
    rbtree_is_black_def RB_COLORMASK_def)

section \<open>The operations of a time sequence\<close>

text \<open>C9: The core of \<open>ksiRBTreeAttach\<close>: on a red-black tree it returns without reading
  through a wild pointer, its re-balancing loop ends, and the result is a red-black tree
  (equal black heights, no red node with a red child, a black root) of the old nodes with the
  new one between the keys not above and the keys above its own; keys and data of all nodes
  are as they were.\<close>

theorem attach_inserts:
  assumes "rbt t T" "rmem t x = Some n" "x \<notin> set_tree T" "x \<noteq> rsentinel t" "x \<noteq> NULL"
  shows "\<exists>t' T'. ksiRBTreeAttach t x = Some t' \<and> rbt t' T' \<and> keeps_nodes t t' \<and>
     inorder T' = filter (\<lambda>a. keyof t a \<le> keyof t x) (inorder T) @ x # filter (\<lambda>a. keyof t x < keyof t a) (inorder T)"
  using insert_attached [OF assms] by (auto simp: attached_def ksiRBTreeAttach_def)

theorem attach_inserts_witness:
  "\<exists>t' T'. ksiRBTreeAttach ex_tree 5 = Some t' \<and> rbt t' T' \<and> inorder T' = [2, 5, 3, 4]"
proof -
  have "\<exists>t' T'. ksiRBTreeAttach ex_tree 5 = Some t' \<and> rbt t' T' \<and> keeps_nodes ex_tree t' \<and>
     inorder T' = filter (\<lambda>a. keyof ex_tree a \<le> keyof ex_tree 5) (inorder ex_shape) @ 5 #
       filter (\<lambda>a. keyof ex_tree 5 < keyof ex_tree a) (inorder ex_shape)"
    by (rule attach_inserts [OF ex_rbt]) (auto simp: ex_tree_def ex_shape_def)
  then show ?thesis by (simp add: ex_shape_def ex_tree_def keyof_def) blast
qed

text \<open>C13: \<open>ksiRBTreeNextForKey\<close> returns, for a key that is not negative, a node with the
  least key from the given one on, or \<^const>\<open>NULL\<close> when every key is below it.\<close>

theorem next_for_key_is_least:
  assumes "rbt t T" "- 1 < k"
  shows "\<exists>m. ksiRBTreeNextForKey t k = Some m \<and>
     (if \<exists>a \<in> set_tree T. k \<le> keyof t a
      then m \<in> set_tree T \<and> k \<le> keyof t m \<and> (\<forall>a \<in> set_tree T. k \<le> keyof t a \<longrightarrow> keyof t m \<le> keyof t a)
      else m = NULL)"
proof -
  have "rb t T" "ordered t T" using assms(1) by (simp_all add: rbt_def)
  moreover have "candidate t k NULL T" by (simp add: candidate_def)
  ultimately obtain m where "next_for_key t k NULL (rtop (rsentinel t) T) = Some m" "least_from t k NULL m T"
    using next_for_key_least [of t k NULL T NULL] assms(2) by (auto simp: rb_def)
  then show ?thesis using \<open>rb t T\<close>
    by (intro exI [of _ m]) (simp add: ksiRBTreeNextForKey_def least_from_def rb_def split: if_split_asm)
qed

theorem next_for_key_is_least_witness:
  "\<exists>m. ksiRBTreeNextForKey ex_tree 6 = Some m \<and> m \<in> set_tree ex_shape \<and> 6 \<le> keyof ex_tree m \<and>
     (\<forall>a \<in> set_tree ex_shape. 6 \<le> keyof ex_tree a \<longrightarrow> keyof ex_tree m \<le> keyof ex_tree a)"
proof -
  have "\<exists>a \<in> set_tree ex_shape. 6 \<le> keyof ex_tree a" by (simp add: ex_shape_def ex_tree_def keyof_def)
  then show ?thesis using next_for_key_is_least [OF ex_rbt, of 6] by simp
qed



text \<open>C15: \<open>ksiRBTreeDestroy\<close> frees every node of the tree and the sentinel, each exactly
  once (a second \<open>free\<close> would fail), and nothing else.\<close>

theorem destroy_frees_all:
  assumes "rb t T"
  shows "ksiRBTreeDestroy t = Some (t\<lparr>rmem := (\<lambda>a. if a \<in> insert (rsentinel t) (set_tree T) then None else rmem t a)\<rparr>)"
  using assms by (rule destroyed)

theorem destroy_frees_all_witness: "\<exists>t. ksiRBTreeDestroy ex_tree = Some t \<and> rmem t 1 = None \<and> rmem t 4 = None \<and> rmem t 5 = rmem ex_tree 5"
  using destroy_frees_all [of ex_tree ex_shape] ex_rbt by (auto simp: rbt_def ex_shape_def ex_tree_def)

text \<open>When the last node is the root itself, \<open>ksiRBTreeNext\<close> reads through the null
  pointer: the root has no parent.\<close>

theorem next_of_last_root_faults:
  assumes "rb t (Node l a Leaf)" "rmem t NULL = None"
  shows "ksiRBTreeNext t a = None"
proof -
  obtain n where "rmem t a = Some n" "rparent n = NULL" "rright n = rsentinel t" using assms(1) by (auto simp: rb_def)
  moreover have "a \<noteq> rsentinel t" "rroot t = a" "a \<noteq> NULL" using assms(1) by (auto simp: rb_def)
  ultimately show ?thesis using assms(2)
    by (simp add: ksiRBTreeNext_def rbtree_next_def climb_right.simps [of t a NULL])
qed

definition ex_single :: rbtree where
  "ex_single = \<lparr>rroot = 2, rsentinel = 1, rmem =
     [1 \<mapsto> \<lparr>rparent = 0, rright = 0, rleft = 0, rkey = - 1, rtype = 1, rdata = 0\<rparr>,
      2 \<mapsto> \<lparr>rparent = 0, rright = 1, rleft = 1, rkey = 0, rtype = 1, rdata = 0\<rparr>]\<rparr>"

theorem next_of_last_root_faults_witness: "ksiRBTreeNext ex_single 2 = None"
  by (rule next_of_last_root_faults [of _ Leaf])
    (auto simp: rb_def ex_single_def rbtree_is_black_def RB_COLORMASK_def)

definition ex_note :: "int \<Rightarrow> rbnode" where
  "ex_note k = \<lparr>rparent = 0, rright = 0, rleft = 0, rkey = k, rtype = 0, rdata = 0\<rparr>"

definition ex_chord :: "rbtree option" where
  "ex_chord = do {
     let t = ksiRBTreeInit 1 (ex_note 0);
     let t = t\<lparr>rmem := (rmem t)(2 \<mapsto> ex_note 5, 3 \<mapsto> ex_note 5, 4 \<mapsto> ex_note 5)\<rparr>;
     t \<leftarrow> ksiRBTreeAttach t 2;
     t \<leftarrow> ksiRBTreeAttach t 3;
     ksiRBTreeAttach t 4
   }"

text \<open>Of several nodes with the key looked for, \<open>ksiRBTreeNextForKey\<close> returns the one
  nearest to the root and not the first in order: after three notes of the same frame, a reader
  that starts at that frame and goes on with \<open>ksiRBTreeNext\<close> never sees the first note.\<close>

theorem lookup_skips_chord_notes:
  "do { t \<leftarrow> ex_chord; ksiRBTreeNextForKey t 5 } = Some 3 \<and>
   do { t \<leftarrow> ex_chord; ksiRBTreeNext t 2 } = Some 3 \<and>
   do { t \<leftarrow> ex_chord; n \<leftarrow> rmem t 2; Some (rkey n) } = Some 5"
  by code_simp

end
