(* ===== verification/Timeseq.thy ===== *)
theory Timeseq
  imports Rbtree_Search Scan Engine_State "HOL-Library.Signed_Division" "HOL-Library.Multiset"
begin

text \<open>
  Time sequences (\<^verbatim>\<open>ksid/resource.c\<close>): a text file of notes is read into a
  red-black tree keyed by the frame at which each note starts, and the tree is registered with
  the engine under an id.

  The file is the list of the lines \<open>getline\<close> delivers. Addresses and the indeterminate
  content of new memory are given by the parameter \<open>mal\<close>: the \<open>k\<close>-th call of
  \<open>malloc\<close> returns \<open>mal k\<close>.
\<close>

type_synonym allocator = "nat \<Rightarrow> ptr \<times> rbnode"

section \<open>Scanning\<close>

text \<open>
  \<open>sscanf\<close> with a format of integer conversions only, given by the number of bits of each
  object. The result is the list of the values assigned (its length is the return value; an
  input failure before the first conversion returns \<open>EOF\<close> in C, like the empty list different
  from the count wanted). A value that does not fit its object is undefined behaviour.
\<close>

fun sscanf_ints :: "nat list \<Rightarrow> string \<Rightarrow> int list option" where
  "sscanf_ints [] s = Some []"
| "sscanf_ints (w # ws) s =
     (case scan_int s of
        None \<Rightarrow> Some []
      | Some (v, r) \<Rightarrow> do {
          need (- (2 ^ (w - 1)) \<le> v \<and> v < 2 ^ (w - 1));
          vs \<leftarrow> sscanf_ints ws r;
          Some (v # vs)
        })"

section \<open>The start frame of a note\<close>

text \<open>\<open>int\<close> arithmetic: overflow and division by zero are undefined.\<close>

definition int_chk :: "int \<Rightarrow> int option" where
  "int_chk i = do { need (int32_ok i); Some i }"

definition int_div :: "int \<Rightarrow> int \<Rightarrow> int option" where
  "int_div a b = do { need (b \<noteq> 0); int_chk (a sdiv b) }"

definition int_mod :: "int \<Rightarrow> int \<Rightarrow> int option" where
  "int_mod a b = do { need (b \<noteq> 0); need (int32_ok (a sdiv b)); Some (a smod b) }"

definition note_time :: "int \<Rightarrow> int \<Rightarrow> int \<Rightarrow> int \<Rightarrow> int \<Rightarrow> int option" where
  "note_time fps barpm bar dv num = do {
     m \<leftarrow> int_chk (fps * 60);
     fpb \<leftarrow> int_div m barpm;
     q \<leftarrow> int_div bar barpm;
     a \<leftarrow> int_chk (q * fps);
     a \<leftarrow> int_chk (a * 60);
     r \<leftarrow> int_mod bar barpm;
     b \<leftarrow> int_chk (r * fpb);
     ab \<leftarrow> int_chk (a + b);
     c \<leftarrow> int_chk (fpb * num);
     c \<leftarrow> int_div c dv;
     int_chk (ab + c)
   }"

section \<open>Reading a file\<close>

text \<open>The bytes \<open>tone\<close> and \<open>velocity\<close> of the node's data, bytes 0 and 2.\<close>

definition set_note :: "int \<Rightarrow> int \<Rightarrow> uint64 \<Rightarrow> uint64" where
  "set_note note vel d =
     (d AND NOT (mask 8 OR push_bit 16 (mask 8))) OR ucast (word_of_int note :: int8) OR push_bit 16 (ucast (word_of_int vel :: int8))"

definition note_tone :: "uint64 \<Rightarrow> int" where
  "note_tone d = sint (ucast d :: int8)"

definition note_velocity :: "uint64 \<Rightarrow> int" where
  "note_velocity d = sint (ucast (drop_bit 16 d) :: int8)"

text \<open>Making the node of a note; the state has the number of calls of \<open>malloc\<close> so far.\<close>

definition add_note :: "allocator \<Rightarrow> nat \<times> rbtree \<Rightarrow> int \<times> int \<times> int \<Rightarrow> (nat \<times> rbtree) option" where
  "add_note mal s e = do {
     let (k, t) = s;
     let (time, note, vel) = e;
     let (p, n) = mal k;
     t \<leftarrow> ksiRBTreeAttach (t\<lparr>rmem := (rmem t)(p \<mapsto> n\<lparr>rkey := time, rdata := set_note note vel (rdata n)\<rparr>)\<rparr>) p;
     Some (Suc k, t)
   }"

text \<open>The loop over the lines.\<close>

fun read_notes :: "allocator \<Rightarrow> int \<Rightarrow> int \<Rightarrow> nat \<times> rbtree \<Rightarrow> string list \<Rightarrow> (KsiError \<times> rbtree) option" where
  "read_notes mal fps barpm s [] = Some (ksiErrorNone, snd s)"
| "read_notes mal fps barpm s (line # rest) = do {
     vs \<leftarrow> sscanf_ints [16, 16, 16, 8, 8] line;
     (case vs of
        [bar, dv, num, note, vel] \<Rightarrow> do {
          time \<leftarrow> note_time fps barpm bar dv num;
          s \<leftarrow> add_note mal s (time, note, vel);
          read_notes mal fps barpm s rest
        }
      | _ \<Rightarrow> Some (ksiErrorSyntax, snd s))
   }"

definition ksiTimeSeqLoadFromTextFile :: "allocator \<Rightarrow> string list \<Rightarrow> int \<Rightarrow> (KsiError \<times> rbtree) option" where
  "ksiTimeSeqLoadFromTextFile mal fp fps = do {
     let (p, n) = mal 0;
     let t = ksiRBTreeInit p n;
     (case fp of
        [] \<Rightarrow> Some (ksiErrorNone, t)
      | line # rest \<Rightarrow> do {
          vs \<leftarrow> sscanf_ints [16] line;
          (case vs of
             [barpm] \<Rightarrow> read_notes mal fps barpm (1, t) rest
           | _ \<Rightarrow> Some (ksiErrorSyntax, t))
        })
   }"

text \<open>
  Registering a tree with the engine. \<open>trees\<close> are the tree objects in memory, each with
  the memory of its own nodes; \<open>n\<close> is the address \<open>malloc\<close> gives the new object and
  \<open>fs\<close> the file system. The result has the error, the engine, the objects and the id when
  one is assigned.
\<close>

type_synonym trees = "ptr \<Rightarrow> rbtree option"

definition ksiTimeSeqLoadToEngineFromTextFilePath ::
  "allocator \<Rightarrow> ptr \<Rightarrow> (string \<Rightarrow> string list option) \<Rightarrow> KsiEngine \<Rightarrow> trees \<Rightarrow> string \<Rightarrow>
   (KsiError \<times> KsiEngine \<times> trees \<times> int option) option" where
  "ksiTimeSeqLoadToEngineFromTextFilePath mal n fs e trees path =
     (if uninitialized e then Some (ksiErrorUninitialized, e, trees, None)
      else (case fs path of
          None \<Rightarrow> Some (ksiErrorFileSystem, e, trees, None)
        | Some fp \<Rightarrow> do {
            (err, t) \<leftarrow> ksiTimeSeqLoadFromTextFile mal fp (framesPerSecond e);
            (if err = ksiErrorNone then do {
               (i, v) \<leftarrow> ksiVecInsert (timeseqResources e) n;
               Some (err, e\<lparr>timeseqResources := v\<rparr>, trees(n \<mapsto> t), Some i)
             }
             else Some (err, e, trees(n \<mapsto> t), None))
          }))"

definition ksiTimeSeqUnloadFromEngine :: "KsiEngine \<Rightarrow> trees \<Rightarrow> int \<Rightarrow> (KsiError \<times> KsiEngine \<times> trees) option" where
  "ksiTimeSeqUnloadFromEngine e trees i =
     (if uninitialized e then Some (ksiErrorUninitialized, e, trees)
      else if vsize (timeseqResources e) \<le> i then Some (ksiErrorResIdNotFound, e, trees)
      else do {
        n \<leftarrow> get_at (vdata (timeseqResources e)) i;
        (if n = NULL then Some (ksiErrorResIdNotFound, e, trees)
         else do {
           v \<leftarrow> ksiVecDelete (timeseqResources e) i;
           t \<leftarrow> trees n;
           _ \<leftarrow> ksiRBTreeDestroy t;
           Some (ksiErrorNone, e\<lparr>timeseqResources := v\<rparr>, trees(n := None))
         })
      })"

section \<open>Loading sorts the notes\<close>

lemma sort_key_snoc:
  "sort_key f (xs @ [x]) = filter (\<lambda>a. f a \<le> f x) (sort_key f xs) @ x # filter (\<lambda>a. f x < f a) (sort_key f xs)"
    (is "_ = ?ys")
proof (rule properties_for_sort_key)
  let ?s = "sort_key f xs"
  have "mset (filter (\<lambda>a. f a \<le> f x) ?s @ filter (\<lambda>a. f x < f a) ?s) = mset xs"
    using multiset_partition [of "mset ?s" "\<lambda>a. f a \<le> f x"] by (simp add: not_le)
  then show "mset ?ys = mset (xs @ [x])" by simp
  have "sorted (map f (filter P ?s))" for P by (rule sorted_filter) simp
  then show "sorted (map f ?ys)" by (auto simp: sorted_append)
  show "filter (\<lambda>a. f k = f a) ?ys = filter (\<lambda>a. f k = f a) (xs @ [x])" if "k \<in> set ?ys" for k
  proof -
    have st: "filter (\<lambda>a. f k = f a) ?s = filter (\<lambda>a. f k = f a) xs"
      using sort_key_stable [of f "f k" xs] by (simp add: eq_commute)
    show ?thesis
    proof (cases "f k \<le> f x")
      case True
      then have "filter (\<lambda>a. f k = f a) (filter (\<lambda>a. f a \<le> f x) ?s) = filter (\<lambda>a. f k = f a) ?s"
        "filter (\<lambda>a. f k = f a) (filter (\<lambda>a. f x < f a) ?s) = []"
        by (auto intro: filter_cong simp: filter_empty_conv)
      then show ?thesis using st by auto
    next
      case False
      then have "filter (\<lambda>a. f k = f a) (filter (\<lambda>a. f a \<le> f x) ?s) = []"
        "filter (\<lambda>a. f k = f a) (filter (\<lambda>a. f x < f a) ?s) = filter (\<lambda>a. f k = f a) ?s"
        by (auto intro: filter_cong simp: filter_empty_conv)
      then show ?thesis using False by (auto simp: st)
    qed
  qed
qed

text \<open>
  What a client relies on when it adds items to a store that keeps them in order: the new item
  comes after those with a key not above its own.
\<close>

fun adds :: "('s \<Rightarrow> 'e \<Rightarrow> 's option) \<Rightarrow> 's \<Rightarrow> 'e list \<Rightarrow> 's option" where
  "adds add s [] = Some s"
| "adds add s (e # es) = do { s \<leftarrow> add s e; adds add s es }"

locale sorted_store =
  fixes add :: "'s \<Rightarrow> 'e \<Rightarrow> 's option"
    and holds :: "'s \<Rightarrow> 'e list \<Rightarrow> bool"
    and fits :: "'e \<Rightarrow> bool"
    and key :: "'e \<Rightarrow> int"
  assumes add_ok: "holds s xs \<Longrightarrow> fits e \<Longrightarrow>
      \<exists>s'. add s e = Some s' \<and> holds s' (filter (\<lambda>x. key x \<le> key e) xs @ e # filter (\<lambda>x. key e < key x) xs)"
begin

lemma adds_sort:
  "holds s (sort_key key xs) \<Longrightarrow> \<forall>e \<in> set es. fits e \<Longrightarrow>
   \<exists>s'. adds add s es = Some s' \<and> holds s' (sort_key key (xs @ es))"
proof (induction es arbitrary: s xs)
  case (Cons e es)
  obtain s' where s': "add s e = Some s'" "holds s' (sort_key key (xs @ [e]))"
    using add_ok [OF Cons.prems(1), of e] Cons.prems(2) unfolding sort_key_snoc by auto
  then show ?case using Cons.IH [OF s'(2)] Cons.prems(2) by auto
qed auto

end

text \<open>A line as the note it stands for: the frame, the tone and the velocity.\<close>

definition note_of :: "int \<Rightarrow> int \<Rightarrow> string \<Rightarrow> (int \<times> int \<times> int) option" where
  "note_of fps barpm line = do {
     vs \<leftarrow> sscanf_ints [16, 16, 16, 8, 8] line;
     (case vs of
        [bar, dv, num, note, vel] \<Rightarrow> do { time \<leftarrow> note_time fps barpm bar dv num; Some (time, note, vel) }
      | _ \<Rightarrow> None)
   }"

definition note_at :: "rbtree \<Rightarrow> ptr \<Rightarrow> int \<times> int \<times> int" where
  "note_at t a = (case rmem t a of
     Some n \<Rightarrow> (rkey n, note_tone (rdata n), note_velocity (rdata n)) | None \<Rightarrow> (0, 0, 0))"

lemma note_bytes:
  assumes "- (2 ^ 7) \<le> note" "note < 2 ^ 7" "- (2 ^ 7) \<le> vel" "vel < 2 ^ 7"
  shows "note_tone (set_note note vel d) = note" "note_velocity (set_note note vel d) = vel"
proof -
  have a: "sint (word_of_int note :: int8) = note" "sint (word_of_int vel :: int8) = vel"
    using assms by (simp_all add: sint_sbintrunc' signed_take_bit_int_eq_self)
  have "ucast (set_note note vel d) = (word_of_int note :: int8)"
    by (rule bit_word_eqI) (auto simp: set_note_def bit_simps)
  moreover have "ucast (drop_bit 16 (set_note note vel d)) = (word_of_int vel :: int8)"
    by (rule bit_word_eqI) (auto simp: set_note_def bit_simps)
  ultimately show "note_tone (set_note note vel d) = note" "note_velocity (set_note note vel d) = vel"
    using a by (simp_all only: note_tone_def note_velocity_def)
qed

text \<open>New memory outside the tree does not matter to it.\<close>

lemma rbt_malloc:
  assumes "rbt t T" "p \<notin> set_tree T" "p \<noteq> rsentinel t"
  shows "rbt (t\<lparr>rmem := (rmem t)(p \<mapsto> n)\<rparr>) T"
proof -
  let ?t = "t\<lparr>rmem := (rmem t)(p \<mapsto> n)\<rparr>"
  have "rb t T" using assms(1) by (simp add: rbt_def)
  moreover have "rep (rmem ?t) (rsentinel t) NULL T"
    by (rule rep_cong [of "rmem t"]) (use calculation assms(2) in \<open>auto simp: rb_def same_links_def\<close>)
  ultimately have "rb ?t T" using assms(3) by (simp add: rb_def)
  moreover have "same_col (reds ?t) (reds t) (set_tree T)" using assms(2) by (auto simp: same_col_def reds_def)
  moreover have "map (keyof ?t) (inorder T) = map (keyof t) (inorder T)"
    using assms(2) by (auto simp: keyof_def)
  then have "ordered ?t T" using assms(1) by (simp only: ordered_def rbt_def)
  ultimately show ?thesis using assms(1) okh_cong [of "reds ?t" "reds t" T] okc_cong [of "reds ?t" "reds t" T]
      redtop_cong [of "reds ?t" "reds t" T]
    by (simp add: rbt_def)
qed

definition good_malloc :: "allocator \<Rightarrow> bool" where
  "good_malloc mal \<longleftrightarrow> inj (\<lambda>k. fst (mal k)) \<and> (\<forall>k. fst (mal k) \<noteq> NULL)"

text \<open>The notes the tree holds in order, with \<open>k\<close> calls of \<open>malloc\<close>.\<close>

definition holds_notes :: "allocator \<Rightarrow> nat \<times> rbtree \<Rightarrow> (int \<times> int \<times> int) list \<Rightarrow> bool" where
  "holds_notes mal s evs \<longleftrightarrow> (case s of (k, t) \<Rightarrow>
     good_malloc mal \<and> 0 < k \<and> rsentinel t = fst (mal 0) \<and>
     (\<exists>T. rbt t T \<and> set_tree T \<subseteq> (\<lambda>k. fst (mal k)) ` {1..<k} \<and> map (note_at t) (inorder T) = evs))"

definition note_fits :: "int \<times> int \<times> int \<Rightarrow> bool" where
  "note_fits e \<longleftrightarrow> (case e of (time, note, vel) \<Rightarrow> - (2 ^ 7) \<le> note \<and> note < 2 ^ 7 \<and> - (2 ^ 7) \<le> vel \<and> vel < 2 ^ 7)"

lemma note_at_keeps: "keeps_nodes t t' \<Longrightarrow> note_at t' a = note_at t a"
proof -
  assume "keeps_nodes t t'"
  then have "map_option (\<lambda>n. (rkey n, rdata n)) (rmem t' a) = map_option (\<lambda>n. (rkey n, rdata n)) (rmem t a)"
    by (simp add: keeps_nodes_def)
  then show ?thesis by (cases "rmem t a"; cases "rmem t' a") (auto simp: note_at_def)
qed

lemma fst_note_at: "fst (note_at t a) = keyof t a"
  by (simp add: note_at_def keyof_def split: option.split)

lemma init_holds_none:
  assumes "good_malloc mal" "mal 0 = (p, n)"
  shows "holds_notes mal (1, ksiRBTreeInit p n) []"
proof -
  have p: "p \<noteq> NULL" "p = fst (mal 0)" using assms by (auto simp: good_malloc_def split: prod.splits) (metis fst_conv)
  have "rb (ksiRBTreeInit p n) Leaf"
    using p is_red_black(1) [of "rbtree_node_init n"]
    by (auto simp: rb_def ksiRBTreeInit_def rbtree_is_red_def) (simp_all add: rbtree_black_def rbtree_node_init_def)
  then show ?thesis using p assms(1) by (auto simp: holds_notes_def rbt_def ordered_def ksiRBTreeInit_def intro!: exI [of _ Leaf])
qed

lemma add_note_holds:
  assumes s: "holds_notes mal s evs" and e: "note_fits e"
  shows "\<exists>s'. add_note mal s e = Some s' \<and>
     holds_notes mal s' (filter (\<lambda>x. fst x \<le> fst e) evs @ e # filter (\<lambda>x. fst e < fst x) evs)"
proof -
  obtain k t where st: "s = (k, t)" by (cases s)
  obtain time nt vel where en: "e = (time, nt, vel)" by (cases e)
  obtain p n where mk: "mal k = (p, n)" by (cases "mal k")
  obtain T where T: "rbt t T" "set_tree T \<subseteq> (\<lambda>k. fst (mal k)) ` {1..<k}" "map (note_at t) (inorder T) = evs"
    and k: "0 < k" "rsentinel t = fst (mal 0)" and mal: "good_malloc mal"
    using s by (auto simp: holds_notes_def st)
  let ?n = "n\<lparr>rkey := time, rdata := set_note nt vel (rdata n)\<rparr>"
  let ?t = "t\<lparr>rmem := (rmem t)(p \<mapsto> ?n)\<rparr>"
  have p: "p = fst (mal k)" using mk by simp
  have inj: "fst (mal i) = fst (mal j) \<Longrightarrow> i = j" for i j
    using mal by (auto simp: good_malloc_def inj_def)
  have pT: "p \<notin> set_tree T" "p \<noteq> rsentinel t" "p \<noteq> NULL"
    using T(2) k inj mal by (force simp: p, auto simp: p good_malloc_def)
  have b: "- (2 ^ 7) \<le> nt" "nt < 2 ^ 7" "- (2 ^ 7) \<le> vel" "vel < 2 ^ 7" using e by (auto simp: note_fits_def en)
  have old: "note_at ?t a = note_at t a" if "a \<in> set_tree T" for a
    using that pT by (auto simp: note_at_def)
  have new: "note_at ?t p = e" using note_bytes [OF b] by (simp add: note_at_def en)
  obtain t' T' where a: "ksiRBTreeAttach ?t p = Some t'" "rbt t' T'" "keeps_nodes ?t t'"
    "inorder T' = filter (\<lambda>a. keyof ?t a \<le> keyof ?t p) (inorder T) @ p # filter (\<lambda>a. keyof ?t p < keyof ?t a) (inorder T)"
    using insert_attached [of ?t T p ?n] rbt_malloc [OF T(1) pT(1,2)] pT by (auto simp: attached_def ksiRBTreeAttach_def)
  have m: "map (note_at ?t) (filter (\<lambda>a. P (fst (note_at ?t a))) (inorder T)) = filter (\<lambda>e. P (fst e)) evs" for P
  proof -
    have "map (note_at ?t) (inorder T) = map (note_at t) (inorder T)" by (rule map_cong) (use old in auto)
    then have e: "evs = map (note_at ?t) (inorder T)" by (simp only: T(3))
    show ?thesis unfolding e by (simp only: filter_map comp_def)
  qed
  have f: "note_at t' = note_at ?t" by (rule ext, rule note_at_keeps [OF a(3)])
  have "map (note_at t') (inorder T') = filter (\<lambda>x. fst x \<le> fst e) evs @ e # filter (\<lambda>x. fst e < fst x) evs"
    unfolding f a(4) using m [of "\<lambda>k. k \<le> fst e"] m [of "\<lambda>k. fst e < k"] new
    by (simp flip: fst_note_at)
  moreover have "set_tree T' \<subseteq> (\<lambda>k. fst (mal k)) ` {1..<Suc k}"
    using arg_cong [OF a(4), of set] T(2) k by (auto simp: p)
  moreover have "rsentinel t' = fst (mal 0)" using a(3) k by (simp add: keeps_nodes_def)
  moreover have "add_note mal s e = Some (Suc k, t')" using a(1) by (simp add: add_note_def st en mk)
  ultimately show ?thesis using a(2) mal by (auto simp: holds_notes_def)
qed

interpretation score: sorted_store "add_note mal" "holds_notes mal" note_fits fst for mal
  by unfold_locales (rule add_note_holds)

lemma sscanf_ints_bounds:
  "sscanf_ints ws s = Some vs \<Longrightarrow> list_all2 (\<lambda>w v. - (2 ^ (w - 1)) \<le> v \<and> v < 2 ^ (w - 1)) (take (length vs) ws) vs"
  by (induction ws s arbitrary: vs rule: sscanf_ints.induct)
    (auto split: option.splits prod.splits if_splits simp: bind_eq_Some_conv)

lemma five_values:
  "(case vs of [a, b, c, d, e] \<Rightarrow> f a b c d e | _ \<Rightarrow> None) = Some y \<Longrightarrow>
   \<exists>a b c d e. vs = [a, b, c, d, e] \<and> f a b c d e = Some y"
  by (simp split: list.splits)

lemma note_of_scan:
  assumes "note_of fps barpm line = Some (time, nt, vel)"
  shows "\<exists>bar dv num. sscanf_ints [16, 16, 16, 8, 8] line = Some [bar, dv, num, nt, vel] \<and>
     note_time fps barpm bar dv num = Some time \<and>
     - (2 ^ 7) \<le> nt \<and> nt < 2 ^ 7 \<and> - (2 ^ 7) \<le> vel \<and> vel < 2 ^ 7"
proof -
  obtain vs where "sscanf_ints [16, 16, 16, 8, 8] line = Some vs"
    "(case vs of [bar, dv, num, nt, vel] \<Rightarrow> do { time \<leftarrow> note_time fps barpm bar dv num; Some (time, nt, vel) } | _ \<Rightarrow> None) =
       Some (time, nt, vel)"
    using assms by (auto simp only: note_of_def bind_eq_Some_conv)
  moreover from five_values [OF this(2)]
  obtain bar dv num nt' vel' where "vs = [bar, dv, num, nt', vel']"
    "do { time \<leftarrow> note_time fps barpm bar dv num; Some (time, nt', vel') } = Some (time, nt, vel)" by blast
  ultimately obtain bar dv num where v: "sscanf_ints [16, 16, 16, 8, 8] line = Some [bar, dv, num, nt, vel]"
    "note_time fps barpm bar dv num = Some time"
    by (auto simp only: bind_eq_Some_conv option.inject prod.inject)
  then show ?thesis using sscanf_ints_bounds [OF v(1)] by auto
qed

lemma read_notes_adds:
  assumes "map (note_of fps barpm) ls = map Some es"
  shows "(\<forall>e \<in> set es. note_fits e) \<and>
     read_notes mal fps barpm s (ls @ rest) = do { s \<leftarrow> adds (add_note mal) s es; read_notes mal fps barpm s rest }"
  using assms
proof (induction ls arbitrary: s es)
  case (Cons l ls)
  obtain time nt vel es' where es: "es = (time, nt, vel) # es'" "note_of fps barpm l = Some (time, nt, vel)"
    "map (note_of fps barpm) ls = map Some es'"
    using Cons.prems by (cases es) auto
  obtain bar dv num where "sscanf_ints [16, 16, 16, 8, 8] l = Some [bar, dv, num, nt, vel]"
    "note_time fps barpm bar dv num = Some time" "note_fits (time, nt, vel)"
    using note_of_scan [OF es(2)] by (auto simp: note_fits_def)
  then show ?case using Cons.IH [OF es(3)] es(1) by simp
qed simp

lemma load_holds:
  assumes "good_malloc mal" "sscanf_ints [16] tempo = Some [barpm]" "map (note_of fps barpm) ls = map Some es"
  shows "\<exists>s. holds_notes mal s (sort_key fst es) \<and>
     ksiTimeSeqLoadFromTextFile mal (tempo # ls @ rest) fps = read_notes mal fps barpm s rest"
proof -
  obtain p n where pn: "mal 0 = (p, n)" by (cases "mal 0")
  note r = read_notes_adds [OF assms(3), of mal "(1, ksiRBTreeInit p n)" rest]
  have "holds_notes mal (1, ksiRBTreeInit p n) (sort_key fst [])" using init_holds_none [OF assms(1) pn] by simp
  from score.adds_sort [OF this, of es] r obtain s where
    "adds (add_note mal) (1, ksiRBTreeInit p n) es = Some s" "holds_notes mal s (sort_key fst es)" by auto
  moreover from this have "ksiTimeSeqLoadFromTextFile mal (tempo # ls @ rest) fps = read_notes mal fps barpm s rest"
    using r pn assms(2) by (simp add: ksiTimeSeqLoadFromTextFile_def)
  ultimately show ?thesis by blast
qed

section \<open>Properties\<close>

text \<open>A file of three notes for the examples.\<close>

definition ex_mal :: allocator where
  "ex_mal k = (Suc k, ex_note 0)"

definition ex_file :: "string list" where
  "ex_file = [''0 4 1 64 100'', ''0 4 0 60 100'', ''0 4 1 67 100'']"

lemma ex_mal_good: "good_malloc ex_mal"
  by (simp add: good_malloc_def ex_mal_def inj_def)

lemma ex_scan: "sscanf_ints [16] ''60'' = Some [60]"
  "map (note_of 48000 60) ex_file = map Some [(12000, 64, 100), (0, 60, 100), (12000, 67, 100)]"
  by code_simp+

lemma ex_scan_engine: "map (note_of (framesPerSecond (ksiEngineInit 64 48000)) 60) ex_file =
    map Some [(12000, 64, 100), (0, 60, 100), (12000, 67, 100)]"
  using ex_scan(2) by (simp add: ksiEngineInit_def)

text \<open>C11: Loading a file whose first line is the tempo and whose other lines are notes with a
  defined start frame succeeds, every insertion into the tree and the re-balancing included, and
  the tree's nodes in order are the file's notes sorted by start frame, notes of the same frame
  in the order of the file.\<close>

theorem load_sorts_notes:
  assumes "good_malloc mal" "sscanf_ints [16] tempo = Some [barpm]" "map (note_of fps barpm) ls = map Some notes"
  shows "\<exists>t T. ksiTimeSeqLoadFromTextFile mal (tempo # ls) fps = Some (ksiErrorNone, t) \<and> rbt t T \<and>
     map (note_at t) (inorder T) = sort_key fst notes"
  using load_holds [OF assms, of "[]"] by (auto simp: holds_notes_def)

theorem load_sorts_notes_witness:
  "\<exists>t T. ksiTimeSeqLoadFromTextFile ex_mal (''60'' # ex_file) 48000 = Some (ksiErrorNone, t) \<and> rbt t T \<and>
     map (note_at t) (inorder T) = [(0, 60, 100), (12000, 64, 100), (12000, 67, 100)]"
  using load_sorts_notes [OF ex_mal_good ex_scan] by simp

text \<open>A line that does not scan as five numbers stops the loading with
  \<open>ksiErrorSyntax\<close>: the engine keeps its resources and no id is assigned, but the tree object
  with the notes read so far stays allocated although nothing points to it.\<close>

theorem load_error_leaks:
  assumes "good_malloc mal" "sscanf_ints [16] tempo = Some [barpm]"
    "map (note_of (framesPerSecond e) barpm) ls = map Some notes"
    "sscanf_ints [16, 16, 16, 8, 8] line = Some vs" "List.length vs \<noteq> 5"
    "\<not> uninitialized e" "fs path = Some (tempo # ls @ line # rest)"
  shows "\<exists>t T. ksiTimeSeqLoadToEngineFromTextFilePath mal n fs e trees path =
       Some (ksiErrorSyntax, e, trees(n \<mapsto> t), None) \<and> rbt t T \<and> map (note_at t) (inorder T) = sort_key fst notes"
proof -
  obtain s where s: "holds_notes mal s (sort_key fst notes)"
    "ksiTimeSeqLoadFromTextFile mal (tempo # ls @ line # rest) (framesPerSecond e) =
       read_notes mal (framesPerSecond e) barpm s (line # rest)"
    using load_holds [OF assms(1-3)] by blast
  have "read_notes mal (framesPerSecond e) barpm s (line # rest) = Some (ksiErrorSyntax, snd s)"
    using assms(4,5) by (auto split: list.splits)
  then show ?thesis using s assms(6,7)
    by (auto simp: ksiTimeSeqLoadToEngineFromTextFilePath_def holds_notes_def)
qed

theorem load_error_leaks_witness:
  "\<exists>t T. ksiTimeSeqLoadToEngineFromTextFilePath ex_mal 1 (\<lambda>p. Some (''60'' # ex_file @ [''0 4 x''])) (ksiEngineInit 64 48000) Map.empty ''f'' =
       Some (ksiErrorSyntax, ksiEngineInit 64 48000, [1 \<mapsto> t], None) \<and> rbt t T \<and>
     map (note_at t) (inorder T) = [(0, 60, 100), (12000, 64, 100), (12000, 67, 100)]"
proof -
  have "sscanf_ints [16, 16, 16, 8, 8] ''0 4 x'' = Some [0, 4]" by code_simp
  then show ?thesis
    using load_error_leaks [OF ex_mal_good ex_scan(1) ex_scan_engine, where line = "''0 4 x''" and vs = "[0, 4]"
        and fs = "\<lambda>p. Some (''60'' # ex_file @ [''0 4 x''])" and path = "''f''" and n = 1 and trees = Map.empty and rest = "[]"]
    by (simp add: uninitialized_def ksiEngineInit_def ksiEngineUninitialized_def)
qed

text \<open>C12: Unloading the id a successful load returned gives the engine its old table of resources
  back, destroys the tree without a fault and releases its object.\<close>

theorem load_unload:
  assumes "good_malloc mal" "sscanf_ints [16] tempo = Some [barpm]"
    "map (note_of (framesPerSecond e) barpm) ls = map Some notes" "fs path = Some (tempo # ls)"
    "\<not> uninitialized e" "vec_wf (timeseqResources e)" "vcap (timeseqResources e) < 2 ^ 30"
    "n \<noteq> NULL" "trees n = None"
  shows "\<exists>e' t i v. ksiTimeSeqLoadToEngineFromTextFilePath mal n fs e trees path =
       Some (ksiErrorNone, e', trees(n \<mapsto> t), Some i) \<and> vec_map (timeseqResources e') i = Some n \<and>
     ksiTimeSeqUnloadFromEngine e' (trees(n \<mapsto> t)) i = Some (ksiErrorNone, e'\<lparr>timeseqResources := v\<rparr>, trees) \<and>
     vec_map v = vec_map (timeseqResources e)"
proof -
  let ?v = "timeseqResources e"
  obtain s where s: "holds_notes mal s (sort_key fst notes)"
    "ksiTimeSeqLoadFromTextFile mal (tempo # ls) (framesPerSecond e) = Some (ksiErrorNone, snd s)"
    using load_holds [OF assms(1-3), of "[]"] by auto
  then obtain T where T: "rb (snd s) T" by (auto simp: holds_notes_def rbt_def)
  obtain i v' where ins: "ksiVecInsert ?v n = Some (i, v')" using ids.ins_ok [OF assms(6-8)] by blast
  note f = ids.ins_fresh [OF assms(6-8) ins]
  obtain v where del: "ksiVecDelete v' i = Some v" "vec_map v = vec_map ?v"
    using ids.ins_del [OF assms(6-8) ins] by blast
  let ?e = "e\<lparr>timeseqResources := v'\<rparr>"
  have load: "ksiTimeSeqLoadToEngineFromTextFilePath mal n fs e trees path =
      Some (ksiErrorNone, ?e, trees(n \<mapsto> snd s), Some i)"
    using s(2) assms(4,5) ins by (simp add: ksiTimeSeqLoadToEngineFromTextFilePath_def)
  have i: "vec_map v' i = Some n" using f(4) by simp
  then have "i < vsize v'" "get_at (vdata v') i = Some n"
    using f(1,2) vec_wfD(2,3) [OF f(1)] by (auto simp: vec_map_def get_at_def split: if_split_asm)
  moreover have "\<exists>t. ksiRBTreeDestroy (snd s) = Some t" using destroyed [OF T] by blast
  moreover have "\<not> uninitialized ?e" using assms(5) by (simp add: uninitialized_def)
  ultimately have "ksiTimeSeqUnloadFromEngine ?e (trees(n \<mapsto> snd s)) i = Some (ksiErrorNone, ?e\<lparr>timeseqResources := v\<rparr>, trees)"
    using del(1) assms(8,9) by (auto simp: ksiTimeSeqUnloadFromEngine_def fun_upd_idem)
  then show ?thesis using load i del(2) by auto
qed

theorem load_unload_witness:
  "\<exists>e' t i v. ksiTimeSeqLoadToEngineFromTextFilePath ex_mal 1 (\<lambda>p. Some (''60'' # ex_file)) (ksiEngineInit 64 48000) Map.empty ''f'' =
       Some (ksiErrorNone, e', [1 \<mapsto> t], Some i) \<and>
     ksiTimeSeqUnloadFromEngine e' [1 \<mapsto> t] i = Some (ksiErrorNone, e'\<lparr>timeseqResources := v\<rparr>, Map.empty) \<and>
     vec_map v = Map.empty"
proof -
  have v: "timeseqResources (ksiEngineInit 64 48000) = ksiVecInit 256"
    by (simp add: ksiEngineInit_def ksiEngineNodesDefaultCapacity_def)
  show ?thesis
    using load_unload [OF ex_mal_good ex_scan(1) ex_scan_engine, where fs = "\<lambda>p. Some (''60'' # ex_file)"
        and path = "''f''" and n = 1 and trees = Map.empty]
    by (auto simp: v vec_wf_init ksiVecInit_sizes) (auto simp: uninitialized_def ksiEngineInit_def ksiEngineUninitialized_def)
qed

text \<open>A file with tempo 0 makes the reader divide by zero on the first note.\<close>

theorem zero_tempo_faults:
  assumes "sscanf_ints [16] tempo = Some [0]" "sscanf_ints [16, 16, 16, 8, 8] line = Some [bar, dv, num, nt, vel]"
  shows "ksiTimeSeqLoadFromTextFile mal (tempo # line # ls) fps = None"
proof -
  have "note_time fps 0 bar dv num = None" by (simp add: note_time_def int_div_def)
  then show ?thesis using assms by (cases "mal 0") (simp add: ksiTimeSeqLoadFromTextFile_def)
qed

theorem zero_tempo_faults_witness: "ksiTimeSeqLoadFromTextFile ex_mal [''0'', ''0 4 0 60 100''] 48000 = None"
proof -
  have "sscanf_ints [16] ''0'' = Some [0]" "sscanf_ints [16, 16, 16, 8, 8] ''0 4 0 60 100'' = Some [0, 4, 0, 60, 100]"
    by code_simp+
  then show ?thesis by (rule zero_tempo_faults)
qed

end
