(* ===== verification/Lifecycle.thy ===== *)
theory Lifecycle
  imports Engine_Run Timeseq
begin

text \<open>
  The ends of an engine's life: its audio stream (\<^verbatim>\<open>ksid/io/pa_io.c\<close>) and its destruction
  (\<^verbatim>\<open>ksid/engine.c\<close>). PortAudio is a parameter: \<open>pa_open k\<close> is the answer to opening a stream
  in the \<open>k\<close>-th call, an error text if it fails, and whether the stream pointer is set then;
  \<open>pa_start\<close>, \<open>pa_stop\<close> and \<open>pa_close\<close> are error texts if those calls fail.
\<close>

record portaudio =
  pa_open :: "nat \<Rightarrow> string option \<times> bool"
  pa_start :: "nat \<Rightarrow> string option"
  pa_stop :: "nat \<Rightarrow> string option"
  pa_close :: "nat \<Rightarrow> string option"

section \<open>The audio stream\<close>

text \<open>A stream that cannot be stopped or closed ends the program (\<open>ksiPAError\<close>).\<close>

definition paIODestroy :: "portaudio \<Rightarrow> nat \<Rightarrow> KsiEngine \<Rightarrow> (KsiError \<times> KsiEngine) option" where
  "paIODestroy pa k e =
     (if uninitialized e then Some (ksiErrorUninitialized, e)
      else if driver_env e then do {
        need (pa_stop pa k = None);
        need (pa_close pa k = None);
        Some (ksiErrorNone, e\<lparr>driver_env := False\<rparr>)
      }
      else Some (ksiErrorNone, e))"

text \<open>The result has the error and the text stored for the client.\<close>

definition paIOInit :: "portaudio \<Rightarrow> nat \<Rightarrow> KsiEngine \<Rightarrow> ((KsiError \<times> string option) \<times> KsiEngine) option" where
  "paIOInit pa k e =
     (if uninitialized e then Some ((ksiErrorUninitialized, None), e)
      else do {
        (err, e) \<leftarrow> (if driver_env e then paIODestroy pa k e else Some (ksiErrorNone, e));
        (if err \<noteq> ksiErrorNone then Some ((err, None), e)
         else do {
           let (perr, stream) = pa_open pa k;
           let e = e\<lparr>driver_env := stream\<rparr>;
           (case perr of
              Some t \<Rightarrow> Some ((ksiErrorAudio, Some t), e)
            | None \<Rightarrow>
                (case pa_start pa k of
                   Some t \<Rightarrow> Some ((ksiErrorAudio, Some t), e)
                 | None \<Rightarrow> Some ((ksiErrorNone, None), e)))
         })
      })"

section \<open>Destruction\<close>

fun destroy_resources :: "(int \<times> ptr) list \<Rightarrow> trees \<Rightarrow> trees option" where
  "destroy_resources [] ts = Some ts"
| "destroy_resources ((i, p) # rest) ts = do {
     t \<leftarrow> ts p;
     _ \<leftarrow> ksiRBTreeDestroy t;
     destroy_resources rest (ts(p := None))
   }"

text \<open>
  The engine stops or is marked, the committer is woken, makes a round and, as the engine is
  finalizing, ends; then what the engine holds is released. The result is what is left.
\<close>

definition ksiEngineDestroy :: "running \<Rightarrow> trees \<Rightarrow> (worker_pool \<times> trees) option" where
  "ksiEngineDestroy s ts = do {
     let (e, wp) = (if playing (fst s) \<noteq> 0 then snd (impl_ksiEngineStop ksiEngineFinalizing s)
                    else ((fst s)\<lparr>playing := ksiEngineFinalizing\<rparr>, snd s));
     e \<leftarrow> ksiMVCCCommitter_round (e\<lparr>committingSem := ksiSemPost (committingSem e)\<rparr>);
     ts \<leftarrow> destroy_resources (ksiVecIterate (timeseqResources e)) ts;
     _ \<leftarrow> ksiSPSCListDestroy (syncCmds e);
     _ \<leftarrow> ksiSPSCListDestroy (freeBufs e);
     _ \<leftarrow> ksiSPSCListDestroy (mallocBufs e);
     Some (wp, ts)
   }"

end
