(* ===== verification/Format.thy ===== *)
theory Format
  imports Data Scan
begin

text \<open>
  The formats of \<open>sscanf\<close> and \<open>fprintf\<close> the command interpreter uses: several conversions with
  literal characters between them, floating point numbers, and decimal output.
\<close>

section \<open>Formats of integers and literals\<close>

text \<open>\<open>Dec w\<close> is the decimal conversion into an object of \<open>w\<close> bits, \<open>Size\<close> is \<open>%zu\<close>, \<open>Char\<close>
  is \<open>%c\<close>, \<open>Space\<close> is white space in the format and \<open>Count\<close> is \<open>%n\<close>.\<close>

datatype conv = Dec nat | Size | Char | Lit char | Space | Count

datatype item = Num int | Chr char | Pos nat

text \<open>
  The assignments made until the first conversion that fails; \<open>n\<close> characters have been read.
  The return value of \<open>sscanf\<close> is the number of assignments other than \<open>Pos\<close>. A number that
  does not fit its object is undefined behaviour.
\<close>

fun sscanf_items :: "conv list \<Rightarrow> nat \<Rightarrow> string \<Rightarrow> item list option" where
  "sscanf_items [] n s = Some []"
| "sscanf_items (Dec w # cs) n s =
     (case scan_int s of
        None \<Rightarrow> Some []
      | Some (v, r) \<Rightarrow> do {
          need (- (2 ^ (w - 1)) \<le> v \<and> v < 2 ^ (w - 1));
          xs \<leftarrow> sscanf_items cs (n + (length s - length r)) r;
          Some (Num v # xs)
        })"
| "sscanf_items (Size # cs) n s =
     (case scan_int s of
        None \<Rightarrow> Some []
      | Some (v, r) \<Rightarrow> do {
          need (- (2 ^ 64) < v \<and> v < 2 ^ 64);
          xs \<leftarrow> sscanf_items cs (n + (length s - length r)) r;
          Some (Num (v mod 2 ^ 64) # xs)
        })"
| "sscanf_items (Char # cs) n s =
     (case s of
        [] \<Rightarrow> Some []
      | c # r \<Rightarrow> do { xs \<leftarrow> sscanf_items cs (Suc n) r; Some (Chr c # xs) })"
| "sscanf_items (Lit l # cs) n s =
     (case s of
        [] \<Rightarrow> Some []
      | c # r \<Rightarrow> if c = l then sscanf_items cs (Suc n) r else Some [])"
| "sscanf_items (Space # cs) n s =
     (let r = dropWhile is_space s in sscanf_items cs (n + (length s - length r)) r)"
| "sscanf_items (Count # cs) n s = do { xs \<leftarrow> sscanf_items cs n s; Some (Pos n # xs) }"

definition sscanf :: "conv list \<Rightarrow> string \<Rightarrow> item list option" where
  "sscanf cs s = sscanf_items cs 0 s"

section \<open>Floating point numbers\<close>

text \<open>The number a text denotes: a sign and a fraction, an infinity or a NaN.\<close>

datatype real_text = Ratio bool int int | Infinite bool | NotANumber

definition lower :: "char \<Rightarrow> char" where
  "lower c = (let n = (of_char c :: nat) in if 65 \<le> n \<and> n \<le> 90 then char_of (n + 32) else c)"

definition digit_value :: "char \<Rightarrow> int" where
  "digit_value c =
     (let n = (of_char (lower c) :: int) in if 48 \<le> n \<and> n \<le> 57 then n - 48 else if 97 \<le> n \<and> n \<le> 102 then n - 87 else 99)"

text \<open>Digits to a base: the value, how many there are, and the rest.\<close>

fun digits :: "int \<Rightarrow> int \<Rightarrow> nat \<Rightarrow> string \<Rightarrow> int \<times> nat \<times> string" where
  "digits b v k [] = (v, k, [])"
| "digits b v k (c # cs) = (if digit_value c < b then digits b (v * b + digit_value c) (Suc k) cs else (v, k, c # cs))"

text \<open>A significand: digits with at most one point; its value is the first result divided by the
  base to the power of the second.\<close>

definition significand :: "int \<Rightarrow> string \<Rightarrow> (int \<times> nat \<times> string) option" where
  "significand b s =
     (let (v, k, r) = digits b 0 0 s in
      case r of
        c # r' \<Rightarrow>
          if c = CHR ''.'' then (let (v, k', r) = digits b v 0 r' in if k + k' = 0 then None else Some (v, k', r))
          else if k = 0 then None else Some (v, 0, r)
      | [] \<Rightarrow> if k = 0 then None else Some (v, 0, r))"

text \<open>An exponent after its mark; a mark without digits is a matching failure.\<close>

definition exponent :: "char \<Rightarrow> string \<Rightarrow> (int \<times> string) option" where
  "exponent mark s =
     (case s of
        c # r \<Rightarrow>
          if lower c = mark then
            (case r of
               d # r' \<Rightarrow>
                 if d = CHR ''-'' then map_option (\<lambda>(v, r). (- v, r)) (scan_unsigned r')
                 else if d = CHR ''+'' then scan_unsigned r'
                 else scan_unsigned r
             | [] \<Rightarrow> None)
          else Some (0, s)
      | [] \<Rightarrow> Some (0, s))"

definition ratio :: "bool \<Rightarrow> int \<Rightarrow> int \<Rightarrow> int \<Rightarrow> real_text" where
  "ratio neg v b k = (if 0 \<le> k then Ratio neg (v * b ^ nat k) 1 else Ratio neg v (b ^ nat (- k)))"

fun follows :: "string \<Rightarrow> string \<Rightarrow> bool" where
  "follows [] s = True"
| "follows (w # ws) [] = False"
| "follows (w # ws) (c # cs) = (lower c = w \<and> follows ws cs)"

definition scan_unsigned_float :: "bool \<Rightarrow> string \<Rightarrow> real_text option" where
  "scan_unsigned_float neg s =
     (if follows ''inf'' s then
        (if drop 3 s = [] \<or> lower (s ! 3) \<noteq> CHR ''i'' \<or> follows ''infinity'' s then Some (Infinite neg) else None)
      else if follows ''nan'' s then
        (if drop 3 s \<noteq> [] \<and> s ! 3 = CHR ''('' then
           (if CHR '')'' \<in> set (take 1 (dropWhile (\<lambda>c. digit_value c < 10 \<or> lower c \<in> set ''abcdefghijklmnopqrstuvwxyz_'') (drop 4 s)))
            then Some NotANumber else None)
         else Some NotANumber)
      else if follows ''0x'' s then do {
        (v, k, r) \<leftarrow> significand 16 (drop 2 s);
        (e, r) \<leftarrow> exponent (CHR ''p'') r;
        Some (ratio neg v 2 (e - 4 * int k))
      }
      else do {
        (v, k, r) \<leftarrow> significand 10 s;
        (e, r) \<leftarrow> exponent (CHR ''e'') r;
        Some (ratio neg v 10 (e - int k))
      })"

text \<open>\<open>sscanf(s, "%f", ...)\<close> and \<open>"%lf"\<close>: \<^const>\<open>None\<close> when nothing is assigned.\<close>

definition scan_float :: "string \<Rightarrow> real_text option" where
  "scan_float s =
     (case dropWhile is_space s of
        [] \<Rightarrow> None
      | c # cs \<Rightarrow>
          if c = CHR ''-'' then scan_unsigned_float True cs
          else if c = CHR ''+'' then scan_unsigned_float False cs
          else scan_unsigned_float False (c # cs))"

section \<open>Rounding\<close>

text \<open>
  A fraction of positive numbers is cut off after at least 63 bits, with a last bit that says
  whether something was cut off; rounding the result to 24 or 53 bits is rounding the fraction.
\<close>

definition cut_ratio :: "int \<Rightarrow> int \<Rightarrow> int \<times> int" where
  "cut_ratio n d =
     (let a = 64 - (bit_length n - bit_length d);
          n' = n * 2 ^ nat a;
          d' = d * 2 ^ nat (- a)
      in (2 * (n' div d') + (if n' mod d' = 0 then 0 else 1), - a - 1))"

definition f32_of :: "real_text \<Rightarrow> KsiData" where
  "f32_of x =
     (case x of
        NotANumber \<Rightarrow> f32_nan
      | Infinite s \<Rightarrow> f32_pack s 255 0
      | Ratio s n d \<Rightarrow> if n = 0 then f32_pack s 0 0 else (let (m, k) = cut_ratio n d in f32_round s m k))"

text \<open>Rounding \<open>n * 2 ^ k\<close> to a \<open>double\<close>, to nearest with ties to even: a multiple of a power of
  two, or \<^const>\<open>None\<close> for infinity.\<close>

definition f64_round :: "int \<Rightarrow> int \<Rightarrow> (int \<times> int) option" where
  "f64_round n k =
     (let sh = max (bit_length n - 53) (- 1074 - k);
          q = (if sh \<le> 0 then n * 2 ^ nat (- sh)
               else let d = n div 2 ^ nat sh; r = n mod 2 ^ nat sh; h = 2 ^ (nat sh - 1) in
                 if h < r \<or> (r = h \<and> odd d) then d + 1 else d);
          (q, e) = (if q = 2 ^ 53 then (2 ^ 52, k + sh + 1) else (q, k + sh))
      in if 971 < e then None else Some (q, e))"

definition f64_ratio :: "int \<Rightarrow> int \<Rightarrow> (int \<times> int) option" where
  "f64_ratio n d = (if n = 0 then Some (0, 0) else (let (m, k) = cut_ratio n d in f64_round m k))"

text \<open>\<open>round\<close> of \<open>m * 2 ^ e\<close>: to an integer, halves away from zero.\<close>

definition round_half_up :: "int \<Rightarrow> int \<Rightarrow> int" where
  "round_half_up m e = (if 0 \<le> e then m * 2 ^ nat e else (m + 2 ^ (nat (- e) - 1)) div 2 ^ nat (- e))"

text \<open>\<open>(size_t)round(t / fps)\<close>, undefined when the quotient is not a number of the type.\<close>

definition round_quotient :: "real_text \<Rightarrow> int \<Rightarrow> int option" where
  "round_quotient t fps =
     (case t of
        Ratio s n d \<Rightarrow> do {
          (m, e) \<leftarrow> f64_ratio n d;
          need (fps \<noteq> 0);
          (m, e) \<leftarrow> (if 0 \<le> e then f64_ratio (m * 2 ^ nat e) \<bar>fps\<bar> else f64_ratio m (\<bar>fps\<bar> * 2 ^ nat (- e)));
          let v = round_half_up m e;
          need (v < 2 ^ 64 \<and> (v = 0 \<or> s = (fps < 0)));
          Some v
        }
      | _ \<Rightarrow> None)"

section \<open>Decimal output\<close>

fun show_nat :: "nat \<Rightarrow> string" where
  "show_nat n = (if n < 10 then [char_of (48 + n)] else show_nat (n div 10) @ [char_of (48 + n mod 10)])"

declare show_nat.simps [simp del]

definition show_int :: "int \<Rightarrow> string" where
  "show_int i = (if i < 0 then ''-'' @ show_nat (nat (- i)) else show_nat (nat i))"

end
