(* ===== verification/Cmd.thy ===== *)
theory Cmd
  imports Lifecycle Format
begin

text \<open>
  The command interpreter (\<^verbatim>\<open>ksid/cmd.c\<close>): a line of text is one call on the engine. Every
  case of the switch is a definition; how it ends (\<open>verdict\<close>) decides what is reported.

  A line is the C string: the characters before the first NUL, the newline included. What the
  code writes to \<open>stdout\<close> or \<open>stderr\<close> itself is left out; what it gives to the log function
  is recorded.
\<close>

section \<open>State\<close>

text \<open>
  What the process around the interpreter gives: PortAudio, the file system (the lines of a file,
  or the text of the error), the memory for a resource, the first \<open>malloc\<close> of the \<open>k\<close>-th call
  being \<open>tree_at k\<close>, and whether the log function prints or is \<open>log_eat\<close>.
\<close>

record cmd_env =
  audio :: portaudio
  files :: "string \<Rightarrow> string + string list"
  allocs :: "nat \<Rightarrow> allocator"
  tree_at :: "nat \<Rightarrow> ptr"
  prints :: bool

text \<open>
  The engine is \<^const>\<open>None\<close> while its memory holds nothing but \<open>playing = -2\<close>. \<open>werr\<close>,
  \<open>wtext\<close> and \<open>wid\<close> are the caller's variables behind \<open>ptrerr\<close>, \<open>pcli_err_str\<close> and \<open>idRet\<close>;
  \<open>werrno\<close> is the text of \<open>errno\<close> when it is not 0.
\<close>

record cmd_world =
  wengine :: "KsiEngine option"
  wpool :: worker_pool
  wtrees :: trees
  wcalls :: nat
  werrno :: "string option"
  werr :: KsiError
  wtext :: "string option"
  wid :: int
  wlog :: "string list"

text \<open>A case ends well, in \<open>cli_err\<close>, in \<open>rt_err\<close>, in \<open>quit\<close>, or with the errors of a file already
  reported.\<close>

datatype verdict = Fine | Illegal string "string option" | Failed string KsiError "string option" | QuitLine | InFile

definition newline :: char where "newline = CHR 0x0A"

section \<open>Messages\<close>

definition err_strings :: "(KsiError \<times> string) list" where
  "err_strings =
    [(ksiErrorNone, ''Success''),
     (ksiErrorIdNotFound, ''No node with provided ID''),
     (ksiErrorSrcIdNotFound, ''No node with provided source node ID''),
     (ksiErrorDesIdNotFound, ''No node with provided destination node ID''),
     (ksiErrorTimeSeqIdNotFound, ''No time sequence resource with provided ID''),
     (ksiErrorPortNotFound, ''Port index out of range''),
     (ksiErrorSrcPortNotFound, ''Source port index out of range''),
     (ksiErrorDesPortNotFound, ''Destination port index out of range''),
     (ksiErrorAlreadyWire, ''There's already a wire between the spercified ports.''),
     (ksiErrorMultipleFinal, ''There's already a final output''),
     (ksiErrorRing, ''The wire to add will form a ring''),
     (ksiErrorWireNotFound, ''No wire between provided ports''),
     (ksiErrorFileSystem, ''File system error''),
     (ksiErrorAudio, ''Audio error''),
     (ksiErrorIdempotent, ''Repeated operation, the current operation is ignored''),
     (ksiErrorSyntax, ''Syntax error''),
     (ksiErrorResIdNotFound, ''No loaded time sequence resource with provided ID''),
     (ksiErrorType, ''Incompatible input and output type''),
     (ksiErrorNeedSignal, ''This operation is only allowed for signal ports''),
     (ksiErrorNoEditCmd, ''The plugin does not support editing''),
     (ksiErrorNoPlugin, ''No plugin with spercified plugin ID''),
     (ksiErrorPlugin, ''Plugin error''),
     (ksiErrorUninitialized, ''System uninitialized''),
     (ksiErrorNotInBatch, ''Currently not in a command batch''),
     (ksiErrorAudioNotStarted, ''Audio not started'')]"

fun error_index :: "KsiError \<Rightarrow> (KsiError \<times> string) list \<Rightarrow> nat" where
  "error_index err [] = 0"
| "error_index err ((x, t) # rest) = (if x = err then 0 else Suc (error_index err rest))"

text \<open>The number of an error, as \<open>%d\<close> prints it, and its message.\<close>

definition error_code :: "KsiError \<Rightarrow> nat" where
  "error_code err = error_index err err_strings"

definition ksiErrorMsg :: "KsiError \<Rightarrow> string" where
  "ksiErrorMsg err = snd (err_strings ! error_code err)"

text \<open>The log function is given its texts as formats without arguments.\<close>

fun formatted :: "string \<Rightarrow> string option" where
  "formatted [] = Some []"
| "formatted (c # cs) =
     (if c \<noteq> CHR ''%'' then map_option ((#) c) (formatted cs)
      else (case cs of d # ds \<Rightarrow> if d = CHR ''%'' then map_option ((#) c) (formatted ds) else None | [] \<Rightarrow> None))"

definition say :: "cmd_env \<Rightarrow> string \<Rightarrow> cmd_world \<Rightarrow> cmd_world option" where
  "say env t w = (if prints env then do { t \<leftarrow> formatted t; Some (w\<lparr>wlog := wlog w @ [t]\<rparr>) } else Some w)"

section \<open>Calls on the engine\<close>

text \<open>Without an engine the first thing a call does is to lock a mutex that is not one.\<close>

definition on_engine :: "(KsiEngine \<Rightarrow> ('a \<times> KsiEngine) option) \<Rightarrow> cmd_world \<Rightarrow> ('a \<times> cmd_world) option" where
  "on_engine f w = do { e \<leftarrow> wengine w; (r, e) \<leftarrow> f e; Some (r, w\<lparr>wengine := Some e\<rparr>) }"

definition on_running :: "(running \<Rightarrow> (KsiError \<times> running) option) \<Rightarrow> cmd_world \<Rightarrow> (KsiError \<times> cmd_world) option" where
  "on_running f w = do {
     e \<leftarrow> wengine w;
     (r, e, wp) \<leftarrow> f (e, wpool w);
     Some (r, w\<lparr>wengine := Some e, wpool := wp\<rparr>)
   }"

definition rt :: "string \<Rightarrow> KsiError \<Rightarrow> verdict" where
  "rt cmd err = (if err = ksiErrorNone then Fine else Failed cmd err None)"

definition bad_format :: "string \<Rightarrow> verdict" where
  "bad_format cmd = Illegal cmd (Some ''Invalid argument format.'')"

section \<open>Editing the graph\<close>

definition new_node :: "cmd_env \<Rightarrow> bool \<Rightarrow> string \<Rightarrow> cmd_world \<Rightarrow> (verdict \<times> cmd_world) option" where
  "new_node env has_id args w = do {
     xs \<leftarrow> sscanf [Char, Dec 16] args;
     (case xs of
        [Chr c, Num funcId] \<Rightarrow> do {
          need (0 \<le> funcId);
          let type = push_bit 16 (word_of_int funcId :: int32);
          (case (if c = CHR ''n'' then Some (type OR ksiNodeTypeOutputNormal)
                 else if c = CHR ''f'' then Some (type OR ksiNodeTypeOutputFinal) else None) of
             None \<Rightarrow> Some (Illegal ''New node'' (Some ''Invalid output type.''), w)
           | Some type \<Rightarrow> do {
               ((err, i), w) \<leftarrow> on_engine (\<lambda>e. ksiEngineAddNode e type []) w;
               (if err \<noteq> ksiErrorNone then Some (Failed ''New node'' err None, w)
                else do {
                  w \<leftarrow> say env (''Node created with id: '' @ show_int i @ [newline]) (if has_id then w\<lparr>wid := i\<rparr> else w);
                  Some (Fine, w)
                })
             })
        }
      | _ \<Rightarrow> Some (bad_format ''New node'', w))
   }"

text \<open>\<open>INPUT_G\<close>: the gain, read as the type of the port says. The text is not there when the format
  was left before \<open>%n\<close>: \<open>lptr\<close> has then moved by an indeterminate amount. The inner \<^const>\<open>None\<close>
  is a failed \<open>CHECK_READ\<close>.\<close>

definition INPUT_G :: "string option \<Rightarrow> int8 \<Rightarrow> KsiData option option" where
  "INPUT_G text t = do {
     s \<leftarrow> text;
     (if t AND ksiNodePortTypeDataMask = ksiNodePortTypeFloat then Some (map_option f32_of (scan_float s))
      else do {
        xs \<leftarrow> sscanf [Dec 32] s;
        Some (case xs of [Num i] \<Rightarrow> Some (word_of_int i) | _ \<Rightarrow> None)
      })
   }"

definition after_count :: "item list \<Rightarrow> string \<Rightarrow> string option" where
  "after_count xs s = (case xs of [Pos k] \<Rightarrow> Some (drop k s) | _ \<Rightarrow> None)"

text \<open>The part \<open>w\<close> and \<open>b\<close> share: the type of the input port, the gain, and the call.\<close>

definition with_gain ::
  "string \<Rightarrow> int \<Rightarrow> int \<Rightarrow> string option \<Rightarrow> (KsiData \<Rightarrow> KsiEngine \<Rightarrow> (KsiError \<times> KsiEngine) option) \<Rightarrow>
   cmd_world \<Rightarrow> (verdict \<times> cmd_world) option" where
  "with_gain cmd i port text call w = do {
     ((err, t), w) \<leftarrow> on_engine (\<lambda>e. ksiEngineGetInputType e i port) w;
     (if err \<noteq> ksiErrorNone then Some (Failed cmd err None, w)
      else do {
        t \<leftarrow> t;
        g \<leftarrow> INPUT_G text t;
        (case g of
           None \<Rightarrow> Some (bad_format cmd, w)
         | Some g \<Rightarrow> do { (err, w) \<leftarrow> on_engine (call g) w; Some (rt cmd err, w) })
      })
   }"

definition make_wire :: "string \<Rightarrow> cmd_world \<Rightarrow> (verdict \<times> cmd_world) option" where
  "make_wire args w = do {
     xs \<leftarrow> sscanf [Dec 32, Lit (CHR '':''), Dec 32, Lit (CHR ''>''), Dec 32, Lit (CHR '':''), Dec 32, Lit (CHR ''x''), Count] args;
     (case xs of
        Num srcId # Num srcPrt # Num desId # Num desPort # n \<Rightarrow>
          with_gain ''Make wire'' desId desPort (after_count n args)
            (\<lambda>g e. ksiEngineMakeWire e srcId srcPrt desId desPort g) w
      | _ \<Rightarrow> Some (bad_format ''Make wire'', w))
   }"

definition make_bias :: "string \<Rightarrow> cmd_world \<Rightarrow> (verdict \<times> cmd_world) option" where
  "make_bias args w = do {
     xs \<leftarrow> sscanf [Dec 32, Lit (CHR '':''), Dec 32, Lit (CHR ''x''), Count] args;
     (case xs of
        Num i # Num port # n \<Rightarrow>
          with_gain ''Make bias'' i port (after_count n args) (\<lambda>g e. ksiEngineMakeBias e i port g) w
      | _ \<Rightarrow> Some (bad_format ''Make bias'', w))
   }"

definition detach_nodes :: "string \<Rightarrow> cmd_world \<Rightarrow> (verdict \<times> cmd_world) option" where
  "detach_nodes args w = do {
     xs \<leftarrow> sscanf [Dec 32, Lit (CHR ''>''), Dec 32] args;
     (case xs of
        [Num srcId, Num desId] \<Rightarrow> do {
          (err, w) \<leftarrow> on_engine (\<lambda>e. ksiEngineDetachNodes e srcId desId) w;
          Some (rt ''Detach nodes'' err, w)
        }
      | _ \<Rightarrow> Some (bad_format ''Detach nodes'', w))
   }"

definition remove_node :: "string \<Rightarrow> cmd_world \<Rightarrow> (verdict \<times> cmd_world) option" where
  "remove_node args w = do {
     xs \<leftarrow> sscanf [Dec 32] args;
     (case xs of
        [Num i] \<Rightarrow> do {
          (err, w) \<leftarrow> on_engine (\<lambda>e. ksiEngineRemoveNode e i) w;
          Some (rt ''Remove node'' err, w)
        }
      | _ \<Rightarrow> Some (bad_format ''Remove node'', w))
   }"

definition remove_wire :: "string \<Rightarrow> cmd_world \<Rightarrow> (verdict \<times> cmd_world) option" where
  "remove_wire args w = do {
     xs \<leftarrow> sscanf [Dec 32, Lit (CHR '':''), Dec 32, Lit (CHR ''>''), Dec 32, Lit (CHR '':''), Dec 32] args;
     (case xs of
        [Num srcId, Num srcPrt, Num desId, Num desPort] \<Rightarrow> do {
          (err, w) \<leftarrow> on_engine (\<lambda>e. ksiEngineRemoveWire e srcId srcPrt desId desPort) w;
          Some (rt ''Remove wire'' err, w)
        }
      | _ \<Rightarrow> Some (bad_format ''Remove wire'', w))
   }"

definition edit_node :: "bool \<Rightarrow> string \<Rightarrow> cmd_world \<Rightarrow> (verdict \<times> cmd_world) option" where
  "edit_node has_id args w = do {
     xs \<leftarrow> sscanf [Dec 32, Space, Count] args;
     (case xs of
        Num i # n \<Rightarrow> do {
          text \<leftarrow> after_count n args;
          (err, w) \<leftarrow> on_engine (\<lambda>e. ksiEngineSendEditingCommand e i text) (if has_id then w\<lparr>wid := i\<rparr> else w);
          Some (if err = ksiErrorSyntax then Illegal ''Edit node'' None else rt ''Edit node'' err, w)
        }
      | _ \<Rightarrow> Some (bad_format ''Edit node'', w))
   }"

section \<open>Time, pause and resume\<close>

definition set_time :: "uint64 \<Rightarrow> KsiEngine \<Rightarrow> KsiEngine" where
  "set_time t e = snd (ksiEngineReset (e\<lparr>etime := t\<rparr>))"

text \<open>The fields of an engine that is not initialised are set, too; its initialisation sets them again.\<close>

definition set_frames :: "string \<Rightarrow> cmd_world \<Rightarrow> (verdict \<times> cmd_world) option" where
  "set_frames args w = do {
     xs \<leftarrow> sscanf [Size] args;
     Some (case xs of
         [Num t] \<Rightarrow> (Fine, w\<lparr>wengine := map_option (set_time (word_of_int t)) (wengine w)\<rparr>)
       | _ \<Rightarrow> (bad_format ''Set time'', w))
   }"

definition set_seconds :: "string \<Rightarrow> cmd_world \<Rightarrow> (verdict \<times> cmd_world) option" where
  "set_seconds args w =
     (case scan_float args of
        None \<Rightarrow> Some (bad_format ''Set time'', w)
      | Some t \<Rightarrow> do {
          e \<leftarrow> wengine w;
          v \<leftarrow> round_quotient t (framesPerSecond e);
          Some (Fine, w\<lparr>wengine := Some (set_time (word_of_int v) e)\<rparr>)
        })"

definition pause :: "cmd_world \<Rightarrow> (verdict \<times> cmd_world) option" where
  "pause w = do { (err, w) \<leftarrow> on_running (\<lambda>s. Some (ksiEnginePause s)) w; Some (rt ''Pause'' err, w) }"

definition resume :: "cmd_world \<Rightarrow> (verdict \<times> cmd_world) option" where
  "resume w = do { (err, w) \<leftarrow> on_running (\<lambda>s. Some (ksiEngineResume s)) w; Some (rt ''Resume'' err, w) }"

section \<open>Engine and audio\<close>

definition init_engine :: "cmd_env \<Rightarrow> string \<Rightarrow> cmd_world \<Rightarrow> (verdict \<times> cmd_world) option" where
  "init_engine env args w = do {
     xs \<leftarrow> sscanf [Dec 32, Lit (CHR '',''), Dec 32] args;
     (case xs of
        [Num fb, Num fs] \<Rightarrow> do {
          (wp, ts) \<leftarrow> (case wengine w of
             None \<Rightarrow> Some (wpool w, wtrees w)
           | Some e \<Rightarrow> do {
               let (e, wp) = (if playing e \<noteq> 0 then snd (ksiEngineStop (e, wpool w)) else (e, wpool w));
               (_, e) \<leftarrow> paIODestroy (audio env) (wcalls w) e;
               ksiEngineDestroy (e, wp) (wtrees w)
             });
          Some (Fine, w\<lparr>wengine := Some (ksiEngineInit fb fs), wpool := wp, wtrees := ts, wcalls := Suc (wcalls w)\<rparr>)
        }
      | _ \<Rightarrow> Some (bad_format ''Initialize engine'', w))
   }"

definition init_audio :: "cmd_env \<Rightarrow> string \<Rightarrow> cmd_world \<Rightarrow> (verdict \<times> cmd_world) option" where
  "init_audio env args w =
     (if args \<noteq> [] \<and> hd args \<noteq> newline then Some (Illegal ''Initialize audio'' None, w)
      else do {
        e \<leftarrow> wengine w;
        let (e, wp) = (if playing e \<noteq> 0 then snd (ksiEngineStop (e, wpool w)) else (e, wpool w));
        ((err, t), e) \<leftarrow> paIOInit (audio env) (wcalls w) e;
        let w = w\<lparr>wengine := Some e, wpool := wp, wcalls := Suc (wcalls w)\<rparr>;
        (if err \<noteq> ksiErrorNone then Some (Failed ''Initialize audio'' err t, w)
         else do {
           (err, w) \<leftarrow> on_running ksiEngineLaunch w;
           Some (rt ''Initialize audio'' err, w)
         })
      })"

section \<open>Files\<close>

text \<open>A path ends before the newline.\<close>

definition path_of :: "string \<Rightarrow> string" where
  "path_of args = (if args \<noteq> [] \<and> last args = newline then butlast args else args)"

definition load_commands ::
  "(string list \<Rightarrow> cmd_world \<Rightarrow> (bool \<times> cmd_world) option) \<Rightarrow> cmd_env \<Rightarrow> string \<Rightarrow> cmd_world \<Rightarrow> (verdict \<times> cmd_world) option" where
  "load_commands consume env args w =
     (case files env (path_of args) of
        Inl t \<Rightarrow> Some (Failed ''Load command list from file'' ksiErrorFileSystem (Some t), w\<lparr>werrno := None\<rparr>)
      | Inr fp \<Rightarrow> do {
          (ferr, w) \<leftarrow> consume fp w;
          Some (if ferr then InFile else Fine, w)
        })"

definition load_resource :: "cmd_env \<Rightarrow> bool \<Rightarrow> string \<Rightarrow> cmd_world \<Rightarrow> (verdict \<times> cmd_world) option" where
  "load_resource env has_id args w = do {
     let path = path_of args;
     (err, i, w) \<leftarrow> (case wengine w of
        None \<Rightarrow> Some (ksiErrorUninitialized, None, w)
      | Some e \<Rightarrow> do {
          (err, e, ts, i) \<leftarrow> ksiTimeSeqLoadToEngineFromTextFilePath (allocs env (wcalls w)) (tree_at env (wcalls w))
             (\<lambda>p. case files env p of Inl t \<Rightarrow> None | Inr ls \<Rightarrow> Some ls) e (wtrees w) path;
          Some (err, i, w\<lparr>wengine := Some e, wtrees := ts, wcalls := Suc (wcalls w),
             werrno := (case files env path of Inl t \<Rightarrow> Some t | Inr ls \<Rightarrow> werrno w)\<rparr>)
        });
     (if err \<noteq> ksiErrorNone then Some (Failed ''Load time sequence resource file'' err (werrno w), w\<lparr>werrno := None\<rparr>)
      else do { i \<leftarrow> i; Some (Fine, if has_id then w\<lparr>wid := i\<rparr> else w) })
   }"

definition unload_resource :: "string \<Rightarrow> cmd_world \<Rightarrow> (verdict \<times> cmd_world) option" where
  "unload_resource args w = do {
     xs \<leftarrow> sscanf [Dec 32] args;
     (case xs of
        [Num i] \<Rightarrow>
          (case wengine w of
             None \<Rightarrow> Some (Failed ''Unload time sequence resource file'' ksiErrorUninitialized None, w)
           | Some e \<Rightarrow> do {
               (err, e, ts) \<leftarrow> ksiTimeSeqUnloadFromEngine e (wtrees w) i;
               Some (rt ''Unload time sequence resource file'' err, w\<lparr>wengine := Some e, wtrees := ts\<rparr>)
             })
      | _ \<Rightarrow> Some (bad_format ''Unload time sequence resource file'', w))
   }"

section \<open>A line and a file\<close>

definition help_lines :: "string list" where
  "help_lines =
    [''COMMAND LIST'',
     ''Initialize engine (this will clear previous audio setup): i[Frames per buffer],[Frames per second],[Nprocs]'',
     ''Initialize audio: a'',
     ''New node: n[Output type][Built-in type]'',
     '' Output type: n for normal and f for final output of the whole engine'',
     '' Note: Will print the ID for the new node'',
     ''Make wire: w[Source ID]:[Source port]>[Destination ID]:[Destination port]x[Gain]'',
     ''Make bias: b[Node ID]:[Port]x[Bias]'',
     ''Remove node: r[ID]'',
     ''Remove wire: u[Source ID]:[Source port]>[Destination ID]:[Destination port]'',
     ''Detach nodes: d[Source ID]>[Destination ID]'',
     ''Load time sequence resource file: o[file name]'',
     ''Unload time sequence resource file: t[resource id]'',
     ''Edit node:e[Node ID] [Node-spercified editing command]'',
     ''Pause:P'',
     ''Resume:R'',
     ''Load command list from file: l[file name]'',
     ''Set time: .[Time in frames] or -[Time in seconds]'',
     ''Dump DAG: >'',
     ''Quit: q'',
     ''Help: h'']"

text \<open>The switch on the first character; \<open>>\<close> prints a fixed text, \<open>h\<close> goes on to the empty line.\<close>

definition perform ::
  "(string list \<Rightarrow> cmd_world \<Rightarrow> (bool \<times> cmd_world) option) \<Rightarrow> cmd_env \<Rightarrow> bool \<Rightarrow> string \<Rightarrow> cmd_world \<Rightarrow>
   (verdict \<times> cmd_world) option" where
  "perform consume env has_id line w =
     (case line of
        [] \<Rightarrow> Some (Fine, w)
      | c # args \<Rightarrow>
          if c = CHR ''n'' then new_node env has_id args w
          else if c = CHR ''w'' then make_wire args w
          else if c = CHR ''d'' then detach_nodes args w
          else if c = CHR ''r'' then remove_node args w
          else if c = CHR ''u'' then remove_wire args w
          else if c = CHR ''.'' then set_frames args w
          else if c = CHR ''-'' then set_seconds args w
          else if c = CHR ''b'' then make_bias args w
          else if c = CHR ''q'' then Some (QuitLine, w)
          else if c = CHR ''>'' then Some (Fine, w)
          else if c = CHR ''e'' then edit_node has_id args w
          else if c = CHR ''P'' then pause w
          else if c = CHR ''R'' then resume w
          else if c = CHR ''i'' then init_engine env args w
          else if c = CHR ''a'' then init_audio env args w
          else if c = CHR ''h'' then do {
            w \<leftarrow> say env (concat (map (\<lambda>l. l @ [newline]) help_lines)) w;
            Some (Fine, w)
          }
          else if c = newline then Some (Fine, w)
          else if c = CHR ''l'' then load_commands consume env args w
          else if c = CHR ''o'' then load_resource env has_id args w
          else if c = CHR ''t'' then unload_resource args w
          else Some (Illegal ''Unknown command'' (Some ''Invalid verb.''), w))"

text \<open>What follows the switch: the result is 1 for \<open>quit\<close>.\<close>

definition conclude :: "cmd_env \<Rightarrow> verdict \<Rightarrow> cmd_world \<Rightarrow> (int \<times> cmd_world) option" where
  "conclude env v w =
     (case v of
        Fine \<Rightarrow> Some (0, w\<lparr>wtext := None\<rparr>)
      | Illegal cmd t \<Rightarrow> do {
          w \<leftarrow> say env (''Illegal command. Type h for help.'' @ [newline]) w;
          w \<leftarrow> say env cmd w;
          w \<leftarrow> (case t of None \<Rightarrow> Some w
             | Some s \<Rightarrow> do { w \<leftarrow> say env '': '' w; w \<leftarrow> say env s w; Some (w\<lparr>wtext := t\<rparr>) });
          w \<leftarrow> say env [newline] w;
          Some (0, w\<lparr>werr := ksiErrorSyntax\<rparr>)
        }
      | Failed cmd err t \<Rightarrow> do {
          w \<leftarrow> say env cmd w;
          w \<leftarrow> say env '': '' w;
          w \<leftarrow> say env (ksiErrorMsg err) w;
          w \<leftarrow> say env (''.'' @ [newline]) w;
          let w = w\<lparr>werr := err\<rparr>;
          (case t of None \<Rightarrow> Some (0, w)
           | Some s \<Rightarrow> do {
               w \<leftarrow> say env ''Detail: '' w;
               w \<leftarrow> say env s w;
               w \<leftarrow> say env [newline] w;
               Some (0, w\<lparr>wtext := t\<rparr>)
             })
        }
      | QuitLine \<Rightarrow> Some (1, w)
      | InFile \<Rightarrow> Some (0, w))"

text \<open>
  \<open>consume_file\<close>, given how a line is consumed: the result says whether a line failed. The line
  reported has lost its newline when it was the command to open a file.
\<close>

definition left_of :: "string \<Rightarrow> string" where
  "left_of line = (case line of c # args \<Rightarrow> if c \<in> {CHR ''l'', CHR ''o''} then c # path_of args else line | [] \<Rightarrow> [])"

fun consume_lines ::
  "(string \<Rightarrow> cmd_world \<Rightarrow> (int \<times> cmd_world) option) \<Rightarrow> cmd_env \<Rightarrow> nat \<Rightarrow> string list \<Rightarrow> cmd_world \<Rightarrow> (bool \<times> cmd_world) option" where
  "consume_lines consume env ln [] w = Some (False, w)"
| "consume_lines consume env ln (line # rest) w = do {
     (r, w) \<leftarrow> consume line w;
     (if r \<noteq> 0 then Some (False, w)
      else if werr w \<noteq> ksiErrorNone then do {
        w \<leftarrow> say env (''*** line '' @ show_nat (Suc ln) @ '' | '') w;
        w \<leftarrow> (if left_of line \<noteq> [] then say env (left_of line) w else Some w);
        w \<leftarrow> say env [newline] w;
        Some (True, w)
      }
      else consume_lines consume env (Suc ln) rest w)
   }"

text \<open>
  \<open>consume_line\<close> and \<open>consume_file\<close> call each other; the first argument bounds how deep command
  files are nested, and \<^const>\<open>None\<close> is also the result of a deeper nesting.
\<close>

function consume_line :: "nat \<Rightarrow> cmd_env \<Rightarrow> bool \<Rightarrow> string \<Rightarrow> cmd_world \<Rightarrow> (int \<times> cmd_world) option"
  and consume_file :: "nat \<Rightarrow> cmd_env \<Rightarrow> string list \<Rightarrow> cmd_world \<Rightarrow> (bool \<times> cmd_world) option" where
  "consume_line d env has_id line w = do {
     (v, w) \<leftarrow> perform (consume_file d env) env has_id line w;
     conclude env v w
   }"
| "consume_file 0 env fp w = None"
| "consume_file (Suc d) env fp w = consume_lines (consume_line d env False) env 0 fp w"
  by pat_completeness auto
termination
  by (relation "measure (\<lambda>x. case x of Inl (d, _) \<Rightarrow> 2 * d + 1 | Inr (d, _) \<Rightarrow> 2 * d)") auto

declare consume_line.simps [simp del] consume_file.simps [simp del]

end
