(* ===== verification/Daemon.thy ===== *)
theory Daemon
  imports Cmd
begin

text \<open>
  The daemon's session (\<^verbatim>\<open>ksid/daemon/rpc.c\<close>, \<open>fifo_handler\<close>): every line from the control
  pipe is answered on the return pipe and followed by a commit, unless it is part of a batch.
  The committer's rounds and the migration of the audio threads happen between lines.
\<close>

record daemon =
  dworld :: cmd_world
  current_in_scope :: bool
  replies :: "string list"

section \<open>Replies\<close>

fun type_chars :: "int8 list \<Rightarrow> string option" where
  "type_chars [] = Some []"
| "type_chars (t # ts) = do { c \<leftarrow> ksiDataTypeToCharacter t; cs \<leftarrow> type_chars ts; Some (c # cs) }"

text \<open>The first \<open>n\<close> types of an array.\<close>

definition port_types :: "KsiEngine \<Rightarrow> type_array \<Rightarrow> int \<Rightarrow> int8 list option" where
  "port_types e a n = do { need (n \<le> int (length (types_of e a))); Some (take (nat n) (types_of e a)) }"

definition report_type :: "KsiEngine \<Rightarrow> int \<Rightarrow> string option" where
  "report_type e i = do {
     p \<leftarrow> get_at (vdata (nlist (hot e))) i;
     n \<leftarrow> get_node e p;
     ts \<leftarrow> port_types e (inputTypes n) (inputCount n);
     is' \<leftarrow> type_chars ts;
     ts \<leftarrow> port_types e (outputTypes n) (outputCount n);
     os \<leftarrow> type_chars ts;
     Some (is' @ '';'' @ os @ [newline])
   }"

text \<open>\<open>cmd\<close> is the first character of the line.\<close>

definition reply :: "char \<Rightarrow> cmd_world \<Rightarrow> (string \<times> cmd_world) option" where
  "reply cmd w = do {
     let head = show_nat (error_code (werr w)) @ '';'' @ (case wtext w of Some t \<Rightarrow> t | None \<Rightarrow> []);
     (if cmd = CHR ''n'' \<or> cmd = CHR ''e'' then do {
        let w = (if cmd = CHR ''n'' \<and> werr w \<noteq> ksiErrorNone then w\<lparr>wid := 0\<rparr> else w);
        types \<leftarrow> (if werr w = ksiErrorNone then do { e \<leftarrow> wengine w; report_type e (wid w) } else Some ('';'' @ [newline]));
        Some (head @ '';'' @ (if cmd = CHR ''n'' then show_int (wid w) @ '';'' else []) @ types, w)
      }
      else Some (head @ [newline], w))
   }"

section \<open>A line\<close>

text \<open>\<open>ksiEngineCommit\<close> of memory that is not an engine yet only looks at \<open>playing\<close>.\<close>

definition commit :: "cmd_world \<Rightarrow> cmd_world option" where
  "commit w =
     (case wengine w of
        None \<Rightarrow> Some w
      | Some e \<Rightarrow> do { (_, e) \<leftarrow> ksiEngineCommit e; Some (w\<lparr>wengine := Some e\<rparr>) })"

text \<open>What \<open>quit\<close> does. The engine is a local variable; a later session starts with a new one.\<close>

definition shut_down :: "cmd_world \<Rightarrow> cmd_world option" where
  "shut_down w =
     (case wengine w of
        None \<Rightarrow> Some w
      | Some e \<Rightarrow> do {
          let (e, wp) = (if playing e \<noteq> 0 then snd (ksiEngineStop (e, wpool w)) else (e, wpool w));
          e \<leftarrow> ksiEngineDestroyChild e;
          (wp, ts) \<leftarrow> ksiEngineDestroy (e, wp) (wtrees w);
          Some (w\<lparr>wengine := None, wpool := wp, wtrees := ts\<rparr>)
        })"

text \<open>The label \<open>next\<close>: the reply, the commit, and the error is forgotten.\<close>

definition answer :: "char \<Rightarrow> daemon \<Rightarrow> daemon option" where
  "answer cmd s = do {
     (r, w) \<leftarrow> reply cmd (dworld s);
     w \<leftarrow> (if current_in_scope s then Some w else commit w);
     Some (s\<lparr>dworld := w\<lparr>werr := ksiErrorNone\<rparr>, replies := replies s @ [r]\<rparr>)
   }"

definition set_err :: "KsiError \<Rightarrow> daemon \<Rightarrow> daemon" where
  "set_err err s = s\<lparr>dworld := (dworld s)\<lparr>werr := err\<rparr>\<rparr>"

text \<open>A turn of the loop; the result says whether the session goes on. An empty line is a line whose
  first byte is NUL.\<close>

definition fifo_handler :: "nat \<Rightarrow> cmd_env \<Rightarrow> string \<Rightarrow> daemon \<Rightarrow> (bool \<times> daemon) option" where
  "fifo_handler d env line s = do {
     let cmd = (case line of c # args \<Rightarrow> c | [] \<Rightarrow> CHR 0x00);
     (if cmd = CHR ''{'' then do {
        s \<leftarrow> answer cmd (if current_in_scope s then set_err ksiErrorIdempotent s else s\<lparr>current_in_scope := True\<rparr>);
        Some (True, s)
      }
      else if cmd = CHR ''}'' then do {
        s \<leftarrow> answer cmd (if current_in_scope s then s\<lparr>current_in_scope := False\<rparr> else set_err ksiErrorNotInBatch s);
        Some (True, s)
      }
      else do {
        (r, w) \<leftarrow> consume_line d env True line (dworld s);
        (if r \<noteq> 0 then do { w \<leftarrow> shut_down w; Some (False, s\<lparr>dworld := w\<rparr>) }
         else do { s \<leftarrow> answer cmd (s\<lparr>dworld := w\<rparr>); Some (True, s) })
      })
   }"

text \<open>The variables of \<open>fifo_handler\<close> at its start; \<open>err\<close> and \<open>idRet\<close> have indeterminate values.\<close>

definition fifo_start :: "worker_pool \<Rightarrow> trees \<Rightarrow> KsiError \<Rightarrow> int \<Rightarrow> daemon" where
  "fifo_start wp ts err i =
     \<lparr>dworld = \<lparr>wengine = None, wpool = wp, wtrees = ts, wcalls = 0, werrno = None, werr = err, wtext = None, wid = i, wlog = []\<rparr>,
      current_in_scope = False, replies = []\<rparr>"

section \<open>Sessions\<close>

text \<open>\<open>Round\<close> is a round of the committer, \<open>Migration\<close> the migration of the audio threads in a callback.\<close>

datatype daemon_event = Line string | Round | Migration

fun daemon_run :: "nat \<Rightarrow> cmd_env \<Rightarrow> daemon_event list \<Rightarrow> daemon \<Rightarrow> (bool \<times> daemon) option" where
  "daemon_run d env [] s = Some (True, s)"
| "daemon_run d env (Line l # evs) s = do {
     (go, s) \<leftarrow> fifo_handler d env l s;
     (if go then daemon_run d env evs s else Some (False, s))
   }"
| "daemon_run d env (Round # evs) s = do {
     e \<leftarrow> wengine (dworld s);
     e \<leftarrow> ksiMVCCCommitter_round e;
     daemon_run d env evs (s\<lparr>dworld := (dworld s)\<lparr>wengine := Some e\<rparr>\<rparr>)
   }"
| "daemon_run d env (Migration # evs) s = do {
     e \<leftarrow> wengine (dworld s);
     daemon_run d env evs (s\<lparr>dworld := (dworld s)\<lparr>wengine := Some (if 0 < playing e then migrate e else e)\<rparr>\<rparr>)
   }"

section \<open>Pipe names\<close>

text \<open>\<open>to_nul_term_string\<close> gets the whole buffer of \<open>getline\<close>; the result is a C string.\<close>

definition to_nul_term_string :: "string \<Rightarrow> string" where
  "to_nul_term_string s =
     (let ret = (if last s = newline then butlast s @ [CHR 0x00] else s @ [CHR 0x00])
      in takeWhile (\<lambda>c. c \<noteq> newline) (takeWhile (\<lambda>c. c \<noteq> CHR 0x00) ret))"

lemma to_nul_term_string_path:
  assumes "newline \<notin> set path" "CHR 0x00 \<notin> set path"
  shows "to_nul_term_string (path @ newline # CHR 0x00 # junk) = path"
proof -
  have "takeWhile (\<lambda>c. c \<noteq> CHR 0x00) (path @ newline # CHR 0x00 # r) = path @ [newline]" for r
    using assms(2) by (subst takeWhile_append2) (auto simp: newline_def)
  moreover have "takeWhile (\<lambda>c. c \<noteq> newline) (path @ [newline]) = path"
    using assms(1) by (subst takeWhile_append2) auto
  ultimately show ?thesis by (auto simp: to_nul_term_string_def butlast_append newline_def)
qed

end
