(* ===== verification/Replay.thy ===== *)
theory Replay
  imports Kernels
begin

text \<open>
  Every editing operation is run twice: by the editor on one graph version, recording the
  shared memory it allocates and gives up in two queues, and later by the committer on the
  other version, with the recorded pointers. \<open>replays pr S f\<close> says that the second run of
  \<open>f\<close> is a faithful copy of the first: from the same graph it gives the same result and
  the same graph, consumes exactly what the first run recorded, and fails nowhere. The
  theory gives rules for sequencing, branching and the shared-memory primitives, and proves
  it for every operation of \<^verbatim>\<open>dagedit_kernels.h\<close>.
\<close>

section \<open>Relation between the two runs\<close>

text \<open>What the operations read besides the queues and the shared memory.\<close>

definition same :: "KsiEngine \<Rightarrow> KsiEngine \<Rightarrow> bool" where
  "same e c \<longleftrightarrow> hot e = hot c \<and> framesPerBuffer e = framesPerBuffer c \<and>
     staticIn e = staticIn c \<and> staticOut e = staticOut c \<and>
     uninitialized e = uninitialized c \<and> timeseqResources e = timeseqResources c"

text \<open>What they leave alone: everything but the hot version, the queues and the memory; \<open>quiet\<close>
  adds the plugins' data and the command queue.\<close>

definition frame :: "KsiEngine \<Rightarrow> KsiEngine \<Rightarrow> bool" where
  "frame e e' \<longleftrightarrow>
     framesPerBuffer e' = framesPerBuffer e \<and> framesPerSecond e' = framesPerSecond e \<and>
     driver_env e' = driver_env e \<and> etime e' = etime e \<and> playing e' = playing e \<and>
     notRequireReset e' = notRequireReset e \<and> epoch e' = epoch e \<and> audioEpoch e' = audioEpoch e \<and>
     timeseqResources e' = timeseqResources e \<and> committingSem e' = committingSem e \<and>
     migratedSem e' = migratedSem e \<and> committedFlag e' = committedFlag e \<and>
     staticIn e' = staticIn e \<and>
     staticOut e' = staticOut e \<and> (\<forall>k. k \<noteq> hotEpoch e \<longrightarrow> ver e' k = ver e k)"

definition quiet :: "KsiEngine \<Rightarrow> KsiEngine \<Rightarrow> bool" where
  "quiet e e' \<longleftrightarrow> plugs e' = plugs e \<and> syncCmds e' = syncCmds e"

definition evq :: "KsiEngine \<Rightarrow> ptr set" where
  "evq e = {p. \<exists>es. blocks e p = Some (EventQueue es)}"

definition queues_ok :: "KsiEngine \<Rightarrow> bool" where
  "queues_ok e \<longleftrightarrow> spsc_inv (mallocBufs e) \<and> spsc_inv (freeBufs e) \<and>
     0 < nextblock e \<and> blocks e NULL = None \<and> (\<forall>p \<ge> nextblock e. blocks e p = None)"

abbreviation mallocs :: "KsiEngine \<Rightarrow> ptr list" where
  "mallocs e \<equiv> spsc_list (mallocBufs e)"

abbreviation frees :: "KsiEngine \<Rightarrow> ptr list" where
  "frees e \<equiv> spsc_list (freeBufs e)"

text \<open>The committer's memory knows every event queue of the editor it has not freed yet.\<close>

definition kinds_ok :: "KsiEngine \<Rightarrow> KsiEngine \<Rightarrow> bool" where
  "kinds_ok e c \<longleftrightarrow> evq e \<inter> dom (blocks c) \<subseteq> evq c"

text \<open>
  \<open>edit_step e e' M F\<close>: what the editor's run from \<open>e\<close> to \<open>e'\<close> does to the shared
  state. \<open>commit_step\<close> is the committer's counterpart.
\<close>

definition edit_step :: "KsiEngine \<Rightarrow> KsiEngine \<Rightarrow> ptr list \<Rightarrow> ptr list \<Rightarrow> bool" where
  "edit_step e e' M F \<longleftrightarrow> queues_ok e' \<and> frame e e' \<and> evq e \<subseteq> evq e' \<and>
     dom (blocks e) \<subseteq> dom (blocks e') \<and> nextblock e \<le> nextblock e' \<and>
     mallocs e' = mallocs e @ M \<and> frees e' = frees e @ F \<and> NULL \<notin> set M"

definition commit_ready :: "KsiEngine \<Rightarrow> ptr list \<Rightarrow> ptr list \<Rightarrow> ptr list \<Rightarrow> ptr list \<Rightarrow> bool" where
  "commit_ready c M F M' F' \<longleftrightarrow> queues_ok c \<and> mallocs c = M @ M' \<and> frees c = F @ F' \<and>
     distinct F \<and> set F \<subseteq> dom (blocks c)"

definition commit_step :: "KsiEngine \<Rightarrow> KsiEngine \<Rightarrow> ptr list \<Rightarrow> ptr list \<Rightarrow> ptr list \<Rightarrow> bool" where
  "commit_step c c' F M' F' \<longleftrightarrow> queues_ok c' \<and> frame c c' \<and> mallocs c' = M' \<and> frees c' = F' \<and>
     dom (blocks c') = dom (blocks c) - set F \<and> evq c' = evq c - set F \<and> nextblock c' = nextblock c"

text \<open>
  \<open>S\<close> is an engine the editor's run may start from: it has at least its event queues, and
  the plugin tables are the same.
\<close>

definition ext :: "KsiEngine \<Rightarrow> KsiEngine \<Rightarrow> bool" where
  "ext S e \<longleftrightarrow> evq S \<subseteq> evq e \<and> staticIn e = staticIn S \<and> staticOut e = staticOut S"

text \<open>
  \<open>copies pr e f x\<close>: the editor's run of \<open>f\<close> from \<open>e\<close> with outcome \<open>x\<close> is
  reproduced by the committer wherever the graph is the same. \<open>pr\<close> reads the outcome as a
  result with an engine.
\<close>

definition copies :: "('x \<Rightarrow> 'a \<times> KsiEngine) \<Rightarrow> KsiEngine \<Rightarrow> (nat \<Rightarrow> KsiEngine \<Rightarrow> 'x option) \<Rightarrow> 'x \<Rightarrow> bool" where
  "copies pr e f x \<longleftrightarrow>
     (\<exists>M F. edit_step e (snd (pr x)) M F \<and> quiet e (snd (pr x)) \<and>
        (\<forall>c M' F'. same e c \<longrightarrow> commit_ready c M F M' F' \<longrightarrow> kinds_ok (snd (pr x)) c \<longrightarrow>
           (\<exists>y. f (Suc 0) c = Some y \<and> fst (pr y) = fst (pr x) \<and> same (snd (pr x)) (snd (pr y)) \<and>
                commit_step c (snd (pr y)) F M' F' \<and> quiet c (snd (pr y)))))"

definition replays :: "('x \<Rightarrow> 'a \<times> KsiEngine) \<Rightarrow> KsiEngine \<Rightarrow> (nat \<Rightarrow> KsiEngine \<Rightarrow> 'x option) \<Rightarrow> bool" where
  "replays pr S f \<longleftrightarrow> (\<forall>e x. queues_ok e \<longrightarrow> ext S e \<longrightarrow> f 0 e = Some x \<longrightarrow> copies pr e f x)"

text \<open>The result shapes: an engine, a value with an engine, two values with an engine.\<close>

definition prU :: "KsiEngine \<Rightarrow> unit \<times> KsiEngine" where "prU e = ((), e)"
definition prP :: "'a \<times> KsiEngine \<Rightarrow> 'a \<times> KsiEngine" where "prP x = x"
definition prT :: "'a \<times> 'b \<times> KsiEngine \<Rightarrow> ('a \<times> 'b) \<times> KsiEngine" where
  "prT x = (case x of (a, b, e) \<Rightarrow> ((a, b), e))"

lemmas pr_defs = prU_def prP_def prT_def

section \<open>Basic facts\<close>

lemma hotEpoch_set_hot [simp]: "hotEpoch (set_hot v e) = hotEpoch e"
  by (simp add: set_hot_def hotEpoch_def)

lemma hot_set_hot [simp]: "hot (set_hot v e) = v"
  by (simp add: hot_def set_hot_def hotEpoch_def)

lemma set_hot_set_hot [simp]: "set_hot v (set_hot w e) = set_hot v e"
  by (simp add: set_hot_def hotEpoch_def)

lemma set_hot_fields [simp]:
  "framesPerBuffer (set_hot v e) = framesPerBuffer e" "staticIn (set_hot v e) = staticIn e"
  "staticOut (set_hot v e) = staticOut e" "playing (set_hot v e) = playing e"
  "timeseqResources (set_hot v e) = timeseqResources e" "mallocBufs (set_hot v e) = mallocBufs e"
  "freeBufs (set_hot v e) = freeBufs e" "blocks (set_hot v e) = blocks e"
  "plugs (set_hot v e) = plugs e" "nextblock (set_hot v e) = nextblock e"
  "epoch (set_hot v e) = epoch e" "syncCmds (set_hot v e) = syncCmds e"
  by (simp_all add: set_hot_def)

lemma hot_update [simp]:
  "hot (e\<lparr>mallocBufs := m\<rparr>) = hot e" "hot (e\<lparr>freeBufs := m\<rparr>) = hot e"
  "hot (e\<lparr>blocks := b\<rparr>) = hot e" "hot (e\<lparr>nextblock := nb\<rparr>) = hot e"
  "hot (e\<lparr>plugs := pl\<rparr>) = hot e" "hot (e\<lparr>syncCmds := sc\<rparr>) = hot e"
  by (simp_all add: hot_def hotEpoch_def)

lemma hotEpoch_update [simp]:
  "hotEpoch (e\<lparr>mallocBufs := m\<rparr>) = hotEpoch e" "hotEpoch (e\<lparr>freeBufs := m\<rparr>) = hotEpoch e"
  "hotEpoch (e\<lparr>blocks := b\<rparr>) = hotEpoch e" "hotEpoch (e\<lparr>nextblock := nb\<rparr>) = hotEpoch e"
  "hotEpoch (e\<lparr>plugs := pl\<rparr>) = hotEpoch e" "hotEpoch (e\<lparr>syncCmds := sc\<rparr>) = hotEpoch e"
  by (simp_all add: hotEpoch_def)

lemma uninitialized_update [simp]:
  "uninitialized (set_hot v e) = uninitialized e"
  "uninitialized (e\<lparr>mallocBufs := m\<rparr>) = uninitialized e"
  "uninitialized (e\<lparr>freeBufs := m\<rparr>) = uninitialized e"
  "uninitialized (e\<lparr>blocks := b\<rparr>) = uninitialized e"
  "uninitialized (e\<lparr>nextblock := nb\<rparr>) = uninitialized e"
  "uninitialized (e\<lparr>plugs := pl\<rparr>) = uninitialized e"
  "uninitialized (e\<lparr>syncCmds := sc\<rparr>) = uninitialized e"
  by (simp_all add: uninitialized_def)

lemma set_hot_hot [simp]: "set_hot (hot e) e = e"
  by (simp add: set_hot_def hot_def)

lemma frame_refl [simp]: "frame e e"
  by (simp add: frame_def)

lemma quiet_refl [simp]: "quiet e e"
  by (simp add: quiet_def)

lemma quiet_trans: "quiet a b \<Longrightarrow> quiet b c \<Longrightarrow> quiet a c"
  by (simp add: quiet_def)

lemma quiet_I [simp]:
  "quiet e (set_hot v e)" "quiet e (e\<lparr>mallocBufs := m\<rparr>)" "quiet e (e\<lparr>freeBufs := f\<rparr>)"
  "quiet e (e\<lparr>blocks := b, nextblock := nb, mallocBufs := m\<rparr>)" "quiet e (e\<lparr>blocks := b\<rparr>)"
  "quiet e (e\<lparr>freeBufs := f, blocks := b\<rparr>)"
  by (simp_all add: quiet_def)

lemma frame_hotEpoch: "frame e e' \<Longrightarrow> hotEpoch e' = hotEpoch e"
  by (simp add: frame_def hotEpoch_def)

lemma frame_trans: "frame a b \<Longrightarrow> frame b c \<Longrightarrow> frame a c"
  unfolding frame_def hotEpoch_def by simp

lemma frame_I [simp]:
  "frame e (set_hot v e)" "frame e (e\<lparr>mallocBufs := m\<rparr>)" "frame e (e\<lparr>freeBufs := f\<rparr>)"
  "frame e (e\<lparr>blocks := b, nextblock := nb, mallocBufs := m\<rparr>)" "frame e (e\<lparr>blocks := b\<rparr>)"
  "frame e (e\<lparr>freeBufs := f, blocks := b\<rparr>)"
  by (simp_all add: frame_def set_hot_def)

lemma same_refl [simp]: "same e e"
  by (simp add: same_def)

lemma same_set_hot: "same e c \<Longrightarrow> v = w \<Longrightarrow> same (set_hot v e) (set_hot w c)"
  by (simp add: same_def)

lemma evq_set_hot [simp]: "evq (set_hot v e) = evq e"
  by (simp add: evq_def)

lemma queues_ok_set_hot [simp]: "queues_ok (set_hot v e) = queues_ok e"
  by (simp add: queues_ok_def)

section \<open>Rules\<close>

lemma replaysI:
  "(\<And>e x. queues_ok e \<Longrightarrow> ext S e \<Longrightarrow> f 0 e = Some x \<Longrightarrow> copies pr e f x) \<Longrightarrow> replays pr S f"
  by (simp add: replays_def)

lemma replaysD: "replays pr S f \<Longrightarrow> queues_ok e \<Longrightarrow> ext S e \<Longrightarrow> f 0 e = Some x \<Longrightarrow> copies pr e f x"
  by (simp add: replays_def)

lemma copiesI:
  assumes "edit_step e (snd (pr x)) M F" "quiet e (snd (pr x))"
    and "\<And>c M' F'. same e c \<Longrightarrow> commit_ready c M F M' F' \<Longrightarrow> kinds_ok (snd (pr x)) c \<Longrightarrow>
        \<exists>y. f (Suc 0) c = Some y \<and> fst (pr y) = fst (pr x) \<and> same (snd (pr x)) (snd (pr y)) \<and>
            commit_step c (snd (pr y)) F M' F' \<and> quiet c (snd (pr y))"
  shows "copies pr e f x"
  using assms unfolding copies_def by blast

lemma copiesE:
  assumes "copies pr e f x"
  obtains M F where "edit_step e (snd (pr x)) M F" "quiet e (snd (pr x))"
    "\<And>c M' F'. same e c \<Longrightarrow> commit_ready c M F M' F' \<Longrightarrow> kinds_ok (snd (pr x)) c \<Longrightarrow>
        \<exists>y. f (Suc 0) c = Some y \<and> fst (pr y) = fst (pr x) \<and> same (snd (pr x)) (snd (pr y)) \<and>
            commit_step c (snd (pr y)) F M' F' \<and> quiet c (snd (pr y))"
  using assms unfolding copies_def by blast

lemma copies_cong:
  assumes "copies pr e f x" "\<And>c. same e c \<Longrightarrow> g (Suc 0) c = f (Suc 0) c"
  shows "copies pr e g x"
  using assms unfolding copies_def by metis

lemma edit_step_refl: "queues_ok e \<Longrightarrow> edit_step e e [] []"
  by (simp add: edit_step_def)

lemma edit_step_trans:
  assumes "edit_step a b M F" "edit_step b c M2 F2"
  shows "edit_step a c (M @ M2) (F @ F2)"
  using assms unfolding edit_step_def by (simp add: frame_trans [of a b c]) (blast intro: order_trans)

lemma commit_step_refl: "queues_ok c \<Longrightarrow> mallocs c = M' \<Longrightarrow> frees c = F' \<Longrightarrow> commit_step c c [] M' F'"
  by (simp add: commit_step_def)

lemma commit_step_trans:
  assumes "commit_step a b F M1 F1" "commit_step b c F2 M' F'"
  shows "commit_step a c (F @ F2) M' F'"
  using assms unfolding commit_step_def by (auto intro: frame_trans)

lemma replays_None: "replays pr S (\<lambda>fl e. None)"
  by (simp add: replays_def)

lemma copies_bindG:
  assumes f: "copies pr e f x" and g: "copies pr2 (snd (pr x)) (\<lambda>fl e. g fl (fst (pr x)) e) z"
  shows "copies pr2 e (\<lambda>fl e. Option.bind (f fl e) (\<lambda>x. g fl (fst (pr x)) (snd (pr x)))) z"
proof -
  let ?e1 = "snd (pr x)" and ?r = "fst (pr x)"
  obtain M F where st: "edit_step e ?e1 M F" and qt: "quiet e ?e1"
    and c: "\<And>c M' F'. same e c \<Longrightarrow> commit_ready c M F M' F' \<Longrightarrow> kinds_ok ?e1 c \<Longrightarrow>
        \<exists>y. f (Suc 0) c = Some y \<and> fst (pr y) = ?r \<and> same ?e1 (snd (pr y)) \<and>
            commit_step c (snd (pr y)) F M' F' \<and> quiet c (snd (pr y))"
    using copiesE [OF f] by blast
  obtain M2 F2 where st2: "edit_step ?e1 (snd (pr2 z)) M2 F2" and qt2: "quiet ?e1 (snd (pr2 z))"
    and c2: "\<And>c M' F'. same ?e1 c \<Longrightarrow> commit_ready c M2 F2 M' F' \<Longrightarrow> kinds_ok (snd (pr2 z)) c \<Longrightarrow>
        \<exists>y. g (Suc 0) ?r c = Some y \<and> fst (pr2 y) = fst (pr2 z) \<and> same (snd (pr2 z)) (snd (pr2 y)) \<and>
            commit_step c (snd (pr2 y)) F2 M' F' \<and> quiet c (snd (pr2 y))"
    using copiesE [OF g] by blast
  show ?thesis
  proof (rule copiesI)
    show "edit_step e (snd (pr2 z)) (M @ M2) (F @ F2)" by (rule edit_step_trans [OF st st2])
    show "quiet e (snd (pr2 z))" by (rule quiet_trans [OF qt qt2])
    fix c M' F'
    assume sm: "same e c" and rd: "commit_ready c (M @ M2) (F @ F2) M' F'" and k: "kinds_ok (snd (pr2 z)) c"
    have "kinds_ok ?e1 c" using k st2 by (auto simp: kinds_ok_def edit_step_def)
    moreover have "commit_ready c M F (M2 @ M') (F2 @ F')"
      using rd by (auto simp: commit_ready_def)
    ultimately obtain y where y: "f (Suc 0) c = Some y" "fst (pr y) = ?r" "same ?e1 (snd (pr y))"
      "commit_step c (snd (pr y)) F (M2 @ M') (F2 @ F')" "quiet c (snd (pr y))" using c sm by blast
    have "commit_ready (snd (pr y)) M2 F2 M' F'"
      using y(4) rd by (auto simp: commit_ready_def commit_step_def)
    moreover have "kinds_ok (snd (pr2 z)) (snd (pr y))"
      using y(4) k by (auto simp: kinds_ok_def commit_step_def)
    ultimately obtain w where w: "g (Suc 0) ?r (snd (pr y)) = Some w" "fst (pr2 w) = fst (pr2 z)"
      "same (snd (pr2 z)) (snd (pr2 w))" "commit_step (snd (pr y)) (snd (pr2 w)) F2 M' F'"
      "quiet (snd (pr y)) (snd (pr2 w))"
      using c2 y(3) by blast
    have "commit_step c (snd (pr2 w)) (F @ F2) M' F'" by (rule commit_step_trans [OF y(4) w(4)])
    moreover have "quiet c (snd (pr2 w))" by (rule quiet_trans [OF y(5) w(5)])
    ultimately show "\<exists>y. Option.bind (f (Suc 0) c) (\<lambda>x. g (Suc 0) (fst (pr x)) (snd (pr x))) = Some y \<and>
         fst (pr2 y) = fst (pr2 z) \<and> same (snd (pr2 z)) (snd (pr2 y)) \<and>
         commit_step c (snd (pr2 y)) (F @ F2) M' F' \<and> quiet c (snd (pr2 y))"
      using y(1,2) w by auto
  qed
qed

lemma copies_queues_ext:
  assumes "copies pr e f x" "ext S e"
  shows "queues_ok (snd (pr x))" "ext S (snd (pr x))"
  using assms by (auto simp: copies_def edit_step_def ext_def frame_def)

lemma replays_bindG:
  assumes f: "replays pr S f" and g: "\<And>r. replays pr2 S (\<lambda>fl e. g fl r e)"
  shows "replays pr2 S (\<lambda>fl e. Option.bind (f fl e) (\<lambda>x. g fl (fst (pr x)) (snd (pr x))))"
proof (rule replaysI)
  fix e z
  assume q: "queues_ok e" and S: "ext S e"
    and run: "Option.bind (f 0 e) (\<lambda>x. g 0 (fst (pr x)) (snd (pr x))) = Some z"
  then obtain x where fe: "f 0 e = Some x" and ge: "g 0 (fst (pr x)) (snd (pr x)) = Some z"
    by (auto simp: bind_eq_Some_conv)
  have c: "copies pr e f x" by (rule replaysD [OF f q S fe])
  show "copies pr2 e (\<lambda>fl e. Option.bind (f fl e) (\<lambda>x. g fl (fst (pr x)) (snd (pr x)))) z"
    by (rule copies_bindG [OF c], rule replaysD [OF g copies_queues_ext [OF c S] ge])
qed

lemma replays_bindU:
  assumes "replays prU S f" "replays pr S (\<lambda>fl e. g fl e)"
  shows "replays pr S (\<lambda>fl e. Option.bind (f fl e) (\<lambda>e. g fl e))"
  using replays_bindG [OF assms(1), of pr "\<lambda>fl _ e. g fl e"] assms(2) by (simp add: prU_def)

lemma replays_bindP:
  assumes "replays prP S f" "\<And>x. replays pr S (\<lambda>fl e. g fl x e)"
  shows "replays pr S (\<lambda>fl e. Option.bind (f fl e) (\<lambda>(x, e). g fl x e))"
  using replays_bindG [OF assms(1), of pr g] assms(2) by (simp add: prP_def split_def)

lemma replays_bindT:
  assumes "replays prT S f" "\<And>x y. replays pr S (\<lambda>fl e. g fl x y e)"
  shows "replays pr S (\<lambda>fl e. Option.bind (f fl e) (\<lambda>(x, y, e). g fl x y e))"
  using replays_bindG [OF assms(1), of pr "\<lambda>fl r e. g fl (fst r) (snd r) e"] assms(2)
  by (simp add: prT_def split_def)

text \<open>Reads: functions of what \<open>same\<close> compares.\<close>

definition reads :: "(KsiEngine \<Rightarrow> 'a) \<Rightarrow> bool" where
  "reads rd \<longleftrightarrow> (\<forall>e c. same e c \<longrightarrow> rd e = rd c)"

lemma readsD: "reads rd \<Longrightarrow> same e c \<Longrightarrow> rd e = rd c"
  by (simp add: reads_def)

lemma copies_branch:
  assumes "reads rd" "copies pr e (\<lambda>fl e'. g fl (rd e) e') x"
  shows "copies pr e (\<lambda>fl e. g fl (rd e) e) x"
  by (rule copies_cong [OF assms(2)]) (simp add: readsD [OF assms(1)])

lemma replays_branch:
  assumes "reads rd" "\<And>x. replays pr S (\<lambda>fl e. g fl x e)"
  shows "replays pr S (\<lambda>fl e. g fl (rd e) e)"
proof (rule replaysI)
  fix e x
  assume "queues_ok e" "ext S e" "g 0 (rd e) e = Some x"
  then show "copies pr e (\<lambda>fl e. g fl (rd e) e) x"
    using copies_branch [OF assms(1), of pr e g x] replaysD [OF assms(2)] by blast
qed

lemma replays_read:
  assumes "reads rd" "\<And>x. replays pr S (\<lambda>fl e. g fl x e)"
  shows "replays pr S (\<lambda>fl e. Option.bind (rd e) (\<lambda>x. g fl x e))"
proof (rule replays_branch [OF assms(1), of pr S "\<lambda>fl x e. Option.bind x (\<lambda>x. g fl x e)"])
  fix x show "replays pr S (\<lambda>fl e. Option.bind x (\<lambda>x. g fl x e))"
    by (cases x) (simp_all add: replays_None assms(2))
qed

lemma replays_let:
  assumes "reads rd" "\<And>x. replays pr S (\<lambda>fl e. g fl x e)"
  shows "replays pr S (\<lambda>fl e. let x = rd e in g fl x e)"
  unfolding Let_def by (rule replays_branch [OF assms])

lemma replays_if:
  assumes "reads b" "replays pr S f" "replays pr S g"
  shows "replays pr S (\<lambda>fl e. if b e then f fl e else g fl e)"
  by (rule replays_branch [OF assms(1), of pr S "\<lambda>fl b e. if b then f fl e else g fl e"])
    (case_tac x; simp add: assms)

lemma replays_option:
  assumes "reads rd" "replays pr S f" "\<And>x. replays pr S (\<lambda>fl e. g fl x e)"
  shows "replays pr S (\<lambda>fl e. case rd e of None \<Rightarrow> f fl e | Some x \<Rightarrow> g fl x e)"
  by (rule replays_branch [OF assms(1), of pr S "\<lambda>fl y e. case y of None \<Rightarrow> f fl e | Some x \<Rightarrow> g fl x e"])
    (case_tac x; simp add: assms)

lemma replays_list:
  assumes "reads rd" "replays pr S f" "\<And>x xs. replays pr S (\<lambda>fl e. g fl x xs e)"
  shows "replays pr S (\<lambda>fl e. case rd e of [] \<Rightarrow> f fl e | x # xs \<Rightarrow> g fl x xs e)"
  by (rule replays_branch [OF assms(1), of pr S "\<lambda>fl y e. case y of [] \<Rightarrow> f fl e | x # xs \<Rightarrow> g fl x xs e"])
    (case_tac x; simp add: assms)

lemma replays_env:
  assumes "reads rd" "\<And>es. replays pr S (\<lambda>fl e. f fl es e)" "\<And>b i m. replays pr S (\<lambda>fl e. g fl b i m e)"
  shows "replays pr S (\<lambda>fl e. case rd e of EventEnv es \<Rightarrow> f fl es e | SignalEnv b i m \<Rightarrow> g fl b i m e)"
  by (rule replays_branch [OF assms(1), of pr S
        "\<lambda>fl y e. case y of EventEnv es \<Rightarrow> f fl es e | SignalEnv b i m \<Rightarrow> g fl b i m e"])
    (case_tac x; simp add: assms)

lemma replays_prod:
  assumes "reads rd" "\<And>a b. replays pr S (\<lambda>fl e. g fl a b e)"
  shows "replays pr S (\<lambda>fl e. case rd e of (a, b) \<Rightarrow> g fl a b e)"
  by (rule replays_branch [OF assms(1), of pr S "\<lambda>fl y e. case y of (a, b) \<Rightarrow> g fl a b e"])
    (case_tac x; simp add: assms)

text \<open>Updates of the hot version.\<close>

definition edits_hot :: "(KsiEngine \<Rightarrow> KsiEngine) \<Rightarrow> bool" where
  "edits_hot u \<longleftrightarrow> (\<exists>\<phi>. reads \<phi> \<and> (\<forall>e. u e = set_hot (\<phi> e) e))"

lemma edits_hotI: "reads \<phi> \<Longrightarrow> edits_hot (\<lambda>e. set_hot (\<phi> e) e)"
  unfolding edits_hot_def by (rule exI [of _ \<phi>]) simp

lemma edits_hot_set_node:
  assumes "reads n" shows "edits_hot (\<lambda>e. set_node p (n e) e)"
  unfolding set_node_def
proof (rule edits_hotI)
  show "reads (\<lambda>e. (hot e)\<lparr>nheap := (nheap (hot e))(p \<mapsto> n e)\<rparr>)"
    unfolding reads_def
  proof (intro allI impI)
    fix e c
    assume "same e c"
    with readsD [OF assms this] show "(hot e)\<lparr>nheap := (nheap (hot e))(p \<mapsto> n e)\<rparr> =
        (hot c)\<lparr>nheap := (nheap (hot c))(p \<mapsto> n c)\<rparr>" by (simp add: same_def)
  qed
qed

lemma edits_hot_id: "edits_hot (\<lambda>e. e)"
  using edits_hotI [of hot] by (simp add: reads_def same_def)

lemma edits_hot_if:
  assumes "reads b" "edits_hot u" "edits_hot v"
  shows "edits_hot (\<lambda>e. if b e then u e else v e)"
proof -
  from assms(2,3) obtain \<phi> \<psi> where u: "reads \<phi>" "\<And>e. u e = set_hot (\<phi> e) e"
    and v: "reads \<psi>" "\<And>e. v e = set_hot (\<psi> e) e" by (auto simp: edits_hot_def)
  have "(\<lambda>e. if b e then u e else v e) = (\<lambda>e. set_hot (if b e then \<phi> e else \<psi> e) e)"
    using u v by auto
  moreover have "reads (\<lambda>e. if b e then \<phi> e else \<psi> e)"
    using assms(1) u v unfolding reads_def by metis
  ultimately show ?thesis by (simp add: edits_hotI)
qed

lemma replays_retG:
  assumes "edits_hot u" "reads r" "\<And>e. pr (f e) = (r e, u e)"
  shows "replays pr S (\<lambda>fl e. Some (f e))"
proof (rule replaysI)
  fix e x
  from assms(1) obtain \<phi> where \<phi>: "reads \<phi>" "\<And>e. u e = set_hot (\<phi> e) e"
    by (auto simp: edits_hot_def)
  assume q: "queues_ok e" and "Some (f e) = Some x"
  then have x: "pr x = (r e, u e)" using assms(3) [of e] by simp
  show "copies pr e (\<lambda>fl e. Some (f e)) x"
  proof (rule copiesI)
    show "edit_step e (snd (pr x)) [] []" "quiet e (snd (pr x))" using q by (simp_all add: x \<phi> edit_step_def)
    fix c M' F'
    assume "same e c" "commit_ready c [] [] M' F'"
    then show "\<exists>y. Some (f c) = Some y \<and> fst (pr y) = fst (pr x) \<and> same (snd (pr x)) (snd (pr y)) \<and>
               commit_step c (snd (pr y)) [] M' F' \<and> quiet c (snd (pr y))"
      using readsD [OF assms(2)] readsD [OF \<phi>(1)]
      by (auto simp: x assms(3) \<phi>(2) commit_step_def commit_ready_def intro: same_set_hot)
  qed
qed

lemma replays_ret:
  "edits_hot u \<Longrightarrow> replays prU S (\<lambda>fl e. Some (u e))"
  "edits_hot u \<Longrightarrow> reads r \<Longrightarrow> replays prP S (\<lambda>fl e. Some (r e, u e))"
  "edits_hot u \<Longrightarrow> reads r \<Longrightarrow> reads s \<Longrightarrow> replays prT S (\<lambda>fl e. Some (r e, s e, u e))"
  by (rule replays_retG [where u = u]; simp add: pr_defs reads_def)+

end
