(* ===== verification/Replay_Ops.thy ===== *)
theory Replay_Ops
  imports Replay
begin

lemma replays_malloc:
  assumes "reads sz"
  shows "replays prP S (\<lambda>fl e. ksiMVCCMonitoredMalloc fl e (sz e))"
proof (rule replays_branch [OF assms, of prP S "\<lambda>fl k e. ksiMVCCMonitoredMalloc fl e k"], rule replaysI)
  fix k e x
  assume q: "queues_ok e" and run: "ksiMVCCMonitoredMalloc 0 e k = Some x"
  show "copies prP e (\<lambda>fl e. ksiMVCCMonitoredMalloc fl e k) x"
  proof (cases "k = 0")
    case True
    then show ?thesis
      using q run
      by (auto intro!: copiesI [of _ _ _ "[]" "[]"]
          simp: ksiMVCCMonitoredMalloc_def pr_defs edit_step_def commit_ready_def commit_step_def)
  next
    case False
    let ?p = "nextblock e"
    have inv: "spsc_inv (mallocBufs e)" using q by (simp add: queues_ok_def)
    obtain qm where qm: "ksiSPSCListEnqueue (mallocBufs e) ?p = Some qm" "spsc_inv qm"
      "spsc_list qm = mallocs e @ [?p]" using sq.enq_law [OF inv] by blast
    have x: "x = (?p, e\<lparr>blocks := (blocks e)(?p \<mapsto> Raw k), nextblock := Suc ?p, mallocBufs := qm\<rparr>)"
      using run False qm(1) by (simp add: ksiMVCCMonitoredMalloc_def malloc_block_def split: if_splits)
    show ?thesis
    proof (rule copiesI)
      show "edit_step e (snd (prP x)) [?p] []" "quiet e (snd (prP x))"
        using q qm by (auto simp: x pr_defs edit_step_def queues_ok_def evq_def)
      fix c M' F'
      assume s: "same e c" and r: "commit_ready c [?p] [] M' F'"
      have c: "spsc_inv (mallocBufs c)" "mallocs c = ?p # M'" "frees c = F'" "?p \<noteq> NULL" "queues_ok c"
        using r q by (auto simp: commit_ready_def queues_ok_def)
      obtain q' where "ksiSPSCListDequeue NULL (mallocBufs c) = Some (?p, q')" "spsc_inv q'"
        "spsc_list q' = M'" using sq.deq_Cons [OF c(1,2)] by blast
      then show "\<exists>y. ksiMVCCMonitoredMalloc (Suc 0) c k = Some y \<and> fst (prP y) = fst (prP x) \<and>
               same (snd (prP x)) (snd (prP y)) \<and> commit_step c (snd (prP y)) [] M' F' \<and> quiet c (snd (prP y))"
        using False c s by (auto simp: ksiMVCCMonitoredMalloc_def x pr_defs same_def commit_step_def queues_ok_def evq_def)
    qed
  qed
qed

lemma replays_free:
  assumes "reads p"
  shows "replays prU S (\<lambda>fl e. ksiMVCCDeferredFree fl e (p e))"
proof (rule replays_branch [OF assms, of prU S "\<lambda>fl k e. ksiMVCCDeferredFree fl e k"], rule replaysI)
  fix k e x
  assume q: "queues_ok e" and run: "ksiMVCCDeferredFree 0 e k = Some x"
  show "copies prU e (\<lambda>fl e. ksiMVCCDeferredFree fl e k) x"
  proof (cases "k = NULL")
    case True
    then show ?thesis
      using q run
      by (auto intro!: copiesI [of _ _ _ "[]" "[]"]
          simp: ksiMVCCDeferredFree_def pr_defs edit_step_def commit_ready_def commit_step_def)
  next
    case False
    have inv: "spsc_inv (freeBufs e)" using q by (simp add: queues_ok_def)
    obtain qf where qf: "ksiSPSCListEnqueue (freeBufs e) k = Some qf" "spsc_inv qf"
      "spsc_list qf = frees e @ [k]" using sq.enq_law [OF inv] by blast
    have x: "x = e\<lparr>freeBufs := qf\<rparr>"
      using run False qf(1) by (simp add: ksiMVCCDeferredFree_def)
    show ?thesis
    proof (rule copiesI)
      show "edit_step e (snd (prU x)) [] [k]" "quiet e (snd (prU x))"
        using q qf by (auto simp: x pr_defs edit_step_def queues_ok_def evq_def)
      fix c M' F'
      assume s: "same e c" and r: "commit_ready c [] [k] M' F'"
      have c: "spsc_inv (freeBufs c)" "frees c = k # F'" "mallocs c = M'" "k \<in> dom (blocks c)" "queues_ok c"
        using r by (auto simp: commit_ready_def queues_ok_def)
      obtain q' where "ksiSPSCListDequeue NULL (freeBufs c) = Some (k, q')" "spsc_inv q'"
        "spsc_list q' = F'" using sq.deq_Cons [OF c(1,2)] by blast
      then show "\<exists>y. ksiMVCCDeferredFree (Suc 0) c k = Some y \<and> fst (prU y) = fst (prU x) \<and>
               same (snd (prU x)) (snd (prU y)) \<and> commit_step c (snd (prU y)) [k] M' F' \<and> quiet c (snd (prU y))"
        using False c s
        by (auto simp: ksiMVCCDeferredFree_def free_block_def x pr_defs same_def commit_step_def queues_ok_def evq_def)
    qed
  qed
qed


section \<open>Readers\<close>

lemma same_fields:
  assumes "same e c"
  shows "hot e = hot c" "framesPerBuffer e = framesPerBuffer c" "uninitialized e = uninitialized c"
    "timeseqResources e = timeseqResources c" "types_of e = types_of c"
    "get_node e = get_node c" "input_type e = input_type c" "get_env e = get_env c"
    "get_ees e = get_ees c" "get_sig e = get_sig c" "debug_check_node e = debug_check_node c"
proof -
  note s = assms [unfolded same_def]
  show 1: "hot e = hot c" "framesPerBuffer e = framesPerBuffer c" "uninitialized e = uninitialized c"
    "timeseqResources e = timeseqResources c" using s by simp_all
  show t: "types_of e = types_of c" using s by (auto simp: types_of_def fun_eq_iff split: type_array.split)
  show n: "get_node e = get_node c" using s by (simp add: get_node_def fun_eq_iff)
  show "input_type e = input_type c" by (simp add: input_type_def fun_eq_iff n t)
  show v: "get_env e = get_env c" by (simp add: get_env_def fun_eq_iff n)
  show "get_ees e = get_ees c" "get_sig e = get_sig c" by (simp_all add: get_ees_def get_sig_def fun_eq_iff v)
  show "debug_check_node e = debug_check_node c" by (simp add: debug_check_node_def fun_eq_iff n 1)
qed

lemma same_set_bias_gain: "same e c \<Longrightarrow> set_bias_gain e g ms = set_bias_gain c g ms"
  by (induction ms) (auto simp: same_fields(11) intro!: Option.bind_cong)

lemma readsI:
  assumes "\<And>e c. hot e = hot c \<Longrightarrow> framesPerBuffer e = framesPerBuffer c \<Longrightarrow>
     uninitialized e = uninitialized c \<Longrightarrow> timeseqResources e = timeseqResources c \<Longrightarrow>
     types_of e = types_of c \<Longrightarrow> get_node e = get_node c \<Longrightarrow> input_type e = input_type c \<Longrightarrow>
     get_env e = get_env c \<Longrightarrow> get_ees e = get_ees c \<Longrightarrow> get_sig e = get_sig c \<Longrightarrow>
     debug_check_node e = debug_check_node c \<Longrightarrow> set_bias_gain e = set_bias_gain c \<Longrightarrow> rd e = rd c"
  shows "reads rd"
  unfolding reads_def
proof (intro allI impI)
  fix e c assume s: "same e c"
  show "rd e = rd c"
    by (rule assms) (simp_all add: same_fields [OF s] same_set_bias_gain [OF s] fun_eq_iff)
qed

named_theorems replays_ops \<open>operations whose second run copies the first\<close>

lemmas replays_rules =
  replays_None replays_bindU replays_bindP replays_bindT replays_read replays_if replays_let
  replays_option replays_list replays_env replays_prod replays_ret
  edits_hot_id edits_hot_set_node edits_hotI edits_hot_if

lemma set_env_replays [replays_ops]:
  assumes "reads v"
  shows "replays prU S (\<lambda>fl e. set_env e p port (v e))"
  unfolding set_env_def
  by (rule replays_branch [OF assms, of prU S "\<lambda>fl v e. do {
     n \<leftarrow> get_node e p; vs \<leftarrow> set_at (nenv n) port v; Some (set_node p (n\<lparr>nenv := vs\<rparr>) e) }"])
    (rule replays_rules | (rule readsI; simp; fail))+

lemmas [replays_ops] = replays_malloc replays_free

lemma refreshCopying_replays [replays_ops]: "replays prU S (\<lambda>fl e. refreshCopying fl e p port)"
  unfolding refreshCopying_def
  by (rule replays_ops replays_rules | (rule readsI; simp; fail))+

lemma impl_delete_env_replays [replays_ops]: "replays prU S (\<lambda>fl e. impl_delete_env fl e n i)"
  unfolding impl_delete_env_def
  by (rule replays_ops replays_rules | (rule readsI; simp; fail))+

lemma delete_src_replays [replays_ops]: "replays prU S (\<lambda>fl e. delete_src fl d s e i)"
  unfolding delete_src_def
  by (rule replays_ops replays_rules | (rule readsI; simp; fail))+


lemma for_ports_replays [replays_ops]:
  assumes "\<And>i. replays prU S (\<lambda>fl e. body fl e i)"
  shows "replays prU S (\<lambda>fl e. for_ports (body fl) k i e)"
proof (induction k arbitrary: i)
  case 0
  show ?case unfolding for_ports.simps by (rule replays_rules)+
next
  case (Suc k)
  show ?case unfolding for_ports.simps by (rule replays_bindU assms Suc.IH)+
qed

lemma new_output_replays [replays_ops]: "replays prP S (\<lambda>fl e. new_output fl e t)"
proof (cases "is_event t")
  case False
  then show ?thesis unfolding new_output_def
    by (simp only: if_False) (rule replays_ops replays_rules | (rule readsI; simp; fail))+
next
  case True
  show ?thesis
  proof (rule replaysI)
    fix e x
    assume q: "queues_ok e" and S: "ext S e" and "new_output 0 e t = Some x"
    then obtain p e1 where m: "ksiMVCCMonitoredMalloc 0 e 16 = Some (p, e1)"
      and x: "x = (p, e1\<lparr>blocks := (blocks e1)(p \<mapsto> EventQueue [])\<rparr>)"
      using True by (auto simp: new_output_def bind_eq_Some_conv)
    have r: "replays prP S (\<lambda>fl e. ksiMVCCMonitoredMalloc fl e 16)"
      by (rule replays_malloc, rule readsI, simp)
    have p: "p = nextblock e" "nextblock e1 = Suc p" "blocks e1 = (blocks e)(p \<mapsto> Raw 16)"
      using m by (auto simp: ksiMVCCMonitoredMalloc_def malloc_block_def bind_eq_Some_conv)
    obtain M F where 1: "edit_step e e1 M F" "quiet e e1"
      "\<And>c M' F'. same e c \<Longrightarrow> commit_ready c M F M' F' \<Longrightarrow> kinds_ok e1 c \<Longrightarrow>
        \<exists>y. ksiMVCCMonitoredMalloc (Suc 0) c 16 = Some y \<and> fst (prP y) = p \<and>
            same e1 (snd (prP y)) \<and> commit_step c (snd (prP y)) F M' F' \<and> quiet c (snd (prP y))"
      using copiesE [OF replaysD [OF r q S m]] by (auto simp: prP_def)
    show "copies prP e (\<lambda>fl e. new_output fl e t) x"
    proof (rule copiesI)
      show "edit_step e (snd (prP x)) M F" "quiet e (snd (prP x))"
        using 1(1,2) p q
        by (auto simp: x prP_def edit_step_def queues_ok_def evq_def quiet_def intro: frame_trans)
      fix c M' F'
      assume c: "same e c" "commit_ready c M F M' F'" "kinds_ok (snd (prP x)) c"
      have "kinds_ok e1 c"
        using c(3) p unfolding kinds_ok_def by (auto simp: x prP_def evq_def split: if_splits)
      from 1(3) [OF c(1,2) this] obtain c' where c': "ksiMVCCMonitoredMalloc (Suc 0) c 16 = Some (p, c')"
        "same e1 c'" "commit_step c c' F M' F'" "quiet c c'" by (auto simp: prP_def)
      then show "\<exists>y. new_output (Suc 0) c t = Some y \<and> fst (prP y) = fst (prP x) \<and>
            same (snd (prP x)) (snd (prP y)) \<and> commit_step c (snd (prP y)) F M' F' \<and> quiet c (snd (prP y))"
        using True by (auto simp: new_output_def x prP_def same_def)
    qed
  qed
qed

lemma new_outputs_replays [replays_ops]: "replays prP S (\<lambda>fl e. new_outputs fl e ts)"
proof (induction ts)
  case Nil
  show ?case unfolding new_outputs.simps by (rule replays_rules | (rule readsI; simp; fail))+
next
  case (Cons t ts)
  show ?case unfolding new_outputs.simps
    by (rule Cons.IH replays_ops replays_rules | (rule readsI; simp; fail))+
qed

lemma link_nodes_replays [replays_ops]: "replays prU S (\<lambda>fl e. link_nodes e s d desId)"
  unfolding link_nodes_def
  by (rule replays_ops replays_rules | (rule readsI; simp; fail))+

lemma make_event_wire_replays [replays_ops]:
  "replays prP S (\<lambda>fl e. make_event_wire e s srcPrt d desPort)"
  unfolding make_event_wire_def
  by (rule replays_ops replays_rules | (rule readsI; simp; fail))+

lemma make_signal_wire_replays [replays_ops]:
  "replays prP S (\<lambda>fl e. make_signal_wire fl e s srcPrt d desPort g)"
  unfolding make_signal_wire_def
  by (rule replays_ops replays_rules | (rule readsI; simp; fail))+

lemma MakeWire_replays [replays_ops]:
  "replays prP S (\<lambda>fl e. impl_ksiEngineMakeWire fl e srcId srcPrt desId desPort g)"
  unfolding impl_ksiEngineMakeWire_def
  by (rule replays_ops replays_rules | (rule readsI; simp; fail))+

lemma MakeBias_replays [replays_ops]:
  "replays prP S (\<lambda>fl e. impl_ksiEngineMakeBias fl e desId desPort g)"
  unfolding impl_ksiEngineMakeBias_def
  by (rule replays_ops replays_rules | (rule readsI; simp; fail))+

lemma drop_successor_replays [replays_ops]: "replays prU S (\<lambda>fl e. drop_successor e s desId)"
  unfolding drop_successor_def
  by (rule replays_ops replays_rules | (rule readsI; simp; fail))+

lemma dec_depNum_replays [replays_ops]: "replays prU S (\<lambda>fl e. dec_depNum e d)"
  unfolding dec_depNum_def
  by (rule replays_ops replays_rules | (rule readsI; simp; fail))+

lemma DetachNodes_replays [replays_ops]:
  "replays prP S (\<lambda>fl e. impl_ksiEngineDetachNodes fl e srcId desId)"
  unfolding impl_ksiEngineDetachNodes_def
  by (rule replays_ops replays_rules | (rule readsI; simp; fail))+

lemma detach_successors_replays [replays_ops]:
  "replays prU S (\<lambda>fl e. detach_successors fl p sns e)"
proof (induction sns)
  case Nil
  show ?case unfolding detach_successors.simps by (rule replays_rules)+
next
  case (Cons loc sns)
  show ?case unfolding detach_successors.simps
    by (rule Cons.IH replays_ops replays_rules | (rule readsI; simp; fail))+
qed

lemma reg_precs_replays [replays_ops]:
  "replays prP S (\<lambda>fl e. reg_precs es (precs, e))"
proof (induction es arbitrary: precs)
  case Nil
  show ?case unfolding reg_precs.simps by (rule replays_rules | (rule readsI; simp; fail))+
next
  case (Cons me es)
  have upd: "replays prP S (\<lambda>fl e. reg_precs es (ps, u e))" if "edits_hot u" for ps u
    using replays_bindU [OF replays_ret(1) [OF that] Cons.IH [of ps]] by simp
  show ?case unfolding reg_precs.simps
    by (rule upd Cons.IH replays_ops replays_rules | (rule readsI; simp; fail))+
qed

lemma reg_precs_ports_replays [replays_ops]:
  "replays prP S (\<lambda>fl e. reg_precs_ports p k i (precs, e))"
proof (induction k arbitrary: i precs)
  case 0
  show ?case unfolding reg_precs_ports.simps by (rule replays_rules | (rule readsI; simp; fail))+
next
  case (Suc k)
  have split: "(do { r \<leftarrow> f; reg_precs_ports p k i r }) =
     (do { (ps, e) \<leftarrow> f; reg_precs_ports p k i (ps, e) })" for f i
    by (auto intro!: Option.bind_cong)
  show ?case unfolding reg_precs_ports.simps split
    by (rule Suc.IH replays_ops replays_rules | (rule readsI; simp; fail))+
qed

lemma unlink_precs_replays [replays_ops]: "replays prU S (\<lambda>fl e. unlink_precs i ps e)"
proof (induction ps)
  case Nil
  show ?case unfolding unlink_precs.simps by (rule replays_rules)+
next
  case (Cons p ps)
  show ?case unfolding unlink_precs.simps
    by (rule Cons.IH replays_ops replays_rules | (rule readsI; simp; fail))+
qed

lemma RemoveNode_replays [replays_ops]:
  "replays prP S (\<lambda>fl e. impl_ksiEngineRemoveNode fl e i)"
  unfolding impl_ksiEngineRemoveNode_def
  by (rule replays_ops replays_rules | (rule readsI; simp; fail))+

lemma RemoveWire_replays [replays_ops]:
  "replays prP S (\<lambda>fl e. impl_ksiEngineRemoveWire fl e srcId srcPrt desId desPort)"
  unfolding impl_ksiEngineRemoveWire_def
  by (rule replays_ops replays_rules | (rule readsI; simp; fail))+


section \<open>Outputs, port counts, destruction\<close>

text \<open>
  Freeing an event queue clears it first, in the committer only: it must be one of the
  event queues the editor's run started with.
\<close>

lemma clear_and_free_replays:
  assumes "ob \<in> evq S"
  shows "replays prU S (\<lambda>fl e. do { e \<leftarrow> (if fl \<noteq> 0 then ksiEventClearQueue e ob else Some e);
           ksiMVCCDeferredFree fl e ob })"
    (is "replays prU S ?f")
proof (rule replaysI)
  fix e x
  assume q: "queues_ok e" and S: "ext S e" and "?f 0 e = Some x"
  then have run: "ksiMVCCDeferredFree 0 e ob = Some x" by simp
  have ob: "ob \<in> evq e" using assms S by (auto simp: ext_def)
  then have nn: "ob \<noteq> NULL" using q by (auto simp: queues_ok_def evq_def intro!: gr0I)
  have inv: "spsc_inv (freeBufs e)" using q by (simp add: queues_ok_def)
  obtain qf where qf: "ksiSPSCListEnqueue (freeBufs e) ob = Some qf" "spsc_inv qf"
    "spsc_list qf = frees e @ [ob]" using sq.enq_law [OF inv] by blast
  have x: "x = e\<lparr>freeBufs := qf\<rparr>" using run nn qf(1) by (simp add: ksiMVCCDeferredFree_def)
  show "copies prU e ?f x"
  proof (rule copiesI)
    show "edit_step e (snd (prU x)) [] [ob]" "quiet e (snd (prU x))"
      using q qf by (auto simp: x pr_defs edit_step_def queues_ok_def evq_def)
    fix c M' F'
    assume s: "same e c" and r: "commit_ready c [] [ob] M' F'" and k: "kinds_ok (snd (prU x)) c"
    have c: "spsc_inv (freeBufs c)" "frees c = ob # F'" "mallocs c = M'" "queues_ok c"
      using r by (auto simp: commit_ready_def queues_ok_def)
    have "ob \<in> evq c"
      using k r ob by (auto simp: kinds_ok_def commit_ready_def x prU_def evq_def)
    then obtain es where es: "blocks c ob = Some (EventQueue es)" by (auto simp: evq_def)
    obtain q' where "ksiSPSCListDequeue NULL (freeBufs c) = Some (ob, q')" "spsc_inv q'"
      "spsc_list q' = F'" using sq.deq_Cons [OF c(1,2)] by blast
    then show "\<exists>y. ?f (Suc 0) c = Some y \<and> fst (prU y) = fst (prU x) \<and>
        same (snd (prU x)) (snd (prU y)) \<and> commit_step c (snd (prU y)) [ob] M' F' \<and> quiet c (snd (prU y))"
      using nn c s es
      by (auto simp: ksiEventClearQueue_def ksiMVCCDeferredFree_def free_block_def x pr_defs
          same_def commit_step_def queues_ok_def evq_def frame_def hotEpoch_def)
  qed
qed

definition outs_known :: "KsiEngine \<Rightarrow> KsiNode \<Rightarrow> bool" where
  "outs_known S n \<longleftrightarrow> (\<forall>i t ob. get_at (types_of S (outputTypes n)) i = Some t \<longrightarrow>
     get_at (outputBuffer n) i = Some ob \<longrightarrow> is_event t \<longrightarrow> ob \<in> evq S)"

lemma types_of_static:
  "staticIn e = staticIn S \<Longrightarrow> staticOut e = staticOut S \<Longrightarrow> types_of e a = types_of S a"
  by (simp add: types_of_def split: type_array.split)

lemma replays_static_cong:
  assumes "replays pr S f"
    and "\<And>fl e. staticIn e = staticIn S \<Longrightarrow> staticOut e = staticOut S \<Longrightarrow> g fl e = f fl e"
  shows "replays pr S g"
proof (rule replaysI)
  fix e x
  assume q: "queues_ok e" and S: "ext S e" and "g 0 e = Some x"
  then have run: "f 0 e = Some x" using assms(2) by (simp add: ext_def)
  have "g (Suc 0) c = f (Suc 0) c" if "same e c" for c
    using assms(2) S that by (simp add: ext_def same_def)
  then show "copies pr e g x" using copies_cong [OF replaysD [OF assms(1) q S run]] by blast
qed

lemma impl_delete_output_replays:
  assumes "outs_known S n"
  shows "replays prU S (\<lambda>fl e. impl_delete_output fl e n i)"
proof -
  let ?g = "\<lambda>fl e. do {
     t \<leftarrow> get_at (types_of S (outputTypes n)) i;
     ob \<leftarrow> get_at (outputBuffer n) i;
     (if is_event t then do {
        e \<leftarrow> (if fl \<noteq> 0 then ksiEventClearQueue e ob else Some e);
        ksiMVCCDeferredFree fl e ob
      }
      else ksiMVCCDeferredFree fl e ob)
   }"
  have "replays prU S ?g"
  proof (cases "get_at (types_of S (outputTypes n)) i")
    case None
    then show ?thesis by (simp add: replays_None)
  next
    case t: (Some t)
    show ?thesis
    proof (cases "get_at (outputBuffer n) i")
      case None
      then show ?thesis using t by (simp add: replays_None)
    next
      case (Some ob)
      have "replays prU S (\<lambda>fl e. ksiMVCCDeferredFree fl e ob)" by (rule replays_free, rule readsI, simp)
      then show ?thesis
        using clear_and_free_replays [of ob S] assms t Some
        by (cases "is_event t") (auto simp: outs_known_def)
    qed
  qed
  then show ?thesis
  proof (rule replays_static_cong)
    fix fl :: nat and e :: KsiEngine
    assume "staticIn e = staticIn S" "staticOut e = staticOut S"
    note t = types_of_static [OF this]
    show "impl_delete_output fl e n i = ?g fl e" by (simp add: impl_delete_output_def t)
  qed
qed

lemma for_delete_output_replays:
  assumes "outs_known S n"
  shows "replays prU S (\<lambda>fl e. for_ports (\<lambda>e i. impl_delete_output fl e n i) k i e)"
  by (rule for_ports_replays [of S "\<lambda>fl e i. impl_delete_output fl e n i"])
    (rule impl_delete_output_replays [OF assms])

lemma for_delete_env_replays [replays_ops]:
  "replays prU S (\<lambda>fl e. for_ports (\<lambda>e i. impl_delete_env fl e n i) k i e)"
  by (rule for_ports_replays [of S "\<lambda>fl e i. impl_delete_env fl e n i"])
    (rule impl_delete_env_replays)

lemma ChangeInputPortCount_replays [replays_ops]:
  "replays prU S (\<lambda>fl e. impl_ksiNodeChangeInputPortCount fl e p port_count newTypes)"
  unfolding impl_ksiNodeChangeInputPortCount_def own_types_def
  by (rule replays_ops replays_rules | (rule readsI; simp; fail))+

lemma grow_outputs_replays [replays_ops]:
  "replays prT S (\<lambda>fl e. grow_outputs fl normal k i old newTypes (ts, obs, e))"
proof (induction k arbitrary: i ts obs)
  case 0
  show ?case unfolding grow_outputs.simps by (rule replays_rules | (rule readsI; simp; fail))+
next
  case (Suc k)
  show ?case unfolding grow_outputs.simps
    by (rule Suc.IH replays_ops replays_rules | (rule readsI; simp; fail))+
qed


lemma copies_read:
  assumes "reads rd" "rd e = Some v" "copies pr e (\<lambda>fl e. g fl v e) x"
  shows "copies pr e (\<lambda>fl e. Option.bind (rd e) (\<lambda>v. g fl v e)) x"
  by (rule copies_cong [OF assms(3)]) (use readsD [OF assms(1)] assms(2) in force)

text \<open>The node's own type array keeps the event ports it had; new cells are no event ports.\<close>

lemma own_types_known:
  assumes "own_types S (outputTypes n) dyn old new = Some ts" "outs_known S n"
  shows "outs_known S (n\<lparr>outputTypes := Own ts, ntype := t\<rparr>)"
proof -
  let ?o = "types_of S (outputTypes n)"
  have "get_at ?o i = Some y" if "get_at ts i = Some y" "is_event y" for i y
    using assms(1) that
    by (auto simp: own_types_def copy_types_def get_at_def nth_append split: if_splits)
  moreover have "types_of S (Own ts) = ts" by (simp add: types_of_def)
  ultimately show ?thesis using assms(2) unfolding outs_known_def by fastforce
qed

lemma mask_dynamic: "(t OR ksiNodeTypeDynamicInputType) AND ksiNodeTypeOutputMask = t AND ksiNodeTypeOutputMask"
  "(t OR ksiNodeTypeDynamicOutputType) AND ksiNodeTypeOutputMask = t AND ksiNodeTypeOutputMask"
  by (simp_all add: bit.conj_disj_distrib2 node_type_defs)

lemma eqF: "\<not> P \<Longrightarrow> P = False"
  by simp

lemma ChangeOutputPortCount_copies:
  assumes q: "queues_ok e" and known: "\<And>n. get_node e p = Some n \<Longrightarrow>
        ntype n AND ksiNodeTypeOutputMask = ksiNodeTypeOutputNormal \<Longrightarrow> outs_known e n"
    and run: "impl_ksiNodeChangeOutputPortCount 0 e p port_count newTypes = Some x"
  shows "copies prU e (\<lambda>fl e. impl_ksiNodeChangeOutputPortCount fl e p port_count newTypes) x"
proof -
  from run obtain n where n: "get_node e p = Some n"
    by (auto simp: impl_ksiNodeChangeOutputPortCount_def bind_eq_Some_conv)
  with run obtain ts where ts: "own_types e (outputTypes n) (ntype n AND ksiNodeTypeDynamicOutputType \<noteq> 0)
            (outputCount n) port_count = Some ts"
    by (auto simp: impl_ksiNodeChangeOutputPortCount_def bind_eq_Some_conv)
  let ?n = "n\<lparr>outputTypes := Own ts, ntype := ntype n OR ksiNodeTypeDynamicOutputType\<rparr>"
  let ?normal = "ntype ?n AND ksiNodeTypeOutputMask = ksiNodeTypeOutputNormal"
  let ?body = "\<lambda>fl e. do {
     e \<leftarrow> (if ?normal \<and> port_count < outputCount ?n
           then for_ports (\<lambda>e i. impl_delete_output fl e ?n i)
                  (nat (outputCount ?n - port_count)) port_count e
           else Some e);
     (ts, obs, e) \<leftarrow> (if port_count > outputCount ?n
           then grow_outputs fl ?normal (nat (port_count - outputCount ?n)) (outputCount ?n)
                  (outputCount ?n) newTypes (ts, outputBuffer ?n, e)
           else Some (ts, take (nat port_count) (outputBuffer ?n), e));
     Some (set_node p (?n\<lparr>outputTypes := Own ts, outputBuffer := obs, outputCount := port_count\<rparr>) e)
   }"
  have body: "replays prU e ?body"
  proof (cases ?normal)
    case True
    then have "outs_known e ?n"
      using own_types_known [OF ts known [OF n]] by (simp add: mask_dynamic)
    then show ?thesis
      by - (rule for_delete_output_replays grow_outputs_replays replays_rules | assumption | (rule readsI; simp; fail))+
  next
    case False
    show ?thesis unfolding eqF [OF False] simp_thms if_False
      by (rule grow_outputs_replays replays_rules | (rule readsI; simp; fail))+
  qed
  have eq: "impl_ksiNodeChangeOutputPortCount fl c p port_count newTypes = ?body fl c" if "same e c" for fl c
  proof -
    have "get_node c p = Some n" using n same_fields(6) [OF that] by simp
    moreover have "own_types c (outputTypes n) (ntype n AND ksiNodeTypeDynamicOutputType \<noteq> 0)
            (outputCount n) port_count = Some ts"
      using ts unfolding own_types_def same_fields(5) [OF that] .
    ultimately show ?thesis by (simp add: impl_ksiNodeChangeOutputPortCount_def Let_def)
  qed
  have "?body 0 e = Some x" using run eq [of e 0] by simp
  from replaysD [OF body q _ this] have "copies prU e ?body x" by (simp add: ext_def)
  then show ?thesis by (rule copies_cong) (rule eq)
qed

definition destroy_ports :: "nat \<Rightarrow> KsiEngine \<Rightarrow> KsiNode \<Rightarrow> KsiEngine option" where
  "destroy_ports flag e n = do {
     e \<leftarrow> for_ports (\<lambda>e i. impl_delete_env flag e n i) (nat (inputCount n)) 0 e;
     (if ntype n AND ksiNodeTypeOutputMask = ksiNodeTypeOutputNormal
      then for_ports (\<lambda>e i. impl_delete_output flag e n i) (nat (outputCount n)) 0 e
      else Some e)
   }"

lemma destroy_ports_replays:
  assumes "ntype n AND ksiNodeTypeOutputMask = ksiNodeTypeOutputNormal \<Longrightarrow> outs_known S n"
  shows "replays prU S (\<lambda>fl e. destroy_ports fl e n)"
proof (cases "ntype n AND ksiNodeTypeOutputMask = ksiNodeTypeOutputNormal")
  case True
  with assms have "outs_known S n" by blast
  then show ?thesis unfolding destroy_ports_def
    by - (rule for_delete_env_replays for_delete_output_replays replays_rules | assumption | (rule readsI; simp; fail))+
next
  case False
  show ?thesis unfolding destroy_ports_def eqF [OF False] if_False
    by (rule for_delete_env_replays replays_rules | (rule readsI; simp; fail))+
qed

lemma ksiEngineDestroyNode_ports:
  "ksiEngineDestroyNode flag e n = do {
     e \<leftarrow> destroy_ports flag e n;
     (if flag \<noteq> 0
      then (case INLINE_LIST (ksiNodeTypeInlineId (ntype n)) of
              Some pl \<Rightarrow>
                if dynamicMemory pl then do {
                  _ \<leftarrow> plugs e (nargs n);
                  Some (e\<lparr>plugs := (plugs e)(nargs n := None)\<rparr>)
                }
                else Some e
            | None \<Rightarrow> Some e)
      else Some e)
   }"
  by (simp add: ksiEngineDestroyNode_def destroy_ports_def)

end
