(* ===== verification/Owner.thy ===== *)
theory Owner
  imports Replay_Ops
begin

text \<open>
  Who owns a shared block: each one handed out by \<open>ksiMVCCMonitoredMalloc\<close> sits in at
  most one slot of the version being edited (the \<open>buffer\<close> of an input, the
  \<open>outputBuffer\<close> of an output) or in the queue of blocks to be freed. \<open>keeps e e'\<close>
  says that a run of the editor preserves this and leaves the nodes' fixed data alone.
\<close>

section \<open>Slots\<close>

definition opt_ptr :: "ptr \<Rightarrow> ptr option" where
  "opt_ptr b = (if b = NULL then None else Some b)"

lemma opt_ptr_simps [simp]: "opt_ptr NULL = None" "b \<noteq> NULL \<Longrightarrow> opt_ptr b = Some b"
  by (simp_all add: opt_ptr_def)

fun env_buffer :: "KsiEnv \<Rightarrow> ptr" where
  "env_buffer (EventEnv es) = NULL"
| "env_buffer (SignalEnv b i m) = b"

text \<open>A node's slots: \<open>Inl i\<close> is the buffer of input \<open>i\<close>, \<open>Inr i\<close> that of output \<open>i\<close>.\<close>

definition slot_of :: "KsiNode \<Rightarrow> nat + nat \<Rightarrow> ptr option" where
  "slot_of n k = (case k of
      Inl i \<Rightarrow> if i < length (nenv n) then opt_ptr (env_buffer (nenv n ! i)) else None
    | Inr i \<Rightarrow> if i < length (outputBuffer n) then opt_ptr (outputBuffer n ! i) else None)"

definition slot :: "KsiEngine \<Rightarrow> ptr \<times> (nat + nat) \<Rightarrow> ptr option" where
  "slot e = (\<lambda>(p, k). case get_node e p of None \<Rightarrow> None | Some n \<Rightarrow> slot_of n k)"

definition own :: "KsiEngine \<Rightarrow> bool" where
  "own e \<longleftrightarrow> queues_ok e \<and> inj_on (slot e) (dom (slot e)) \<and>
     ran (slot e) \<subseteq> dom (blocks e) - set (frees e) \<and>
     distinct (frees e) \<and> set (frees e) \<subseteq> dom (blocks e)"

lemma get_node_set_node [simp]: "get_node (set_node p n e) q = (if q = p then Some n else get_node e q)"
  by (simp add: get_node_def set_node_def)

lemma set_node_fields [simp]:
  "blocks (set_node p n e) = blocks e" "mallocBufs (set_node p n e) = mallocBufs e"
  "freeBufs (set_node p n e) = freeBufs e" "nextblock (set_node p n e) = nextblock e"
  "queues_ok (set_node p n e) = queues_ok e" "plugs (set_node p n e) = plugs e"
  "staticIn (set_node p n e) = staticIn e" "staticOut (set_node p n e) = staticOut e"
  "nnext (hot (set_node p n e)) = nnext (hot e)" "nlist (hot (set_node p n e)) = nlist (hot e)"
  "finalNode (hot (set_node p n e)) = finalNode (hot e)"
  "framesPerBuffer (set_node p n e) = framesPerBuffer e"
  "evq (set_node p n e) = evq e"
  by (simp_all add: set_node_def)

lemma get_node_hot: "hot e = hot c \<Longrightarrow> get_node e = get_node c"
  by (rule ext) (simp add: get_node_def)

lemma slot_hot: "hot e = hot c \<Longrightarrow> slot e = slot c"
  unfolding slot_def by (simp only: get_node_hot [of e c])

lemma slot_set_node:
  "slot (set_node p n e) = (\<lambda>(q, k). if q = p then slot_of n k else slot e (q, k))"
  by (auto simp: slot_def fun_eq_iff)

section \<open>Inputs and outputs that keep their shape\<close>

definition same_kind :: "KsiEnv \<Rightarrow> KsiEnv \<Rightarrow> bool" where
  "same_kind v w \<longleftrightarrow> (\<exists>es. v = EventEnv es) = (\<exists>es. w = EventEnv es)"

definition node_shape :: "KsiNode \<Rightarrow> KsiNode \<Rightarrow> bool" where
  "node_shape n m \<longleftrightarrow> nid m = nid n \<and> nargs m = nargs n \<and> extArgs m = extArgs n \<and>
     outputCount m = outputCount n \<and> outputTypes m = outputTypes n \<and>
     outputBuffer m = outputBuffer n \<and> inputCount m = inputCount n \<and> inputTypes m = inputTypes n \<and>
     ntype m AND NOT ksiNodeTypeScratchPredecessor = ntype n AND NOT ksiNodeTypeScratchPredecessor \<and>
     list_all2 same_kind (nenv n) (nenv m)"

definition keeps :: "KsiEngine \<Rightarrow> KsiEngine \<Rightarrow> bool" where
  "keeps e e' \<longleftrightarrow> (own e \<longrightarrow> own e') \<and> nnext (hot e') = nnext (hot e) \<and>
     (\<forall>p. get_node e' p = None \<longleftrightarrow> get_node e p = None) \<and>
     (\<forall>p n m. get_node e p = Some n \<longrightarrow> get_node e' p = Some m \<longrightarrow> node_shape n m)"

lemma same_kind_refl [simp]: "same_kind v v"
  by (simp add: same_kind_def)

lemma same_kind_cons [simp]:
  "same_kind (EventEnv l) w \<longleftrightarrow> (\<exists>es. w = EventEnv es)"
  "same_kind (SignalEnv a b c) w \<longleftrightarrow> (\<exists>a b c. w = SignalEnv a b c)"
  by (cases w; simp add: same_kind_def)+

lemma same_kind_trans: "same_kind a b \<Longrightarrow> same_kind b c \<Longrightarrow> same_kind a c"
  by (simp add: same_kind_def)

lemma list_all2_same_kind_refl [simp]: "list_all2 same_kind vs vs"
  by (simp add: list_all2_refl)

lemma node_shape_refl [simp]: "node_shape n n"
  by (simp add: node_shape_def)

lemma node_shape_trans: "node_shape a b \<Longrightarrow> node_shape b c \<Longrightarrow> node_shape a c"
  unfolding node_shape_def
  using list_all2_trans [of same_kind same_kind same_kind] same_kind_trans by (metis (no_types, lifting))

lemma keeps_refl [simp]: "keeps e e"
  by (simp add: keeps_def)

lemma keepsD:
  assumes "keeps e e'"
  shows "own e \<Longrightarrow> own e'" "nnext (hot e') = nnext (hot e)" "get_node e' p = None \<longleftrightarrow> get_node e p = None"
    "get_node e p = Some n \<Longrightarrow> \<exists>n'. get_node e' p = Some n' \<and> node_shape n n'"
    "get_node e' p = Some n' \<Longrightarrow> \<exists>n. get_node e p = Some n \<and> node_shape n n'"
proof -
  from assms show 1: "own e \<Longrightarrow> own e'" "nnext (hot e') = nnext (hot e)"
      "get_node e' p = None \<longleftrightarrow> get_node e p = None"
    by (simp_all add: keeps_def)
  from 1(3) assms show "get_node e p = Some n \<Longrightarrow> \<exists>n'. get_node e' p = Some n' \<and> node_shape n n'"
    "get_node e' p = Some n' \<Longrightarrow> \<exists>n. get_node e p = Some n \<and> node_shape n n'"
    unfolding keeps_def by (metis option.exhaust)+
qed

lemma keeps_trans [trans]:
  assumes "keeps a b" "keeps b c"
  shows "keeps a c"
  unfolding keeps_def
proof (intro conjI allI impI)
  show "own c" if "own a" using that keepsD(1) assms by blast
  show "nnext (hot c) = nnext (hot a)" using keepsD(2) assms by metis
  show "get_node c p = None \<longleftrightarrow> get_node a p = None" for p using keepsD(3) assms by metis
  show "node_shape n m" if "get_node a p = Some n" "get_node c p = Some m" for p n m
    using keepsD(4) [OF assms(1) that(1)] keepsD(5) [OF assms(2) that(2)] node_shape_trans by force
qed

lemma own_cong:
  assumes "slot e = slot c" "blocks e = blocks c" "mallocBufs e = mallocBufs c"
    "freeBufs e = freeBufs c" "nextblock e = nextblock c"
  shows "own e = own c"
  using assms by (simp add: own_def queues_ok_def)

lemma slot_of_cong: "nenv m = nenv n \<Longrightarrow> outputBuffer m = outputBuffer n \<Longrightarrow> slot_of m = slot_of n"
  by (rule ext) (simp add: slot_of_def split: sum.split)

lemma keeps_set_node:
  assumes "get_node e p = Some n" "node_shape n m" "slot_of m = slot_of n"
  shows "keeps e (set_node p m e)"
proof -
  have "slot (set_node p m e) = slot e"
    using assms by (auto simp: slot_set_node slot_def fun_eq_iff)
  then have "own (set_node p m e) = own e" by (rule own_cong) simp_all
  then show ?thesis
    using assms by (auto simp: keeps_def)
qed

lemma keeps_update:
  assumes "get_node e p = Some n" "node_shape n m" "nenv m = nenv n"
  shows "keeps e (set_node p m e)"
proof (rule keeps_set_node [OF assms(1,2)])
  show "slot_of m = slot_of n" using assms by (intro slot_of_cong) (simp_all add: node_shape_def)
qed

text \<open>Updates of one input that leave its buffer in place.\<close>

lemma set_env_node:
  assumes "set_env e p port v = Some e'"
  obtains n where "get_node e p = Some n" "0 \<le> port" "nat port < length (nenv n)"
    "e' = set_node p (n\<lparr>nenv := (nenv n)[nat port := v]\<rparr>) e"
  using assms by (auto simp: set_env_def bind_eq_Some_conv set_at_eq_Some)

lemma get_env_node:
  assumes "get_env e p port = Some v"
  obtains n where "get_node e p = Some n" "0 \<le> port" "nat port < length (nenv n)" "v = nenv n ! nat port"
  using assms by (auto simp: get_env_def bind_eq_Some_conv get_at_eq_Some)

lemma get_ees_env: "get_ees e p port = Some es \<longleftrightarrow> get_env e p port = Some (EventEnv es)"
  by (cases "get_env e p port") (auto simp: get_ees_def split: KsiEnv.splits)

lemma get_sig_env: "get_sig e p port = Some (b, i, m) \<longleftrightarrow> get_env e p port = Some (SignalEnv b i m)"
  by (cases "get_env e p port") (auto simp: get_sig_def split: KsiEnv.splits)

lemma keeps_set_env:
  assumes "set_env e p port v = Some e'" "get_env e p port = Some v0" "same_kind v0 v"
    "env_buffer v = env_buffer v0"
  shows "keeps e e'"
proof -
  obtain n where n: "get_node e p = Some n" "nat port < length (nenv n)"
    "e' = set_node p (n\<lparr>nenv := (nenv n)[nat port := v]\<rparr>) e"
    using set_env_node [OF assms(1)] by metis
  have v0: "v0 = nenv n ! nat port" using get_env_node [OF assms(2)] n(1) by auto
  have "list_all2 same_kind (nenv n) ((nenv n)[nat port := v])"
    using assms(3) v0 n(2) by (auto simp: list_all2_conv_all_nth nth_list_update)
  then have "keeps e (set_node p (n\<lparr>nenv := (nenv n)[nat port := v]\<rparr>) e)"
    using n(1,2) assms(4) v0
    by (intro keeps_set_node) (auto simp: node_shape_def slot_of_def fun_eq_iff nth_list_update split: sum.split)
  then show ?thesis by (simp add: n(3))
qed

lemma get_env_set_env:
  assumes "set_env e p port v = Some e'"
  shows "get_env e' p port = Some v" "blocks e' = blocks e" "freeBufs e' = freeBufs e"
    "mallocBufs e' = mallocBufs e" "nextblock e' = nextblock e" "frame e e'"
proof -
  obtain n where n: "get_node e p = Some n" "0 \<le> port" "nat port < length (nenv n)"
    "e' = set_node p (n\<lparr>nenv := (nenv n)[nat port := v]\<rparr>) e" by (rule set_env_node [OF assms])
  then show "get_env e' p port = Some v" "blocks e' = blocks e" "freeBufs e' = freeBufs e"
    "mallocBufs e' = mallocBufs e" "nextblock e' = nextblock e"
    by (simp_all add: get_env_def get_at_def nat_less_iff)
  show "frame e e'" by (simp add: n(4) set_node_def)
qed

lemma slot_set_env:
  assumes "set_env e p port v = Some e'"
  shows "slot e' = (slot e)((p, Inl (nat port)) := opt_ptr (env_buffer v))"
proof -
  obtain n where n: "get_node e p = Some n" "nat port < length (nenv n)"
    "e' = set_node p (n\<lparr>nenv := (nenv n)[nat port := v]\<rparr>) e" by (rule set_env_node [OF assms])
  have "slot_of (n\<lparr>nenv := (nenv n)[nat port := v]\<rparr>) k =
      ((slot_of n)(Inl (nat port) := opt_ptr (env_buffer v))) k" for k
    using n(2) by (cases k) (auto simp: slot_of_def nth_list_update)
  then show ?thesis using n(1) by (auto simp: n(3) slot_set_node slot_def fun_eq_iff)
qed

section \<open>Giving up and taking a buffer\<close>

lemma DeferredFree_edit:
  assumes "ksiMVCCDeferredFree 0 e b = Some e'" "queues_ok e"
  obtains q where "e' = e\<lparr>freeBufs := q\<rparr>" "spsc_inv q"
    "spsc_list q = frees e @ (case opt_ptr b of None \<Rightarrow> [] | Some b \<Rightarrow> [b])"
proof (cases "b = NULL")
  case True
  with assms show ?thesis by (intro that [of "freeBufs e"]) (auto simp: ksiMVCCDeferredFree_def queues_ok_def)
next
  case False
  have "spsc_inv (freeBufs e)" using assms(2) by (simp add: queues_ok_def)
  from sq.enq_law [OF this] obtain q where "ksiSPSCListEnqueue (freeBufs e) b = Some q" "spsc_inv q"
    "spsc_list q = frees e @ [b]" by blast
  with False assms(1) show ?thesis by (intro that [of q]) (auto simp: ksiMVCCDeferredFree_def)
qed

lemma inj_slot_del:
  assumes "inj_on f (dom f)"
  shows "inj_on (f(s := None)) (dom (f(s := None)))"
  using assms by (auto simp: inj_on_def)

lemma inj_slot_upd:
  assumes "inj_on f (dom f)" "b \<notin> ran f"
  shows "inj_on (f(s \<mapsto> b)) (dom (f(s \<mapsto> b)))"
  using assms by (auto simp: inj_on_def ran_def)

lemma own_move_to_frees:
  assumes "own e" "slot e s = Some b" "slot e' = (slot e)(s := None)" "blocks e' = blocks e"
    "queues_ok e'" "frees e' = frees e @ [b]"
  shows "own e'"
proof -
  have b: "b \<in> ran (slot e)" using assms(2) by (rule ranI)
  have "b \<notin> ran (slot e')"
  proof
    assume "b \<in> ran (slot e')"
    then obtain t where "t \<noteq> s" "slot e t = Some b" using assms(3) by (auto simp: ran_def split: if_splits)
    then show False using assms(1,2) unfolding own_def by (metis inj_onD domI)
  qed
  moreover have "ran (slot e') \<subseteq> ran (slot e)" using assms(3) by (auto simp: ran_def split: if_splits)
  ultimately show ?thesis
    using assms b inj_slot_del [of "slot e" s] unfolding own_def by auto
qed

lemma own_take:
  assumes "own e" "slot e' = (slot e)(s := opt_ptr b)" "b = NULL \<or> b \<notin> dom (blocks e)"
    "dom (blocks e') = dom (blocks e) \<union> ({b} - {NULL})" "queues_ok e'" "freeBufs e' = freeBufs e"
  shows "own e'"
proof (cases "b = NULL")
  case True
  have "ran ((slot e)(s := None)) \<subseteq> ran (slot e)" by (auto simp: ran_def split: if_splits)
  then show ?thesis using assms True inj_slot_del [of "slot e" s] unfolding own_def by auto
next
  case False
  have "b \<notin> ran (slot e)" using assms(1,3) False by (auto simp: own_def)
  moreover have "ran ((slot e)(s \<mapsto> b)) \<subseteq> insert b (ran (slot e))" by (auto simp: ran_def split: if_splits)
  ultimately show ?thesis
    using assms False inj_slot_upd [of "slot e" b s] unfolding own_def by auto
qed


section \<open>The operations\<close>

lemma DeferredFree_hot: "ksiMVCCDeferredFree fl e b = Some e' \<Longrightarrow> hot e' = hot e"
  by (auto simp: ksiMVCCDeferredFree_def free_block_def bind_eq_Some_conv split: if_splits)

lemma MonitoredMalloc_hot: "ksiMVCCMonitoredMalloc fl e k = Some (b, e') \<Longrightarrow> hot e' = hot e"
  by (auto simp: ksiMVCCMonitoredMalloc_def malloc_block_def bind_eq_Some_conv split: if_splits)

lemma MonitoredMalloc_edit:
  assumes "ksiMVCCMonitoredMalloc 0 e k = Some (b, e')" "queues_ok e"
  shows "queues_ok e'" "freeBufs e' = freeBufs e" "b = NULL \<or> b \<notin> dom (blocks e)"
    "dom (blocks e') = dom (blocks e) \<union> ({b} - {NULL})" "evq e' = evq e" "b = NULL \<longleftrightarrow> k = 0"
    "b < nextblock e'"
proof -
  have "spsc_inv (mallocBufs e)" using assms(2) by (simp add: queues_ok_def)
  from sq.enq_law [OF this] obtain q where "ksiSPSCListEnqueue (mallocBufs e) (nextblock e) = Some q"
    "spsc_inv q" by blast
  with assms show "queues_ok e'" "freeBufs e' = freeBufs e" "b = NULL \<or> b \<notin> dom (blocks e)"
    "dom (blocks e') = dom (blocks e) \<union> ({b} - {NULL})" "evq e' = evq e" "b = NULL \<longleftrightarrow> k = 0"
    "b < nextblock e'"
    by (auto simp: ksiMVCCMonitoredMalloc_def malloc_block_def queues_ok_def evq_def split: if_splits)
qed

lemma set_env_shape:
  assumes "set_env e1 p port v = Some e'" "get_env e p port = Some v0" "same_kind v0 v" "hot e1 = hot e"
  shows "nnext (hot e') = nnext (hot e)" "get_node e' q = None \<longleftrightarrow> get_node e q = None"
    "get_node e q = Some n \<Longrightarrow> get_node e' q = Some m \<Longrightarrow> node_shape n m"
proof -
  note g = get_node_hot [OF assms(4)]
  obtain k where k: "get_node e1 p = Some k" "nat port < length (nenv k)"
    "e' = set_node p (k\<lparr>nenv := (nenv k)[nat port := v]\<rparr>) e1" by (rule set_env_node [OF assms(1)])
  have v0: "v0 = nenv k ! nat port" using get_env_node [OF assms(2)] k(1) by (auto simp: g)
  have "list_all2 same_kind (nenv k) ((nenv k)[nat port := v])"
    using assms(3) v0 k(2) by (auto simp: list_all2_conv_all_nth nth_list_update)
  then have "node_shape k (k\<lparr>nenv := (nenv k)[nat port := v]\<rparr>)" by (simp add: node_shape_def)
  then show "nnext (hot e') = nnext (hot e)" "get_node e' q = None \<longleftrightarrow> get_node e q = None"
    "get_node e q = Some n \<Longrightarrow> get_node e' q = Some m \<Longrightarrow> node_shape n m"
    using k(1) assms(4) by (auto simp: k(3) g split: if_splits)
qed

lemma keeps_free_slot:
  assumes "get_env e p port = Some (SignalEnv b i ms)" "ksiMVCCDeferredFree 0 e b = Some e1"
    "set_env e1 p port (SignalEnv NULL i' ms') = Some e'"
  shows "keeps e e'"
proof -
  note h = DeferredFree_hot [OF assms(2)]
  have "own e'" if own: "own e"
  proof -
    obtain n where n: "get_node e p = Some n" "nat port < length (nenv n)" "nenv n ! nat port = SignalEnv b i ms"
      using get_env_node [OF assms(1)] by metis
    have sl: "slot e (p, Inl (nat port)) = opt_ptr b" using n by (simp add: slot_def slot_of_def)
    have q: "queues_ok e" using own by (simp add: own_def)
    obtain qf where f: "e1 = e\<lparr>freeBufs := qf\<rparr>" "spsc_inv qf"
      "spsc_list qf = frees e @ (case opt_ptr b of None \<Rightarrow> [] | Some b \<Rightarrow> [b])"
      by (rule DeferredFree_edit [OF assms(2) q])
    have s': "slot e' = (slot e)((p, Inl (nat port)) := None)"
      using slot_set_env [OF assms(3)] slot_hot [OF h] by simp
    note env = get_env_set_env [OF assms(3)]
    have q': "queues_ok e'" using q f env(2-5) by (simp add: queues_ok_def)
    show ?thesis
    proof (cases "b = NULL")
      case True
      then have "slot e' = slot e" using s' sl by auto
      then show ?thesis using own q' env(2-5) f True by (simp add: own_def)
    next
      case False
      then show ?thesis
        by (intro own_move_to_frees [OF own, of "(p, Inl (nat port))" b]) (use sl s' q' env(2-5) f in auto)
    qed
  qed
  moreover have "same_kind (SignalEnv b i ms) (SignalEnv NULL i' ms')" by simp
  note set_env_shape [OF assms(3,1) this h]
  ultimately show ?thesis unfolding keeps_def by blast
qed

lemma keeps_take_slot:
  assumes "get_env e p port = Some (SignalEnv NULL i ms)" "ksiMVCCMonitoredMalloc 0 e k = Some (b, e1)"
    "set_env e1 p port (SignalEnv b i' ms') = Some e'"
  shows "keeps e e'"
proof -
  note h = MonitoredMalloc_hot [OF assms(2)]
  have "own e'" if own: "own e"
  proof -
    have q: "queues_ok e" using own by (simp add: own_def)
    note m = MonitoredMalloc_edit [OF assms(2) q]
    note env = get_env_set_env [OF assms(3)]
    show ?thesis
    proof (rule own_take [OF own])
      show "slot e' = (slot e)((p, Inl (nat port)) := opt_ptr b)"
        using slot_set_env [OF assms(3)] slot_hot [OF h] by simp
      show "queues_ok e'" using m(1) env(2-5) by (simp add: queues_ok_def)
    qed (use m env(2-5) in auto)
  qed
  moreover have "same_kind (SignalEnv NULL i ms) (SignalEnv b i' ms')" by simp
  note set_env_shape [OF assms(3,1) this h]
  ultimately show ?thesis unfolding keeps_def by blast
qed

lemma refreshCopying_keeps:
  assumes "refreshCopying 0 e p port = Some e'"
  shows "keeps e e'"
proof -
  from assms obtain t where t: "input_type e p port = Some t"
    by (auto simp: refreshCopying_def bind_eq_Some_conv)
  show ?thesis
  proof (cases "is_event t")
    case True
    then show ?thesis using assms t by (simp add: refreshCopying_def)
  next
    case False
    with assms t obtain buf ibp ms where sig: "get_sig e p port = Some (buf, ibp, ms)"
      by (auto simp: refreshCopying_def bind_eq_Some_conv)
    then have env: "get_env e p port = Some (SignalEnv buf ibp ms)" by (simp add: get_sig_env)
    show ?thesis
    proof (cases ms)
      case Nil
      then have "set_env e p port (SignalEnv buf NULL []) = Some e'"
        using assms t False sig by (simp add: refreshCopying_def)
      then show ?thesis by (rule keeps_set_env) (use env Nil in auto)
    next
      case (Cons me rest)
      show ?thesis
      proof (cases "rest = [] \<and> ksiDataIsUnit (gain me) t")
        case True
        obtain e1 where e1: "(if buf \<noteq> NULL then do {
                        e \<leftarrow> ksiMVCCDeferredFree 0 e buf;
                        set_env e p port (SignalEnv NULL ibp ms)
                      } else Some e) = Some e1"
          and e2: "(if src me \<noteq> NULL then do {
                  s \<leftarrow> get_node e1 (src me);
                  ob \<leftarrow> get_at (outputBuffer s) (srcPort me);
                  set_env e1 p port (SignalEnv NULL ob ms)
                } else Some e1) = Some e'"
          using assms t False sig Cons True
          by (cases "buf = NULL") (auto simp: refreshCopying_def bind_eq_Some_conv)
        have k1: "keeps e e1" using e1 keeps_free_slot [OF env]
          by (auto simp: bind_eq_Some_conv split: if_splits)
        have env1: "get_env e1 p port = Some (SignalEnv NULL ibp ms)"
          using e1 env get_env_set_env(1) by (auto simp: bind_eq_Some_conv split: if_splits)
        have "keeps e1 e'" using e2 keeps_set_env [OF _ env1]
          by (auto simp: bind_eq_Some_conv split: if_splits)
        with k1 show ?thesis by (rule keeps_trans)
      next
        case nonunit: False
        show ?thesis
        proof (cases "buf = NULL")
          case True
          then obtain b e1 where "ksiMVCCMonitoredMalloc 0 e (4 * framesPerBuffer e) = Some (b, e1)"
            "set_env e1 p port (SignalEnv b b ms) = Some e'"
            using assms t False sig Cons nonunit by (auto simp: refreshCopying_def bind_eq_Some_conv)
          then show ?thesis using keeps_take_slot env True by blast
        next
          case nz: False
          then have "set_env e p port (SignalEnv buf buf ms) = Some e'"
            using assms t False sig Cons nonunit by (auto simp: refreshCopying_def bind_eq_Some_conv)
          then show ?thesis by (rule keeps_set_env) (use env in auto)
        qed
      qed
    qed
  qed
qed


text \<open>\<open>presv pr f\<close>: every run of the editor's \<open>f\<close> keeps; the rules follow its steps.\<close>

definition presv :: "('x \<Rightarrow> 'a \<times> KsiEngine) \<Rightarrow> (KsiEngine \<Rightarrow> 'x option) \<Rightarrow> bool" where
  "presv pr f \<longleftrightarrow> (\<forall>e x. f e = Some x \<longrightarrow> keeps e (snd (pr x)))"

lemma presvI: "(\<And>e x. f e = Some x \<Longrightarrow> keeps e (snd (pr x))) \<Longrightarrow> presv pr f"
  by (simp add: presv_def)

lemma presvD: "presv pr f \<Longrightarrow> f e = Some x \<Longrightarrow> keeps e (snd (pr x))"
  by (simp add: presv_def)

lemma presv_bindU:
  "presv prU f \<Longrightarrow> presv pr g \<Longrightarrow> presv pr (\<lambda>e. Option.bind (f e) (\<lambda>e. g e))"
  unfolding presv_def by (auto simp: bind_eq_Some_conv prU_def) (metis keeps_trans)

lemma presv_bindP:
  "presv prP f \<Longrightarrow> (\<And>x. presv pr (g x)) \<Longrightarrow> presv pr (\<lambda>e. Option.bind (f e) (\<lambda>(x, e). g x e))"
  unfolding presv_def by (auto simp: bind_eq_Some_conv prP_def) (metis keeps_trans snd_conv)

lemma presv_read:
  "(\<And>x. presv pr (g x)) \<Longrightarrow> presv pr (\<lambda>e. Option.bind (rd e) (\<lambda>x. g x e))"
  unfolding presv_def by (auto simp: bind_eq_Some_conv)

lemma presv_if: "presv pr f \<Longrightarrow> presv pr g \<Longrightarrow> presv pr (\<lambda>e. if b e then f e else g e)"
  unfolding presv_def by auto

lemma presv_prod: "(\<And>a b. presv pr (g a b)) \<Longrightarrow> presv pr (\<lambda>e. case rd e of (a, b) \<Rightarrow> g a b e)"
  unfolding presv_def by (auto split: prod.splits)

lemma presv_ret:
  "presv prU (\<lambda>e. Some e)" "presv prP (\<lambda>e. Some (r e, e))" "presv pr (\<lambda>e. None)"
  by (simp_all add: presv_def pr_defs)

named_theorems keeps_ops \<open>operations that keep ownership and shape\<close>

lemmas presv_rules = presv_bindU presv_bindP presv_read presv_if presv_prod presv_ret

lemma refreshCopying_presv [keeps_ops]: "presv prU (\<lambda>e. refreshCopying 0 e p port)"
  by (rule presvI) (simp add: prU_def refreshCopying_keeps)

lemma link_nodes_presv [keeps_ops]: "presv prU (\<lambda>e. link_nodes e s d desId)"
proof (rule presvI)
  fix e e' assume run: "link_nodes e s d desId = Some e'"
  then obtain sn where sn: "get_node e s = Some sn" by (auto simp: link_nodes_def bind_eq_Some_conv)
  show "keeps e (snd (prU e'))"
  proof (cases "ksiVecIdlistSearch (successors sn) desId")
    case True
    then show ?thesis using run sn by (simp add: link_nodes_def prU_def)
  next
    case False
    let ?e = "set_node s (sn\<lparr>successors := ksiVecIdlistPush (successors sn) desId\<rparr>) e"
    obtain dn where dn: "get_node ?e d = Some dn" "e' = set_node d (dn\<lparr>depNum := depNum dn + 1\<rparr>) ?e"
      using run sn False by (auto simp: link_nodes_def bind_eq_Some_conv simp del: get_node_set_node)
    have "keeps e ?e" by (rule keeps_update [OF sn]) (simp_all add: node_shape_def)
    also have "keeps ?e e'" unfolding dn(2)
      by (rule keeps_update [OF dn(1)]) (simp_all add: node_shape_def)
    finally show ?thesis by (simp add: prU_def)
  qed
qed

lemma keeps_set_ees:
  "get_ees e p port = Some es \<Longrightarrow> set_env e p port (EventEnv es') = Some e' \<Longrightarrow> keeps e e'"
  by (rule keeps_set_env [of e p port "EventEnv es'" e' "EventEnv es"]) (simp_all add: get_ees_env)

lemma keeps_set_mixer:
  "get_sig e p port = Some (b, i, ms) \<Longrightarrow> set_env e p port (SignalEnv b i ms') = Some e' \<Longrightarrow> keeps e e'"
  by (rule keeps_set_env [of e p port "SignalEnv b i ms'" e' "SignalEnv b i ms"]) (simp_all add: get_sig_env)

lemma make_event_wire_presv [keeps_ops]: "presv prP (\<lambda>e. make_event_wire e s srcPrt d desPort)"
  by (rule presvI)
    (auto simp: make_event_wire_def bind_eq_Some_conv prP_def split: if_splits intro: keeps_set_ees)

lemma set_mixer_presv [keeps_ops]:
  "presv pr k \<Longrightarrow> presv pr (\<lambda>e. do {
     (b, i, ms) \<leftarrow> get_sig e p port; e \<leftarrow> set_env e p port (SignalEnv b i (f e b i ms)); k e })"
  unfolding presv_def
  by (auto simp: bind_eq_Some_conv) (metis keeps_trans keeps_set_mixer)

lemma make_signal_wire_presv [keeps_ops]:
  "presv prP (\<lambda>e. make_signal_wire 0 e s srcPrt d desPort g)"
proof (rule presvI)
  fix e x assume run: "make_signal_wire 0 e s srcPrt d desPort g = Some x"
  then obtain b i ms where sig: "get_sig e d desPort = Some (b, i, ms)"
    by (auto simp: make_signal_wire_def bind_eq_Some_conv)
  obtain ms' e1 e2 where e: "set_env e d desPort (SignalEnv b i ms') = Some e1"
    "refreshCopying 0 e1 d desPort = Some e2" "x = (ksiErrorNone, e2)"
    using run sig by (auto simp: make_signal_wire_def bind_eq_Some_conv split: option.splits)
  have "keeps e e1" by (rule keeps_set_mixer [OF sig e(1)])
  also have "keeps e1 e2" by (rule refreshCopying_keeps [OF e(2)])
  finally show "keeps e (snd (prP x))" by (simp add: e(3) prP_def)
qed

lemma MakeWire_presv [keeps_ops]:
  "presv prP (\<lambda>e. impl_ksiEngineMakeWire 0 e srcId srcPrt desId desPort g)"
  unfolding impl_ksiEngineMakeWire_def
  by (rule keeps_ops presv_rules)+

lemma MakeBias_tail_presv [keeps_ops]:
  "presv prP (\<lambda>e. do {
                 (buf, ibp, ms) \<leftarrow> get_sig e d desPort;
                 r \<leftarrow> set_bias_gain e bias ms;
                 e \<leftarrow> set_env e d desPort (SignalEnv buf ibp
                       (case r of Some ms' \<Rightarrow> ms'
                        | None \<Rightarrow> \<lparr>srcPort = 0, src = NULL, gain = bias\<rparr> # ms));
                 e \<leftarrow> refreshCopying 0 e d desPort;
                 Some (ksiErrorNone, e)
               })"
  by (rule presvI)
    (auto simp: bind_eq_Some_conv prP_def intro: keeps_trans [OF keeps_set_mixer refreshCopying_keeps])

lemma MakeBias_presv [keeps_ops]:
  "presv prP (\<lambda>e. impl_ksiEngineMakeBias 0 e desId desPort g)"
  unfolding impl_ksiEngineMakeBias_def
  by (rule keeps_ops presv_rules)+

lemma delete_src_presv [keeps_ops]: "presv prU (\<lambda>e. delete_src 0 d s e i)"
  by (rule presvI)
    (auto simp: delete_src_def bind_eq_Some_conv prU_def split: if_splits
      intro: keeps_trans [OF keeps_set_mixer refreshCopying_keeps] keeps_set_ees)

lemma drop_successor_presv [keeps_ops]: "presv prU (\<lambda>e. drop_successor e s i)"
  by (rule presvI)
    (auto simp: drop_successor_def bind_eq_Some_conv prU_def node_shape_def intro!: keeps_update)

lemma dec_depNum_presv [keeps_ops]: "presv prU (\<lambda>e. dec_depNum e d)"
  by (rule presvI)
    (auto simp: dec_depNum_def bind_eq_Some_conv prU_def node_shape_def intro!: keeps_update)

lemma for_ports_presv [keeps_ops]:
  assumes "\<And>i. presv prU (\<lambda>e. body e i)"
  shows "presv prU (\<lambda>e. for_ports body k i e)"
proof (induction k arbitrary: i)
  case 0
  show ?case unfolding for_ports.simps by (rule presv_rules)
next
  case (Suc k)
  show ?case unfolding for_ports.simps by (rule presv_bindU assms Suc.IH)+
qed

lemma DetachNodes_presv [keeps_ops]: "presv prP (\<lambda>e. impl_ksiEngineDetachNodes 0 e srcId desId)"
  unfolding impl_ksiEngineDetachNodes_def
  by (rule keeps_ops presv_rules)+

lemma detach_successors_presv [keeps_ops]: "presv prU (\<lambda>e. detach_successors 0 p sns e)"
proof (induction sns)
  case Nil
  show ?case unfolding detach_successors.simps by (rule presv_rules)
next
  case (Cons loc sns)
  show ?case unfolding detach_successors.simps by (rule Cons.IH keeps_ops presv_rules)+
qed

lemma reg_precs_keeps: "reg_precs es (precs, e) = Some (ps, e') \<Longrightarrow> keeps e e'"
proof (induction es arbitrary: precs e)
  case Nil
  then show ?case by simp
next
  case (Cons me es)
  show ?case
  proof (cases "src me = NULL")
    case True
    then show ?thesis using Cons by (auto simp: bind_eq_Some_conv)
  next
    case False
    then obtain pn where pn: "get_node e (src me) = Some pn" using Cons.prems by (auto simp: bind_eq_Some_conv)
    let ?n = "pn\<lparr>ntype := ntype pn OR ksiNodeTypeScratchPredecessor\<rparr>"
    have "(t OR s) AND NOT s = t AND NOT s" for t s :: int32
      by (simp add: bit.conj_disj_distrib2)
    then have "keeps e (set_node (src me) ?n e)"
      by (intro keeps_update [OF pn]) (simp_all add: node_shape_def)
    then show ?thesis using Cons.prems pn False Cons.IH
      by (auto simp: bind_eq_Some_conv split: if_splits intro: keeps_trans)
  qed
qed

lemma reg_precs_ports_keeps: "reg_precs_ports p k i (precs, e) = Some (ps, e') \<Longrightarrow> keeps e e'"
proof (induction k arbitrary: i precs e)
  case 0
  then show ?case by simp
next
  case (Suc k)
  then show ?case by (auto simp: bind_eq_Some_conv dest!: reg_precs_keeps intro: keeps_trans)
qed

lemma reg_precs_ports_presv [keeps_ops]: "presv prP (\<lambda>e. reg_precs_ports p k i (precs, e))"
  by (rule presvI) (auto simp: prP_def intro: reg_precs_ports_keeps)

lemma clear_scratch_presv [keeps_ops]:
  "presv pr k \<Longrightarrow> presv pr (\<lambda>e. do { pn \<leftarrow> get_node e p;
     e \<leftarrow> Some (set_node p (pn\<lparr>ntype := ntype pn AND NOT ksiNodeTypeScratchPredecessor\<rparr>) e); k e })"
proof (rule presvI)
  fix e z
  assume k: "presv pr k" and run: "do { pn \<leftarrow> get_node e p;
     e \<leftarrow> Some (set_node p (pn\<lparr>ntype := ntype pn AND NOT ksiNodeTypeScratchPredecessor\<rparr>) e); k e } = Some z"
  then obtain pn where pn: "get_node e p = Some pn" by (auto simp: bind_eq_Some_conv)
  let ?e = "set_node p (pn\<lparr>ntype := ntype pn AND NOT ksiNodeTypeScratchPredecessor\<rparr>) e"
  have "keeps e ?e" by (rule keeps_update [OF pn]) (simp_all add: node_shape_def and.assoc)
  also have "keeps ?e (snd (pr z))" using run pn by (intro presvD [OF k]) simp
  finally show "keeps e (snd (pr z))" .
qed

lemma unlink_precs_presv [keeps_ops]: "presv prU (\<lambda>e. unlink_precs i ps e)"
proof (induction ps)
  case Nil
  show ?case unfolding unlink_precs.simps by (rule presv_rules)
next
  case (Cons p ps)
  show ?case unfolding unlink_precs.simps by (rule Cons.IH keeps_ops presv_rules)+
qed

lemma keeps_set_hot:
  "nheap v = nheap (hot e) \<Longrightarrow> nnext v = nnext (hot e) \<Longrightarrow> keeps e (set_hot v e)"
  using own_cong [of "set_hot v e" e]
  by (auto simp: keeps_def slot_def get_node_def)

lemma RemoveNode_presv [keeps_ops]: "presv prP (\<lambda>e. impl_ksiEngineRemoveNode 0 e i)"
  unfolding impl_ksiEngineRemoveNode_def
  by (rule keeps_ops presv_rules | (rule presvI; simp add: prU_def prP_def keeps_set_hot; fail))+

lemma replace_entries_presv [keeps_ops]:
  assumes "\<And>x y. presv pr (k x y)"
  shows "presv pr (\<lambda>e. do {
     v \<leftarrow> get_env e d port;
     _ \<leftarrow> rd1 v e;
     _ \<leftarrow> rd2 v e;
     (es, x, y) \<leftarrow> Some (g v);
     e \<leftarrow> set_env e d port (case v of EventEnv _ \<Rightarrow> EventEnv es | SignalEnv b i _ \<Rightarrow> SignalEnv b i es);
     k x y e
   })"
proof (rule presvI)
  fix e z
  assume "do {
     v \<leftarrow> get_env e d port;
     _ \<leftarrow> rd1 v e;
     _ \<leftarrow> rd2 v e;
     (es, x, y) \<leftarrow> Some (g v);
     e \<leftarrow> set_env e d port (case v of EventEnv _ \<Rightarrow> EventEnv es | SignalEnv b i _ \<Rightarrow> SignalEnv b i es);
     k x y e
   } = Some z"
  then obtain v where v: "get_env e d port = Some v" and r: "do {
     (es, x, y) \<leftarrow> Some (g v);
     e \<leftarrow> set_env e d port (case v of EventEnv _ \<Rightarrow> EventEnv es | SignalEnv b i _ \<Rightarrow> SignalEnv b i es);
     k x y e } = Some z" by (auto simp: bind_eq_Some_conv)
  obtain es x y where g: "g v = (es, x, y)" by (cases "g v") auto
  from r obtain e1 where
    e1: "set_env e d port (case v of EventEnv _ \<Rightarrow> EventEnv es | SignalEnv b i _ \<Rightarrow> SignalEnv b i es) = Some e1"
    and z: "k x y e1 = Some z"
    unfolding g by (auto simp: bind_eq_Some_conv)
  have "keeps e e1" by (rule keeps_set_env [OF e1 v]) (cases v; simp)+
  also have "keeps e1 (snd (pr z))" by (rule presvD [OF assms z])
  finally show "keeps e (snd (pr z))" .
qed

lemma RemoveWire_presv [keeps_ops]:
  "presv prP (\<lambda>e. impl_ksiEngineRemoveWire 0 e srcId srcPrt desId desPort)"
  unfolding impl_ksiEngineRemoveWire_def
  by (rule keeps_ops presv_rules)+

end
