(* ===== verification/Owner_Nodes.thy ===== *)
theory Owner_Nodes
  imports Owner
begin

text \<open>
  Ownership across the operations that give a node new slots or take slots away: adding and
  destroying a node, and the changes of its port counts.
\<close>

section \<open>Replacing the slots of one node\<close>

lemma inj_dom: "inj_on f (dom f) \<Longrightarrow> f x = Some b \<Longrightarrow> f y = Some b \<Longrightarrow> x = y"
  by (metis inj_onD domI)

lemma inj_domI: "(\<And>x y b. f x = Some b \<Longrightarrow> f y = Some b \<Longrightarrow> x = y) \<Longrightarrow> inj_on f (dom f)"
  by (rule inj_onI) (metis domD)

lemma own_node:
  assumes own: "own e"
    and sl: "slot e' = (\<lambda>(q, k). if q = p then g k else slot e (q, k))"
    and inj: "inj_on g (dom g)"
    and ran: "ran g \<subseteq> (ran (\<lambda>k. slot e (p, k)) - set F) \<union> (dom (blocks e') - dom (blocks e))"
    and F: "set F \<subseteq> ran (\<lambda>k. slot e (p, k))" "distinct F"
    and mem: "dom (blocks e) \<subseteq> dom (blocks e')" "frees e' = frees e @ F" "queues_ok e'"
  shows "own e'"
  unfolding own_def
proof (intro conjI)
  note o = own [unfolded own_def]
  have old: "ran (\<lambda>k. slot e (p, k)) \<subseteq> ran (slot e)" by (auto simp: ran_def)
  have other: "b \<notin> ran (\<lambda>k. slot e (p, k))" if "slot e (q, k) = Some b" "q \<noteq> p" for q k b
  proof
    assume "b \<in> ran (\<lambda>k. slot e (p, k))"
    then obtain k' where "slot e (p, k') = Some b" by (auto simp: ran_def)
    then have "(q, k) = (p, k')"
      using o that(1) unfolding inj_on_def by (metis domI)
    with that(2) show False by simp
  qed
  have new: "b \<notin> ran g" if "slot e (q, k) = Some b" "q \<noteq> p" for q k b
  proof -
    have "b \<in> ran (slot e)" using that(1) by (rule ranI)
    then have "b \<in> dom (blocks e)" using o by blast
    then show ?thesis using other [OF that] ran by blast
  qed
  show "inj_on (slot e') (dom (slot e'))"
  proof (rule inj_domI)
    fix x y b
    assume b: "slot e' x = Some b" "slot e' y = Some b"
    obtain q k where x: "x = (q, k)" by (cases x)
    obtain q' k' where y: "y = (q', k')" by (cases y)
    show "x = y"
    proof (cases "q = p"; cases "q' = p")
      assume "q = p" "q' = p"
      then show ?thesis using inj_dom [OF inj, of k b k'] b by (simp add: x y sl)
    next
      assume "q \<noteq> p" "q' \<noteq> p"
      then show ?thesis using inj_dom [of "slot e" x b y] o b by (simp add: x y sl)
    next
      assume "q = p" "q' \<noteq> p"
      then show ?thesis using new [of q' k' b] b by (auto simp: x y sl ran_def)
    next
      assume "q \<noteq> p" "q' = p"
      then show ?thesis using new [of q k b] b by (auto simp: x y sl ran_def)
    qed
  qed
  show "ran (slot e') \<subseteq> dom (blocks e') - set (frees e')"
  proof
    fix b assume "b \<in> ran (slot e')"
    then obtain q k where b: "slot e' (q, k) = Some b" by (auto simp: ran_def)
    show "b \<in> dom (blocks e') - set (frees e')"
    proof (cases "q = p")
      case True
      then have "b \<in> ran g" using b by (auto simp: sl ran_def)
      then show ?thesis using ran old o F mem unfolding mem(2) set_append by blast
    next
      case False
      then have q: "slot e (q, k) = Some b" using b by (simp add: sl)
      have "b \<in> ran (slot e)" using q by (rule ranI)
      then show ?thesis using other [OF q False] o F(1) mem unfolding mem(2) set_append by blast
    qed
  qed
  show "queues_ok e'" by (rule mem(3))
  show "set (frees e') \<subseteq> dom (blocks e')"
    using o old F(1) mem(1) unfolding mem(2) set_append by blast
  show "distinct (frees e')"
    using o old F unfolding mem(2) distinct_append by blast
qed

section \<open>Freeing ports\<close>

text \<open>The blocks in the given slots, in order.\<close>

definition slot_list :: "KsiNode \<Rightarrow> (nat + nat) list \<Rightarrow> ptr list" where
  "slot_list n ks = List.map_filter (slot_of n) ks"

lemma slot_list_simps [simp]:
  "slot_list n [] = []"
  "slot_list n (k # ks) = (case slot_of n k of None \<Rightarrow> [] | Some b \<Rightarrow> [b]) @ slot_list n ks"
  by (simp_all add: slot_list_def map_filter_simps split: option.split)

lemma slot_list_append: "slot_list n (ks @ ls) = slot_list n ks @ slot_list n ls"
  by (induction ks) simp_all

lemma set_slot_list: "set (slot_list n ks) = {b. \<exists>k \<in> set ks. slot_of n k = Some b}"
  by (induction ks) (auto split: option.splits)

lemma distinct_slot_list:
  "inj_on (slot_of n) (dom (slot_of n)) \<Longrightarrow> distinct ks \<Longrightarrow> distinct (slot_list n ks)"
proof (induction ks)
  case (Cons k ks)
  have "b \<notin> set (slot_list n ks)" if b: "slot_of n k = Some b" for b
  proof
    assume "b \<in> set (slot_list n ks)"
    then obtain l where l: "l \<in> set ks" "slot_of n l = Some b" by (auto simp: set_slot_list)
    then have "k = l" using Cons.prems(1) b unfolding inj_on_def by (metis domI)
    then show False using Cons.prems(2) l(1) by simp
  qed
  then show ?case using Cons by (auto split: option.split)
qed simp

text \<open>An editor's loop over ports that only queues the blocks of the given slots.\<close>

definition queues_frees :: "KsiEngine \<Rightarrow> KsiEngine \<Rightarrow> ptr list \<Rightarrow> bool" where
  "queues_frees e e' F \<longleftrightarrow> (\<exists>q. e' = e\<lparr>freeBufs := q\<rparr> \<and> spsc_inv q \<and> spsc_list q = frees e @ F)"

lemma queues_frees_refl: "queues_ok e \<Longrightarrow> queues_frees e e []"
  unfolding queues_frees_def queues_ok_def by (intro exI [of _ "freeBufs e"]) simp

lemma queues_frees_trans: "queues_frees a b F \<Longrightarrow> queues_frees b c G \<Longrightarrow> queues_frees a c (F @ G)"
  by (auto simp: queues_frees_def)

lemma queues_freesD:
  assumes "queues_frees e e' F" "queues_ok e"
  shows "queues_ok e'" "hot e' = hot e" "blocks e' = blocks e" "frees e' = frees e @ F"
    "types_of e' = types_of e" "nextblock e' = nextblock e" "evq e' = evq e"
    "plugs e' = plugs e" "syncCmds e' = syncCmds e"
  using assms by (auto simp: queues_frees_def queues_ok_def types_of_def evq_def fun_eq_iff split: type_array.split)

lemma DeferredFree_queues:
  assumes "ksiMVCCDeferredFree 0 e b = Some e'" "queues_ok e"
  shows "queues_frees e e' (case opt_ptr b of None \<Rightarrow> [] | Some b \<Rightarrow> [b])"
proof -
  obtain q where "e' = e\<lparr>freeBufs := q\<rparr>" "spsc_inv q"
    "spsc_list q = frees e @ (case opt_ptr b of None \<Rightarrow> [] | Some b \<Rightarrow> [b])"
    by (rule DeferredFree_edit [OF assms])
  then show ?thesis unfolding queues_frees_def by blast
qed

lemma impl_delete_env_queues:
  assumes "impl_delete_env 0 e n i = Some e'" "queues_ok e"
  shows "queues_frees e e' (slot_list n [Inl (nat i)])" "0 \<le> i"
proof -
  from assms(1) obtain t v where t: "get_at (types_of e (inputTypes n)) i = Some t"
    and v: "get_at (nenv n) i = Some v" by (auto simp: impl_delete_env_def bind_eq_Some_conv)
  then show "0 \<le> i" by (simp add: get_at_eq_Some)
  have sl: "slot_of n (Inl (nat i)) = opt_ptr (env_buffer v)"
    using v by (auto simp: get_at_eq_Some slot_of_def nat_less_iff)
  show "queues_frees e e' (slot_list n [Inl (nat i)])"
  proof (cases "is_event t")
    case True
    then show ?thesis using assms t v sl
      by (cases v) (auto simp: impl_delete_env_def queues_frees_refl)
  next
    case False
    then obtain b j m where b: "v = SignalEnv b j m"
      using assms(1) t v by (cases v) (auto simp: impl_delete_env_def)
    show ?thesis
    proof (cases "b = NULL")
      case True
      then show ?thesis using assms t v b sl False by (simp add: impl_delete_env_def queues_frees_refl)
    next
      case nz: False
      then show ?thesis using assms t v b sl False DeferredFree_queues [of e b e']
        by (simp add: impl_delete_env_def)
    qed
  qed
qed

lemma impl_delete_output_queues:
  assumes "impl_delete_output 0 e n i = Some e'" "queues_ok e"
  shows "queues_frees e e' (slot_list n [Inr (nat i)])" "0 \<le> i"
proof -
  from assms(1) obtain t ob where t: "get_at (types_of e (outputTypes n)) i = Some t"
    and ob: "get_at (outputBuffer n) i = Some ob" by (auto simp: impl_delete_output_def bind_eq_Some_conv)
  then show "0 \<le> i" by (simp add: get_at_eq_Some)
  have "slot_of n (Inr (nat i)) = opt_ptr ob"
    using ob by (auto simp: get_at_eq_Some slot_of_def nat_less_iff)
  moreover have "ksiMVCCDeferredFree 0 e ob = Some e'"
    using assms(1) t ob by (simp add: impl_delete_output_def split: if_splits)
  ultimately show "queues_frees e e' (slot_list n [Inr (nat i)])"
    using DeferredFree_queues [of e ob e'] assms(2) by simp
qed

lemma for_ports_queues:
  assumes step: "\<And>e i e'. body e i = Some e' \<Longrightarrow> queues_ok e \<Longrightarrow>
      queues_frees e e' (slot_list n [con (nat i)]) \<and> 0 \<le> i"
    and "for_ports body k i e = Some e'" "queues_ok e"
  shows "queues_frees e e' (slot_list n (map con [nat i..<nat i + k]))"
  using assms(2,3)
proof (induction k arbitrary: i e)
  case 0
  then show ?case by (simp add: queues_frees_refl)
next
  case (Suc k)
  then obtain e1 where e1: "body e i = Some e1" "for_ports body k (i + 1) e1 = Some e'"
    by (auto simp: bind_eq_Some_conv)
  note s = step [OF e1(1) Suc.prems(2)]
  have "queues_ok e1" using s Suc.prems(2) queues_freesD(1) by blast
  from Suc.IH [OF e1(2) this] have "queues_frees e1 e' (slot_list n (map con [nat (i + 1)..<nat (i + 1) + k]))" .
  moreover have "nat (i + 1) = Suc (nat i)" using conjunct2 [OF s] by linarith
  moreover have "[nat i..<nat i + Suc k] = nat i # [Suc (nat i)..<Suc (nat i) + k]"
    by (simp add: upt_conv_Cons)
  ultimately show ?case using queues_frees_trans [of e e1 "slot_list n [con (nat i)]" e'] s by simp
qed

lemma delete_env_loop:
  assumes "for_ports (\<lambda>e i. impl_delete_env 0 e n i) k i e = Some e'" "queues_ok e"
  shows "queues_frees e e' (slot_list n (map Inl [nat i..<nat i + k]))"
  by (rule for_ports_queues [OF _ assms]) (blast intro: impl_delete_env_queues)

lemma delete_output_loop:
  assumes "for_ports (\<lambda>e i. impl_delete_output 0 e n i) k i e = Some e'" "queues_ok e"
  shows "queues_frees e e' (slot_list n (map Inr [nat i..<nat i + k]))"
  by (rule for_ports_queues [OF _ assms]) (blast intro: impl_delete_output_queues)

lemma slot_of_inj:
  assumes "own e" "get_node e p = Some n"
  shows "inj_on (slot_of n) (dom (slot_of n))" "(\<lambda>k. slot e (p, k)) = slot_of n"
proof -
  show eq: "(\<lambda>k. slot e (p, k)) = slot_of n" using assms(2) by (simp add: slot_def)
  show "inj_on (slot_of n) (dom (slot_of n))"
  proof (rule inj_domI)
    fix k l b
    assume "slot_of n k = Some b" "slot_of n l = Some b"
    then have "slot e (p, k) = Some b" "slot e (p, l) = Some b" using assms(2) by (simp_all add: slot_def)
    then show "k = l" using inj_dom [of "slot e" "(p, k)" b "(p, l)"] assms(1) by (simp add: own_def)
  qed
qed

section \<open>Destroying a node\<close>

lemma get_node_free_node [simp]: "get_node (free_node e p) q = (if q = p then None else get_node e q)"
  by (simp add: get_node_def free_node_def)

lemma destroy_ports_queues:
  assumes "destroy_ports 0 e n = Some e'" "queues_ok e"
  shows "\<exists>ks. distinct ks \<and> queues_frees e e' (slot_list n ks)"
proof -
  from assms(1) obtain e1 where e1: "for_ports (\<lambda>e i. impl_delete_env 0 e n i) (nat (inputCount n)) 0 e = Some e1"
    and e2: "(if ntype n AND ksiNodeTypeOutputMask = ksiNodeTypeOutputNormal
      then for_ports (\<lambda>e i. impl_delete_output 0 e n i) (nat (outputCount n)) 0 e1 else Some e1) = Some e'"
    by (auto simp: destroy_ports_def bind_eq_Some_conv)
  let ?is = "map Inl [0..<nat (inputCount n)]" and ?os = "map Inr [0..<nat (outputCount n)]"
  have 1: "queues_frees e e1 (slot_list n ?is)" using delete_env_loop [OF e1 assms(2)] by simp
  have q1: "queues_ok e1" by (rule queues_freesD(1) [OF 1 assms(2)])
  show ?thesis
  proof (cases "ntype n AND ksiNodeTypeOutputMask = ksiNodeTypeOutputNormal")
    case True
    then have "queues_frees e1 e' (slot_list n ?os)" using delete_output_loop [OF _ q1] e2 by force
    from queues_frees_trans [OF 1 this] show ?thesis
      by (intro exI [of _ "?is @ ?os"]) (auto simp: slot_list_append distinct_map)
  next
    case False
    then show ?thesis using 1 e2 by (intro exI [of _ ?is]) (auto simp: distinct_map)
  qed
qed

lemma destroy_own:
  assumes own: "own e" and n: "get_node e p = Some n" and d: "destroy_ports 0 e n = Some e'"
  shows "own (free_node e' p)"
proof -
  have q: "queues_ok e" using own by (simp add: own_def)
  obtain ks where ks: "distinct ks" "queues_frees e e' (slot_list n ks)"
    using destroy_ports_queues [OF d q] by blast
  note f = queues_freesD [OF ks(2) q]
  note inj = slot_of_inj [OF own n]
  show ?thesis
  proof (rule own_node [OF own, of _ p Map.empty "slot_list n ks"])
    show "slot (free_node e' p) = (\<lambda>(q, k). if q = p then None else slot e (q, k))"
      using get_node_hot [OF f(2)] by (auto simp: slot_def fun_eq_iff)
    show "set (slot_list n ks) \<subseteq> ran (\<lambda>k. slot e (p, k))"
      unfolding inj(2) by (auto simp: set_slot_list intro: ranI)
    show "distinct (slot_list n ks)" by (rule distinct_slot_list [OF inj(1) ks(1)])
    show "frees (free_node e' p) = frees e @ slot_list n ks" "queues_ok (free_node e' p)"
      "dom (blocks e) \<subseteq> dom (blocks (free_node e' p))"
      using f by (simp_all add: free_node_def)
  qed auto
qed


section \<open>New outputs\<close>

text \<open>
  \<open>takes e e' bs\<close>: the editor's run allocated the blocks \<open>bs\<close> (\<open>NULL\<close> for an empty
  buffer), all new, and changed nothing else but the queue of allocated blocks.
\<close>

definition takes :: "KsiEngine \<Rightarrow> KsiEngine \<Rightarrow> ptr list \<Rightarrow> bool" where
  "takes e e' bs \<longleftrightarrow> queues_ok e' \<and> hot e' = hot e \<and> freeBufs e' = freeBufs e \<and>
     staticIn e' = staticIn e \<and> staticOut e' = staticOut e \<and>
     dom (blocks e') = dom (blocks e) \<union> (set bs - {NULL}) \<and> evq e \<subseteq> evq e' \<and>
     distinct (filter (\<lambda>b. b \<noteq> NULL) bs) \<and> (\<forall>b \<in> set bs. b \<noteq> NULL \<longrightarrow> b \<notin> dom (blocks e))"

lemma takes_refl: "queues_ok e \<Longrightarrow> takes e e (replicate k NULL)"
  by (auto simp: takes_def)

lemma takesD:
  assumes "takes e e' bs"
  shows "queues_ok e'" "hot e' = hot e" "freeBufs e' = freeBufs e" "staticIn e' = staticIn e"
    "staticOut e' = staticOut e" "dom (blocks e') = dom (blocks e) \<union> (set bs - {NULL})"
    "evq e \<subseteq> evq e'" "distinct (filter (\<lambda>b. b \<noteq> NULL) bs)"
    "b \<in> set bs \<Longrightarrow> b \<noteq> NULL \<Longrightarrow> b \<notin> dom (blocks e)"
  using assms unfolding takes_def by blast+

lemma takes_trans:
  assumes "takes a b bs" "takes b c cs"
  shows "takes a c (bs @ cs)"
proof -
  note b = takesD [OF assms(1)] and c = takesD [OF assms(2)]
  have "x \<notin> set cs" if "x \<in> set bs" "x \<noteq> NULL" for x
    using c(9) [of x] that unfolding b(6) by blast
  then have disj: "set (filter (\<lambda>b. b \<noteq> NULL) bs) \<inter> set (filter (\<lambda>b. b \<noteq> NULL) cs) = {}" by auto
  show ?thesis
    unfolding takes_def
  proof (intro conjI ballI impI)
    show "dom (blocks c) = dom (blocks a) \<union> (set (bs @ cs) - {NULL})"
      unfolding c(6) b(6) by (simp only: set_append Un_Diff Un_assoc)
    show "distinct (filter (\<lambda>b. b \<noteq> NULL) (bs @ cs))"
      unfolding filter_append distinct_append using disj b(8) c(8) by blast
    show "x \<notin> dom (blocks a)" if "x \<in> set (bs @ cs)" "x \<noteq> NULL" for x
      using that b(9) [of x] c(9) [of x] unfolding set_append b(6) by blast
    show "evq a \<subseteq> evq c" using b(7) c(7) by blast
  qed (simp_all add: b(2-5) c(1-5))
qed

lemma new_output_takes:
  assumes "new_output 0 e t = Some (b, e')" "queues_ok e"
  shows "takes e e' [b]" "is_event t \<Longrightarrow> b \<in> evq e'"
proof -
  obtain k e1 where m: "ksiMVCCMonitoredMalloc 0 e k = Some (b, e1)"
    and e': "e' = (if is_event t then e1\<lparr>blocks := (blocks e1)(b \<mapsto> EventQueue [])\<rparr> else e1)"
    and k: "is_event t \<Longrightarrow> k = 16"
    using assms(1) by (auto simp: new_output_def bind_eq_Some_conv split: if_splits)
  note d = MonitoredMalloc_edit [OF m assms(2)]
  have h: "hot e1 = hot e" "staticIn e1 = staticIn e" "staticOut e1 = staticOut e"
    using m by (auto simp: ksiMVCCMonitoredMalloc_def malloc_block_def bind_eq_Some_conv split: if_splits)
  have nz: "is_event t \<Longrightarrow> b \<noteq> NULL" using d(6) k by simp
  show "takes e e' [b]"
  proof (cases "is_event t")
    case True
    have "queues_ok e'" using d(1,7) nz True by (auto simp: e' queues_ok_def)
    moreover have "evq e \<subseteq> evq e'" using d(5) True by (auto simp: e' evq_def)
    moreover have "dom (blocks e') = dom (blocks e) \<union> {b}" using d(4) nz True by (auto simp: e')
    ultimately show ?thesis using d h nz True by (simp add: takes_def e')
  next
    case False
    then show ?thesis using d h by (auto simp: takes_def e')
  qed
  show "b \<in> evq e'" if "is_event t" using that by (simp add: e' evq_def)
qed

lemma takes_evq: "takes e e' bs \<Longrightarrow> b \<in> evq e \<Longrightarrow> b \<in> evq e'"
  by (auto simp: takes_def)

lemma new_outputs_takes:
  assumes "new_outputs 0 e ts = Some (bs, e')" "queues_ok e"
  shows "takes e e' bs \<and> length bs = length ts \<and> (\<forall>i < length ts. is_event (ts ! i) \<longrightarrow> bs ! i \<in> evq e')"
  using assms
proof (induction ts arbitrary: e bs)
  case Nil
  then show ?case using takes_refl [of e 0] by simp
next
  case (Cons t ts)
  then obtain b e1 bs' where b: "new_output 0 e t = Some (b, e1)" "new_outputs 0 e1 ts = Some (bs', e')"
    "bs = b # bs'" by (auto simp: bind_eq_Some_conv)
  note n = new_output_takes [OF b(1) Cons.prems(2)]
  then have "queues_ok e1" by (simp add: takes_def)
  note IH = Cons.IH [OF b(2) this]
  then have "takes e e' bs" using takes_trans [OF n(1), of e' bs'] b(3) by simp
  moreover have "is_event t \<Longrightarrow> b \<in> evq e'" using n(2) IH by (auto simp: takes_def)
  ultimately show ?case using IH b(3) by (auto simp: nth_Cons split: nat.split)
qed

lemma slots_of_new:
  "distinct (filter (\<lambda>b. b \<noteq> NULL) bs) \<Longrightarrow> bs ! i = b \<Longrightarrow> bs ! j = b \<Longrightarrow> b \<noteq> NULL \<Longrightarrow>
     i < length bs \<Longrightarrow> j < length bs \<Longrightarrow> i = j"
proof (induction bs arbitrary: i j)
  case Nil
  then show ?case by simp
next
  case (Cons a bs)
  have d: "distinct (filter (\<lambda>b. b \<noteq> NULL) bs)" using Cons.prems(1) by (simp split: if_splits)
  show ?case
  proof (cases i; cases j)
    fix i' j' assume ij: "i = Suc i'" "j = Suc j'"
    then show ?thesis using Cons.IH [OF d, of i' j'] Cons.prems(2-6) by simp
  next
    fix j' assume ij: "i = 0" "j = Suc j'"
    then have "b \<in> set bs" "a = b" using Cons.prems by auto
    then show ?thesis using Cons.prems(1,4) by simp
  next
    fix i' assume ij: "i = Suc i'" "j = 0"
    then have "b \<in> set bs" "a = b" using Cons.prems by auto
    then show ?thesis using Cons.prems(1,4) by simp
  qed simp
qed

text \<open>A new node at an unused address, with new outputs and no input buffers.\<close>

lemma own_add_node:
  assumes own: "own e" and t: "takes e e1 bs" and free: "get_node e p = None"
    and e': "hot e' = hot (set_node p n e2)" "nheap (hot e2) = nheap (hot e1)"
      "blocks e' = blocks e1" "freeBufs e' = freeBufs e1" "queues_ok e'"
    and n: "outputBuffer n = bs" "nenv n = map new_env ts"
  shows "own e'"
proof (rule own_node [OF own, of _ p "slot_of n" "[]"])
  note tk = t [unfolded takes_def]
  have g: "get_node e' q = (if q = p then Some n else get_node e q)" for q
    using e'(1,2) tk by (auto simp: get_node_def set_node_def)
  show "slot e' = (\<lambda>(q, k). if q = p then slot_of n k else slot e (q, k))"
    by (auto simp: slot_def g)
  have sl: "slot_of n k = Some b \<longleftrightarrow> (\<exists>i < length bs. k = Inr i \<and> bs ! i = b \<and> b \<noteq> NULL)" for k b
    by (cases k) (auto simp: slot_of_def n new_env_def opt_ptr_def)
  show "inj_on (slot_of n) (dom (slot_of n))"
  proof (rule inj_domI)
    fix k l b
    assume "slot_of n k = Some b" "slot_of n l = Some b"
    then obtain i j where "i < length bs" "k = Inr i" "bs ! i = b" "b \<noteq> NULL"
      "j < length bs" "l = Inr j" "bs ! j = b" by (auto simp: sl)
    then show "k = l" using slots_of_new [of bs i b j] tk by simp
  qed
  show "ran (slot_of n) \<subseteq> (ran (\<lambda>k. slot e (p, k)) - set []) \<union> (dom (blocks e') - dom (blocks e))"
  proof
    fix b assume "b \<in> ran (slot_of n)"
    then obtain i where "i < length bs" "bs ! i = b" "b \<noteq> NULL" by (auto simp: ran_def sl)
    then have "b \<in> set bs" "b \<noteq> NULL" by auto
    then have "b \<notin> dom (blocks e)" "b \<in> dom (blocks e1)" using tk by auto
    then show "b \<in> (ran (\<lambda>k. slot e (p, k)) - set []) \<union> (dom (blocks e') - dom (blocks e))"
      by (simp add: e'(3))
  qed
  show "dom (blocks e) \<subseteq> dom (blocks e')" using tk e'(3) by auto
  show "frees e' = frees e @ []" using tk e'(4) by simp
qed (use e' in simp_all)


section \<open>Changing the port counts\<close>

definition normal :: "KsiNode \<Rightarrow> bool" where
  "normal n \<longleftrightarrow> ntype n AND ksiNodeTypeOutputMask = ksiNodeTypeOutputNormal"

text \<open>
  What the editor relies on in each node: the arrays have the lengths the counts say, and the
  event outputs of a node that has outputs are event queues.
\<close>

definition node_ok :: "KsiEngine \<Rightarrow> KsiNode \<Rightarrow> bool" where
  "node_ok e n \<longleftrightarrow> int (length (outputBuffer n)) = outputCount n \<and>
     int (length (nenv n)) = inputCount n \<and> (normal n \<longrightarrow> outs_known e n)"

lemma outs_known_mono:
  "types_of e' = types_of e \<Longrightarrow> evq e \<subseteq> evq e' \<Longrightarrow> outputTypes m = outputTypes n \<Longrightarrow>
     outputBuffer m = outputBuffer n \<Longrightarrow> outs_known e n \<Longrightarrow> outs_known e' m"
  unfolding outs_known_def by (simp only: subset_eq) blast

lemma own_shrink:
  assumes own: "own e" and n: "get_node e p = Some n" and f: "queues_frees e e1 (slot_list n ks)"
    and ks: "distinct ks" and sub: "\<And>k b. slot_of m k = Some b \<Longrightarrow> slot_of n k = Some b \<and> k \<notin> set ks"
  shows "own (set_node p m e1)"
proof -
  have q: "queues_ok e" using own by (simp add: own_def)
  note d = queues_freesD [OF f q] and inj = slot_of_inj [OF own n]
  show ?thesis
  proof (rule own_node [OF own, of _ p "slot_of m" "slot_list n ks"])
    show "slot (set_node p m e1) = (\<lambda>(q, k). if q = p then slot_of m k else slot e (q, k))"
      unfolding slot_set_node slot_hot [OF d(2)] by (rule refl)
    show "inj_on (slot_of m) (dom (slot_of m))"
      by (rule inj_domI) (metis sub inj_dom [OF inj(1)])
    show "ran (slot_of m) \<subseteq> (ran (\<lambda>k. slot e (p, k)) - set (slot_list n ks)) \<union>
        (dom (blocks (set_node p m e1)) - dom (blocks e))"
    proof
      fix b assume "b \<in> ran (slot_of m)"
      then obtain k where "slot_of m k = Some b" by (auto simp: ran_def)
      then have k: "slot_of n k = Some b" "k \<notin> set ks" using sub by auto
      then have "b \<notin> set (slot_list n ks)" using inj_dom [OF inj(1)] by (auto simp: set_slot_list)
      then show "b \<in> (ran (\<lambda>k. slot e (p, k)) - set (slot_list n ks)) \<union>
        (dom (blocks (set_node p m e1)) - dom (blocks e))"
        using k(1) unfolding inj(2) by (auto intro: ranI)
    qed
    show "set (slot_list n ks) \<subseteq> ran (\<lambda>k. slot e (p, k))"
      unfolding inj(2) by (auto simp: set_slot_list intro: ranI)
    show "distinct (slot_list n ks)" by (rule distinct_slot_list [OF inj(1) ks])
  qed (use d in simp_all)
qed

lemma own_extend:
  assumes own: "own e" and n: "get_node e p = Some n" and t: "takes e e1 bs"
    and sub: "\<And>k b. slot_of m k = Some b \<Longrightarrow> slot_of n k = Some b \<or>
        (\<exists>i < length bs. k = Inr (l + i) \<and> bs ! i = b \<and> b \<noteq> NULL)"
  shows "own (set_node p m e1)"
proof -
  note d = takesD [OF t] and inj = slot_of_inj [OF own n]
  have old: "b \<in> dom (blocks e)" "b \<in> ran (\<lambda>k. slot e (p, k))" if "slot_of n k = Some b" for k b
  proof -
    have "slot e (p, k) = Some b" using that n by (simp add: slot_def)
    then have "b \<in> ran (slot e)" by (rule ranI)
    then show "b \<in> dom (blocks e)" using own by (auto simp: own_def)
    show "b \<in> ran (\<lambda>k. slot e (p, k))" unfolding inj(2) using that by (rule ranI)
  qed
  have new: "b \<notin> dom (blocks e)" "b \<in> dom (blocks e1)" if "i < length bs" "bs ! i = b" "b \<noteq> NULL" for i b
  proof -
    have b: "b \<in> set bs" using that by auto
    then show "b \<notin> dom (blocks e)" using d(9) that(3) by blast
    show "b \<in> dom (blocks e1)" unfolding d(6) using b that(3) by blast
  qed
  show ?thesis
  proof (rule own_node [OF own, of _ p "slot_of m" "[]"])
    show "slot (set_node p m e1) = (\<lambda>(q, k). if q = p then slot_of m k else slot e (q, k))"
      unfolding slot_set_node slot_hot [OF d(2)] by (rule refl)
    show "inj_on (slot_of m) (dom (slot_of m))"
    proof (rule inj_domI)
      fix k k' b assume k: "slot_of m k = Some b" "slot_of m k' = Some b"
      show "k = k'"
      proof (cases "b \<in> dom (blocks e)")
        case True
        then have "slot_of n k = Some b" "slot_of n k' = Some b"
          using sub [OF k(1)] sub [OF k(2)] new(1) by metis+
        then show ?thesis by (rule inj_dom [OF inj(1)])
      next
        case False
        then obtain i j where "i < length bs" "k = Inr (l + i)" "bs ! i = b" "b \<noteq> NULL"
          "j < length bs" "k' = Inr (l + j)" "bs ! j = b"
          using sub [OF k(1)] sub [OF k(2)] old(1) by metis
        then show ?thesis using slots_of_new [OF d(8), of i b j] by simp
      qed
    qed
    show "ran (slot_of m) \<subseteq> (ran (\<lambda>k. slot e (p, k)) - set []) \<union>
        (dom (blocks (set_node p m e1)) - dom (blocks e))"
    proof
      fix b assume "b \<in> ran (slot_of m)"
      then obtain k where "slot_of m k = Some b" by (auto simp: ran_def)
      then show "b \<in> (ran (\<lambda>k. slot e (p, k)) - set []) \<union>
        (dom (blocks (set_node p m e1)) - dom (blocks e))"
        using sub [of k b] old(2) [of k b] new(1) [of _ b] new(2) [of _ b] unfolding set_node_fields list.set(1) Diff_empty by blast
    qed
    show "dom (blocks e) \<subseteq> dom (blocks (set_node p m e1))" using d(6) by auto
  qed (use d in simp_all)
qed

lemma grow_inputs_env:
  "grow_inputs k i old newTypes (ts, vs) = Some (ts', vs') \<Longrightarrow>
     \<exists>ws. vs' = vs @ ws \<and> length ws = k \<and> (\<forall>w \<in> set ws. env_buffer w = NULL)"
proof (induction k arbitrary: i ts vs)
  case 0
  then show ?case by simp
next
  case (Suc k)
  then obtain t where t: "get_at newTypes (i - old) = Some t" by (auto simp: bind_eq_Some_conv)
  show ?case
  proof (cases "is_event t")
    case True
    then have "grow_inputs k (i + 1) old newTypes (ts, vs @ [EventEnv []]) = Some (ts', vs')"
      using Suc.prems t by simp
    from Suc.IH [OF this] show ?thesis by force
  next
    case False
    then obtain ts1 where "grow_inputs k (i + 1) old newTypes (ts1, vs @ [SignalEnv NULL NULL []]) = Some (ts', vs')"
      using Suc.prems t by (auto simp: bind_eq_Some_conv)
    from Suc.IH [OF this] show ?thesis by force
  qed
qed

lemma ChangeInputPortCount_own:
  assumes own: "own e" and ok: "\<And>n. get_node e p = Some n \<Longrightarrow> node_ok e n"
    and run: "impl_ksiNodeChangeInputPortCount 0 e p pc newTypes = Some e'" and pc: "0 \<le> pc"
  obtains n m e1 where "own e'" "get_node e p = Some n" "e' = set_node p m e1" "hot e1 = hot e"
    "evq e1 = evq e" "types_of e1 = types_of e"
    "outputBuffer m = outputBuffer n" "outputTypes m = outputTypes n" "outputCount m = outputCount n"
    "nargs m = nargs n" "nid m = nid n" "ntype m = ntype n OR ksiNodeTypeDynamicInputType" "inputCount m = pc"
    "node_ok e' m"
proof -
  from run obtain n where n: "get_node e p = Some n"
    by (auto simp: impl_ksiNodeChangeInputPortCount_def bind_eq_Some_conv)
  have q: "queues_ok e" using own by (simp add: own_def)
  from run n obtain ts ts' vs e1 where
    e1: "(if pc < inputCount n then for_ports (\<lambda>e i. impl_delete_env 0 e
            (n\<lparr>inputTypes := Own ts, ntype := ntype n OR ksiNodeTypeDynamicInputType\<rparr>) i)
                  (nat (inputCount n - pc)) pc e else Some e) = Some e1"
    and vs: "(if pc > inputCount n
           then grow_inputs (nat (pc - inputCount n)) (inputCount n) (inputCount n) newTypes (ts, nenv n)
           else Some (ts, take (nat pc) (nenv n))) = Some (ts', vs)"
    and e': "e' = set_node p (n\<lparr>ntype := ntype n OR ksiNodeTypeDynamicInputType, inputTypes := Own ts',
         nenv := vs, inputCount := pc\<rparr>) e1"
    by (auto simp: impl_ksiNodeChangeInputPortCount_def bind_eq_Some_conv cong: if_cong)
  let ?n1 = "n\<lparr>inputTypes := Own ts, ntype := ntype n OR ksiNodeTypeDynamicInputType\<rparr>"
  let ?m = "n\<lparr>ntype := ntype n OR ksiNodeTypeDynamicInputType, inputTypes := Own ts',
         nenv := vs, inputCount := pc\<rparr>"
  have nok: "node_ok e n" by (rule ok [OF n])
  have sl1: "slot_of ?n1 = slot_of n" by (rule slot_of_cong) simp_all
  then have sll: "slot_list ?n1 ks = slot_list n ks" for ks by (simp add: slot_list_def)
  define ks where "ks = (if pc < inputCount n then map Inl [nat pc..<nat pc + nat (inputCount n - pc)] else [] :: (nat + nat) list)"
  have f: "queues_frees e e1 (slot_list n ks)"
    using e1 delete_env_loop [of ?n1 _ pc e e1] q
    by (auto simp: ks_def sll queues_frees_refl split: if_splits)
  have own': "own e'"
    unfolding e'
  proof (rule own_shrink [OF own n f])
    show "distinct ks" by (simp add: ks_def distinct_map)
    fix k b assume b: "slot_of ?m k = Some b"
    show "slot_of n k = Some b \<and> k \<notin> set ks"
    proof (cases "pc > inputCount n")
      case True
      then obtain ws where ws: "vs = nenv n @ ws" "\<forall>w \<in> set ws. env_buffer w = NULL"
        using vs grow_inputs_env by fastforce
      then have "slot_of n k = Some b" using b
        by (cases k) (auto simp: slot_of_def nth_append split: if_splits)
      then show ?thesis using True by (simp add: ks_def)
    next
      case False
      then have "vs = take (nat pc) (nenv n)" using vs by simp
      then show ?thesis using b by (cases k) (auto simp: slot_of_def ks_def split: if_splits)
    qed
  qed
  note d = queues_freesD [OF f q]
  have len: "int (length vs) = pc"
  proof (cases "pc > inputCount n")
    case True
    then obtain ws where "vs = nenv n @ ws" "length ws = nat (pc - inputCount n)"
      using vs grow_inputs_env by fastforce
    then show ?thesis using nok True by (simp add: node_ok_def)
  next
    case False
    then show ?thesis using vs nok pc by (auto simp: node_ok_def)
  qed
  have t: "types_of e' = types_of e"
    using d(5) by (simp add: e' types_of_def fun_eq_iff split: type_array.splits)
  have "node_ok e' ?m"
    using nok len outs_known_mono [OF t _ _ _, of ?m n] d(7)
    by (simp add: node_ok_def normal_def mask_dynamic e')
  then show ?thesis using own' n e' d by (intro that [of n ?m e1]) auto
qed


lemma set_at_get_at:
  assumes "set_at ts i t = Some ts'"
  shows "length ts' = length ts" "get_at ts' j = (if j = i then Some t else get_at ts j)"
  using assms get_at_set_at [OF assms] by (auto simp: set_at_eq_Some)

lemma get_at_take: "get_at (take k xs) i = Some x \<Longrightarrow> get_at xs i = Some x"
proof -
  assume h: "get_at (take k xs) i = Some x"
  then obtain m where "i = int m" by (metis get_at_eq_Some nonneg_int_cases)
  with h show "get_at xs i = Some x" by (auto simp: get_at_def split: if_splits)
qed

text \<open>
  New outputs of a node: \<open>bs\<close> are the blocks, and each new event port of a node with
  outputs has an event queue.
\<close>

lemma grow_outputs_takes:
  "grow_outputs 0 nm k i old newTypes (ts, obs, e) = Some (ts', obs', e') \<Longrightarrow> queues_ok e \<Longrightarrow> 0 \<le> i \<Longrightarrow>
   \<exists>bs. obs' = obs @ bs \<and> length bs = k \<and> takes e e' bs \<and> types_of e' = types_of e \<and>
     (\<forall>j. j < i \<longrightarrow> get_at ts' j = get_at ts j) \<and>
     (nm \<longrightarrow> (\<forall>j < k. \<forall>t. get_at ts' (i + int j) = Some t \<longrightarrow> is_event t \<longrightarrow> bs ! j \<in> evq e'))"
proof (induction k arbitrary: i ts obs e)
  case 0
  then show ?case using takes_refl [of e 0] by simp
next
  case (Suc k)
  from Suc.prems(1) obtain t ts1 ob e1 where t: "get_at newTypes (i - old) = Some t"
    and ts1: "set_at ts i t = Some ts1"
    and ob: "(if nm then new_output 0 e t else Some (NULL, e)) = Some (ob, e1)"
    and rest: "grow_outputs 0 nm k (i + 1) old newTypes (ts1, obs @ [ob], e1) = Some (ts', obs', e')"
    by (auto simp: bind_eq_Some_conv)
  have tk: "takes e e1 [ob]"
    using ob new_output_takes(1) Suc.prems(2) takes_refl [of e 1] by (auto split: if_splits)
  have ev: "nm \<Longrightarrow> is_event t \<Longrightarrow> ob \<in> evq e1"
    using ob new_output_takes(2) Suc.prems(2) by auto
  have q1: "queues_ok e1" using tk by (rule takesD)
  have ty: "types_of e1 = types_of e" using takesD(4,5) [OF tk]
    by (simp add: types_of_def fun_eq_iff split: type_array.splits)
  have "0 \<le> i + 1" using Suc.prems(3) by simp
  from Suc.IH [OF rest q1 this] obtain bs where bs: "obs' = (obs @ [ob]) @ bs" "length bs = k"
    "takes e1 e' bs" "types_of e' = types_of e1" "\<forall>j. j < i + 1 \<longrightarrow> get_at ts' j = get_at ts1 j"
    "nm \<longrightarrow> (\<forall>j < k. \<forall>t. get_at ts' (i + 1 + int j) = Some t \<longrightarrow> is_event t \<longrightarrow> bs ! j \<in> evq e')"
    by blast
  have "takes e e' (ob # bs)" using takes_trans [OF tk bs(3)] by simp
  moreover have "get_at ts' j = get_at ts j" if "j < i" for j
    using bs(5) that set_at_get_at(2) [OF ts1, of j] by auto
  moreover have "(ob # bs) ! j \<in> evq e'"
    if nm: nm and j: "j < Suc k" "get_at ts' (i + int j) = Some x" "is_event x" for j x
  proof (cases j)
    case 0
    then have "x = t" using j(2) bs(5) set_at_get_at(2) [OF ts1, of i] by simp
    then show ?thesis using ev [OF nm] j(3) takesD(7) [OF bs(3)] 0 by auto
  next
    case (Suc j')
    have eq: "i + int j = i + 1 + int j'" and j': "j' < k" using Suc j(1) by simp_all
    have "bs ! j' \<in> evq e'" using bs(6) nm j' j(2,3) unfolding eq by blast
    then show ?thesis by (simp add: Suc)
  qed
  ultimately show ?case using bs(1,2,4) ty by (intro exI [of _ "ob # bs"]) auto
qed

lemma ChangeOutputPortCount_own:
  assumes own: "own e" and ok: "\<And>n. get_node e p = Some n \<Longrightarrow> node_ok e n"
    and run: "impl_ksiNodeChangeOutputPortCount 0 e p pc newTypes = Some e'" and pc: "0 \<le> pc"
  obtains n m e1 where "own e'" "get_node e p = Some n" "e' = set_node p m e1" "hot e1 = hot e"
    "evq e \<subseteq> evq e1" "types_of e1 = types_of e"
    "nargs m = nargs n" "nid m = nid n" "ntype m = ntype n OR ksiNodeTypeDynamicOutputType"
    "node_ok e' m"
proof -
  from run obtain n where n: "get_node e p = Some n"
    by (auto simp: impl_ksiNodeChangeOutputPortCount_def bind_eq_Some_conv)
  have q: "queues_ok e" using own by (simp add: own_def)
  let ?t = "ntype n OR ksiNodeTypeDynamicOutputType"
  let ?nm = "?t AND ksiNodeTypeOutputMask = ksiNodeTypeOutputNormal"
  from run n obtain ts ts' obs e1 e2 where
    ts: "own_types e (outputTypes n) (ntype n AND ksiNodeTypeDynamicOutputType \<noteq> 0) (outputCount n) pc = Some ts"
    and e1: "(if ?nm \<and> pc < outputCount n then for_ports (\<lambda>e i. impl_delete_output 0 e
            (n\<lparr>outputTypes := Own ts, ntype := ?t\<rparr>) i)
                  (nat (outputCount n - pc)) pc e else Some e) = Some e1"
    and e2: "(if pc > outputCount n
           then grow_outputs 0 ?nm (nat (pc - outputCount n)) (outputCount n) (outputCount n) newTypes
                  (ts, outputBuffer n, e1)
           else Some (ts, take (nat pc) (outputBuffer n), e1)) = Some (ts', obs, e2)"
    and e': "e' = set_node p (n\<lparr>ntype := ?t, outputTypes := Own ts',
         outputBuffer := obs, outputCount := pc\<rparr>) e2"
    by (auto simp: impl_ksiNodeChangeOutputPortCount_def bind_eq_Some_conv Let_def cong: if_cong)
  let ?n1 = "n\<lparr>outputTypes := Own ts, ntype := ?t\<rparr>"
  let ?m = "n\<lparr>ntype := ?t, outputTypes := Own ts', outputBuffer := obs, outputCount := pc\<rparr>"
  have nok: "node_ok e n" by (rule ok [OF n])
  have known: "outs_known e ?n1" if ?nm
    using own_types_known [OF ts] nok that by (simp add: node_ok_def normal_def mask_dynamic)
  have len: "int (length (outputBuffer n)) = outputCount n" using nok by (simp add: node_ok_def)
  show ?thesis
  proof (cases "pc > outputCount n")
    case True
    then have e1e: "e1 = e" using e1 by simp
    have c0: "0 \<le> outputCount n" using len by linarith
    from grow_outputs_takes [OF _ q c0, of ?nm "nat (pc - outputCount n)" "outputCount n" newTypes ts
        "outputBuffer n" ts' obs e2] e2 True
    obtain bs where bs: "obs = outputBuffer n @ bs" "length bs = nat (pc - outputCount n)" "takes e e2 bs"
      "types_of e2 = types_of e" "\<forall>j. j < outputCount n \<longrightarrow> get_at ts' j = get_at ts j"
      "?nm \<longrightarrow> (\<forall>j < nat (pc - outputCount n). \<forall>t. get_at ts' (outputCount n + int j) = Some t \<longrightarrow>
         is_event t \<longrightarrow> bs ! j \<in> evq e2)"
      by (auto simp: e1e)
    have own': "own e'"
      unfolding e'
    proof (rule own_extend [OF own n bs(3)])
      fix k b assume "slot_of ?m k = Some b"
      then show "slot_of n k = Some b \<or>
        (\<exists>i < length bs. k = Inr (length (outputBuffer n) + i) \<and> bs ! i = b \<and> b \<noteq> NULL)"
        by (cases k) (auto simp: slot_of_def bs(1) nth_append opt_ptr_def split: if_splits
            intro!: exI [of _ "_ - length (outputBuffer n)"])
    qed
    have evq2: "evq e \<subseteq> evq e2" by (rule takesD(7) [OF bs(3)])
    have "outs_known e' ?m" if nm: ?nm
      unfolding outs_known_def
    proof (intro allI impI)
      fix i t ob
      assume "get_at (types_of e' (outputTypes ?m)) i = Some t" and ob: "get_at (outputBuffer ?m) i = Some ob"
        and ev: "is_event t"
      then have t: "get_at ts' i = Some t" by (simp add: types_of_def)
      have i: "0 \<le> i" "i < int (length obs)" "ob = obs ! nat i" using ob by (simp_all add: get_at_eq_Some)
      show "ob \<in> evq e'"
      proof (cases "i < outputCount n")
        case True
        then have "get_at ts i = Some t" using t bs(5) by simp
        moreover have "get_at (outputBuffer n) i = Some ob"
          using i True len by (auto simp: get_at_eq_Some bs(1) nth_append nat_less_iff)
        ultimately have "ob \<in> evq e" using known [OF nm] ev by (simp add: outs_known_def types_of_def)
        then show ?thesis using evq2 by (auto simp: e')
      next
        case False
        define j where "j = nat (i - outputCount n)"
        have j: "i = outputCount n + int j" "nat i = length (outputBuffer n) + j"
          using False i(1) len by (auto simp: j_def)
        have "int (length obs) = pc" using bs(1,2) len \<open>outputCount n < pc\<close> by simp
        then have jl: "j < nat (pc - outputCount n)" using i(2) j(1) by linarith
        have "ob = bs ! j" using i(3) j(2) by (simp add: bs(1) nth_append)
        then show ?thesis using bs(6) nm jl t ev j(1) by (auto simp: e')
      qed
    qed
    moreover have "int (length obs) = pc" using bs(1,2) len True by simp
    ultimately have "node_ok e' ?m" using nok by (simp add: node_ok_def normal_def)
    then show ?thesis using own' n e' bs(4) takesD(2) [OF bs(3)] evq2
      by (intro that [of n ?m e2]) simp_all
  next
    case False
    then have obs: "ts' = ts" "obs = take (nat pc) (outputBuffer n)" "e2 = e1" using e2 by auto
    have sl1: "slot_of ?n1 = slot_of n" by (rule slot_of_cong) simp_all
    then have sll: "slot_list ?n1 ks = slot_list n ks" for ks by (simp add: slot_list_def)
    define ks where "ks = (if ?nm \<and> pc < outputCount n
        then map Inr [nat pc..<nat pc + nat (outputCount n - pc)] else [] :: (nat + nat) list)"
    have f: "queues_frees e e1 (slot_list n ks)"
      using e1 delete_output_loop [of ?n1 _ pc e e1] q
      by (auto simp: ks_def sll queues_frees_refl split: if_splits)
    note d = queues_freesD [OF f q]
    have own': "own e'"
      unfolding e' obs(3)
    proof (rule own_shrink [OF own n f])
      show "distinct ks" by (simp add: ks_def distinct_map)
      fix k b assume "slot_of ?m k = Some b"
      then show "slot_of n k = Some b \<and> k \<notin> set ks"
        by (cases k) (auto simp: slot_of_def ks_def obs(2) split: if_splits)
    qed
    have "outs_known e' ?m" if nm: ?nm
    proof -
      have "types_of e' = types_of e"
        using d(5) by (simp add: e' obs(3) types_of_def fun_eq_iff split: type_array.splits)
      then have "types_of e' (outputTypes ?m) = types_of e (outputTypes ?n1)"
        by (simp add: obs(1))
      moreover have "get_at (outputBuffer ?m) i = Some ob \<Longrightarrow> get_at (outputBuffer ?n1) i = Some ob" for i ob
        using get_at_take [of "nat pc" "outputBuffer n" i ob] by (simp add: obs(2))
      moreover have "evq e' = evq e" using d(7) by (simp add: e' obs(3))
      ultimately show ?thesis using known [OF nm] unfolding outs_known_def by metis
    qed
    moreover have "int (length obs) = pc" using len False pc by (simp add: obs(2))
    ultimately have "node_ok e' ?m" using nok by (simp add: node_ok_def normal_def)
    then show ?thesis using own' n e' d by (intro that [of n ?m e1]) (simp_all add: obs(3))
  qed
qed

end
