(* ===== verification/Edit_Log.thy ===== *)
theory Edit_Log
  imports Owner_Nodes Dagedit
begin

text \<open>
  Editor and committer together: whatever sequence of calls the editor makes, the command
  queue, the queue of allocated blocks and the queue of blocks to be freed let the committer
  bring the other version to the same graph, without a fault, and leave all three queues
  empty.
\<close>

section \<open>Plugin data\<close>

definition dynamic :: "int32 \<Rightarrow> bool" where
  "dynamic t \<longleftrightarrow> (case INLINE_LIST (ksiNodeTypeInlineId t) of None \<Rightarrow> False | Some pl \<Rightarrow> dynamicMemory pl)"

text \<open>Only the data of plugin 3 is looked into by an editing command.\<close>

definition plug_fits :: "int32 \<Rightarrow> plugin_env \<Rightarrow> bool" where
  "plug_fits i pe \<longleftrightarrow> i = 3 \<longrightarrow> (\<exists>t c. pe = MidiSegEnv t c)"

definition plug_of :: "KsiEngine \<Rightarrow> ptr \<Rightarrow> ptr option" where
  "plug_of e p = (case get_node e p of None \<Rightarrow> None
     | Some n \<Rightarrow> if dynamic (ntype n) then Some (nargs n) else None)"

definition has_plug :: "KsiEngine \<Rightarrow> ptr \<Rightarrow> int32 \<Rightarrow> bool" where
  "has_plug e a i \<longleftrightarrow> (\<exists>pe. plugs e a = Some pe \<and> plug_fits i pe)"

text \<open>
  Every node that needs data has data of its own; \<open>A\<close> lists the data of nodes still to be
  added, with their plugins.
\<close>

definition pinv :: "KsiEngine \<Rightarrow> (ptr \<times> int32) list \<Rightarrow> bool" where
  "pinv e A \<longleftrightarrow> inj_on (plug_of e) (dom (plug_of e)) \<and> distinct (map fst A) \<and>
     ran (plug_of e) \<inter> fst ` set A = {} \<and>
     (\<forall>p n. get_node e p = Some n \<longrightarrow> dynamic (ntype n) \<longrightarrow> has_plug e (nargs n) (ksiNodeTypeInlineId (ntype n))) \<and>
     (\<forall>(a, i) \<in> set A. has_plug e a i)"

fun cmd_plugs :: "KsiDagEditCmd \<Rightarrow> (ptr \<times> int32) list" where
  "cmd_plugs (ksiDagEditAddNode t x a) = (if dynamic t then [(a, ksiNodeTypeInlineId t)] else [])"
| "cmd_plugs _ = []"

text \<open>The plugin data the editor creates is new, and what it overwrites keeps its kind.\<close>

definition plugs_grow :: "KsiEngine \<Rightarrow> KsiEngine \<Rightarrow> (ptr \<times> int32) list \<Rightarrow> bool" where
  "plugs_grow e e' A \<longleftrightarrow> (\<forall>a i. has_plug e a i \<longrightarrow> has_plug e' a i) \<and> distinct (map fst A) \<and>
     (\<forall>(a, i) \<in> set A. nextblock e \<le> a \<and> a < nextblock e' \<and> has_plug e' a i)"

section \<open>The editor's invariant\<close>

definition statics_ok :: "KsiEngine \<Rightarrow> bool" where
  "statics_ok e \<longleftrightarrow> (\<forall>i pl. INLINE_LIST i = Some pl \<longrightarrow>
     length (staticIn e i) = length (inPorts pl) \<and> length (staticOut e i) = length (outPorts pl))"

definition einv :: "KsiEngine \<Rightarrow> bool" where
  "einv e \<longleftrightarrow> statics_ok e \<and> own e \<and> spsc_inv (syncCmds e) \<and> (\<forall>p n. get_node e p = Some n \<longrightarrow> node_ok e n) \<and>
     (\<forall>q \<ge> nnext (hot e). get_node e q = None) \<and> (\<forall>p \<ge> nextblock e. plugs e p = None)"

definition cmds :: "KsiEngine \<Rightarrow> KsiDagEditCmd list" where
  "cmds e = spsc_list (syncCmds e)"

text \<open>The committer's loop for the given commands, which it takes from the queue.\<close>

fun commit_cmds :: "KsiDagEditCmd list \<Rightarrow> KsiEngine \<Rightarrow> KsiEngine option" where
  "commit_cmds [] e = Some e"
| "commit_cmds (cmd # rest) e = do {
     (x, q) \<leftarrow> ksiSPSCListDequeue ksiDagEditInvalid (syncCmds e);
     need (x = cmd);
     e \<leftarrow> commit_cmd cmd (e\<lparr>syncCmds := q\<rparr>);
     commit_cmds rest e
   }"

text \<open>
  \<open>logged e e' cs\<close>: the editor went from \<open>e\<close> to \<open>e'\<close> and queued the commands \<open>cs\<close>,
  which lead a committer from any state with the same graph to one with the same graph
  again.
\<close>

definition commits :: "KsiEngine \<Rightarrow> KsiEngine \<Rightarrow> KsiDagEditCmd list \<Rightarrow> ptr list \<Rightarrow> ptr list \<Rightarrow> bool" where
  "commits e e' cs M F \<longleftrightarrow> (\<forall>c M' F' A C. same e c \<longrightarrow> commit_ready c M F M' F' \<longrightarrow> kinds_ok e' c \<longrightarrow>
     pinv c (concat (map cmd_plugs cs) @ A) \<longrightarrow> spsc_inv (syncCmds c) \<longrightarrow> cmds c = cs @ C \<longrightarrow>
     (\<exists>c'. commit_cmds cs c = Some c' \<and> same e' c' \<and> commit_step c c' F M' F' \<and>
        spsc_inv (syncCmds c') \<and> cmds c' = C \<and> pinv c' A \<and> dom (plugs c') \<subseteq> dom (plugs c)))"

definition logged :: "KsiEngine \<Rightarrow> KsiEngine \<Rightarrow> KsiDagEditCmd list \<Rightarrow> bool" where
  "logged e e' cs \<longleftrightarrow> einv e' \<and> cmds e' = cmds e @ cs \<and> ksiDagEditInvalid \<notin> set cs \<and>
     plugs_grow e e' (concat (map cmd_plugs cs)) \<and>
     (\<exists>M F. edit_step e e' M F \<and> commits e e' cs M F)"

lemma commit_cmds_append:
  "commit_cmds (xs @ ys) e = Option.bind (commit_cmds xs e) (commit_cmds ys)"
  by (induction xs arbitrary: e) (auto split: bind_split prod.split)

lemma edit_step_kinds: "edit_step e e' M F \<Longrightarrow> kinds_ok e' c \<Longrightarrow> kinds_ok e c"
  by (auto simp: kinds_ok_def edit_step_def)

lemma commits_trans:
  assumes "commits a b cs M F" "commits b c ds M2 F2" "edit_step b c M2 F2"
  shows "commits a c (cs @ ds) (M @ M2) (F @ F2)"
  unfolding commits_def
proof (intro allI impI)
  fix k M' F' A C
  assume s: "same a k" and r: "commit_ready k (M @ M2) (F @ F2) M' F'" and kk: "kinds_ok c k"
    and p: "pinv k (concat (map cmd_plugs (cs @ ds)) @ A)"
    and q: "spsc_inv (syncCmds k)" "cmds k = (cs @ ds) @ C"
  have r1: "commit_ready k M F (M2 @ M') (F2 @ F')" using r by (auto simp: commit_ready_def)
  have p1: "pinv k (concat (map cmd_plugs cs) @ (concat (map cmd_plugs ds) @ A))" using p by simp
  have q1: "cmds k = cs @ (ds @ C)" using q(2) by simp
  obtain k1 where k1: "commit_cmds cs k = Some k1" "same b k1" "commit_step k k1 F (M2 @ M') (F2 @ F')"
    "spsc_inv (syncCmds k1)" "cmds k1 = ds @ C" "pinv k1 (concat (map cmd_plugs ds) @ A)"
    "dom (plugs k1) \<subseteq> dom (plugs k)"
    using assms(1) s r1 edit_step_kinds [OF assms(3) kk] p1 q(1) q1 unfolding commits_def by blast
  have r2: "commit_ready k1 M2 F2 M' F'" using k1(3) r by (auto simp: commit_ready_def commit_step_def)
  have kk2: "kinds_ok c k1" using k1(3) kk by (auto simp: kinds_ok_def commit_step_def)
  obtain k2 where k2: "commit_cmds ds k1 = Some k2" "same c k2" "commit_step k1 k2 F2 M' F'"
    "spsc_inv (syncCmds k2)" "cmds k2 = C" "pinv k2 A" "dom (plugs k2) \<subseteq> dom (plugs k1)"
    using assms(2) k1(2) r2 kk2 k1(4-6) unfolding commits_def by blast
  have "commit_step k k2 (F @ F2) M' F'" by (rule commit_step_trans [OF k1(3) k2(3)])
  then show "\<exists>c'. commit_cmds (cs @ ds) k = Some c' \<and> same c c' \<and> commit_step k c' (F @ F2) M' F' \<and>
        spsc_inv (syncCmds c') \<and> cmds c' = C \<and> pinv c' A \<and> dom (plugs c') \<subseteq> dom (plugs k)"
    using k1 k2 by (simp add: commit_cmds_append subset_trans)
qed

lemma plugs_grow_trans:
  assumes "plugs_grow a b A" "plugs_grow b c B" "nextblock a \<le> nextblock b" "nextblock b \<le> nextblock c"
  shows "plugs_grow a c (A @ B)"
proof -
  have "fst ` set A \<inter> fst ` set B = {}" using assms by (force simp: plugs_grow_def)
  then show ?thesis using assms unfolding plugs_grow_def by (fastforce simp: distinct_append)
qed

lemma logged_trans:
  assumes "logged a b cs" "logged b c ds"
  shows "logged a c (cs @ ds)"
proof -
  obtain M F where 1: "edit_step a b M F" "commits a b cs M F" using assms(1) by (auto simp: logged_def)
  obtain M2 F2 where 2: "edit_step b c M2 F2" "commits b c ds M2 F2" using assms(2) by (auto simp: logged_def)
  have "edit_step a c (M @ M2) (F @ F2)" by (rule edit_step_trans [OF 1(1) 2(1)])
  moreover have "commits a c (cs @ ds) (M @ M2) (F @ F2)" by (rule commits_trans [OF 1(2) 2(2,1)])
  moreover have "plugs_grow a c (concat (map cmd_plugs (cs @ ds)))"
    using plugs_grow_trans [of a b _ c] assms 1(1) 2(1) by (simp add: logged_def edit_step_def)
  ultimately show ?thesis using assms by (auto simp: logged_def)
qed

lemma einv_queues: "einv e \<Longrightarrow> queues_ok e"
  by (simp add: einv_def own_def)

lemma logged_refl:
  assumes "einv e"
  shows "logged e e []"
proof -
  have "commits e e [] [] []"
    by (auto simp: commits_def commit_step_def commit_ready_def)
  then show ?thesis
    using assms edit_step_refl [OF einv_queues [OF assms]] by (auto simp: logged_def plugs_grow_def)
qed

section \<open>Calls that keep the nodes' data\<close>

lemma normal_shape: "node_shape n m \<Longrightarrow> ntype m AND ksiNodeTypeOutputMask = ntype n AND ksiNodeTypeOutputMask"
  "node_shape n m \<Longrightarrow> ksiNodeTypeInlineId (ntype m) = ksiNodeTypeInlineId (ntype n)"
proof -
  assume "node_shape n m"
  then have eq: "ntype m AND NOT ksiNodeTypeScratchPredecessor = ntype n AND NOT ksiNodeTypeScratchPredecessor"
    by (simp add: node_shape_def)
  have mask: "t AND k = (t AND NOT ksiNodeTypeScratchPredecessor) AND k"
    if "NOT ksiNodeTypeScratchPredecessor AND k = k" for t k :: int32
    using that by (simp add: and.assoc)
  show "ntype m AND ksiNodeTypeOutputMask = ntype n AND ksiNodeTypeOutputMask"
  proof -
    have k: "NOT ksiNodeTypeScratchPredecessor AND ksiNodeTypeOutputMask = ksiNodeTypeOutputMask"
      by (simp add: node_type_defs)
    show ?thesis using mask [OF k, of "ntype m"] mask [OF k, of "ntype n"] eq by metis
  qed
  have "ntype m AND ksiNodeTypeInlineNodeFuncMask = ntype n AND ksiNodeTypeInlineNodeFuncMask"
  proof -
    have k: "NOT ksiNodeTypeScratchPredecessor AND ksiNodeTypeInlineNodeFuncMask = ksiNodeTypeInlineNodeFuncMask"
      by (simp add: node_type_defs)
    show ?thesis using mask [OF k, of "ntype m"] mask [OF k, of "ntype n"] eq by metis
  qed
  then show "ksiNodeTypeInlineId (ntype m) = ksiNodeTypeInlineId (ntype n)"
    by (simp add: ksiNodeTypeInlineId_def)
qed


definition same_shape :: "KsiEngine \<Rightarrow> KsiEngine \<Rightarrow> bool" where
  "same_shape e e' \<longleftrightarrow> (\<forall>p. get_node e' p = None \<longleftrightarrow> get_node e p = None) \<and>
     (\<forall>p n m. get_node e p = Some n \<longrightarrow> get_node e' p = Some m \<longrightarrow>
        nargs m = nargs n \<and> ksiNodeTypeInlineId (ntype m) = ksiNodeTypeInlineId (ntype n))"

lemma keeps_same_shape:
  assumes "keeps e e'"
  shows "same_shape e e'"
  unfolding same_shape_def
proof (intro conjI allI impI)
  show "get_node e' p = None \<longleftrightarrow> get_node e p = None" for p by (rule keepsD(3) [OF assms])
  fix p n m assume "get_node e p = Some n" "get_node e' p = Some m"
  then have "node_shape n m" using keepsD(4) [OF assms] by force
  then show "nargs m = nargs n" "ksiNodeTypeInlineId (ntype m) = ksiNodeTypeInlineId (ntype n)"
    using normal_shape(2) by (auto simp: node_shape_def)
qed

lemma same_shape_plug_of: 
  assumes "same_shape e e'"
  shows "plug_of e' = plug_of e"
proof
  fix p
  have d: "get_node e' p = None \<longleftrightarrow> get_node e p = None" using assms unfolding same_shape_def by blast
  show "plug_of e' p = plug_of e p"
  proof (cases "get_node e p")
    case None
    then show ?thesis using d by (simp add: plug_of_def)
  next
    case (Some n)
    then obtain m where m: "get_node e' p = Some m" using d by auto
    then have "nargs m = nargs n \<and> ksiNodeTypeInlineId (ntype m) = ksiNodeTypeInlineId (ntype n)"
      using assms Some unfolding same_shape_def by blast
    then show ?thesis using Some m by (simp add: plug_of_def dynamic_def)
  qed
qed

lemma pinv_shape:
  assumes "pinv e A" "same_shape e e'" "\<And>a i. has_plug e a i \<Longrightarrow> has_plug e' a i"
  shows "pinv e' A"
  unfolding pinv_def same_shape_plug_of [OF assms(2)]
proof (intro conjI allI impI)
  fix p n assume n: "get_node e' p = Some n" "dynamic (ntype n)"
  then obtain m where "get_node e p = Some m" "nargs n = nargs m"
    "ksiNodeTypeInlineId (ntype n) = ksiNodeTypeInlineId (ntype m)"
    using assms(2) unfolding same_shape_def by (metis option.exhaust)
  then show "has_plug e' (nargs n) (ksiNodeTypeInlineId (ntype n))"
    using assms(1,3) n(2) by (auto simp: pinv_def dynamic_def)
qed (use assms(1,3) in \<open>auto simp: pinv_def\<close>)

lemma same_get_node: "same e c \<Longrightarrow> get_node e = get_node c"
  by (rule same_fields(6))

lemma same_shape_cong: "same_shape e e' \<Longrightarrow> same e c \<Longrightarrow> same e' c' \<Longrightarrow> same_shape c c'"
  using same_get_node by (simp add: same_shape_def)

lemma einv_keeps:
  assumes inv: "einv e" and k: "keeps e e'" and st: "edit_step e e' M F" and q: "quiet e e'"
  shows "einv e'"
  unfolding einv_def
proof (intro conjI allI impI)
  show "statics_ok e'" using st inv by (simp add: einv_def statics_ok_def edit_step_def frame_def)
  show "own e'" using keepsD(1) [OF k] inv by (simp add: einv_def)
  show "spsc_inv (syncCmds e')" using q inv by (simp add: quiet_def einv_def)
  fix p m assume m: "get_node e' p = Some m"
  then obtain n where n: "get_node e p = Some n" "node_shape n m" using keepsD(5) [OF k] by blast
  have t: "types_of e' = types_of e" using st
    by (simp add: edit_step_def frame_def types_of_def fun_eq_iff split: type_array.split)
  have "node_ok e n" using inv n(1) by (simp add: einv_def)
  then show "node_ok e' m"
    using n(2) normal_shape(1) [OF n(2)] outs_known_mono [OF t, of m n] st
    by (auto simp: node_ok_def normal_def node_shape_def edit_step_def dest: list_all2_lengthD)
next
  fix p assume "nnext (hot e') \<le> p"
  then show "get_node e' p = None" using keepsD(2,3) [OF k] inv by (simp add: einv_def)
next
  fix p assume "nextblock e' \<le> p"
  then show "plugs e' p = None" using q st inv by (simp add: quiet_def einv_def edit_step_def)
qed

text \<open>Queueing a command changes the command queue only.\<close>

lemma send_cmd_spec:
  assumes "spsc_inv (syncCmds e)" "send_cmd e cmd = Some e'"
  obtains q where "e' = e\<lparr>syncCmds := q\<rparr>" "spsc_inv q" "spsc_list q = cmds e @ [cmd]"
proof -
  obtain q where "ksiSPSCListEnqueue (syncCmds e) cmd = Some q" "spsc_inv q"
    "spsc_list q = spsc_list (syncCmds e) @ [cmd]" using sq.enq_law [OF assms(1)] by blast
  with assms(2) show ?thesis by (intro that [of q]) (auto simp: send_cmd_def cmds_def)
qed

lemma syncCmds_update [simp]:
  "own (e\<lparr>syncCmds := q\<rparr>) = own e" "get_node (e\<lparr>syncCmds := q\<rparr>) = get_node e"
  "node_ok (e\<lparr>syncCmds := q\<rparr>) n = node_ok e n" "same (e\<lparr>syncCmds := q\<rparr>) c = same e c"
  "kinds_ok (e\<lparr>syncCmds := q\<rparr>) c = kinds_ok e c" "has_plug (e\<lparr>syncCmds := q\<rparr>) = has_plug e"
  "evq (e\<lparr>syncCmds := q\<rparr>) = evq e" "types_of (e\<lparr>syncCmds := q\<rparr>) = types_of e"
proof -
  show 1: "get_node (e\<lparr>syncCmds := q\<rparr>) = get_node e" by (simp add: get_node_def fun_eq_iff)
  show 2: "evq (e\<lparr>syncCmds := q\<rparr>) = evq e" by (simp add: evq_def)
  show 3: "types_of (e\<lparr>syncCmds := q\<rparr>) = types_of e"
    by (simp add: types_of_def fun_eq_iff split: type_array.split)
  show "own (e\<lparr>syncCmds := q\<rparr>) = own e"
    by (simp add: own_def slot_def 1 queues_ok_def)
  show "node_ok (e\<lparr>syncCmds := q\<rparr>) n = node_ok e n" by (simp add: node_ok_def outs_known_def 2 3)
  show "same (e\<lparr>syncCmds := q\<rparr>) c = same e c" by (simp add: same_def)
  show "kinds_ok (e\<lparr>syncCmds := q\<rparr>) c = kinds_ok e c" by (simp add: kinds_ok_def 2)
  show "has_plug (e\<lparr>syncCmds := q\<rparr>) = has_plug e" by (simp add: has_plug_def fun_eq_iff)
qed

lemma einv_send: "einv e \<Longrightarrow> spsc_inv q \<Longrightarrow> einv (e\<lparr>syncCmds := q\<rparr>)"
  by (simp add: einv_def statics_ok_def)

lemma edit_step_send: "edit_step e e1 M F \<Longrightarrow> edit_step e (e1\<lparr>syncCmds := q\<rparr>) M F"
  by (simp add: edit_step_def queues_ok_def frame_def)

text \<open>One command: taking it from the queue does not matter to the operation.\<close>

lemma commits_single:
  assumes one: "\<And>c M' F' A. same e c \<Longrightarrow> commit_ready c M F M' F' \<Longrightarrow> kinds_ok e' c \<Longrightarrow>
      pinv c (cmd_plugs cmd @ A) \<Longrightarrow>
      \<exists>c'. commit_cmd cmd c = Some c' \<and> same e' c' \<and> commit_step c c' F M' F' \<and>
        syncCmds c' = syncCmds c \<and> pinv c' A \<and> dom (plugs c') \<subseteq> dom (plugs c)"
  shows "commits e e' [cmd] M F"
  unfolding commits_def
proof (intro allI impI)
  fix c M' F' A C
  assume s: "same e c" and r: "commit_ready c M F M' F'" and k: "kinds_ok e' c"
    and p: "pinv c (concat (map cmd_plugs [cmd]) @ A)"
    and q: "spsc_inv (syncCmds c)" "cmds c = [cmd] @ C"
  have "spsc_list (syncCmds c) = cmd # C" using q(2) by (simp add: cmds_def)
  from sq.deq_Cons [OF q(1) this, of ksiDagEditInvalid] obtain sc where
    sc: "ksiSPSCListDequeue ksiDagEditInvalid (syncCmds c) = Some (cmd, sc)" "spsc_inv sc" "spsc_list sc = C"
    by blast
  let ?c = "c\<lparr>syncCmds := sc\<rparr>"
  have "same e ?c" using s by (simp add: same_def)
  moreover have "commit_ready ?c M F M' F'" using r by (simp add: commit_ready_def queues_ok_def)
  moreover have "kinds_ok e' ?c" using k by (simp add: kinds_ok_def)
  moreover have "pinv ?c (cmd_plugs cmd @ A)"
  proof (rule pinv_shape [of c])
    show "pinv c (cmd_plugs cmd @ A)" using p by simp
  qed (simp_all add: same_shape_def)
  ultimately obtain c' where c': "commit_cmd cmd ?c = Some c'" "same e' c'" "commit_step ?c c' F M' F'"
    "syncCmds c' = sc" "pinv c' A" "dom (plugs c') \<subseteq> dom (plugs c)" using one by fastforce
  have "commit_step c c' F M' F'" using c'(3) by (simp add: commit_step_def frame_def)
  then show "\<exists>c'. commit_cmds [cmd] c = Some c' \<and> same e' c' \<and> commit_step c c' F M' F' \<and>
        spsc_inv (syncCmds c') \<and> cmds c' = C \<and> pinv c' A \<and> dom (plugs c') \<subseteq> dom (plugs c)"
    using c' sc by (auto simp: cmds_def)
qed

text \<open>A call whose operation is a faithful copy and keeps the nodes' data is logged.\<close>

lemma copiesP:
  assumes "copies prP e f (r, e')"
  shows "\<exists>M F. edit_step e e' M F \<and> quiet e e' \<and>
    (\<forall>c M' F'. same e c \<longrightarrow> commit_ready c M F M' F' \<longrightarrow> kinds_ok e' c \<longrightarrow>
        (\<exists>y. f (Suc 0) c = Some (r, y) \<and> same e' y \<and> commit_step c y F M' F' \<and> quiet c y))"
  using assms by (auto simp: copies_def prP_def)

lemma copiesU:
  assumes "copies prU e f e'"
  shows "\<exists>M F. edit_step e e' M F \<and> quiet e e' \<and>
    (\<forall>c M' F'. same e c \<longrightarrow> commit_ready c M F M' F' \<longrightarrow> kinds_ok e' c \<longrightarrow>
        (\<exists>y. f (Suc 0) c = Some y \<and> same e' y \<and> commit_step c y F M' F' \<and> quiet c y))"
  using assms by (simp add: copies_def prU_def)

lemma logged_shape:
  assumes cp: "copies prP e f (r, e1)" and inv1: "einv e1" and shape: "same_shape e e1"
    and send: "send_cmd e1 cmd = Some e'"
    and cmd: "\<And>c. commit_cmd cmd c = do { (_, c) \<leftarrow> f (Suc 0) c; Some c }"
    and plugs: "cmd_plugs cmd = []" "cmd \<noteq> ksiDagEditInvalid"
  shows "logged e e' [cmd]"
proof -
  from copiesP [OF cp] obtain M F where st: "edit_step e e1 M F" and q: "quiet e e1"
    and c: "\<And>c M' F'. same e c \<Longrightarrow> commit_ready c M F M' F' \<Longrightarrow> kinds_ok e1 c \<Longrightarrow>
        \<exists>y. f (Suc 0) c = Some (r, y) \<and> same e1 y \<and> commit_step c y F M' F' \<and> quiet c y"
    by metis
  have "spsc_inv (syncCmds e1)" using inv1 by (simp add: einv_def)
  from send_cmd_spec [OF this send] obtain sc where e': "e' = e1\<lparr>syncCmds := sc\<rparr>" "spsc_inv sc"
    "spsc_list sc = cmds e1 @ [cmd]" by metis
  have "commits e e' [cmd] M F"
  proof (rule commits_single)
    fix k' M' F' A
    assume s: "same e k'" and rd: "commit_ready k' M F M' F'" and kk: "kinds_ok e' k'"
      and p: "pinv k' (cmd_plugs cmd @ A)"
    obtain y where y: "f (Suc 0) k' = Some (r, y)" "same e1 y" "commit_step k' y F M' F'"
      "quiet k' y" using c [OF s rd] kk e'(1) by auto
    have sh: "same_shape k' y" by (rule same_shape_cong [OF shape s y(2)])
    have "pinv k' A" using p plugs(1) by simp
    then have "pinv y A"
      by (rule pinv_shape [OF _ sh]) (use y(4) in \<open>simp add: has_plug_def quiet_def\<close>)
    then show "\<exists>c'. commit_cmd cmd k' = Some c' \<and> same e' c' \<and> commit_step k' c' F M' F' \<and>
        syncCmds c' = syncCmds k' \<and> pinv c' A \<and> dom (plugs c') \<subseteq> dom (plugs k')"
      using y e'(1) by (auto simp: cmd quiet_def)
  qed
  moreover have "plugs_grow e e' (concat (map cmd_plugs [cmd]))"
    using q e'(1) plugs(1) by (simp add: plugs_grow_def has_plug_def quiet_def)
  ultimately show ?thesis
    using einv_send [OF inv1 e'(2)] edit_step_send [OF st] q e' plugs(2)
    by (auto simp: logged_def quiet_def cmds_def)
qed

lemma logged_copy:
  assumes inv: "einv e" and cp: "copies prP e f (r, e1)" and k: "keeps e e1"
    and send: "send_cmd e1 cmd = Some e'"
    and cmd: "\<And>c. commit_cmd cmd c = do { (_, c) \<leftarrow> f (Suc 0) c; Some c }"
    and plugs: "cmd_plugs cmd = []" "cmd \<noteq> ksiDagEditInvalid"
  shows "logged e e' [cmd]"
proof (rule logged_shape [OF cp _ keeps_same_shape [OF k] send cmd plugs])
  from copiesP [OF cp] obtain M F where "edit_step e e1 M F" "quiet e e1" by blast
  then show "einv e1" by (rule einv_keeps [OF inv k])
qed

lemma ext_refl [simp]: "ext e e"
  by (simp add: ext_def)

lemma MakeWire_logged:
  assumes "einv e" "ksiEngineMakeWire e srcId srcPrt desId desPort g = Some (ksiErrorNone, e')"
  shows "logged e e' [ksiDagEditMakeWire srcId srcPrt desId desPort g]"
proof -
  obtain e1 where r: "impl_ksiEngineMakeWire 0 e srcId srcPrt desId desPort g = Some (ksiErrorNone, e1)"
    and s: "send_cmd e1 (ksiDagEditMakeWire srcId srcPrt desId desPort g) = Some e'"
    using assms(2) by (auto simp: ksiEngineMakeWire_def ksiCondWait_def bind_eq_Some_conv split: if_splits)
  have k: "keeps e e1" using presvD [OF MakeWire_presv r] by (simp add: prP_def)
  have c: "copies prP e (\<lambda>fl e. impl_ksiEngineMakeWire fl e srcId srcPrt desId desPort g) (ksiErrorNone, e1)"
    by (rule replaysD [OF MakeWire_replays einv_queues [OF assms(1)] ext_refl r])
  show ?thesis by (rule logged_copy [OF assms(1) c k s]) (simp_all add: commit_cmd_def)
qed

lemma MakeBias_logged:
  assumes "einv e" "ksiEngineMakeBias e desId desPort g = Some (ksiErrorNone, e')"
  shows "logged e e' [ksiDagEditMakeBias desId desPort g]"
proof -
  obtain e1 where r: "impl_ksiEngineMakeBias 0 e desId desPort g = Some (ksiErrorNone, e1)"
    and s: "send_cmd e1 (ksiDagEditMakeBias desId desPort g) = Some e'"
    using assms(2) by (auto simp: ksiEngineMakeBias_def ksiCondWait_def bind_eq_Some_conv split: if_splits)
  have k: "keeps e e1" using presvD [OF MakeBias_presv r] by (simp add: prP_def)
  have c: "copies prP e (\<lambda>fl e. impl_ksiEngineMakeBias fl e desId desPort g) (ksiErrorNone, e1)"
    by (rule replaysD [OF MakeBias_replays einv_queues [OF assms(1)] ext_refl r])
  show ?thesis by (rule logged_copy [OF assms(1) c k s]) (simp_all add: commit_cmd_def)
qed

lemma DetachNodes_logged:
  assumes "einv e" "ksiEngineDetachNodes e srcId desId = Some (ksiErrorNone, e')"
  shows "logged e e' [ksiDagEditDetachNodes srcId desId]"
proof -
  obtain e1 where r: "impl_ksiEngineDetachNodes 0 e srcId desId = Some (ksiErrorNone, e1)"
    and s: "send_cmd e1 (ksiDagEditDetachNodes srcId desId) = Some e'"
    using assms(2) by (auto simp: ksiEngineDetachNodes_def ksiCondWait_def bind_eq_Some_conv split: if_splits)
  have k: "keeps e e1" using presvD [OF DetachNodes_presv r] by (simp add: prP_def)
  have c: "copies prP e (\<lambda>fl e. impl_ksiEngineDetachNodes fl e srcId desId) (ksiErrorNone, e1)"
    by (rule replaysD [OF DetachNodes_replays einv_queues [OF assms(1)] ext_refl r])
  show ?thesis by (rule logged_copy [OF assms(1) c k s]) (simp_all add: commit_cmd_def)
qed

lemma RemoveWire_logged:
  assumes "einv e" "ksiEngineRemoveWire e srcId srcPrt desId desPort = Some (ksiErrorNone, e')"
  shows "logged e e' [ksiDagEditRemoveWire srcId srcPrt desId desPort]"
proof -
  obtain e1 where r: "impl_ksiEngineRemoveWire 0 e srcId srcPrt desId desPort = Some (ksiErrorNone, e1)"
    and s: "send_cmd e1 (ksiDagEditRemoveWire srcId srcPrt desId desPort) = Some e'"
    using assms(2) by (auto simp: ksiEngineRemoveWire_def ksiCondWait_def bind_eq_Some_conv split: if_splits)
  have k: "keeps e e1" using presvD [OF RemoveWire_presv r] by (simp add: prP_def)
  have c: "copies prP e (\<lambda>fl e. impl_ksiEngineRemoveWire fl e srcId srcPrt desId desPort) (ksiErrorNone, e1)"
    by (rule replaysD [OF RemoveWire_replays einv_queues [OF assms(1)] ext_refl r])
  show ?thesis by (rule logged_copy [OF assms(1) c k s]) (simp_all add: commit_cmd_def)
qed

end
