(* ===== verification/Log_Nodes.thy ===== *)
theory Log_Nodes
  imports Edit_Log
begin

text \<open>
  The logged calls that change the set of nodes: removing a node, with the release of its
  ports and of its plugin's data, and adding one.
\<close>

section \<open>Removing a node\<close>

lemma pinv_remove:
  assumes p: "pinv c A" and n: "get_node c p = Some n"
    and g: "\<And>q. get_node c' q = (if q = p then None else get_node c q)"
    and pl: "plugs c' = (if dynamic (ntype n) then (plugs c)(nargs n := None) else plugs c)"
  shows "pinv c' A"
proof -
  have po: "plug_of c' = (plug_of c)(p := None)" by (rule ext) (simp add: plug_of_def g)
  have inj: "inj_on (plug_of c) (dom (plug_of c))" using p by (simp add: pinv_def)
  have keep: "has_plug c a i \<Longrightarrow> (dynamic (ntype n) \<Longrightarrow> a \<noteq> nargs n) \<Longrightarrow> has_plug c' a i" for a i
    by (auto simp: has_plug_def pl)
  have np: "dynamic (ntype n) \<Longrightarrow> plug_of c p = Some (nargs n)" by (simp add: plug_of_def n)
  have r: "ran (plug_of c') \<subseteq> ran (plug_of c)" by (auto simp: po ran_def split: if_splits)
  show ?thesis
    unfolding pinv_def
  proof (intro conjI allI impI)
    show "inj_on (plug_of c') (dom (plug_of c'))" unfolding po by (rule inj_slot_del [OF inj])
    show "distinct (map fst A)" using p by (simp add: pinv_def)
    show "ran (plug_of c') \<inter> fst ` set A = {}" using p r unfolding pinv_def by blast
    fix q m assume m: "get_node c' q = Some m" "dynamic (ntype m)"
    then have qp: "q \<noteq> p" "get_node c q = Some m" by (auto simp: g split: if_splits)
    then have "plug_of c q = Some (nargs m)" using m(2) by (simp add: plug_of_def)
    then have "dynamic (ntype n) \<Longrightarrow> nargs m \<noteq> nargs n" using np inj_dom [OF inj] qp(1) by metis
    then show "has_plug c' (nargs m) (ksiNodeTypeInlineId (ntype m))"
      using keep p qp(2) m(2) by (auto simp: pinv_def)
  next
    show "\<forall>(a, i) \<in> set A. has_plug c' a i"
    proof (intro ballI, clarify)
      fix a i assume ai: "(a, i) \<in> set A"
      have "dynamic (ntype n) \<Longrightarrow> nargs n \<in> ran (plug_of c)" using np by (auto intro: ranI)
      moreover have "a \<in> fst ` set A" using ai by force
      ultimately have "dynamic (ntype n) \<Longrightarrow> a \<noteq> nargs n" using p unfolding pinv_def by blast
      then show "has_plug c' a i" using keep p ai by (auto simp: pinv_def)
    qed
  qed
qed

lemma free_node_fields [simp]:
  "blocks (free_node e p) = blocks e" "mallocBufs (free_node e p) = mallocBufs e"
  "freeBufs (free_node e p) = freeBufs e" "nextblock (free_node e p) = nextblock e"
  "queues_ok (free_node e p) = queues_ok e" "plugs (free_node e p) = plugs e"
  "syncCmds (free_node e p) = syncCmds e" "nnext (hot (free_node e p)) = nnext (hot e)"
  "evq (free_node e p) = evq e" "types_of (free_node e p) = types_of e"
  "hot (e\<lparr>plugs := pl\<rparr>) = hot e" "frame e (free_node e p)"
  by (simp_all add: free_node_def types_of_def fun_eq_iff split: type_array.split)

lemma same_free_node: "same e c \<Longrightarrow> same (free_node e p) (free_node c p)"
  by (simp add: same_def free_node_def)

lemma frame_free_node: "frame a b \<Longrightarrow> frame a (free_node b p)"
  by (rule frame_trans [OF _ free_node_fields(12)])

lemma commit_step_free_node: "commit_step a b F M' F' \<Longrightarrow> commit_step a (free_node b p) F M' F'"
  by (simp add: commit_step_def frame_free_node)

lemma edit_step_free_node: "edit_step a b M F \<Longrightarrow> edit_step a (free_node b p) M F"
  by (simp add: edit_step_def frame_free_node)

lemma plugs_update [simp]:
  "queues_ok (e\<lparr>plugs := pl\<rparr>) = queues_ok e" "evq (e\<lparr>plugs := pl\<rparr>) = evq e"
  "frame a (e\<lparr>plugs := pl\<rparr>) = frame a e"
  by (simp_all add: queues_ok_def evq_def frame_def)

lemma commit_step_plugs: "commit_step a b F M' F' \<Longrightarrow> commit_step a (b\<lparr>plugs := pl\<rparr>) F M' F'"
  by (simp add: commit_step_def)

lemma einv_free_node:
  assumes inv: "einv e" and n: "get_node e p = Some n" and d: "destroy_ports 0 e n = Some e'"
    and st: "edit_step e e' M F" and q: "quiet e e'"
  shows "einv (free_node e' p)"
proof -
  have own: "own e" using inv by (simp add: einv_def)
  obtain ks where "queues_frees e e' (slot_list n ks)"
    using destroy_ports_queues [OF d] own by (auto simp: own_def)
  note f = queues_freesD [OF this einv_queues [OF inv]]
  have g: "get_node e' = get_node e" by (rule get_node_hot [OF f(2)])
  show ?thesis
    unfolding einv_def
  proof (intro conjI allI impI)
    show "statics_ok (free_node e' p)"
      using inv st by (simp add: einv_def statics_ok_def edit_step_def frame_def free_node_def)
    show "own (free_node e' p)" by (rule destroy_own [OF own n d])
    show "spsc_inv (syncCmds (free_node e' p))" using inv f(9) by (simp add: einv_def)
    fix k m assume "get_node (free_node e' p) k = Some m"
    then have "node_ok e m" using inv g by (auto simp: einv_def split: if_splits)
    then show "node_ok (free_node e' p) m"
      using outs_known_mono [of "free_node e' p" e m m] f(5,7) by (simp add: node_ok_def)
  qed (use inv f g in \<open>auto simp: einv_def\<close>)
qed

lemma destroy_node_committer:
  assumes "destroy_ports (Suc 0) c n = Some c'" "dynamic (ntype n) \<Longrightarrow> plugs c' (nargs n) \<noteq> None"
  shows "ksiEngineDestroyNode (Suc 0) c n =
    Some (if dynamic (ntype n) then c'\<lparr>plugs := (plugs c')(nargs n := None)\<rparr> else c')"
proof (cases "INLINE_LIST (ksiNodeTypeInlineId (ntype n))")
  case None
  then show ?thesis using assms by (simp add: ksiEngineDestroyNode_ports dynamic_def)
next
  case (Some pl)
  then show ?thesis using assms
    by (cases "dynamicMemory pl"; cases "plugs c' (nargs n)") (simp_all add: ksiEngineDestroyNode_ports dynamic_def)
qed

lemma RemoveNode_logged:
  assumes inv: "einv e" and run: "ksiEngineRemoveNode e i = Some (ksiErrorNone, e')"
  shows "logged e e' [ksiDagEditRemoveNode i]"
proof -
  obtain p e1 n e2 where r: "impl_ksiEngineRemoveNode 0 e i = Some ((ksiErrorNone, p), e1)"
    and n: "get_node e1 p = Some n" and d: "destroy_ports 0 e1 n = Some e2"
    and s: "send_cmd (free_node e2 p) (ksiDagEditRemoveNode i) = Some e'"
    using run by (auto simp: ksiEngineRemoveNode_def ksiCondWait_def bind_eq_Some_conv
        ksiEngineDestroyNode_ports split: if_splits)
  have k: "keeps e e1" using presvD [OF RemoveNode_presv r] by (simp add: prP_def)
  obtain M F where 1: "edit_step e e1 M F" "quiet e e1"
    "\<And>c M' F'. same e c \<Longrightarrow> commit_ready c M F M' F' \<Longrightarrow> kinds_ok e1 c \<Longrightarrow>
        \<exists>y. impl_ksiEngineRemoveNode (Suc 0) c i = Some y \<and> fst y = (ksiErrorNone, p) \<and> same e1 (snd y) \<and>
            commit_step c (snd y) F M' F' \<and> quiet c (snd y)"
    using copiesE [OF replaysD [OF RemoveNode_replays einv_queues [OF inv] ext_refl r]]
    unfolding prP_def snd_conv fst_conv by blast
  have inv1: "einv e1" by (rule einv_keeps [OF inv k 1(1,2)])
  have "ntype n AND ksiNodeTypeOutputMask = ksiNodeTypeOutputNormal \<Longrightarrow> outs_known e1 n"
    using inv1 n by (simp add: einv_def node_ok_def normal_def)
  from copiesU [OF replaysD [OF destroy_ports_replays [OF this] einv_queues [OF inv1] ext_refl d]]
  obtain M2 F2 where 2: "edit_step e1 e2 M2 F2" "quiet e1 e2"
    "\<And>c M' F'. same e1 c \<Longrightarrow> commit_ready c M2 F2 M' F' \<Longrightarrow> kinds_ok e2 c \<Longrightarrow>
        \<exists>y. destroy_ports (Suc 0) c n = Some y \<and> same e2 y \<and> commit_step c y F2 M' F' \<and> quiet c y"
    by metis
  have st: "edit_step e e2 (M @ M2) (F @ F2)" by (rule edit_step_trans [OF 1(1) 2(1)])
  have q: "quiet e e2" by (rule quiet_trans [OF 1(2) 2(2)])
  have inv2: "einv (free_node e2 p)" by (rule einv_free_node [OF inv1 n d 2(1,2)])
  then have "spsc_inv (syncCmds (free_node e2 p))" by (simp add: einv_def)
  from send_cmd_spec [OF this s] obtain sc where e': "e' = (free_node e2 p)\<lparr>syncCmds := sc\<rparr>" "spsc_inv sc"
    "spsc_list sc = cmds (free_node e2 p) @ [ksiDagEditRemoveNode i]" by metis
  have "commits e e' [ksiDagEditRemoveNode i] (M @ M2) (F @ F2)"
  proof (rule commits_single)
    fix c M' F' A
    assume sm: "same e c" and rd: "commit_ready c (M @ M2) (F @ F2) M' F'" and kk: "kinds_ok e' c"
      and p: "pinv c (cmd_plugs (ksiDagEditRemoveNode i) @ A)"
    have k2: "kinds_ok e2 c" using kk e'(1) by (simp add: kinds_ok_def)
    have k1: "kinds_ok e1 c" by (rule edit_step_kinds [OF 2(1) k2])
    have r1: "commit_ready c M F (M2 @ M') (F2 @ F')" using rd by (auto simp: commit_ready_def)
    obtain c1 where c1: "impl_ksiEngineRemoveNode (Suc 0) c i = Some ((ksiErrorNone, p), c1)" "same e1 c1"
      "commit_step c c1 F (M2 @ M') (F2 @ F')" "quiet c c1" using 1(3) [OF sm r1 k1] by auto
    have r2: "commit_ready c1 M2 F2 M' F'" using c1(3) rd by (auto simp: commit_ready_def commit_step_def)
    have "kinds_ok e2 c1" using c1(3) k2 by (auto simp: kinds_ok_def commit_step_def)
    then obtain c2 where c2: "destroy_ports (Suc 0) c1 n = Some c2" "same e2 c2"
      "commit_step c1 c2 F2 M' F'" "quiet c1 c2" using 2(3) [OF c1(2) r2] by auto
    have n1: "get_node c1 p = Some n" using n same_get_node [OF c1(2)] by simp
    have "same_shape c c1" by (rule same_shape_cong [OF keeps_same_shape [OF k] sm c1(2)])
    with p have p1: "pinv c1 A"
      by (intro pinv_shape [of c A c1]) (use c1(4) in \<open>simp_all add: has_plug_def quiet_def\<close>)
    define c3 where "c3 = (if dynamic (ntype n) then c2\<lparr>plugs := (plugs c2)(nargs n := None)\<rparr> else c2)"
    have h2: "hot c2 = hot c1" 
    proof -
      obtain ks where "queues_frees e1 e2 (slot_list n ks)"
        using destroy_ports_queues [OF d einv_queues [OF inv1]] by blast
      then have "hot e2 = hot e1" using einv_queues [OF inv1] by (rule queues_freesD(2))
      moreover have "hot e1 = hot c1" "hot e2 = hot c2" using c1(2) c2(2) unfolding same_def by blast+
      ultimately show ?thesis by metis
    qed
    have "plugs c2 (nargs n) \<noteq> None" if "dynamic (ntype n)"
    proof -
      have "has_plug c1 (nargs n) (ksiNodeTypeInlineId (ntype n))"
        using p1 n1 that unfolding pinv_def by blast
      then show ?thesis using c2(4) by (auto simp: has_plug_def quiet_def)
    qed
    from destroy_node_committer [OF c2(1) this]
    have "ksiEngineDestroyNode (Suc 0) c1 n = Some c3" by (simp only: c3_def)
    then have "commit_cmd (ksiDagEditRemoveNode i) c = Some (free_node c3 p)"
      using c1(1) n1 by (simp add: commit_cmd_def)
    moreover have "same e' (free_node c3 p)"
      using same_free_node [OF c2(2), of p] e'(1) by (simp add: c3_def same_def free_node_def)
    moreover have "commit_step c (free_node c3 p) (F @ F2) M' F'"
      using commit_step_free_node [OF commit_step_plugs [OF commit_step_trans [OF c1(3) c2(3)]]]
        commit_step_free_node [OF commit_step_trans [OF c1(3) c2(3)]] by (simp add: c3_def)
    moreover have "syncCmds (free_node c3 p) = syncCmds c"
      using c1(4) c2(4) by (simp add: c3_def quiet_def)
    moreover have "dom (plugs (free_node c3 p)) \<subseteq> dom (plugs c)"
      using c1(4) c2(4) by (auto simp: c3_def quiet_def)
    moreover have "pinv (free_node c3 p) A"
    proof (rule pinv_remove [OF p1 n1])
      show "get_node (free_node c3 p) q = (if q = p then None else get_node c1 q)" for q
        using h2 by (simp add: c3_def get_node_def free_node_def)
      show "plugs (free_node c3 p) = (if dynamic (ntype n) then (plugs c1)(nargs n := None) else plugs c1)"
        using c2(4) by (simp add: c3_def quiet_def)
    qed
    ultimately show "\<exists>c'. commit_cmd (ksiDagEditRemoveNode i) c = Some c' \<and> same e' c' \<and>
        commit_step c c' (F @ F2) M' F' \<and> syncCmds c' = syncCmds c \<and> pinv c' A \<and>
        dom (plugs c') \<subseteq> dom (plugs c)" by blast
  qed
  moreover have "edit_step e e' (M @ M2) (F @ F2)"
    unfolding e'(1) by (rule edit_step_send [OF edit_step_free_node [OF st]])
  moreover have "plugs_grow e e' (concat (map cmd_plugs [ksiDagEditRemoveNode i]))"
    using q e'(1) by (simp add: plugs_grow_def has_plug_def quiet_def)
  ultimately show ?thesis
    using einv_send [OF inv2 e'(2)] q e' by (auto simp: logged_def quiet_def cmds_def)
qed

section \<open>Adding a node\<close>

text \<open>
  \<open>AddNode\<close> in two halves, with the plugin's \<open>Init\<close>, which only the editor's run calls,
  between them.
\<close>

definition add_alloc :: "nat \<Rightarrow> int32 \<Rightarrow> plugin \<Rightarrow> KsiEngine \<Rightarrow> (ptr list \<times> ptr \<times> KsiEngine) option" where
  "add_alloc flag t pl e = do {
     p \<leftarrow> Some (nnext (hot e));
     e \<leftarrow> Some (set_hot ((hot e)\<lparr>nnext := Suc p\<rparr>) e);
     ots \<leftarrow> Some (types_of e (if outPorts pl \<noteq> [] then OutPorts (ksiNodeTypeInlineId t) else NoTypes));
     (obs, e) \<leftarrow> (if t AND ksiNodeTypeOutputMask = ksiNodeTypeOutputNormal
                  then new_outputs flag e ots
                  else Some (replicate (length (outPorts pl)) NULL, e));
     e \<leftarrow> Some (if t AND ksiNodeTypeOutputMask = ksiNodeTypeOutputFinal
                then set_hot ((hot e)\<lparr>finalNode := p\<rparr>) e else e);
     Some (obs, p, e)
   }"

definition added_node :: "int32 \<Rightarrow> plugin \<Rightarrow> 8 word list \<Rightarrow> ptr list \<Rightarrow> int \<Rightarrow> KsiEngine \<Rightarrow> KsiNode" where
  "added_node t pl x obs i e =
     (let ity = (if inPorts pl \<noteq> [] then InPorts (ksiNodeTypeInlineId t) else NoTypes);
          oty = (if outPorts pl \<noteq> [] then OutPorts (ksiNodeTypeInlineId t) else NoTypes)
      in \<lparr>depNum = 0, successors = [], nid = i, ntype = t,
          outputCount = int (length (outPorts pl)), outputTypes = oty, outputBuffer = obs,
          inputCount = int (length (inPorts pl)), inputTypes = ity,
          nenv = map new_env (types_of e ity), nargs = NULL, extArgs = x\<rparr>)"

definition add_finish ::
  "int32 \<Rightarrow> plugin \<Rightarrow> 8 word list \<Rightarrow> ptr list \<Rightarrow> ptr \<Rightarrow> ptr \<Rightarrow> KsiEngine \<Rightarrow> ((KsiError \<times> int \<times> ptr) \<times> KsiEngine) option" where
  "add_finish t pl x obs p a e = do {
     (i, vec) \<leftarrow> ksiVecInsert (nlist (hot e)) p;
     e \<leftarrow> Some (set_hot ((hot e)\<lparr>nlist := vec\<rparr>) e);
     Some ((ksiErrorNone, i, p), set_node p ((added_node t pl x obs i e)\<lparr>nargs := a\<rparr>) e)
   }"

definition add_core :: "nat \<Rightarrow> KsiEngine \<Rightarrow> int32 \<Rightarrow> 8 word list \<Rightarrow> ((KsiError \<times> int \<times> ptr) \<times> KsiEngine) option" where
  "add_core flag e t x =
     (if uninitialized e then Some ((ksiErrorUninitialized, 0, NULL), e)
      else if t AND ksiNodeTypeOutputMask = ksiNodeTypeOutputFinal \<and> finalNode (hot e) \<noteq> NULL
      then Some ((ksiErrorMultipleFinal, 0, NULL), e)
      else case INLINE_LIST (ksiNodeTypeInlineId t) of
        None \<Rightarrow> Some ((ksiErrorNoPlugin, 0, NULL), e)
      | Some pl \<Rightarrow> do { (obs, p, e) \<leftarrow> add_alloc flag t pl e; add_finish t pl x obs p NULL e })"

definition give_args :: "ptr \<Rightarrow> ptr \<Rightarrow> KsiEngine \<Rightarrow> KsiEngine option" where
  "give_args p a e = do { n \<leftarrow> get_node e p; Some (set_node p (n\<lparr>nargs := a\<rparr>) e) }"

definition new_plug :: "int32 \<Rightarrow> KsiEngine \<Rightarrow> KsiEngine" where
  "new_plug i e = e\<lparr>plugs := (plugs e)(nextblock e \<mapsto> plugin_init_env i), nextblock := Suc (nextblock e)\<rparr>"

lemma add_alloc_replays [replays_ops]: "replays prT S (\<lambda>fl e. add_alloc fl t pl e)"
  unfolding add_alloc_def
  by (rule replays_ops replays_rules | (rule readsI; simp; fail))+

lemma add_finish_replays [replays_ops]: "replays prP S (\<lambda>fl e. add_finish t pl x obs p a e)"
  unfolding add_finish_def added_node_def Let_def
  by (rule replays_ops replays_rules | (rule readsI; simp; fail))+

lemma add_core_replays: "replays prP S (\<lambda>fl e. add_core fl e t x)"
  unfolding add_core_def
  by (rule replays_ops replays_rules | (rule readsI; simp; fail))+

lemma types_of_update [simp]:
  "types_of (set_hot v e) = types_of e" "types_of (e\<lparr>plugs := pl\<rparr>) = types_of e"
  "types_of (e\<lparr>nextblock := nb\<rparr>) = types_of e"
  by (simp_all add: types_of_def fun_eq_iff split: type_array.split)

lemma AddNode_halves:
  "impl_ksiEngineAddNode fl e t x =
     (if uninitialized e then Some ((ksiErrorUninitialized, 0, NULL), e)
      else if t AND ksiNodeTypeOutputMask = ksiNodeTypeOutputFinal \<and> finalNode (hot e) \<noteq> NULL
      then Some ((ksiErrorMultipleFinal, 0, NULL), e)
      else case INLINE_LIST (ksiNodeTypeInlineId t) of
        None \<Rightarrow> Some ((ksiErrorNoPlugin, 0, NULL), e)
      | Some pl \<Rightarrow> do {
          (obs, p, e) \<leftarrow> add_alloc fl t pl e;
          (a, e) \<leftarrow> Some (plugin_init fl e (ksiNodeTypeInlineId t) pl);
          add_finish t pl x obs p a e
        })"
  unfolding impl_ksiEngineAddNode_def add_alloc_def add_finish_def added_node_def
  by (simp add: Let_def split_def cong: option.case_cong if_cong)

lemma types_of_set_node [simp]: "types_of (set_node p n e) = types_of e"
  by (simp add: set_node_def)

lemma add_finish_new_plug:
  "add_finish t pl x obs p (nextblock e) (new_plug i e) = do {
     (r, e) \<leftarrow> add_finish t pl x obs p NULL e;
     e \<leftarrow> give_args p (nextblock e) (new_plug i e);
     Some (r, e)
   }"
proof (cases "ksiVecInsert (nlist (hot e)) p")
  case (Some r)
  then show ?thesis
    by (cases r) (simp add: add_finish_def give_args_def new_plug_def get_node_def set_node_def set_hot_def
        hot_def hotEpoch_def added_node_def Let_def types_of_def cong: type_array.case_cong)
qed (simp add: add_finish_def new_plug_def)


lemma add_finish_ret: "add_finish t pl x obs p a e = Some (r, e') \<Longrightarrow> fst r = ksiErrorNone"
  by (auto simp: add_finish_def bind_eq_Some_conv)

lemma AddNode_core:
  "impl_ksiEngineAddNode fl e t x = do {
     (r, e) \<leftarrow> add_core fl e t x;
     (if fst r = ksiErrorNone \<and> fl = 0 \<and> dynamic t then do {
        e' \<leftarrow> give_args (snd (snd r)) (nextblock e) (new_plug (ksiNodeTypeInlineId t) e);
        Some (r, e')
      } else Some (r, e))
   }"
proof (cases "INLINE_LIST (ksiNodeTypeInlineId t)")
  case None
  then show ?thesis by (simp add: AddNode_halves add_core_def)
next
  case (Some pl)
  have ret: "snd (snd r) = p" if "add_finish t pl x obs p a e = Some (r, e')" for obs p a e r e'
    using that by (auto simp: add_finish_def bind_eq_Some_conv)
  show ?thesis
  proof (cases "add_alloc fl t pl e")
    case None
    then show ?thesis using Some by (simp add: AddNode_halves add_core_def)
  next
    case alloc: (Some y)
    obtain obs p e1 where y: "y = (obs, p, e1)" by (cases y)
    let ?i = "ksiNodeTypeInlineId t"
    show ?thesis
    proof (cases "add_finish t pl x obs p NULL e1")
      case None
      then have "add_finish t pl x obs p (nextblock e1) (new_plug ?i e1) = None"
        by (simp add: add_finish_new_plug)
      then show ?thesis using Some alloc y None
        by (simp add: AddNode_halves add_core_def plugin_init_def new_plug_def)
    next
      case fin: (Some z)
      obtain r e2 where z: "z = (r, e2)" by (cases z)
      have r: "fst r = ksiErrorNone" "snd (snd r) = p" using fin z add_finish_ret ret by blast+
      show ?thesis
      proof (cases "fl = 0 \<and> dynamicMemory pl")
        case True
        then show ?thesis using Some alloc y fin z r add_finish_new_plug [of t pl x obs p e1 ?i]
          by (simp add: AddNode_halves add_core_def plugin_init_def new_plug_def [symmetric] dynamic_def)
      next
        case False
        then show ?thesis using Some alloc y fin z r
          by (auto simp: AddNode_halves add_core_def plugin_init_def dynamic_def)
      qed
    qed
  qed
qed

text \<open>What the editor's first half leaves: new outputs for a node not yet in the graph.\<close>

lemma add_alloc_spec:
  assumes run: "add_alloc 0 t pl e = Some (obs, p, e1)" and q: "queues_ok e"
    and len: "length (types_of e (if outPorts pl \<noteq> [] then OutPorts (ksiNodeTypeInlineId t) else NoTypes)) = length (outPorts pl)"
  obtains ea where "takes (set_hot ((hot e)\<lparr>nnext := Suc p\<rparr>) e) ea obs" "p = nnext (hot e)"
    "e1 = (if t AND ksiNodeTypeOutputMask = ksiNodeTypeOutputFinal
           then set_hot ((hot ea)\<lparr>finalNode := p\<rparr>) ea else ea)"
    "length obs = length (outPorts pl)" "types_of ea = types_of e"
    "t AND ksiNodeTypeOutputMask = ksiNodeTypeOutputNormal \<Longrightarrow>
       (\<forall>i < length obs. is_event (types_of e (if outPorts pl \<noteq> [] then OutPorts (ksiNodeTypeInlineId t) else NoTypes) ! i)
          \<longrightarrow> obs ! i \<in> evq ea)"
proof -
  let ?e0 = "set_hot ((hot e)\<lparr>nnext := Suc p\<rparr>) e"
  let ?ots = "types_of e (if outPorts pl \<noteq> [] then OutPorts (ksiNodeTypeInlineId t) else NoTypes)"
  have q0: "queues_ok ?e0" using q by simp
  from run obtain ea where ea: "(if t AND ksiNodeTypeOutputMask = ksiNodeTypeOutputNormal
        then new_outputs 0 ?e0 ?ots else Some (replicate (length (outPorts pl)) NULL, ?e0)) = Some (obs, ea)"
    and p: "p = nnext (hot e)"
    and e1: "e1 = (if t AND ksiNodeTypeOutputMask = ksiNodeTypeOutputFinal
           then set_hot ((hot ea)\<lparr>finalNode := p\<rparr>) ea else ea)"
    by (auto simp: add_alloc_def bind_eq_Some_conv cong: if_cong)
  have tk: "takes ?e0 ea obs \<and> length obs = length (outPorts pl) \<and>
     (t AND ksiNodeTypeOutputMask = ksiNodeTypeOutputNormal \<longrightarrow>
       (\<forall>i < length obs. is_event (?ots ! i) \<longrightarrow> obs ! i \<in> evq ea))"
  proof (cases "t AND ksiNodeTypeOutputMask = ksiNodeTypeOutputNormal")
    case True
    then have "new_outputs 0 ?e0 ?ots = Some (obs, ea)" using ea by simp
    from new_outputs_takes [OF this q0] show ?thesis using len by simp
  next
    case False
    then have "obs = replicate (length (outPorts pl)) NULL" "ea = ?e0" using ea by auto
    then show ?thesis using takes_refl [OF q0] False by simp
  qed
  have "types_of ea = types_of ?e0"
    using takesD(4,5) [of ?e0 ea obs] tk by (simp add: types_of_def fun_eq_iff split: type_array.split)
  then show ?thesis using that [of ea] tk p e1 by simp
qed

lemma statics_lengths:
  assumes "statics_ok e" "INLINE_LIST i = Some pl"
  shows "length (types_of e (if inPorts pl \<noteq> [] then InPorts i else NoTypes)) = length (inPorts pl)"
    "length (types_of e (if outPorts pl \<noteq> [] then OutPorts i else NoTypes)) = length (outPorts pl)"
  using assms by (auto simp: statics_ok_def types_of_def)

lemma add_core_spec:
  assumes inv: "einv e" and run: "add_core 0 e t x = Some ((ksiErrorNone, i, p), e1)"
    and st: "edit_step e e1 M F" and qt: "quiet e e1"
  obtains n where "einv e1" "get_node e p = None" "get_node e1 = (get_node e)(p \<mapsto> n)"
    "ntype n = t" "nargs n = NULL"
proof -
  have q: "queues_ok e" by (rule einv_queues [OF inv])
  from run obtain pl obs e2 where pl: "INLINE_LIST (ksiNodeTypeInlineId t) = Some pl"
    and al: "add_alloc 0 t pl e = Some (obs, p, e2)"
    and fin: "add_finish t pl x obs p NULL e2 = Some ((ksiErrorNone, i, p), e1)"
    by (auto simp: add_core_def add_finish_def bind_eq_Some_conv split: if_splits option.splits)
  have sok: "statics_ok e" using inv by (simp add: einv_def)
  note len = statics_lengths [OF sok pl]
  obtain ea where tk: "takes (set_hot ((hot e)\<lparr>nnext := Suc p\<rparr>) e) ea obs" and p: "p = nnext (hot e)"
    and e2: "e2 = (if t AND ksiNodeTypeOutputMask = ksiNodeTypeOutputFinal
           then set_hot ((hot ea)\<lparr>finalNode := p\<rparr>) ea else ea)"
    and obs: "length obs = length (outPorts pl)" and ty: "types_of ea = types_of e"
    and ev: "t AND ksiNodeTypeOutputMask = ksiNodeTypeOutputNormal \<Longrightarrow>
       (\<forall>i < length obs. is_event (types_of e (if outPorts pl \<noteq> [] then OutPorts (ksiNodeTypeInlineId t) else NoTypes) ! i)
          \<longrightarrow> obs ! i \<in> evq ea)"
    by (rule add_alloc_spec [OF al q len(2)]) blast
  let ?e0 = "set_hot ((hot e)\<lparr>nnext := Suc p\<rparr>) e"
  obtain vec where vec: "ksiVecInsert (nlist (hot e2)) p = Some (i, vec)"
    and e1: "e1 = set_node p (added_node t pl x obs i (set_hot ((hot e2)\<lparr>nlist := vec\<rparr>) e2))
               (set_hot ((hot e2)\<lparr>nlist := vec\<rparr>) e2)"
    using fin by (auto simp: add_finish_def bind_eq_Some_conv added_node_def Let_def)
  define n where "n = added_node t pl x obs i (set_hot ((hot e2)\<lparr>nlist := vec\<rparr>) e2)"
  have ty2: "types_of e2 = types_of e" using ty by (simp add: e2)
  have n: "outputBuffer n = obs" "nargs n = NULL" "ntype n = t" "outputCount n = int (length obs)"
    "nenv n = map new_env (types_of e (if inPorts pl \<noteq> [] then InPorts (ksiNodeTypeInlineId t) else NoTypes))"
    "inputCount n = int (length (inPorts pl))"
    "outputTypes n = (if outPorts pl \<noteq> [] then OutPorts (ksiNodeTypeInlineId t) else NoTypes)"
    using ty2 obs by (simp_all add: n_def added_node_def Let_def)
  have h2: "nheap (hot e2) = nheap (hot ea)" "blocks e2 = blocks ea" "freeBufs e2 = freeBufs ea" "evq e2 = evq ea"
    by (simp_all add: e2)
  have hea: "hot ea = (hot e)\<lparr>nnext := Suc p\<rparr>" using takesD(2) [OF tk] by simp
  have g0: "get_node ?e0 = get_node e" by (simp add: get_node_def fun_eq_iff)
  have free: "get_node e p = None" using inv by (simp add: einv_def p)
  have g: "get_node e1 = (get_node e)(p \<mapsto> n)"
    using h2(1) hea by (auto simp: e1 n_def [symmetric] get_node_def set_node_def)
  have evs: "evq e1 = evq ea" by (simp add: e1 h2)
  have ty1: "types_of e1 = types_of e" using ty2 by (simp add: e1)
  have "own e1"
  proof (rule own_add_node [OF _ tk, of p e1 n "set_hot ((hot e2)\<lparr>nlist := vec\<rparr>) e2"])
    have "slot ?e0 = slot e" by (simp add: slot_def fun_eq_iff g0)
    then show "own ?e0" using inv by (simp add: einv_def own_def)
    show "get_node ?e0 p = None" using free g0 by simp
    show "queues_ok e1" using st by (simp add: edit_step_def)
  qed (simp_all add: e1 n_def [symmetric] h2 n)
  moreover have "node_ok e1 m" if "get_node e1 k = Some m" for k m
  proof (cases "k = p")
    case True
    have "outs_known e1 n" if nm: "t AND ksiNodeTypeOutputMask = ksiNodeTypeOutputNormal"
      unfolding outs_known_def ty1 n(1,7) evs
      using ev [OF nm] len(2) obs by (auto simp: get_at_eq_Some nat_less_iff)
    then show ?thesis using True that g n len(1) by (simp add: node_ok_def normal_def)
  next
    case False
    then have "node_ok e m" using that g inv by (simp add: einv_def)
    moreover have "evq e \<subseteq> evq e1" using st by (simp add: edit_step_def)
    ultimately show ?thesis using outs_known_mono [OF ty1, of m m] by (simp add: node_ok_def)
  qed
  moreover have "statics_ok e1" using sok st by (simp add: statics_ok_def edit_step_def frame_def)
  moreover have "nnext (hot e1) = Suc p" using hea by (simp add: e1 e2 set_node_def)
  moreover have "\<forall>q \<ge> Suc p. get_node e1 q = None" using inv by (simp add: g einv_def p)
  moreover have "\<forall>k \<ge> nextblock e1. plugs e1 k = None" "spsc_inv (syncCmds e1)"
    using qt st inv by (simp_all add: quiet_def edit_step_def einv_def)
  ultimately have "einv e1" unfolding einv_def by metis
  then show ?thesis using that free g n by blast
qed

lemma pinv_add:
  assumes p: "pinv c ((if dynamic t then [(a, ksiNodeTypeInlineId t)] else []) @ A)"
    and new: "get_node c p = None" and g: "get_node c' = (get_node c)(p \<mapsto> n)" and pl: "plugs c' = plugs c"
    and n: "ntype n = t" "nargs n = a"
  shows "pinv c' A"
proof -
  have hp: "has_plug c' = has_plug c" by (simp add: has_plug_def pl fun_eq_iff)
  have po: "plug_of c' = (if dynamic t then (plug_of c)(p \<mapsto> a) else plug_of c)"
    using new by (auto simp: plug_of_def g n fun_eq_iff)
  show ?thesis
  proof (cases "dynamic t")
    case False
    then show ?thesis using p n unfolding pinv_def po hp by (auto simp: g)
  next
    case True
    have old: "inj_on (plug_of c) (dom (plug_of c))" "a \<notin> ran (plug_of c)" "a \<notin> fst ` set A"
      "distinct (map fst A)" "ran (plug_of c) \<inter> fst ` set A = {}" "has_plug c a (ksiNodeTypeInlineId t)"
      using p True by (auto simp: pinv_def)
    have "plug_of c p = None" using new by (simp add: plug_of_def)
    then have "ran (plug_of c') = insert a (ran (plug_of c))" using True by (simp add: po)
    moreover have "inj_on (plug_of c') (dom (plug_of c'))"
      using True inj_slot_upd [OF old(1,2)] by (simp add: po)
    ultimately show ?thesis using p old True n unfolding pinv_def hp by (auto simp: g)
  qed
qed

lemma set_node_same: "same e c \<Longrightarrow> same (set_node p n e) (set_node p n c)"
  unfolding set_node_def by (rule same_set_hot) (simp_all add: same_fields)

text \<open>The state the editor's call ends in: the node has its plugin's data.\<close>

definition with_plug :: "int32 \<Rightarrow> ptr \<Rightarrow> KsiEngine \<Rightarrow> KsiEngine" where
  "with_plug t p e = (if dynamic t then set_node p ((the (get_node e p))\<lparr>nargs := nextblock e\<rparr>)
      (new_plug (ksiNodeTypeInlineId t) e) else e)"

lemma AddNode_editor:
  assumes "impl_ksiEngineAddNode 0 e t x = Some ((ksiErrorNone, i, p), e')"
  obtains e1 where "add_core 0 e t x = Some ((ksiErrorNone, i, p), e1)" "e' = with_plug t p e1"
proof -
  from assms obtain r e1 where c: "add_core 0 e t x = Some (r, e1)"
    and r: "(if fst r = ksiErrorNone \<and> dynamic t then do {
        e' \<leftarrow> give_args (snd (snd r)) (nextblock e1) (new_plug (ksiNodeTypeInlineId t) e1);
        Some (r, e')
      } else Some (r, e1)) = Some ((ksiErrorNone, i, p), e')"
    by (auto simp: AddNode_core bind_eq_Some_conv simp del: not_None_eq)
  have r1: "r = (ksiErrorNone, i, p)" using r by (auto simp: bind_eq_Some_conv split: if_splits)
  have h: "get_node (new_plug k e1) = get_node e1" for k
    by (simp add: get_node_def new_plug_def fun_eq_iff)
  show ?thesis
    using that [of e1] c r by (auto simp: r1 with_plug_def give_args_def h bind_eq_Some_conv split: if_splits)
qed

lemma new_plug_fields [simp]:
  "blocks (new_plug i e) = blocks e" "mallocBufs (new_plug i e) = mallocBufs e"
  "freeBufs (new_plug i e) = freeBufs e" "syncCmds (new_plug i e) = syncCmds e"
  "evq (new_plug i e) = evq e" "types_of (new_plug i e) = types_of e"
  "hot (new_plug i e) = hot e" "get_node (new_plug i e) = get_node e"
  "nextblock (new_plug i e) = Suc (nextblock e)" "same (new_plug i e) c = same e c"
  "frame a (new_plug i e) = frame a e" "queues_ok e \<Longrightarrow> queues_ok (new_plug i e)"
  "plugs (new_plug i e) = (plugs e)(nextblock e \<mapsto> plugin_init_env i)"
  "framesPerBuffer (new_plug i e) = framesPerBuffer e" "uninitialized (new_plug i e) = uninitialized e"
  "timeseqResources (new_plug i e) = timeseqResources e" "staticIn (new_plug i e) = staticIn e" "staticOut (new_plug i e) = staticOut e"
  "statics_ok (new_plug i e) = statics_ok e" "slot (new_plug i e) = slot e"
  by (auto simp: new_plug_def evq_def types_of_def fun_eq_iff get_node_def same_def frame_def queues_ok_def
      statics_ok_def slot_def uninitialized_def split: type_array.split)

lemma plugin_init_fits: "plug_fits i (plugin_init_env i)"
  by (simp add: plug_fits_def plugin_init_env_def)

lemma set_node_edit_step: "edit_step a b M F \<Longrightarrow> edit_step a (set_node p n b) M F"
  by (simp add: edit_step_def set_node_def) (blast intro: frame_trans frame_I(1))

lemma set_node_commit_step: "commit_step a b F M' F' \<Longrightarrow> commit_step a (set_node p n b) F M' F'"
  by (simp add: commit_step_def set_node_def) (blast intro: frame_trans frame_I(1))

lemma new_plug_edit_step: "edit_step a b M F \<Longrightarrow> edit_step a (new_plug i b) M F"
  by (simp add: edit_step_def)

lemma own_nargs:
  assumes own: "own e" and n: "get_node e p = Some n"
  shows "own (set_node p (n\<lparr>nargs := a\<rparr>) (new_plug i e))"
proof -
  have "slot_of (n\<lparr>nargs := a\<rparr>) = slot_of n" by (rule slot_of_cong) simp_all
  then have "slot (set_node p (n\<lparr>nargs := a\<rparr>) (new_plug i e)) = slot e"
    by (auto simp: slot_set_node fun_eq_iff slot_def n)
  then show ?thesis using own by (simp add: own_def)
qed

lemma einv_with_plug:
  assumes inv: "einv e" and n: "get_node e p = Some n"
  shows "einv (with_plug t p e)"
proof (cases "dynamic t")
  case True
  let ?m = "n\<lparr>nargs := nextblock e\<rparr>"
  let ?e = "set_node p ?m (new_plug (ksiNodeTypeInlineId t) e)"
  have ok: "node_ok ?e k \<longleftrightarrow> node_ok e k" "node_ok e ?m \<longleftrightarrow> node_ok e n" for k
    by (simp_all add: node_ok_def outs_known_def normal_def)
  have "einv ?e"
    unfolding einv_def
  proof (intro conjI allI impI)
    show "statics_ok ?e" using inv by (simp add: einv_def statics_ok_def)
    show "own ?e" using own_nargs [OF _ n] inv by (simp add: einv_def)
    show "spsc_inv (syncCmds ?e)" using inv by (simp add: einv_def set_node_def)
    show "node_ok ?e m" if "get_node ?e q = Some m" for q m
      using that inv n unfolding ok(1) by (auto simp: einv_def ok(2) split: if_splits)
    show "get_node ?e q = None" if "nnext (hot ?e) \<le> q" for q
      using that inv n by (auto simp: einv_def)
    show "plugs ?e q = None" if "nextblock ?e \<le> q" for q
      using that inv by (auto simp: einv_def)
  qed
  then show ?thesis using True n by (simp add: with_plug_def)
next
  case False
  then show ?thesis using inv by (simp add: with_plug_def)
qed

lemma with_plug_step:
  assumes n: "get_node e1 p = Some n" and st: "edit_step e e1 M F" and qt: "quiet e e1"
    and new: "\<forall>a \<ge> nextblock e. plugs e a = None"
    and a_def: "a = (if dynamic t then nextblock e1 else nargs n)"
  shows "edit_step e (with_plug t p e1) M F" "syncCmds (with_plug t p e1) = syncCmds e"
    "get_node (with_plug t p e1) = (get_node e1)(p \<mapsto> n\<lparr>nargs := a\<rparr>)"
    "plugs_grow e (with_plug t p e1) (if dynamic t then [(a, ksiNodeTypeInlineId t)] else [])"
    "same (with_plug t p e1) c \<longleftrightarrow> same (set_node p (n\<lparr>nargs := a\<rparr>) e1) c"
    "evq (with_plug t p e1) = evq e1"
proof -
  have sync: "syncCmds (set_node p m k) = syncCmds k" for m k by (simp add: set_node_def)
  have nb: "nextblock e \<le> nextblock e1" using st by (simp add: edit_step_def)
  have id: "n\<lparr>nargs := nargs n\<rparr> = n" by simp
  have idn: "set_node p n e1 = e1"
    using n by (auto simp: set_node_def get_node_def fun_upd_idem)
  show "edit_step e (with_plug t p e1) M F"
    using st by (simp add: with_plug_def set_node_edit_step new_plug_edit_step)
  show "syncCmds (with_plug t p e1) = syncCmds e"
    using qt by (simp add: with_plug_def quiet_def sync)
  show "get_node (with_plug t p e1) = (get_node e1)(p \<mapsto> n\<lparr>nargs := a\<rparr>)"
    using n by (auto simp: with_plug_def a_def fun_eq_iff)
  have "has_plug (with_plug t p e1) b i" if "has_plug e b i" for b i
  proof -
    have "dynamic t \<Longrightarrow> b \<noteq> nextblock e1" using that new nb by (auto simp: has_plug_def)
    then show ?thesis using that qt by (auto simp: has_plug_def with_plug_def quiet_def)
  qed
  then show "plugs_grow e (with_plug t p e1) (if dynamic t then [(a, ksiNodeTypeInlineId t)] else [])"
    using nb by (auto simp: plugs_grow_def a_def with_plug_def has_plug_def plugin_init_fits)
  show "same (with_plug t p e1) c \<longleftrightarrow> same (set_node p (n\<lparr>nargs := a\<rparr>) e1) c"
    using n by (simp add: with_plug_def a_def id idn) (simp add: same_def set_node_def)
  show "evq (with_plug t p e1) = evq e1" by (simp add: with_plug_def)
qed

lemma AddNode_logged:
  assumes inv: "einv e" and run: "ksiEngineAddNode e t x = Some ((ksiErrorNone, i), e')"
  shows "\<exists>a. logged e e' [ksiDagEditAddNode t x a]"
proof -
  obtain p e2 m where impl: "impl_ksiEngineAddNode 0 e t x = Some ((ksiErrorNone, i, p), e2)"
    and m: "get_node e2 p = Some m" and s: "send_cmd e2 (ksiDagEditAddNode t x (nargs m)) = Some e'"
    using run by (auto simp: ksiEngineAddNode_def ksiCondWait_def bind_eq_Some_conv split: if_splits)
  obtain e1 where c: "add_core 0 e t x = Some ((ksiErrorNone, i, p), e1)" and e2: "e2 = with_plug t p e1"
    by (rule AddNode_editor [OF impl])
  from copiesP [OF replaysD [OF add_core_replays einv_queues [OF inv] ext_refl c]]
  obtain M F where st: "edit_step e e1 M F" and qt: "quiet e e1"
    and cp: "\<And>c M' F'. same e c \<Longrightarrow> commit_ready c M F M' F' \<Longrightarrow> kinds_ok e1 c \<Longrightarrow>
        \<exists>y. add_core (Suc 0) c t x = Some ((ksiErrorNone, i, p), y) \<and> same e1 y \<and>
            commit_step c y F M' F' \<and> quiet c y"
    by metis
  obtain n where inv1: "einv e1" and new: "get_node e p = None" and g1: "get_node e1 = (get_node e)(p \<mapsto> n)"
    and n: "ntype n = t" "nargs n = NULL" by (rule add_core_spec [OF inv c st qt])
  have n1: "get_node e1 p = Some n" by (simp add: g1)
  have nop: "\<forall>a \<ge> nextblock e. plugs e a = None" using inv by (simp add: einv_def)
  define a where "a = (if dynamic t then nextblock e1 else nargs n)"
  note w = with_plug_step [OF n1 st qt nop a_def, folded e2]
  have m': "m = n\<lparr>nargs := a\<rparr>" using m w(3) by simp
  have inv2: "einv e2" unfolding e2 by (rule einv_with_plug [OF inv1 n1])
  then have "spsc_inv (syncCmds e2)" by (simp add: einv_def)
  from send_cmd_spec [OF this s] obtain sc where e': "e' = e2\<lparr>syncCmds := sc\<rparr>" "spsc_inv sc"
    "spsc_list sc = cmds e2 @ [ksiDagEditAddNode t x (nargs m)]" by metis
  have ma: "nargs m = a" by (simp add: m')
  let ?cmd = "ksiDagEditAddNode t x a"
  have "commits e e' [?cmd] M F"
  proof (rule commits_single)
    fix k M' F' A
    assume sm: "same e k" and rd: "commit_ready k M F M' F'" and kk: "kinds_ok e' k"
      and pv: "pinv k (cmd_plugs ?cmd @ A)"
    have "kinds_ok e1 k" using kk w(6) by (simp add: e'(1) kinds_ok_def)
    then obtain k1 where k1: "add_core (Suc 0) k t x = Some ((ksiErrorNone, i, p), k1)" "same e1 k1"
      "commit_step k k1 F M' F'" "quiet k k1" using cp [OF sm rd] by blast
    have gk: "get_node k1 = (get_node k)(p \<mapsto> n)"
      using g1 same_get_node [OF k1(2)] same_get_node [OF sm] by simp
    let ?k = "set_node p (n\<lparr>nargs := a\<rparr>) k1"
    have "commit_cmd ?cmd k = Some ?k"
      using k1(1) gk by (simp add: commit_cmd_def AddNode_core)
    moreover have "same e' ?k"
      using set_node_same [OF k1(2)] w(5) e'(1) by simp
    moreover have "commit_step k ?k F M' F'" by (rule set_node_commit_step [OF k1(3)])
    moreover have "syncCmds ?k = syncCmds k" using k1(4) by (simp add: quiet_def set_node_def)
    moreover have "dom (plugs ?k) \<subseteq> dom (plugs k)" using k1(4) by (simp add: quiet_def)
    moreover have "pinv ?k A"
    proof (rule pinv_add)
      show "pinv k ((if dynamic t then [(a, ksiNodeTypeInlineId t)] else []) @ A)" using pv by simp
      show "get_node k p = None" using new same_get_node [OF sm] by simp
      show "get_node ?k = (get_node k)(p \<mapsto> n\<lparr>nargs := a\<rparr>)" by (auto simp: gk fun_eq_iff)
      show "plugs ?k = plugs k" using k1(4) by (simp add: quiet_def)
    qed (simp_all add: n)
    ultimately show "\<exists>c'. commit_cmd ?cmd k = Some c' \<and> same e' c' \<and>
        commit_step k c' F M' F' \<and> syncCmds c' = syncCmds k \<and> pinv c' A \<and>
        dom (plugs c') \<subseteq> dom (plugs k)" by blast
  qed
  moreover have "edit_step e e' M F" unfolding e'(1) by (rule edit_step_send [OF w(1)])
  moreover have "plugs_grow e e' (concat (map cmd_plugs [?cmd]))"
    using w(4) by (simp add: e'(1) plugs_grow_def)
  ultimately have "logged e e' [?cmd]"
    using einv_send [OF inv2 e'(2)] w(2) e' ma by (auto simp: logged_def cmds_def)
  then show ?thesis ..
qed

end
