(* ===== verification/Edit_Calls.thy ===== *)
theory Edit_Calls
  imports Log_Nodes
begin

text \<open>
  The remaining calls (the plugins' editing commands), the calls that report an error, and
  with them every sequence of calls: what the editor has done is what its queued commands
  make a committer do.
\<close>

section \<open>Editing commands of plugins\<close>

lemma InlineId_dynamic:
  "ksiNodeTypeInlineId (t OR ksiNodeTypeDynamicInputType) = ksiNodeTypeInlineId t"
  "ksiNodeTypeInlineId (t OR ksiNodeTypeDynamicOutputType) = ksiNodeTypeInlineId t"
  by (simp_all add: ksiNodeTypeInlineId_def bit.conj_disj_distrib2 node_type_defs)

lemma einv_set_node:
  assumes inv: "einv e" and n: "get_node e p = Some n" and own: "own e'" and ok: "node_ok e' m"
    and h: "hot e1 = hot e" "types_of e1 = types_of e" and e': "e' = set_node p m e1"
    and q: "quiet e e'" and st: "edit_step e e' M F"
  shows "einv e'"
  unfolding einv_def
proof (intro conjI allI impI)
  have g: "get_node e' = (get_node e)(p \<mapsto> m)" using get_node_hot [OF h(1)] by (auto simp: e' fun_eq_iff)
  have ty: "types_of e' = types_of e" using h(2) by (simp add: e')
  show "statics_ok e'" using inv st by (simp add: einv_def statics_ok_def edit_step_def frame_def)
  show "own e'" by (rule own)
  show "spsc_inv (syncCmds e')" using inv q by (simp add: einv_def quiet_def)
  show "node_ok e' k" if "get_node e' r = Some k" for r k
  proof (cases "r = p")
    case False
    then have "node_ok e k" using that g inv by (simp add: einv_def)
    moreover have "evq e \<subseteq> evq e'" using st by (simp add: edit_step_def)
    ultimately show ?thesis using outs_known_mono [OF ty, of k k] by (simp add: node_ok_def)
  qed (use that g ok in simp)
  show "get_node e' r = None" if "nnext (hot e') \<le> r" for r
  proof -
    have "nnext (hot e') = nnext (hot e)" by (simp add: e' h(1))
    then have "get_node e r = None" using that inv by (simp add: einv_def)
    then show ?thesis using n by (auto simp: g)
  qed
  show "plugs e' a = None" if "nextblock e' \<le> a" for a
    using that inv q st by (simp add: einv_def quiet_def edit_step_def)
qed

lemma same_shape_set_node:
  assumes "get_node e p = Some n" "hot e1 = hot e" "nargs m = nargs n"
    "ksiNodeTypeInlineId (ntype m) = ksiNodeTypeInlineId (ntype n)"
  shows "same_shape e (set_node p m e1)"
  using assms get_node_hot [OF assms(2)] by (auto simp: same_shape_def)

lemma same_shape_trans:
  assumes "same_shape a b" "same_shape b c" shows "same_shape a c"
  unfolding same_shape_def
proof (intro conjI allI impI)
  show "get_node c p = None \<longleftrightarrow> get_node a p = None" for p using assms by (simp add: same_shape_def)
  fix p n m assume n: "get_node a p = Some n" "get_node c p = Some m"
  then obtain k where "get_node b p = Some k" using assms(1) by (cases "get_node b p") (auto simp: same_shape_def)
  then show "nargs m = nargs n" "ksiNodeTypeInlineId (ntype m) = ksiNodeTypeInlineId (ntype n)"
    using assms n by (simp_all add: same_shape_def)
qed

lemma IdEditCmd_copies:
  assumes inv: "einv e" and run: "ksiBuiltinNodeFuncIdEditCmd 0 e p args = Some (ksiErrorNone, e')"
  shows "copies prP e (\<lambda>fl e. ksiBuiltinNodeFuncIdEditCmd fl e p args) (ksiErrorNone, e')"
    "einv e'" "same_shape e e'"
proof -
  from run obtain r where r: "sscanf_d32 args = Some r" by (auto simp: ksiBuiltinNodeFuncIdEditCmd_def bind_eq_Some_conv)
  with run obtain pc rest where sc: "sscanf_d32 args = Some (Some (pc, rest))"
    by (cases r) (auto simp: ksiBuiltinNodeFuncIdEditCmd_def)
  with run have pc: "pc > 0" by (auto simp: ksiBuiltinNodeFuncIdEditCmd_def split: if_splits)
  with run sc obtain n where n: "get_node e p = Some n"
    by (cases "get_node e p") (auto simp: ksiBuiltinNodeFuncIdEditCmd_def)
  with run sc pc obtain e1 where
    e1: "impl_ksiNodeChangeInputPortCount 0 e p pc (if pc > inputCount n
              then replicate (nat (pc - inputCount n)) ksiNodePortTypeFloat else []) = Some e1"
    and e2: "impl_ksiNodeChangeOutputPortCount 0 e1 p pc (if pc > inputCount n
              then replicate (nat (pc - inputCount n)) ksiNodePortTypeFloat else []) = Some e'"
    by (auto simp: ksiBuiltinNodeFuncIdEditCmd_def bind_eq_Some_conv Let_def simp del: if_split split: option.splits)
  define nt where "nt = (if pc > inputCount n
              then replicate (nat (pc - inputCount n)) ksiNodePortTypeFloat else [])"
  note e1 = e1 [folded nt_def] and e2 = e2 [folded nt_def]
  have own: "own e" and ok: "\<And>p n. get_node e p = Some n \<Longrightarrow> node_ok e n" using inv by (auto simp: einv_def)
  have c1: "copies prU e (\<lambda>fl e. impl_ksiNodeChangeInputPortCount fl e p pc nt) e1"
    by (rule replaysD [OF ChangeInputPortCount_replays einv_queues [OF inv] ext_refl e1])
  then obtain M F where st1: "edit_step e e1 M F" and q1: "quiet e e1" using copiesU by blast
  obtain n1 m1 k1 where 1: "own e1" "get_node e p = Some n1" "e1 = set_node p m1 k1" "hot k1 = hot e"
    "types_of k1 = types_of e" "nargs m1 = nargs n1" "ntype m1 = ntype n1 OR ksiNodeTypeDynamicInputType"
    "node_ok e1 m1"
    by (rule ChangeInputPortCount_own [OF own ok e1]) (use pc in auto)
  have inv1: "einv e1" by (rule einv_set_node [OF inv 1(2,1,8,4,5,3) q1 st1])
  have own1: "own e1" and ok1: "\<And>p n. get_node e1 p = Some n \<Longrightarrow> node_ok e1 n" using inv1 by (auto simp: einv_def)
  have c2: "copies prU e1 (\<lambda>fl e. impl_ksiNodeChangeOutputPortCount fl e p pc nt) e'"
    by (rule ChangeOutputPortCount_copies [OF einv_queues [OF inv1] _ e2])
      (use ok1 in \<open>auto simp: node_ok_def normal_def\<close>)
  then obtain M2 F2 where st2: "edit_step e1 e' M2 F2" and q2: "quiet e1 e'" using copiesU by blast
  obtain n2 m2 k2 where 2: "own e'" "get_node e1 p = Some n2" "e' = set_node p m2 k2" "hot k2 = hot e1"
    "types_of k2 = types_of e1" "nargs m2 = nargs n2" "ntype m2 = ntype n2 OR ksiNodeTypeDynamicOutputType"
    "node_ok e' m2"
    by (rule ChangeOutputPortCount_own [OF own1 ok1 e2]) (use pc in auto)
  show "einv e'" by (rule einv_set_node [OF inv1 2(2,1,8,4,5,3) q2 st2])
  have "same_shape e e1" unfolding 1(3) by (rule same_shape_set_node [OF 1(2,4,6)]) (simp add: 1(7) InlineId_dynamic)
  moreover have "same_shape e1 e'" unfolding 2(3) by (rule same_shape_set_node [OF 2(2,4,6)]) (simp add: 2(7) InlineId_dynamic)
  ultimately show "same_shape e e'" by (rule same_shape_trans)
  have c2': "copies prU (snd (prU e1)) (\<lambda>fl e. impl_ksiNodeChangeOutputPortCount fl e p pc nt) e'"
    using c2 by (simp add: prU_def)
  have ret: "copies prP e' (\<lambda>fl e. Some (ksiErrorNone, e)) (ksiErrorNone, e')"
    by (rule replaysD [OF replays_ret(2) [OF edits_hot_id] einv_queues [OF \<open>einv e'\<close>] ext_refl])
      (simp_all add: reads_def)
  have "copies prU e (\<lambda>fl e. do { e \<leftarrow> impl_ksiNodeChangeInputPortCount fl e p pc nt;
          impl_ksiNodeChangeOutputPortCount fl e p pc nt }) e'"
    using copies_bindG [OF c1, of prU "\<lambda>fl _ e. impl_ksiNodeChangeOutputPortCount fl e p pc nt"] c2'
    by (simp add: prU_def)
  then have "copies prP e (\<lambda>fl e. do { e \<leftarrow> impl_ksiNodeChangeInputPortCount fl e p pc nt;
          e \<leftarrow> impl_ksiNodeChangeOutputPortCount fl e p pc nt; Some (ksiErrorNone, e) }) (ksiErrorNone, e')"
    using copies_bindG [of prU e "\<lambda>fl e. do { e \<leftarrow> impl_ksiNodeChangeInputPortCount fl e p pc nt;
          impl_ksiNodeChangeOutputPortCount fl e p pc nt }" e' prP
        "\<lambda>fl _ e. Some (ksiErrorNone, e)" "(ksiErrorNone, e')"] ret
    by (simp add: prU_def)
  then show "copies prP e (\<lambda>fl e. ksiBuiltinNodeFuncIdEditCmd fl e p args) (ksiErrorNone, e')"
  proof (rule copies_cong)
    fix c assume "same e c"
    then have "get_node c p = Some n" using n same_get_node by metis
    then show "ksiBuiltinNodeFuncIdEditCmd (Suc 0) c p args = do {
        e \<leftarrow> impl_ksiNodeChangeInputPortCount (Suc 0) c p pc nt;
        e \<leftarrow> impl_ksiNodeChangeOutputPortCount (Suc 0) e p pc nt; Some (ksiErrorNone, e) }"
      using sc pc by (simp add: ksiBuiltinNodeFuncIdEditCmd_def Let_def nt_def)
  qed
qed

lemma SendEditing_dispatch:
  assumes "get_at (vdata (nlist (hot e))) i = Some p" "get_node e p = Some n" "\<not> uninitialized e"
    "CHECK_VEC i (nlist (hot e)) = Some True"
  shows "impl_ksiEngineSendEditingCommand fl e i args =
    (case INLINE_LIST (ksiNodeTypeInlineId (ntype n)) of
       None \<Rightarrow> Some (ksiErrorNone, e)
     | Some pl \<Rightarrow>
         if \<not> editCmd pl then Some (ksiErrorNoEditCmd, e)
         else if ksiNodeTypeInlineId (ntype n) = 1 then ksiBuiltinNodeFuncIdEditCmd fl e p args
         else if ksiNodeTypeInlineId (ntype n) = 3 then kscarletMidiSegEditCmd fl e p args
         else None)"
  using assms by (simp add: impl_ksiEngineSendEditingCommand_def)

text \<open>A call that reports an error has changed nothing.\<close>

definition clean :: "KsiError set \<Rightarrow> ('a \<Rightarrow> KsiError) \<Rightarrow> KsiEngine \<Rightarrow> ('a \<times> KsiEngine) option \<Rightarrow> bool" where
  "clean X err e f \<longleftrightarrow> (\<forall>r e'. f = Some (r, e') \<longrightarrow> err r \<notin> X \<longrightarrow> e' = e)"

lemma cleanD: "clean X err e f \<Longrightarrow> f = Some (r, e') \<Longrightarrow> err r \<notin> X \<Longrightarrow> e' = e"
  by (simp add: clean_def)

lemma clean_rules:
  "(\<And>x. clean X err e (g x)) \<Longrightarrow> clean X err e (Option.bind m g)"
  "clean X err e f \<Longrightarrow> clean X err e f' \<Longrightarrow> clean X err e (if b then f else f')"
  "clean X err e f \<Longrightarrow> (\<And>x. clean X err e (h x)) \<Longrightarrow> clean X err e (case opt of None \<Rightarrow> f | Some x \<Rightarrow> h x)"
  "clean X err e f \<Longrightarrow> (\<And>x xs. clean X err e (k x xs)) \<Longrightarrow> clean X err e (case l of [] \<Rightarrow> f | x # xs \<Rightarrow> k x xs)"
  "(\<And>x y. clean X err e (q x y)) \<Longrightarrow> clean X err e (case pair of (x, y) \<Rightarrow> q x y)"
  "(\<And>a b. clean X err e (v a b)) \<Longrightarrow> clean X err e f \<Longrightarrow> (\<And>a b. clean X err e (w a b)) \<Longrightarrow>
     clean X err e (case pe of MidiSegEnv a b \<Rightarrow> v a b | WavetableEnv \<Rightarrow> f | ADSREnv a b \<Rightarrow> w a b)"
  "clean X err e None" "clean X err e (Some (r, e))" "err r' \<in> X \<Longrightarrow> clean X err e (Some (r', e'))"
  by (auto simp: clean_def bind_eq_Some_conv split: option.splits list.splits prod.splits plugin_env.splits)

lemma IdEditCmd_clean: "clean {ksiErrorNone} (\<lambda>r. r) e (ksiBuiltinNodeFuncIdEditCmd 0 e p args)"
  unfolding ksiBuiltinNodeFuncIdEditCmd_def Let_def
  by (rule clean_rules singletonI)+

lemma MidiSegEditCmd_clean: "clean {ksiErrorNone} (\<lambda>r. r) e (kscarletMidiSegEditCmd 0 e p args)"
  unfolding kscarletMidiSegEditCmd_def
  by (rule clean_rules singletonI)+

text \<open>The two errors that are reported after the graph has been changed.\<close>

definition unclean :: "KsiError set" where
  "unclean = {ksiErrorAlreadyWire, ksiErrorWireNotFound}"

lemma unclean_rules: "ksiErrorNone \<in> insert ksiErrorNone unclean"
  "ksiErrorAlreadyWire \<in> insert ksiErrorNone unclean" "ksiErrorWireNotFound \<in> insert ksiErrorNone unclean"
  by (simp_all add: unclean_def)

lemma AddNode_clean:
  "clean (insert ksiErrorNone unclean) (\<lambda>(r, i, p). r) e (impl_ksiEngineAddNode 0 e t x)"
  unfolding impl_ksiEngineAddNode_def Let_def
  by (rule clean_rules | (simp add: unclean_def; fail))+

lemma MakeWire_clean:
  "clean (insert ksiErrorNone unclean) (\<lambda>r. r) e (impl_ksiEngineMakeWire 0 e srcId srcPrt desId desPort g)"
  unfolding impl_ksiEngineMakeWire_def make_event_wire_def make_signal_wire_def
  by (rule clean_rules unclean_rules)+

lemma MakeBias_clean:
  "clean (insert ksiErrorNone unclean) (\<lambda>r. r) e (impl_ksiEngineMakeBias 0 e desId desPort g)"
  unfolding impl_ksiEngineMakeBias_def
  by (rule clean_rules unclean_rules)+

lemma DetachNodes_clean:
  "clean (insert ksiErrorNone unclean) (\<lambda>r. r) e (impl_ksiEngineDetachNodes 0 e srcId desId)"
  unfolding impl_ksiEngineDetachNodes_def
  by (rule clean_rules unclean_rules)+

lemma RemoveNode_clean:
  "clean (insert ksiErrorNone unclean) fst e (impl_ksiEngineRemoveNode 0 e i)"
  unfolding impl_ksiEngineRemoveNode_def
  by (rule clean_rules | (simp add: unclean_def; fail))+

lemma RemoveWire_clean:
  "clean (insert ksiErrorNone unclean) (\<lambda>r. r) e (impl_ksiEngineRemoveWire 0 e srcId srcPrt desId desPort)"
  unfolding impl_ksiEngineRemoveWire_def
  by (rule clean_rules unclean_rules)+

lemma SendEditing_cases:
  assumes "impl_ksiEngineSendEditingCommand 0 e i args = Some (err, e')"
  obtains "err \<noteq> ksiErrorNone" "e' = e"
  | p n where "err = ksiErrorNone" "get_at (vdata (nlist (hot e))) i = Some p" "get_node e p = Some n"
     "\<not> uninitialized e" "CHECK_VEC i (nlist (hot e)) = Some True"
proof -
  consider "err \<noteq> ksiErrorNone" "e' = e"
    | p n where "get_at (vdata (nlist (hot e))) i = Some p" "get_node e p = Some n"
      "\<not> uninitialized e" "CHECK_VEC i (nlist (hot e)) = Some True"
    using assms by (auto simp: impl_ksiEngineSendEditingCommand_def bind_eq_Some_conv split: if_split_asm)
  then show ?thesis
  proof cases
    case (2 p n)
    show ?thesis
    proof (cases "err = ksiErrorNone")
      case False
      then have "e' = e" using assms cleanD [OF IdEditCmd_clean] cleanD [OF MidiSegEditCmd_clean]
        by (simp add: SendEditing_dispatch [OF 2] split: option.splits if_split_asm)
      then show ?thesis using False by (rule that(1) [rotated])
    qed (use that(2) 2 in blast)
  qed (use that(1) in blast)
qed

lemma MidiSeg_assign:
  assumes "kscarletMidiSegEditCmd 0 e p args = Some (ksiErrorNone, e')" "get_node e p = Some n"
  obtains "\<And>fl c. get_node c p = Some n \<Longrightarrow> kscarletMidiSegEditCmd fl c p args = Some (ksiErrorNone, c)" "e' = e"
  | t where "\<And>fl c. get_node c p = Some n \<Longrightarrow> timeseqResources c = timeseqResources e \<Longrightarrow>
      has_plug c (nargs n) 3 \<Longrightarrow>
      \<exists>cur. kscarletMidiSegEditCmd fl c p args = Some (ksiErrorNone, c\<lparr>plugs := (plugs c)(nargs n \<mapsto> MidiSegEnv t cur)\<rparr>)"
    "\<exists>cur. e' = e\<lparr>plugs := (plugs e)(nargs n \<mapsto> MidiSegEnv t cur)\<rparr>" "plugs e (nargs n) \<noteq> None"
proof (cases args)
  case Nil
  then show ?thesis using assms by (simp add: kscarletMidiSegEditCmd_def)
next
  case (Cons ch rest)
  show ?thesis
  proof (cases "ch = CHR ''m''")
    case False
    then have "ch = CHR ''p'' \<or> ch = CHR ''P''" "e' = e"
      using assms Cons by (auto simp: kscarletMidiSegEditCmd_def split: if_split_asm)
    then show ?thesis using False by (intro that(1)) (simp_all add: kscarletMidiSegEditCmd_def Cons)
  next
    case True
    from assms True Cons obtain r where r: "sscanf_d32 rest = Some r"
      by (auto simp: kscarletMidiSegEditCmd_def bind_eq_Some_conv)
    with assms True Cons obtain mid y where mid: "sscanf_d32 rest = Some (Some (mid, y))"
      by (cases r) (auto simp: kscarletMidiSegEditCmd_def)
    with assms True Cons have ok: "CHECK_VEC mid (timeseqResources e) = Some True"
      by (auto simp: kscarletMidiSegEditCmd_def bind_eq_Some_conv split: if_split_asm)
    with assms True Cons mid obtain t pe where t: "get_at (vdata (timeseqResources e)) mid = Some t"
      and pe: "plugs e (nargs n) = Some pe"
      by (auto simp: kscarletMidiSegEditCmd_def bind_eq_Some_conv)
    have k: "kscarletMidiSegEditCmd fl c p args = (case plugs c (nargs n) of
        Some (MidiSegEnv _ cur) \<Rightarrow> Some (ksiErrorNone, c\<lparr>plugs := (plugs c)(nargs n \<mapsto> MidiSegEnv t cur)\<rparr>)
      | _ \<Rightarrow> None)" if "get_node c p = Some n" "timeseqResources c = timeseqResources e" for fl c
      using that True Cons mid ok t by (simp add: kscarletMidiSegEditCmd_def split: option.split)
    show ?thesis
    proof (rule that(2))
      show "\<exists>cur. kscarletMidiSegEditCmd fl c p args =
          Some (ksiErrorNone, c\<lparr>plugs := (plugs c)(nargs n \<mapsto> MidiSegEnv t cur)\<rparr>)"
        if "get_node c p = Some n" "timeseqResources c = timeseqResources e" "has_plug c (nargs n) 3" for fl c
        using that(3) k [OF that(1,2)] by (auto simp: has_plug_def plug_fits_def)
      show "\<exists>cur. e' = e\<lparr>plugs := (plugs e)(nargs n \<mapsto> MidiSegEnv t cur)\<rparr>"
        using assms(1) k [OF assms(2) refl, of 0] pe by (cases pe) auto
      show "plugs e (nargs n) \<noteq> None" using pe by simp
    qed
  qed
qed

text \<open>Overwriting the data of a segment player keeps every invariant.\<close>

lemma has_plug_assign: "has_plug e a i \<Longrightarrow> has_plug (e\<lparr>plugs := (plugs e)(b \<mapsto> MidiSegEnv t cur)\<rparr>) a i"
  by (auto simp: has_plug_def plug_fits_def)

lemma plugs_update2 [simp]:
  "get_node (e\<lparr>plugs := pl\<rparr>) = get_node e" "slot (e\<lparr>plugs := pl\<rparr>) = slot e"
  "types_of (e\<lparr>plugs := pl\<rparr>) = types_of e" "node_ok (e\<lparr>plugs := pl\<rparr>) n = node_ok e n"
  "own (e\<lparr>plugs := pl\<rparr>) = own e" "same (e\<lparr>plugs := pl\<rparr>) c = same e c"
  "same c (e\<lparr>plugs := pl\<rparr>) = same c e" "statics_ok (e\<lparr>plugs := pl\<rparr>) = statics_ok e"
proof -
  show 1: "get_node (e\<lparr>plugs := pl\<rparr>) = get_node e" by (simp add: get_node_def fun_eq_iff)
  show 2: "types_of (e\<lparr>plugs := pl\<rparr>) = types_of e" by simp
  show 3: "slot (e\<lparr>plugs := pl\<rparr>) = slot e" by (simp add: slot_def fun_eq_iff 1)
  show "node_ok (e\<lparr>plugs := pl\<rparr>) n = node_ok e n" by (simp add: node_ok_def outs_known_def)
  show "own (e\<lparr>plugs := pl\<rparr>) = own e" by (simp add: own_def 3)
  show "same (e\<lparr>plugs := pl\<rparr>) c = same e c" "same c (e\<lparr>plugs := pl\<rparr>) = same c e" by (simp_all add: same_def)
  show "statics_ok (e\<lparr>plugs := pl\<rparr>) = statics_ok e" by (simp add: statics_ok_def)
qed

lemma einv_assign:
  "einv e \<Longrightarrow> plugs e b \<noteq> None \<Longrightarrow> einv (e\<lparr>plugs := (plugs e)(b \<mapsto> pe)\<rparr>)"
  by (auto simp: einv_def)

lemma edit_step_assign: "queues_ok e \<Longrightarrow> edit_step e (e\<lparr>plugs := pl\<rparr>) [] []"
  by (simp add: edit_step_def)

lemma assign_logged:
  assumes inv: "einv e" and b: "plugs e b \<noteq> None"
    and e1: "e1 = e\<lparr>plugs := (plugs e)(b \<mapsto> MidiSegEnv t cur)\<rparr>" and send: "send_cmd e1 cmd = Some e'"
    and cmd: "\<And>c A. same e c \<Longrightarrow> pinv c A \<Longrightarrow>
        plugs c b \<noteq> None \<and> (\<exists>cur. commit_cmd cmd c = Some (c\<lparr>plugs := (plugs c)(b \<mapsto> MidiSegEnv t cur)\<rparr>))"
    and plugs: "cmd_plugs cmd = []" "cmd \<noteq> ksiDagEditInvalid"
  shows "logged e e' [cmd]"
proof -
  have inv1: "einv e1" unfolding e1 by (rule einv_assign [OF inv b])
  then have "spsc_inv (syncCmds e1)" by (simp add: einv_def)
  from send_cmd_spec [OF this send] obtain sc where e': "e' = e1\<lparr>syncCmds := sc\<rparr>" "spsc_inv sc"
    "spsc_list sc = cmds e1 @ [cmd]" by metis
  have "commits e e' [cmd] [] []"
  proof (rule commits_single)
    fix k M' F' A
    assume s: "same e k" and rd: "commit_ready k [] [] M' F'"
      and p: "pinv k (cmd_plugs cmd @ A)"
    have pk: "pinv k A" using p plugs(1) by simp
    have kb: "plugs k b \<noteq> None" using cmd [OF s pk] by blast
    obtain cur' where k: "commit_cmd cmd k = Some (k\<lparr>plugs := (plugs k)(b \<mapsto> MidiSegEnv t cur')\<rparr>)"
      using cmd [OF s pk] by blast
    let ?k = "k\<lparr>plugs := (plugs k)(b \<mapsto> MidiSegEnv t cur')\<rparr>"
    have "pinv ?k A"
      by (rule pinv_shape [OF pk _ has_plug_assign]) (auto simp: same_shape_def)
    moreover have "commit_step k ?k [] M' F'" using rd by (simp add: commit_step_def commit_ready_def)
    ultimately show "\<exists>c'. commit_cmd cmd k = Some c' \<and> same e' c' \<and> commit_step k c' [] M' F' \<and>
        syncCmds c' = syncCmds k \<and> pinv c' A \<and> dom (plugs c') \<subseteq> dom (plugs k)"
      using k s kb by (simp add: e'(1) e1) blast
  qed
  moreover have "edit_step e e' [] []"
    unfolding e'(1) e1 by (rule edit_step_send [OF edit_step_assign [OF einv_queues [OF inv]]])
  moreover have "plugs_grow e e' (concat (map cmd_plugs [cmd]))"
    using plugs(1) has_plug_assign [of e _ _ b t cur] by (simp add: plugs_grow_def e'(1) e1)
  ultimately show ?thesis
    using einv_send [OF inv1 e'(2)] e' plugs(2) by (auto simp: logged_def cmds_def e1)
qed

lemma SendEditingCommand_logged:
  assumes inv: "einv e" and run: "ksiEngineSendEditingCommand e i args = Some (ret, e')"
  shows "\<exists>cs. logged e e' cs"
proof -
  obtain err e1 where impl: "impl_ksiEngineSendEditingCommand 0 e i args = Some (err, e1)"
    and e': "(if err = ksiErrorNone then send_cmd e1 (ksiDagEditSendEditingCmd i args) else Some e1) = Some e'"
    using run by (auto simp: ksiEngineSendEditingCommand_def ksiCondWait_def bind_eq_Some_conv split: if_split_asm)
  let ?cmd = "ksiDagEditSendEditingCmd i args"
  let ?f = "\<lambda>fl e. impl_ksiEngineSendEditingCommand fl e i args"
  have cmd: "commit_cmd ?cmd c = do { (_, c) \<leftarrow> ?f (Suc 0) c; Some c }" for c by (simp add: commit_cmd_def)
  show ?thesis
  proof (rule SendEditing_cases [OF impl])
    assume "err \<noteq> ksiErrorNone" "e1 = e"
    then show ?thesis using e' logged_refl [OF inv] by auto
  next
    fix p n
    assume err: "err = ksiErrorNone" and p: "get_at (vdata (nlist (hot e))) i = Some p" "get_node e p = Some n"
      "\<not> uninitialized e" "CHECK_VEC i (nlist (hot e)) = Some True"
    have s: "send_cmd e1 ?cmd = Some e'" using e' err by simp
    have pc: "get_at (vdata (nlist (hot c))) i = Some p" "get_node c p = Some n"
      "\<not> uninitialized c" "CHECK_VEC i (nlist (hot c)) = Some True" if "same e c" for c
      using p same_fields [OF that] by simp_all
    let ?i = "ksiNodeTypeInlineId (ntype n)"
    have unchanged: "\<exists>cs. logged e e' cs" if e1: "e1 = e"
      and f: "\<And>c. same e c \<Longrightarrow> ?f (Suc 0) c = Some (ksiErrorNone, c)"
    proof -
      have "copies prP e (\<lambda>fl e. Some (ksiErrorNone, e)) (ksiErrorNone, e)"
        by (rule replaysD [OF replays_ret(2) [OF edits_hot_id] einv_queues [OF inv] ext_refl])
          (simp_all add: reads_def)
      then have "copies prP e ?f (ksiErrorNone, e)" by (rule copies_cong) (simp add: f)
      from logged_copy [OF inv this keeps_refl _ cmd] s show ?thesis by (auto simp: e1)
    qed
    show ?thesis
    proof (cases "INLINE_LIST ?i")
      case None
      then have "e1 = e" using impl by (simp add: SendEditing_dispatch [OF p])
      then show ?thesis by (rule unchanged) (simp add: SendEditing_dispatch [OF pc] None)
    next
      case (Some pl)
      then consider "editCmd pl" "?i = 1" "ksiBuiltinNodeFuncIdEditCmd 0 e p args = Some (ksiErrorNone, e1)"
        | "editCmd pl" "?i = 3" "kscarletMidiSegEditCmd 0 e p args = Some (ksiErrorNone, e1)"
        using impl err by (auto simp: SendEditing_dispatch [OF p] split: if_split_asm)
      then show ?thesis
      proof cases
        case 1
        note c = IdEditCmd_copies [OF inv 1(3)]
        have "copies prP e ?f (ksiErrorNone, e1)"
          by (rule copies_cong [OF c(1)]) (use Some 1 in \<open>simp add: SendEditing_dispatch [OF pc]\<close>)
        from logged_shape [OF this c(2,3) s cmd] show ?thesis by auto
      next
        case 2
        have f: "?f (Suc 0) c = kscarletMidiSegEditCmd (Suc 0) c p args" if "same e c" for c
          using Some 2 by (simp add: SendEditing_dispatch [OF pc [OF that]])
        show ?thesis
        proof (rule MidiSeg_assign [OF 2(3) p(2)])
          assume a: "\<And>fl c. get_node c p = Some n \<Longrightarrow> kscarletMidiSegEditCmd fl c p args = Some (ksiErrorNone, c)"
            and "e1 = e"
          from this(2) show ?thesis by (rule unchanged) (simp add: f a pc)
        next
          fix t
          assume a: "\<And>fl c. get_node c p = Some n \<Longrightarrow> timeseqResources c = timeseqResources e \<Longrightarrow>
              has_plug c (nargs n) 3 \<Longrightarrow> \<exists>cur. kscarletMidiSegEditCmd fl c p args =
                Some (ksiErrorNone, c\<lparr>plugs := (plugs c)(nargs n \<mapsto> MidiSegEnv t cur)\<rparr>)"
            and e1: "\<exists>cur. e1 = e\<lparr>plugs := (plugs e)(nargs n \<mapsto> MidiSegEnv t cur)\<rparr>"
            and b: "plugs e (nargs n) \<noteq> None"
          from e1 obtain cur where e1: "e1 = e\<lparr>plugs := (plugs e)(nargs n \<mapsto> MidiSegEnv t cur)\<rparr>" ..
          have "dynamic (ntype n)" using 2(2) by (simp add: dynamic_def INLINE_LIST_def)
          then have hp: "has_plug c (nargs n) 3" if "same e c" "pinv c A" for c A
            using that(2) pc(2) [OF that(1)] 2(2) unfolding pinv_def by metis
          have cm: "plugs c (nargs n) \<noteq> None \<and>
              (\<exists>cur. commit_cmd ?cmd c = Some (c\<lparr>plugs := (plugs c)(nargs n \<mapsto> MidiSegEnv t cur)\<rparr>))"
            if sc: "same e c" and pv: "pinv c A" for c A
          proof -
            have "timeseqResources c = timeseqResources e" using same_fields(4) [OF sc] by simp
            then obtain cur where "?f (Suc 0) c = Some (ksiErrorNone, c\<lparr>plugs := (plugs c)(nargs n \<mapsto> MidiSegEnv t cur)\<rparr>)"
              using a [OF pc(2) [OF sc] _ hp [OF sc pv]] f [OF sc] by metis
            then have "commit_cmd ?cmd c = Some (c\<lparr>plugs := (plugs c)(nargs n \<mapsto> MidiSegEnv t cur)\<rparr>)"
              by (simp add: cmd)
            then show ?thesis using hp [OF sc pv] by (auto simp: has_plug_def)
          qed
          have "logged e e' [?cmd]" by (rule assign_logged [OF inv b e1 s]) (use cm in simp_all)
          then show ?thesis ..
        qed
      qed
    qed
  qed
qed

section \<open>One call, many calls\<close>

text \<open>The common shape of the calls: wait, run the operation, queue the command if it succeeded.\<close>

lemma call_error:
  assumes run: "do { e \<leftarrow> ksiCondWait e; (ret, e) \<leftarrow> f e;
                   e \<leftarrow> (if ret = ksiErrorNone then g e else Some e); Some (ret, e) } = Some (ret, e')"
    and cl: "clean (insert ksiErrorNone unclean) (\<lambda>r. r) e (f e)"
    and ret: "ret \<noteq> ksiErrorNone" "ret \<notin> unclean"
  shows "e' = e"
proof -
  have "f e = Some (ret, e')"
    using run ret by (auto simp: ksiCondWait_def bind_eq_Some_conv split: if_split_asm)
  from cleanD [OF cl this] show ?thesis using ret by simp
qed

lemma call_logged:
  assumes inv: "einv e" and ret: "ret \<notin> unclean"
    and run: "do { e \<leftarrow> ksiCondWait e; (ret, e) \<leftarrow> f e;
                   e \<leftarrow> (if ret = ksiErrorNone then g e else Some e); Some (ret, e) } = Some (ret, e')"
    and cl: "clean (insert ksiErrorNone unclean) (\<lambda>r. r) e (f e)"
    and ok: "ret = ksiErrorNone \<Longrightarrow> logged e e' cs"
  shows "\<exists>cs. logged e e' cs"
proof (cases "ret = ksiErrorNone")
  case False
  have "e' = e" by (rule call_error [OF run cl False ret])
  then show ?thesis using logged_refl [OF inv] by blast
qed (use ok in blast)

lemma edit_logged:
  assumes inv: "einv e" and run: "edit call e = Some (ret, e')" and ret: "ret \<notin> unclean"
  shows "\<exists>cs. logged e e' cs"
proof (cases call)
  case (SendEditingCommand i x)
  then show ?thesis using SendEditingCommand_logged [OF inv] run by (simp add: edit_def)
next
  case (AddNode t x)
  then obtain i where r: "ksiEngineAddNode e t x = Some ((ret, i), e')" using run by (auto simp: edit_def)
  show ?thesis
  proof (cases "ret = ksiErrorNone")
    case True
    then show ?thesis using AddNode_logged [OF inv] r by blast
  next
    case False
    then have "e' = e" using r cleanD [OF AddNode_clean, of e t x] ret
      by (auto simp: ksiEngineAddNode_def ksiCondWait_def bind_eq_Some_conv split: if_split_asm)
    then show ?thesis using logged_refl [OF inv] by blast
  qed
next
  case (RemoveNode i)
  then have r: "ksiEngineRemoveNode e i = Some (ret, e')" using run by (simp add: edit_def)
  show ?thesis
  proof (cases "ret = ksiErrorNone")
    case True
    then show ?thesis using RemoveNode_logged [OF inv] r by blast
  next
    case False
    then have "e' = e" using r cleanD [OF RemoveNode_clean, of e i] ret
      by (auto simp: ksiEngineRemoveNode_def ksiCondWait_def bind_eq_Some_conv split: if_split_asm)
    then show ?thesis using logged_refl [OF inv] by blast
  qed
next
  case (MakeWire s sp d dp g)
  then have r: "ksiEngineMakeWire e s sp d dp g = Some (ret, e')" using run by (simp add: edit_def)
  show ?thesis
    by (rule call_logged [OF inv ret r [unfolded ksiEngineMakeWire_def] MakeWire_clean])
      (rule MakeWire_logged [OF inv], use r in simp)
next
  case (MakeBias d dp g)
  then have r: "ksiEngineMakeBias e d dp g = Some (ret, e')" using run by (simp add: edit_def)
  show ?thesis
    by (rule call_logged [OF inv ret r [unfolded ksiEngineMakeBias_def] MakeBias_clean])
      (rule MakeBias_logged [OF inv], use r in simp)
next
  case (DetachNodes s d)
  then have r: "ksiEngineDetachNodes e s d = Some (ret, e')" using run by (simp add: edit_def)
  show ?thesis
    by (rule call_logged [OF inv ret r [unfolded ksiEngineDetachNodes_def] DetachNodes_clean])
      (rule DetachNodes_logged [OF inv], use r in simp)
next
  case (RemoveWire s sp d dp)
  then have r: "ksiEngineRemoveWire e s sp d dp = Some (ret, e')" using run by (simp add: edit_def)
  show ?thesis
    by (rule call_logged [OF inv ret r [unfolded ksiEngineRemoveWire_def] RemoveWire_clean])
      (rule RemoveWire_logged [OF inv], use r in simp)
qed

lemma edits_logged:
  "einv e \<Longrightarrow> edits calls e = Some (rets, e') \<Longrightarrow> set rets \<inter> unclean = {} \<Longrightarrow> \<exists>cs. logged e e' cs"
proof (induction calls arbitrary: e rets)
  case Nil
  then show ?case using logged_refl by auto
next
  case (Cons call calls)
  then obtain r e1 rs where 1: "edit call e = Some (r, e1)" "edits calls e1 = Some (rs, e')" "rets = r # rs"
    by (auto simp: bind_eq_Some_conv)
  then have "r \<notin> unclean" "set rs \<inter> unclean = {}" using Cons.prems(3) by auto
  from edit_logged [OF Cons.prems(1) 1(1) this(1)] obtain cs where cs: "logged e e1 cs" ..
  then have "einv e1" by (simp add: logged_def)
  from Cons.IH [OF this 1(2) \<open>set rs \<inter> unclean = {}\<close>] obtain ds where "logged e1 e' ds" ..
  with cs show ?case using logged_trans by blast
qed

end
