(* ===== verification/Sync.thy ===== *)
theory Sync
  imports Edit_Calls
begin

text \<open>
  Editor and committer together: whatever sequence of calls the editor makes, the command
  queue, the queue of allocated blocks and the queue of blocks to be freed let the committer
  bring the other version to the same graph, without a fault, and leave all three queues
  empty.
\<close>

section \<open>The two versions agree\<close>

definition synced :: "KsiEngine \<Rightarrow> bool" where
  "synced e \<longleftrightarrow> einv e \<and> pinv e [] \<and> ver e 0 = ver e 1 \<and> cmds e = [] \<and> mallocs e = [] \<and>
     frees e = [] \<and> \<not> uninitialized e \<and> \<not> committedFlag e \<and> epoch e < 2"

lemma spsc_empty_iff:
  assumes "spsc_inv q"
  shows "qhead q = qtail q \<longleftrightarrow> spsc_list q = []"
proof -
  from assms obtain rs cs ls where r: "spsc_rep q rs cs ls" by (auto simp: spsc_inv_def)
  have l: "spsc_list q = [] \<longleftrightarrow> ls = []" using spsc_list_rep [OF r] by (simp add: pays_def)
  have h: "qhead q = last (cs @ ls)" "qtail q = last cs" "cs \<noteq> []" "distinct (cs @ ls)"
    using r by (auto simp: spsc_rep_def)
  have "last ls \<noteq> last cs" if "ls \<noteq> []"
    using h(3,4) last_in_set [OF that] last_in_set [OF h(3)] unfolding distinct_append disjoint_iff by metis
  then show ?thesis using h l by auto
qed

text \<open>The loop of the committer takes the queued commands and stops at the end of the queue.\<close>

lemma commit_loop_cmds:
  assumes "commit_cmds cs c = Some c'" "ksiDagEditInvalid \<notin> set cs" "spsc_inv (syncCmds c')" "cmds c' = []"
  shows "\<exists>q. commit_loop c = Some (c'\<lparr>syncCmds := q\<rparr>) \<and> spsc_inv q \<and> spsc_list q = []"
  using assms(1,2)
proof (induction cs arbitrary: c)
  case Nil
  then have c: "c' = c" by simp
  obtain q where "ksiSPSCListDequeue ksiDagEditInvalid (syncCmds c) = Some (ksiDagEditInvalid, q)"
    "spsc_inv q" "spsc_list q = []"
    using sq.deq_law [OF assms(3), of ksiDagEditInvalid] assms(4) by (auto simp: cmds_def c)
  then show ?case by (intro exI [of _ q]) (subst commit_loop.simps, simp add: c)
next
  case (Cons cmd cs)
  then obtain q c1 where q: "ksiSPSCListDequeue ksiDagEditInvalid (syncCmds c) = Some (cmd, q)"
    and c1: "commit_cmd cmd (c\<lparr>syncCmds := q\<rparr>) = Some c1" "commit_cmds cs c1 = Some c'"
    by (auto simp: bind_eq_Some_conv split: if_split_asm)
  have "cmd \<noteq> ksiDagEditInvalid" using Cons.prems(2) by auto
  then have "commit_loop c = commit_loop c1"
    using q c1 by (subst commit_loop.simps) simp
  then show ?case using Cons.IH [OF c1(2)] Cons.prems(2) by simp
qed

section \<open>Replaying a whole session\<close>

text \<open>The other version of a synced engine is where the editor started.\<close>

definition other :: "KsiEngine \<Rightarrow> KsiEngine \<Rightarrow> bool" where
  "other e1 c \<longleftrightarrow> (\<exists>s f a m. c = e1\<lparr>epoch := (epoch e1 + 1) mod 2, committingSem := s,
     audioEpoch := a, migratedSem := m, committedFlag := f\<rparr>)"

lemma other_fields:
  assumes "other e c"
  shows "ver c = ver e" "epoch c = (epoch e + 1) mod 2" "blocks c = blocks e" "mallocBufs c = mallocBufs e"
    "freeBufs c = freeBufs e" "syncCmds c = syncCmds e" "plugs c = plugs e" "nextblock c = nextblock e"
    "staticIn c = staticIn e" "staticOut c = staticOut e" "framesPerBuffer c = framesPerBuffer e"
    "timeseqResources c = timeseqResources e" "uninitialized c = uninitialized e"
    "evq c = evq e" "queues_ok c = queues_ok e" "playing c = playing e"
  using assms by (auto simp: other_def evq_def queues_ok_def uninitialized_def)

lemma other_hot:
  assumes "synced e" "edit_step e e1 M F" "other e1 c"
  shows "hot c = hot e" "epoch e1 = epoch e"
proof -
  have ep: "epoch e1 = epoch e" and v: "\<forall>k. k \<noteq> hotEpoch e \<longrightarrow> ver e1 k = ver e k"
    using assms(2) by (auto simp: edit_step_def frame_def)
  show "epoch e1 = epoch e" by (rule ep)
  have lt: "epoch e = 0 \<or> epoch e = 1" and eq: "ver e 0 = ver e 1" using assms(1) by (auto simp: synced_def)
  show "hot c = hot e"
    using lt eq v other_fields(1,2) [OF assms(3)] ep by (auto simp: hot_def hotEpoch_def)
qed

lemma session_commits:
  assumes sy: "synced e" and lg: "logged e e1 cs" and ot: "other e1 c"
  obtains c' F where "commit_cmds cs c = Some c'" "same e1 c'" "commit_step c c' F [] []"
    "spsc_inv (syncCmds c')" "cmds c' = []" "pinv c' []" "dom (plugs c') \<subseteq> dom (plugs c)"
    "frees e1 = F"
proof -
  note o = other_fields [OF ot]
  obtain M F where st: "edit_step e e1 M F" and cm: "commits e e1 cs M F" using lg by (auto simp: logged_def)
  have inv1: "einv e1" and pg: "plugs_grow e e1 (concat (map cmd_plugs cs))" and q: "cmds e1 = cs"
    using lg sy by (auto simp: logged_def synced_def)
  have h: "hot c = hot e" by (rule other_hot [OF sy st ot])
  have MF: "mallocs e1 = M" "frees e1 = F" using st sy by (simp_all add: edit_step_def synced_def)
  have own: "own e1" using inv1 by (simp add: einv_def)
  have s: "same e c" using h st by (simp add: same_def o edit_step_def frame_def uninitialized_def)
  moreover have "commit_ready c M F [] []"
    using own MF by (simp add: commit_ready_def o own_def)
  moreover have "kinds_ok e1 c" by (auto simp: kinds_ok_def o)
  moreover have "pinv c (concat (map cmd_plugs cs) @ [])"
  proof -
    let ?A = "concat (map cmd_plugs cs)"
    have p: "pinv e []" and lim: "\<forall>a \<ge> nextblock e. plugs e a = None"
      using sy by (auto simp: synced_def einv_def)
    have g: "get_node c = get_node e" by (rule get_node_hot [OF h])
    then have po: "plug_of c = plug_of e" by (simp add: plug_of_def fun_eq_iff)
    have hp: "has_plug c = has_plug e1" by (simp add: has_plug_def fun_eq_iff o)
    have grow: "\<And>a i. has_plug e a i \<Longrightarrow> has_plug c a i" and new: "distinct (map fst ?A)"
      "\<forall>(a, i) \<in> set ?A. nextblock e \<le> a \<and> has_plug c a i" using pg by (auto simp: plugs_grow_def hp)
    have "a < nextblock e" if "a \<in> ran (plug_of e)" for a
    proof -
      from that obtain k n where "get_node e k = Some n" "dynamic (ntype n)" "nargs n = a"
        by (auto simp: ran_def plug_of_def split: option.splits if_split_asm)
      then have "plugs e a \<noteq> None" using p by (auto simp: pinv_def has_plug_def)
      then show ?thesis using lim by (meson not_le)
    qed
    then have "ran (plug_of e) \<inter> fst ` set ?A = {}" using new(2) by fastforce
    moreover have "inj_on (plug_of e) (dom (plug_of e))" using p by (simp add: pinv_def)
    moreover have "has_plug c (nargs n) (ksiNodeTypeInlineId (ntype n))"
      if "get_node e k = Some n" "dynamic (ntype n)" for k n
      using p that grow by (simp add: pinv_def)
    moreover have "\<forall>(a, i) \<in> set ?A. has_plug c a i" using new(2) by blast
    ultimately show ?thesis using new(1) by (simp only: pinv_def po g append_Nil2) blast
  qed
  moreover have "spsc_inv (syncCmds c)" using inv1 by (simp add: o einv_def)
  moreover have "cmds c = cs @ []" using q by (simp add: cmds_def o)
  ultimately obtain c' where "commit_cmds cs c = Some c'" "same e1 c'" "commit_step c c' F [] []"
    "spsc_inv (syncCmds c')" "cmds c' = []" "pinv c' []" "dom (plugs c') \<subseteq> dom (plugs c)"
    using cm unfolding commits_def by blast
  then show ?thesis using that MF(2) by blast
qed

lemma commit_einv:
  assumes inv: "einv e1" and s: "same e1 c'" and st: "commit_step c c' F [] []" and ot: "other e1 c"
    and F: "frees e1 = F" and pl: "dom (plugs c') \<subseteq> dom (plugs c)" and q: "spsc_inv (syncCmds c')"
  shows "einv c'"
proof -
  note o = other_fields [OF ot]
  have g: "get_node c' = get_node e1" using same_get_node [OF s] by simp
  have sl: "slot c' = slot e1" by (simp add: slot_def fun_eq_iff g)
  have ty: "types_of c' = types_of e1" using same_fields(5) [OF s] by simp
  have own: "own e1" using inv by (simp add: einv_def)
  have d: "dom (blocks c') = dom (blocks e1) - set F" "evq c' = evq e1 - set F" "queues_ok c'"
    "frees c' = []" "nextblock c' = nextblock e1"
    using st by (simp_all add: commit_step_def o)
  have ran: "ran (slot e1) \<subseteq> dom (blocks e1) - set F" using own F by (simp add: own_def)
  show ?thesis
    unfolding einv_def
  proof (intro conjI allI impI)
    show "statics_ok c'" using inv s by (simp add: einv_def statics_ok_def same_def)
    show "own c'" using own ran d by (simp add: own_def sl)
    show "spsc_inv (syncCmds c')" by (rule q)
    show "get_node c' k = None" if "nnext (hot c') \<le> k" for k
      using that inv s by (simp add: g einv_def same_def)
    show "plugs c' k = None" if "nextblock c' \<le> k" for k
    proof -
      have "plugs e1 k = None" using that inv d(5) by (simp add: einv_def)
      then show ?thesis using pl o(7) by (metis domIff subset_iff)
    qed
    fix p n assume n: "get_node c' p = Some n"
    have ok: "node_ok e1 n" using n inv by (simp add: einv_def g)
    have "outs_known c' n" if "outs_known e1 n"
      unfolding outs_known_def
    proof (intro allI impI)
      fix i t ob
      assume t: "get_at (types_of c' (outputTypes n)) i = Some t" and ob: "get_at (outputBuffer n) i = Some ob"
        and ev: "is_event t"
      then have "ob \<in> evq e1" using that by (simp add: outs_known_def ty)
      moreover from this have "ob \<noteq> NULL"
        using own by (intro notI) (simp add: evq_def own_def queues_ok_def)
      then have "slot e1 (p, Inr (nat i)) = Some ob"
        using n ob by (auto simp: slot_def g slot_of_def get_at_eq_Some)
      then have "ob \<notin> set F" using ran by (blast intro: ranI)
      ultimately show "ob \<in> evq c'" by (simp add: d(2))
    qed
    then show "node_ok c' n" using ok by (simp add: node_ok_def)
  qed
qed

lemma session_synced:
  assumes sy: "synced e" and lg: "logged e e1 cs" and ot: "other e1 c" and fl: "\<not> committedFlag c"
    and run: "commit_cmds cs c = Some c'" "same e1 c'" "commit_step c c' F [] []"
      "spsc_inv (syncCmds c')" "cmds c' = []" "pinv c' []" "dom (plugs c') \<subseteq> dom (plugs c)" "frees e1 = F"
  shows "synced c'" "ver c' 0 = hot e1"
proof -
  note o = other_fields [OF ot]
  obtain M G where st: "edit_step e e1 M G" using lg by (auto simp: logged_def)
  have inv1: "einv e1" using lg by (simp add: logged_def)
  have ep: "epoch e1 = 0 \<or> epoch e1 = 1"
    using other_hot(2) [OF sy st ot] sy by (auto simp: synced_def)
  have f: "epoch c' = epoch c" "\<forall>k. k \<noteq> hotEpoch c \<longrightarrow> ver c' k = ver c k" "committedFlag c' = committedFlag c"
    "mallocs c' = []" "frees c' = []" using run(3) by (auto simp: commit_step_def frame_def)
  have h: "hot c' = hot e1" using run(2) by (simp add: same_def)
  have v: "ver c' 0 = hot e1" "ver c' 1 = hot e1"
    using ep f(1,2) h o(1,2) by (auto simp: hot_def hotEpoch_def)
  show "ver c' 0 = hot e1" by (rule v)
  have "uninitialized c' = uninitialized e1" using run(2) by (simp add: same_def)
  also have "\<dots> = uninitialized e" using st by (simp add: edit_step_def frame_def uninitialized_def)
  finally have "\<not> uninitialized c'" using sy by (simp add: synced_def)
  moreover have "einv c'" by (rule commit_einv [OF inv1 run(2,3) ot run(8,7,4)])
  moreover have "epoch c' < 2" using f(1) o(2) by simp
  ultimately show "synced c'" using v run(5,6) f(3-5) fl by (simp add: synced_def)
qed

lemma synced_syncCmds: "synced e \<Longrightarrow> spsc_inv q \<Longrightarrow> spsc_list q = [] \<Longrightarrow> synced (e\<lparr>syncCmds := q\<rparr>)"
proof -
  have "plug_of (e\<lparr>syncCmds := q\<rparr>) = plug_of e" by (simp add: plug_of_def fun_eq_iff)
  then show "synced e \<Longrightarrow> spsc_inv q \<Longrightarrow> spsc_list q = [] \<Longrightarrow> synced (e\<lparr>syncCmds := q\<rparr>)"
    using einv_send [of e q] by (simp add: synced_def cmds_def pinv_def)
qed

lemma await_migration_ok:
  assumes "playing e = ksiEnginePlaying \<Longrightarrow> epoch e \<noteq> audioEpoch e \<Longrightarrow> driver_env e \<Longrightarrow> 0 < migratedSem e"
  shows "\<exists>x y. await_migration e = Some (e\<lparr>audioEpoch := x, migratedSem := y\<rparr>)"
proof (cases "playing e = ksiEnginePlaying \<and> epoch e \<noteq> audioEpoch e \<and> driver_env e")
  case True
  then obtain k where "migratedSem e = Suc k" using assms by (cases "migratedSem e") auto
  then show ?thesis using True
    by (intro exI [of _ "audioEpoch e"] exI [of _ k]) (simp add: await_migration_def ksiSemWait_def)
next
  case False
  then consider "playing e \<noteq> ksiEnginePlaying"
    | "playing e = ksiEnginePlaying" "\<not> (epoch e \<noteq> audioEpoch e \<and> driver_env e)" by blast
  then show ?thesis
  proof cases
    case 1
    then show ?thesis
      by (intro exI [of _ "(epoch e + 1) mod 2"] exI [of _ "migratedSem e"]) (simp add: await_migration_def)
  next
    case 2
    then show ?thesis
      by (intro exI [of _ "audioEpoch e"] exI [of _ "migratedSem e"]) (auto simp: await_migration_def)
  qed
qed

section \<open>Properties\<close>

lemma einv_init: "einv (ksiEngineInit fb fs)"
proof -
  let ?e = "ksiEngineInit fb fs"
  have g: "get_node ?e = Map.empty"
    by (simp add: fun_eq_iff get_node_def hot_def ksiEngineInit_def empty_version_def)
  have "slot ?e = Map.empty" by (simp add: fun_eq_iff slot_def g split: prod.splits)
  then have "own ?e"
    by (simp add: own_def queues_ok_def ksiEngineInit_def spsc_inv_init spsc_list_init)
  moreover have "statics_ok ?e"
    by (auto simp: statics_ok_def ksiEngineInit_def initPorts_def)
  ultimately show ?thesis
    by (simp add: einv_def g) (simp add: ksiEngineInit_def spsc_inv_init)
qed

lemma synced_init: "synced (ksiEngineInit fb fs)"
proof -
  let ?e = "ksiEngineInit fb fs"
  have g: "plug_of ?e = Map.empty" and g': "get_node ?e = Map.empty"
    by (simp_all add: fun_eq_iff plug_of_def get_node_def hot_def ksiEngineInit_def empty_version_def)
  show ?thesis using einv_init [of fb fs]
    by (simp add: synced_def pinv_def g g' cmds_def)
      (simp add: ksiEngineInit_def spsc_list_init uninitialized_def ksiEngineUninitialized_def)
qed

lemma session_round:
  assumes "synced e" "edits calls e = Some (rets, e1)" "set rets \<inter> unclean = {}"
  shows "\<exists>e2. ksiEngineCommit e1 = Some (ksiErrorNone, e2) \<and>
    (if qhead (syncCmds e1) = qtail (syncCmds e1) then e2 = e1 \<and> hot e1 = hot e
     else \<forall>a m. (playing e = ksiEnginePlaying \<and> driver_env e \<and> epoch e2 \<noteq> a \<longrightarrow> 0 < m) \<longrightarrow>
       (\<exists>e3. ksiMVCCCommitter_round (e2\<lparr>audioEpoch := a, migratedSem := m\<rparr>) = Some e3 \<and>
             synced e3 \<and> ver e3 0 = hot e1))"
proof -
  have inv: "einv e" using assms(1) by (simp add: synced_def)
  obtain cs where lg: "logged e e1 cs" using edits_logged [OF inv assms(2,3)] ..
  then obtain M F where st: "edit_step e e1 M F" by (auto simp: logged_def)
  have f: "uninitialized e1 = uninitialized e" "committedFlag e1 = committedFlag e" "playing e1 = playing e"
    "driver_env e1 = driver_env e" "epoch e1 = epoch e"
    using st by (simp_all add: edit_step_def frame_def uninitialized_def)
  have nu: "\<not> uninitialized e1" "\<not> committedFlag e1" using f assms(1) by (simp_all add: synced_def)
  have inv1: "einv e1" and q: "cmds e1 = cs" and ni: "ksiDagEditInvalid \<notin> set cs"
    using lg assms(1) by (auto simp: logged_def synced_def)
  have sq: "spsc_inv (syncCmds e1)" using inv1 by (simp add: einv_def)
  show ?thesis
  proof (cases "qhead (syncCmds e1) = qtail (syncCmds e1)")
    case True
    then have "cs = []" using spsc_empty_iff [OF sq] q by (simp add: cmds_def)
    let ?c = "e1\<lparr>epoch := (epoch e1 + 1) mod 2\<rparr>"
    have ot: "other e1 ?c" unfolding other_def
      by (intro exI [of _ "committingSem e1"] exI [of _ "committedFlag e1"] exI [of _ "audioEpoch e1"]
          exI [of _ "migratedSem e1"]) simp
    obtain c' where c': "commit_cmds cs ?c = Some c'" "same e1 c'"
      by (rule session_commits [OF assms(1) lg ot]) blast
    then have "same e1 ?c" using \<open>cs = []\<close> by simp
    then have "hot e1 = hot ?c" unfolding same_def by blast
    then have "hot e1 = hot e" using other_hot(1) [OF assms(1) st ot] by (rule trans)
    then show ?thesis using True nu by (simp add: ksiEngineCommit_def)
  next
    case False
    define e2 where "e2 = e1\<lparr>committedFlag := True, epoch := (epoch e1 + 1) mod 2,
      committingSem := Suc (committingSem e1)\<rparr>"
    have com: "ksiEngineCommit e1 = Some (ksiErrorNone, e2)"
      using False nu by (simp add: ksiEngineCommit_def ksiCondWait_def ksiCondSetWait_def ksiSemPost_def e2_def)
    have "\<exists>e3. ksiMVCCCommitter_round (e2\<lparr>audioEpoch := a, migratedSem := m\<rparr>) = Some e3 \<and>
             synced e3 \<and> ver e3 0 = hot e1"
      if am: "playing e = ksiEnginePlaying \<and> driver_env e \<and> epoch e2 \<noteq> a \<longrightarrow> 0 < m" for a m
    proof -
      let ?e = "e2\<lparr>audioEpoch := a, migratedSem := m, committingSem := committingSem e1\<rparr>"
      have "playing ?e = playing e" "driver_env ?e = driver_env e" "epoch ?e = epoch e2" using f(3,4) by (simp_all add: e2_def)
      then obtain x y where w: "await_migration ?e = Some (?e\<lparr>audioEpoch := x, migratedSem := y\<rparr>)"
        using await_migration_ok [of ?e] am by auto
      let ?c = "e1\<lparr>epoch := (epoch e1 + 1) mod 2, committingSem := committingSem e1,
        audioEpoch := x, migratedSem := y, committedFlag := False\<rparr>"
      have ot: "other e1 ?c" unfolding other_def by blast
      obtain c' F where c': "commit_cmds cs ?c = Some c'" "same e1 c'" "commit_step ?c c' F [] []"
        "spsc_inv (syncCmds c')" "cmds c' = []" "pinv c' []" "dom (plugs c') \<subseteq> dom (plugs ?c)" "frees e1 = F"
        by (rule session_commits [OF assms(1) lg ot])
      have sy: "synced c'" "ver c' 0 = hot e1" by (rule session_synced [OF assms(1) lg ot _ c'], simp)+
      obtain sc where sc: "commit_loop ?c = Some (c'\<lparr>syncCmds := sc\<rparr>)" "spsc_inv sc" "spsc_list sc = []"
        using commit_loop_cmds [OF c'(1) ni c'(4,5)] by blast
      have "ksiMVCCCommitter_round (e2\<lparr>audioEpoch := a, migratedSem := m\<rparr>) = commit_loop ?c"
        using w by (simp add: ksiMVCCCommitter_round_def ksiSemWait_def ksiCondSignal_def e2_def)
      then show ?thesis using sc synced_syncCmds [OF sy(1) sc(2,3)] sy(2) by auto
    qed
    then show ?thesis using com False by auto
  qed
qed

text \<open>A session that queues nothing has left the engine synced.\<close>

lemma session_empty:
  assumes sy: "synced e" and run: "edits calls e = Some (rets, e1)" "set rets \<inter> unclean = {}"
    and empty: "qhead (syncCmds e1) = qtail (syncCmds e1)"
  shows "synced e1"
proof -
  obtain cs where lg: "logged e e1 cs" using edits_logged [OF _ run] sy by (auto simp: synced_def)
  then obtain M F where st: "edit_step e e1 M F" and inv1: "einv e1" and q: "cmds e1 = cs"
    using sy by (auto simp: logged_def synced_def)
  have "spsc_inv (syncCmds e1)" using inv1 by (simp add: einv_def)
  then have cs: "cs = []" using spsc_empty_iff [of "syncCmds e1"] empty q by (simp add: cmds_def)
  let ?c = "e1\<lparr>epoch := (epoch e1 + 1) mod 2, committedFlag := False\<rparr>"
  have ot: "other e1 ?c" unfolding other_def
    by (intro exI [of _ "committingSem e1"] exI [of _ False] exI [of _ "audioEpoch e1"] exI [of _ "migratedSem e1"]) simp
  obtain c' G where c': "commit_cmds cs ?c = Some c'" "same e1 c'" "commit_step ?c c' G [] []"
    "spsc_inv (syncCmds c')" "cmds c' = []" "pinv c' []" "dom (plugs c') \<subseteq> dom (plugs ?c)" "frees e1 = G"
    by (rule session_commits [OF sy lg ot])
  have syc: "synced c'" "ver c' 0 = hot e1" by (rule session_synced [OF sy lg ot _ c'], simp)+
  have eq: "c' = ?c" using c'(1) cs by simp
  have "get_node c' = get_node e1" using same_get_node [OF c'(2)] by simp
  then have "plug_of c' = plug_of e1" "get_node c' = get_node e1" by (simp_all add: plug_of_def fun_eq_iff)
  then have "pinv e1 []" using c'(6) eq by (simp add: pinv_def has_plug_def)
  moreover have "ver e1 0 = ver e1 1" "mallocs e1 = []" "frees e1 = []" "\<not> uninitialized e1"
    using syc eq by (simp_all add: synced_def uninitialized_def)
  moreover have "committedFlag e1 = committedFlag e" "epoch e1 = epoch e"
    using st by (simp_all add: edit_step_def frame_def)
  ultimately show ?thesis using sy inv1 q cs by (simp add: synced_def)
qed

text \<open>The states between sessions: calls of the editor, a commit, the acknowledgement of the audio
  threads and the committer's round, any number of times.\<close>

inductive between_sessions :: "KsiEngine \<Rightarrow> bool" where
  start: "between_sessions (ksiEngineInit fb fs)"
| session: "between_sessions e \<Longrightarrow> edits calls e = Some (rets, e1) \<Longrightarrow> set rets \<inter> unclean = {} \<Longrightarrow>
    ksiEngineCommit e1 = Some (ret, e2) \<Longrightarrow> e2 \<noteq> e1 \<Longrightarrow>
    ksiMVCCCommitter_round (e2\<lparr>audioEpoch := a, migratedSem := m\<rparr>) = Some e3 \<Longrightarrow> between_sessions e3"

lemma await_migration_needs:
  "playing e = ksiEnginePlaying \<Longrightarrow> driver_env e \<Longrightarrow> epoch e \<noteq> audioEpoch e \<Longrightarrow> await_migration e = Some e' \<Longrightarrow>
    0 < migratedSem e"
  by (cases "migratedSem e") (simp_all add: await_migration_def ksiSemWait_def)

lemma round_synced:
  assumes "synced e" "edits calls e = Some (rets, e1)" "set rets \<inter> unclean = {}"
    "ksiEngineCommit e1 = Some (ret, e2)" "e2 \<noteq> e1"
    "ksiMVCCCommitter_round (e2\<lparr>audioEpoch := a, migratedSem := m\<rparr>) = Some e3"
  shows "synced e3"
proof -
  note r = session_round [OF assms(1-3)]
  have e2: "ksiEngineCommit e1 = Some (ksiErrorNone, e2)" "qhead (syncCmds e1) \<noteq> qtail (syncCmds e1)"
    using r assms(4,5) by (auto split: if_split_asm)
  obtain cs where "logged e e1 cs" using edits_logged [OF _ assms(2,3)] assms(1) by (auto simp: synced_def)
  then have f: "playing e1 = playing e" "driver_env e1 = driver_env e"
    by (auto simp: logged_def edit_step_def frame_def)
  have p: "playing e2 = playing e" "driver_env e2 = driver_env e"
    using e2 f by (auto simp: ksiEngineCommit_def ksiCondWait_def ksiCondSetWait_def split: if_split_asm)
  have am: "playing e = ksiEnginePlaying \<and> driver_env e \<and> epoch e2 \<noteq> a \<longrightarrow> 0 < m"
  proof (intro impI, elim conjE)
    assume pl: "playing e = ksiEnginePlaying" "driver_env e" "epoch e2 \<noteq> a"
    from assms(6) obtain s k where "await_migration (e2\<lparr>audioEpoch := a, migratedSem := m, committingSem := s\<rparr>) = Some k"
      by (auto simp: ksiMVCCCommitter_round_def bind_eq_Some_conv)
    from await_migration_needs [OF _ _ _ this] show "0 < m" using pl p by simp
  qed
  from r obtain k where k: "ksiEngineCommit e1 = Some (ksiErrorNone, k)"
    and alt: "if qhead (syncCmds e1) = qtail (syncCmds e1) then k = e1 \<and> hot e1 = hot e
     else \<forall>a m. (playing e = ksiEnginePlaying \<and> driver_env e \<and> epoch k \<noteq> a \<longrightarrow> 0 < m) \<longrightarrow>
       (\<exists>e3. ksiMVCCCommitter_round (k\<lparr>audioEpoch := a, migratedSem := m\<rparr>) = Some e3 \<and>
             synced e3 \<and> ver e3 0 = hot e1)" by blast
  have "k = e2" using k e2(1) by simp
  then obtain e4 where "ksiMVCCCommitter_round (e2\<lparr>audioEpoch := a, migratedSem := m\<rparr>) = Some e4" "synced e4"
    using alt e2(2) am by (simp only: if_False) blast
  then show ?thesis using assms(6) by simp
qed

lemma between_sessions_synced: "between_sessions e \<Longrightarrow> synced e"
  by (induction rule: between_sessions.induct) (rule synced_init, rule round_synced)





lemma edit_error:
  assumes "edit call e = Some (ret, e')" "ret \<noteq> ksiErrorNone" "ret \<notin> unclean"
  shows "e' = e"
proof (cases call)
  case (AddNode t x)
  then show ?thesis using assms cleanD [OF AddNode_clean, of e t x]
    by (auto simp: edit_def ksiEngineAddNode_def ksiCondWait_def bind_eq_Some_conv split: if_split_asm)
next
  case (RemoveNode i)
  then show ?thesis using assms cleanD [OF RemoveNode_clean, of e i]
    by (auto simp: edit_def ksiEngineRemoveNode_def ksiCondWait_def bind_eq_Some_conv split: if_split_asm)
next
  case (SendEditingCommand i x)
  then show ?thesis using assms
    by (auto simp: edit_def ksiEngineSendEditingCommand_def bind_eq_Some_conv)
next
  case (MakeWire s sp d dp g)
  then show ?thesis
    using assms(1) by (simp add: edit_def ksiEngineMakeWire_def call_error [OF _ MakeWire_clean assms(2,3)])
next
  case (MakeBias d dp g)
  then show ?thesis
    using assms(1) by (simp add: edit_def ksiEngineMakeBias_def call_error [OF _ MakeBias_clean assms(2,3)])
next
  case (DetachNodes s d)
  then show ?thesis
    using assms(1) by (simp add: edit_def ksiEngineDetachNodes_def call_error [OF _ DetachNodes_clean assms(2,3)])
next
  case (RemoveWire s sp d dp)
  then show ?thesis
    using assms(1) by (simp add: edit_def ksiEngineRemoveWire_def call_error [OF _ RemoveWire_clean assms(2,3)])
qed

text \<open>C3: a call that reports an error other than those two has changed nothing at all.\<close>

theorem edit_error_changes_nothing:
  assumes "edit call e = Some (ret, e')" "ret \<noteq> ksiErrorNone" "ret \<notin> unclean"
  shows "e' = e"
  by (rule edit_error [OF assms])

lemma edit_error_changes_nothing_witness:
  "edit (MakeBias 0 7 0) (ksiEngineInit 64 48000) = Some (ksiErrorIdNotFound, ksiEngineInit 64 48000)"
proof -
  have "map_option fst (edit (MakeBias 0 7 0) (ksiEngineInit 64 48000)) = Some ksiErrorIdNotFound"
    by code_simp
  then obtain e' where e': "edit (MakeBias 0 7 0) (ksiEngineInit 64 48000) = Some (ksiErrorIdNotFound, e')" by auto
  then show ?thesis using edit_error_changes_nothing [OF e'] by (simp add: unclean_def)
qed


end
