(* ===== verification/Session.thy ===== *)
theory Session
  imports Daemon Sync
begin

text \<open>
  The interpreter and the daemon on top of the editor's calls and the committer: a line is one
  call, and a batch of lines is a session whose commit the committer completes.
\<close>

section \<open>What a line leaves alone\<close>

definition verdict_err :: "verdict \<Rightarrow> KsiError" where
  "verdict_err v = (case v of Illegal cmd t \<Rightarrow> ksiErrorSyntax | Failed cmd err t \<Rightarrow> err | _ \<Rightarrow> ksiErrorNone)"

lemma verdict_err_simps [simp]:
  "verdict_err Fine = ksiErrorNone" "verdict_err (Illegal cmd t) = ksiErrorSyntax" "verdict_err (Failed cmd err t) = err"
  "verdict_err (rt cmd err) = err" "verdict_err (bad_format cmd) = ksiErrorSyntax"
  "rt cmd err \<noteq> QuitLine" "rt cmd err \<noteq> InFile" "bad_format cmd \<noteq> QuitLine" "bad_format cmd \<noteq> InFile"
  by (simp_all add: verdict_err_def rt_def bad_format_def)

lemma say_frame: "say env t w = Some w' \<Longrightarrow> \<exists>l. w' = w\<lparr>wlog := l\<rparr>"
  by (auto simp: say_def bind_eq_Some_conv split: if_split_asm intro: exI [of _ "wlog w"])

lemma conclude_frame:
  assumes "conclude env v w = Some (r, w')"
  shows "wengine w' = wengine w" "wpool w' = wpool w" "wtrees w' = wtrees w" "wid w' = wid w"
    "r = (if v = QuitLine then 1 else 0)"
    "werr w' = (if verdict_err v = ksiErrorNone then (case v of Failed _ _ _ \<Rightarrow> ksiErrorNone | _ \<Rightarrow> werr w) else verdict_err v)"
  using assms
  by (auto simp: conclude_def Let_def bind_eq_Some_conv verdict_err_def split: verdict.splits option.splits dest!: say_frame)

section \<open>A line is a call\<close>

text \<open>The verdict is an error found before any call, or that of one call of the editor.\<close>

definition made_call :: "verdict \<Rightarrow> cmd_world \<Rightarrow> cmd_world \<Rightarrow> bool" where
  "made_call v w w' \<longleftrightarrow> v \<noteq> QuitLine \<and> v \<noteq> InFile \<and> wpool w' = wpool w \<and> wtrees w' = wtrees w \<and> werr w' = werr w \<and>
     (wengine w' = wengine w \<and> verdict_err v \<notin> insert ksiErrorNone unclean \<or>
      (\<exists>e call e'. wengine w = Some e \<and> wengine w' = Some e' \<and> edit call e = Some (verdict_err v, e')))"

definition calls_only :: "(verdict \<times> cmd_world) option \<Rightarrow> cmd_world \<Rightarrow> bool" where
  "calls_only m w \<longleftrightarrow> (\<forall>v w'. m = Some (v, w') \<longrightarrow> made_call v w w')"

named_theorems call_intros \<open>a case of the switch makes at most one call\<close>

lemma calls_only_bind [call_intros]: "(\<And>x. m = Some x \<Longrightarrow> calls_only (f x) w) \<Longrightarrow> calls_only (m \<bind> f) w"
  by (auto simp: calls_only_def bind_eq_Some_conv)

lemma calls_only_bad [call_intros]: "calls_only (Some (bad_format cmd, w)) w"
  "calls_only (Some (Illegal cmd t, w)) w" "calls_only None w"
  "err \<notin> insert ksiErrorNone unclean \<Longrightarrow> calls_only (Some (Failed cmd err t, w)) w"
  by (simp_all add: calls_only_def made_call_def unclean_def)

lemma calls_only_engine:
  assumes "\<And>e. f e = edit call e" "wengine w0 = wengine w \<and> wpool w0 = wpool w \<and> wtrees w0 = wtrees w \<and> werr w0 = werr w"
    "\<And>err. verdict_err (g err) = err \<and> g err \<noteq> QuitLine \<and> g err \<noteq> InFile"
  shows "calls_only (do { (err, w) \<leftarrow> on_engine f w0; Some (g err, w) }) w"
  using assms unfolding calls_only_def made_call_def on_engine_def by (auto simp: bind_eq_Some_conv)

lemma calls_only_edit [call_intros]:
  "calls_only (do { (err, w) \<leftarrow> on_engine (\<lambda>e. ksiEngineDetachNodes e s d) w; Some (rt cmd err, w) }) w"
  "calls_only (do { (err, w) \<leftarrow> on_engine (\<lambda>e. ksiEngineRemoveNode e s) w; Some (rt cmd err, w) }) w"
  "calls_only (do { (err, w) \<leftarrow> on_engine (\<lambda>e. ksiEngineRemoveWire e s sp d dp) w; Some (rt cmd err, w) }) w"
  "calls_only (do { (err, w) \<leftarrow> on_engine (\<lambda>e. ksiEngineMakeWire e s sp d dp g) w; Some (rt cmd err, w) }) w"
  "calls_only (do { (err, w) \<leftarrow> on_engine (\<lambda>e. ksiEngineMakeBias e d dp g) w; Some (rt cmd err, w) }) w"
  "calls_only (do { (err, w) \<leftarrow> on_engine (\<lambda>e. ksiEngineSendEditingCommand e i x) (if h then w\<lparr>wid := i\<rparr> else w);
     Some (if err = ksiErrorSyntax then Illegal cmd None else rt cmd err, w) }) w"
proof -
  show "calls_only (do { (err, w) \<leftarrow> on_engine (\<lambda>e. ksiEngineDetachNodes e s d) w; Some (rt cmd err, w) }) w"
    by (rule calls_only_engine [where call = "DetachNodes s d"]) (simp_all add: edit_def)
  show "calls_only (do { (err, w) \<leftarrow> on_engine (\<lambda>e. ksiEngineRemoveNode e s) w; Some (rt cmd err, w) }) w"
    by (rule calls_only_engine [where call = "RemoveNode s"]) (simp_all add: edit_def)
  show "calls_only (do { (err, w) \<leftarrow> on_engine (\<lambda>e. ksiEngineRemoveWire e s sp d dp) w; Some (rt cmd err, w) }) w"
    by (rule calls_only_engine [where call = "RemoveWire s sp d dp"]) (simp_all add: edit_def)
  show "calls_only (do { (err, w) \<leftarrow> on_engine (\<lambda>e. ksiEngineMakeWire e s sp d dp g) w; Some (rt cmd err, w) }) w"
    by (rule calls_only_engine [where call = "MakeWire s sp d dp g"]) (simp_all add: edit_def)
  show "calls_only (do { (err, w) \<leftarrow> on_engine (\<lambda>e. ksiEngineMakeBias e d dp g) w; Some (rt cmd err, w) }) w"
    by (rule calls_only_engine [where call = "MakeBias d dp g"]) (simp_all add: edit_def)
  show "calls_only (do { (err, w) \<leftarrow> on_engine (\<lambda>e. ksiEngineSendEditingCommand e i x) (if h then w\<lparr>wid := i\<rparr> else w);
     Some (if err = ksiErrorSyntax then Illegal cmd None else rt cmd err, w) }) w"
    by (rule calls_only_engine [where call = "SendEditingCommand i x"]) (simp_all add: edit_def)
qed

lemma calls_only_with_gain [call_intros]:
  assumes "\<And>g. calls_only (do { (err, w) \<leftarrow> on_engine (call g) w; Some (rt cmd err, w) }) w"
  shows "calls_only (with_gain cmd i port text call w) w"
proof -
  have "w1 = w \<and> (err = ksiErrorNone \<or> err \<notin> insert ksiErrorNone unclean)"
    if "on_engine (\<lambda>e. ksiEngineGetInputType e i port) w = Some ((err, t), w1)" for err t w1
    using that by (auto simp: on_engine_def ksiEngineGetInputType_def ksiCondWait_def bind_eq_Some_conv unclean_def
        split: if_split_asm)
  then show ?thesis unfolding with_gain_def
    by (intro calls_only_bind) (auto intro!: calls_only_bind assms call_intros split: option.split)
qed

lemma add_node_calls:
  "calls_only (do {
     ((err, i), w) \<leftarrow> on_engine (\<lambda>e. ksiEngineAddNode e type []) w;
     (if err \<noteq> ksiErrorNone then Some (Failed cmd err None, w)
      else do { w \<leftarrow> say env (t i) (if h then w\<lparr>wid := i\<rparr> else w); Some (Fine, w) })
   }) w"
  unfolding calls_only_def
proof (intro allI impI)
  fix v w'
  assume "do {
     ((err, i), w) \<leftarrow> on_engine (\<lambda>e. ksiEngineAddNode e type []) w;
     (if err \<noteq> ksiErrorNone then Some (Failed cmd err None, w)
      else do { w \<leftarrow> say env (t i) (if h then w\<lparr>wid := i\<rparr> else w); Some (Fine, w) })
   } = Some (v, w')"
  then obtain e err i e' where e: "wengine w = Some e" "ksiEngineAddNode e type [] = Some ((err, i), e')"
    and r: "(if err \<noteq> ksiErrorNone then Some (Failed cmd err None, w\<lparr>wengine := Some e'\<rparr>)
      else do { w \<leftarrow> say env (t i) (if h then w\<lparr>wengine := Some e', wid := i\<rparr> else w\<lparr>wengine := Some e'\<rparr>); Some (Fine, w) }) =
      Some (v, w')"
    by (auto simp: on_engine_def bind_eq_Some_conv)
  have c: "edit (AddNode type []) e = Some (err, e')" using e(2) by (simp add: edit_def)
  from r have "verdict_err v = err \<and> v \<noteq> QuitLine \<and> v \<noteq> InFile \<and> wengine w' = Some e' \<and> wpool w' = wpool w \<and>
      wtrees w' = wtrees w \<and> werr w' = werr w"
    by (auto simp: bind_eq_Some_conv split: if_split_asm dest!: say_frame)
  with c e(1) show "made_call v w w'" unfolding made_call_def by blast
qed

lemma new_node_calls [call_intros]: "calls_only (new_node env h args w) w"
  unfolding new_node_def
  by (intro calls_only_bind)
    (auto intro!: calls_only_bind add_node_calls simp: Let_def call_intros split: list.split item.split option.split)

lemma verb_calls [call_intros]:
  "calls_only (detach_nodes args w) w" "calls_only (remove_node args w) w" "calls_only (remove_wire args w) w"
  "calls_only (make_wire args w) w" "calls_only (make_bias args w) w" "calls_only (edit_node h args w) w"
proof -
  show "calls_only (detach_nodes args w) w"
    unfolding detach_nodes_def by (rule calls_only_bind) (simp add: call_intros split: list.split item.split)
  show "calls_only (remove_node args w) w"
    unfolding remove_node_def by (rule calls_only_bind) (simp add: call_intros split: list.split item.split)
  show "calls_only (remove_wire args w) w"
    unfolding remove_wire_def by (rule calls_only_bind) (simp add: call_intros split: list.split item.split)
  show "calls_only (make_wire args w) w"
    unfolding make_wire_def by (rule calls_only_bind) (simp add: call_intros split: list.split item.split)
  show "calls_only (make_bias args w) w"
    unfolding make_bias_def by (rule calls_only_bind) (simp add: call_intros split: list.split item.split)
  show "calls_only (edit_node h args w) w"
    unfolding edit_node_def by (rule calls_only_bind) (auto simp: call_intros split: list.split item.split intro!: calls_only_bind)
qed

section \<open>Lines and batches\<close>

definition edit_line :: "string \<Rightarrow> bool" where
  "edit_line line = (case line of c # args \<Rightarrow> c \<in> set ''nwdrube'' | [] \<Rightarrow> False)"

lemma perform_calls:
  assumes "edit_line line"
  shows "calls_only (perform consume env h line w) w"
proof -
  obtain c args where l: "line = c # args" "c \<in> set ''nwdrube''"
    using assms by (cases line) (auto simp: edit_line_def)
  then consider "c = CHR ''n''" | "c = CHR ''w''" | "c = CHR ''d''" | "c = CHR ''r''" | "c = CHR ''u''" | "c = CHR ''b''" | "c = CHR ''e''"
    by auto
  then show ?thesis by cases (simp_all add: perform_def l(1) call_intros)
qed

lemma line_call:
  assumes "edit_line line" "consume_line d env h line w = Some (r, w')" "werr w = ksiErrorNone"
  shows "r = 0 \<and> wpool w' = wpool w \<and> wtrees w' = wtrees w \<and>
    (wengine w' = wengine w \<and> werr w' \<notin> insert ksiErrorNone unclean \<or>
     (\<exists>e call e'. wengine w = Some e \<and> wengine w' = Some e' \<and> edit call e = Some (werr w', e')))"
proof -
  obtain v w1 where p: "perform (consume_file d env) env h line w = Some (v, w1)" "conclude env v w1 = Some (r, w')"
    using assms(2) by (auto simp: consume_line.simps bind_eq_Some_conv)
  have m: "made_call v w w1" using perform_calls [OF assms(1)] p(1) unfolding calls_only_def by blast
  have "werr w' = verdict_err v"
    using conclude_frame(6) [OF p(2)] m assms(3) by (auto simp: made_call_def split: verdict.splits)
  then show ?thesis using m conclude_frame(1-3,5) [OF p(2)] unfolding made_call_def by auto
qed

text \<open>A reply starts with the number of the error.\<close>

definition reports :: "string \<Rightarrow> KsiError \<Rightarrow> bool" where
  "reports r err = (\<exists>t. r = show_nat (error_code err) @ '';'' @ t)"

lemma reply_frame:
  assumes "reply c w = Some (r, w')"
  shows "wengine w' = wengine w" "wpool w' = wpool w" "wtrees w' = wtrees w" "werr w' = werr w" "reports r (werr w)"
  using assms by (auto simp: reply_def Let_def reports_def bind_eq_Some_conv split: if_split_asm)

lemma daemon_run_append:
  "daemon_run d env (xs @ ys) s =
     do { (go, s) \<leftarrow> daemon_run d env xs s; (if go then daemon_run d env ys s else Some (False, s)) }"
proof (induction xs arbitrary: s)
  case (Cons ev xs)
  show ?case by (cases ev) (auto simp: Cons.IH split: Option.bind_splits)
qed simp

text \<open>Lines within a batch: the calls they make, with the errors they report.\<close>

lemma batch_lines:
  assumes "daemon_run d env (map Line ls) s = Some (go, s')" "\<forall>l \<in> set ls. edit_line l"
    "current_in_scope s" "werr (dworld s) = ksiErrorNone" "wengine (dworld s) = Some e"
    "\<forall>r \<in> set (replies s'). \<forall>err \<in> unclean. \<not> reports r err"
  shows "go \<and> current_in_scope s' \<and> werr (dworld s') = ksiErrorNone \<and>
    List.length (replies s') = List.length (replies s) + List.length ls \<and> set (replies s) \<subseteq> set (replies s') \<and>
    (\<exists>calls rets e'. edits calls e = Some (rets, e') \<and> set rets \<inter> unclean = {} \<and> wengine (dworld s') = Some e')"
  using assms
proof (induction ls arbitrary: s e)
  case Nil
  then show ?case by (auto intro!: exI [of _ "[]"])
next
  case (Cons l ls)
  have l: "edit_line l" and ls: "\<forall>l \<in> set ls. edit_line l" using Cons.prems(2) by simp_all
  obtain c args where c: "l = c # args" "c \<noteq> CHR ''{''" "c \<noteq> CHR ''}''"
    using l by (cases l) (auto simp: edit_line_def)
  obtain r w1 where w1: "consume_line d env True l (dworld s) = Some (r, w1)"
    using Cons.prems(1) c by (auto simp: fifo_handler_def bind_eq_Some_conv)
  note lc = line_call [OF l w1 Cons.prems(4)]
  obtain s1 where s1: "answer c (s\<lparr>dworld := w1\<rparr>) = Some s1" and run: "daemon_run d env (map Line ls) s1 = Some (go, s')"
    using Cons.prems(1) c w1 lc by (auto simp: fifo_handler_def bind_eq_Some_conv)
  obtain t w2 where t: "reply c w1 = Some (t, w2)" "s1 = s\<lparr>dworld := w2\<lparr>werr := ksiErrorNone\<rparr>, replies := replies s @ [t]\<rparr>"
    using s1 Cons.prems(3) by (auto simp: answer_def bind_eq_Some_conv)
  note tf = reply_frame [OF t(1)]
  obtain e1 where e1: "wengine w1 = Some e1" and ed: "e1 = e \<or> (\<exists>call. edit call e = Some (werr w1, e1))"
    using lc Cons.prems(5) by auto
  have s1f: "current_in_scope s1" "werr (dworld s1) = ksiErrorNone" "wengine (dworld s1) = Some e1"
    using t tf e1 Cons.prems(3) by simp_all
  note IH = Cons.IH [OF run ls s1f Cons.prems(6)]
  then obtain calls rets e' where cs: "edits calls e1 = Some (rets, e')" "set rets \<inter> unclean = {}" "wengine (dworld s') = Some e'"
    by blast
  have "t \<in> set (replies s')" using IH t(2) by auto
  then have "werr w1 \<notin> unclean" using Cons.prems(6) tf(5) by blast
  from ed have "\<exists>calls rets e'. edits calls e = Some (rets, e') \<and> set rets \<inter> unclean = {} \<and> wengine (dworld s') = Some e'"
  proof
    assume "\<exists>call. edit call e = Some (werr w1, e1)"
    then obtain call where "edit call e = Some (werr w1, e1)" ..
    then have "edits (call # calls) e = Some (werr w1 # rets, e')" using cs(1) by simp
    then show ?thesis using cs(2,3) \<open>werr w1 \<notin> unclean\<close> by (intro exI [of _ "call # calls"]) auto
  qed (use cs in blast)
  then show ?case using IH t(2) by auto
qed

lemma brace_run:
  "daemon_run d env (Line (CHR ''{'' # x) # evs) s =
     do { s \<leftarrow> answer (CHR ''{'') (if current_in_scope s then set_err ksiErrorIdempotent s else s\<lparr>current_in_scope := True\<rparr>);
          daemon_run d env evs s }"
  "daemon_run d env (Line (CHR ''}'' # x) # evs) s =
     do { s \<leftarrow> answer (CHR ''}'') (if current_in_scope s then s\<lparr>current_in_scope := False\<rparr> else set_err ksiErrorNotInBatch s);
          daemon_run d env evs s }"
  by (simp_all add: fifo_handler_def)

lemma batch_session:
  assumes "synced e" "wengine (dworld s) = Some e" "\<not> current_in_scope s" "werr (dworld s) = ksiErrorNone" "replies s = []"
    "\<forall>l \<in> set ls. edit_line l" "\<forall>r \<in> set (replies s'). \<forall>err \<in> unclean. \<not> reports r err"
    "daemon_run d env (Line (CHR ''{'' # x) # map Line ls @ [Line (CHR ''}'' # y)]) s = Some (go, s')"
  shows "go \<and> \<not> current_in_scope s' \<and> werr (dworld s') = ksiErrorNone \<and> List.length (replies s') = List.length ls + 2 \<and>
    (\<exists>e2. wengine (dworld s') = Some e2 \<and>
      (synced e2 \<and> hot e2 = hot e \<or>
       (\<forall>a m. (playing e = ksiEnginePlaying \<and> driver_env e \<and> epoch e2 \<noteq> a \<longrightarrow> 0 < m) \<longrightarrow>
         (\<exists>e3. ksiMVCCCommitter_round (e2\<lparr>audioEpoch := a, migratedSem := m\<rparr>) = Some e3 \<and>
            synced e3 \<and> ver e3 0 = ver e2 (epoch e2)))))"
proof -
  obtain s1 where s1: "answer (CHR ''{'') (s\<lparr>current_in_scope := True\<rparr>) = Some s1"
    and r1: "daemon_run d env (map Line ls @ [Line (CHR ''}'' # y)]) s1 = Some (go, s')"
    using assms(8,3) by (auto simp: brace_run bind_eq_Some_conv simp del: daemon_run.simps(2))
  obtain t1 w1 where t1: "reply (CHR ''{'') (dworld s) = Some (t1, w1)"
    "s1 = s\<lparr>current_in_scope := True, dworld := w1\<lparr>werr := ksiErrorNone\<rparr>, replies := [t1]\<rparr>"
    using s1 assms(5) by (auto simp: answer_def bind_eq_Some_conv)
  obtain m2 s2 where r2: "daemon_run d env (map Line ls) s1 = Some (m2, s2)"
    and m2: "m2 \<Longrightarrow> daemon_run d env [Line (CHR ''}'' # y)] s2 = Some (go, s')" "\<not> m2 \<Longrightarrow> s' = s2 \<and> \<not> go"
    using r1 by (auto simp: daemon_run_append bind_eq_Some_conv simp del: daemon_run.simps(2) split: if_split_asm)
  have s1f: "current_in_scope s1" "werr (dworld s1) = ksiErrorNone" "wengine (dworld s1) = Some e"
    using t1 reply_frame(1) [OF t1(1)] assms(2) by simp_all
  have ans: "\<exists>t w2 w3. reply (CHR ''}'') (dworld s2) = Some (t, w2) \<and> commit w2 = Some w3 \<and> go \<and>
      s' = s2\<lparr>current_in_scope := False, dworld := w3\<lparr>werr := ksiErrorNone\<rparr>, replies := replies s2 @ [t]\<rparr>"
    if "m2" "current_in_scope s2"
    using m2(1) [OF that(1)] that(2) by (auto simp: brace_run answer_def bind_eq_Some_conv simp del: daemon_run.simps(2))
  have sub: "set (replies s2) \<subseteq> set (replies s')"
  proof (cases m2)
    case True
    show ?thesis using m2(1) [OF True]
      by (auto simp: brace_run answer_def set_err_def bind_eq_Some_conv simp del: daemon_run.simps(2) split: if_split_asm)
  qed (use m2(2) in simp)
  then have cl: "\<forall>r \<in> set (replies s2). \<forall>err \<in> unclean. \<not> reports r err" using assms(7) by blast
  note b = batch_lines [OF r2 assms(6) s1f cl]
  then obtain calls rets e1 where e1: "edits calls e = Some (rets, e1)" "set rets \<inter> unclean = {}" "wengine (dworld s2) = Some e1"
    by blast
  obtain t w2 w3 where a: "reply (CHR ''}'') (dworld s2) = Some (t, w2)" "commit w2 = Some w3" "go"
      "s' = s2\<lparr>current_in_scope := False, dworld := w3\<lparr>werr := ksiErrorNone\<rparr>, replies := replies s2 @ [t]\<rparr>"
    using ans b by blast
  note sr = session_round [OF assms(1) e1(1,2)]
  then obtain e2 where e2: "ksiEngineCommit e1 = Some (ksiErrorNone, e2)" by blast
  then have w3: "wengine w3 = Some e2"
    using a(2) reply_frame(1) [OF a(1)] e1(3) by (auto simp: commit_def bind_eq_Some_conv)
  have "synced e2 \<and> hot e2 = hot e \<or>
       (\<forall>a m. (playing e = ksiEnginePlaying \<and> driver_env e \<and> epoch e2 \<noteq> a \<longrightarrow> 0 < m) \<longrightarrow>
         (\<exists>e3. ksiMVCCCommitter_round (e2\<lparr>audioEpoch := a, migratedSem := m\<rparr>) = Some e3 \<and>
            synced e3 \<and> ver e3 0 = ver e2 (epoch e2)))"
  proof (cases "qhead (syncCmds e1) = qtail (syncCmds e1)")
    case True
    then show ?thesis using sr e2 session_empty [OF assms(1) e1(1,2) True] by auto
  next
    case False
    obtain cs where "logged e e1 cs" using edits_logged [OF _ e1(1,2)] assms(1) by (auto simp: synced_def)
    then have ep: "epoch e1 = 0 \<or> epoch e1 = 1"
      using assms(1) by (auto simp: logged_def edit_step_def frame_def synced_def)
    have "ver e2 (epoch e2) = hot e1"
      using e2 False ep by (auto simp: ksiEngineCommit_def ksiCondWait_def ksiCondSetWait_def hot_def hotEpoch_def split: if_split_asm)
    then show ?thesis using sr e2 False by auto
  qed
  then show ?thesis using a b t1(2) w3 by auto
qed

section \<open>Command files that load command files\<close>

text \<open>The nesting bound does not matter when every file only loads files of a lower rank.\<close>

definition ranked :: "cmd_env \<Rightarrow> (string \<Rightarrow> nat) \<Rightarrow> bool" where
  "ranked env rank \<longleftrightarrow> (\<forall>p fp a. files env p = Inr fp \<longrightarrow> CHR ''l'' # a \<in> set fp \<longrightarrow> rank (path_of a) < rank p)"

definition line_rank :: "(string \<Rightarrow> nat) \<Rightarrow> string \<Rightarrow> nat" where
  "line_rank rank line = (case line of c # args \<Rightarrow> if c = CHR ''l'' then Suc (rank (path_of args)) else 0 | [] \<Rightarrow> 0)"

lemma perform_cong:
  assumes "\<And>args fp. line = CHR ''l'' # args \<Longrightarrow> files env (path_of args) = Inr fp \<Longrightarrow> f fp = g fp"
  shows "perform f env h line w = perform g env h line w"
proof (cases line)
  case (Cons c args)
  have "load_commands f env args w = load_commands g env args w" if "c = CHR ''l''"
  proof (cases "files env (path_of args)")
    case (Inr fp)
    then show ?thesis using assms [of args fp] that Cons by (simp add: load_commands_def)
  qed (simp add: load_commands_def)
  then show ?thesis unfolding perform_def Cons list.case by (simp split: if_split)
qed (simp add: perform_def)

lemma consume_lines_cong:
  "(\<And>l. l \<in> set fp \<Longrightarrow> f l = g l) \<Longrightarrow> consume_lines f env n fp w = consume_lines g env n fp w"
proof (induction fp arbitrary: n w)
  case (Cons l fp)
  have "f l = g l" "consume_lines f env (Suc n) fp = consume_lines g env (Suc n) fp"
    using Cons by (simp_all add: fun_eq_iff)
  then show ?case by (simp cong: if_cong)
qed simp

lemma line_depth:
  assumes "ranked env rank"
  shows "line_rank rank line \<le> d \<Longrightarrow> line_rank rank line \<le> d' \<Longrightarrow> consume_line d env h line = consume_line d' env h line"
proof (induction "line_rank rank line" arbitrary: line d d' h rule: less_induct)
  case less
  have "perform (consume_file d env) env h line w = perform (consume_file d' env) env h line w" for w
  proof (rule perform_cong)
    fix args fp
    assume l: "line = CHR ''l'' # args" and fp: "files env (path_of args) = Inr fp"
    then obtain k k' where k: "d = Suc k" "d' = Suc k'" "rank (path_of args) \<le> k" "rank (path_of args) \<le> k'"
      using less.prems by (cases d; cases d') (auto simp: line_rank_def)
    have "consume_line k env False x = consume_line k' env False x" if "x \<in> set fp" for x
    proof -
      have "line_rank rank x \<le> rank (path_of args)"
        using assms fp that by (auto simp: ranked_def line_rank_def Suc_le_eq split: list.split)
      moreover have "line_rank rank line = Suc (rank (path_of args))" using l by (simp add: line_rank_def)
      ultimately show ?thesis using less.hyps [of x k k' False] k by simp
    qed
    then show "consume_file d env fp = consume_file d' env fp"
      unfolding k(1,2) consume_file.simps fun_eq_iff by (intro allI consume_lines_cong) (simp add: fun_eq_iff)
  qed
  then show ?case by (simp add: consume_line.simps fun_eq_iff)
qed

section \<open>Properties\<close>

text \<open>The processes around the interpreter in the examples.\<close>

definition ex_env :: cmd_env where
  "ex_env = \<lparr>audio = \<lparr>pa_open = (\<lambda>k. (None, True)), pa_start = (\<lambda>k. None), pa_stop = (\<lambda>k. None), pa_close = (\<lambda>k. None)\<rparr>,
     files = (\<lambda>p. if p = ''self'' then Inr [''lself''] else if p = ''nodes'' then Inr [''nn3'' @ [newline], ''nn5''] else Inl ''No such file''),
     allocs = (\<lambda>k. ex_mal), tree_at = Suc, prints = False\<rparr>"

definition ex_line :: "string \<Rightarrow> daemon_event" where "ex_line l = Line (l @ [newline])"

definition ex_start :: daemon where
  "ex_start = fifo_start (ksiEngineWorkerPoolInit 2 0) Map.empty ksiErrorNone 0"

definition ex_nested :: "string \<Rightarrow> string + string list" where
  "ex_nested p = (if p = ''outer'' then Inr [''nn5'' @ [newline], ''lnodes''] else if p = ''nodes'' then Inr [''nn3'' @ [newline], ''nn5'']
     else Inl ''No such file'')"

text \<open>The daemon after the line \<open>i64,44100\<close>.\<close>

definition ex_ready :: daemon where
  "ex_ready = ex_start\<lparr>dworld := (dworld ex_start)\<lparr>wengine := Some (ksiEngineInit 64 44100)\<rparr>\<rparr>"

definition ex_replies :: "daemon_event list \<Rightarrow> (bool \<times> string list) option" where
  "ex_replies evs = map_option (\<lambda>(b, s). (b, replies s)) (daemon_run 2 ex_env evs ex_start)"


lemma unclean_codes: "show_nat (error_code ksiErrorAlreadyWire) = ''8''" "show_nat (error_code ksiErrorWireNotFound) = ''11''"
  by code_simp+


text \<open>C6: An editing line that is answered with any other error, a malformed one included, has changed neither
  the engine nor the worker pool nor a resource.\<close>

theorem failed_line_changes_nothing:
  assumes "edit_line line" "consume_line d env h line w = Some (r, w')" "werr w = ksiErrorNone"
    "werr w' \<notin> insert ksiErrorNone unclean"
  shows "r = 0 \<and> wengine w' = wengine w \<and> wpool w' = wpool w \<and> wtrees w' = wtrees w"
proof -
  have "e' = e" if "edit call e = Some (werr w', e')" for call e e'
    using edit_error [OF that] assms(4) by simp
  then show ?thesis using line_call [OF assms(1-3)] by auto
qed

theorem failed_line_changes_nothing_witness:
  "\<exists>w'. consume_line 0 ex_env True ''r5'' (dworld ex_ready) = Some (0, w') \<and> werr w' = ksiErrorIdNotFound \<and>
     wengine w' = Some (ksiEngineInit 64 44100)"
proof -
  have "map_option (\<lambda>(r, w). (r, werr w)) (consume_line 0 ex_env True ''r5'' (dworld ex_ready)) = Some (0, ksiErrorIdNotFound)"
    by code_simp
  then obtain w' where w': "consume_line 0 ex_env True ''r5'' (dworld ex_ready) = Some (0, w')" "werr w' = ksiErrorIdNotFound"
    by auto
  have "wengine w' = wengine (dworld ex_ready)"
    using failed_line_changes_nothing [OF _ w'(1)] w'(2)
    by (simp add: edit_line_def unclean_def ex_ready_def ex_start_def fifo_start_def)
  then show ?thesis using w' by (simp add: ex_ready_def)
qed



lemma ex_env_self: "files ex_env ''self'' = Inr [''lself'']"
  by (simp add: ex_env_def)

text \<open>A file that loads itself is never done with, whatever the bound.\<close>

theorem self_loading_file:
  "consume_line d ex_env h ''lself'' w = None"
proof (induction d arbitrary: h w)
  case 0
  show ?case
    by (simp add: consume_line.simps perform_def load_commands_def ex_env_self path_of_def newline_def consume_file.simps)
next
  case (Suc d)
  then show ?case
    by (simp add: consume_line.simps [of "Suc d"] perform_def load_commands_def path_of_def newline_def consume_file.simps ex_env_self)
qed

text \<open>The daemon dies on the edit of a node that does not exist: the call reports success, and the daemon
  looks up the ports of the node for its reply.\<close>

theorem edit_of_missing_node_faults:
  "ex_replies [ex_line ''i64,44100'', ex_line ''r5''] = Some (True, [''0;'' @ [newline], ''1;'' @ [newline]]) \<and>
   ex_replies [ex_line ''i64,44100'', ex_line ''e5 1''] = None"
  by code_simp

text \<open>A session that ends inside a batch faults: the destruction of the nodes takes both versions to be equal.\<close>

theorem quit_in_batch_faults:
  "ex_replies [ex_line ''i64,44100'', ex_line ''nn3'', Round, ex_line ''q''] =
     Some (False, [''0;'' @ [newline], ''0;;0;;fG'' @ [newline]]) \<and>
   ex_replies [ex_line ''i64,44100'', ex_line ''{'', ex_line ''nn3'', ex_line ''q''] = None"
  by code_simp

text \<open>The text of an error is reported again with the next errors that have none of their own.\<close>

theorem stale_error_text:
  "ex_replies [ex_line ''i64,44100'', ex_line ''x'', ex_line ''r5''] =
     Some (True, [''0;'' @ [newline], ''15;Invalid verb.'' @ [newline], ''1;Invalid verb.'' @ [newline]])"
  by code_simp

text \<open>A wire without its gain is not refused: the gain is read from an address that was never set.\<close>

lemma wire_without_gain_faults:
  "ex_replies [ex_line ''i64,44100'', ex_line ''{'', ex_line ''nn3'', ex_line ''nn5'', ex_line ''w0:1>1:0x1'', ex_line ''}''] =
     Some (True, [''0;'' @ [newline], ''0;'' @ [newline], ''0;;0;;fG'' @ [newline], ''0;;1;Gffff;fg'' @ [newline], ''0;'' @ [newline], ''0;'' @ [newline]]) \<and>
   ex_replies [ex_line ''i64,44100'', ex_line ''{'', ex_line ''nn3'', ex_line ''nn5'', ex_line ''w0:1>1:0''] = None"
  by code_simp

text \<open>The time in seconds is divided by the sample rate: 200 s at 100 frames per second are frame 2.\<close>

lemma seconds_are_divided:
  "do { (_, s) \<leftarrow> daemon_run 2 ex_env [ex_line ''i64,100'', ex_line ''-200''] ex_start;
        e \<leftarrow> wengine (dworld s);
        Some (uint (etime e)) } = Some 2"
  by code_simp

text \<open>Before an engine is initialised a well-formed editing line locks a mutex that is not one.\<close>

lemma edit_before_init_faults: "ex_replies [ex_line ''r5''] = None"
  by code_simp

end
