(* ===== verification/Terminal.thy ===== *)
theory Terminal
  imports Session
begin

text \<open>
  The command line program (\<^verbatim>\<open>ksid/cmd/main.c\<close>): every line typed is a command and is
  followed by a commit; the end of the input or the command \<open>q\<close> takes the engine and the pool
  down. What it prints is left out. Whether PortAudio was initialised and can be terminated are
  parameters.
\<close>

text \<open>A turn of the loop. The result says whether it goes on.\<close>

definition main_line :: "nat \<Rightarrow> cmd_env \<Rightarrow> string \<Rightarrow> cmd_world \<Rightarrow> (bool \<times> cmd_world) option" where
  "main_line d env line w = do {
     (r, w) \<leftarrow> consume_line d env False line w;
     (if r \<noteq> 0 then Some (False, w)
      else do { w \<leftarrow> commit (w\<lparr>werr := ksiErrorNone\<rparr>); Some (True, w) })
   }"

text \<open>The loop, with the rounds of the committer and the migration of the audio threads between the
  lines. \<open>linenoise\<close> returns \<^const>\<open>NULL\<close> at the end of the input.\<close>

fun main_loop :: "nat \<Rightarrow> cmd_env \<Rightarrow> daemon_event list \<Rightarrow> cmd_world \<Rightarrow> cmd_world option" where
  "main_loop d env [] w = Some w"
| "main_loop d env (Line l # evs) w = do {
     (go, w) \<leftarrow> main_line d env l w;
     (if go then main_loop d env evs w else Some w)
   }"
| "main_loop d env (Round # evs) w = do {
     e \<leftarrow> wengine w;
     e \<leftarrow> ksiMVCCCommitter_round e;
     main_loop d env evs (w\<lparr>wengine := Some e\<rparr>)
   }"
| "main_loop d env (Migration # evs) w = do {
     e \<leftarrow> wengine w;
     main_loop d env evs (w\<lparr>wengine := Some (if 0 < playing e then migrate e else e)\<rparr>)
   }"

text \<open>The start: the fields of the pool that \<open>ksiEngineWorkerPoolInit\<close> does not set, and the
  variables, are indeterminate.\<close>

definition main_start :: "nat \<Rightarrow> int \<Rightarrow> KsiError \<Rightarrow> cmd_world" where
  "main_start nprocs alive err =
     \<lparr>wengine = None, wpool = ksiEngineWorkerPoolInit nprocs alive, wtrees = Map.empty, wcalls = 0, werrno = None,
      werr = err, wtext = None, wid = 0, wlog = []\<rparr>"

text \<open>The end, up to the joins of the workers: the value returned, and what is left. A failure of PortAudio
  skips the pool.\<close>

definition main_end :: "bool \<Rightarrow> string option \<Rightarrow> cmd_world \<Rightarrow> (int \<times> cmd_world) option" where
  "main_end pa_initialized pa_terminate w = do {
     let alive = (wengine w \<noteq> None);
     w \<leftarrow> shut_down w;
     (if alive \<and> pa_initialized \<and> pa_terminate \<noteq> None then Some (- 1, w)
      else do {
        wp \<leftarrow> destroy_posts (destroy_wake (destroy_finalize (wpool w)));
        Some (0, w\<lparr>wpool := wp\<rparr>)
      })
   }"

definition main :: "nat \<Rightarrow> cmd_env \<Rightarrow> bool \<Rightarrow> string option \<Rightarrow> nat \<Rightarrow> int \<Rightarrow> KsiError \<Rightarrow> daemon_event list \<Rightarrow> (int \<times> cmd_world) option" where
  "main d env pa_initialized pa_terminate nprocs alive err evs = do {
     w \<leftarrow> main_loop d env evs (main_start nprocs alive err);
     main_end pa_initialized pa_terminate w
   }"

section \<open>Properties\<close>

lemma commit_ready_round:
  assumes "synced e" "edits calls e = Some (rets, e1)" "set rets \<inter> unclean = {}" "wengine w = Some e1"
  shows "\<exists>e2. commit w = Some (w\<lparr>wengine := Some e2\<rparr>) \<and>
    (synced e2 \<and> hot e2 = hot e \<or>
     (\<forall>a m. (playing e = ksiEnginePlaying \<and> driver_env e \<and> epoch e2 \<noteq> a \<longrightarrow> 0 < m) \<longrightarrow>
       (\<exists>e3. ksiMVCCCommitter_round (e2\<lparr>audioEpoch := a, migratedSem := m\<rparr>) = Some e3 \<and> synced e3 \<and> ver e3 0 = hot e1)))"
proof -
  obtain e2 where e2: "ksiEngineCommit e1 = Some (ksiErrorNone, e2)"
    "if qhead (syncCmds e1) = qtail (syncCmds e1) then e2 = e1 \<and> hot e1 = hot e
     else \<forall>a m. (playing e = ksiEnginePlaying \<and> driver_env e \<and> epoch e2 \<noteq> a \<longrightarrow> 0 < m) \<longrightarrow>
       (\<exists>e3. ksiMVCCCommitter_round (e2\<lparr>audioEpoch := a, migratedSem := m\<rparr>) = Some e3 \<and> synced e3 \<and> ver e3 0 = hot e1)"
    using session_round [OF assms(1-3)] by blast
  then show ?thesis using session_empty [OF assms(1-3)] assms(4)
    by (intro exI [of _ e2]) (auto simp: commit_def split: if_split_asm)
qed



text \<open>A whole run of the program.\<close>

lemma main_runs:
  "map_option fst (main 0 ex_env False None 2 0 ksiErrorNone
     [ex_line ''i64,44100'', ex_line ''nn5'', Round, ex_line ''q'']) = Some 0"
  by code_simp

end
