(* ===== verification/Schedule.thy ===== *)
theory Schedule
  imports Engine_State "HOL-Library.Multiset"
begin

text \<open>
  The evaluation of the graph for one buffer by the audio workers (\<^verbatim>\<open>ksid/engine.c\<close>):
  the callback enqueues the nodes without predecessors, each worker takes a task, evaluates the
  node and notifies its successors; the last notification makes a successor ready, either as the
  worker's own continuation or as a task for anybody.

  The queues (the master queue and the workers' ring buffers) are one multiset of tasks. A step
  is one atomic action of the callback or of one worker; all interleavings are considered. The
  counter update and its reset after the last notification are one step. \<open>evaluated\<close>
  records the evaluations in their order.
\<close>

section \<open>State and steps\<close>

datatype worker =
    Idle
  | Eval ptr
  | Notify "int list" "ptr option"

record sched =
  seeding :: "ptr list"
  tasks :: "ptr multiset"
  workers :: "worker list"
  depCounter :: "ptr \<Rightarrow> int"
  masterSem :: nat
  evaluated :: "ptr list"

datatype sched_event = Seed | Take nat ptr | Work nat

text \<open>The successor \<open>s\<close> of the notification loop: its counter, and where it goes when ready.\<close>

definition notify_successor :: "version \<Rightarrow> int \<Rightarrow> nat \<Rightarrow> int list \<Rightarrow> ptr option \<Rightarrow> sched \<Rightarrow> sched option" where
  "notify_successor v i w rest cont st = do {
     s \<leftarrow> get_at (vdata (nlist v)) i;
     n \<leftarrow> nheap v s;
     let dep = depCounter st s;
     (if dep = depNum n - 1 then
        let st = st\<lparr>depCounter := (depCounter st)(s := 0)\<rparr> in
        (case cont of
           Some c \<Rightarrow> Some (st\<lparr>tasks := add_mset s (tasks st), workers := (workers st)[w := Notify rest cont]\<rparr>)
         | None \<Rightarrow> Some (st\<lparr>workers := (workers st)[w := Notify rest (Some s)]\<rparr>))
      else Some (st\<lparr>depCounter := (depCounter st)(s := dep + 1), workers := (workers st)[w := Notify rest cont]\<rparr>))
   }"

text \<open>What a worker does after the node's function, by the kind of the node.\<close>

definition after_eval :: "KsiNode \<Rightarrow> ptr \<Rightarrow> nat \<Rightarrow> sched \<Rightarrow> sched" where
  "after_eval n p w st =
     (if ntype n AND ksiNodeTypeOutputMask = ksiNodeTypeOutputNormal
      then st\<lparr>workers := (workers st)[w := Notify (successors n) None]\<rparr>
      else if ntype n AND ksiNodeTypeOutputMask = ksiNodeTypeOutputFinal
      then st\<lparr>workers := (workers st)[w := Idle], masterSem := masterSem st + 1\<rparr>
      else st\<lparr>workers := (workers st)[w := Eval p]\<rparr>)"

fun worker_step :: "version \<Rightarrow> nat \<Rightarrow> worker \<Rightarrow> sched \<Rightarrow> sched option" where
  "worker_step v w Idle st = None"
| "worker_step v w (Eval p) st = do {
     n \<leftarrow> nheap v p;
     Some (after_eval n p w (st\<lparr>evaluated := evaluated st @ [p]\<rparr>))
   }"
| "worker_step v w (Notify (i # rest) cont) st = notify_successor v i w rest cont st"
| "worker_step v w (Notify [] cont) st =
     Some (st\<lparr>workers := (workers st)[w := (case cont of Some c \<Rightarrow> Eval c | None \<Rightarrow> Idle)]\<rparr>)"

definition seed_next :: "version \<Rightarrow> sched \<Rightarrow> sched option" where
  "seed_next v st =
     (case seeding st of
        [] \<Rightarrow> None
      | p # ps \<Rightarrow> do {
          n \<leftarrow> nheap v p;
          Some (st\<lparr>seeding := ps, tasks := (if depNum n = 0 then add_mset p (tasks st) else tasks st)\<rparr>)
        })"

fun sched_do :: "version \<Rightarrow> sched_event \<Rightarrow> sched \<Rightarrow> sched option" where
  "sched_do v Seed st = seed_next v st"
| "sched_do v (Take w p) st =
     (if w < List.length (workers st) \<and> workers st ! w = Idle \<and> p \<in># tasks st
      then Some (st\<lparr>tasks := tasks st - {#p#}, workers := (workers st)[w := Eval p]\<rparr>) else None)"
| "sched_do v (Work w) st =
     (if w < List.length (workers st) then worker_step v w (workers st ! w) st else None)"

text \<open>The state in which the callback starts to enqueue the sources, with \<open>k\<close> workers.\<close>

definition sched_init :: "version \<Rightarrow> nat \<Rightarrow> sched" where
  "sched_init v k = \<lparr>seeding = map snd (ksiVecIterate (nlist v)), tasks = {#}, workers = replicate k Idle,
     depCounter = (\<lambda>_. 0), masterSem = 0, evaluated = []\<rparr>"

inductive sched_steps :: "version \<Rightarrow> sched \<Rightarrow> nat \<Rightarrow> sched \<Rightarrow> bool" for v where
  start: "sched_steps v st 0 st"
| step: "sched_steps v st k st' \<Longrightarrow> sched_do v ev st' = Some st'' \<Longrightarrow> sched_steps v st (Suc k) st''"

section \<open>The graph of a version\<close>

definition vnodes :: "version \<Rightarrow> ptr list" where
  "vnodes v = map snd (ksiVecIterate (nlist v))"

definition succs :: "version \<Rightarrow> ptr \<Rightarrow> ptr list" where
  "succs v p = (case nheap v p of
     None \<Rightarrow> [] | Some n \<Rightarrow> map (\<lambda>i. case get_at (vdata (nlist v)) i of Some q \<Rightarrow> q | None \<Rightarrow> NULL) (successors n))"

text \<open>
  A version the workers can evaluate: ids name nodes, every node is normal or final, a final
  node has no successors, the number of a node's predecessors is in \<open>depNum\<close>, and the
  nodes can be ranked along the wires (there is no cycle).
\<close>

definition in_table :: "version \<Rightarrow> int \<Rightarrow> bool" where
  "in_table v i \<longleftrightarrow> (\<exists>q. get_at (vdata (nlist v)) i = Some q \<and> q \<in> set (vnodes v))"

definition graph_ok :: "version \<Rightarrow> bool" where
  "graph_ok v \<longleftrightarrow> distinct (vnodes v) \<and>
     (\<forall>p \<in> set (vnodes v). \<exists>n. nheap v p = Some n \<and>
        (ntype n AND ksiNodeTypeOutputMask = ksiNodeTypeOutputNormal \<or>
         ntype n AND ksiNodeTypeOutputMask = ksiNodeTypeOutputFinal \<and> successors n = []) \<and>
        (\<forall>i \<in> set (successors n). in_table v i) \<and>
        depNum n = int (\<Sum>q\<leftarrow>vnodes v. count (mset (succs v q)) p)) \<and>
     (\<exists>rank :: ptr \<Rightarrow> nat. \<forall>p \<in> set (vnodes v). \<forall>q \<in> set (succs v p). rank p < rank q)"

section \<open>Where a node is\<close>

fun held :: "worker \<Rightarrow> ptr multiset" where
  "held Idle = {#}"
| "held (Eval p) = {#p#}"
| "held (Notify is None) = {#}"
| "held (Notify is (Some c)) = {#c#}"

definition lookup :: "version \<Rightarrow> int \<Rightarrow> ptr" where
  "lookup v i = (case get_at (vdata (nlist v)) i of Some q \<Rightarrow> q | None \<Rightarrow> NULL)"

fun pend :: "version \<Rightarrow> worker \<Rightarrow> ptr list" where
  "pend v (Notify is c) = map (lookup v) is"
| "pend v _ = []"

definition source :: "version \<Rightarrow> ptr \<Rightarrow> bool" where
  "source v p \<longleftrightarrow> (\<exists>n. nheap v p = Some n \<and> depNum n = 0)"

text \<open>The nodes that are ready or evaluated, the wires into a node from evaluated nodes, and the
  notifications still to be made.\<close>

definition started :: "version \<Rightarrow> sched \<Rightarrow> ptr multiset" where
  "started v st = mset (evaluated st) + tasks st + sum_list (map held (workers st)) + mset (filter (source v) (seeding st))"

definition wires :: "version \<Rightarrow> ptr \<Rightarrow> ptr \<Rightarrow> nat" where
  "wires v p q = count (mset (succs v p)) q"

definition tot :: "version \<Rightarrow> ptr set \<Rightarrow> ptr \<Rightarrow> nat" where
  "tot v P q = (\<Sum>p \<in> P. wires v p q)"

definition rem :: "version \<Rightarrow> sched \<Rightarrow> ptr \<Rightarrow> nat" where
  "rem v st q = (\<Sum>w \<leftarrow> workers st. count (mset (pend v w)) q)"

definition dep :: "version \<Rightarrow> ptr \<Rightarrow> nat" where
  "dep v q = tot v (set (vnodes v)) q"

definition final :: "version \<Rightarrow> ptr \<Rightarrow> bool" where
  "final v p \<longleftrightarrow> (\<exists>n. nheap v p = Some n \<and> ntype n AND ksiNodeTypeOutputMask = ksiNodeTypeOutputFinal)"

definition worker_ok :: "version \<Rightarrow> worker \<Rightarrow> bool" where
  "worker_ok v w = (case w of Notify is c \<Rightarrow> (\<forall>i \<in> set is. in_table v i) | _ \<Rightarrow> True)"

text \<open>The invariant of an evaluation.\<close>

definition counter_ok :: "version \<Rightarrow> sched \<Rightarrow> ptr \<Rightarrow> bool" where
  "counter_ok v st q \<longleftrightarrow>
     (if q \<in># started v st
      then tot v (set (evaluated st)) q = dep v q \<and> rem v st q = 0 \<and> depCounter st q = 0
      else depCounter st q + int (rem v st q) = int (tot v (set (evaluated st)) q) \<and>
        0 \<le> depCounter st q \<and> depCounter st q < int (dep v q))"

definition ordered_log :: "version \<Rightarrow> ptr list \<Rightarrow> bool" where
  "ordered_log v E \<longleftrightarrow> (\<forall>i < List.length E. \<forall>p \<in> set (vnodes v). E ! i \<in> set (succs v p) \<longrightarrow> p \<in> set (take i E))"

definition sched_inv :: "version \<Rightarrow> nat \<Rightarrow> sched \<Rightarrow> bool" where
  "sched_inv v k st \<longleftrightarrow> List.length (workers st) = k \<and> started v st \<subseteq># mset (vnodes v) \<and>
     set (seeding st) \<subseteq> set (vnodes v) \<and> (\<forall>w \<in> set (workers st). worker_ok v w) \<and>
     (\<forall>q \<in> set (vnodes v). counter_ok v st q) \<and> ordered_log v (evaluated st) \<and>
     masterSem st = List.length (filter (final v) (evaluated st))"

lemma sum_list_update:
  fixes f :: "'a \<Rightarrow> 'b::comm_monoid_add"
  shows "w < List.length ws \<Longrightarrow> sum_list (map f (ws[w := x])) + f (ws ! w) = sum_list (map f ws) + f x"
proof (induction ws arbitrary: w)
  case (Cons a ws)
  then show ?case by (cases w) (simp_all add: add_ac)
qed simp

lemma graph_okD:
  assumes "graph_ok v" "p \<in> set (vnodes v)"
  shows "\<exists>n. nheap v p = Some n \<and>
    (ntype n AND ksiNodeTypeOutputMask = ksiNodeTypeOutputNormal \<or>
     ntype n AND ksiNodeTypeOutputMask = ksiNodeTypeOutputFinal \<and> successors n = []) \<and>
    (\<forall>i \<in> set (successors n). in_table v i) \<and> depNum n = int (dep v p)"
proof -
  have d: "distinct (vnodes v)" using assms(1) by (simp add: graph_ok_def)
  have "(\<Sum>q\<leftarrow>vnodes v. count (mset (succs v q)) p) = dep v p"
    using d by (simp add: dep_def tot_def wires_def sum_list_distinct_conv_sum_set)
  then show ?thesis using assms unfolding graph_ok_def by metis
qed

lemma tot_mono: "P \<subseteq> set (vnodes v) \<Longrightarrow> tot v P q \<le> dep v q"
  by (simp add: tot_def dep_def sum_mono2)

lemma tot_insert: "finite P \<Longrightarrow> p \<notin> P \<Longrightarrow> tot v (insert p P) q = wires v p q + tot v P q"
  by (simp add: tot_def)

lemma tot_full:
  assumes "P \<subseteq> set (vnodes v)" "tot v P q = dep v q" "p \<in> set (vnodes v)" "q \<in> set (succs v p)"
  shows "p \<in> P"
proof (rule ccontr)
  assume "p \<notin> P"
  then have "tot v P q < tot v (insert p P) q"
    using assms(4) finite_subset [OF assms(1)] by (simp add: tot_insert wires_def count_mset_0_iff [symmetric])
  then show False using tot_mono [of "insert p P" v q] assms by simp
qed

lemma succs_lookup: "nheap v p = Some n \<Longrightarrow> succs v p = map (lookup v) (successors n)"
  by (simp add: succs_def lookup_def)

lemma in_table_lookup: "in_table v i \<Longrightarrow> get_at (vdata (nlist v)) i = Some (lookup v i) \<and> lookup v i \<in> set (vnodes v)"
  by (auto simp: in_table_def lookup_def)

section \<open>The invariant holds\<close>

lemma sum_replicate_zero: "sum_list (replicate k 0) = (0 :: 'a::comm_monoid_add)"
  by (induction k) simp_all

lemma started_init: "started v (sched_init v k) = mset (filter (source v) (vnodes v))"
  by (simp add: started_def sched_init_def vnodes_def map_replicate_const sum_replicate_zero)

lemma sched_inv_init:
  assumes "graph_ok v"
  shows "sched_inv v k (sched_init v k)"
proof -
  have "rem v (sched_init v k) q = 0" for q by (simp add: rem_def sched_init_def map_replicate_const sum_replicate_zero)
  moreover have "counter_ok v (sched_init v k) q" if q: "q \<in> set (vnodes v)" for q
  proof -
    obtain n where "nheap v q = Some n" "depNum n = int (dep v q)" using graph_okD [OF assms q] by blast
    then show ?thesis using calculation q
      by (auto simp: counter_ok_def started_init source_def tot_def) (simp_all add: sched_init_def)
  qed
  moreover have "started v (sched_init v k) \<subseteq># mset (vnodes v)"
    by (simp add: started_init mset_filter)
  ultimately show ?thesis
    by (simp add: sched_inv_def ordered_log_def) (simp add: sched_init_def vnodes_def worker_ok_def)
qed

lemma rem_update:
  "w < List.length (workers st) \<Longrightarrow> workers st' = (workers st)[w := x] \<Longrightarrow>
   rem v st' q + count (mset (pend v (workers st ! w))) q = rem v st q + count (mset (pend v x)) q"
  unfolding rem_def using sum_list_update [of w "workers st" "\<lambda>w. count (mset (pend v w)) q" x] by simp

lemma held_update:
  "w < List.length ws \<Longrightarrow> sum_list (map held (ws[w := x])) + held (ws ! w) = sum_list (map held ws) + held x"
  by (rule sum_list_update)

lemma workers_ok_update:
  "\<forall>w \<in> set ws. worker_ok v w \<Longrightarrow> worker_ok v x \<Longrightarrow> \<forall>w \<in> set (ws[i := x]). worker_ok v w"
  using set_update_subset_insert by fastforce

lemma inv_workers: "sched_inv v k st \<Longrightarrow> \<forall>w \<in> set (workers st). worker_ok v w"
  by (simp add: sched_inv_def)

text \<open>A step that moves nodes between places without changing counters or notifications.\<close>

lemma inv_move:
  assumes "sched_inv v k st" "started v st' = started v st" "\<And>q. rem v st' q = rem v st q"
    "depCounter st' = depCounter st" "evaluated st' = evaluated st" "masterSem st' = masterSem st"
    "List.length (workers st') = List.length (workers st)" "set (seeding st') \<subseteq> set (seeding st)"
    "\<forall>w \<in> set (workers st'). worker_ok v w"
  shows "sched_inv v k st'"
  using assms by (auto simp: sched_inv_def counter_ok_def)

lemma inv_take:
  assumes "sched_inv v k st" "sched_do v (Take w p) st = Some st'"
  shows "sched_inv v k st'"
proof -
  have w: "w < List.length (workers st)" "workers st ! w = Idle" "p \<in># tasks st"
    and st': "st' = st\<lparr>tasks := tasks st - {#p#}, workers := (workers st)[w := Eval p]\<rparr>"
    using assms(2) by (simp_all split: if_split_asm)
  show ?thesis
  proof (rule inv_move [OF assms(1)])
    have "sum_list (map held (workers st')) = sum_list (map held (workers st)) + {#p#}"
      using held_update [OF w(1), of "Eval p"] w(2) by (simp add: st')
    then show "started v st' = started v st" using w(3) by (simp add: started_def st')
    show "rem v st' q = rem v st q" for q
      using rem_update [OF w(1), of st' "Eval p" v q] w(2) by (simp add: st')
    show "\<forall>w \<in> set (workers st'). worker_ok v w"
      using workers_ok_update [OF inv_workers [OF assms(1)], of "Eval p" w] by (simp add: st' worker_ok_def)
  qed (simp_all add: st')
qed

lemma inv_seed:
  assumes "graph_ok v" "sched_inv v k st" "sched_do v Seed st = Some st'"
  shows "sched_inv v k st'"
proof -
  obtain p ps n where p: "seeding st = p # ps" "nheap v p = Some n"
    and st': "st' = st\<lparr>seeding := ps, tasks := (if depNum n = 0 then add_mset p (tasks st) else tasks st)\<rparr>"
    using assms(3) by (auto simp: seed_next_def bind_eq_Some_conv split: list.splits)
  show ?thesis
  proof (rule inv_move [OF assms(2)])
    show "started v st' = started v st" using p by (simp add: started_def st' source_def)
    show "rem v st' q = rem v st q" for q by (simp add: rem_def st')
    show "\<forall>w \<in> set (workers st'). worker_ok v w" using assms(2) by (simp add: sched_inv_def st')
  qed (use p in \<open>auto simp: st'\<close>)
qed

lemma inv_finish:
  assumes "sched_inv v k st" "w < List.length (workers st)" "workers st ! w = Notify [] cont"
    "worker_step v w (Notify [] cont) st = Some st'"
  shows "sched_inv v k st'"
proof -
  let ?x = "case cont of Some c \<Rightarrow> Eval c | None \<Rightarrow> Idle"
  have st': "st' = st\<lparr>workers := (workers st)[w := ?x]\<rparr>" using assms(4) by simp
  have h: "held ?x = held (Notify [] cont)" "pend v ?x = []" "worker_ok v ?x" by (cases cont; simp add: worker_ok_def)+
  show ?thesis
  proof (rule inv_move [OF assms(1)])
    have "sum_list (map held (workers st')) = sum_list (map held (workers st))"
      using held_update [OF assms(2), of ?x] assms(3) h(1) by (simp add: st')
    then show "started v st' = started v st" by (simp add: started_def st')
    show "rem v st' q = rem v st q" for q
      using rem_update [OF assms(2), of st' ?x v q] assms(3) h(2) by (simp add: st')
    show "\<forall>w \<in> set (workers st'). worker_ok v w"
      using workers_ok_update [OF inv_workers [OF assms(1)] h(3)] by (simp add: st')
  qed (simp_all add: st')
qed

lemma started_once:
  assumes "sched_inv v k st" "graph_ok v" "started v st = A + B" "x \<in># A"
  shows "x \<notin># B" "x \<in> set (vnodes v)"
proof -
  have sub: "A + B \<subseteq># mset (vnodes v)" using assms(1,3) by (simp add: sched_inv_def)
  then have "count A x + count B x \<le> count (mset (vnodes v)) x" by (metis count_union subseteq_mset_def)
  moreover have "count (mset (vnodes v)) x \<le> 1" using assms(2) by (simp add: graph_ok_def distinct_count_atmost_1)
  moreover have "0 < count A x" using assms(4) by simp
  ultimately have "count B x = 0" by linarith
  then show "x \<notin># B" by (simp add: not_in_iff)
  show "x \<in> set (vnodes v)" using sub assms(4) mset_subset_eqD by fastforce
qed

lemma held_member: "w < List.length ws \<Longrightarrow> held (ws ! w) \<subseteq># sum_list (map held ws)"
  by (induction ws arbitrary: w) (auto simp: nth_Cons split: nat.split intro: subset_mset.add_increasing)

lemma inv_eval:
  assumes g: "graph_ok v" and i: "sched_inv v k st" and w: "w < List.length (workers st)" "workers st ! w = Eval p"
    and s: "worker_step v w (Eval p) st = Some st'"
  shows "sched_inv v k st'"
proof -
  have "held (Eval p) \<subseteq># sum_list (map held (workers st))" using held_member [OF w(1)] w(2) by simp
  then obtain H where H: "sum_list (map held (workers st)) = {#p#} + H" by (auto simp only: mset_subset_eq_exists_conv held.simps)
  have st: "started v st = {#p#} + (mset (evaluated st) + tasks st + H + mset (filter (source v) (seeding st)))"
    by (simp add: started_def H)
  note once = started_once [OF i g st, of p]
  have p: "p \<in> set (vnodes v)" "p \<notin> set (evaluated st)" using once by auto
  have pst: "p \<in># started v st" by (simp add: st)
  obtain n where n: "nheap v p = Some n"
    "ntype n AND ksiNodeTypeOutputMask = ksiNodeTypeOutputNormal \<or>
     ntype n AND ksiNodeTypeOutputMask = ksiNodeTypeOutputFinal \<and> successors n = []"
    "\<forall>i \<in> set (successors n). in_table v i" using graph_okD [OF g p(1)] by blast
  have ne: "ksiNodeTypeOutputFinal \<noteq> ksiNodeTypeOutputNormal" by (simp add: node_type_defs)
  define fin where "fin \<longleftrightarrow> ntype n AND ksiNodeTypeOutputMask = ksiNodeTypeOutputFinal"
  have fin: "final v p = fin" using n(1) by (simp add: final_def fin_def)
  define x where "x = (if fin then Idle else Notify (successors n) None)"
  have st': "st' = st\<lparr>evaluated := evaluated st @ [p], workers := (workers st)[w := x], masterSem := masterSem st + (if fin then 1 else 0)\<rparr>"
    using s n ne by (auto simp: after_eval_def x_def fin_def)
  have held: "held x = {#}" and pend: "pend v x = succs v p" and ok: "worker_ok v x"
    using n ne by (auto simp: x_def fin_def succs_lookup worker_ok_def)
  have "sum_list (map held (workers st')) = H"
    using held_update [OF w(1), of x] w(2) held H by (simp add: st')
  then have same: "started v st' = started v st" by (simp add: started_def H st')
  have rem: "rem v st' q = rem v st q + wires v p q" for q
    using rem_update [OF w(1), of st' x v q] w(2) pend by (simp add: st' wires_def)
  have E: "set (evaluated st) \<subseteq> set (vnodes v)"
    using i by (auto simp: sched_inv_def started_def dest: mset_subset_eqD)
  have tot: "tot v (set (evaluated st')) q = tot v (set (evaluated st)) q + wires v p q" for q
    using p(2) by (simp add: st' tot_insert)
  have "counter_ok v st' q" if q: "q \<in> set (vnodes v)" for q
  proof -
    have c: "counter_ok v st q" using i q by (simp add: sched_inv_def)
    have "insert p (set (evaluated st)) \<subseteq> set (vnodes v)" using E p(1) by simp
    from tot_mono [OF this, of q] have le: "tot v (set (evaluated st)) q + wires v p q \<le> dep v q"
      using p(2) by (simp add: tot_insert)
    show ?thesis using c le unfolding counter_ok_def same rem tot by (auto simp: st' split: if_split_asm)
  qed
  moreover have "ordered_log v (evaluated st')"
  proof -
    have "q \<in> set (evaluated st)" if "q \<in> set (vnodes v)" "p \<in> set (succs v q)" for q
    proof (rule tot_full [OF E _ that])
      have "counter_ok v st p" using i p(1) by (simp add: sched_inv_def)
      then show "tot v (set (evaluated st)) p = dep v p" using pst by (simp add: counter_ok_def)
    qed
    then show ?thesis using i by (auto simp: sched_inv_def ordered_log_def st' nth_append less_Suc_eq)
  qed
  moreover have "\<forall>w \<in> set (workers st'). worker_ok v w"
    using workers_ok_update [OF inv_workers [OF i] ok] by (simp add: st')
  moreover have "masterSem st' = List.length (filter (final v) (evaluated st'))"
    using i fin by (simp add: sched_inv_def st')
  ultimately show ?thesis using i same by (simp add: sched_inv_def) (simp add: st')
qed

lemma rem_positive: "w < List.length (workers st) \<Longrightarrow> count (mset (pend v (workers st ! w))) q \<le> rem v st q"
  unfolding rem_def by (rule member_le_sum_list) auto

text \<open>A notification at its two outcomes: another wire into the successor is still open, or it was
  the last one.\<close>

lemma inv_notify:
  assumes g: "graph_ok v" and i: "sched_inv v k st" and w: "w < List.length (workers st)" "workers st ! w = Notify (j # rest) cont"
    and s: "notify_successor v j w rest cont st = Some st'"
  shows "sched_inv v k st'"
proof -
  have "worker_ok v (workers st ! w)" using inv_workers [OF i] w(1) by simp
  then have j: "in_table v j" and rest: "worker_ok v (Notify rest c)" for c by (auto simp: w(2) worker_ok_def)
  define q where "q = lookup v j"
  have q: "get_at (vdata (nlist v)) j = Some q" "q \<in> set (vnodes v)" using in_table_lookup [OF j] by (simp_all add: q_def)
  obtain n where n: "nheap v q = Some n" "depNum n = int (dep v q)" using graph_okD [OF g q(2)] by blast
  let ?tot = "tot v (set (evaluated st))"
  have E: "set (evaluated st) \<subseteq> set (vnodes v)"
    using i by (auto simp: sched_inv_def started_def dest: mset_subset_eqD)
  have "0 < count (mset (pend v (workers st ! w))) q" by (simp add: w(2) q_def)
  then have r: "0 < rem v st q" using rem_positive [OF w(1), of v q] by linarith
  have cq: "counter_ok v st q" using i q(2) by (simp add: sched_inv_def)
  then have out: "q \<notin># started v st" using r by (auto simp: counter_ok_def)
  then have c: "depCounter st q + int (rem v st q) = int (?tot q)" "0 \<le> depCounter st q" "depCounter st q < int (dep v q)"
    using cq by (simp_all add: counter_ok_def)
  have le: "?tot q \<le> dep v q" by (rule tot_mono [OF E])
  have rem: "rem v st' a = (if a = q then rem v st a - 1 else rem v st a)" if "workers st' = (workers st)[w := x]"
    "pend v x = map (lookup v) rest" for x a
    using rem_update [OF w(1) that(1), of v a] r by (simp add: w(2) that(2) q_def split: if_split_asm)
  show ?thesis
  proof (cases "depCounter st q = depNum n - 1")
    case False
    then have st': "st' = st\<lparr>depCounter := (depCounter st)(q := depCounter st q + 1), workers := (workers st)[w := Notify rest cont]\<rparr>"
      using s q(1) n(1) by (simp add: notify_successor_def)
    have "sum_list (map held (workers st')) = sum_list (map held (workers st))"
      using held_update [OF w(1), of "Notify rest cont"] w(2) by (cases cont) (simp_all add: st')
    then have same: "started v st' = started v st" by (simp add: started_def st')
    have rem': "rem v st' a = (if a = q then rem v st a - 1 else rem v st a)" for a
      by (rule rem [of "Notify rest cont"]) (simp_all add: st')
    have eqs: "depCounter st' = (depCounter st)(q := depCounter st q + 1)" "evaluated st' = evaluated st" by (simp_all add: st')
    have "counter_ok v st' a" if a: "a \<in> set (vnodes v)" for a
    proof -
      have "counter_ok v st a" using i a by (simp add: sched_inv_def)
      then show ?thesis using c r out False n(2) unfolding counter_ok_def same rem' eqs by (auto split: if_split_asm)
    qed
    then show ?thesis using i same workers_ok_update [OF inv_workers [OF i] rest, of w cont]
      by (simp add: sched_inv_def) (simp add: st')
  next
    case True
    define x where "x = (case cont of Some c \<Rightarrow> Notify rest cont | None \<Rightarrow> Notify rest (Some q))"
    define T where "T = (case cont of Some c \<Rightarrow> add_mset q (tasks st) | None \<Rightarrow> tasks st)"
    have st': "st' = st\<lparr>depCounter := (depCounter st)(q := 0), tasks := T, workers := (workers st)[w := x]\<rparr>"
      using s q(1) n(1) True by (cases cont) (simp_all add: notify_successor_def x_def T_def)
    have px: "pend v x = map (lookup v) rest" "worker_ok v x" using rest by (cases cont; simp add: x_def)+
    have "T + sum_list (map held (workers st')) = add_mset q (tasks st + sum_list (map held (workers st)))"
      using held_update [OF w(1), of x] w(2) by (cases cont) (simp_all add: st' x_def T_def)
    then have more: "started v st' = add_mset q (started v st)" by (simp add: started_def st' add_ac)
    have rem': "rem v st' a = (if a = q then rem v st a - 1 else rem v st a)" for a
      by (rule rem [of x]) (simp_all add: st' px(1))
    have eqs: "depCounter st' = (depCounter st)(q := 0)" "evaluated st' = evaluated st" by (simp_all add: st')
    have full: "?tot q = dep v q" "rem v st q = 1" using c le True n(2) r by linarith+
    have "counter_ok v st' a" if a: "a \<in> set (vnodes v)" for a
    proof -
      have "counter_ok v st a" using i a by (simp add: sched_inv_def)
      then show ?thesis using full unfolding counter_ok_def more rem' eqs by (auto split: if_split_asm)
    qed
    moreover have "started v st' \<subseteq># mset (vnodes v)"
    proof -
      have "count (started v st) q = 0" using out by (simp add: not_in_iff)
      moreover have "0 < count (mset (vnodes v)) q" using q(2) by simp
      moreover have "started v st \<subseteq># mset (vnodes v)" using i by (simp add: sched_inv_def)
      ultimately show ?thesis unfolding more subseteq_mset_def by (auto simp: Suc_le_eq)
    qed
    ultimately show ?thesis using i workers_ok_update [OF inv_workers [OF i] px(2), of w]
      by (simp add: sched_inv_def) (simp add: st')
  qed
qed

lemma inv_step:
  assumes "graph_ok v" "sched_inv v k st" "sched_do v ev st = Some st'"
  shows "sched_inv v k st'"
proof (cases ev)
  case Seed
  then show ?thesis using inv_seed assms by blast
next
  case (Take w p)
  then show ?thesis using inv_take assms by blast
next
  case (Work w)
  then have w: "w < List.length (workers st)" "worker_step v w (workers st ! w) st = Some st'"
    using assms(3) by (simp_all split: if_split_asm)
  show ?thesis
  proof (cases "workers st ! w")
    case (Eval p)
    then show ?thesis using inv_eval [OF assms(1,2) w(1)] w(2) by simp
  next
    case (Notify todo cont)
    then show ?thesis
      using inv_finish [OF assms(2) w(1)] inv_notify [OF assms(1,2) w(1)] w(2) by (cases todo) auto
  qed (use w in simp)
qed

lemma inv_steps: "sched_steps v st j st' \<Longrightarrow> graph_ok v \<Longrightarrow> sched_inv v k st \<Longrightarrow> sched_inv v k st'"
  by (induction rule: sched_steps.induct) (blast intro: inv_step)+

section \<open>Every evaluation ends\<close>

fun work_left :: "worker \<Rightarrow> nat" where
  "work_left (Notify todo c) = 2 * List.length todo + 1"
| "work_left _ = 0"

definition weight :: "version \<Rightarrow> sched \<Rightarrow> nat" where
  "weight v st = (\<Sum>p \<in> set (vnodes v) - set (evaluated st). 2 * List.length (succs v p) + 2) +
     2 * List.length (seeding st) + size (tasks st) + (\<Sum>w \<leftarrow> workers st. work_left w)"

lemma weight_eqs:
  "weight v (st\<lparr>seeding := s\<rparr>) + 2 * List.length (seeding st) = weight v st + 2 * List.length s"
  "weight v (st\<lparr>tasks := T\<rparr>) + size (tasks st) = weight v st + size T"
  "w < List.length (workers st) \<Longrightarrow>
     weight v (st\<lparr>workers := (workers st)[w := x]\<rparr>) + work_left (workers st ! w) = weight v st + work_left x"
  "weight v (st\<lparr>depCounter := d\<rparr>) = weight v st" "weight v (st\<lparr>masterSem := m\<rparr>) = weight v st"
  using sum_list_update [of w "workers st" work_left x] by (simp_all add: weight_def)

lemma weight_eval:
  assumes "p \<in> set (vnodes v)" "p \<notin> set (evaluated st)"
  shows "weight v (st\<lparr>evaluated := evaluated st @ [p]\<rparr>) + 2 * List.length (succs v p) + 2 = weight v st"
proof -
  let ?f = "\<lambda>p. 2 * List.length (succs v p) + 2" and ?S = "set (vnodes v) - set (evaluated st)"
  have "sum ?f ?S = ?f p + sum ?f (?S - {p})" by (rule sum.remove) (use assms in auto)
  moreover have "set (vnodes v) - set (evaluated st @ [p]) = ?S - {p}" by auto
  ultimately show ?thesis by (simp add: weight_def)
qed

lemma notify_result:
  assumes "notify_successor v j w rest cont st = Some st'"
  obtains d T c where "st' = st\<lparr>depCounter := d, tasks := T, workers := (workers st)[w := Notify rest c]\<rparr>" "size T \<le> size (tasks st) + 1"
proof -
  obtain s n where sn: "get_at (vdata (nlist v)) j = Some s" "nheap v s = Some n"
    using assms by (auto simp: notify_successor_def bind_eq_Some_conv)
  show ?thesis
  proof (cases "depCounter st s = depNum n - 1")
    case True
    show ?thesis
    proof (cases cont)
      case None
      show ?thesis using assms sn True None
        by (intro that [where d = "(depCounter st)(s := 0)" and T = "tasks st" and c = "Some s"]) (auto simp: notify_successor_def)
    next
      case (Some c)
      show ?thesis using assms sn True Some
        by (intro that [where d = "(depCounter st)(s := 0)" and T = "add_mset s (tasks st)" and c = cont]) (auto simp: notify_successor_def)
    qed
  next
    case False
    show ?thesis using assms sn False
      by (intro that [where d = "(depCounter st)(s := depCounter st s + 1)" and T = "tasks st" and c = cont]) (auto simp: notify_successor_def)
  qed
qed

lemma weight_step:
  assumes g: "graph_ok v" and i: "sched_inv v k st" and s: "sched_do v ev st = Some st'"
  shows "weight v st' < weight v st"
proof (cases ev)
  case Seed
  obtain p ps n where p: "seeding st = p # ps" "nheap v p = Some n"
    and st': "st' = st\<lparr>seeding := ps, tasks := (if depNum n = 0 then add_mset p (tasks st) else tasks st)\<rparr>"
    using s Seed by (auto simp: seed_next_def bind_eq_Some_conv split: list.splits)
  show ?thesis by (auto simp: st' weight_def p)
next
  case (Take w p)
  have w: "w < List.length (workers st)" "workers st ! w = Idle" "p \<in># tasks st"
    and st': "st' = st\<lparr>tasks := tasks st - {#p#}, workers := (workers st)[w := Eval p]\<rparr>"
    using s Take by (simp_all split: if_split_asm)
  have "tasks st \<noteq> {#}" using w(3) by auto
  then have "0 < size (tasks st)" by (simp add: nonempty_has_size)
  then show ?thesis using sum_list_update [OF w(1), of work_left "Eval p"] w(2,3)
    by (simp add: st' weight_def size_Diff_singleton)
next
  case (Work w)
  have w: "w < List.length (workers st)" "worker_step v w (workers st ! w) st = Some st'"
    using s Work by (simp_all split: if_split_asm)
  show ?thesis
  proof (cases "workers st ! w")
    case (Eval p)
    have "held (Eval p) \<subseteq># sum_list (map held (workers st))" using held_member [OF w(1)] Eval by simp
    then obtain H where H: "sum_list (map held (workers st)) = {#p#} + H" by (auto simp only: mset_subset_eq_exists_conv held.simps)
    have "started v st = {#p#} + (mset (evaluated st) + tasks st + H + mset (filter (source v) (seeding st)))"
      by (simp add: started_def H)
    note once = started_once [OF i g this, of p]
    then have p: "p \<in> set (vnodes v)" "p \<notin> set (evaluated st)" by auto
    obtain n where n: "nheap v p = Some n" "ntype n AND ksiNodeTypeOutputMask = ksiNodeTypeOutputNormal \<or>
        ntype n AND ksiNodeTypeOutputMask = ksiNodeTypeOutputFinal \<and> successors n = []"
      using graph_okD [OF g p(1)] by blast
    let ?st = "st\<lparr>evaluated := evaluated st @ [p]\<rparr>"
    obtain x m where st': "st' = ?st\<lparr>workers := (workers st)[w := x], masterSem := m\<rparr>"
      and x: "work_left x \<le> 2 * List.length (succs v p) + 1"
    proof (cases "ntype n AND ksiNodeTypeOutputMask = ksiNodeTypeOutputNormal")
      case True
      then show ?thesis using that [where x = "Notify (successors n) None" and m = "masterSem st"] w(2) n(1)
        by (simp add: Eval after_eval_def succs_lookup)
    next
      case False
      then show ?thesis using that [where x = Idle and m = "masterSem st + 1"] w(2) n by (simp add: Eval after_eval_def)
    qed
    have "weight v st' + work_left (workers ?st ! w) = weight v ?st + work_left x"
      using sum_list_update [of w "workers st" work_left x] w(1) by (simp add: st' weight_def)
    then show ?thesis using weight_eval [OF p] x by simp
  next
    case (Notify todo cont)
    show ?thesis
    proof (cases todo)
      case Nil
      then show ?thesis using w Notify weight_eqs(3) [OF w(1), of v "case cont of Some c \<Rightarrow> Eval c | None \<Rightarrow> Idle"]
        by (cases cont) auto
    next
      case (Cons j rest)
      then have n: "notify_successor v j w rest cont st = Some st'" using w(2) Notify by simp
      obtain d T c where st': "st' = st\<lparr>depCounter := d, tasks := T, workers := (workers st)[w := Notify rest c]\<rparr>"
        and T: "size T \<le> size (tasks st) + 1"
        by (rule notify_result [OF n])
      show ?thesis
        using T sum_list_update [OF w(1), of work_left "Notify rest c"] Notify Cons by (simp add: st' weight_def)
    qed
  qed (use w in simp)
qed

lemma weight_steps: "sched_steps v st j st' \<Longrightarrow> graph_ok v \<Longrightarrow> sched_inv v k st \<Longrightarrow> j + weight v st' \<le> weight v st"
proof (induction rule: sched_steps.induct)
  case (step st j st' ev st'')
  then show ?case using weight_step [OF step.prems(1) inv_steps [OF step.hyps(1) step.prems] step.hyps(2)] by simp
qed simp

section \<open>Where no step is possible\<close>

lemma rank_minimal:
  fixes rank :: "ptr \<Rightarrow> nat"
  shows "p \<in> A \<Longrightarrow> \<exists>q \<in> A. \<forall>a \<in> A. rank q \<le> rank a"
  using ex_has_least_nat [of "\<lambda>x. x \<in> A" p rank] by blast

lemma stuck_complete:
  assumes g: "graph_ok v" and i: "sched_inv v k st" and k: "0 < k" and stuck: "\<And>ev. sched_do v ev st = None"
  shows "set (evaluated st) = set (vnodes v)" "tasks st = {#}" "workers st = replicate k Idle" "seeding st = []"
    "\<forall>p \<in> set (vnodes v). depCounter st p = 0"
proof -
  have len: "List.length (workers st) = k" and sub: "started v st \<subseteq># mset (vnodes v)"
    using i by (simp_all add: sched_inv_def)
  have node: "p \<in> set (vnodes v)" if "p \<in># started v st" for p
    using sub that mset_subset_eqD by fastforce
  have heap: "\<exists>n. nheap v p = Some n" if "p \<in> set (vnodes v)" for p using graph_okD [OF g that] by blast
  show seed: "seeding st = []"
  proof (cases "seeding st")
    case (Cons p ps)
    then have "\<exists>n. nheap v p = Some n" using i heap by (simp add: sched_inv_def)
    then show ?thesis using stuck [of Seed] Cons by (auto simp: seed_next_def)
  qed simp
  have idle: "workers st ! w = Idle" if w: "w < k" for w
  proof (cases "workers st ! w")
    case (Eval p)
    have "held (workers st ! w) \<subseteq># started v st"
      using held_member [of w "workers st"] w len unfolding started_def by (meson mset_subset_eq_add_left mset_subset_eq_add_right subset_mset.order_trans)
    then have "p \<in># started v st" using Eval by simp
    then show ?thesis using stuck [of "Work w"] heap node w len Eval by fastforce
  next
    case (Notify todo cont)
    show ?thesis
    proof (cases todo)
      case (Cons j rest)
      have "worker_ok v (workers st ! w)" using inv_workers [OF i] w len by simp
      then have "in_table v j" using Notify Cons by (simp add: worker_ok_def)
      from in_table_lookup [OF this] heap obtain n where "get_at (vdata (nlist v)) j = Some (lookup v j)" "nheap v (lookup v j) = Some n"
        by blast
      then have "notify_successor v j w rest cont st \<noteq> None"
        by (simp add: notify_successor_def Let_def split: option.split)
      then show ?thesis using stuck [of "Work w"] w len Notify Cons by simp
    qed (use stuck [of "Work w"] w len Notify in simp)
  qed
  then show ws: "workers st = replicate k Idle" using len by (simp add: list_eq_iff_nth_eq)
  show tasks: "tasks st = {#}"
  proof (rule ccontr)
    assume "tasks st \<noteq> {#}"
    then obtain p where "p \<in># tasks st" by (rule multiset_nonemptyE)
    then show False using stuck [of "Take 0 p"] k idle [OF k] len by simp
  qed
  have st: "started v st = mset (evaluated st)"
    by (simp add: started_def ws tasks seed map_replicate_const sum_replicate_zero)
  have rem: "rem v st q = 0" for q by (simp add: rem_def ws map_replicate_const sum_replicate_zero)
  have E: "set (evaluated st) \<subseteq> set (vnodes v)" using node by (auto simp: st)
  show all: "set (evaluated st) = set (vnodes v)"
  proof (rule ccontr)
    assume "set (evaluated st) \<noteq> set (vnodes v)"
    then obtain p where "p \<in> set (vnodes v) - set (evaluated st)" using E by blast
    moreover obtain rank :: "ptr \<Rightarrow> nat" where rank: "\<forall>p \<in> set (vnodes v). \<forall>q \<in> set (succs v p). rank p < rank q"
      using g by (auto simp: graph_ok_def)
    ultimately obtain q where q: "q \<in> set (vnodes v)" "q \<notin> set (evaluated st)"
      "\<forall>a \<in> set (vnodes v) - set (evaluated st). rank q \<le> rank a"
      using rank_minimal [of p "set (vnodes v) - set (evaluated st)" rank] by blast
    have "counter_ok v st q" using i q(1) by (simp add: sched_inv_def)
    then have "tot v (set (evaluated st)) q < dep v q" using q(2) by (simp add: counter_ok_def st rem)
    moreover have "dep v q = tot v (set (evaluated st)) q + tot v (set (vnodes v) - set (evaluated st)) q"
      unfolding dep_def tot_def using sum.subset_diff [OF E] by (simp add: add.commute)
    moreover have "tot v (set (vnodes v) - set (evaluated st)) q = 0"
    proof -
      have "wires v a q = 0" if a: "a \<in> set (vnodes v) - set (evaluated st)" for a
      proof (rule ccontr)
        assume "wires v a q \<noteq> 0"
        then have "q \<in> set (succs v a)" by (auto simp: wires_def intro: ccontr)
        then have "rank a < rank q" using rank a by blast
        then show False using q(3) a by (meson leD)
      qed
      then show ?thesis by (simp add: tot_def)
    qed
    ultimately show False by simp
  qed
  show "\<forall>p \<in> set (vnodes v). depCounter st p = 0"
    using i all by (auto simp: sched_inv_def counter_ok_def st)
qed

section \<open>Runs\<close>

fun sched_run :: "version \<Rightarrow> sched_event list \<Rightarrow> sched \<Rightarrow> sched option" where
  "sched_run v [] st = Some st"
| "sched_run v (ev # evs) st = do { st \<leftarrow> sched_do v ev st; sched_run v evs st }"

lemma steps_trans: "sched_steps v st k st' \<Longrightarrow> sched_steps v st0 j st \<Longrightarrow> sched_steps v st0 (j + k) st'"
  by (induction rule: sched_steps.induct) (auto intro: sched_steps.intros)

lemma run_steps: "sched_run v evs st = Some st' \<Longrightarrow> sched_steps v st (List.length evs) st'"
proof (induction evs arbitrary: st)
  case (Cons ev evs)
  then obtain st1 where "sched_do v ev st = Some st1" "sched_run v evs st1 = Some st'" by (auto simp: bind_eq_Some_conv)
  then show ?case using Cons.IH steps_trans [OF Cons.IH sched_steps.step [OF sched_steps.start]] by fastforce
qed (simp add: sched_steps.start)

definition steps_bound :: "version \<Rightarrow> nat" where
  "steps_bound v = (\<Sum>p \<in> set (vnodes v). 2 * List.length (succs v p) + 2) + 2 * List.length (vnodes v)"

lemma weight_init: "weight v (sched_init v k) = steps_bound v"
  by (simp add: weight_def steps_bound_def sched_init_def vnodes_def map_replicate_const sum_replicate_zero)

lemma log_distinct:
  assumes "graph_ok v" "sched_inv v k st"
  shows "distinct (evaluated st)" "set (evaluated st) \<subseteq> set (vnodes v)"
proof -
  have "mset (evaluated st) \<subseteq># started v st" by (simp add: started_def add.assoc)
  also have "\<dots> \<subseteq># mset (vnodes v)" using assms(2) by (simp add: sched_inv_def)
  finally have sub: "mset (evaluated st) \<subseteq># mset (vnodes v)" .
  have "count (mset (evaluated st)) a = (if a \<in> set (evaluated st) then 1 else 0)" for a
  proof (cases "a \<in> set (evaluated st)")
    case True
    then have "0 < count (mset (evaluated st)) a" by simp
    moreover have "count (mset (evaluated st)) a \<le> count (mset (vnodes v)) a" using sub by (simp add: subseteq_mset_def)
    moreover have "count (mset (vnodes v)) a \<le> 1" using assms(1) by (simp add: graph_ok_def distinct_count_atmost_1)
    ultimately have "count (mset (evaluated st)) a = 1" by linarith
    then show ?thesis using True by simp
  qed (simp add: count_mset_0_iff)
  then show "distinct (evaluated st)" by (simp only: distinct_count_atmost_1) simp
  show "set (evaluated st) \<subseteq> set (vnodes v)" using sub by (metis set_mset_mset set_mset_mono)
qed

lemma ancestors_evaluated:
  assumes "ordered_log v E" "q \<in> set E" "p \<in> set (vnodes v)" "q \<in> set (succs v p)"
  shows "p \<in> set E"
proof -
  obtain i where "i < List.length E" "E ! i = q" using assms(2) by (auto simp: in_set_conv_nth)
  then have "p \<in> set (take i E)" using assms by (auto simp: ordered_log_def)
  then show ?thesis by (rule in_set_takeD)
qed

definition graph_wires :: "version \<Rightarrow> (ptr \<times> ptr) set" where
  "graph_wires v = {(p, q). p \<in> set (vnodes v) \<and> q \<in> set (succs v p)}"

section \<open>Properties\<close>

text \<open>Two nodes feeding a final one, the second also fed by the first, for the examples.\<close>

definition ex_vnode :: "int32 \<Rightarrow> int \<Rightarrow> int list \<Rightarrow> KsiNode" where
  "ex_vnode t d s = \<lparr>depNum = d, successors = s, nid = 0, ntype = t, outputCount = 0, outputTypes = NoTypes,
     outputBuffer = [], inputCount = 0, inputTypes = NoTypes, nenv = [], nargs = NULL, extArgs = []\<rparr>"

definition ex_version :: "int list \<Rightarrow> int list \<Rightarrow> int \<Rightarrow> int \<Rightarrow> version" where
  "ex_version s1 s2 d2 d3 = \<lparr>nlist = \<lparr>vsize = 3, vcap = 4, vdata = [1, 2, 3, 0], vfree = []\<rparr>,
     nheap = [1 \<mapsto> ex_vnode 0 0 s1, 2 \<mapsto> ex_vnode 0 d2 s2, 3 \<mapsto> ex_vnode 0x10 d3 []], nnext = 4, finalNode = 3\<rparr>"

abbreviation ex_graph :: version where
  "ex_graph \<equiv> ex_version [2, 1] [2] 1 2"

lemma ex_nodes: "vnodes (ex_version s1 s2 d2 d3) = [1, 2, 3]"
  by (simp add: vnodes_def ksiVecIterate_def ex_version_def upt_rec)

lemma ex_graph_ok: "graph_ok ex_graph"
proof -
  have "\<forall>p \<in> {1, 2, 3}. \<forall>q \<in> set (succs ex_graph p). id p < id q"
    by (simp add: succs_def ex_version_def ex_vnode_def get_at_def)
  moreover have "in_table ex_graph i" if "i \<in> {1, 2}" for i
    using that unfolding in_table_def ex_nodes by (auto simp: ex_version_def get_at_def)
  ultimately show ?thesis
    unfolding graph_ok_def ex_nodes
    by (auto simp: ex_version_def ex_vnode_def node_type_defs succs_def get_at_def intro!: exI [of _ id])
qed

definition ex_events :: "sched_event list" where
  "ex_events = [Seed, Take 0 1, Work 0, Seed, Work 0, Work 0, Work 0, Work 0, Seed, Work 0, Work 0, Work 0]"

lemma ex_run: "map_option (\<lambda>st. (evaluated st, masterSem st, workers st, tasks st = {#}, seeding st))
    (sched_run ex_graph ex_events (sched_init ex_graph 2)) = Some ([1, 2, 3], 1, [Idle, Idle], True, [])"
  by code_simp

text \<open>C16: At every moment of the evaluation of a buffer, with any number of workers and any
  interleaving of their steps, no node has been evaluated twice and every node evaluated so far
  was evaluated after all its predecessors.\<close>

theorem evaluates_once_in_order:
  assumes "graph_ok v" "sched_steps v (sched_init v k) n st"
  shows "distinct (evaluated st) \<and> (\<forall>i < List.length (evaluated st). \<forall>p \<in> set (vnodes v).
     evaluated st ! i \<in> set (succs v p) \<longrightarrow> p \<in> set (take i (evaluated st)))"
proof -
  have "sched_inv v k st" by (rule inv_steps [OF assms(2,1) sched_inv_init [OF assms(1)]])
  then show ?thesis using log_distinct(1) [OF assms(1)] by (simp add: sched_inv_def ordered_log_def)
qed

lemma ex_steps: "\<exists>st. sched_steps ex_graph (sched_init ex_graph 2) 12 st \<and> evaluated st = [1, 2, 3] \<and> masterSem st = 1 \<and>
    workers st = [Idle, Idle] \<and> tasks st = {#} \<and> seeding st = []"
proof -
  obtain st where st: "sched_run ex_graph ex_events (sched_init ex_graph 2) = Some st" "evaluated st = [1, 2, 3]" "masterSem st = 1"
    "workers st = [Idle, Idle]" "tasks st = {#}" "seeding st = []" using ex_run by auto
  have "List.length ex_events = 12" by (simp add: ex_events_def)
  then show ?thesis using run_steps [OF st(1)] st by auto
qed

theorem evaluates_once_in_order_witness:
  "\<exists>st. sched_steps ex_graph (sched_init ex_graph 2) 12 st \<and> evaluated st = [1, 2, 3] \<and> distinct (evaluated st)"
  using ex_steps evaluates_once_in_order [OF ex_graph_ok] by blast

text \<open>C18: The evaluation of a buffer ends: no interleaving has more steps than twice the nodes
  and wires of the graph and the nodes once more.\<close>

theorem evaluation_terminates:
  assumes "graph_ok v" "sched_steps v (sched_init v k) n st"
  shows "n \<le> steps_bound v"
  using weight_steps [OF assms(2,1) sched_inv_init [OF assms(1)]] by (simp add: weight_init)

theorem evaluation_terminates_witness:
  "(\<exists>st. sched_steps ex_graph (sched_init ex_graph 2) 12 st) \<and> (12::nat) \<le> steps_bound ex_graph"
  using ex_steps evaluation_terminates [OF ex_graph_ok] by blast



text \<open>C19: When every node leads to the only final node, the signal the callback waits for comes
  after all nodes have been evaluated.\<close>

theorem signal_after_all:
  assumes "graph_ok v" "sched_steps v (sched_init v k) n st"
    "\<And>p. p \<in> set (vnodes v) \<Longrightarrow> (p, f) \<in> (graph_wires v)\<^sup>*" "\<And>p. final v p \<Longrightarrow> p = f" "0 < masterSem st"
  shows "set (evaluated st) = set (vnodes v)"
proof -
  have i: "sched_inv v k st" by (rule inv_steps [OF assms(2,1) sched_inv_init [OF assms(1)]])
  have "filter (final v) (evaluated st) \<noteq> []" using i assms(5) by (auto simp: sched_inv_def)
  then have f: "f \<in> set (evaluated st)" using assms(4) by (auto simp: filter_empty_conv)
  have "(p, f) \<in> (graph_wires v)\<^sup>* \<Longrightarrow> p \<in> set (evaluated st)" for p
  proof (induction rule: converse_rtrancl_induct)
    case (step p q)
    then show ?case using ancestors_evaluated [of v "evaluated st" q p] i by (auto simp: graph_wires_def sched_inv_def)
  qed (rule f)
  then show ?thesis using assms(3) log_distinct(2) [OF assms(1) i] by blast
qed

theorem signal_after_all_witness:
  "\<exists>st. sched_steps ex_graph (sched_init ex_graph 2) 12 st \<and> masterSem st = 1 \<and> set (evaluated st) = {1, 2, 3}"
proof -
  obtain st where st: "sched_steps ex_graph (sched_init ex_graph 2) 12 st" "masterSem st = 1" using ex_steps by blast
  have "(1, 3) \<in> graph_wires ex_graph" "(2, 3) \<in> graph_wires ex_graph"
    unfolding graph_wires_def ex_nodes by (auto simp: succs_def ex_version_def ex_vnode_def get_at_def)
  then have "(p, 3) \<in> (graph_wires ex_graph)\<^sup>*" if "p \<in> set (vnodes ex_graph)" for p
    using that unfolding ex_nodes by auto
  moreover have "p = 3" if "final ex_graph p" for p
    using that by (auto simp: final_def ex_version_def ex_vnode_def node_type_defs split: if_split_asm)
  ultimately have "set (evaluated st) = set (vnodes ex_graph)"
    by (rule signal_after_all [OF ex_graph_ok st(1)]) (simp_all add: st(2))
  then show ?thesis using st unfolding ex_nodes by auto
qed

text \<open>A node that does not lead to the final node is not waited for: the callback can return
  while the node is still a task, and the next buffer enqueues it a second time.\<close>

theorem signal_before_unconnected_node:
  "map_option (\<lambda>st. (masterSem st, evaluated st, seeding st, 1 \<in># tasks st))
     (sched_run (ex_version [] [2] 0 1) [Seed, Seed, Seed, Take 0 2, Work 0, Work 0, Work 0, Work 0]
       (sched_init (ex_version [] [2] 0 1) 1)) = Some (1, [2, 3], [], True)"
  by code_simp

end
