(* ===== verification/Ring_Buffer.thy ===== *)
theory Ring_Buffer
  imports Prelude
begin

text \<open>
  A worker's own queue (\<^verbatim>\<open>ksid/ring_buffer.c\<close>): segments of 256 cells, chained from \<open>tail\<close> to
  \<open>head\<close>. The owner pushes and pops at the head, everybody takes at the tail; segments that
  are given up go to a free list of the epoch and are released two epochs later.

  \<open>Pop\<close> and \<open>Take\<close> are given as the steps between their accesses to the shared memory, so
  that calls can be interleaved; a call that runs alone is the repetition of its steps. The
  stores that move a segment to a free list are one step. An uninitialised cell and a released
  segment are not there to be read. A weak exchange that fails for no reason repeats the loop
  and is left out.
\<close>

section \<open>State\<close>

definition ksiRingBufferNodeLength :: uint64 where "ksiRingBufferNodeLength = 256"

record segment =
  sprev :: ptr
  cells :: "uint64 \<Rightarrow> ptr option"
  head_idx :: uint64
  tail_idx :: uint64
  snext :: ptr

record ebr_entry =
  active :: bool
  eepoch :: nat
  freelist :: "ptr list"

record ring =
  rhead :: ptr
  rtail :: ptr
  repoch :: nat
  ebrEntries :: "ebr_entry list"
  segs :: "ptr \<Rightarrow> segment option"
  sfresh :: ptr

definition cell :: "segment \<Rightarrow> uint64 \<Rightarrow> ptr option" where
  "cell s i = cells s (i mod ksiRingBufferNodeLength)"

definition seg_update :: "ptr \<Rightarrow> (segment \<Rightarrow> segment) \<Rightarrow> ring \<Rightarrow> ring option" where
  "seg_update a f rb = do { s \<leftarrow> segs rb a; Some (rb\<lparr>segs := (segs rb)(a \<mapsto> f s)\<rparr>) }"

definition new_segment :: "segment \<Rightarrow> ring \<Rightarrow> ptr \<times> ring" where
  "new_segment s rb = (sfresh rb, rb\<lparr>segs := (segs rb)(sfresh rb \<mapsto> s), sfresh := Suc (sfresh rb)\<rparr>)"

definition ksiRingBufferSegmentNew :: "ptr \<Rightarrow> segment" where
  "ksiRingBufferSegmentNew data = \<lparr>sprev = NULL, cells = [0 \<mapsto> data], head_idx = 1, tail_idx = 0, snext = NULL\<rparr>"

definition ksiRingBufferEBREntryInit :: ebr_entry where
  "ksiRingBufferEBREntryInit = \<lparr>active = False, eepoch = 0, freelist = replicate 3 NULL\<rparr>"

definition ksiRingBufferInit :: "nat \<Rightarrow> ring" where
  "ksiRingBufferInit nprocs =
     \<lparr>rhead = 1, rtail = 1, repoch = 0, ebrEntries = replicate nprocs ksiRingBufferEBREntryInit,
      segs = [1 \<mapsto> \<lparr>sprev = NULL, cells = Map.empty, head_idx = 0, tail_idx = 0, snext = NULL\<rparr>], sfresh = 2\<rparr>"

section \<open>Epochs\<close>

definition entry_update :: "nat \<Rightarrow> (ebr_entry \<Rightarrow> ebr_entry) \<Rightarrow> ring \<Rightarrow> ring option" where
  "entry_update tid f rb = do {
     ee \<leftarrow> get_at (ebrEntries rb) (int tid);
     Some (rb\<lparr>ebrEntries := (ebrEntries rb)[tid := f ee]\<rparr>)
   }"

definition ksiRingBufferConsumerEnter :: "nat \<Rightarrow> ring \<Rightarrow> ring option" where
  "ksiRingBufferConsumerEnter tid rb = entry_update tid (\<lambda>ee. ee\<lparr>active := True, eepoch := repoch rb\<rparr>) rb"

definition ksiRingBufferConsumerLeave :: "nat \<Rightarrow> ring \<Rightarrow> ring option" where
  "ksiRingBufferConsumerLeave tid rb = entry_update tid (\<lambda>ee. ee\<lparr>active := False\<rparr>) rb"

text \<open>\<open>prevTail->prev = ee->freelist[ee->epoch]; ee->freelist[ee->epoch] = prevTail\<close>\<close>

definition give_up :: "nat \<Rightarrow> ptr \<Rightarrow> ring \<Rightarrow> ring option" where
  "give_up tid a rb = do {
     ee \<leftarrow> get_at (ebrEntries rb) (int tid);
     f \<leftarrow> get_at (freelist ee) (int (eepoch ee));
     rb \<leftarrow> seg_update a (\<lambda>s. s\<lparr>sprev := f\<rparr>) rb;
     entry_update tid (\<lambda>ee. ee\<lparr>freelist := (freelist ee)[eepoch ee := a]\<rparr>) rb
   }"

partial_function (option) destroyFromTail :: "ptr \<Rightarrow> ring \<Rightarrow> ring option" where
  "destroyFromTail cur rb =
     (if cur = NULL then Some rb
      else do {
        s \<leftarrow> segs rb cur;
        destroyFromTail (sprev s) (rb\<lparr>segs := (segs rb)(cur := None)\<rparr>)
      })"

declare destroyFromTail.simps [code]

text \<open>The loop over the entries, from the last one down to 0.\<close>

fun free_lists :: "nat \<Rightarrow> nat \<Rightarrow> ring \<Rightarrow> ring option" where
  "free_lists k 0 rb = Some rb"
| "free_lists k (Suc i) rb = do {
     ee \<leftarrow> get_at (ebrEntries rb) (int i);
     f \<leftarrow> get_at (freelist ee) (int k);
     rb \<leftarrow> destroyFromTail f rb;
     rb \<leftarrow> entry_update i (\<lambda>ee. ee\<lparr>freelist := (freelist ee)[k := NULL]\<rparr>) rb;
     free_lists k i rb
   }"

definition ksiRingBufferTryFree :: "nat \<Rightarrow> ring \<Rightarrow> (int \<times> ring) option" where
  "ksiRingBufferTryFree tid rb =
     (if \<exists>ee \<in> set (ebrEntries rb). active ee \<and> eepoch ee \<noteq> repoch rb then Some (- 1, rb)
      else do {
        rb' \<leftarrow> free_lists ((repoch rb + 2) mod 3) (List.length (ebrEntries rb)) (rb\<lparr>repoch := (repoch rb + 1) mod 3\<rparr>);
        rb' \<leftarrow> entry_update tid (\<lambda>ee. ee\<lparr>eepoch := (repoch rb + 1) mod 3\<rparr>) rb';
        Some (0, rb')
      })"

text \<open>\<open>ksiRingBufferDestroy\<close>\<close>

fun destroy_entry :: "nat \<Rightarrow> ebr_entry \<Rightarrow> ring \<Rightarrow> ring option" where
  "destroy_entry 0 ee rb = Some rb"
| "destroy_entry (Suc k) ee rb = do {
     f \<leftarrow> get_at (freelist ee) (int k);
     rb \<leftarrow> destroyFromTail f rb;
     destroy_entry k ee rb
   }"

fun destroy_entries :: "nat \<Rightarrow> ring \<Rightarrow> ring option" where
  "destroy_entries 0 rb = Some rb"
| "destroy_entries (Suc i) rb = do {
     ee \<leftarrow> get_at (ebrEntries rb) (int i);
     rb \<leftarrow> destroy_entry 3 ee rb;
     destroy_entries i rb
   }"

definition ksiRingBufferDestroy :: "ring \<Rightarrow> ring option" where
  "ksiRingBufferDestroy rb = do {
     rb \<leftarrow> destroy_entries (List.length (ebrEntries rb)) rb;
     destroyFromTail (rtail rb) rb
   }"

section \<open>Push\<close>

definition ksiRingBufferPush :: "nat \<Rightarrow> ptr \<Rightarrow> ring \<Rightarrow> ring option" where
  "ksiRingBufferPush tid data rb = do {
     let head = rhead rb;
     rb \<leftarrow> entry_update tid (\<lambda>ee. ee\<lparr>active := True, eepoch := repoch rb\<rparr>) rb;
     s \<leftarrow> segs rb head;
     rb \<leftarrow> (if tail_idx s + ksiRingBufferNodeLength \<le> head_idx s
       then do {
         let (n, rb) = new_segment ((ksiRingBufferSegmentNew data)\<lparr>sprev := head\<rparr>) rb;
         seg_update head (\<lambda>s. s\<lparr>snext := n\<rparr>) (rb\<lparr>rhead := n\<rparr>)
       }
       else seg_update head (\<lambda>s. s\<lparr>cells := (cells s)(head_idx s mod ksiRingBufferNodeLength \<mapsto> data),
              head_idx := head_idx s + 1\<rparr>) rb);
     entry_update tid (\<lambda>ee. ee\<lparr>active := False\<rparr>) rb
   }"

section \<open>Take\<close>

text \<open>Where a taker is: the segment, and the values it has read; \<open>None\<close> is the failure value.\<close>

datatype take_pc =
    TStart
  | TLoop ptr
  | THead ptr uint64
  | TValue ptr uint64
  | TCas ptr uint64 ptr
  | TNext ptr
  | TClose ptr ptr
  | TSwing ptr ptr
  | TDone "ptr option"

definition take_step :: "nat \<Rightarrow> take_pc \<Rightarrow> ring \<Rightarrow> (take_pc \<times> ring) option" where
  "take_step tid pc rb =
     (case pc of
        TStart \<Rightarrow> Some (TLoop (rtail rb), rb)
      | TLoop a \<Rightarrow>
          (if a = NULL then Some (TDone None, rb)
           else do { s \<leftarrow> segs rb a; Some (THead a (tail_idx s), rb) })
      | THead a t \<Rightarrow> do {
          s \<leftarrow> segs rb a;
          Some (if t + 1 < head_idx s + 1 then TValue a t else TNext a, rb)
        }
      | TValue a t \<Rightarrow> do { s \<leftarrow> segs rb a; v \<leftarrow> cell s t; Some (TCas a t v, rb) }
      | TCas a t v \<Rightarrow> do {
          s \<leftarrow> segs rb a;
          (if tail_idx s = t
           then do { rb \<leftarrow> seg_update a (\<lambda>s. s\<lparr>tail_idx := t + 1\<rparr>) rb; Some (TDone (Some v), rb) }
           else Some (TLoop a, rb))
        }
      | TNext a \<Rightarrow> do {
          s \<leftarrow> segs rb a;
          Some (if snext s \<noteq> NULL then TClose a (snext s) else TDone None, rb)
        }
      | TClose a n \<Rightarrow> do { rb \<leftarrow> seg_update a (\<lambda>s. s\<lparr>head_idx := - 1\<rparr>) rb; Some (TSwing a n, rb) }
      | TSwing a n \<Rightarrow>
          (if rtail rb = a
           then do {
             rb \<leftarrow> seg_update n (\<lambda>s. s\<lparr>sprev := NULL\<rparr>) (rb\<lparr>rtail := n\<rparr>);
             rb \<leftarrow> give_up tid a rb;
             Some (TLoop n, rb)
           }
           else Some (TLoop n, rb))
      | TDone r \<Rightarrow> None)"

partial_function (option) take_run :: "nat \<Rightarrow> take_pc \<Rightarrow> ring \<Rightarrow> (ptr option \<times> ring) option" where
  "take_run tid pc rb =
     (case pc of TDone r \<Rightarrow> Some (r, rb)
      | _ \<Rightarrow> do { (pc, rb) \<leftarrow> take_step tid pc rb; take_run tid pc rb })"

declare take_run.simps [code]

definition ksiRingBufferTake :: "nat \<Rightarrow> ring \<Rightarrow> (ptr option \<times> ring) option" where
  "ksiRingBufferTake tid rb = take_run tid TStart rb"

section \<open>Pop\<close>

datatype pop_pc =
    PStart
  | PLoop ptr
  | PTail ptr uint64
  | PStore ptr uint64
  | PFetch ptr uint64
  | PValue ptr uint64
  | PCas ptr uint64 ptr
  | PEmpty ptr uint64
  | PBack ptr
  | PDone "ptr option"

definition pop_step :: "nat \<Rightarrow> pop_pc \<Rightarrow> ring \<Rightarrow> (pop_pc \<times> ring) option" where
  "pop_step tid pc rb =
     (case pc of
        PStart \<Rightarrow> Some (PLoop (rhead rb), rb)
      | PLoop a \<Rightarrow> do { s \<leftarrow> segs rb a; Some (PTail a (head_idx s - 1), rb) }
      | PTail a h \<Rightarrow> do {
          s \<leftarrow> segs rb a;
          let t = tail_idx s;
          Some (if t + 1 < h + 1 then PStore a h else if t = h then PValue a t else PEmpty a t, rb)
        }
      | PStore a h \<Rightarrow> do { rb \<leftarrow> seg_update a (\<lambda>s. s\<lparr>head_idx := h\<rparr>) rb; Some (PFetch a h, rb) }
      | PFetch a h \<Rightarrow> do { s \<leftarrow> segs rb a; v \<leftarrow> cell s h; Some (PDone (Some v), rb) }
      | PValue a t \<Rightarrow> do { s \<leftarrow> segs rb a; v \<leftarrow> cell s t; Some (PCas a t v, rb) }
      | PCas a t v \<Rightarrow> do {
          s \<leftarrow> segs rb a;
          (if tail_idx s = t
           then do { rb \<leftarrow> seg_update a (\<lambda>s. s\<lparr>tail_idx := t + 1\<rparr>) rb; Some (PDone (Some v), rb) }
           else Some (PLoop a, rb))
        }
      | PEmpty a t \<Rightarrow> do { rb \<leftarrow> seg_update a (\<lambda>s. s\<lparr>head_idx := t\<rparr>) rb; Some (PBack a, rb) }
      | PBack a \<Rightarrow> do {
          s \<leftarrow> segs rb a;
          (if sprev s \<noteq> NULL then do {
             rb \<leftarrow> seg_update (sprev s) (\<lambda>s. s\<lparr>snext := NULL\<rparr>) rb;
             rb \<leftarrow> give_up tid a (rb\<lparr>rhead := sprev s\<rparr>);
             Some (PLoop (sprev s), rb)
           }
           else Some (PDone None, rb))
        }
      | PDone r \<Rightarrow> None)"

partial_function (option) pop_run :: "nat \<Rightarrow> pop_pc \<Rightarrow> ring \<Rightarrow> (ptr option \<times> ring) option" where
  "pop_run tid pc rb =
     (case pc of PDone r \<Rightarrow> Some (r, rb)
      | _ \<Rightarrow> do { (pc, rb) \<leftarrow> pop_step tid pc rb; pop_run tid pc rb })"

declare pop_run.simps [code]

definition ksiRingBufferPop :: "nat \<Rightarrow> ring \<Rightarrow> (ptr option \<times> ring) option" where
  "ksiRingBufferPop tid rb = pop_run tid PStart rb"

section \<open>Interleavings\<close>

text \<open>The steps of the owner's pop and of any number of takers, in the given order: \<open>PopStep\<close> for
  the owner, \<open>TakeStep i\<close> for taker \<open>i\<close>, \<open>Gc\<close> for the garbage collector.\<close>

datatype ring_event = PopStep | TakeStep nat | Gc nat

fun ring_steps :: "nat \<Rightarrow> ring_event list \<Rightarrow> pop_pc \<times> take_pc list \<times> ring \<Rightarrow> (pop_pc \<times> take_pc list \<times> ring) option" where
  "ring_steps owner [] s = Some s"
| "ring_steps owner (ev # evs) (p, ts, rb) =
     (case ev of
        PopStep \<Rightarrow> do { (p, rb) \<leftarrow> pop_step owner p rb; ring_steps owner evs (p, ts, rb) }
      | TakeStep i \<Rightarrow> do {
          t \<leftarrow> get_at ts (int i);
          (t, rb) \<leftarrow> take_step i t rb;
          ring_steps owner evs (p, ts[i := t], rb)
        }
      | Gc tid \<Rightarrow> do { (_, rb) \<leftarrow> ksiRingBufferTryFree tid rb; ring_steps owner evs (p, ts, rb) })"

end
