(* ===== verification/Ebr.thy ===== *)
theory Ebr
  imports Ring_Buffer Vec
begin

text \<open>
  Epoch-based reclamation for a changing set of producers (\<^verbatim>\<open>ksid/ebr.c\<close>, \<^verbatim>\<open>ebr.h\<close>).
  Consumers have a fixed entry each, as in the ring buffers; producers register an \<open>overlooker\<close>.
  The spin lock protects the table of overlookers: what happens under it is one step.

  The memory of the objects that are retired is a parameter of \<open>ksiDynamicEBRTryFree\<close>: the
  function that releases a free list.
\<close>

section \<open>State\<close>

record overlooker =
  oactive :: bool
  oepoch :: nat

record dynamic_ebr =
  depoch :: nat
  dentries :: "ebr_entry list"
  dynamicOverlookers :: ksi_vec
  overlookers :: "ptr \<Rightarrow> overlooker option"
  ofresh :: ptr

definition ksiDynamicEBRCreate :: "nat \<Rightarrow> dynamic_ebr" where
  "ksiDynamicEBRCreate nprocs =
     \<lparr>depoch = 0, dentries = replicate nprocs ksiRingBufferEBREntryInit, dynamicOverlookers = ksiVecInit 16,
      overlookers = Map.empty, ofresh = 1\<rparr>"

section \<open>Overlookers\<close>

definition ksiDynamicEBROverlookerRegister :: "dynamic_ebr \<Rightarrow> (int \<times> dynamic_ebr) option" where
  "ksiDynamicEBROverlookerRegister ebr = do {
     let ol = ofresh ebr;
     (i, v) \<leftarrow> ksiVecInsert (dynamicOverlookers ebr) ol;
     Some (i, ebr\<lparr>dynamicOverlookers := v, overlookers := (overlookers ebr)(ol \<mapsto> \<lparr>oactive = False, oepoch = depoch ebr\<rparr>),
                  ofresh := Suc ol\<rparr>)
   }"

definition ksiDynamicEBROverlookerUnregister :: "int \<Rightarrow> dynamic_ebr \<Rightarrow> dynamic_ebr option" where
  "ksiDynamicEBROverlookerUnregister olId ebr = do {
     ol \<leftarrow> get_at (vdata (dynamicOverlookers ebr)) olId;
     _ \<leftarrow> overlookers ebr ol;
     v \<leftarrow> ksiVecDelete (dynamicOverlookers ebr) olId;
     Some (ebr\<lparr>dynamicOverlookers := v, overlookers := (overlookers ebr)(ol := None)\<rparr>)
   }"

definition overlooker_update :: "int \<Rightarrow> (overlooker \<Rightarrow> overlooker) \<Rightarrow> dynamic_ebr \<Rightarrow> dynamic_ebr option" where
  "overlooker_update olId f ebr = do {
     ol \<leftarrow> get_at (vdata (dynamicOverlookers ebr)) olId;
     x \<leftarrow> overlookers ebr ol;
     Some (ebr\<lparr>overlookers := (overlookers ebr)(ol \<mapsto> f x)\<rparr>)
   }"

definition ksiDynamicEBROverlookerEnter :: "int \<Rightarrow> dynamic_ebr \<Rightarrow> dynamic_ebr option" where
  "ksiDynamicEBROverlookerEnter olId ebr = overlooker_update olId (\<lambda>ol. ol\<lparr>oactive := True, oepoch := depoch ebr\<rparr>) ebr"

definition ksiDynamicEBROverlookerLeave :: "int \<Rightarrow> dynamic_ebr \<Rightarrow> dynamic_ebr option" where
  "ksiDynamicEBROverlookerLeave olId ebr = overlooker_update olId (\<lambda>ol. ol\<lparr>oactive := False\<rparr>) ebr"

section \<open>Consumers\<close>

definition dentry_update :: "nat \<Rightarrow> (ebr_entry \<Rightarrow> ebr_entry) \<Rightarrow> dynamic_ebr \<Rightarrow> dynamic_ebr option" where
  "dentry_update tid f ebr = do {
     ee \<leftarrow> get_at (dentries ebr) (int tid);
     Some (ebr\<lparr>dentries := (dentries ebr)[tid := f ee]\<rparr>)
   }"

definition ksiDynamicEBREnter :: "nat \<Rightarrow> dynamic_ebr \<Rightarrow> dynamic_ebr option" where
  "ksiDynamicEBREnter tid ebr = dentry_update tid (\<lambda>ee. ee\<lparr>active := True, eepoch := depoch ebr\<rparr>) ebr"

definition ksiDynamicEBRLeave :: "nat \<Rightarrow> dynamic_ebr \<Rightarrow> dynamic_ebr option" where
  "ksiDynamicEBRLeave tid ebr = dentry_update tid (\<lambda>ee. ee\<lparr>active := False\<rparr>) ebr"

text \<open>The link of the object is its first word; it gets the old free list, the result.\<close>

definition ksiDynamicEBRRetire :: "ptr \<Rightarrow> nat \<Rightarrow> dynamic_ebr \<Rightarrow> (ptr \<times> dynamic_ebr) option" where
  "ksiDynamicEBRRetire p tid ebr = do {
     ee \<leftarrow> get_at (dentries ebr) (int tid);
     f \<leftarrow> get_at (freelist ee) (int (eepoch ee));
     ebr \<leftarrow> dentry_update tid (\<lambda>ee. ee\<lparr>freelist := (freelist ee)[eepoch ee := p]\<rparr>) ebr;
     Some (f, ebr)
   }"

section \<open>Collection\<close>

definition lagging :: "dynamic_ebr \<Rightarrow> bool" where
  "lagging ebr \<longleftrightarrow> (\<exists>ee \<in> set (dentries ebr). active ee \<and> eepoch ee \<noteq> depoch ebr)"

fun overlooker_lags :: "dynamic_ebr \<Rightarrow> (int \<times> ptr) list \<Rightarrow> bool option" where
  "overlooker_lags ebr [] = Some False"
| "overlooker_lags ebr ((i, p) # rest) = do {
     ol \<leftarrow> overlookers ebr p;
     (if oactive ol \<and> oepoch ol \<noteq> depoch ebr then Some True else overlooker_lags ebr rest)
   }"

fun collect_lists :: "(ptr \<Rightarrow> 'm \<Rightarrow> 'm option) \<Rightarrow> nat \<Rightarrow> nat \<Rightarrow> dynamic_ebr \<Rightarrow> 'm \<Rightarrow> (dynamic_ebr \<times> 'm) option" where
  "collect_lists release k 0 ebr m = Some (ebr, m)"
| "collect_lists release k (Suc i) ebr m = do {
     ee \<leftarrow> get_at (dentries ebr) (int i);
     f \<leftarrow> get_at (freelist ee) (int k);
     m \<leftarrow> release f m;
     ebr \<leftarrow> dentry_update i (\<lambda>ee. ee\<lparr>freelist := (freelist ee)[k := NULL]\<rparr>) ebr;
     collect_lists release k i ebr m
   }"

definition ksiDynamicEBRTryFree :: "(ptr \<Rightarrow> 'm \<Rightarrow> 'm option) \<Rightarrow> nat \<Rightarrow> dynamic_ebr \<Rightarrow> 'm \<Rightarrow> (int \<times> dynamic_ebr \<times> 'm) option" where
  "ksiDynamicEBRTryFree release tid ebr m =
     (if lagging ebr then Some (- 1, ebr, m)
      else do {
        lags \<leftarrow> overlooker_lags ebr (ksiVecIterate (dynamicOverlookers ebr));
        (if lags then Some (- 1, ebr, m)
         else do {
           let e = depoch ebr;
           (ebr, m) \<leftarrow> collect_lists release ((e + 2) mod 3) (length (dentries ebr)) (ebr\<lparr>depoch := (e + 1) mod 3\<rparr>) m;
           ebr \<leftarrow> dentry_update tid (\<lambda>ee. ee\<lparr>eepoch := (e + 1) mod 3\<rparr>) ebr;
           Some (0, ebr, m)
         })
      })"

end
