(* ===== verification/Lcrq.thy ===== *)
theory Lcrq
  imports Ebr
begin

text \<open>
  The queue of the seed tasks (\<^verbatim>\<open>ksid/lcrq/lcrq.c\<close>): a list of rings of cells, each cell with the
  index it is good for. The calls are given as the steps between their accesses to shared memory,
  atomic instructions included (\<open>FAA\<close>, \<open>CAS\<close>, \<open>CAS2\<close> on a cell, \<open>BTAS\<close>), so that they can be
  interleaved; memory is sequentially consistent. The ring size is a field, as it is a macro a
  build can set; it is a power of two.

  A task is a pointer; the value -1 of an empty cell is \<^const>\<open>None\<close>. What a call allocates and
  fills before anybody can see it is one step.
\<close>

section \<open>State\<close>

record ring_node =
  val :: "ptr option"
  idx :: uint64

record ring_queue =
  qnxt :: ptr
  qhd :: uint64
  qtl :: uint64
  qarray :: "uint64 \<Rightarrow> ring_node"

record lcrq =
  lhead :: ptr
  ltail :: ptr
  lsize :: uint64
  rqs :: "ptr \<Rightarrow> ring_queue option"
  lebr :: dynamic_ebr
  lfresh :: ptr

record producer_handle =
  hnext :: ptr
  olId :: int

definition CLOSED :: uint64 where "CLOSED = push_bit 63 1"

definition init_ring :: ring_queue where
  "init_ring = \<lparr>qnxt = NULL, qhd = 0, qtl = 0, qarray = (\<lambda>i. \<lparr>val = None, idx = i\<rparr>)\<rparr>"

definition node_index :: "uint64 \<Rightarrow> uint64" where "node_index i = i AND NOT CLOSED"
definition set_unsafe :: "uint64 \<Rightarrow> uint64" where "set_unsafe i = i OR CLOSED"
definition node_unsafe :: "uint64 \<Rightarrow> uint64" where "node_unsafe i = i AND CLOSED"
definition tail_index :: "uint64 \<Rightarrow> uint64" where "tail_index t = t AND NOT CLOSED"
definition crq_is_closed :: "uint64 \<Rightarrow> bool" where "crq_is_closed t \<longleftrightarrow> t AND CLOSED \<noteq> 0"

definition ksiLCRQInit :: "uint64 \<Rightarrow> nat \<Rightarrow> lcrq" where
  "ksiLCRQInit sz nprocs = \<lparr>lhead = 1, ltail = 1, lsize = sz, rqs = [1 \<mapsto> init_ring], lebr = ksiDynamicEBRCreate nprocs, lfresh = 2\<rparr>"

definition rq_update :: "ptr \<Rightarrow> (ring_queue \<Rightarrow> ring_queue) \<Rightarrow> lcrq \<Rightarrow> lcrq option" where
  "rq_update p f q = do { r \<leftarrow> rqs q p; Some (q\<lparr>rqs := (rqs q)(p \<mapsto> f r)\<rparr>) }"

text \<open>The cell of an index and \<open>CAS2\<close> on it: the result says whether the exchange took place.\<close>

definition cell_of :: "lcrq \<Rightarrow> ptr \<Rightarrow> uint64 \<Rightarrow> ring_node option" where
  "cell_of q p i = do { r \<leftarrow> rqs q p; Some (qarray r (i AND (lsize q - 1))) }"

definition CAS2 :: "ptr \<Rightarrow> uint64 \<Rightarrow> ring_node \<Rightarrow> ring_node \<Rightarrow> lcrq \<Rightarrow> (bool \<times> lcrq) option" where
  "CAS2 p i old new q = do {
     c \<leftarrow> cell_of q p i;
     (if c = old then do {
        q \<leftarrow> rq_update p (\<lambda>r. r\<lparr>qarray := (qarray r)(i AND (lsize q - 1) := new)\<rparr>) q;
        Some (True, q)
      }
      else Some (False, q))
   }"

text \<open>\<open>BTAS(&rq->tail, 63)\<close> sets the bit and tells whether it was clear.\<close>

definition BTAS_tail :: "ptr \<Rightarrow> lcrq \<Rightarrow> (bool \<times> lcrq) option" where
  "BTAS_tail p q = do {
     r \<leftarrow> rqs q p;
     q \<leftarrow> rq_update p (\<lambda>r. r\<lparr>qtl := qtl r OR CLOSED\<rparr>) q;
     Some (\<not> crq_is_closed (qtl r), q)
   }"

definition CAS_tail :: "ptr \<Rightarrow> uint64 \<Rightarrow> uint64 \<Rightarrow> lcrq \<Rightarrow> (bool \<times> lcrq) option" where
  "CAS_tail p old new q = do {
     r \<leftarrow> rqs q p;
     (if qtl r = old then do { q \<leftarrow> rq_update p (\<lambda>r. r\<lparr>qtl := new\<rparr>) q; Some (True, q) } else Some (False, q))
   }"

definition close_crq :: "ptr \<Rightarrow> uint64 \<Rightarrow> nat \<Rightarrow> lcrq \<Rightarrow> (bool \<times> lcrq) option" where
  "close_crq p t tries q = (if tries < 10 then CAS_tail p (t + 1) ((t + 1) OR CLOSED) q else BTAS_tail p q)"

section \<open>Enqueue\<close>

datatype enq_pc =
    EStart
  | ENext ptr
  | ESwing ptr ptr
  | EFaa ptr
  | EIdx ptr uint64
  | EVal ptr uint64 uint64
  | ECheck ptr uint64 uint64
  | ECas ptr uint64 uint64
  | EFull ptr uint64
  | EClose ptr uint64
  | EAlloc ptr
  | ELink ptr ptr
  | EPublish ptr ptr
  | EDone

text \<open>A ring with the task in it, as \<open>alloc\<close> fills it.\<close>

definition solo_ring :: "ptr \<Rightarrow> ring_queue" where
  "solo_ring arg = init_ring\<lparr>qtl := 1, qarray := (qarray init_ring)(0 := \<lparr>val = Some arg, idx = 0\<rparr>)\<rparr>"

text \<open>\<open>k\<close> is \<open>try_close\<close>; the handle's \<open>next\<close> is never set to anything but \<open>NULL\<close>.\<close>

definition enq_step :: "ptr \<Rightarrow> nat \<times> enq_pc \<Rightarrow> lcrq \<Rightarrow> ((nat \<times> enq_pc) \<times> lcrq) option" where
  "enq_step arg s q =
     (let (k, pc) = s in
      case pc of
        EStart \<Rightarrow> Some ((k, ENext (ltail q)), q)
      | ENext p \<Rightarrow> do {
          r \<leftarrow> rqs q p;
          Some ((k, if qnxt r \<noteq> NULL then ESwing p (qnxt r) else EFaa p), q)
        }
      | ESwing p n \<Rightarrow> Some ((k, EStart), if ltail q = p then q\<lparr>ltail := n\<rparr> else q)
      | EFaa p \<Rightarrow> do {
          r \<leftarrow> rqs q p;
          let t = qtl r;
          q \<leftarrow> rq_update p (\<lambda>r. r\<lparr>qtl := t + 1\<rparr>) q;
          Some ((k, if crq_is_closed t then EAlloc p else EIdx p t), q)
        }
      | EIdx p t \<Rightarrow> do { c \<leftarrow> cell_of q p t; Some ((k, EVal p t (idx c)), q) }
      | EVal p t i \<Rightarrow> do {
          c \<leftarrow> cell_of q p t;
          Some ((k, if val c = None \<and> node_index i \<le> t
                    then (if node_unsafe i = 0 then ECas p t i else ECheck p t i)
                    else EFull p t), q)
        }
      | ECheck p t i \<Rightarrow> do { r \<leftarrow> rqs q p; Some ((k, if qhd r < t then ECas p t i else EFull p t), q) }
      | ECas p t i \<Rightarrow> do {
          (ok, q) \<leftarrow> CAS2 p t \<lparr>val = None, idx = i\<rparr> \<lparr>val = Some arg, idx = t\<rparr> q;
          Some ((k, if ok then EDone else EFull p t), q)
        }
      | EFull p t \<Rightarrow> do {
          r \<leftarrow> rqs q p;
          Some (if sint (lsize q) \<le> sint (t - qhd r) then (Suc k, EClose p t) else (k, EStart), q)
        }
      | EClose p t \<Rightarrow> do {
          (ok, q) \<leftarrow> close_crq p t k q;
          Some ((k, if ok then EAlloc p else EStart), q)
        }
      | EAlloc p \<Rightarrow>
          Some ((k, ELink p (lfresh q)), q\<lparr>rqs := (rqs q)(lfresh q \<mapsto> solo_ring arg), lfresh := Suc (lfresh q)\<rparr>)
      | ELink p n \<Rightarrow> do {
          r \<leftarrow> rqs q p;
          (if qnxt r = NULL
           then do { q \<leftarrow> rq_update p (\<lambda>r. r\<lparr>qnxt := n\<rparr>) q; Some ((k, EPublish p n), q) }
           else Some ((k, EStart), q))
        }
      | EPublish p n \<Rightarrow> Some ((k, EDone), if ltail q = p then q\<lparr>ltail := n\<rparr> else q)
      | EDone \<Rightarrow> None)"

partial_function (option) enq_run :: "ptr \<Rightarrow> nat \<times> enq_pc \<Rightarrow> lcrq \<Rightarrow> lcrq option" where
  "enq_run arg s q = (if snd s = EDone then Some q else do { (s, q) \<leftarrow> enq_step arg s q; enq_run arg s q })"

declare enq_run.simps [code]

definition ksiLCRQEnqueue :: "ptr \<Rightarrow> lcrq \<Rightarrow> lcrq option" where
  "ksiLCRQEnqueue v q = enq_run v (0, EStart) q"

section \<open>Dequeue\<close>

datatype deq_pc =
    DStart
  | DFaa ptr
  | DIdx ptr uint64 uint64 nat
  | DVal ptr uint64 uint64 uint64 nat
  | DTake ptr uint64 uint64 ptr uint64 nat
  | DUnsafe ptr uint64 uint64 ptr uint64 nat
  | DRead ptr uint64 uint64 nat
  | DEmpty ptr uint64 uint64 uint64 nat
  | DClose ptr uint64
  | DTail ptr uint64
  | DFixT ptr uint64
  | DFixH ptr uint64 uint64
  | DFixC ptr uint64 uint64 uint64
  | DFixS ptr uint64 uint64 uint64
  | DNext ptr uint64
  | DTail2 ptr uint64 ptr
  | DSwing ptr ptr
  | DRetire ptr
  | DDone "ptr option"

definition ksiLCRQRetire :: "nat \<Rightarrow> ptr \<Rightarrow> lcrq \<Rightarrow> lcrq option" where
  "ksiLCRQRetire tid p q = do {
     (f, ebr) \<leftarrow> ksiDynamicEBRRetire p tid (lebr q);
     rq_update p (\<lambda>r. r\<lparr>qnxt := f\<rparr>) (q\<lparr>lebr := ebr\<rparr>)
   }"

text \<open>
  The arguments of the inner loop's states are the ring, \<open>h\<close>, the cell's index as read, the
  value, \<open>tt\<close> and \<open>r\<close>.
\<close>

definition deq_step :: "nat \<Rightarrow> deq_pc \<Rightarrow> lcrq \<Rightarrow> (deq_pc \<times> lcrq) option" where
  "deq_step tid pc q =
     (case pc of
        DStart \<Rightarrow> Some (DFaa (lhead q), q)
      | DFaa p \<Rightarrow> do {
          r \<leftarrow> rqs q p;
          let h = qhd r;
          q \<leftarrow> rq_update p (\<lambda>r. r\<lparr>qhd := h + 1\<rparr>) q;
          Some (DIdx p h 0 0, q)
        }
      | DIdx p h tt n \<Rightarrow> do { c \<leftarrow> cell_of q p h; Some (DVal p h (idx c) tt n, q) }
      | DVal p h i tt n \<Rightarrow> do {
          c \<leftarrow> cell_of q p h;
          Some (if h < node_index i then DTail p h
                else (case val c of
                        Some v \<Rightarrow> if node_index i = h then DTake p h i v tt n else DUnsafe p h i v tt n
                      | None \<Rightarrow> if n mod 1024 = 0 then DRead p h i n else DEmpty p h i tt n), q)
        }
      | DTake p h i v tt n \<Rightarrow> do {
          (ok, q) \<leftarrow> CAS2 p h \<lparr>val = Some v, idx = i\<rparr> \<lparr>val = None, idx = (node_unsafe i OR h) + lsize q\<rparr> q;
          Some (if ok then DDone (Some v) else DIdx p h tt n, q)
        }
      | DUnsafe p h i v tt n \<Rightarrow> do {
          (ok, q) \<leftarrow> CAS2 p h \<lparr>val = Some v, idx = i\<rparr> \<lparr>val = Some v, idx = set_unsafe (node_index i)\<rparr> q;
          Some (if ok then DTail p h else DIdx p h tt n, q)
        }
      | DRead p h i n \<Rightarrow> do { r \<leftarrow> rqs q p; Some (DEmpty p h i (qtl r) n, q) }
      | DEmpty p h i tt n \<Rightarrow>
          (if node_unsafe i \<noteq> 0 then do {
             (ok, q) \<leftarrow> CAS2 p h \<lparr>val = None, idx = i\<rparr> \<lparr>val = None, idx = (node_unsafe i OR h) + lsize q\<rparr> q;
             Some (if ok then DTail p h else DIdx p h tt n, q)
           }
           else if tail_index tt < h + 1 \<or> 200000 < n \<or> crq_is_closed tt then do {
             (ok, q) \<leftarrow> CAS2 p h \<lparr>val = None, idx = node_index i\<rparr> \<lparr>val = None, idx = h + lsize q\<rparr> q;
             Some (if \<not> ok then DIdx p h tt n else if 200000 < n \<and> lsize q < tt then DClose p h else DTail p h, q)
           }
           else Some (DIdx p h tt (Suc n), q))
      | DClose p h \<Rightarrow> do { (_, q) \<leftarrow> BTAS_tail p q; Some (DTail p h, q) }
      | DTail p h \<Rightarrow> do { r \<leftarrow> rqs q p; Some (if tail_index (qtl r) \<le> h + 1 then DFixT p h else DStart, q) }
      | DFixT p h \<Rightarrow> do { r \<leftarrow> rqs q p; Some (DFixH p h (qtl r), q) }
      | DFixH p h t \<Rightarrow> do { r \<leftarrow> rqs q p; Some (DFixC p h t (qhd r), q) }
      | DFixC p h t h' \<Rightarrow> do {
          r \<leftarrow> rqs q p;
          Some (if qtl r \<noteq> t then DFixT p h else if t < h' then DFixS p h t h' else DNext p h, q)
        }
      | DFixS p h t h' \<Rightarrow> do {
          (ok, q) \<leftarrow> CAS_tail p t h' q;
          Some (if ok then DNext p h else DFixT p h, q)
        }
      | DNext p h \<Rightarrow> do { r \<leftarrow> rqs q p; Some (if qnxt r = NULL then DDone None else DTail2 p h (qnxt r), q) }
      | DTail2 p h n \<Rightarrow> do { r \<leftarrow> rqs q p; Some (if tail_index (qtl r) \<le> h + 1 then DSwing p n else DStart, q) }
      | DSwing p n \<Rightarrow> Some (if lhead q = p then (DRetire p, q\<lparr>lhead := n\<rparr>) else (DStart, q))
      | DRetire p \<Rightarrow> do { q \<leftarrow> ksiLCRQRetire tid p q; Some (DStart, q) }
      | DDone r \<Rightarrow> None)"

partial_function (option) deq_run :: "nat \<Rightarrow> deq_pc \<Rightarrow> lcrq \<Rightarrow> (ptr option \<times> lcrq) option" where
  "deq_run tid pc q =
     (case pc of DDone r \<Rightarrow> Some (r, q) | _ \<Rightarrow> do { (pc, q) \<leftarrow> deq_step tid pc q; deq_run tid pc q })"

declare deq_run.simps [code]

definition ksiLCRQDequeue :: "nat \<Rightarrow> lcrq \<Rightarrow> (ptr option \<times> lcrq) option" where
  "ksiLCRQDequeue tid q = deq_run tid DStart q"

section \<open>Handles, collection, destruction\<close>

definition on_ebr :: "(dynamic_ebr \<Rightarrow> dynamic_ebr option) \<Rightarrow> lcrq \<Rightarrow> lcrq option" where
  "on_ebr f q = do { ebr \<leftarrow> f (lebr q); Some (q\<lparr>lebr := ebr\<rparr>) }"

definition ksiLCRQProducerHandleInit :: "lcrq \<Rightarrow> (producer_handle \<times> lcrq) option" where
  "ksiLCRQProducerHandleInit q = do {
     (i, ebr) \<leftarrow> ksiDynamicEBROverlookerRegister (lebr q);
     Some (\<lparr>hnext = NULL, olId = i\<rparr>, q\<lparr>lebr := ebr\<rparr>)
   }"

definition ksiLCRQProducerHandleDestroy :: "producer_handle \<Rightarrow> lcrq \<Rightarrow> lcrq option" where
  "ksiLCRQProducerHandleDestroy h q = on_ebr (ksiDynamicEBROverlookerUnregister (olId h)) q"

definition ksiLCRQProducerEnter :: "producer_handle \<Rightarrow> lcrq \<Rightarrow> lcrq option" where
  "ksiLCRQProducerEnter h q = on_ebr (ksiDynamicEBROverlookerEnter (olId h)) q"

definition ksiLCRQProducerLeave :: "producer_handle \<Rightarrow> lcrq \<Rightarrow> lcrq option" where
  "ksiLCRQProducerLeave h q = on_ebr (ksiDynamicEBROverlookerLeave (olId h)) q"

definition ksiLCRQConsumerEnter :: "nat \<Rightarrow> lcrq \<Rightarrow> lcrq option" where
  "ksiLCRQConsumerEnter tid q = on_ebr (ksiDynamicEBREnter tid) q"

definition ksiLCRQConsumerLeave :: "nat \<Rightarrow> lcrq \<Rightarrow> lcrq option" where
  "ksiLCRQConsumerLeave tid q = on_ebr (ksiDynamicEBRLeave tid) q"

text \<open>Releasing a chain of rings, along the first word of each.\<close>

partial_function (option) release_rings :: "ptr \<Rightarrow> (ptr \<Rightarrow> ring_queue option) \<Rightarrow> (ptr \<Rightarrow> ring_queue option) option" where
  "release_rings p m =
     (if p = NULL then Some m else do { r \<leftarrow> m p; release_rings (qnxt r) (m(p := None)) })"

declare release_rings.simps [code]

definition ksiLCRQTryFree :: "nat \<Rightarrow> lcrq \<Rightarrow> (int \<times> lcrq) option" where
  "ksiLCRQTryFree tid q = do {
     (r, ebr, m) \<leftarrow> ksiDynamicEBRTryFree release_rings tid (lebr q) (rqs q);
     Some (r, q\<lparr>lebr := ebr, rqs := m\<rparr>)
   }"

definition ksiLCRQDestroy :: "lcrq \<Rightarrow> lcrq option" where
  "ksiLCRQDestroy q = do { m \<leftarrow> release_rings (lhead q) (rqs q); Some (q\<lparr>rqs := m\<rparr>) }"

section \<open>Interleavings\<close>

text \<open>
  Producers with their task, and consumers, each between calls or in one; the tasks of all the
  calls begun and those received so far.
\<close>

record lcrq_run =
  producers :: "(ptr \<times> nat \<times> enq_pc) list"
  consumers :: "deq_pc list"
  queue :: lcrq
  sent :: "ptr list"
  got :: "ptr list"

datatype lcrq_event = Send nat ptr | Enq nat | Receive nat | Deq nat | Collection nat

definition received_list :: "deq_pc \<Rightarrow> ptr list" where
  "received_list d = (case d of DDone (Some v) \<Rightarrow> [v] | _ \<Rightarrow> [])"

definition lcrq_do :: "lcrq_event \<Rightarrow> lcrq_run \<Rightarrow> lcrq_run option" where
  "lcrq_do ev s =
     (case ev of
        Send i x \<Rightarrow> do {
          (_, _, pc) \<leftarrow> get_at (producers s) (int i);
          need (pc = EDone);
          Some (s\<lparr>producers := (producers s)[i := (x, 0, EStart)], sent := sent s @ [x]\<rparr>)
        }
      | Enq i \<Rightarrow> do {
          (x, pc) \<leftarrow> get_at (producers s) (int i);
          (pc, q) \<leftarrow> enq_step x pc (queue s);
          Some (s\<lparr>producers := (producers s)[i := (x, pc)], queue := q\<rparr>)
        }
      | Receive i \<Rightarrow> do {
          d \<leftarrow> get_at (consumers s) (int i);
          (case d of DDone _ \<Rightarrow> Some (s\<lparr>consumers := (consumers s)[i := DStart]\<rparr>) | _ \<Rightarrow> None)
        }
      | Deq i \<Rightarrow> do {
          d \<leftarrow> get_at (consumers s) (int i);
          (d, q) \<leftarrow> deq_step i d (queue s);
          Some (s\<lparr>consumers := (consumers s)[i := d], queue := q,
                  got := got s @ received_list d\<rparr>)
        }
      | Collection i \<Rightarrow> do { (_, q) \<leftarrow> ksiLCRQTryFree i (queue s); Some (s\<lparr>queue := q\<rparr>) })"

fun lcrq_steps :: "lcrq_event list \<Rightarrow> lcrq_run \<Rightarrow> lcrq_run option" where
  "lcrq_steps [] s = Some s"
| "lcrq_steps (ev # evs) s = do { s \<leftarrow> lcrq_do ev s; lcrq_steps evs s }"

definition lcrq_start :: "uint64 \<Rightarrow> nat \<Rightarrow> nat \<Rightarrow> lcrq_run" where
  "lcrq_start sz np nc =
     \<lparr>producers = replicate np (0, 0, EDone), consumers = replicate nc (DDone None), queue = ksiLCRQInit sz nc, sent = [], got = []\<rparr>"

end
