(* ===== verification/Lcrq_Safe.thy ===== *)
theory Lcrq_Safe
  imports Lcrq "HOL-Library.Multiset"
begin

text \<open>
  Every interleaving of producers, consumers and the collector: a task is in exactly one place. The
  invariant knows the rings that have been linked into the queue; a ring a producer has filled
  but not linked yet is its own.
\<close>

section \<open>Tasks in rings\<close>

definition cell_tasks :: "ring_node \<Rightarrow> ptr multiset" where
  "cell_tasks c = (case val c of None \<Rightarrow> {#} | Some v \<Rightarrow> {#v#})"

definition ring_tasks :: "ring_queue \<Rightarrow> ptr multiset" where
  "ring_tasks r = (\<Sum>i\<in>UNIV. cell_tasks (qarray r i))"

definition opt_tasks :: "ring_queue option \<Rightarrow> ptr multiset" where
  "opt_tasks x = (case x of None \<Rightarrow> {#} | Some r \<Rightarrow> ring_tasks r)"

definition tasks_in :: "lcrq \<Rightarrow> ptr set \<Rightarrow> ptr multiset" where
  "tasks_in q A = (\<Sum>p\<in>A. opt_tasks (rqs q p))"

lemma opt_tasks_simps [simp]: "opt_tasks None = {#}" "opt_tasks (Some r) = ring_tasks r"
  by (simp_all add: opt_tasks_def)

lemma cell_tasks_simps [simp]: "cell_tasks \<lparr>val = None, idx = i\<rparr> = {#}" "cell_tasks \<lparr>val = Some v, idx = i\<rparr> = {#v#}"
  by (simp_all add: cell_tasks_def)

lemma ring_tasks_array: "qarray r = qarray r' \<Longrightarrow> ring_tasks r = ring_tasks r'"
  by (simp add: ring_tasks_def)

lemma sum_update:
  assumes "finite A" "a \<in> A" "\<And>x. x \<noteq> a \<Longrightarrow> g x = f x"
  shows "sum g A + f a = sum f A + (g a :: 'b multiset)"
proof -
  have "sum g A = g a + sum g (A - {a})" "sum f A = f a + sum f (A - {a})"
    using assms(1,2) by (simp_all add: sum.remove)
  moreover have "sum g (A - {a}) = sum f (A - {a})" by (rule sum.cong) (use assms(3) in auto)
  ultimately show ?thesis by (simp add: ac_simps)
qed

lemma ring_tasks_update:
  "ring_tasks (r\<lparr>qarray := (qarray r)(i := c)\<rparr>) + cell_tasks (qarray r i) = ring_tasks r + cell_tasks c"
  unfolding ring_tasks_def
  using sum_update [of UNIV i "\<lambda>j. cell_tasks (((qarray r)(i := c)) j)" "\<lambda>j. cell_tasks (qarray r j)"] by simp

lemma tasks_in_update:
  assumes "finite A" "p \<in> A" "rqs q p = Some r"
  shows "tasks_in (q\<lparr>rqs := (rqs q)(p \<mapsto> r')\<rparr>) A + ring_tasks r = tasks_in q A + ring_tasks r'"
  unfolding tasks_in_def
  using sum_update [OF assms(1,2), of "\<lambda>x. opt_tasks (((rqs q)(p \<mapsto> r')) x)" "\<lambda>x. opt_tasks (rqs q x)"] assms(3) by simp

lemma tasks_in_cong: "rqs q' = rqs q \<Longrightarrow> tasks_in q' A = tasks_in q A"
  by (simp add: tasks_in_def)

lemma ring_tasks_init: "ring_tasks init_ring = {#}"
  by (simp add: ring_tasks_def init_ring_def cell_tasks_def)

lemma ring_tasks_solo: "ring_tasks (solo_ring x) = {#x#}"
proof -
  have "ring_tasks (solo_ring x) = ring_tasks (init_ring\<lparr>qarray := (qarray init_ring)(0 := \<lparr>val = Some x, idx = 0\<rparr>)\<rparr>)"
    by (rule ring_tasks_array) (simp add: solo_ring_def)
  moreover have "cell_tasks (qarray init_ring 0) = {#}" by (simp add: init_ring_def)
  ultimately show ?thesis
    using ring_tasks_update [of init_ring 0 "\<lparr>val = Some x, idx = 0\<rparr>"] by (simp add: ring_tasks_init)
qed

section \<open>The linked rings\<close>

definition mem_ok :: "ptr set \<Rightarrow> lcrq \<Rightarrow> bool" where
  "mem_ok A q \<longleftrightarrow> finite A \<and> (\<forall>p \<in> A. p < lfresh q) \<and> lhead q \<in> A \<and> ltail q \<in> A \<and>
     (\<forall>p \<in> A. \<forall>r. rqs q p = Some r \<longrightarrow> qnxt r = NULL \<or> qnxt r \<in> A) \<and>
     (\<forall>ee \<in> set (dentries (lebr q)). set (freelist ee) \<subseteq> insert NULL A) \<and> NULL \<notin> A"

lemma mem_okD:
  assumes "mem_ok A q"
  shows "finite A" "p \<in> A \<Longrightarrow> p < lfresh q" "lhead q \<in> A" "ltail q \<in> A"
    "p \<in> A \<Longrightarrow> rqs q p = Some r \<Longrightarrow> qnxt r \<noteq> NULL \<Longrightarrow> qnxt r \<in> A" "NULL \<notin> A"
  using assms by (auto simp: mem_ok_def)

text \<open>What a step of a process on linked rings may do: \<open>gain\<close> and \<open>loss\<close> are the tasks it puts in and
  takes out.\<close>

definition touches :: "ptr set \<Rightarrow> lcrq \<Rightarrow> lcrq \<Rightarrow> ptr multiset \<Rightarrow> ptr multiset \<Rightarrow> bool" where
  "touches A q q' gain loss \<longleftrightarrow> mem_ok A q' \<and> (\<forall>n. n \<notin> A \<longrightarrow> rqs q' n = rqs q n) \<and> lfresh q' = lfresh q \<and>
     tasks_in q' A + loss = tasks_in q A + gain"

lemma touches_refl [simp]: "mem_ok A q \<Longrightarrow> touches A q q {#} {#}"
  by (simp add: touches_def)

lemma touches_head: "mem_ok A q \<Longrightarrow> n \<in> A \<Longrightarrow> touches A q (q\<lparr>lhead := n\<rparr>) {#} {#}"
  "mem_ok A q \<Longrightarrow> n \<in> A \<Longrightarrow> touches A q (q\<lparr>ltail := n\<rparr>) {#} {#}"
  by (simp_all add: touches_def mem_ok_def tasks_in_def)

lemma touches_update:
  assumes "mem_ok A q" "p \<in> A" "rqs q p = Some r" "ring_tasks (f r) + loss = ring_tasks r + gain"
    "qnxt (f r) = qnxt r \<or> qnxt (f r) = NULL \<or> qnxt (f r) \<in> A" "rq_update p f q = Some q'"
  shows "touches A q q' gain loss"
proof -
  have q': "q' = q\<lparr>rqs := (rqs q)(p \<mapsto> f r)\<rparr>" using assms(3,6) by (simp add: rq_update_def)
  have "mem_ok A q'" using assms(1-3,5) unfolding q' mem_ok_def by auto
  moreover have "tasks_in q' A + loss = tasks_in q A + gain"
  proof -
    have "tasks_in q' A + ring_tasks r = tasks_in q A + ring_tasks (f r)"
      unfolding q' by (rule tasks_in_update) (use assms mem_okD(1) in auto)
    then have "tasks_in q' A + loss + ring_tasks r = tasks_in q A + (ring_tasks (f r) + loss)" by (simp add: ac_simps)
    then have "tasks_in q' A + loss + ring_tasks r = tasks_in q A + gain + ring_tasks r"
      unfolding assms(4) by (simp add: ac_simps)
    then show ?thesis by simp
  qed
  ultimately show ?thesis using assms(2) by (auto simp: touches_def q')
qed

lemma touches_field:
  assumes "mem_ok A q" "p \<in> A" "rq_update p f q = Some q'" "\<And>r. qarray (f r) = qarray r" "\<And>r. qnxt (f r) = qnxt r"
  shows "touches A q q' {#} {#}"
proof -
  obtain r where "rqs q p = Some r" using assms(3) by (auto simp: rq_update_def bind_eq_Some_conv)
  then show ?thesis
    by (rule touches_update [OF assms(1,2) _ _ _ assms(3)]) (simp_all add: assms(5) ring_tasks_array [OF assms(4)])
qed

lemma touches_CAS2:
  assumes "mem_ok A q" "p \<in> A" "CAS2 p i old new q = Some (ok, q')"
  shows "if ok then touches A q q' (cell_tasks new) (cell_tasks old) else q' = q"
proof (cases ok)
  case True
  obtain r where r: "rqs q p = Some r" "qarray r (i AND (lsize q - 1)) = old"
    "rq_update p (\<lambda>r. r\<lparr>qarray := (qarray r)(i AND (lsize q - 1) := new)\<rparr>) q = Some q'"
    using assms(3) True by (auto simp: CAS2_def cell_of_def bind_eq_Some_conv split: if_split_asm)
  have "touches A q q' (cell_tasks new) (cell_tasks old)"
    by (rule touches_update [OF assms(1,2) r(1) _ _ r(3)])
      (use ring_tasks_update [of r "i AND (lsize q - 1)" new] r(2) in simp_all)
  then show ?thesis using True by simp
qed (use assms(3) in \<open>auto simp: CAS2_def bind_eq_Some_conv split: if_split_asm\<close>)

lemma touches_CAS_tail:
  "mem_ok A q \<Longrightarrow> p \<in> A \<Longrightarrow> CAS_tail p old new q = Some (ok, q') \<Longrightarrow> touches A q q' {#} {#}"
  by (auto simp: CAS_tail_def bind_eq_Some_conv split: if_split_asm intro: touches_field)

lemma touches_BTAS_tail:
  "mem_ok A q \<Longrightarrow> p \<in> A \<Longrightarrow> BTAS_tail p q = Some (ok, q') \<Longrightarrow> touches A q q' {#} {#}"
  by (auto simp: BTAS_tail_def bind_eq_Some_conv intro: touches_field)

lemma touches_close:
  "mem_ok A q \<Longrightarrow> p \<in> A \<Longrightarrow> close_crq p t tries q = Some (ok, q') \<Longrightarrow> touches A q q' {#} {#}"
  by (auto simp: close_crq_def intro: touches_CAS_tail touches_BTAS_tail split: if_split_asm)

section \<open>A producer's step\<close>

fun enq_public :: "enq_pc \<Rightarrow> ptr set" where
  "enq_public EStart = {}"
| "enq_public (ENext p) = {p}"
| "enq_public (ESwing p n) = {p, n}"
| "enq_public (EFaa p) = {p}"
| "enq_public (EIdx p t) = {p}"
| "enq_public (EVal p t i) = {p}"
| "enq_public (ECheck p t i) = {p}"
| "enq_public (ECas p t i) = {p}"
| "enq_public (EFull p t) = {p}"
| "enq_public (EClose p t) = {p}"
| "enq_public (EAlloc p) = {p}"
| "enq_public (ELink p n) = {p}"
| "enq_public (EPublish p n) = {p, n}"
| "enq_public EDone = {}"

fun enq_private :: "enq_pc \<Rightarrow> ptr set" where
  "enq_private (ELink p n) = {n}"
| "enq_private pc = {}"

text \<open>The task of a call that has not put it into a linked ring yet.\<close>

fun enq_pending :: "ptr \<Rightarrow> enq_pc \<Rightarrow> ptr multiset" where
  "enq_pending x EDone = {#}"
| "enq_pending x (EPublish p n) = {#}"
| "enq_pending x pc = {#x#}"

definition enq_ok :: "ptr set \<Rightarrow> lcrq \<Rightarrow> ptr \<Rightarrow> enq_pc \<Rightarrow> bool" where
  "enq_ok A q x pc \<longleftrightarrow> enq_public pc \<subseteq> A \<and>
     (\<forall>n \<in> enq_private pc. n \<notin> A \<and> n < lfresh q \<and> n \<noteq> NULL \<and> rqs q n = Some (solo_ring x))"

definition enq_effect :: "ptr set \<Rightarrow> lcrq \<Rightarrow> ptr \<Rightarrow> enq_pc \<Rightarrow> ptr set \<Rightarrow> enq_pc \<Rightarrow> lcrq \<Rightarrow> bool" where
  "enq_effect A q x pc A' pc' q' \<longleftrightarrow> A \<subseteq> A' \<and> A' \<subseteq> A \<union> enq_private pc \<and> mem_ok A' q' \<and> enq_ok A' q' x pc' \<and>
     (\<forall>n. n \<notin> A \<longrightarrow> n < lfresh q \<longrightarrow> rqs q' n = rqs q n) \<and> lfresh q \<le> lfresh q' \<and>
     enq_private pc' \<subseteq> {n. lfresh q \<le> n} \<and>
     tasks_in q' A' + enq_pending x pc' = tasks_in q A + enq_pending x pc"

lemma enq_effect_touches:
  assumes "touches A q q' gain loss" "enq_public pc' \<subseteq> A" "enq_private pc' = {}"
    "enq_pending x pc' + gain = enq_pending x pc + loss"
  shows "enq_effect A q x pc A pc' q'"
proof -
  have "tasks_in q' A + enq_pending x pc' + loss = tasks_in q A + gain + enq_pending x pc'"
    using assms(1) by (simp add: touches_def ac_simps)
  also have "\<dots> = tasks_in q A + enq_pending x pc + loss" using assms(4) by (simp add: ac_simps)
  finally show ?thesis using assms(1-3) by (auto simp: enq_effect_def touches_def enq_ok_def)
qed

lemma enq_effect_same:
  assumes "mem_ok A q" "q' = q" "enq_public pc' \<subseteq> A" "enq_private pc' = {}" "enq_pending x pc' = enq_pending x pc"
  shows "\<exists>A'. enq_effect A q x pc A' pc' q'"
  using enq_effect_touches [of A q q "{#}" "{#}" pc' x pc] assms by auto

lemma enq_effect_ex:
  assumes "touches A q q' gain loss" "enq_public pc' \<subseteq> A" "enq_private pc' = {}"
    "enq_pending x pc' + gain = enq_pending x pc + loss"
  shows "\<exists>A'. enq_effect A q x pc A' pc' q'"
  using enq_effect_touches [OF assms] by blast

lemma enq_step_ok:
  assumes m: "mem_ok A q" and ok: "enq_ok A q x pc" and st: "enq_step x (k, pc) q = Some ((k', pc'), q')"
  shows "\<exists>A'. enq_effect A q x pc A' pc' q'"
proof (cases pc)
  case EStart
  then show ?thesis using m st mem_okD(4) [OF m]
    by (intro enq_effect_same) (auto simp: enq_step_def)
next
  case (ENext p)
  then show ?thesis using m ok st mem_okD(5) [OF m]
    by (intro enq_effect_same)
      (auto simp: enq_step_def enq_ok_def bind_eq_Some_conv split: if_split_asm)
next
  case (ESwing p n)
  have "touches A q q' {#} {#}" using m ok st ESwing
    by (auto simp: enq_step_def enq_ok_def split: if_split_asm intro: touches_head)
  then show ?thesis using st ESwing
    by (intro enq_effect_ex) (auto simp: enq_step_def split: if_split_asm)
next
  case (EFaa p)
  have "touches A q q' {#} {#}" using m ok st EFaa
    by (auto simp: enq_step_def enq_ok_def Let_def bind_eq_Some_conv intro: touches_field)
  then show ?thesis using ok st EFaa
    by (intro enq_effect_ex) (auto simp: enq_step_def enq_ok_def Let_def bind_eq_Some_conv split: if_split_asm)
next
  case (EIdx p t)
  then show ?thesis using m ok st
    by (intro enq_effect_same)
      (auto simp: enq_step_def enq_ok_def bind_eq_Some_conv split: if_split_asm)
next
  case (EVal p t i)
  then show ?thesis using m ok st
    by (intro enq_effect_same)
      (auto simp: enq_step_def enq_ok_def bind_eq_Some_conv split: if_split_asm)
next
  case (ECheck p t i)
  then show ?thesis using m ok st
    by (intro enq_effect_same)
      (auto simp: enq_step_def enq_ok_def bind_eq_Some_conv split: if_split_asm)
next
  case (ECas p t i)
  then obtain yes where c: "CAS2 p t \<lparr>val = None, idx = i\<rparr> \<lparr>val = Some x, idx = t\<rparr> q = Some (yes, q')"
    and pc': "pc' = (if yes then EDone else EFull p t)"
    using st by (auto simp: enq_step_def bind_eq_Some_conv)
  have p: "p \<in> A" using ok ECas by (simp add: enq_ok_def)
  show ?thesis
  proof (cases yes)
    case True
    then have "touches A q q' {#x#} {#}" using touches_CAS2 [OF m p c] by simp
    then show ?thesis using True pc' ECas by (intro enq_effect_ex) auto
  next
    case False
    then have "q' = q" using touches_CAS2 [OF m p c] by simp
    then show ?thesis using False pc' ECas p m by (intro enq_effect_same) auto
  qed
next
  case (EFull p t)
  then show ?thesis using m ok st
    by (intro enq_effect_same)
      (auto simp: enq_step_def enq_ok_def bind_eq_Some_conv split: if_split_asm)
next
  case (EClose p t)
  then obtain yes where c: "close_crq p t k q = Some (yes, q')" and pc': "pc' = (if yes then EAlloc p else EStart)"
    using st by (auto simp: enq_step_def bind_eq_Some_conv)
  have p: "p \<in> A" using ok EClose by (simp add: enq_ok_def)
  show ?thesis using touches_close [OF m p c] pc' p EClose by (intro enq_effect_ex) auto
next
  case (EAlloc p)
  then have q': "q' = q\<lparr>rqs := (rqs q)(lfresh q \<mapsto> solo_ring x), lfresh := Suc (lfresh q)\<rparr>" "pc' = ELink p (lfresh q)"
    using st by (auto simp: enq_step_def)
  have n: "lfresh q \<notin> A" using mem_okD(2) [OF m] by blast
  have "lfresh q \<noteq> NULL" using mem_okD(2,3) [OF m] by force
  moreover have "mem_ok A q'" using m n by (auto simp: mem_ok_def q')
  moreover have "tasks_in q' A = tasks_in q A"
    unfolding tasks_in_def by (rule sum.cong) (use n in \<open>auto simp: q'\<close>)
  ultimately have "enq_effect A q x pc A pc' q'"
    using n ok EAlloc by (auto simp: enq_effect_def enq_ok_def q')
  then show ?thesis by blast
next
  case (ELink p n)
  have p: "p \<in> A" and n: "n \<notin> A" "n < lfresh q" "n \<noteq> NULL" "rqs q n = Some (solo_ring x)"
    using ok ELink by (auto simp: enq_ok_def)
  obtain r where r: "rqs q p = Some r" using st ELink by (auto simp: enq_step_def bind_eq_Some_conv)
  show ?thesis
  proof (cases "qnxt r = NULL")
    case True
    let ?A = "insert n A"
    have q': "rq_update p (\<lambda>r. r\<lparr>qnxt := n\<rparr>) q = Some q'" "pc' = EPublish p n"
      using st ELink r True by (auto simp: enq_step_def bind_eq_Some_conv)
    have "mem_ok ?A q" using m n by (auto simp: mem_ok_def solo_ring_def init_ring_def)
    then have t: "touches ?A q q' {#} {#}"
      by (rule touches_update [OF _ _ r _ _ q'(1)]) (use p in \<open>auto intro: ring_tasks_array\<close>)
    have "tasks_in q ?A = tasks_in q A + {#x#}"
      using n mem_okD(1) [OF m] by (simp add: tasks_in_def ring_tasks_solo)
    moreover have "rqs q' n = rqs q n" using q'(1) p n(1) by (auto simp: rq_update_def bind_eq_Some_conv)
    moreover have "\<forall>b. b \<notin> A \<longrightarrow> rqs q' b = rqs q b"
      using t calculation(2) by (auto simp: touches_def)
    ultimately have "enq_effect A q x pc ?A pc' q'"
      using t p n ELink q' by (auto simp: enq_effect_def touches_def enq_ok_def)
    then show ?thesis by blast
  next
    case False
    then have "q' = q" "pc' = EStart" using st ELink r by (auto simp: enq_step_def)
    then show ?thesis using m ELink by (intro enq_effect_same) auto
  qed
next
  case (EPublish p n)
  have "touches A q q' {#} {#}" using m ok st EPublish
    by (auto simp: enq_step_def enq_ok_def split: if_split_asm intro: touches_head)
  then show ?thesis using st EPublish
    by (intro enq_effect_ex) (auto simp: enq_step_def split: if_split_asm)
qed (use st in \<open>simp add: enq_step_def\<close>)

section \<open>A consumer's step\<close>

fun deq_public :: "deq_pc \<Rightarrow> ptr set" where
  "deq_public DStart = {}"
| "deq_public (DFaa p) = {p}"
| "deq_public (DIdx p h tt n) = {p}"
| "deq_public (DVal p h i tt n) = {p}"
| "deq_public (DTake p h i v tt n) = {p}"
| "deq_public (DUnsafe p h i v tt n) = {p}"
| "deq_public (DRead p h i n) = {p}"
| "deq_public (DEmpty p h i tt n) = {p}"
| "deq_public (DClose p h) = {p}"
| "deq_public (DTail p h) = {p}"
| "deq_public (DFixT p h) = {p}"
| "deq_public (DFixH p h t) = {p}"
| "deq_public (DFixC p h t h') = {p}"
| "deq_public (DFixS p h t h') = {p}"
| "deq_public (DNext p h) = {p}"
| "deq_public (DTail2 p h n) = {p, n}"
| "deq_public (DSwing p n) = {p, n}"
| "deq_public (DRetire p) = {p}"
| "deq_public (DDone r) = {}"

text \<open>The task a call has just received.\<close>

abbreviation received :: "deq_pc \<Rightarrow> ptr multiset" where
  "received pc \<equiv> mset (received_list pc)"

lemma received_simps [simp]:
  "received_list DStart = []" "received_list (DFaa p) = []" "received_list (DIdx p h tt n) = []" "received_list (DVal p h i tt n) = []"
  "received_list (DTake p h i v tt n) = []" "received_list (DUnsafe p h i v tt n) = []" "received_list (DRead p h i n) = []"
  "received_list (DEmpty p h i tt n) = []" "received_list (DClose p h) = []" "received_list (DTail p h) = []"
  "received_list (DFixT p h) = []" "received_list (DFixH p h t) = []" "received_list (DFixC p h t h') = []"
  "received_list (DFixS p h t h') = []" "received_list (DNext p h) = []" "received_list (DTail2 p h n') = []"
  "received_list (DSwing p n') = []" "received_list (DRetire p) = []" "received_list (DDone None) = []" "received_list (DDone (Some v)) = [v]"
  by (simp_all add: received_list_def)

lemma touches_retire:
  assumes "mem_ok A q" "p \<in> A" "ksiLCRQRetire tid p q = Some q'"
  shows "touches A q q' {#} {#}"
proof -
  obtain f ebr where f: "ksiDynamicEBRRetire p tid (lebr q) = Some (f, ebr)"
    and u: "rq_update p (\<lambda>r. r\<lparr>qnxt := f\<rparr>) (q\<lparr>lebr := ebr\<rparr>) = Some q'"
    using assms(3) by (auto simp: ksiLCRQRetire_def bind_eq_Some_conv)
  obtain ee where ee: "get_at (dentries (lebr q)) (int tid) = Some ee" "get_at (freelist ee) (int (eepoch ee)) = Some f"
    and ebr: "ebr = (lebr q)\<lparr>dentries := (dentries (lebr q))[tid := ee\<lparr>freelist := (freelist ee)[eepoch ee := p]\<rparr>]\<rparr>"
    using f by (auto simp: ksiDynamicEBRRetire_def dentry_update_def bind_eq_Some_conv)
  have fl: "\<forall>ee \<in> set (dentries (lebr q)). set (freelist ee) \<subseteq> insert NULL A" using assms(1) by (simp add: mem_ok_def)
  have eein: "ee \<in> set (dentries (lebr q))" "f \<in> set (freelist ee)" using ee by (auto simp: get_at_eq_Some)
  then have f': "f = NULL \<or> f \<in> A" using fl by auto
  have "set ((freelist ee)[eepoch ee := p]) \<subseteq> insert NULL A"
    using set_update_subset_insert [of "freelist ee" "eepoch ee" p] fl eein(1) assms(2) by blast
  then have all: "set (freelist x) \<subseteq> insert NULL A"
    if "x = ee\<lparr>freelist := (freelist ee)[eepoch ee := p]\<rparr> \<or> x \<in> set (dentries (lebr q))" for x
    using that fl by auto
  have "x = ee\<lparr>freelist := (freelist ee)[eepoch ee := p]\<rparr> \<or> x \<in> set (dentries (lebr q))" if "x \<in> set (dentries ebr)" for x
    using that set_update_subset_insert [of "dentries (lebr q)" tid "ee\<lparr>freelist := (freelist ee)[eepoch ee := p]\<rparr>"]
    unfolding ebr by auto
  then have "\<forall>x \<in> set (dentries ebr). set (freelist x) \<subseteq> insert NULL A" using all by blast
  then have m: "mem_ok A (q\<lparr>lebr := ebr\<rparr>)" using assms(1) by (simp add: mem_ok_def)
  obtain r where r: "rqs (q\<lparr>lebr := ebr\<rparr>) p = Some r" using u by (auto simp: rq_update_def bind_eq_Some_conv)
  have "touches A (q\<lparr>lebr := ebr\<rparr>) q' {#} {#}"
    by (rule touches_update [OF m assms(2) r _ _ u]) (use f' in \<open>auto intro: ring_tasks_array\<close>)
  then show ?thesis by (simp add: touches_def tasks_in_def)
qed

definition deq_effect :: "ptr set \<Rightarrow> lcrq \<Rightarrow> deq_pc \<Rightarrow> lcrq \<Rightarrow> bool" where
  "deq_effect A q pc' q' \<longleftrightarrow> deq_public pc' \<subseteq> A \<and> touches A q q' {#} (received pc')"

lemma deq_effect_same: "mem_ok A q \<Longrightarrow> q' = q \<Longrightarrow> deq_public pc' \<subseteq> A \<Longrightarrow> received pc' = {#} \<Longrightarrow> deq_effect A q pc' q'"
  by (simp add: deq_effect_def)

lemma deq_effect_CAS2:
  assumes m: "mem_ok A q" and p: "p \<in> A" and c: "CAS2 p i \<lparr>val = v, idx = a\<rparr> \<lparr>val = v', idx = b\<rparr> q = Some (ok, q')"
    and pc: "deq_public pc' \<subseteq> A" "\<not> ok \<Longrightarrow> received pc' = {#}"
    and v: "ok \<Longrightarrow> cell_tasks \<lparr>val = v, idx = a\<rparr> = cell_tasks \<lparr>val = v', idx = b\<rparr> + received pc'"
  shows "deq_effect A q pc' q'"
proof (cases ok)
  case True
  have "touches A q q' (cell_tasks \<lparr>val = v', idx = b\<rparr>) (cell_tasks \<lparr>val = v, idx = a\<rparr>)"
    using touches_CAS2 [OF m p c] True by simp
  then have "touches A q q' {#} (received pc')" using v True by (auto simp: touches_def ac_simps)
  then show ?thesis using pc(1) by (simp add: deq_effect_def)
next
  case False
  then show ?thesis using touches_CAS2 [OF m p c] pc m by (intro deq_effect_same) auto
qed

lemma deq_step_ok:
  assumes m: "mem_ok A q" and pub: "deq_public pc \<subseteq> A" and st: "deq_step tid pc q = Some (pc', q')"
  shows "deq_effect A q pc' q'"
proof (cases pc)
  case (DFaa p)
  then have "touches A q q' {#} {#}" using m pub st
    by (auto simp: deq_step_def Let_def bind_eq_Some_conv intro: touches_field)
  then show ?thesis using pub st DFaa by (auto simp: deq_effect_def deq_step_def Let_def bind_eq_Some_conv)
next
  case (DTake p h i v tt n)
  then show ?thesis using pub st
    by (auto simp: deq_step_def bind_eq_Some_conv split: if_split_asm intro!: deq_effect_CAS2 [OF m, where p = p])
next
  case (DUnsafe p h i v tt n)
  then show ?thesis using pub st
    by (auto simp: deq_step_def bind_eq_Some_conv split: if_split_asm intro!: deq_effect_CAS2 [OF m, where p = p])
next
  case (DEmpty p h i tt n)
  show ?thesis
  proof (cases "node_unsafe i = 0 \<and> \<not> (tail_index tt < h + 1 \<or> 200000 < n \<or> crq_is_closed tt)")
    case True
    then show ?thesis using DEmpty pub st m by (intro deq_effect_same) (auto simp: deq_step_def)
  next
    case False
    then obtain i' b ok where c: "CAS2 p h \<lparr>val = None, idx = i'\<rparr> \<lparr>val = None, idx = b\<rparr> q = Some (ok, q')"
      and r: "deq_public pc' = {p}" "received pc' = {#}"
      using DEmpty st by (auto simp: deq_step_def bind_eq_Some_conv split: if_split_asm)
    show ?thesis using pub DEmpty r by (intro deq_effect_CAS2 [OF m _ c]) auto
  qed
next
  case (DClose p h)
  then obtain ok where "BTAS_tail p q = Some (ok, q')" "pc' = DTail p h" using st by (auto simp: deq_step_def bind_eq_Some_conv)
  then show ?thesis using touches_BTAS_tail [OF m, of p] pub DClose by (simp add: deq_effect_def)
next
  case (DFixS p h t h')
  then obtain ok where "CAS_tail p t h' q = Some (ok, q')" "pc' = (if ok then DNext p h else DFixT p h)"
    using st by (auto simp: deq_step_def bind_eq_Some_conv)
  then show ?thesis using touches_CAS_tail [OF m, of p] pub DFixS by (auto simp: deq_effect_def)
next
  case (DNext p h)
  then show ?thesis using m pub st mem_okD(5) [OF m]
    by (intro deq_effect_same) (auto simp: deq_step_def bind_eq_Some_conv split: if_split_asm)
next
  case (DSwing p n)
  then show ?thesis using m pub st touches_head(1) [OF m, of n]
    by (auto simp: deq_effect_def deq_step_def split: if_split_asm)
next
  case (DRetire p)
  then have "ksiLCRQRetire tid p q = Some q'" "pc' = DStart" using st by (auto simp: deq_step_def bind_eq_Some_conv)
  then show ?thesis using touches_retire [OF m] pub DRetire by (auto simp: deq_effect_def)
qed (use m pub st mem_okD(3) [OF m] in \<open>auto intro!: deq_effect_same simp: deq_step_def bind_eq_Some_conv
    split: if_split_asm option.split_asm\<close>)

section \<open>The collector\<close>

definition shrinks :: "ptr set \<Rightarrow> (ptr \<Rightarrow> ring_queue option) \<Rightarrow> (ptr \<Rightarrow> ring_queue option) \<Rightarrow> bool" where
  "shrinks A m m' \<longleftrightarrow> (\<forall>n. n \<notin> A \<longrightarrow> m' n = m n) \<and> (\<forall>n. m' n = m n \<or> m' n = None)"

lemma shrinks_trans: "shrinks A a b \<Longrightarrow> shrinks A b c \<Longrightarrow> shrinks A a c"
  unfolding shrinks_def by metis

definition links_in :: "ptr set \<Rightarrow> (ptr \<Rightarrow> ring_queue option) \<Rightarrow> bool" where
  "links_in A m \<longleftrightarrow> (\<forall>p \<in> A. \<forall>r. m p = Some r \<longrightarrow> qnxt r = NULL \<or> qnxt r \<in> A)"

lemma links_shrinks: "links_in A m \<Longrightarrow> shrinks A m m' \<Longrightarrow> links_in A m'"
  unfolding links_in_def shrinks_def by (metis option.distinct(1))

lemma release_rings_shrinks:
  assumes "release_rings p m = Some m'" "p = NULL \<or> p \<in> A" "links_in A m"
  shows "shrinks A m m'"
proof -
  have "p = NULL \<or> p \<in> A \<longrightarrow> links_in A m \<longrightarrow> shrinks A m m'"
  proof (rule release_rings.raw_induct [where P = "\<lambda>p m m'. p = NULL \<or> p \<in> A \<longrightarrow> links_in A m \<longrightarrow> shrinks A m m'"])
    fix rec p m m'
    assume IH: "\<And>p m m'. rec p m = Some m' \<Longrightarrow> p = NULL \<or> p \<in> A \<longrightarrow> links_in A m \<longrightarrow> shrinks A m m'"
      and run: "(if p = NULL then Some m else do { r \<leftarrow> m p; rec (qnxt r) (m(p := None)) }) = Some m'"
    show "p = NULL \<or> p \<in> A \<longrightarrow> links_in A m \<longrightarrow> shrinks A m m'"
    proof (intro impI)
      assume pA: "p = NULL \<or> p \<in> A" and l: "links_in A m"
      show "shrinks A m m'"
      proof (cases "p = NULL")
        case True
        then show ?thesis using run by (simp add: shrinks_def)
      next
        case False
        then obtain r where r: "m p = Some r" "rec (qnxt r) (m(p := None)) = Some m'" and p: "p \<in> A"
          using run pA by (auto simp: bind_eq_Some_conv)
        have "qnxt r = NULL \<or> qnxt r \<in> A" using l p r(1) by (auto simp: links_in_def)
        moreover have "links_in A (m(p := None))" using l by (auto simp: links_in_def)
        ultimately have "shrinks A (m(p := None)) m'" using IH [OF r(2)] by blast
        moreover have "shrinks A m (m(p := None))" using p by (auto simp: shrinks_def)
        ultimately show ?thesis using shrinks_trans by blast
      qed
    qed
  qed (rule assms(1))
  then show ?thesis using assms(2,3) by blast
qed

definition free_in :: "ptr set \<Rightarrow> dynamic_ebr \<Rightarrow> bool" where
  "free_in A ebr \<longleftrightarrow> (\<forall>ee \<in> set (dentries ebr). set (freelist ee) \<subseteq> insert NULL A)"

lemma free_in_update:
  assumes "free_in A ebr" "dentry_update i f ebr = Some ebr'" "\<And>ee. set (freelist (f ee)) \<subseteq> insert NULL (set (freelist ee))"
  shows "free_in A ebr'"
proof -
  obtain ee where ee: "get_at (dentries ebr) (int i) = Some ee" "ebr' = ebr\<lparr>dentries := (dentries ebr)[i := f ee]\<rparr>"
    using assms(2) by (auto simp: dentry_update_def bind_eq_Some_conv)
  have "ee \<in> set (dentries ebr)" using ee(1) by (auto simp: get_at_eq_Some)
  then have f: "set (freelist (f ee)) \<subseteq> insert NULL A" using assms(1,3) unfolding free_in_def by blast
  have "x = f ee \<or> x \<in> set (dentries ebr)" if "x \<in> set (dentries ebr')" for x
    using that set_update_subset_insert [of "dentries ebr" i "f ee"] unfolding ee(2) by auto
  then show ?thesis using f assms(1) unfolding free_in_def by blast
qed

lemma collect_lists_shrinks:
  "collect_lists release_rings k i ebr m = Some (ebr', m') \<Longrightarrow> free_in A ebr \<Longrightarrow> links_in A m \<Longrightarrow>
   free_in A ebr' \<and> shrinks A m m'"
proof (induction i arbitrary: ebr m)
  case 0
  then show ?case by (simp add: shrinks_def)
next
  case (Suc i)
  obtain ee f m1 ebr1 where s: "get_at (dentries ebr) (int i) = Some ee" "get_at (freelist ee) (int k) = Some f"
    "release_rings f m = Some m1" "dentry_update i (\<lambda>ee. ee\<lparr>freelist := (freelist ee)[k := NULL]\<rparr>) ebr = Some ebr1"
    "collect_lists release_rings k i ebr1 m1 = Some (ebr', m')"
    using Suc.prems(1) by (auto simp: bind_eq_Some_conv)
  have "f \<in> set (freelist ee)" "ee \<in> set (dentries ebr)" using s(1,2) by (auto simp: get_at_eq_Some)
  then have f: "f = NULL \<or> f \<in> A" using Suc.prems(2) by (auto simp: free_in_def)
  note m1 = release_rings_shrinks [OF s(3) f Suc.prems(3)]
  have "free_in A ebr1"
    by (rule free_in_update [OF Suc.prems(2) s(4)]) (use set_update_subset_insert in \<open>force\<close>)
  then show ?case using Suc.IH [OF s(5)] links_shrinks [OF Suc.prems(3) m1] shrinks_trans [OF m1] by blast
qed

lemma collection_ok:
  assumes m: "mem_ok A q" and st: "ksiLCRQTryFree tid q = Some (c, q')"
  shows "mem_ok A q' \<and> (\<forall>n. n \<notin> A \<longrightarrow> rqs q' n = rqs q n) \<and> lfresh q' = lfresh q \<and>
    (\<exists>lost. tasks_in q A = tasks_in q' A + lost)"
proof -
  obtain ebr ms where e: "ksiDynamicEBRTryFree release_rings tid (lebr q) (rqs q) = Some (c, ebr, ms)"
    and q': "q' = q\<lparr>lebr := ebr, rqs := ms\<rparr>"
    using st by (auto simp: ksiLCRQTryFree_def bind_eq_Some_conv)
  have f: "free_in A (lebr q)" and l: "links_in A (rqs q)" using m by (simp_all add: mem_ok_def free_in_def links_in_def)
  have "free_in A ebr \<and> shrinks A (rqs q) ms"
  proof (cases "c = 0 \<or> ebr \<noteq> lebr q \<or> ms \<noteq> rqs q")
    case True
    then obtain ebr1 where c: "collect_lists release_rings ((depoch (lebr q) + 2) mod 3) (length (dentries (lebr q)))
          (lebr q\<lparr>depoch := (depoch (lebr q) + 1) mod 3\<rparr>) (rqs q) = Some (ebr1, ms)"
      and u: "dentry_update tid (\<lambda>ee. ee\<lparr>eepoch := (depoch (lebr q) + 1) mod 3\<rparr>) ebr1 = Some ebr"
      using e by (auto simp: ksiDynamicEBRTryFree_def Let_def bind_eq_Some_conv split: if_split_asm)
    have "free_in A (lebr q\<lparr>depoch := (depoch (lebr q) + 1) mod 3\<rparr>)" using f by (simp add: free_in_def)
    then have "free_in A ebr1 \<and> shrinks A (rqs q) ms" using collect_lists_shrinks [OF c _ l] by blast
    then show ?thesis using free_in_update [OF _ u] by auto
  qed (use f in \<open>simp add: shrinks_def\<close>)
  then have fe: "free_in A ebr" and sh: "shrinks A (rqs q) ms" by simp_all
  have "mem_ok A q'" using m links_shrinks [OF l sh] fe by (simp add: mem_ok_def q' free_in_def links_in_def)
  moreover have "tasks_in q A = tasks_in q' A + (\<Sum>p\<in>A. if ms p = rqs q p then {#} else opt_tasks (rqs q p))"
    unfolding tasks_in_def sum.distrib [symmetric]
  proof (rule sum.cong)
    fix p
    show "opt_tasks (rqs q p) = opt_tasks (rqs q' p) + (if ms p = rqs q p then {#} else opt_tasks (rqs q p))"
      using sh unfolding shrinks_def q' by (cases "ms p = rqs q p") auto
  qed simp
  ultimately show ?thesis using sh by (auto simp: shrinks_def q')
qed

section \<open>Runs\<close>

definition pending_tasks :: "(ptr \<times> nat \<times> enq_pc) list \<Rightarrow> ptr multiset" where
  "pending_tasks es = (\<Sum>(x, k, pc) \<leftarrow> es. enq_pending x pc)"

definition lcrq_inv :: "lcrq_run \<Rightarrow> ptr set \<Rightarrow> ptr multiset \<Rightarrow> bool" where
  "lcrq_inv s A lost \<longleftrightarrow> mem_ok A (queue s) \<and>
     (\<forall>(x, k, pc) \<in> set (producers s). enq_ok A (queue s) x pc) \<and>
     (\<forall>i < length (producers s). \<forall>j < length (producers s). i \<noteq> j \<longrightarrow>
        enq_private (snd (snd (producers s ! i))) \<inter> enq_private (snd (snd (producers s ! j))) = {}) \<and>
     (\<forall>d \<in> set (consumers s). deq_public d \<subseteq> A) \<and>
     mset (got s) + tasks_in (queue s) A + pending_tasks (producers s) + lost = mset (sent s)"

lemma pending_tasks_update:
  "i < length es \<Longrightarrow> es ! i = (x, k, pc) \<Longrightarrow>
   pending_tasks (es[i := (y, k', pc')]) + enq_pending x pc = pending_tasks es + enq_pending y pc'"
proof (induction es arbitrary: i)
  case (Cons e es)
  show ?case
  proof (cases i)
    case 0
    then show ?thesis using Cons.prems by (simp add: pending_tasks_def ac_simps)
  next
    case (Suc j)
    then show ?thesis using Cons.IH [of j] Cons.prems by (simp add: pending_tasks_def case_prod_beta ac_simps)
  qed
qed simp

lemma enq_ok_mono:
  assumes "enq_ok A q x pc" "A \<subseteq> A'" "\<And>n. n \<in> enq_private pc \<Longrightarrow> n \<notin> A'" "\<And>n. n \<in> enq_private pc \<Longrightarrow> rqs q' n = rqs q n"
    "lfresh q \<le> lfresh q'"
  shows "enq_ok A' q' x pc"
  using assms by (force simp: enq_ok_def)

lemma lcrq_invD:
  assumes "lcrq_inv s A lost"
  shows "mem_ok A (queue s)" "(x, k, pc) \<in> set (producers s) \<Longrightarrow> enq_ok A (queue s) x pc"
    "i < length (producers s) \<Longrightarrow> j < length (producers s) \<Longrightarrow> i \<noteq> j \<Longrightarrow>
      enq_private (snd (snd (producers s ! i))) \<inter> enq_private (snd (snd (producers s ! j))) = {}"
    "\<forall>d \<in> set (consumers s). deq_public d \<subseteq> A"
    "mset (got s) + tasks_in (queue s) A + pending_tasks (producers s) + lost = mset (sent s)"
  using assms by (auto simp: lcrq_inv_def)

lemma enq_event_inv:
  assumes inv: "lcrq_inv s A lost" and st: "lcrq_do (Enq i) s = Some s'"
  shows "\<exists>A'. lcrq_inv s' A' lost"
proof -
  obtain x k pc k' pc' q' where p: "i < length (producers s)" "producers s ! i = (x, k, pc)"
    and step: "enq_step x (k, pc) (queue s) = Some ((k', pc'), q')"
    and s': "s' = s\<lparr>producers := (producers s)[i := (x, k', pc')], queue := q'\<rparr>"
    using st by (cases "producers s ! i") (auto simp: lcrq_do_def bind_eq_Some_conv get_at_eq_Some)
  note D = lcrq_invD [OF inv]
  have m: "mem_ok A (queue s)" and cs: "\<forall>d \<in> set (consumers s). deq_public d \<subseteq> A"
    and bal: "mset (got s) + tasks_in (queue s) A + pending_tasks (producers s) + lost = mset (sent s)" by (rule D)+
  have oks: "enq_ok A (queue s) y c" if "j < length (producers s)" "producers s ! j = (y, l, c)" for j y l c
    using D(2) nth_mem [OF that(1)] that(2) by metis
  have ok: "enq_ok A (queue s) x pc" by (rule oks [OF p])
  note dj2 = D(3)
  have dj: "enq_private (snd (snd (producers s ! j))) \<inter> enq_private pc = {}" if "j < length (producers s)" "j \<noteq> i" for j
    using dj2 [OF that(1) p(1) that(2)] p(2) by simp
  obtain A' where ef: "enq_effect A (queue s) x pc A' pc' q'" using enq_step_ok [OF m ok step] by blast
  have other: "enq_ok A' q' y c \<and> enq_private c \<inter> enq_private pc' = {}"
    if j: "j < length (producers s)" "j \<noteq> i" "producers s ! j = (y, l, c)" for j y l c
  proof -
    have o: "enq_ok A (queue s) y c" using oks j by blast
    then have pr: "n \<notin> A \<and> n < lfresh (queue s)" if "n \<in> enq_private c" for n using that by (auto simp: enq_ok_def)
    have "enq_private c \<inter> enq_private pc = {}" using dj [OF j(1,2)] j(3) by simp
    then have "n \<notin> A'" if "n \<in> enq_private c" for n using ef pr [OF that] that by (auto simp: enq_effect_def)
    then have "enq_ok A' q' y c" using ef pr by (intro enq_ok_mono [OF o]) (auto simp: enq_effect_def)
    moreover have "enq_private c \<inter> enq_private pc' = {}" using ef pr by (force simp: enq_effect_def)
    ultimately show ?thesis ..
  qed
  let ?ps = "(producers s)[i := (x, k', pc')]"
  have "enq_ok A' q' y c" if e: "(y, l, c) \<in> set ?ps" for y l c
  proof -
    obtain j where j: "j < length (producers s)" "?ps ! j = (y, l, c)" using e by (auto simp: in_set_conv_nth)
    show ?thesis
    proof (cases "j = i")
      case True
      then show ?thesis using j p(1) ef by (simp add: enq_effect_def)
    qed (use other j in simp)
  qed
  moreover have "enq_private (snd (snd (?ps ! j))) \<inter> enq_private (snd (snd (?ps ! j'))) = {}"
    if "j < length ?ps" "j' < length ?ps" "j \<noteq> j'" for j j'
  proof -
    have o: "enq_private (snd (snd (producers s ! l))) \<inter> enq_private pc' = {}" if "l < length (producers s)" "l \<noteq> i" for l
      using other [OF that, of "fst (producers s ! l)" "fst (snd (producers s ! l))" "snd (snd (producers s ! l))"] by simp
    show ?thesis using that o [of j] o [of j'] dj2 [of j j'] p(1) by (auto simp: nth_list_update)
  qed
  moreover have "mset (got s) + tasks_in q' A' + pending_tasks ?ps + lost = mset (sent s)"
  proof -
    have 1: "pending_tasks ?ps + enq_pending x pc = pending_tasks (producers s) + enq_pending x pc'"
      by (rule pending_tasks_update [OF p])
    have 2: "tasks_in q' A' + enq_pending x pc' = tasks_in (queue s) A + enq_pending x pc"
      using ef by (simp add: enq_effect_def)
    have "(tasks_in q' A' + enq_pending x pc') + (pending_tasks ?ps + enq_pending x pc) =
        (tasks_in (queue s) A + enq_pending x pc) + (pending_tasks (producers s) + enq_pending x pc')"
      unfolding 1 2 ..
    then have "tasks_in q' A' + pending_tasks ?ps = tasks_in (queue s) A + pending_tasks (producers s)"
      by (simp add: ac_simps)
    then have "mset (got s) + (tasks_in q' A' + pending_tasks ?ps) + lost = mset (got s) + (tasks_in (queue s) A + pending_tasks (producers s)) + lost"
      by simp
    then show ?thesis using bal by (simp add: add.assoc)
  qed
  moreover have "\<forall>d \<in> set (consumers s). deq_public d \<subseteq> A'" using cs ef by (auto simp: enq_effect_def)
  moreover have "mem_ok A' q'" using ef by (simp add: enq_effect_def)
  ultimately show ?thesis unfolding lcrq_inv_def s' by (intro exI [of _ A']) auto
qed

lemma touched_inv:
  assumes inv: "lcrq_inv s A lost" and m: "mem_ok A q'" "\<forall>n. n \<notin> A \<longrightarrow> rqs q' n = rqs (queue s) n" "lfresh q' = lfresh (queue s)"
    and cs: "\<forall>d \<in> set ds. deq_public d \<subseteq> A"
    and bal: "mset g + tasks_in q' A + lost' = mset (got s) + tasks_in (queue s) A + lost"
  shows "lcrq_inv (s\<lparr>consumers := ds, queue := q', got := g\<rparr>) A lost'"
proof -
  have "enq_ok A q' x pc" if "(x, k, pc) \<in> set (producers s)" for x k pc
  proof -
    have "enq_ok A (queue s) x pc" using inv that by (auto simp: lcrq_inv_def)
    then show ?thesis using m by (auto simp: enq_ok_def)
  qed
  moreover have "mset g + tasks_in q' A + pending_tasks (producers s) + lost' = mset (sent s)"
    using bal inv unfolding lcrq_inv_def by (metis (no_types, lifting) add.assoc add.commute)
  ultimately show ?thesis using inv m(1) cs by (auto simp: lcrq_inv_def)
qed

lemma lcrq_do_inv:
  assumes inv: "lcrq_inv s A lost" and st: "lcrq_do ev s = Some s'"
  shows "\<exists>A' lost'. lcrq_inv s' A' lost' \<and> ((\<forall>i. ev \<noteq> Collection i) \<longrightarrow> lost' = lost)"
proof (cases ev)
  case (Enq i)
  then show ?thesis using enq_event_inv [OF inv, of i] st by blast
next
  case (Send i x)
  obtain y k where p: "i < length (producers s)" "producers s ! i = (y, k, EDone)"
    and s': "s' = s\<lparr>producers := (producers s)[i := (x, 0, EStart)], sent := sent s @ [x]\<rparr>"
    using st Send by (cases "producers s ! i") (auto simp: lcrq_do_def bind_eq_Some_conv get_at_eq_Some split: if_split_asm)
  have "pending_tasks ((producers s)[i := (x, 0, EStart)]) = pending_tasks (producers s) + {#x#}"
    using pending_tasks_update [OF p, of x 0 EStart] by simp
  moreover have "enq_ok A (queue s) u c" if "(u, l, c) \<in> set ((producers s)[i := (x, 0, EStart)])" for u l c
  proof -
    have "(u, l, c) = (x, 0, EStart) \<or> (u, l, c) \<in> set (producers s)"
      using that set_update_subset_insert [of "producers s" i "(x, 0, EStart)"] by blast
    then show ?thesis using inv by (auto simp: lcrq_inv_def enq_ok_def)
  qed
  ultimately have "lcrq_inv s' A lost" using inv p(1) by (auto simp: lcrq_inv_def s' nth_list_update)
  then show ?thesis by blast
next
  case (Receive i)
  obtain x where "get_at (consumers s) (int i) = Some x"
    "(case x of DDone _ \<Rightarrow> Some (s\<lparr>consumers := (consumers s)[i := DStart]\<rparr>) | _ \<Rightarrow> None) = Some s'"
    using st Receive by (simp add: lcrq_do_def bind_eq_Some_conv) blast
  then have d: "s' = s\<lparr>consumers := (consumers s)[i := DStart]\<rparr>" by (cases x) simp_all
  have "\<forall>d \<in> set ((consumers s)[i := DStart]). deq_public d \<subseteq> A"
    by (rule all_update [OF lcrq_invD(4) [OF inv]]) simp
  then have "lcrq_inv s' A lost" using inv by (simp add: lcrq_inv_def d)
  then show ?thesis by blast
next
  case (Deq i)
  obtain d d' q' where d: "i < length (consumers s)" "consumers s ! i = d" "deq_step i d (queue s) = Some (d', q')"
    and s': "s' = s\<lparr>consumers := (consumers s)[i := d'], queue := q', got := got s @ received_list d'\<rparr>"
    using st Deq by (auto simp: lcrq_do_def bind_eq_Some_conv get_at_eq_Some)
  have m: "mem_ok A (queue s)" and pub: "deq_public d \<subseteq> A" using inv d(1,2) nth_mem by (auto simp: lcrq_inv_def)
  have ef: "deq_effect A (queue s) d' q'" by (rule deq_step_ok [OF m pub d(3)])
  have cs: "\<forall>d \<in> set ((consumers s)[i := d']). deq_public d \<subseteq> A"
    by (rule all_update [OF lcrq_invD(4) [OF inv]]) (use ef in \<open>simp add: deq_effect_def\<close>)
  have t: "mem_ok A q'" "\<forall>n. n \<notin> A \<longrightarrow> rqs q' n = rqs (queue s) n" "lfresh q' = lfresh (queue s)"
    "tasks_in q' A + received d' = tasks_in (queue s) A"
    using ef by (simp_all add: deq_effect_def touches_def)
  have "mset (got s @ received_list d') + tasks_in q' A + lost = mset (got s) + (tasks_in q' A + received d') + lost"
    by (simp add: ac_simps)
  then have "lcrq_inv s' A lost" unfolding s' t(4) by (rule touched_inv [OF inv t(1-3) cs])
  then show ?thesis by blast
next
  case (Collection i)
  obtain c q' where c: "ksiLCRQTryFree i (queue s) = Some (c, q')" and s': "s' = s\<lparr>queue := q'\<rparr>"
    using st Collection by (auto simp: lcrq_do_def bind_eq_Some_conv)
  have m: "mem_ok A (queue s)" using inv by (simp add: lcrq_inv_def)
  note ok = collection_ok [OF m c]
  then obtain l where l: "tasks_in (queue s) A = tasks_in q' A + l" by blast
  have "lcrq_inv (s\<lparr>consumers := consumers s, queue := q', got := got s\<rparr>) A (l + lost)"
    by (rule touched_inv [OF inv]) (use ok l inv in \<open>auto simp: lcrq_inv_def ac_simps\<close>)
  then show ?thesis using s' Collection by auto
qed

lemma lcrq_start_inv: "lcrq_inv (lcrq_start sz np nc) {1} {#}"
proof -
  have "tasks_in (ksiLCRQInit sz nc) {1} = {#}" by (simp add: tasks_in_def ksiLCRQInit_def ring_tasks_init)
  moreover have "pending_tasks (replicate np (0, 0, EDone)) = {#}"
    by (induction np) (simp_all add: pending_tasks_def)
  moreover have "mem_ok {1} (ksiLCRQInit sz nc)"
    by (auto simp: mem_ok_def ksiLCRQInit_def init_ring_def ksiDynamicEBRCreate_def ksiRingBufferEBREntryInit_def)
  ultimately show ?thesis by (auto simp: lcrq_inv_def lcrq_start_def enq_ok_def)
qed

lemma lcrq_steps_inv:
  assumes "lcrq_inv s A lost" "lcrq_steps evs s = Some s'"
  shows "\<exists>A' lost'. lcrq_inv s' A' lost' \<and> ((\<forall>i. Collection i \<notin> set evs) \<longrightarrow> lost' = lost)"
  using assms
proof (induction evs arbitrary: s A lost)
  case (Cons ev evs)
  obtain s1 where s1: "lcrq_do ev s = Some s1" "lcrq_steps evs s1 = Some s'"
    using Cons.prems(2) by (auto simp: bind_eq_Some_conv)
  obtain A1 l1 where 1: "lcrq_inv s1 A1 l1" "(\<forall>i. ev \<noteq> Collection i) \<longrightarrow> l1 = lost"
    using lcrq_do_inv [OF Cons.prems(1) s1(1)] by blast
  obtain A2 l2 where 2: "lcrq_inv s' A2 l2" "(\<forall>i. Collection i \<notin> set evs) \<longrightarrow> l2 = l1"
    using Cons.IH [OF 1(1) s1(2)] by blast
  then show ?case using 1(2) by (intro exI [of _ A2] exI [of _ l2]) auto
qed auto

section \<open>Evaluation of runs\<close>

lemma CLOSED_numeral: "CLOSED = 9223372036854775808"
  by (simp add: CLOSED_def push_bit_eq_mult)

lemma NOT_CLOSED_numeral: "NOT CLOSED = 9223372036854775807"
  by (simp add: CLOSED_numeral)

lemmas lcrq_exec = lcrq_start_def ksiLCRQInit_def lcrq_do_def enq_step_def deq_step_def CAS2_def CAS_tail_def BTAS_tail_def
  close_crq_def cell_of_def rq_update_def ksiLCRQRetire_def ksiDynamicEBRRetire_def dentry_update_def
  ksiDynamicEBRCreate_def ksiRingBufferEBREntryInit_def CLOSED_numeral NOT_CLOSED_numeral node_index_def set_unsafe_def
  node_unsafe_def tail_index_def crq_is_closed_def solo_ring_def init_ring_def get_at_def received_list_def Let_def need_def

lemma replicate_numeral: "replicate (numeral k) x = x # replicate (pred_numeral k) x"
  by (simp add: numeral_eq_Suc)

section \<open>Properties\<close>

text \<open>C34: Whatever calls producers, consumers and the collector make and however their steps are
  interleaved: the tasks received are tasks that were sent, none of them twice. As long as the collector has
  not been called, every task sent is received, in a cell of a ring, or still with its call of Enqueue.\<close>

theorem lcrq_conserves_tasks:
  assumes "lcrq_steps evs (lcrq_start sz np nc) = Some s"
  shows "mset (got s) \<subseteq># mset (sent s) \<and>
    ((\<forall>i. Collection i \<notin> set evs) \<longrightarrow>
     (\<exists>A. mset (got s) + tasks_in (queue s) A + pending_tasks (producers s) = mset (sent s)))"
proof -
  obtain A lost where i: "lcrq_inv s A lost" "(\<forall>i. Collection i \<notin> set evs) \<longrightarrow> lost = {#}"
    using lcrq_steps_inv [OF lcrq_start_inv assms] by blast
  then have b: "mset (got s) + tasks_in (queue s) A + pending_tasks (producers s) + lost = mset (sent s)"
    by (simp add: lcrq_inv_def)
  then have "mset (got s) \<subseteq># mset (sent s)" by (metis add.assoc mset_subset_eq_add_left)
  then show ?thesis using i(2) b by auto
qed

theorem lcrq_conserves_tasks_witness:
  "\<exists>s. lcrq_steps (Send 0 5 # replicate 6 (Enq 0) @ Receive 0 # replicate 5 (Deq 0)) (lcrq_start 2 1 1) = Some s \<and>
     got s = [5] \<and> mset (got s) \<subseteq># mset (sent s)"
proof -
  obtain s where s: "lcrq_steps (Send 0 5 # replicate 6 (Enq 0) @ Receive 0 # replicate 5 (Deq 0)) (lcrq_start 2 1 1) = Some s"
    "got s = [5]"
    by (simp add: lcrq_exec replicate_numeral)
  then show ?thesis using lcrq_conserves_tasks [OF s(1)] by blast
qed


end
