(* ===== verification/Lcrq_Ring.thy ===== *)
theory Lcrq_Ring
  imports Lcrq_Safe
begin

text \<open>
  One ring of cells when calls do not overlap. From the head \<open>H\<close> on, the ring holds its tasks in order,
  then free cells up to one round; every cell is marked with the position it is good for. A call
  that finds the ring full closes it: the mark in the tail is set for good.
\<close>

section \<open>Positions\<close>

lemma unat_pos: "x < 2 ^ 63 \<Longrightarrow> unat (of_nat x :: uint64) = x"
  by (simp add: unat_of_nat)

lemma pos_eq: "x < 2 ^ 63 \<Longrightarrow> y < 2 ^ 63 \<Longrightarrow> (of_nat x :: uint64) = of_nat y \<longleftrightarrow> x = y"
  by (simp add: word_unat_eq_iff unat_pos)

lemma pos_less: "x < 2 ^ 63 \<Longrightarrow> y < 2 ^ 63 \<Longrightarrow> (of_nat x :: uint64) < of_nat y \<longleftrightarrow> x < y"
  by (simp add: word_less_nat_alt unat_pos)

lemma pos_le: "x < 2 ^ 63 \<Longrightarrow> y < 2 ^ 63 \<Longrightarrow> (of_nat x :: uint64) \<le> of_nat y \<longleftrightarrow> x \<le> y"
  by (simp add: word_le_nat_alt unat_pos)

lemma bit_CLOSED: "bit CLOSED n \<longleftrightarrow> n = 63"
  unfolding CLOSED_def bit_push_bit_iff bit_1_iff by auto

lemma bit_pos: "x < 2 ^ 63 \<Longrightarrow> bit (of_nat x :: uint64) n \<Longrightarrow> n < 63"
proof -
  assume x: "x < 2 ^ 63" and b: "bit (of_nat x :: uint64) n"
  have "take_bit 63 x = x" using x by (simp add: take_bit_nat_eq_self)
  then have "bit (take_bit 63 (of_nat x) :: uint64) n" using b by (metis of_nat_take_bit)
  then show "n < 63" by (simp add: bit_take_bit_iff)
qed

lemma pos_CLOSED:
  assumes "x < 2 ^ 63"
  shows "of_nat x AND CLOSED = (0 :: uint64)" "of_nat x AND NOT CLOSED = (of_nat x :: uint64)"
    "(of_nat x OR CLOSED) AND NOT CLOSED = (of_nat x :: uint64)" "(of_nat x OR CLOSED) AND CLOSED \<noteq> (0 :: uint64)"
proof -
  have b: "bit (of_nat x :: uint64) n \<Longrightarrow> n \<noteq> 63" for n using bit_pos [OF assms] by blast
  show "of_nat x AND CLOSED = (0 :: uint64)" "of_nat x AND NOT CLOSED = (of_nat x :: uint64)"
    "(of_nat x OR CLOSED) AND NOT CLOSED = (of_nat x :: uint64)"
    by (rule bit_word_eqI; use b in \<open>auto simp: bit_and_iff bit_or_iff bit_not_iff bit_CLOSED\<close>)+
  have "bit ((of_nat x OR CLOSED) AND CLOSED :: uint64) 63" by (simp add: bit_and_iff bit_or_iff bit_CLOSED)
  then show "(of_nat x OR CLOSED) AND CLOSED \<noteq> (0 :: uint64)" by fastforce
qed

lemma pos_indices:
  assumes "x < 2 ^ 63"
  shows "node_index (of_nat x) = of_nat x" "node_unsafe (of_nat x) = 0" "tail_index (of_nat x) = of_nat x"
    "\<not> crq_is_closed (of_nat x)" "tail_index (of_nat x OR CLOSED) = of_nat x" "crq_is_closed (of_nat x OR CLOSED)"
  using pos_CLOSED [OF assms]
  by (simp_all add: node_index_def node_unsafe_def tail_index_def crq_is_closed_def)

lemma closed_above:
  assumes "y < 2 ^ 63"
  shows "\<not> of_nat x OR CLOSED < (of_nat y :: uint64)"
proof -
  have "CLOSED \<le> of_nat x OR CLOSED" by (metis or.commute le_word_or1)
  moreover have "(of_nat y :: uint64) < CLOSED" using assms by (simp add: word_less_nat_alt unat_pos CLOSED_numeral)
  ultimately show ?thesis by (simp add: not_less)
qed

section \<open>Cells\<close>

definition slot :: "nat \<Rightarrow> nat \<Rightarrow> uint64" where
  "slot k j = of_nat j AND (2 ^ k - 1)"

lemma slot_eq:
  assumes "k < 62"
  shows "slot k j = of_nat (j mod 2 ^ k)"
proof -
  have "slot k j = take_bit k (of_nat j)" by (simp add: slot_def take_bit_eq_mask mask_eq_decr_exp)
  also have "\<dots> = of_nat (take_bit k j)" by (simp add: of_nat_take_bit)
  finally show ?thesis by (simp add: take_bit_eq_mod)
qed

lemma slot_inj:
  assumes "k < 62" "H \<le> i" "i < H + 2 ^ k" "H \<le> j" "j < H + 2 ^ k"
  shows "slot k i = slot k j \<longleftrightarrow> i = j"
proof
  assume "slot k i = slot k j"
  moreover have "x mod 2 ^ k < 2 ^ 63" for x :: nat
  proof -
    have "x mod 2 ^ k < 2 ^ k" by simp
    also have "(2 :: nat) ^ k \<le> 2 ^ 63" using assms(1) by (intro power_increasing) simp_all
    finally show ?thesis .
  qed
  ultimately have e: "i mod 2 ^ k = j mod 2 ^ k" unfolding slot_eq [OF assms(1)] by (simp add: pos_eq)
  have "x = y" if "x mod 2 ^ k = y mod 2 ^ k" "H \<le> x" "x < H + 2 ^ k" "H \<le> y" "y < H + 2 ^ k" "x \<le> y" for x y :: nat
  proof -
    have "2 ^ k dvd y - x" using that(1,6) by (metis mod_eq_dvd_iff_nat)
    then show ?thesis using that by (auto dest: dvd_imp_le)
  qed
  then show "i = j" using e assms by (metis nle_le)
qed simp

lemma slot_round: "k < 62 \<Longrightarrow> slot k (j + 2 ^ k) = slot k j"
  by (simp add: slot_eq)

definition cell_at :: "nat \<Rightarrow> ptr list \<Rightarrow> nat \<Rightarrow> ring_node" where
  "cell_at H xs j = \<lparr>val = if j < H + List.length xs then Some (xs ! (j - H)) else None, idx = of_nat j\<rparr>"

definition ring_at :: "nat \<Rightarrow> nat \<Rightarrow> ptr list \<Rightarrow> bool \<Rightarrow> ring_queue \<Rightarrow> bool" where
  "ring_at k H xs closed r \<longleftrightarrow> List.length xs \<le> 2 ^ k \<and> qhd r = of_nat H \<and>
     qtl r = (if closed then of_nat (H + List.length xs + 1) OR CLOSED else of_nat (H + List.length xs)) \<and>
     (\<forall>j. H \<le> j \<longrightarrow> j < H + 2 ^ k \<longrightarrow> qarray r (slot k j) = cell_at H xs j)"

lemma ring_atD:
  assumes "ring_at k H xs closed r"
  shows "List.length xs \<le> 2 ^ k" "qhd r = of_nat H"
    "qtl r = (if closed then of_nat (H + List.length xs + 1) OR CLOSED else of_nat (H + List.length xs))"
    "H \<le> j \<Longrightarrow> j < H + 2 ^ k \<Longrightarrow> qarray r (slot k j) = cell_at H xs j"
  using assms by (simp_all add: ring_at_def)

lemma ring_at_cong: "qhd r' = qhd r \<Longrightarrow> qtl r' = qtl r \<Longrightarrow> qarray r' = qarray r \<Longrightarrow> ring_at k H xs c r' = ring_at k H xs c r"
  by (simp add: ring_at_def)

lemma ring_at_init:
  assumes "k < 62"
  shows "ring_at k 0 [] False init_ring"
  using assms by (auto simp: ring_at_def init_ring_def cell_at_def slot_eq)

lemma ring_at_solo:
  assumes "k < 62"
  shows "ring_at k 0 [x] False (solo_ring x)"
proof -
  have "(slot k j = 0) = (j = 0)" if "j < 2 ^ k" for j using slot_inj [OF assms, of 0 j 0] that by (auto simp: slot_def)
  then show ?thesis using assms by (auto simp: ring_at_def solo_ring_def init_ring_def cell_at_def slot_eq)
qed

lemma ring_at_push:
  assumes "k < 62" "ring_at k H xs False r" "List.length xs < 2 ^ k"
  shows "ring_at k H (xs @ [x]) False
    (r\<lparr>qtl := of_nat (H + List.length xs) + 1, qarray := (qarray r)(slot k (H + List.length xs) := \<lparr>val = Some x, idx = of_nat (H + List.length xs)\<rparr>)\<rparr>)"
proof -
  let ?T = "H + List.length xs"
  have "((qarray r)(slot k ?T := \<lparr>val = Some x, idx = of_nat ?T\<rparr>)) (slot k j) = cell_at H (xs @ [x]) j"
    if "H \<le> j" "j < H + 2 ^ k" for j
    using slot_inj [OF assms(1), of H j ?T] ring_atD(4) [OF assms(2) that] assms(3) that
    by (auto simp: cell_at_def nth_append)
  then show ?thesis using assms(2,3) unfolding ring_at_def by (simp add: ac_simps)
qed

lemma ring_at_take:
  assumes "k < 62" "ring_at k H (x # xs) c r"
  shows "ring_at k (Suc H) xs c
    (r\<lparr>qhd := of_nat H + 1, qarray := (qarray r)(slot k H := \<lparr>val = None, idx = of_nat (H + 2 ^ k)\<rparr>)\<rparr>)"
proof -
  have "((qarray r)(slot k H := \<lparr>val = None, idx = of_nat (H + 2 ^ k)\<rparr>)) (slot k j) = cell_at (Suc H) xs j"
    if j: "Suc H \<le> j" "j < Suc H + 2 ^ k" for j
  proof (cases "j = H + 2 ^ k")
    case True
    then show ?thesis using slot_round [OF assms(1), of H] ring_atD(1) [OF assms(2)] by (auto simp: cell_at_def)
  next
    case False
    then have "slot k j \<noteq> slot k H" using slot_inj [OF assms(1), of H j H] j by auto
    moreover have "qarray r (slot k j) = cell_at H (x # xs) j" by (rule ring_atD(4) [OF assms(2)]) (use j False in auto)
    ultimately show ?thesis using j by (simp add: cell_at_def nth_Cons' del: of_nat_Suc)
  qed
  then show ?thesis using assms(2) unfolding ring_at_def by (auto simp: ac_simps)
qed

lemma ring_at_skip:
  assumes "k < 62" "ring_at k H [] False r"
  shows "ring_at k (Suc H) [] False
    (r\<lparr>qhd := of_nat H + 1, qtl := of_nat H + 1, qarray := (qarray r)(slot k H := \<lparr>val = None, idx = of_nat (H + 2 ^ k)\<rparr>)\<rparr>)"
proof -
  have "((qarray r)(slot k H := \<lparr>val = None, idx = of_nat (H + 2 ^ k)\<rparr>)) (slot k j) = cell_at (Suc H) [] j"
    if j: "Suc H \<le> j" "j < Suc H + 2 ^ k" for j
  proof (cases "j = H + 2 ^ k")
    case True
    then show ?thesis using slot_round [OF assms(1), of H] by (auto simp: cell_at_def)
  next
    case False
    then have "slot k j \<noteq> slot k H" using slot_inj [OF assms(1), of H j H] j by auto
    moreover have "qarray r (slot k j) = cell_at H [] j" by (rule ring_atD(4) [OF assms(2)]) (use j False in auto)
    ultimately show ?thesis using j by (simp add: cell_at_def del: of_nat_Suc)
  qed
  then show ?thesis using assms(2) unfolding ring_at_def by (auto simp: ac_simps)
qed

section \<open>Enqueue on the last ring\<close>

lemma cell_of_slot: "rqs q p = Some r \<Longrightarrow> lsize q = 2 ^ k \<Longrightarrow> cell_of q p (of_nat j) = Some (qarray r (slot k j))"
  by (simp add: cell_of_def slot_def)

lemma CAS2_slot:
  "rqs q p = Some r \<Longrightarrow> lsize q = 2 ^ k \<Longrightarrow> qarray r (slot k j) = old \<Longrightarrow>
   CAS2 p (of_nat j) old new q = Some (True, q\<lparr>rqs := (rqs q)(p \<mapsto> r\<lparr>qarray := (qarray r)(slot k j := new)\<rparr>)\<rparr>)"
  by (simp add: CAS2_def cell_of_slot rq_update_def slot_def)

lemma rq_update_eq: "rqs q p = Some r \<Longrightarrow> rq_update p f q = Some (q\<lparr>rqs := (rqs q)(p \<mapsto> f r)\<rparr>)"
  by (simp add: rq_update_def)

lemma enq_run_step: "enq_step x s q = Some (s', q') \<Longrightarrow> enq_run x s q = enq_run x s' q'"
  by (subst enq_run.simps) (cases s, auto simp: enq_step_def)

lemma enq_run_done: "enq_run x (k, EDone) q = Some q"
  by (subst enq_run.simps) simp

lemma enq_faa:
  assumes "rqs q p = Some r" "ltail q = p" "qnxt r = NULL" "qtl r = of_nat T" "T < 2 ^ 63"
  shows "enq_run x (0, EStart) q = enq_run x (0, EIdx p (of_nat T)) (q\<lparr>rqs := (rqs q)(p \<mapsto> r\<lparr>qtl := of_nat T + 1\<rparr>)\<rparr>)"
proof -
  have s1: "enq_step x (0, EStart) q = Some ((0, ENext p), q)" using assms by (simp add: enq_step_def)
  have s2: "enq_step x (0, ENext p) q = Some ((0, EFaa p), q)" using assms by (simp add: enq_step_def)
  have s3: "enq_step x (0, EFaa p) q = Some ((0, EIdx p (of_nat T)), q\<lparr>rqs := (rqs q)(p \<mapsto> r\<lparr>qtl := of_nat T + 1\<rparr>)\<rparr>)"
    using assms by (simp add: enq_step_def rq_update_eq pos_indices(4) Let_def)
  show ?thesis using enq_run_step [OF s1] enq_run_step [OF s2] enq_run_step [OF s3] by simp
qed

lemma enqueue_fits:
  assumes k: "k < 62" and q: "rqs q p = Some r" "ltail q = p" "qnxt r = NULL" "lsize q = 2 ^ k"
    and r: "ring_at k H xs False r" and room: "List.length xs < 2 ^ k" and N: "H + List.length xs < 2 ^ 63"
  shows "\<exists>r'. ksiLCRQEnqueue x q = Some (q\<lparr>rqs := (rqs q)(p \<mapsto> r')\<rparr>) \<and> ring_at k H (xs @ [x]) False r' \<and> qnxt r' = NULL"
proof -
  define T where "T = H + List.length xs"
  have T: "T < 2 ^ 63" "qtl r = of_nat T" "qarray r (slot k T) = \<lparr>val = None, idx = of_nat T\<rparr>"
    using N ring_atD(3) [OF r] ring_atD(4) [OF r, of T] room by (simp_all add: T_def cell_at_def)
  let ?r1 = "r\<lparr>qtl := of_nat T + 1\<rparr>"
  let ?q1 = "q\<lparr>rqs := (rqs q)(p \<mapsto> ?r1)\<rparr>"
  let ?r2 = "r\<lparr>qtl := of_nat T + 1, qarray := (qarray r)(slot k T := \<lparr>val = Some x, idx = of_nat T\<rparr>)\<rparr>"
  have q1: "rqs ?q1 p = Some ?r1" "lsize ?q1 = 2 ^ k" using q(4) by simp_all
  have c: "cell_of ?q1 p (of_nat T) = Some \<lparr>val = None, idx = of_nat T\<rparr>" using cell_of_slot [OF q1, of T] T(3) by simp
  have s1: "enq_step x (0, EIdx p (of_nat T)) ?q1 = Some ((0, EVal p (of_nat T) (of_nat T)), ?q1)"
    using c by (simp add: enq_step_def)
  have s2: "enq_step x (0, EVal p (of_nat T) (of_nat T)) ?q1 = Some ((0, ECas p (of_nat T) (of_nat T)), ?q1)"
    using c by (simp add: enq_step_def pos_indices [OF T(1)])
  have s3: "enq_step x (0, ECas p (of_nat T) (of_nat T)) ?q1 = Some ((0, EDone), q\<lparr>rqs := (rqs q)(p \<mapsto> ?r2)\<rparr>)"
    using CAS2_slot [OF q1, of T] T(3) by (simp add: enq_step_def)
  have "ksiLCRQEnqueue x q = Some (q\<lparr>rqs := (rqs q)(p \<mapsto> ?r2)\<rparr>)"
    unfolding ksiLCRQEnqueue_def enq_faa [OF q(1-3) T(2,1)]
    using enq_run_step [OF s1] enq_run_step [OF s2] enq_run_step [OF s3] by (simp add: enq_run_done)
  moreover have "ring_at k H (xs @ [x]) False ?r2" using ring_at_push [OF k r room, of x] unfolding T_def by simp
  ultimately show ?thesis using q(3) by auto
qed

lemma enqueue_full:
  assumes k: "k < 62" and q: "rqs q p = Some r" "ltail q = p" "qnxt r = NULL" "lsize q = 2 ^ k"
    and r: "ring_at k H xs False r" and full: "List.length xs = 2 ^ k" and N: "H + 2 ^ k + 1 < 2 ^ 63"
    and f: "lfresh q \<noteq> p" "lfresh q \<noteq> NULL"
  shows "\<exists>r'. ksiLCRQEnqueue x q =
      Some (q\<lparr>rqs := (rqs q)(p \<mapsto> r', lfresh q \<mapsto> solo_ring x), lfresh := Suc (lfresh q), ltail := lfresh q\<rparr>) \<and>
    ring_at k H xs True r' \<and> qnxt r' = lfresh q"
proof -
  define T where "T = H + 2 ^ k"
  have T: "T < 2 ^ 63" "Suc T < 2 ^ 63" "qtl r = of_nat T" using N ring_atD(3) [OF r] by (simp_all add: T_def full)
  have "qarray r (slot k T) = cell_at H xs H"
    using slot_round [OF k, of H] ring_atD(4) [OF r, of H] by (simp add: T_def)
  then have cell: "qarray r (slot k T) = \<lparr>val = Some (xs ! 0), idx = of_nat H\<rparr>" using full by (simp add: cell_at_def)
  let ?t = "of_nat T :: uint64"
  let ?r1 = "r\<lparr>qtl := ?t + 1\<rparr>"
  let ?q1 = "q\<lparr>rqs := (rqs q)(p \<mapsto> ?r1)\<rparr>"
  let ?r2 = "r\<lparr>qtl := (?t + 1) OR CLOSED\<rparr>"
  let ?q2 = "q\<lparr>rqs := (rqs q)(p \<mapsto> ?r2)\<rparr>"
  let ?q3 = "q\<lparr>rqs := (rqs q)(p \<mapsto> ?r2, lfresh q \<mapsto> solo_ring x), lfresh := Suc (lfresh q)\<rparr>"
  let ?r4 = "?r2\<lparr>qnxt := lfresh q\<rparr>"
  let ?q4 = "q\<lparr>rqs := (rqs q)(p \<mapsto> ?r4, lfresh q \<mapsto> solo_ring x), lfresh := Suc (lfresh q)\<rparr>"
  have c: "cell_of ?q1 p ?t = Some \<lparr>val = Some (xs ! 0), idx = of_nat H\<rparr>"
    using cell_of_slot [of ?q1 p ?r1 k T] q(4) cell by simp
  have s1: "enq_step x (0, EIdx p ?t) ?q1 = Some ((0, EVal p ?t (of_nat H)), ?q1)" using c by (simp add: enq_step_def)
  have s2: "enq_step x (0, EVal p ?t (of_nat H)) ?q1 = Some ((0, EFull p ?t), ?q1)" using c by (simp add: enq_step_def)
  have d: "?t - qhd ?r1 = lsize ?q1" using ring_atD(2) [OF r] q(4) by (simp add: T_def)
  have s3: "enq_step x (0, EFull p ?t) ?q1 = Some ((1, EClose p ?t), ?q1)" using d by (simp add: enq_step_def)
  have s4: "enq_step x (1, EClose p ?t) ?q1 = Some ((1, EAlloc p), ?q2)"
    using q(1) by (simp add: enq_step_def close_crq_def CAS_tail_def rq_update_def)
  have s5: "enq_step x (1, EAlloc p) ?q2 = Some ((1, ELink p (lfresh q)), ?q3)" by (simp add: enq_step_def)
  have s6: "enq_step x (1, ELink p (lfresh q)) ?q3 = Some ((1, EPublish p (lfresh q)), ?q4)"
    using f(1) q(3) by (simp add: enq_step_def rq_update_def fun_upd_twist)
  have s7: "enq_step x (1, EPublish p (lfresh q)) ?q4 = Some ((1, EDone), ?q4\<lparr>ltail := lfresh q\<rparr>)"
    using q(2) by (simp add: enq_step_def)
  have "ksiLCRQEnqueue x q = Some (?q4\<lparr>ltail := lfresh q\<rparr>)"
    unfolding ksiLCRQEnqueue_def enq_faa [OF q(1-3) T(3,1)]
    unfolding enq_run_step [OF s1] enq_run_step [OF s2] enq_run_step [OF s3] enq_run_step [OF s4] enq_run_step [OF s5]
      enq_run_step [OF s6] enq_run_step [OF s7] by (rule enq_run_done)
  moreover have "ring_at k H xs True ?r4" using r full unfolding ring_at_def by (simp add: T_def ac_simps)
  ultimately show ?thesis by auto
qed

section \<open>Dequeue on the first ring\<close>

lemma deq_run_step: "deq_step tid pc q = Some (pc', q') \<Longrightarrow> deq_run tid pc q = deq_run tid pc' q'"
proof -
  assume a: "deq_step tid pc q = Some (pc', q')"
  have "deq_step tid (DDone r) q = None" for r by (simp add: deq_step_def)
  then show ?thesis using a by (subst deq_run.simps) (cases pc; simp)
qed

lemma deq_run_done: "deq_run tid (DDone r) q = Some (r, q)"
  by (subst deq_run.simps) simp

lemma deq_faa:
  assumes "rqs q p = Some r" "lhead q = p" "lsize q = 2 ^ k" "qhd r = of_nat H" "qarray r (slot k H) = \<lparr>val = v, idx = of_nat H\<rparr>"
  shows "deq_run tid DStart q = deq_run tid (DVal p (of_nat H) (of_nat H) 0 0) (q\<lparr>rqs := (rqs q)(p \<mapsto> r\<lparr>qhd := of_nat H + 1\<rparr>)\<rparr>)"
proof -
  let ?q = "q\<lparr>rqs := (rqs q)(p \<mapsto> r\<lparr>qhd := of_nat H + 1\<rparr>)\<rparr>"
  have s1: "deq_step tid DStart q = Some (DFaa p, q)" using assms(2) by (simp add: deq_step_def)
  have s2: "deq_step tid (DFaa p) q = Some (DIdx p (of_nat H) 0 0, ?q)" using assms by (simp add: deq_step_def rq_update_eq Let_def)
  have s3: "deq_step tid (DIdx p (of_nat H) 0 0) ?q = Some (DVal p (of_nat H) (of_nat H) 0 0, ?q)"
    using cell_of_slot [of ?q p "r\<lparr>qhd := of_nat H + 1\<rparr>" k H] assms(3,5) by (simp add: deq_step_def)
  show ?thesis unfolding deq_run_step [OF s1] deq_run_step [OF s2] deq_run_step [OF s3] ..
qed

lemma dequeue_task:
  assumes k: "k < 62" and q: "rqs q p = Some r" "lhead q = p" "lsize q = 2 ^ k"
    and r: "ring_at k H (x # xs) c r" and N: "H + 2 ^ k < 2 ^ 63"
  shows "\<exists>r'. deq_run tid DStart q = Some (Some x, q\<lparr>rqs := (rqs q)(p \<mapsto> r')\<rparr>) \<and> ring_at k (Suc H) xs c r' \<and> qnxt r' = qnxt r"
proof -
  have H: "H < 2 ^ 63" using N by simp
  let ?h = "of_nat H :: uint64"
  have cell: "qarray r (slot k H) = \<lparr>val = Some x, idx = ?h\<rparr>" using ring_atD(4) [OF r, of H] by (simp add: cell_at_def)
  let ?r1 = "r\<lparr>qhd := ?h + 1\<rparr>"
  let ?q1 = "q\<lparr>rqs := (rqs q)(p \<mapsto> ?r1)\<rparr>"
  let ?r2 = "r\<lparr>qhd := ?h + 1, qarray := (qarray r)(slot k H := \<lparr>val = None, idx = of_nat (H + 2 ^ k)\<rparr>)\<rparr>"
  have q1: "rqs ?q1 p = Some ?r1" "lsize ?q1 = 2 ^ k" using q(3) by simp_all
  have c: "cell_of ?q1 p ?h = Some \<lparr>val = Some x, idx = ?h\<rparr>" using cell_of_slot [OF q1, of H] cell by simp
  have s1: "deq_step tid (DVal p ?h ?h 0 0) ?q1 = Some (DTake p ?h ?h x 0 0, ?q1)"
    using c by (simp add: deq_step_def pos_indices [OF H])
  have s2: "deq_step tid (DTake p ?h ?h x 0 0) ?q1 = Some (DDone (Some x), q\<lparr>rqs := (rqs q)(p \<mapsto> ?r2)\<rparr>)"
    using CAS2_slot [OF q1, of H] cell q(3) by (simp add: deq_step_def pos_indices [OF H])
  have "deq_run tid DStart q = Some (Some x, q\<lparr>rqs := (rqs q)(p \<mapsto> ?r2)\<rparr>)"
    unfolding deq_faa [OF q ring_atD(2) [OF r] cell] deq_run_step [OF s1] deq_run_step [OF s2] by (rule deq_run_done)
  then show ?thesis using ring_at_take [OF k r] by auto
qed

text \<open>On an empty ring the head moves on before the call looks at the tail.\<close>

lemma deq_of_empty:
  assumes k: "k < 62" and q: "rqs q p = Some r" "lhead q = p" "lsize q = 2 ^ k"
    and r: "ring_at k H [] c r" and N: "H + 2 ^ k + 1 < 2 ^ 63"
  shows "deq_run tid DStart q = deq_run tid (DFixT p (of_nat H)) (q\<lparr>rqs := (rqs q)(p \<mapsto>
    r\<lparr>qhd := of_nat H + 1, qarray := (qarray r)(slot k H := \<lparr>val = None, idx = of_nat (H + 2 ^ k)\<rparr>)\<rparr>)\<rparr>)"
proof -
  have H: "H < 2 ^ 63" "Suc H < 2 ^ 63" using N by simp_all
  let ?h = "of_nat H :: uint64"
  have cell: "qarray r (slot k H) = \<lparr>val = None, idx = ?h\<rparr>" using ring_atD(4) [OF r, of H] by (simp add: cell_at_def)
  have suc: "?h + 1 = of_nat (Suc H)" by simp
  have tl: "qtl r = (if c then of_nat (Suc H) OR CLOSED else ?h)" using ring_atD(3) [OF r] by simp
  have ti: "tail_index (qtl r) \<le> ?h + 1" "c \<or> tail_index (qtl r) < ?h + 1" "c \<longrightarrow> crq_is_closed (qtl r)"
    unfolding tl suc using pos_indices [OF H(1)] pos_indices [OF H(2)] H
    by (auto simp: pos_le pos_less simp del: of_nat_Suc)
  let ?r1 = "r\<lparr>qhd := ?h + 1\<rparr>"
  let ?q1 = "q\<lparr>rqs := (rqs q)(p \<mapsto> ?r1)\<rparr>"
  let ?r2 = "r\<lparr>qhd := ?h + 1, qarray := (qarray r)(slot k H := \<lparr>val = None, idx = of_nat (H + 2 ^ k)\<rparr>)\<rparr>"
  let ?q2 = "q\<lparr>rqs := (rqs q)(p \<mapsto> ?r2)\<rparr>"
  have q1: "rqs ?q1 p = Some ?r1" "lsize ?q1 = 2 ^ k" using q(3) by simp_all
  have cl: "cell_of ?q1 p ?h = Some \<lparr>val = None, idx = ?h\<rparr>" using cell_of_slot [OF q1, of H] cell by simp
  have s1: "deq_step tid (DVal p ?h ?h 0 0) ?q1 = Some (DRead p ?h ?h 0, ?q1)"
    using cl by (simp add: deq_step_def pos_indices [OF H(1)])
  have s2: "deq_step tid (DRead p ?h ?h 0) ?q1 = Some (DEmpty p ?h ?h (qtl r) 0, ?q1)" by (simp add: deq_step_def)
  have s3: "deq_step tid (DEmpty p ?h ?h (qtl r) 0) ?q1 = Some (DTail p ?h, ?q2)"
    using CAS2_slot [OF q1, of H] cell q(3) ti(2,3) by (auto simp: deq_step_def pos_indices [OF H(1)])
  have s4: "deq_step tid (DTail p ?h) ?q2 = Some (DFixT p ?h, ?q2)" using ti(1) by (simp add: deq_step_def)
  show ?thesis
    unfolding deq_faa [OF q ring_atD(2) [OF r] cell] deq_run_step [OF s1] deq_run_step [OF s2] deq_run_step [OF s3]
      deq_run_step [OF s4] ..
qed

lemma dequeue_none:
  assumes k: "k < 62" and q: "rqs q p = Some r" "lhead q = p" "lsize q = 2 ^ k"
    and r: "ring_at k H [] False r" and N: "H + 2 ^ k + 1 < 2 ^ 63" and nx: "qnxt r = NULL"
  shows "\<exists>r'. deq_run tid DStart q = Some (None, q\<lparr>rqs := (rqs q)(p \<mapsto> r')\<rparr>) \<and> ring_at k (Suc H) [] False r' \<and> qnxt r' = NULL"
proof -
  have H: "H < 2 ^ 63" "Suc H < 2 ^ 63" using N by simp_all
  let ?h = "of_nat H :: uint64"
  have lt: "?h < ?h + 1" using pos_less [OF H] by (simp add: ac_simps)
  let ?r2 = "r\<lparr>qhd := ?h + 1, qarray := (qarray r)(slot k H := \<lparr>val = None, idx = of_nat (H + 2 ^ k)\<rparr>)\<rparr>"
  let ?q2 = "q\<lparr>rqs := (rqs q)(p \<mapsto> ?r2)\<rparr>"
  let ?r3 = "?r2\<lparr>qtl := ?h + 1\<rparr>"
  let ?q3 = "q\<lparr>rqs := (rqs q)(p \<mapsto> ?r3)\<rparr>"
  have tl: "qtl r = ?h" using ring_atD(3) [OF r] by simp
  have s1: "deq_step tid (DFixT p ?h) ?q2 = Some (DFixH p ?h ?h, ?q2)" by (simp add: deq_step_def tl)
  have s2: "deq_step tid (DFixH p ?h ?h) ?q2 = Some (DFixC p ?h ?h (?h + 1), ?q2)" by (simp add: deq_step_def)
  have s3: "deq_step tid (DFixC p ?h ?h (?h + 1)) ?q2 = Some (DFixS p ?h ?h (?h + 1), ?q2)" using lt by (simp add: deq_step_def tl)
  have s4: "deq_step tid (DFixS p ?h ?h (?h + 1)) ?q2 = Some (DNext p ?h, ?q3)"
    by (simp add: deq_step_def tl CAS_tail_def rq_update_def)
  have s5: "deq_step tid (DNext p ?h) ?q3 = Some (DDone None, ?q3)" using nx by (simp add: deq_step_def)
  have "deq_run tid DStart q = Some (None, ?q3)"
    unfolding deq_of_empty [OF k q r N] deq_run_step [OF s1] deq_run_step [OF s2] deq_run_step [OF s3]
      deq_run_step [OF s4] deq_run_step [OF s5] by (rule deq_run_done)
  moreover have "ring_at k (Suc H) [] False ?r3" using ring_at_skip [OF k r] unfolding ring_at_def by simp
  ultimately show ?thesis using nx by auto
qed

text \<open>An empty ring with a successor is taken out and given up.\<close>

lemma dequeue_swing:
  assumes k: "k < 62" and q: "rqs q p = Some r" "lhead q = p" "lsize q = 2 ^ k"
    and r: "ring_at k H [] True r" and N: "H + 2 ^ k + 1 < 2 ^ 63" and nx: "qnxt r \<noteq> NULL"
  shows "\<exists>r'. deq_run tid DStart q = deq_run tid (DRetire p) (q\<lparr>rqs := (rqs q)(p \<mapsto> r'), lhead := qnxt r\<rparr>)"
proof -
  have H: "H < 2 ^ 63" "Suc H < 2 ^ 63" using N by simp_all
  let ?h = "of_nat H :: uint64"
  let ?r2 = "r\<lparr>qhd := ?h + 1, qarray := (qarray r)(slot k H := \<lparr>val = None, idx = of_nat (H + 2 ^ k)\<rparr>)\<rparr>"
  let ?q2 = "q\<lparr>rqs := (rqs q)(p \<mapsto> ?r2)\<rparr>"
  have tl: "qtl r = of_nat (Suc H) OR CLOSED" using ring_atD(3) [OF r] by simp
  have suc: "?h + 1 = of_nat (Suc H)" by simp
  have lt: "\<not> qtl r < ?h + 1" unfolding tl suc by (rule closed_above [OF H(2)])
  have ti: "tail_index (qtl r) \<le> ?h + 1" unfolding tl suc pos_indices(5) [OF H(2)] by simp
  have s1: "deq_step tid (DFixT p ?h) ?q2 = Some (DFixH p ?h (qtl r), ?q2)" by (simp add: deq_step_def)
  have s2: "deq_step tid (DFixH p ?h (qtl r)) ?q2 = Some (DFixC p ?h (qtl r) (?h + 1), ?q2)" by (simp add: deq_step_def)
  have s3: "deq_step tid (DFixC p ?h (qtl r) (?h + 1)) ?q2 = Some (DNext p ?h, ?q2)" using lt by (simp add: deq_step_def)
  have s4: "deq_step tid (DNext p ?h) ?q2 = Some (DTail2 p ?h (qnxt r), ?q2)" using nx by (simp add: deq_step_def)
  have s5: "deq_step tid (DTail2 p ?h (qnxt r)) ?q2 = Some (DSwing p (qnxt r), ?q2)" using ti by (simp add: deq_step_def)
  have s6: "deq_step tid (DSwing p (qnxt r)) ?q2 = Some (DRetire p, ?q2\<lparr>lhead := qnxt r\<rparr>)" using q(2) by (simp add: deq_step_def)
  have "deq_run tid DStart q = deq_run tid (DRetire p) (?q2\<lparr>lhead := qnxt r\<rparr>)"
    unfolding deq_of_empty [OF k q r N] deq_run_step [OF s1] deq_run_step [OF s2] deq_run_step [OF s3]
      deq_run_step [OF s4] deq_run_step [OF s5] deq_run_step [OF s6] ..
  then show ?thesis by auto
qed

end
