(* ===== verification/Ring_Rep.thy ===== *)
theory Ring_Rep
  imports Ring_Buffer "HOL-Library.Multiset"
begin

text \<open>
  What a ring buffer stands for: the chain of its segments from \<open>tail\<close> to \<open>head\<close> is a list,
  every other segment is on exactly one free list. A call that runs alone appends
  (push), removes the first (take) or the last element (pop), and never touches a released segment
  or an uninitialised cell.
\<close>

section \<open>Indices\<close>

lemma idx_less:
  assumes "t + n < 2 ^ 63"
  shows "of_nat t + 1 < (of_nat (t + n) + 1 :: uint64) \<longleftrightarrow> 0 < n"
proof -
  have "of_nat t + 1 = (of_nat (t + 1) :: uint64)" "of_nat (t + n) + 1 = (of_nat (t + n + 1) :: uint64)" by simp_all
  moreover have "unat (of_nat (t + 1) :: uint64) = t + 1" "unat (of_nat (t + n + 1) :: uint64) = t + n + 1"
    using assms by (simp_all add: unat_of_nat del: of_nat_add of_nat_Suc)
  ultimately show ?thesis by (simp add: word_less_nat_alt ac_simps del: of_nat_add)
qed

lemma idx_full:
  assumes "t + n < 2 ^ 63"
  shows "of_nat t + ksiRingBufferNodeLength \<le> (of_nat (t + n) :: uint64) \<longleftrightarrow> 256 \<le> n"
proof -
  have "of_nat t + ksiRingBufferNodeLength = (of_nat (t + 256) :: uint64)" by (simp add: ksiRingBufferNodeLength_def)
  moreover have "unat (of_nat (t + 256) :: uint64) = t + 256" "unat (of_nat (t + n) :: uint64) = t + n"
    using assms by (simp_all add: unat_of_nat del: of_nat_add)
  ultimately show ?thesis by (simp add: word_le_nat_alt del: of_nat_add)
qed

lemma idx_eq:
  assumes "t < 2 ^ 63" "u < 2 ^ 63"
  shows "(of_nat t :: uint64) = of_nat u \<longleftrightarrow> t = u"
  using assms by (simp add: word_unat_eq_iff unat_of_nat)

lemma idx_empty:
  assumes "t < 2 ^ 63"
  shows "\<not> of_nat t + 1 < (of_nat t - 1 + 1 :: uint64)" "(of_nat t :: uint64) \<noteq> of_nat t - 1"
proof -
  have "of_nat t - 1 + 1 = (of_nat t :: uint64)" by simp
  moreover have "of_nat t + 1 = (of_nat (t + 1) :: uint64)" by simp
  moreover have "unat (of_nat (t + 1) :: uint64) = t + 1" "unat (of_nat t :: uint64) = t"
    using assms by (simp_all add: unat_of_nat del: of_nat_add of_nat_Suc)
  ultimately show "\<not> of_nat t + 1 < (of_nat t - 1 + 1 :: uint64)" by (simp add: word_less_nat_alt del: of_nat_add of_nat_Suc)
  show "(of_nat t :: uint64) \<noteq> of_nat t - 1"
  proof
    assume "(of_nat t :: uint64) = of_nat t - 1"
    then have "(1 :: uint64) = 0" by (metis diff_add_cancel add_cancel_right_right)
    then show False by simp
  qed
qed

lemma cell_index:
  assumes "t + k < 2 ^ 63" "t + n < 2 ^ 63" "k < n" "n < k + 256"
  shows "of_nat (t + k) mod ksiRingBufferNodeLength \<noteq> (of_nat (t + n) mod ksiRingBufferNodeLength :: uint64)"
proof
  assume "of_nat (t + k) mod ksiRingBufferNodeLength = (of_nat (t + n) mod ksiRingBufferNodeLength :: uint64)"
  then have "unat (of_nat (t + k) mod ksiRingBufferNodeLength :: uint64) = unat (of_nat (t + n) mod ksiRingBufferNodeLength :: uint64)"
    by (rule arg_cong)
  moreover have "unat (of_nat x mod ksiRingBufferNodeLength :: uint64) = x mod 256" if "x < 2 ^ 63" for x
    using that by (simp add: unat_mod ksiRingBufferNodeLength_def unat_of_nat)
  ultimately have "(t + k) mod 256 = (t + n) mod 256" using assms(1,2) by (simp del: of_nat_add)
  then have "256 dvd (t + n) - (t + k)" using assms(3) by (metis add_le_cancel_left less_imp_le_nat mod_eq_dvd_iff_nat)
  then show False using assms(3,4) by (auto dest: dvd_imp_le)
qed

section \<open>Segments and chains\<close>

definition seg_rep :: "nat \<Rightarrow> segment \<Rightarrow> ptr list \<Rightarrow> bool" where
  "seg_rep N s xs \<longleftrightarrow> (\<exists>t. tail_idx s = of_nat t \<and> head_idx s = of_nat (t + List.length xs) \<and> List.length xs \<le> 256 \<and>
     t + List.length xs \<le> N \<and> (\<forall>k < List.length xs. cell s (of_nat (t + k)) = Some (xs ! k)))"

definition first :: "(ptr \<times> ptr list) list \<Rightarrow> ptr \<Rightarrow> ptr" where
  "first ps q = (case ps of [] \<Rightarrow> q | (b, _) # _ \<Rightarrow> b)"

definition last_of :: "ptr \<Rightarrow> (ptr \<times> ptr list) list \<Rightarrow> ptr" where
  "last_of p ps = (if ps = [] then p else fst (last ps))"

lemma first_simps [simp]: "first [] q = q" "first ((b, xs) # ps) q = b" "first (ps @ qs) q = first ps (first qs q)"
  by (auto simp: first_def split: list.split)

lemma last_of_simps [simp]: "last_of p [] = p" "last_of p ((b, xs) # ps) = last_of b ps" "last_of p (ps @ qs) = last_of (last_of p ps) qs"
  by (auto simp: last_of_def)

fun chain :: "(ptr \<Rightarrow> segment option) \<Rightarrow> nat \<Rightarrow> ptr \<Rightarrow> (ptr \<times> ptr list) list \<Rightarrow> ptr \<Rightarrow> bool" where
  "chain H N p [] q = True"
| "chain H N p ((a, xs) # ps) q = (a \<noteq> NULL \<and> chain H N a ps q \<and>
     (\<exists>s. H a = Some s \<and> sprev s = p \<and> seg_rep N s xs \<and> snext s = first ps q))"

lemma seg_chain_append: "chain H N p (ps @ qs) q \<longleftrightarrow> chain H N p ps (first qs q) \<and> chain H N (last_of p ps) qs q"
  by (induction ps arbitrary: p) auto

text \<open>The segments on a free list, linked by \<open>prev\<close>.\<close>

fun plist :: "(ptr \<Rightarrow> segment option) \<Rightarrow> ptr \<Rightarrow> ptr list \<Rightarrow> bool" where
  "plist H p [] = (p = NULL)"
| "plist H p (a # as) = (p = a \<and> a \<noteq> NULL \<and> (\<exists>s. H a = Some s \<and> plist H (sprev s) as))"

lemma seg_rep_mono: "seg_rep N s xs \<Longrightarrow> N \<le> M \<Longrightarrow> seg_rep M s xs"
  unfolding seg_rep_def by (meson le_trans)

lemma chain_mono:
  assumes "N \<le> M"
  shows "chain H N p ps q \<Longrightarrow> chain H M p ps q"
  using seg_rep_mono [OF _ assms] by (induction ps arbitrary: p) auto

lemma seg_chain_cong: "\<forall>a \<in> fst ` set ps. H' a = H a \<Longrightarrow> chain H' N p ps q = chain H N p ps q"
  by (induction ps arbitrary: p) auto

lemma plist_cong: "\<forall>a \<in> set as. map_option sprev (H' a) = map_option sprev (H a) \<Longrightarrow> plist H' p as = plist H p as"
proof (induction as arbitrary: p)
  case (Cons a as)
  then have "map_option sprev (H' a) = map_option sprev (H a)" "\<And>p. plist H' p as = plist H p as" by simp_all
  then show ?case by (cases "H a"; cases "H' a") auto
qed simp

lemma plist_dom: "plist H p as \<Longrightarrow> set as \<subseteq> dom H"
  by (induction as arbitrary: p) auto

lemma chain_dom: "chain H N p ps q \<Longrightarrow> a \<in> fst ` set ps \<Longrightarrow> \<exists>s. H a = Some s"
  by (induction ps arbitrary: p) fastforce+

section \<open>Free lists\<close>

lemma destroyFromTail_plist:
  "plist (segs rb) p as \<Longrightarrow> distinct as \<Longrightarrow>
   destroyFromTail p rb = Some (rb\<lparr>segs := (\<lambda>a. if a \<in> set as then None else segs rb a)\<rparr>)"
proof (induction as arbitrary: p rb)
  case Nil
  then show ?case by (subst destroyFromTail.simps) simp
next
  case (Cons a as)
  then obtain s where s: "p = a" "a \<noteq> NULL" "segs rb a = Some s" "plist (segs rb) (sprev s) as" by auto
  let ?rb = "rb\<lparr>segs := (segs rb)(a := None)\<rparr>"
  have "plist (segs ?rb) (sprev s) as" using s(4) Cons.prems(2) by (subst plist_cong [where H = "segs rb"]) auto
  then have "destroyFromTail (sprev s) ?rb = Some (?rb\<lparr>segs := (\<lambda>b. if b \<in> set as then None else segs ?rb b)\<rparr>)"
    by (rule Cons.IH) (use Cons.prems(2) in simp)
  moreover have "destroyFromTail p rb = destroyFromTail (sprev s) ?rb"
    using s(1-3) by (subst destroyFromTail.simps) simp
  moreover have "(\<lambda>b. if b \<in> set as then None else segs ?rb b) = (\<lambda>b. if b \<in> set (a # as) then None else segs rb b)"
    by auto
  ultimately show ?case by simp
qed

definition entry_ok :: "(ptr \<Rightarrow> segment option) \<Rightarrow> ebr_entry \<Rightarrow> (nat \<Rightarrow> ptr list) \<Rightarrow> bool" where
  "entry_ok H ee L \<longleftrightarrow> eepoch ee < 3 \<and> List.length (freelist ee) = 3 \<and> (\<forall>k < 3. plist H (freelist ee ! k) (L k))"

text \<open>All the segments on free lists.\<close>

definition given_up :: "nat \<Rightarrow> (nat \<Rightarrow> nat \<Rightarrow> ptr list) \<Rightarrow> ptr multiset" where
  "given_up n Ls = (\<Sum>i<n. \<Sum>k<3. mset (Ls i k))"

definition ring_inv :: "nat \<Rightarrow> nat \<Rightarrow> (ptr \<times> ptr list) list \<Rightarrow> (nat \<Rightarrow> nat \<Rightarrow> ptr list) \<Rightarrow> ring \<Rightarrow> bool" where
  "ring_inv N n ps Ls rb \<longleftrightarrow> ps \<noteq> [] \<and> chain (segs rb) N NULL ps NULL \<and> rtail rb = first ps NULL \<and> rhead rb = last_of NULL ps \<and>
     List.length (ebrEntries rb) = n \<and> (\<forall>i < n. entry_ok (segs rb) (ebrEntries rb ! i) (Ls i)) \<and>
     finite (dom (segs rb)) \<and> mset (map fst ps) + given_up n Ls = mset_set (dom (segs rb)) \<and>
     (\<forall>a \<in> dom (segs rb). a < sfresh rb) \<and> 0 < sfresh rb \<and> repoch rb < 3"

lemma count_mset_set_le: "A + B = mset_set S \<Longrightarrow> a \<in># A \<Longrightarrow> a \<notin># B"
proof
  assume a: "A + B = mset_set S" "a \<in># A" "a \<in># B"
  have "0 < count A a" "0 < count B a" using a(2,3) by simp_all
  then have "2 \<le> count (A + B) a" unfolding count_union by linarith
  moreover have "count (mset_set S) a \<le> 1" by (cases "finite S"; cases "a \<in> S") simp_all
  ultimately show False unfolding a(1) by linarith
qed

lemma in_given_up: "a \<in># given_up n Ls \<longleftrightarrow> (\<exists>i < n. \<exists>k < 3. a \<in> set (Ls i k))"
  by (auto simp: given_up_def set_mset_sum)

lemma given_up_update:
  assumes "i < n" "k < 3"
  shows "given_up n (Ls(i := (Ls i)(k := xs))) + mset (Ls i k) = given_up n Ls + mset xs"
proof -
  have "(\<Sum>j\<in>{..<3} - {k}. mset (((Ls i)(k := xs)) j)) = (\<Sum>j\<in>{..<3} - {k}. mset (Ls i j))"
    by (rule sum.cong) auto
  then have inner: "(\<Sum>j<3. mset (((Ls i)(k := xs)) j)) + mset (Ls i k) = (\<Sum>j<3. mset (Ls i j)) + mset xs"
    using assms(2) by (simp add: sum.remove [of "{..<3}" k])
  have outer: "(\<Sum>j\<in>{..<n} - {i}. \<Sum>k<3. mset ((Ls(i := X)) j k)) = (\<Sum>j\<in>{..<n} - {i}. \<Sum>k<3. mset (Ls j k))" for X
    by (rule sum.cong) auto
  show ?thesis unfolding given_up_def using assms(1) inner outer [of "(Ls i)(k := xs)"]
    by (simp add: sum.remove [of "{..<n}" i] add_ac)
qed
lemma entry_ok_cong:
  assumes "entry_ok H ee L" "\<And>k a. k < 3 \<Longrightarrow> a \<in> set (L k) \<Longrightarrow> map_option sprev (H' a) = map_option sprev (H a)"
  shows "entry_ok H' ee L"
  using assms plist_cong [of _ H' H] unfolding entry_ok_def by blast

lemma entry_update_eq:
  "tid < List.length (ebrEntries rb) \<Longrightarrow>
   entry_update tid f rb = Some (rb\<lparr>ebrEntries := (ebrEntries rb)[tid := f (ebrEntries rb ! tid)]\<rparr>)"
  by (simp add: entry_update_def get_at_def)

lemma give_up_ok:
  assumes "tid < n" "List.length (ebrEntries rb) = n" "\<forall>i < n. entry_ok (segs rb) (ebrEntries rb ! i) (Ls i)"
    "a \<notin># given_up n Ls" "segs rb a = Some s" "a \<noteq> NULL"
  shows "\<exists>k f es. k < 3 \<and> give_up tid a rb = Some (rb\<lparr>segs := (segs rb)(a \<mapsto> s\<lparr>sprev := f\<rparr>), ebrEntries := es\<rparr>) \<and>
    List.length es = n \<and>
    (\<forall>i < n. entry_ok ((segs rb)(a \<mapsto> s\<lparr>sprev := f\<rparr>)) (es ! i) ((Ls(tid := (Ls tid)(k := a # Ls tid k))) i))"
proof -
  let ?ee = "ebrEntries rb ! tid"
  let ?k = "eepoch ?ee"
  let ?f = "freelist ?ee ! ?k"
  let ?H = "(segs rb)(a \<mapsto> s\<lparr>sprev := ?f\<rparr>)"
  let ?es = "(ebrEntries rb)[tid := ?ee\<lparr>freelist := (freelist ?ee)[?k := a]\<rparr>]"
  have e: "?k < 3" "List.length (freelist ?ee) = 3" "\<forall>k < 3. plist (segs rb) (freelist ?ee ! k) (Ls tid k)"
    using assms(1,3) by (auto simp: entry_ok_def)
  have g: "give_up tid a rb = Some (rb\<lparr>segs := ?H, ebrEntries := ?es\<rparr>)"
    using assms(1,2,5) e by (simp add: give_up_def get_at_def seg_update_def entry_update_def)
  have na: "a \<notin> set (Ls i k)" if "i < n" "k < 3" for i k using assms(4) that by (auto simp: in_given_up)
  have pl: "plist ?H p (Ls i k) = plist (segs rb) p (Ls i k)" if "i < n" "k < 3" for i k p
    by (rule plist_cong) (use na [OF that] in auto)
  have "entry_ok ?H (?es ! i) ((Ls(tid := (Ls tid)(?k := a # Ls tid ?k))) i)" if i: "i < n" for i
  proof (cases "i = tid")
    case False
    then show ?thesis using assms(3) i pl by (auto simp: entry_ok_def)
  next
    case True
    have "plist ?H a (a # Ls tid ?k)" using e pl [OF assms(1), of ?k] assms(6) by simp
    then show ?thesis using True assms(1,2) e pl [OF assms(1)] by (auto simp: entry_ok_def nth_list_update)
  qed
  then show ?thesis using g e(1) assms(2) by (intro exI [of _ ?k] exI [of _ ?f] exI [of _ ?es]) simp
qed

lemma mset_set_distinct: "mset xs + B = mset_set S \<Longrightarrow> distinct xs"
proof -
  assume e: "mset xs + B = mset_set S"
  have "count (mset_set S) a \<le> 1" for a by (cases "finite S"; cases "a \<in> S") simp_all
  then have "count (mset xs) a \<le> 1" for a using e by (metis count_union le_add1 order_trans)
  then show ?thesis unfolding distinct_count_atmost_1 by (metis count_mset_0_iff le_antisym less_one not_less)
qed

lemma ring_invD:
  assumes "ring_inv N n ps Ls rb"
  shows "distinct (map fst ps)" "\<And>a. a \<in> fst ` set ps \<Longrightarrow> a \<notin># given_up n Ls"
proof -
  have e: "mset (map fst ps) + given_up n Ls = mset_set (dom (segs rb))" using assms by (simp add: ring_inv_def)
  show "distinct (map fst ps)" by (rule mset_set_distinct [OF e])
  show "a \<notin># given_up n Ls" if "a \<in> fst ` set ps" for a
    by (rule count_mset_set_le [OF e]) (use that in simp)
qed

text \<open>Changing the segments of the chain in place.\<close>

lemma entries_frame:
  assumes "\<forall>i < n. entry_ok H (es ! i) (Ls i)" "\<And>a. a \<in># given_up n Ls \<Longrightarrow> H' a = H a"
  shows "\<forall>i < n. entry_ok H' (es ! i) (Ls i)"
proof (intro allI impI)
  fix i assume i: "i < n"
  have "H' a = H a" if "k < 3" "a \<in> set (Ls i k)" for k a
    using assms(2) [of a] i that unfolding in_given_up by blast
  then show "entry_ok H' (es ! i) (Ls i)"
    using entry_ok_cong [of H "es ! i" "Ls i" H'] assms(1) i by simp
qed

lemma dom_upd_same: "H a = Some s \<Longrightarrow> dom (H(a \<mapsto> s')) = dom H"
  by auto

lemma ring_inv_seg:
  assumes "ring_inv N n (qs @ (a, xs) # ps) Ls rb" "segs rb a = Some s" "N \<le> M" "seg_rep M s' ys"
    "sprev s' = sprev s" "snext s' = snext s"
  shows "ring_inv M n (qs @ (a, ys) # ps) Ls (rb\<lparr>segs := (segs rb)(a \<mapsto> s')\<rparr>)"
proof -
  note i = assms(1)[unfolded ring_inv_def]
  have d: "a \<notin> fst ` set qs" "a \<notin> fst ` set ps" using ring_invD(1) [OF assms(1)] by auto
  have ch: "chain (segs rb) N NULL qs a" "a \<noteq> NULL" "chain (segs rb) N a ps NULL" "sprev s = last_of NULL qs" "snext s = first ps NULL"
    using i assms(2) by (auto simp: seg_chain_append)
  have "chain ((segs rb)(a \<mapsto> s')) M NULL qs a" "chain ((segs rb)(a \<mapsto> s')) M a ps NULL"
    using chain_mono [OF assms(3) ch(1)] chain_mono [OF assms(3) ch(3)] d
    by (subst seg_chain_cong [where H = "segs rb"]; auto)+
  then have "chain ((segs rb)(a \<mapsto> s')) M NULL (qs @ (a, ys) # ps) NULL"
    using ch assms(4-6) by (simp add: seg_chain_append)
  moreover have "\<forall>i < n. entry_ok ((segs rb)(a \<mapsto> s')) (ebrEntries rb ! i) (Ls i)"
    by (rule entries_frame [where H = "segs rb"]) (use i ring_invD(2) [OF assms(1), of a] in auto)
  moreover have "last_of NULL (qs @ (a, ys) # ps) = last_of NULL (qs @ (a, xs) # ps)" by (simp add: last_of_def)
  ultimately show ?thesis using i dom_upd_same [where H = "segs rb", OF assms(2), of s'] by (simp add: ring_inv_def)
qed

section \<open>Push appends\<close>

lemma seg_rep_push:
  assumes "seg_rep N s xs" "List.length xs < 256" "Suc N < 2 ^ 63"
  shows "seg_rep (Suc N) (s\<lparr>cells := (cells s)(head_idx s mod ksiRingBufferNodeLength \<mapsto> d), head_idx := head_idx s + 1\<rparr>) (xs @ [d])"
proof -
  obtain t where t: "tail_idx s = of_nat t" "head_idx s = of_nat (t + List.length xs)" "t + List.length xs \<le> N"
    "\<forall>k < List.length xs. cell s (of_nat (t + k)) = Some (xs ! k)"
    using assms(1) by (auto simp: seg_rep_def)
  have "of_nat (t + k) mod ksiRingBufferNodeLength \<noteq> (of_nat (t + List.length xs) mod ksiRingBufferNodeLength :: uint64)"
    if "k < List.length xs" for k
    using cell_index [of t k "List.length xs"] that t(3) assms(2,3) by simp
  then have "\<forall>k < Suc (List.length xs). cell (s\<lparr>cells := (cells s)(head_idx s mod ksiRingBufferNodeLength \<mapsto> d), head_idx := head_idx s + 1\<rparr>)
      (of_nat (t + k)) = Some ((xs @ [d]) ! k)"
    using t(2,4) by (auto simp: less_Suc_eq cell_def nth_append simp del: of_nat_add)
  then show ?thesis unfolding seg_rep_def using t assms(2)
    by (intro exI [of _ t]) simp
qed

lemma entry_active:
  assumes "\<forall>i < n. entry_ok H (es ! i) (Ls i)" "tid < n" "List.length es = n" "\<And>ee L. entry_ok H ee L \<Longrightarrow> entry_ok H (f ee) L"
  shows "\<forall>i < n. entry_ok H (es[tid := f (es ! tid)] ! i) (Ls i)"
  using assms by (auto simp: nth_list_update)

lemma ring_inv_entry:
  assumes "ring_inv N n ps Ls rb" "tid < n" "\<And>H ee L. entry_ok H ee L \<Longrightarrow> entry_ok H (f ee) L"
  shows "\<exists>rb'. entry_update tid f rb = Some rb' \<and> ring_inv N n ps Ls rb' \<and> segs rb' = segs rb \<and> rhead rb' = rhead rb"
proof -
  have n: "List.length (ebrEntries rb) = n" "\<forall>i < n. entry_ok (segs rb) (ebrEntries rb ! i) (Ls i)"
    using assms(1) by (simp_all add: ring_inv_def)
  show ?thesis using assms entry_active [OF n(2) assms(2) n(1) assms(3)] n
    by (simp add: entry_update_eq ring_inv_def)
qed

lemma ring_inv_new:
  fixes d :: ptr
  assumes "ring_inv N n (qs @ [(a, xs)]) Ls rb" "segs rb a = Some s" "Suc N < 2 ^ 63"
  defines "H \<equiv> (segs rb)(sfresh rb \<mapsto> (ksiRingBufferSegmentNew d)\<lparr>sprev := a\<rparr>, a \<mapsto> s\<lparr>snext := sfresh rb\<rparr>)"
  shows "ring_inv (Suc N) n (qs @ [(a, xs), (sfresh rb, [d])]) Ls
    (rb\<lparr>segs := H, sfresh := Suc (sfresh rb), rhead := sfresh rb\<rparr>)"
proof -
  note i = assms(1)[unfolded ring_inv_def]
  let ?n = "sfresh rb"
  have fresh: "?n \<notin> dom (segs rb)" using i by auto
  have an: "a \<noteq> ?n" using fresh assms(2) by auto
  have d: "a \<notin> fst ` set qs" using ring_invD(1) [OF assms(1)] by auto
  have ch: "chain (segs rb) N NULL qs a" "a \<noteq> NULL" "sprev s = last_of NULL qs" "seg_rep N s xs"
    using i assms(2) by (auto simp: seg_chain_append)
  have nq: "?n \<notin> fst ` set qs" using chain_dom [OF ch(1)] fresh by blast
  have same: "H b = segs rb b" if "b \<in> fst ` set qs" for b
    using that d nq unfolding H_def by (metis fun_upd_other)
  have "chain H (Suc N) NULL qs a"
    using chain_mono [OF _ ch(1), of "Suc N"] seg_chain_cong [of qs H "segs rb"] same by simp
  moreover have "seg_rep (Suc N) ((ksiRingBufferSegmentNew d)\<lparr>sprev := a\<rparr>) [d]"
    unfolding seg_rep_def by (rule exI [of _ 0]) (simp add: ksiRingBufferSegmentNew_def cell_def)
  moreover have "seg_rep (Suc N) (s\<lparr>snext := ?n\<rparr>) xs"
    using seg_rep_mono [OF ch(4), of "Suc N"] by (simp add: seg_rep_def cell_def)
  ultimately have "chain H (Suc N) NULL (qs @ [(a, xs), (?n, [d])]) NULL"
    using ch an i by (simp add: seg_chain_append H_def) (simp add: ksiRingBufferSegmentNew_def)
  moreover have "\<forall>i < n. entry_ok H (ebrEntries rb ! i) (Ls i)"
  proof (rule entries_frame [where H = "segs rb"])
    show "\<forall>i<n. entry_ok (segs rb) (ebrEntries rb ! i) (Ls i)" using i by simp
    fix b assume b: "b \<in># given_up n Ls"
    then have "b \<in># mset_set (dom (segs rb))" using i by (metis union_iff)
    then have "b \<noteq> ?n" using i fresh by auto
    moreover have "b \<noteq> a" using ring_invD(2) [OF assms(1), of a] b by auto
    ultimately show "H b = segs rb b" by (simp add: H_def)
  qed
  moreover have "dom H = insert ?n (dom (segs rb))" using assms(2) by (auto simp: H_def)
  moreover have "mset_set (insert ?n (dom (segs rb))) = add_mset ?n (mset_set (dom (segs rb)))"
    using i fresh by (simp add: mset_set.insert)
  ultimately show ?thesis using i by (auto simp: ring_inv_def last_of_def less_Suc_eq)
qed

definition content :: "(ptr \<times> ptr list) list \<Rightarrow> ptr list" where
  "content ps = concat (map snd ps)"

lemma push_ok:
  assumes "ring_inv N n ps Ls rb" "tid < n" "Suc N < 2 ^ 63"
  shows "\<exists>rb' ps'. ksiRingBufferPush tid d rb = Some rb' \<and> ring_inv (Suc N) n ps' Ls rb' \<and> content ps' = content ps @ [d]"
proof -
  obtain qs a xs where ps: "ps = qs @ [(a, xs)]" using assms(1) by (cases ps rule: rev_cases) (auto simp: ring_inv_def)
  have hd: "rhead rb = a" "repoch rb < 3" using assms(1) by (auto simp: ring_inv_def ps last_of_def)
  obtain rb1 where r1: "entry_update tid (\<lambda>ee. ee\<lparr>active := True, eepoch := repoch rb\<rparr>) rb = Some rb1" "ring_inv N n ps Ls rb1"
    "segs rb1 = segs rb" "rhead rb1 = rhead rb"
    using ring_inv_entry [OF assms(1,2), of "\<lambda>ee. ee\<lparr>active := True, eepoch := repoch rb\<rparr>"] hd(2) by (auto simp: entry_ok_def)
  obtain s where s: "segs rb1 a = Some s" "seg_rep N s xs" using r1(2) by (auto simp: ring_inv_def ps seg_chain_append)
  obtain t where t: "tail_idx s = of_nat t" "head_idx s = of_nat (t + List.length xs)" "t + List.length xs \<le> N" "List.length xs \<le> 256"
    using s(2) by (auto simp: seg_rep_def)
  have full: "tail_idx s + ksiRingBufferNodeLength \<le> head_idx s \<longleftrightarrow> 256 \<le> List.length xs"
    unfolding t(1,2) by (rule idx_full) (use t(3) assms(3) in simp)
  have "\<exists>rb2 ps2. (if tail_idx s + ksiRingBufferNodeLength \<le> head_idx s
       then do {
         let (n, rb) = new_segment ((ksiRingBufferSegmentNew d)\<lparr>sprev := a\<rparr>) rb1;
         seg_update a (\<lambda>s. s\<lparr>snext := n\<rparr>) (rb\<lparr>rhead := n\<rparr>)
       }
       else seg_update a (\<lambda>s. s\<lparr>cells := (cells s)(head_idx s mod ksiRingBufferNodeLength \<mapsto> d),
              head_idx := head_idx s + 1\<rparr>) rb1) = Some rb2 \<and> ring_inv (Suc N) n ps2 Ls rb2 \<and> content ps2 = content ps @ [d]"
  proof (cases "256 \<le> List.length xs")
    case True
    have "a \<noteq> sfresh rb1" using r1(2) s(1) by (auto simp: ring_inv_def)
    then show ?thesis using True s(1) ring_inv_new [OF r1(2)[unfolded ps] s(1) assms(3), of d]
      by (intro exI [of _ "rb1\<lparr>segs := (segs rb1)(sfresh rb1 \<mapsto> (ksiRingBufferSegmentNew d)\<lparr>sprev := a\<rparr>, a \<mapsto> s\<lparr>snext := sfresh rb1\<rparr>),
            sfresh := Suc (sfresh rb1), rhead := sfresh rb1\<rparr>"] exI [of _ "qs @ [(a, xs), (sfresh rb1, [d])]"])
        (simp add: full new_segment_def seg_update_def ps content_def)
  next
    case False
    let ?s = "s\<lparr>cells := (cells s)(head_idx s mod ksiRingBufferNodeLength \<mapsto> d), head_idx := head_idx s + 1\<rparr>"
    have "ring_inv (Suc N) n (qs @ [(a, xs @ [d])]) Ls (rb1\<lparr>segs := (segs rb1)(a \<mapsto> ?s)\<rparr>)"
      by (rule ring_inv_seg [OF r1(2)[unfolded ps] s(1)]) (use False seg_rep_push [OF s(2) _ assms(3)] in simp_all)
    then show ?thesis using False s(1)
      by (intro exI [of _ "rb1\<lparr>segs := (segs rb1)(a \<mapsto> ?s)\<rparr>"] exI [of _ "qs @ [(a, xs @ [d])]"])
        (simp add: full seg_update_def ps content_def)
  qed
  then obtain rb2 ps2 where r2: "(if tail_idx s + ksiRingBufferNodeLength \<le> head_idx s
       then do {
         let (n, rb) = new_segment ((ksiRingBufferSegmentNew d)\<lparr>sprev := a\<rparr>) rb1;
         seg_update a (\<lambda>s. s\<lparr>snext := n\<rparr>) (rb\<lparr>rhead := n\<rparr>)
       }
       else seg_update a (\<lambda>s. s\<lparr>cells := (cells s)(head_idx s mod ksiRingBufferNodeLength \<mapsto> d),
              head_idx := head_idx s + 1\<rparr>) rb1) = Some rb2" "ring_inv (Suc N) n ps2 Ls rb2" "content ps2 = content ps @ [d]"
    by blast
  obtain rb3 where r3: "entry_update tid (\<lambda>ee. ee\<lparr>active := False\<rparr>) rb2 = Some rb3" "ring_inv (Suc N) n ps2 Ls rb3"
    using ring_inv_entry [OF r2(2) assms(2), of "\<lambda>ee. ee\<lparr>active := False\<rparr>"] by (auto simp: entry_ok_def)
  have "ksiRingBufferPush tid d rb = Some rb3"
    using r1(1) s(1) r2(1) r3(1) by (simp add: ksiRingBufferPush_def hd(1))
  then show ?thesis using r3(2) r2(3) by blast
qed
section \<open>Take removes the first\<close>

lemma take_run_step:
  "take_step tid pc rb = Some (pc', rb') \<Longrightarrow> take_run tid pc rb = take_run tid pc' rb'"
proof -
  assume a: "take_step tid pc rb = Some (pc', rb')"
  have "take_step tid (TDone r) rb = None" for r by (simp add: take_step_def)
  then show ?thesis using a by (subst take_run.simps) (cases pc; simp)
qed

lemma take_run_done: "take_run tid (TDone r) rb = Some (r, rb)"
  by (subst take_run.simps) simp

lemma seg_rep_take:
  assumes "seg_rep N s (x # xs)"
  shows "seg_rep N (s\<lparr>tail_idx := tail_idx s + 1\<rparr>) xs \<and> cell s (tail_idx s) = Some x"
proof -
  obtain t where t: "tail_idx s = of_nat t" "head_idx s = of_nat (t + List.length (x # xs))" "List.length (x # xs) \<le> 256"
    "t + List.length (x # xs) \<le> N" "\<forall>k < List.length (x # xs). cell s (of_nat (t + k)) = Some ((x # xs) ! k)"
    using assms by (auto simp: seg_rep_def)
  have "cell s (of_nat (Suc t + k)) = Some (xs ! k)" if "k < List.length xs" for k
    using t(5)[rule_format, of "Suc k"] that by simp
  then have "seg_rep N (s\<lparr>tail_idx := tail_idx s + 1\<rparr>) xs"
    unfolding seg_rep_def using t by (intro exI [of _ "Suc t"]) (auto simp: cell_def ac_simps)
  then show ?thesis using t(1) t(5)[rule_format, of 0] by simp
qed

lemma seg_test:
  assumes "seg_rep N s xs" "N < 2 ^ 63"
  shows "tail_idx s + 1 < head_idx s + 1 \<longleftrightarrow> xs \<noteq> []"
proof -
  obtain t where t: "tail_idx s = of_nat t" "head_idx s = of_nat (t + List.length xs)" "t + List.length xs \<le> N"
    using assms(1) by (auto simp: seg_rep_def)
  show ?thesis unfolding t(1,2) using idx_less [of t "List.length xs"] t(3) assms(2) by simp
qed

text \<open>Giving up the first segment.\<close>

lemma ring_inv_advance:
  assumes "ring_inv N n ((a, []) # (b, ys) # ps) Ls rb" "tid < n" "segs rb a = Some s"
  shows "\<exists>rb' Ls'. take_run tid (TClose a b) rb = take_run tid (TLoop b) rb' \<and> ring_inv N n ((b, ys) # ps) Ls' rb'"
proof -
  note i = assms(1)[unfolded ring_inv_def]
  have d: "a \<noteq> b" "a \<notin> fst ` set ps" "b \<notin> fst ` set ps" using ring_invD(1) [OF assms(1)] by auto
  have a: "a \<noteq> NULL" "b \<noteq> NULL" using i by auto
  obtain sb where sb: "segs rb b = Some sb" "sprev sb = a" "seg_rep N sb ys" "snext sb = first ps NULL" "chain (segs rb) N b ps NULL"
    using i by auto
  let ?H = "(segs rb)(a \<mapsto> s\<lparr>head_idx := - 1\<rparr>, b \<mapsto> sb\<lparr>sprev := NULL\<rparr>)"
  let ?rb1 = "rb\<lparr>segs := (segs rb)(a \<mapsto> s\<lparr>head_idx := - 1\<rparr>)\<rparr>"
  let ?rb2 = "rb\<lparr>rtail := b, segs := ?H\<rparr>"
  have ga: "a \<notin># given_up n Ls" "b \<notin># given_up n Ls" using ring_invD(2) [OF assms(1)] by auto
  have "\<forall>i < n. entry_ok ?H (ebrEntries rb ! i) (Ls i)"
    by (rule entries_frame [where H = "segs rb"]) (use i ga in auto)
  then obtain k f es where g: "k < 3" "give_up tid a ?rb2 = Some (?rb2\<lparr>segs := ?H(a \<mapsto> s\<lparr>head_idx := - 1, sprev := f\<rparr>), ebrEntries := es\<rparr>)"
    "List.length es = n"
    "\<forall>i < n. entry_ok (?H(a \<mapsto> s\<lparr>head_idx := - 1, sprev := f\<rparr>)) (es ! i) ((Ls(tid := (Ls tid)(k := a # Ls tid k))) i)"
    using give_up_ok [of tid n ?rb2 Ls a "s\<lparr>head_idx := - 1\<rparr>"] assms(2) i ga(1) a(1) d(1) by auto
  let ?H' = "?H(a \<mapsto> s\<lparr>head_idx := - 1, sprev := f\<rparr>)"
  let ?rb' = "?rb2\<lparr>segs := ?H', ebrEntries := es\<rparr>"
  let ?Ls = "Ls(tid := (Ls tid)(k := a # Ls tid k))"
  have tl: "rtail rb = a" using i by simp
  have s1: "take_step tid (TClose a b) rb = Some (TSwing a b, ?rb1)" using assms(3) by (simp add: take_step_def seg_update_def)
  have "seg_update b (\<lambda>s. s\<lparr>sprev := NULL\<rparr>) (?rb1\<lparr>rtail := b\<rparr>) = Some ?rb2" using sb(1) d(1) by (simp add: seg_update_def)
  then have s2: "take_step tid (TSwing a b) ?rb1 = Some (TLoop b, ?rb')" using g(2) tl by (simp add: take_step_def)
  have run: "take_run tid (TClose a b) rb = take_run tid (TLoop b) ?rb'"
    using take_run_step [OF s1] take_run_step [OF s2] by simp
  have "chain ?H' N b ps NULL" using sb(5) d by (subst seg_chain_cong [where H = "segs rb"]) auto
  moreover have "seg_rep N (sb\<lparr>sprev := NULL\<rparr>) ys" using sb(3) by (simp add: seg_rep_def cell_def)
  ultimately have ch: "chain ?H' N NULL ((b, ys) # ps) NULL" using a sb d by simp
  have "dom ?H' = dom (segs rb)" using assms(3) sb(1) by auto
  moreover have "given_up n ?Ls = add_mset a (given_up n Ls)"
    using given_up_update [OF assms(2) g(1), of Ls "a # Ls tid k"] by simp
  ultimately have "ring_inv N n ((b, ys) # ps) ?Ls ?rb'"
    using i ch g(3,4) by (simp add: ring_inv_def del: chain.simps fun_upd_apply)
  then show ?thesis using run by blast
qed

lemma take_loop_ok:
  assumes "ring_inv N n ps Ls rb" "tid < n" "N < 2 ^ 63"
  shows "\<exists>r rb' ps' Ls'. take_run tid (TLoop (first ps NULL)) rb = Some (r, rb') \<and> ring_inv N n ps' Ls' rb' \<and>
    (case content ps of [] \<Rightarrow> r = None \<and> content ps' = [] | x # c \<Rightarrow> r = Some x \<and> content ps' = c)"
  using assms(1)
proof (induction ps arbitrary: Ls rb)
  case Nil
  then show ?case by (simp add: ring_inv_def)
next
  case (Cons axs ps)
  obtain a xs where axs: "axs = (a, xs)" by (cases axs)
  obtain s where s: "segs rb a = Some s" "seg_rep N s xs" "snext s = first ps NULL" "a \<noteq> NULL"
    using Cons.prems by (auto simp: ring_inv_def axs)
  have s1: "take_step tid (TLoop a) rb = Some (THead a (tail_idx s), rb)" using s by (simp add: take_step_def)
  have s2: "take_step tid (THead a (tail_idx s)) rb = Some (if xs \<noteq> [] then TValue a (tail_idx s) else TNext a, rb)"
    using s(1) seg_test [OF s(2) assms(3)] by (simp add: take_step_def)
  have r12: "take_run tid (TLoop a) rb = take_run tid (if xs \<noteq> [] then TValue a (tail_idx s) else TNext a) rb"
    using take_run_step [OF s1] take_run_step [OF s2] by simp
  show ?case
  proof (cases xs)
    case (Cons x ys)
    have t: "seg_rep N (s\<lparr>tail_idx := tail_idx s + 1\<rparr>) ys" "cell s (tail_idx s) = Some x"
      using seg_rep_take s(2) Cons by auto
    let ?rb = "rb\<lparr>segs := (segs rb)(a \<mapsto> s\<lparr>tail_idx := tail_idx s + 1\<rparr>)\<rparr>"
    have s3: "take_step tid (TValue a (tail_idx s)) rb = Some (TCas a (tail_idx s) x, rb)"
      using s(1) t(2) by (simp add: take_step_def)
    have s4: "take_step tid (TCas a (tail_idx s) x) rb = Some (TDone (Some x), ?rb)"
      using s(1) by (simp add: take_step_def seg_update_def)
    have "take_run tid (TLoop a) rb = Some (Some x, ?rb)"
      using r12 take_run_step [OF s3] take_run_step [OF s4] Cons by (simp add: take_run_done)
    moreover have "ring_inv N n ([] @ (a, ys) # ps) Ls ?rb"
      by (rule ring_inv_seg [where qs = "[]" and xs = xs, OF _ s(1) order.refl t(1)]) (use Cons.prems axs in simp_all)
    ultimately show ?thesis using Cons axs by (auto simp: content_def)
  next
    case Nil
    show ?thesis
    proof (cases ps)
      case Nil': Nil
      have s3: "take_step tid (TNext a) rb = Some (TDone None, rb)" using s(1,3) Nil' by (simp add: take_step_def)
      have "take_run tid (TLoop a) rb = Some (None, rb)"
        using r12 take_run_step [OF s3] Nil by (simp add: take_run_done)
      then show ?thesis using Nil Nil' axs Cons.prems by (auto simp: content_def)
    next
      case (Cons bys qs)
      obtain b ys where bys: "bys = (b, ys)" by (cases bys)
      have "b \<noteq> NULL" using Cons.prems Cons bys by (auto simp: ring_inv_def axs)
      then have s3: "take_step tid (TNext a) rb = Some (TClose a b, rb)" using s(1,3) Cons bys by (simp add: take_step_def)
      obtain rb' Ls' where r: "take_run tid (TClose a b) rb = take_run tid (TLoop b) rb'" "ring_inv N n ((b, ys) # qs) Ls' rb'"
        using ring_inv_advance [of N n a b ys qs Ls rb tid s] Cons.prems assms(2) s(1) Nil Cons axs bys by blast
      have "take_run tid (TLoop a) rb = take_run tid (TLoop b) rb'"
        using r12 take_run_step [OF s3] r(1) Nil by simp
      then show ?thesis using Cons.IH [of Ls' rb'] r(2) Cons bys Nil axs by (simp add: content_def)
    qed
  qed
qed

lemma take_ok:
  assumes "ring_inv N n ps Ls rb" "tid < n" "N < 2 ^ 63"
  shows "\<exists>r rb' ps' Ls'. ksiRingBufferTake tid rb = Some (r, rb') \<and> ring_inv N n ps' Ls' rb' \<and>
    (case content ps of [] \<Rightarrow> r = None \<and> content ps' = [] | x # c \<Rightarrow> r = Some x \<and> content ps' = c)"
proof -
  have "take_step tid TStart rb = Some (TLoop (first ps NULL), rb)" using assms(1) by (simp add: take_step_def ring_inv_def)
  from take_run_step [OF this] show ?thesis using take_loop_ok [OF assms] by (simp add: ksiRingBufferTake_def)
qed

section \<open>Pop removes the last\<close>

lemma pop_run_step:
  "pop_step tid pc rb = Some (pc', rb') \<Longrightarrow> pop_run tid pc rb = pop_run tid pc' rb'"
proof -
  assume a: "pop_step tid pc rb = Some (pc', rb')"
  have "pop_step tid (PDone r) rb = None" for r by (simp add: pop_step_def)
  then show ?thesis using a by (subst pop_run.simps) (cases pc; simp)
qed

lemma pop_run_done: "pop_run tid (PDone r) rb = Some (r, rb)"
  by (subst pop_run.simps) simp

lemma seg_rep_pop:
  assumes "seg_rep N s (xs @ [x])" "N < 2 ^ 63"
  shows "seg_rep N (s\<lparr>head_idx := head_idx s - 1\<rparr>) xs" "cell s (head_idx s - 1) = Some x"
    "tail_idx s + 1 < head_idx s - 1 + 1 \<longleftrightarrow> xs \<noteq> []" "tail_idx s = head_idx s - 1 \<longleftrightarrow> xs = []"
proof -
  obtain t where t: "tail_idx s = of_nat t" "head_idx s = of_nat (t + List.length (xs @ [x]))" "List.length (xs @ [x]) \<le> 256"
    "t + List.length (xs @ [x]) \<le> N" "\<forall>k < List.length (xs @ [x]). cell s (of_nat (t + k)) = Some ((xs @ [x]) ! k)"
    using assms(1) by (auto simp: seg_rep_def)
  have h: "head_idx s - 1 = of_nat (t + List.length xs)" using t(2) by simp
  show "cell s (head_idx s - 1) = Some x" using h t(5)[rule_format, of "List.length xs"] by simp
  have "cell s (of_nat (t + k)) = Some (xs ! k)" if "k < List.length xs" for k
    using t(5)[rule_format, of k] that by (simp add: nth_append)
  then show "seg_rep N (s\<lparr>head_idx := head_idx s - 1\<rparr>) xs"
    unfolding seg_rep_def h using t by (intro exI [of _ t]) (auto simp: cell_def)
  show "tail_idx s + 1 < head_idx s - 1 + 1 \<longleftrightarrow> xs \<noteq> []"
    unfolding h t(1) using idx_less [of t "List.length xs"] t(4) assms(2) by simp
  show "tail_idx s = head_idx s - 1 \<longleftrightarrow> xs = []"
    unfolding h t(1) using idx_eq [of t "t + List.length xs"] t(4) assms(2) by simp
qed

lemma seg_rep_empty:
  assumes "seg_rep N s []" "N < 2 ^ 63"
  shows "\<not> tail_idx s + 1 < head_idx s - 1 + 1" "tail_idx s \<noteq> head_idx s - 1" "s\<lparr>head_idx := tail_idx s\<rparr> = s"
proof -
  obtain t where t: "tail_idx s = of_nat t" "head_idx s = of_nat t" "t \<le> N" using assms(1) by (auto simp: seg_rep_def)
  then show "\<not> tail_idx s + 1 < head_idx s - 1 + 1" "tail_idx s \<noteq> head_idx s - 1" using idx_empty [of t] assms(2) by auto
  show "s\<lparr>head_idx := tail_idx s\<rparr> = s" using t(1,2) by simp
qed

text \<open>Giving up the last segment.\<close>

lemma ring_inv_back:
  assumes "ring_inv N n (qs @ [(b, ys), (a, [])]) Ls rb" "tid < n" "segs rb a = Some s"
  shows "\<exists>rb' Ls'. pop_run tid (PBack a) rb = pop_run tid (PLoop b) rb' \<and> ring_inv N n (qs @ [(b, ys)]) Ls' rb'"
proof -
  note i = assms(1)[unfolded ring_inv_def]
  have d: "a \<noteq> b" "a \<notin> fst ` set qs" "b \<notin> fst ` set qs" using ring_invD(1) [OF assms(1)] by auto
  have a: "a \<noteq> NULL" "b \<noteq> NULL" "sprev s = b" using i assms(3) by (auto simp: seg_chain_append)
  obtain sb where sb: "segs rb b = Some sb" "sprev sb = last_of NULL qs" "seg_rep N sb ys" "chain (segs rb) N NULL qs b"
    using i by (auto simp: seg_chain_append)
  let ?H = "(segs rb)(b \<mapsto> sb\<lparr>snext := NULL\<rparr>)"
  let ?rb2 = "rb\<lparr>segs := ?H, rhead := b\<rparr>"
  have ga: "a \<notin># given_up n Ls" "b \<notin># given_up n Ls" using ring_invD(2) [OF assms(1)] by auto
  have "\<forall>i < n. entry_ok ?H (ebrEntries rb ! i) (Ls i)"
    by (rule entries_frame [where H = "segs rb"]) (use i ga in auto)
  then obtain k f es where g: "k < 3" "give_up tid a ?rb2 = Some (?rb2\<lparr>segs := ?H(a \<mapsto> s\<lparr>sprev := f\<rparr>), ebrEntries := es\<rparr>)"
    "List.length es = n"
    "\<forall>i < n. entry_ok (?H(a \<mapsto> s\<lparr>sprev := f\<rparr>)) (es ! i) ((Ls(tid := (Ls tid)(k := a # Ls tid k))) i)"
    using give_up_ok [of tid n ?rb2 Ls a s] assms(2,3) i ga(1) a(1) d(1) by auto
  let ?H' = "?H(a \<mapsto> s\<lparr>sprev := f\<rparr>)"
  let ?rb' = "?rb2\<lparr>segs := ?H', ebrEntries := es\<rparr>"
  let ?Ls = "Ls(tid := (Ls tid)(k := a # Ls tid k))"
  have "seg_update b (\<lambda>s. s\<lparr>snext := NULL\<rparr>) rb = Some (rb\<lparr>segs := ?H\<rparr>)" using sb(1) by (simp add: seg_update_def)
  then have "pop_step tid (PBack a) rb = Some (PLoop b, ?rb')" using g(2) a assms(3) by (simp add: pop_step_def)
  then have run: "pop_run tid (PBack a) rb = pop_run tid (PLoop b) ?rb'" by (rule pop_run_step)
  have "chain ?H' N NULL qs b" using sb(4) d by (subst seg_chain_cong [where H = "segs rb"]) auto
  moreover have "seg_rep N (sb\<lparr>snext := NULL\<rparr>) ys" using sb(3) by (simp add: seg_rep_def cell_def)
  ultimately have ch: "chain ?H' N NULL (qs @ [(b, ys)]) NULL" using a sb d by (simp add: seg_chain_append)
  have "dom ?H' = dom (segs rb)" using assms(3) sb(1) by auto
  moreover have "given_up n ?Ls = add_mset a (given_up n Ls)"
    using given_up_update [OF assms(2) g(1), of Ls "a # Ls tid k"] by simp
  moreover have "rtail rb = first (qs @ [(b, ys)]) NULL" using i by simp
  ultimately have "ring_inv N n (qs @ [(b, ys)]) ?Ls ?rb'"
    using i ch g(3,4) by (simp add: ring_inv_def add_mset_commute [of b a] del: chain.simps fun_upd_apply first_simps)
  then show ?thesis using run by blast
qed

lemma pop_loop_ok:
  assumes "ring_inv N n ps Ls rb" "tid < n" "N < 2 ^ 63"
  shows "\<exists>r rb' ps' Ls'. pop_run tid (PLoop (last_of NULL ps)) rb = Some (r, rb') \<and> ring_inv N n ps' Ls' rb' \<and>
    (if content ps = [] then r = None \<and> content ps' = [] else r = Some (last (content ps)) \<and> content ps' = butlast (content ps))"
  using assms(1)
proof (induction ps arbitrary: Ls rb rule: rev_induct)
  case Nil
  then show ?case by (simp add: ring_inv_def)
next
  case (snoc axs ps)
  obtain a xs where axs: "axs = (a, xs)" by (cases axs)
  obtain s where s: "segs rb a = Some s" "seg_rep N s xs" "sprev s = last_of NULL ps"
    using snoc.prems by (auto simp: ring_inv_def axs seg_chain_append)
  let ?h = "head_idx s - 1"
  have s1: "pop_step tid (PLoop a) rb = Some (PTail a ?h, rb)" using s by (simp add: pop_step_def)
  show ?case
  proof (cases xs rule: rev_cases)
    case (snoc ys x)
    note p = seg_rep_pop [OF s(2)[unfolded snoc] assms(3)]
    show ?thesis
    proof (cases ys)
      case Nil
      have t: "tail_idx s = ?h" using p(4) Nil by simp
      have "seg_rep N (s\<lparr>tail_idx := tail_idx s + 1\<rparr>) []" using seg_rep_take [of N s x "[]"] s(2) snoc Nil by simp
      note inv = ring_inv_seg [where ps = "[]", OF snoc.prems[unfolded axs] s(1) order.refl this]
      let ?rb = "rb\<lparr>segs := (segs rb)(a \<mapsto> s\<lparr>tail_idx := tail_idx s + 1\<rparr>)\<rparr>"
      have s2: "pop_step tid (PTail a ?h) rb = Some (PValue a (tail_idx s), rb)"
        using s(1) p(3,4) Nil by (simp add: pop_step_def)
      have s3: "pop_step tid (PValue a (tail_idx s)) rb = Some (PCas a (tail_idx s) x, rb)"
        using s(1) p(2) t by (simp add: pop_step_def)
      have s4: "pop_step tid (PCas a (tail_idx s) x) rb = Some (PDone (Some x), ?rb)"
        using s(1) by (simp add: pop_step_def seg_update_def)
      have "pop_run tid (PLoop a) rb = Some (Some x, ?rb)"
        using pop_run_step [OF s1] pop_run_step [OF s2] pop_run_step [OF s3] pop_run_step [OF s4] by (simp add: pop_run_done)
      then show ?thesis using inv snoc Nil axs by (auto simp: content_def)
    next
      case (Cons y zs)
      note inv = ring_inv_seg [where ps = "[]", OF snoc.prems[unfolded axs] s(1) order.refl p(1)]
      let ?rb = "rb\<lparr>segs := (segs rb)(a \<mapsto> s\<lparr>head_idx := ?h\<rparr>)\<rparr>"
      have s2: "pop_step tid (PTail a ?h) rb = Some (PStore a ?h, rb)" using s(1) p(3) Cons by (simp add: pop_step_def)
      have s3: "pop_step tid (PStore a ?h) rb = Some (PFetch a ?h, ?rb)" using s(1) by (simp add: pop_step_def seg_update_def)
      have s4: "pop_step tid (PFetch a ?h) ?rb = Some (PDone (Some x), ?rb)" using p(2) by (simp add: pop_step_def cell_def)
      have "pop_run tid (PLoop a) rb = Some (Some x, ?rb)"
        using pop_run_step [OF s1] pop_run_step [OF s2] pop_run_step [OF s3] pop_run_step [OF s4] by (simp add: pop_run_done)
      moreover have "content (ps @ [axs]) = content (ps @ [(a, ys)]) @ [x]" using snoc axs by (simp add: content_def)
      ultimately show ?thesis using inv
        by (intro exI [of _ "Some x"] exI [of _ ?rb] exI [of _ "ps @ [(a, ys)]"] exI [of _ Ls]) (simp add: axs)
    qed
  next
    case Nil
    note p = seg_rep_empty [OF s(2)[unfolded Nil] assms(3)]
    have s2: "pop_step tid (PTail a ?h) rb = Some (PEmpty a (tail_idx s), rb)" using s(1) p(1,2) by (simp add: pop_step_def)
    have id: "rb\<lparr>segs := (segs rb)(a \<mapsto> s)\<rparr> = rb" using s(1) by (simp add: fun_upd_idem)
    have s3: "pop_step tid (PEmpty a (tail_idx s)) rb = Some (PBack a, rb)"
      using s(1) p(3) id by (simp add: pop_step_def seg_update_def)
    have run: "pop_run tid (PLoop a) rb = pop_run tid (PBack a) rb"
      using pop_run_step [OF s1] pop_run_step [OF s2] pop_run_step [OF s3] by simp
    show ?thesis
    proof (cases ps rule: rev_cases)
      case Nil': Nil
      have "pop_step tid (PBack a) rb = Some (PDone None, rb)" using s(1,3) Nil' by (simp add: pop_step_def)
      from pop_run_step [OF this] have "pop_run tid (PLoop a) rb = Some (None, rb)" using run by (simp add: pop_run_done)
      then show ?thesis using Nil Nil' axs snoc.prems by (auto simp: content_def)
    next
      case (snoc qs bys)
      obtain b ys where bys: "bys = (b, ys)" by (cases bys)
      obtain rb' Ls' where r: "pop_run tid (PBack a) rb = pop_run tid (PLoop b) rb'" "ring_inv N n (qs @ [(b, ys)]) Ls' rb'"
        using ring_inv_back [of N n qs b ys a Ls rb tid s] snoc.prems assms(2) s(1) Nil snoc axs bys by auto
      have c: "content (ps @ [axs]) = content ps" "last_of NULL ps = b" "last_of NULL (ps @ [axs]) = a"
        using Nil axs snoc bys by (simp_all add: content_def)
      have "ring_inv N n ps Ls' rb'" using r(2) snoc bys by simp
      from snoc.IH [OF this] show ?thesis unfolding c run r(1) .
    qed
  qed
qed

lemma pop_ok:
  assumes "ring_inv N n ps Ls rb" "tid < n" "N < 2 ^ 63"
  shows "\<exists>r rb' ps' Ls'. ksiRingBufferPop tid rb = Some (r, rb') \<and> ring_inv N n ps' Ls' rb' \<and>
    (if content ps = [] then r = None \<and> content ps' = [] else r = Some (last (content ps)) \<and> content ps' = butlast (content ps))"
proof -
  have "pop_step tid PStart rb = Some (PLoop (last_of NULL ps), rb)" using assms(1) by (simp add: pop_step_def ring_inv_def)
  from pop_run_step [OF this] show ?thesis using pop_loop_ok [OF assms] by (simp add: ksiRingBufferPop_def)
qed

section \<open>Releasing segments\<close>

lemma ring_inv_total: "ring_inv N n ps Ls rb \<Longrightarrow> mset (map fst ps) + given_up n Ls = mset_set (dom (segs rb))"
  by (simp add: ring_inv_def)

lemma given_up_part:
  assumes "ring_inv N n ps Ls rb" "i < n" "k < 3"
  shows "mset (Ls i k) + (mset (map fst ps) + given_up n (Ls(i := (Ls i)(k := [])))) = mset_set (dom (segs rb))"
  using ring_inv_total [OF assms(1)] given_up_update [OF assms(2,3), of Ls "[]"] by (simp add: ac_simps)

lemma free_list_distinct: "ring_inv N n ps Ls rb \<Longrightarrow> i < n \<Longrightarrow> k < 3 \<Longrightarrow> distinct (Ls i k)"
  using mset_set_distinct [OF given_up_part] .

lemma free_lists_disjoint:
  assumes "ring_inv N n ps Ls rb" "i < n" "k < 3" "j < n" "l < 3" "a \<in> set (Ls i k)" "a \<in> set (Ls j l)"
  shows "i = j \<and> k = l"
proof (rule ccontr)
  assume "\<not> (i = j \<and> k = l)"
  then have "a \<in> set ((Ls(i := (Ls i)(k := []))) j l)" using assms(7) by auto
  then have "a \<in># given_up n (Ls(i := (Ls i)(k := [])))" using assms(4,5) unfolding in_given_up by blast
  then show False using count_mset_set_le [OF given_up_part [OF assms(1-3)], of a] assms(6) by simp
qed

lemma free_list_plist:
  "ring_inv N n ps Ls rb \<Longrightarrow> i < n \<Longrightarrow> k < 3 \<Longrightarrow>
   i < List.length (ebrEntries rb) \<and> k < List.length (freelist (ebrEntries rb ! i)) \<and> plist (segs rb) (freelist (ebrEntries rb ! i) ! k) (Ls i k)"
  by (auto simp: ring_inv_def entry_ok_def)

definition drop_segs :: "ptr set \<Rightarrow> ring \<Rightarrow> ring" where
  "drop_segs R rb = rb\<lparr>segs := (\<lambda>a. if a \<in> R then None else segs rb a)\<rparr>"

lemma drop_segs_fields [simp]:
  "rhead (drop_segs R rb) = rhead rb" "rtail (drop_segs R rb) = rtail rb" "ebrEntries (drop_segs R rb) = ebrEntries rb"
  "repoch (drop_segs R rb) = repoch rb" "segs (drop_segs R rb) a = (if a \<in> R then None else segs rb a)"
  by (simp_all add: drop_segs_def)

lemma drop_segs_drop: "drop_segs S (drop_segs R rb) = drop_segs (R \<union> S) rb"
  by (intro ring.equality) (auto simp: drop_segs_def)

lemma destroyFromTail_drop:
  assumes "plist (segs rb) p as" "distinct as" "set as \<inter> R = {}"
  shows "destroyFromTail p (drop_segs R rb) = Some (drop_segs (R \<union> set as) rb)"
proof -
  have "plist (segs (drop_segs R rb)) p as"
  proof (subst plist_cong [where H = "segs rb"])
    show "\<forall>a \<in> set as. map_option sprev (segs (drop_segs R rb) a) = map_option sprev (segs rb a)" using assms(3) by auto
  qed (rule assms(1))
  from destroyFromTail_plist [OF this assms(2)] show ?thesis
    by (simp add: drop_segs_def [of "set as" "drop_segs R rb", symmetric] drop_segs_drop)
qed

lemma free_one:
  assumes "ring_inv N n ps Ls rb" "i < n" "k < 3"
  shows "\<exists>rb1 rb2. destroyFromTail (freelist (ebrEntries rb ! i) ! k) rb = Some rb1 \<and>
    entry_update i (\<lambda>ee. ee\<lparr>freelist := (freelist ee)[k := NULL]\<rparr>) rb1 = Some rb2 \<and>
    ring_inv N n ps (Ls(i := (Ls i)(k := []))) rb2 \<and> repoch rb2 = repoch rb"
proof -
  let ?L = "Ls i k" and ?Ls = "Ls(i := (Ls i)(k := []))"
  note inv = assms(1)[unfolded ring_inv_def]
  let ?rb1 = "drop_segs (set ?L) rb"
  let ?f = "\<lambda>ee. ee\<lparr>freelist := (freelist ee)[k := NULL]\<rparr>"
  let ?es = "(ebrEntries rb)[i := ?f (ebrEntries rb ! i)]"
  have fl: "i < List.length (ebrEntries rb)" "plist (segs rb) (freelist (ebrEntries rb ! i) ! k) ?L"
    using free_list_plist [OF assms] by simp_all
  have d: "distinct ?L" by (rule free_list_distinct [OF assms])
  have d1: "destroyFromTail (freelist (ebrEntries rb ! i) ! k) rb = Some ?rb1"
    using destroyFromTail_plist [OF fl(2) d] by (simp add: drop_segs_def)
  have d2: "entry_update i ?f ?rb1 = Some (?rb1\<lparr>ebrEntries := ?es\<rparr>)" using fl(1) by (simp add: entry_update_eq)
  have out: "a \<notin> set ?L" if "a \<in> fst ` set ps \<or> a \<in># given_up n ?Ls" for a
    using count_mset_set_le [OF given_up_part [OF assms], of a] that by auto
  have "chain (segs ?rb1) N NULL ps NULL"
    using inv out seg_chain_cong [of ps "segs ?rb1" "segs rb"] by (simp add: drop_segs_def)
  moreover have "entry_ok (segs ?rb1) (?es ! j) (?Ls j)" if j: "j < n" for j
  proof -
    have "entry_ok (segs rb) (?es ! j) (?Ls j)"
      using inv j by (auto simp: entry_ok_def nth_list_update)
    then show ?thesis
      by (rule entry_ok_cong) (use out j in \<open>auto simp: in_given_up simp del: fun_upd_apply\<close>)
  qed
  moreover have "mset (map fst ps) + given_up n ?Ls = mset_set (dom (segs ?rb1))"
  proof -
    have "set ?L \<subseteq> dom (segs rb)" by (rule plist_dom [OF fl(2)])
    moreover have "dom (segs ?rb1) = dom (segs rb) - set ?L" by (auto simp: drop_segs_def split: if_splits)
    moreover have "mset_set (set ?L) = mset ?L" using d by (rule mset_set_set)
    ultimately have "mset_set (dom (segs rb)) = mset ?L + mset_set (dom (segs ?rb1))"
      using inv by (simp add: mset_set_Diff)
        (metis (no_types, lifting) add.commute finite_set mset_set_Diff subset_imp_msubset_mset_set subset_mset.diff_add)
    then show ?thesis using given_up_part [OF assms] by (metis add_left_imp_eq)
  qed
  moreover have "finite (dom (segs ?rb1))" "\<forall>a \<in> dom (segs ?rb1). a < sfresh ?rb1"
    using inv by (auto simp: drop_segs_def intro: finite_subset [of _ "dom (segs rb)"] split: if_splits)
  ultimately have "ring_inv N n ps ?Ls (?rb1\<lparr>ebrEntries := ?es\<rparr>)"
    using inv by (simp add: ring_inv_def del: fun_upd_apply) (simp add: drop_segs_def)
  then show ?thesis using d1 d2 by simp
qed

lemma free_lists_ok:
  assumes "ring_inv N n ps Ls rb" "m \<le> n" "k < 3"
  shows "\<exists>rb' Ls'. free_lists k m rb = Some rb' \<and> ring_inv N n ps Ls' rb' \<and> repoch rb' = repoch rb"
  using assms(1,2)
proof (induction m arbitrary: rb Ls)
  case (Suc i)
  have i: "i < n" using Suc.prems(2) by simp
  obtain rb1 rb2 where r: "destroyFromTail (freelist (ebrEntries rb ! i) ! k) rb = Some rb1"
    "entry_update i (\<lambda>ee. ee\<lparr>freelist := (freelist ee)[k := NULL]\<rparr>) rb1 = Some rb2"
    "ring_inv N n ps (Ls(i := (Ls i)(k := []))) rb2" "repoch rb2 = repoch rb"
    using free_one [OF Suc.prems(1) i assms(3)] by blast
  have "free_lists k (Suc i) rb = free_lists k i rb2"
    using r(1,2) free_list_plist [OF Suc.prems(1) i assms(3)] by (simp add: get_at_def)
  then show ?case using Suc.IH [OF r(3)] i r(4) by auto
qed auto

lemma try_free_ok:
  assumes "ring_inv N n ps Ls rb" "tid < n"
  shows "\<exists>c rb' Ls'. ksiRingBufferTryFree tid rb = Some (c, rb') \<and> ring_inv N n ps Ls' rb'"
proof (cases "\<exists>ee \<in> set (ebrEntries rb). active ee \<and> eepoch ee \<noteq> repoch rb")
  case True
  then show ?thesis using assms(1) by (auto simp: ksiRingBufferTryFree_def)
next
  case False
  let ?e = "(repoch rb + 1) mod 3"
  have "ring_inv N n ps Ls (rb\<lparr>repoch := ?e\<rparr>)" using assms(1) by (simp add: ring_inv_def)
  then obtain rb1 Ls1 where r1: "free_lists ((repoch rb + 2) mod 3) n (rb\<lparr>repoch := ?e\<rparr>) = Some rb1" "ring_inv N n ps Ls1 rb1"
    using free_lists_ok [of N n ps Ls "rb\<lparr>repoch := ?e\<rparr>" n "(repoch rb + 2) mod 3"] by auto
  obtain rb2 where r2: "entry_update tid (\<lambda>ee. ee\<lparr>eepoch := ?e\<rparr>) rb1 = Some rb2" "ring_inv N n ps Ls1 rb2"
    using ring_inv_entry [OF r1(2) assms(2), of "\<lambda>ee. ee\<lparr>eepoch := ?e\<rparr>"] by (auto simp: entry_ok_def)
  have "List.length (ebrEntries rb) = n" using assms(1) by (simp add: ring_inv_def)
  then have "ksiRingBufferTryFree tid rb = Some (0, rb2)"
    using False r1(1) r2(1) unfolding ksiRingBufferTryFree_def by simp
  then show ?thesis using r2(2) by blast
qed

lemma enter_ok:
  assumes "ring_inv N n ps Ls rb" "tid < n"
  shows "\<exists>rb'. ksiRingBufferConsumerEnter tid rb = Some rb' \<and> ring_inv N n ps Ls rb'"
proof -
  have "repoch rb < 3" using assms(1) by (simp add: ring_inv_def)
  then show ?thesis
    using ring_inv_entry [OF assms, of "\<lambda>ee. ee\<lparr>active := True, eepoch := repoch rb\<rparr>"]
    by (auto simp: entry_ok_def ksiRingBufferConsumerEnter_def)
qed

lemma leave_ok:
  assumes "ring_inv N n ps Ls rb" "tid < n"
  shows "\<exists>rb'. ksiRingBufferConsumerLeave tid rb = Some rb' \<and> ring_inv N n ps Ls rb'"
  using ring_inv_entry [OF assms, of "\<lambda>ee. ee\<lparr>active := False\<rparr>"]
  by (auto simp: entry_ok_def ksiRingBufferConsumerLeave_def)

section \<open>Destruction\<close>

lemma destroy_entry_ok:
  assumes "ring_inv N n ps Ls rb" "i < n" "k \<le> 3" "\<And>l. l < k \<Longrightarrow> set (Ls i l) \<inter> R = {}"
  shows "destroy_entry k (ebrEntries rb ! i) (drop_segs R rb) = Some (drop_segs (R \<union> (\<Union>l<k. set (Ls i l))) rb)"
  using assms(3,4)
proof (induction k arbitrary: R)
  case (Suc k)
  have k: "k < 3" using Suc.prems(1) by simp
  note fl = free_list_plist [OF assms(1,2) k]
  have "destroyFromTail (freelist (ebrEntries rb ! i) ! k) (drop_segs R rb) = Some (drop_segs (R \<union> set (Ls i k)) rb)"
    using destroyFromTail_drop fl free_list_distinct [OF assms(1,2) k] Suc.prems(2) [of k] by auto
  moreover have "set (Ls i l) \<inter> (R \<union> set (Ls i k)) = {}" if "l < k" for l
    using Suc.prems(2) [of l] free_lists_disjoint [OF assms(1,2) _ assms(2) k, of l] that k by auto
  then have "destroy_entry k (ebrEntries rb ! i) (drop_segs (R \<union> set (Ls i k)) rb) =
      Some (drop_segs (R \<union> set (Ls i k) \<union> (\<Union>l<k. set (Ls i l))) rb)"
    using Suc.IH k by simp
  ultimately show ?case using fl by (simp add: get_at_def lessThan_Suc Un_assoc Un_left_commute)
qed simp

lemma destroy_entries_ok:
  assumes "ring_inv N n ps Ls rb" "m \<le> n" "\<And>i l. i < m \<Longrightarrow> l < 3 \<Longrightarrow> set (Ls i l) \<inter> R = {}"
  shows "destroy_entries m (drop_segs R rb) = Some (drop_segs (R \<union> (\<Union>i<m. \<Union>l<3. set (Ls i l))) rb)"
  using assms(2,3)
proof (induction m arbitrary: R)
  case (Suc i)
  have i: "i < n" "i < List.length (ebrEntries rb)" using Suc.prems(1) assms(1) by (simp_all add: ring_inv_def)
  have "destroy_entry 3 (ebrEntries rb ! i) (drop_segs R rb) = Some (drop_segs (R \<union> (\<Union>l<3. set (Ls i l))) rb)"
    using destroy_entry_ok [OF assms(1) i(1)] Suc.prems(2) by simp
  moreover have "set (Ls j l) \<inter> (R \<union> (\<Union>l<3. set (Ls i l))) = {}" if "j < i" "l < 3" for j l
    using Suc.prems(2) [of j l] free_lists_disjoint [OF assms(1) _ that(2) i(1), of j] that i(1) by fastforce
  then have "destroy_entries i (drop_segs (R \<union> (\<Union>l<3. set (Ls i l))) rb) =
      Some (drop_segs (R \<union> (\<Union>l<3. set (Ls i l)) \<union> (\<Union>j<i. \<Union>l<3. set (Ls j l))) rb)"
    using Suc.IH i(1) by simp
  ultimately show ?case using i(2) by (simp add: get_at_def lessThan_Suc Un_assoc Un_left_commute)
qed simp

lemma destroy_ok:
  assumes "ring_inv N n ps Ls rb"
  shows "\<exists>rb'. ksiRingBufferDestroy rb = Some rb' \<and> dom (segs rb') = fst ` set (tl ps)"
proof -
  note inv = assms[unfolded ring_inv_def]
  obtain a xs qs where ps: "ps = (a, xs) # qs" using inv by (cases ps) auto
  let ?R = "\<Union>i<n. \<Union>l<3. set (Ls i l)"
  have R: "?R = set_mset (given_up n Ls)"
    unfolding set_eq_iff in_given_up by (simp add: Bex_def lessThan_iff)
  have "drop_segs {} rb = rb" by (simp add: drop_segs_def)
  then have e: "destroy_entries n rb = Some (drop_segs ?R rb)"
    using destroy_entries_ok [OF assms order.refl, of "{}"] by simp
  have "plist (segs rb) a [a]" using inv ps by auto
  moreover have "a \<notin> ?R" unfolding R using ring_invD(2) [OF assms, of a] ps by simp
  ultimately have t: "destroyFromTail a (drop_segs ?R rb) = Some (drop_segs (?R \<union> {a}) rb)"
    using destroyFromTail_drop [of rb a "[a]" ?R] by simp
  have "dom (segs rb) = set_mset (mset (map fst ps) + given_up n Ls)"
    using inv by (metis finite_set_mset_mset_set)
  then have "dom (segs rb) = fst ` set ps \<union> ?R" unfolding R by simp
  then have "dom (segs (drop_segs (?R \<union> {a}) rb)) = fst ` set qs - (?R \<union> {a})"
    using ps by (auto simp: drop_segs_def split: if_splits)
  moreover have "fst ` set qs \<inter> (?R \<union> {a}) = {}"
    unfolding R using ring_invD [OF assms] ps by auto
  ultimately have d: "dom (segs (drop_segs (?R \<union> {a}) rb)) = fst ` set (tl ps)" using ps by (simp add: Diff_triv)
  have "ksiRingBufferDestroy rb = Some (drop_segs (?R \<union> {a}) rb)"
    using e t inv ps unfolding ksiRingBufferDestroy_def by simp
  then show ?thesis using d by blast
qed

end
