(* ===== verification/Lcrq_Seq.thy ===== *)
theory Lcrq_Seq
  imports Lcrq_Ring Ring_Rep
begin

text \<open>
  The whole queue when calls do not overlap: the rings from \<open>head\<close> to \<open>tail\<close> hold one list of tasks,
  all but the last are closed, every other ring is on exactly one free list. Enqueue appends, Dequeue removes
  the first task, and no call reads a released ring.
\<close>

section \<open>Chains of rings\<close>

type_synonym ring_spec = "ptr \<times> nat \<times> ptr list"

definition nxt :: "ring_spec list \<Rightarrow> ptr \<Rightarrow> ptr" where
  "nxt cs q = (case cs of [] \<Rightarrow> q | (p, _) # _ \<Rightarrow> p)"

lemma nxt_simps [simp]: "nxt [] q = q" "nxt ((p, x) # cs) q = p" "nxt (as @ bs) q = nxt as (nxt bs q)"
  by (auto simp: nxt_def split: list.split)

fun rchain :: "(ptr \<Rightarrow> ring_queue option) \<Rightarrow> nat \<Rightarrow> nat \<Rightarrow> ring_spec list \<Rightarrow> ptr \<Rightarrow> bool" where
  "rchain M k N [] q \<longleftrightarrow> True"
| "rchain M k N ((p, H, xs) # cs) q \<longleftrightarrow> p \<noteq> NULL \<and> H + List.length xs \<le> N \<and> rchain M k N cs q \<and>
     (\<exists>r. M p = Some r \<and> ring_at k H xs (nxt cs q \<noteq> NULL) r \<and> qnxt r = nxt cs q)"

lemma rchain_append: "rchain M k N (as @ bs) q \<longleftrightarrow> rchain M k N as (nxt bs q) \<and> rchain M k N bs q"
  by (induction as) auto

lemma rchain_cong: "\<forall>p \<in> fst ` set cs. M' p = M p \<Longrightarrow> rchain M' k N cs q = rchain M k N cs q"
  by (induction cs) auto

lemma rchain_mono: "N \<le> N' \<Longrightarrow> rchain M k N cs q \<Longrightarrow> rchain M k N' cs q"
  by (induction cs) auto

lemma rchain_in: "rchain M k N cs q \<Longrightarrow> x \<in> set cs \<Longrightarrow> fst x \<in> dom M"
  by (induction cs) auto

lemma rchain_dom: "rchain M k N cs q \<Longrightarrow> fst ` set cs \<subseteq> dom M"
  using rchain_in by blast

definition tasks_of :: "ring_spec list \<Rightarrow> ptr list" where
  "tasks_of cs = concat (map (\<lambda>(p, H, xs). xs) cs)"

lemma tasks_of_simps [simp]: "tasks_of [] = []" "tasks_of ((p, H, xs) # cs) = xs @ tasks_of cs" "tasks_of (as @ bs) = tasks_of as @ tasks_of bs"
  by (simp_all add: tasks_of_def)

section \<open>Free lists\<close>

fun qlist :: "(ptr \<Rightarrow> ring_queue option) \<Rightarrow> ptr \<Rightarrow> ptr list \<Rightarrow> bool" where
  "qlist M p [] \<longleftrightarrow> p = NULL"
| "qlist M p (a # as) \<longleftrightarrow> p = a \<and> a \<noteq> NULL \<and> (\<exists>r. M a = Some r \<and> qlist M (qnxt r) as)"

lemma qlist_cong: "\<forall>a \<in> set as. M' a = M a \<Longrightarrow> qlist M' p as = qlist M p as"
  by (induction as arbitrary: p) auto

lemma qlist_dom: "qlist M p as \<Longrightarrow> set as \<subseteq> dom M"
  by (induction as arbitrary: p) auto

lemma release_qlist:
  "qlist M p as \<Longrightarrow> distinct as \<Longrightarrow> release_rings p M = Some (\<lambda>a. if a \<in> set as then None else M a)"
proof (induction as arbitrary: p M)
  case Nil
  then show ?case by (subst release_rings.simps) simp
next
  case (Cons a as)
  then obtain r where r: "p = a" "a \<noteq> NULL" "M a = Some r" "qlist M (qnxt r) as" by auto
  let ?M = "M(a := None)"
  have "qlist ?M (qnxt r) as" using r(4) Cons.prems(2) qlist_cong [of as ?M M] by auto
  then have "release_rings (qnxt r) ?M = Some (\<lambda>b. if b \<in> set as then None else ?M b)"
    by (rule Cons.IH) (use Cons.prems(2) in simp)
  moreover have "release_rings p M = release_rings (qnxt r) ?M" using r(1-3) by (subst release_rings.simps) simp
  moreover have "(\<lambda>b. if b \<in> set as then None else ?M b) = (\<lambda>b. if b \<in> set (a # as) then None else M b)" by auto
  ultimately show ?case by simp
qed

definition qentry_ok :: "(ptr \<Rightarrow> ring_queue option) \<Rightarrow> ebr_entry \<Rightarrow> (nat \<Rightarrow> ptr list) \<Rightarrow> bool" where
  "qentry_ok M ee L \<longleftrightarrow> eepoch ee < 3 \<and> List.length (freelist ee) = 3 \<and> (\<forall>k < 3. qlist M (freelist ee ! k) (L k))"

lemma qentry_cong:
  assumes "qentry_ok M ee L" "\<And>k a. k < 3 \<Longrightarrow> a \<in> set (L k) \<Longrightarrow> M' a = M a"
  shows "qentry_ok M' ee L"
  using assms qlist_cong [of _ M' M] unfolding qentry_ok_def by blast

lemma qentries_frame:
  assumes "\<forall>i < n. qentry_ok M (es ! i) (Ls i)" "\<And>a. a \<in># given_up n Ls \<Longrightarrow> M' a = M a"
  shows "\<forall>i < n. qentry_ok M' (es ! i) (Ls i)"
proof (intro allI impI)
  fix i assume i: "i < n"
  have "M' a = M a" if "k < 3" "a \<in> set (Ls i k)" for k a
    using assms(2) [of a] i that unfolding in_given_up by blast
  then show "qentry_ok M' (es ! i) (Ls i)" using qentry_cong [of M "es ! i" "Ls i" M'] assms(1) i by simp
qed

section \<open>Invariant\<close>

text \<open>\<open>m\<close> producers are registered, under the ids below \<open>m\<close>.\<close>

definition producers_ok :: "nat \<Rightarrow> dynamic_ebr \<Rightarrow> bool" where
  "producers_ok m ebr \<longleftrightarrow> vec_wf (dynamicOverlookers ebr) \<and> int m \<le> vsize (dynamicOverlookers ebr) \<and>
     vcap (dynamicOverlookers ebr) \<le> max 16 (2 * int m) \<and> vfree (dynamicOverlookers ebr) = [] \<and>
     vsize (dynamicOverlookers ebr) = int m \<and>
     (\<forall>i p. vec_map (dynamicOverlookers ebr) i = Some p \<longrightarrow> overlookers ebr p \<noteq> None) \<and> 0 < ofresh ebr"

definition seq_inv :: "nat \<Rightarrow> nat \<Rightarrow> nat \<Rightarrow> nat \<Rightarrow> ring_spec list \<Rightarrow> (nat \<Rightarrow> nat \<Rightarrow> ptr list) \<Rightarrow> lcrq \<Rightarrow> bool" where
  "seq_inv k m N n cs Ls q \<longleftrightarrow> lsize q = 2 ^ k \<and> k < 62 \<and> cs \<noteq> [] \<and> rchain (rqs q) k N cs NULL \<and>
     lhead q = nxt cs NULL \<and> ltail q = fst (last cs) \<and> List.length (dentries (lebr q)) = n \<and>
     (\<forall>i < n. qentry_ok (rqs q) (dentries (lebr q) ! i) (Ls i)) \<and> finite (dom (rqs q)) \<and>
     mset (map fst cs) + given_up n Ls = mset_set (dom (rqs q)) \<and> (\<forall>a \<in> dom (rqs q). a < lfresh q) \<and>
     0 < lfresh q \<and> depoch (lebr q) < 3 \<and> producers_ok m (lebr q)"

lemma seq_invI:
  assumes "lsize q = 2 ^ k" "k < 62" "cs \<noteq> []" "rchain (rqs q) k N cs NULL" "lhead q = nxt cs NULL" "ltail q = fst (last cs)"
    "List.length (dentries (lebr q)) = n" "\<forall>i < n. qentry_ok (rqs q) (dentries (lebr q) ! i) (Ls i)" "finite (dom (rqs q))"
    "mset (map fst cs) + given_up n Ls = mset_set (dom (rqs q))" "\<forall>a \<in> dom (rqs q). a < lfresh q" "0 < lfresh q"
    "depoch (lebr q) < 3" "producers_ok m (lebr q)"
  shows "seq_inv k m N n cs Ls q"
  using assms unfolding seq_inv_def by blast

lemma seq_invD:
  assumes "seq_inv k m N n cs Ls q"
  shows "distinct (map fst cs)" "\<And>a. a \<in> fst ` set cs \<Longrightarrow> a \<notin># given_up n Ls"
proof -
  have e: "mset (map fst cs) + given_up n Ls = mset_set (dom (rqs q))" using assms by (simp add: seq_inv_def)
  show "distinct (map fst cs)" by (rule mset_set_distinct [OF e])
  show "a \<notin># given_up n Ls" if "a \<in> fst ` set cs" for a
    by (rule count_mset_set_le [OF e]) (use that in simp)
qed

lemma seq_inv_entries: "seq_inv k m N n cs Ls q \<Longrightarrow> \<forall>i < n. qentry_ok (rqs q) (dentries (lebr q) ! i) (Ls i)"
  by (simp add: seq_inv_def)

lemma seq_inv_total: "seq_inv k m N n cs Ls q \<Longrightarrow> mset (map fst cs) + given_up n Ls = mset_set (dom (rqs q))"
  by (simp add: seq_inv_def)

lemma seq_inv_mono: "seq_inv k m N n cs Ls q \<Longrightarrow> N \<le> N' \<Longrightarrow> seq_inv k m N' n cs Ls q"
  using rchain_mono by (auto simp: seq_inv_def)

text \<open>One ring of the chain changes in place.\<close>

lemma seq_inv_ring:
  assumes i: "seq_inv k m N n (as @ (p, H, xs) # bs) Ls q" and r: "rqs q p = Some r"
    and r': "ring_at k H' ys (nxt bs NULL \<noteq> NULL) r'" "qnxt r' = qnxt r" "H' + List.length ys \<le> N"
  shows "seq_inv k m N n (as @ (p, H', ys) # bs) Ls (q\<lparr>rqs := (rqs q)(p \<mapsto> r')\<rparr>)"
proof -
  note i' = i[unfolded seq_inv_def]
  let ?M = "(rqs q)(p \<mapsto> r')"
  have d: "p \<notin> fst ` set as" "p \<notin> fst ` set bs" using seq_invD(1) [OF i] by auto
  have c: "rchain ?M k N as x = rchain (rqs q) k N as x" "rchain ?M k N bs x = rchain (rqs q) k N bs x" for x
    by (rule rchain_cong; use d in auto)+
  have "rchain (rqs q) k N (as @ (p, H, xs) # bs) NULL" using i' by blast
  then have a: "rchain (rqs q) k N as p" "rchain (rqs q) k N bs NULL" "p \<noteq> NULL" "qnxt r = nxt bs NULL"
    using r by (auto simp: rchain_append)
  then have "rchain ?M k N ((p, H', ys) # bs) NULL" using r' c(2) by simp
  then have ch: "rchain ?M k N (as @ (p, H', ys) # bs) NULL" unfolding rchain_append using a(1) c(1) by simp
  have "p \<notin># given_up n Ls" using seq_invD(2) [OF i] by simp
  then have e: "\<forall>i < n. qentry_ok ?M (dentries (lebr q) ! i) (Ls i)"
    using qentries_frame [OF seq_inv_entries [OF i], of ?M] by fastforce
  have "dom ?M = dom (rqs q)" using r by auto
  moreover have "fst (last (as @ (p, H', ys) # bs)) = fst (last (as @ (p, H, xs) # bs))" by (cases bs) simp_all
  moreover have "nxt (as @ (p, H', ys) # bs) NULL = nxt (as @ (p, H, xs) # bs) NULL" by simp
  ultimately show ?thesis
    by (intro seq_invI) (use i' in \<open>simp_all add: ch e del: rchain.simps fun_upd_apply dom_fun_upd\<close>)
qed

section \<open>Enqueue appends\<close>

lemma solo_next: "qnxt (solo_ring x) = NULL"
  by (simp add: solo_ring_def init_ring_def)

lemma enqueue_ok:
  assumes i: "seq_inv k m N n cs Ls q" and N: "N + 2 ^ k + 1 < 2 ^ 63"
  shows "\<exists>q' cs'. ksiLCRQEnqueue x q = Some q' \<and> seq_inv k m (Suc N) n cs' Ls q' \<and> tasks_of cs' = tasks_of cs @ [x]"
proof -
  note i' = i[unfolded seq_inv_def]
  have i1: "seq_inv k m (Suc N) n cs Ls q" by (rule seq_inv_mono [OF i]) simp
  obtain as p H xs where cs: "cs = as @ [(p, H, xs)]" using i' by (metis append_butlast_last_id prod_cases3)
  have "rchain (rqs q) k N (as @ [(p, H, xs)]) NULL" using i' cs by simp
  then obtain r where r: "rqs q p = Some r" "ring_at k H xs False r" "qnxt r = NULL" "p \<noteq> NULL" "H + List.length xs \<le> N"
    by (auto simp: rchain_append)
  have q: "ltail q = p" "lsize q = 2 ^ k" and k: "k < 62" using i' cs by simp_all
  show ?thesis
  proof (cases "List.length xs < 2 ^ k")
    case True
    obtain r' where r': "ksiLCRQEnqueue x q = Some (q\<lparr>rqs := (rqs q)(p \<mapsto> r')\<rparr>)" "ring_at k H (xs @ [x]) False r'" "qnxt r' = NULL"
      using enqueue_fits [OF k r(1) q(1) r(3) q(2) r(2) True, of x] r(5) N by auto
    have "seq_inv k m (Suc N) n (as @ [(p, H, xs @ [x])]) Ls (q\<lparr>rqs := (rqs q)(p \<mapsto> r')\<rparr>)"
      by (rule seq_inv_ring [OF i1[unfolded cs] r(1)]) (use r' r in simp_all)
    then have "ksiLCRQEnqueue x q = Some (q\<lparr>rqs := (rqs q)(p \<mapsto> r')\<rparr>) \<and>
        seq_inv k m (Suc N) n (as @ [(p, H, xs @ [x])]) Ls (q\<lparr>rqs := (rqs q)(p \<mapsto> r')\<rparr>) \<and>
        tasks_of (as @ [(p, H, xs @ [x])]) = tasks_of cs @ [x]"
      using r'(1) cs by simp
    then show ?thesis by blast
  next
    case False
    then have full: "List.length xs = 2 ^ k" using ring_atD(1) [OF r(2)] by simp
    let ?f = "lfresh q"
    have f: "?f \<notin> dom (rqs q)" "?f \<noteq> NULL" using i' by auto
    have fp: "?f \<noteq> p" using f(1) r(1) by auto
    obtain r' where r': "ksiLCRQEnqueue x q =
        Some (q\<lparr>rqs := (rqs q)(p \<mapsto> r', ?f \<mapsto> solo_ring x), lfresh := Suc ?f, ltail := ?f\<rparr>)"
      "ring_at k H xs True r'" "qnxt r' = ?f"
      using enqueue_full [OF k r(1) q(1) r(3) q(2) r(2) full _ fp f(2), of x] r(5) full N by auto
    let ?M = "(rqs q)(p \<mapsto> r', ?f \<mapsto> solo_ring x)"
    let ?cs = "as @ [(p, H, xs), (?f, 0, [x])]"
    have d: "p \<notin> fst ` set as" using seq_invD(1) [OF i] cs by auto
    have das: "fst ` set as \<subseteq> dom (rqs q)" "?f \<notin> fst ` set as"
      using rchain_dom [of "rqs q" k N as] i' f(1) by (auto simp: cs rchain_append)
    have c: "rchain ?M k (Suc N) as y = rchain (rqs q) k (Suc N) as y" for y
      by (rule rchain_cong, intro ballI) (use d das(2) in \<open>metis fun_upd_other\<close>)
    have "rchain (rqs q) k (Suc N) as p" using i1 cs by (simp add: seq_inv_def rchain_append)
    then have ch: "rchain ?M k (Suc N) ?cs NULL"
      unfolding rchain_append using r r' f(2) fp ring_at_solo [OF k, of x] full by (simp add: c solo_next)
    have "p \<notin># given_up n Ls" using seq_invD(2) [OF i] cs by simp
    moreover have "?f \<notin># given_up n Ls"
    proof
      assume "?f \<in># given_up n Ls"
      then have "?f \<in># mset_set (dom (rqs q))" using i' by (metis Un_iff set_mset_union)
      then show False using f(1) i' by simp
    qed
    ultimately have e: "\<forall>i < n. qentry_ok ?M (dentries (lebr q) ! i) (Ls i)"
      using qentries_frame [OF seq_inv_entries [OF i], of ?M] by fastforce
    have dom: "dom ?M = insert ?f (dom (rqs q))" using r(1) by auto
    have "mset (map fst ?cs) + given_up n Ls = add_mset ?f (mset (map fst cs) + given_up n Ls)" by (simp add: cs)
    also have "\<dots> = add_mset ?f (mset_set (dom (rqs q)))" using seq_inv_total [OF i] by simp
    also have "\<dots> = mset_set (dom ?M)" unfolding dom using i' f(1) by simp
    finally have "mset (map fst ?cs) + given_up n Ls = mset_set (dom ?M)" .
    moreover have "finite (dom ?M)" unfolding dom using i' by simp
    moreover have "\<forall>a \<in> dom (rqs q). a < ?f" using i' by blast
    then have "\<forall>a \<in> dom ?M. a < Suc ?f" unfolding dom by (auto intro: less_SucI)
    ultimately have "seq_inv k m (Suc N) n ?cs Ls (q\<lparr>rqs := ?M, lfresh := Suc ?f, ltail := ?f\<rparr>)"
      by (intro seq_invI) (use i' in \<open>simp_all add: ch e cs del: rchain.simps fun_upd_apply dom_fun_upd\<close>)
    moreover have "tasks_of ?cs = tasks_of cs @ [x]" by (simp add: cs)
    ultimately show ?thesis using r'(1) by blast
  qed
qed

section \<open>Dequeue removes the first task\<close>

lemma retire_ok:
  assumes i: "seq_inv k m N n ((p, H, xs) # cs) Ls q" and cs: "cs \<noteq> []" and tid: "tid < n"
  shows "\<exists>q' Ls'. ksiLCRQRetire tid p (q\<lparr>rqs := (rqs q)(p \<mapsto> r'), lhead := nxt cs NULL\<rparr>) = Some q' \<and> seq_inv k m N n cs Ls' q'"
proof -
  note i' = i[unfolded seq_inv_def]
  let ?es = "dentries (lebr q)"
  let ?ee = "?es ! tid"
  let ?e = "eepoch ?ee"
  let ?f = "freelist ?ee ! ?e"
  let ?M = "(rqs q)(p \<mapsto> r'\<lparr>qnxt := ?f\<rparr>)"
  let ?ebr = "lebr q\<lparr>dentries := ?es[tid := ?ee\<lparr>freelist := (freelist ?ee)[?e := p]\<rparr>]\<rparr>"
  let ?Ls = "Ls(tid := (Ls tid)(?e := p # Ls tid ?e))"
  let ?q = "q\<lparr>rqs := ?M, lhead := nxt cs NULL, lebr := ?ebr\<rparr>"
  have n: "List.length ?es = n" using i' by blast
  have ee: "?e < 3" "List.length (freelist ?ee) = 3" "\<forall>l < 3. qlist (rqs q) (freelist ?ee ! l) (Ls tid l)"
    using seq_inv_entries [OF i] tid by (auto simp: qentry_ok_def)
  obtain r where r: "rqs q p = Some r" "p \<noteq> NULL" "rchain (rqs q) k N cs NULL" using i' by auto
  have run: "ksiLCRQRetire tid p (q\<lparr>rqs := (rqs q)(p \<mapsto> r'), lhead := nxt cs NULL\<rparr>) = Some ?q"
    using tid n ee by (simp add: ksiLCRQRetire_def ksiDynamicEBRRetire_def dentry_update_def get_at_def rq_update_def)
  have d: "p \<notin> fst ` set cs" using seq_invD(1) [OF i] by simp
  have g: "p \<notin># given_up n Ls" using seq_invD(2) [OF i] by simp
  have ch: "rchain ?M k N cs NULL" using r(3) by (subst rchain_cong [where M = "rqs q"]) (use d in auto)
  have e0: "\<forall>i < n. qentry_ok ?M (?es ! i) (Ls i)"
    using qentries_frame [OF seq_inv_entries [OF i], of ?M] g by fastforce
  have "qlist ?M p (p # Ls tid ?e)" using e0 tid ee r(2) by (simp add: qentry_ok_def)
  then have e: "\<forall>i < n. qentry_ok ?M (dentries ?ebr ! i) (?Ls i)"
    using e0 tid n ee by (auto simp: qentry_ok_def nth_list_update simp del: fun_upd_apply qlist.simps)
      (auto simp: fun_upd_apply simp del: qlist.simps)
  have "given_up n ?Ls = add_mset p (given_up n Ls)" using given_up_update [OF tid ee(1), of Ls "p # Ls tid ?e"] by simp
  moreover have dom: "dom ?M = dom (rqs q)" using r(1) by auto
  ultimately have tot: "mset (map fst cs) + given_up n ?Ls = mset_set (dom ?M)" using seq_inv_total [OF i] by simp
  have "producers_ok m ?ebr" using i' by (simp add: producers_ok_def)
  moreover have "fst (last cs) = ltail q" using i' cs by simp
  ultimately have "seq_inv k m N n cs ?Ls ?q"
    by (intro seq_invI) (use i' cs n ch e tot dom in \<open>simp_all del: fun_upd_apply dom_fun_upd\<close>)
  then show ?thesis using run by blast
qed

lemma dequeue_ok:
  assumes "seq_inv k m N n cs Ls q" "tid < n" "N + 2 ^ k + 1 < 2 ^ 63"
  shows "\<exists>q' cs' Ls'. ksiLCRQDequeue tid q = Some (if tasks_of cs = [] then None else Some (hd (tasks_of cs)), q') \<and>
    seq_inv k m (Suc N) n cs' Ls' q' \<and> tasks_of cs' = tl (tasks_of cs)"
  using assms(1)
proof (induction cs arbitrary: Ls q)
  case Nil
  then show ?case by (simp add: seq_inv_def)
next
  case (Cons c cs)
  obtain p H xs where c: "c = (p, H, xs)" by (cases c)
  note i = Cons.prems[unfolded c]
  note i1 = seq_inv_mono [OF i, of "Suc N", simplified]
  obtain r where r: "rqs q p = Some r" "ring_at k H xs (nxt cs NULL \<noteq> NULL) r" "qnxt r = nxt cs NULL" "H + List.length xs \<le> N"
    using i by (auto simp: seq_inv_def)
  have q: "lhead q = p" "lsize q = 2 ^ k" and k: "k < 62" using i by (simp_all add: seq_inv_def)
  have N: "H + 2 ^ k < 2 ^ 63" "H + 2 ^ k + 1 < 2 ^ 63" using r(4) assms(3) by simp_all
  show ?case
  proof (cases xs)
    case (Cons x ys)
    obtain r' where r': "deq_run tid DStart q = Some (Some x, q\<lparr>rqs := (rqs q)(p \<mapsto> r')\<rparr>)"
      "ring_at k (Suc H) ys (nxt cs NULL \<noteq> NULL) r'" "qnxt r' = qnxt r"
      using dequeue_task [OF k r(1) q r(2)[unfolded Cons] N(1), of tid] by blast
    have "seq_inv k m (Suc N) n ([] @ (p, Suc H, ys) # cs) Ls (q\<lparr>rqs := (rqs q)(p \<mapsto> r')\<rparr>)"
      by (rule seq_inv_ring [OF _ r(1) r'(2,3), of m "Suc N" n "[]" H xs]) (use i1 r(4) Cons in simp_all)
    then have "seq_inv k m (Suc N) n ((p, Suc H, ys) # cs) Ls (q\<lparr>rqs := (rqs q)(p \<mapsto> r')\<rparr>) \<and>
        tasks_of ((p, Suc H, ys) # cs) = tl (tasks_of (c # cs))" by (simp add: c Cons)
    moreover have "ksiLCRQDequeue tid q = Some (Some x, q\<lparr>rqs := (rqs q)(p \<mapsto> r')\<rparr>)" using r'(1) by (simp add: ksiLCRQDequeue_def)
    ultimately show ?thesis by (intro exI) (auto simp: c Cons)
  next
    case Nil
    show ?thesis
    proof (cases cs)
      case Nil': Nil
      obtain r' where r': "deq_run tid DStart q = Some (None, q\<lparr>rqs := (rqs q)(p \<mapsto> r')\<rparr>)" "ring_at k (Suc H) [] False r'" "qnxt r' = NULL"
        using dequeue_none [OF k r(1) q _ N(2), of tid] r(2,3) Nil Nil' by auto
      have "seq_inv k m (Suc N) n ([] @ (p, Suc H, []) # cs) Ls (q\<lparr>rqs := (rqs q)(p \<mapsto> r')\<rparr>)"
        by (rule seq_inv_ring [OF _ r(1), of k m "Suc N" n "[]" H xs]) (use i1 r r' Nil Nil' in simp_all)
      then have "seq_inv k m (Suc N) n [(p, Suc H, [])] Ls (q\<lparr>rqs := (rqs q)(p \<mapsto> r')\<rparr>) \<and>
          tasks_of [(p, Suc H, [])] = tl (tasks_of (c # cs))" by (simp add: c Nil Nil')
      moreover have "ksiLCRQDequeue tid q = Some (None, q\<lparr>rqs := (rqs q)(p \<mapsto> r')\<rparr>)" using r'(1) by (simp add: ksiLCRQDequeue_def)
      ultimately show ?thesis by (intro exI) (auto simp: c Nil Nil')
    next
      case (Cons b ds)
      have nx: "nxt cs NULL \<noteq> NULL" using i Cons by (cases b) (auto simp: seq_inv_def)
      obtain r' where r': "deq_run tid DStart q = deq_run tid (DRetire p) (q\<lparr>rqs := (rqs q)(p \<mapsto> r'), lhead := nxt cs NULL\<rparr>)"
        using dequeue_swing [OF k r(1) q _ N(2), of tid] r(2,3) Nil nx by auto
      obtain q' Ls' where q': "ksiLCRQRetire tid p (q\<lparr>rqs := (rqs q)(p \<mapsto> r'), lhead := nxt cs NULL\<rparr>) = Some q'"
        "seq_inv k m N n cs Ls' q'"
        using retire_ok [OF i _ assms(2), of r'] Cons by blast
      have s: "deq_step tid (DRetire p) (q\<lparr>rqs := (rqs q)(p \<mapsto> r'), lhead := nxt cs NULL\<rparr>) = Some (DStart, q')"
        using q'(1) by (simp add: deq_step_def)
      have "ksiLCRQDequeue tid q = ksiLCRQDequeue tid q'"
        unfolding ksiLCRQDequeue_def r' deq_run_step [OF s] ..
      moreover have "tasks_of (c # cs) = tasks_of cs" by (simp add: c Nil)
      ultimately show ?thesis using Cons.IH [OF q'(2)] by (simp only:)
    qed
  qed
qed

section \<open>Epochs and collection\<close>

lemma seq_inv_ebr:
  assumes i: "seq_inv k m N n cs Ls q" and e: "List.length (dentries ebr) = n"
    "\<forall>i < n. eepoch (dentries ebr ! i) < 3 \<and> freelist (dentries ebr ! i) = freelist (dentries (lebr q) ! i)"
    "depoch ebr < 3" "producers_ok m ebr"
  shows "seq_inv k m N n cs Ls (q\<lparr>lebr := ebr\<rparr>)"
  using assms unfolding seq_inv_def by (simp add: qentry_ok_def)

lemma seq_inv_freelist: "seq_inv k m N n cs Ls q \<Longrightarrow> i < n \<Longrightarrow> eepoch (dentries (lebr q) ! i) < 3"
  by (simp add: seq_inv_def qentry_ok_def)

lemma seq_inv_entry:
  assumes i: "seq_inv k m N n cs Ls q" and tid: "tid < n"
    and f: "eepoch (f (dentries (lebr q) ! tid)) < 3" "freelist (f (dentries (lebr q) ! tid)) = freelist (dentries (lebr q) ! tid)"
  shows "\<exists>ebr. dentry_update tid f (lebr q) = Some ebr \<and> seq_inv k m N n cs Ls (q\<lparr>lebr := ebr\<rparr>)"
proof -
  let ?es = "dentries (lebr q)"
  let ?ebr = "lebr q\<lparr>dentries := ?es[tid := f (?es ! tid)]\<rparr>"
  have n: "List.length ?es = n" "depoch (lebr q) < 3" "producers_ok m (lebr q)" using i by (simp_all add: seq_inv_def)
  have "eepoch (?es[tid := f (?es ! tid)] ! j) < 3 \<and> freelist (?es[tid := f (?es ! tid)] ! j) = freelist (?es ! j)" if "j < n" for j
    using that f tid n(1) seq_inv_freelist [OF i] by (cases "j = tid") simp_all
  then have "seq_inv k m N n cs Ls (q\<lparr>lebr := ?ebr\<rparr>)"
    using n by (intro seq_inv_ebr [OF i]) (simp_all add: producers_ok_def)
  moreover have "dentry_update tid f (lebr q) = Some ?ebr" using tid n(1) by (simp add: dentry_update_def get_at_def)
  ultimately show ?thesis by blast
qed

lemma consumer_ok:
  assumes i: "seq_inv k m N n cs Ls q" and tid: "tid < n"
  shows "\<exists>q'. ksiLCRQConsumerEnter tid q = Some q' \<and> seq_inv k m N n cs Ls q'"
    "\<exists>q'. ksiLCRQConsumerLeave tid q = Some q' \<and> seq_inv k m N n cs Ls q'"
proof -
  have e: "depoch (lebr q) < 3" "eepoch (dentries (lebr q) ! tid) < 3"
    using i seq_inv_freelist [OF i tid] by (simp_all add: seq_inv_def)
  show "\<exists>q'. ksiLCRQConsumerEnter tid q = Some q' \<and> seq_inv k m N n cs Ls q'"
    using seq_inv_entry [OF i tid, of "\<lambda>ee. ee\<lparr>active := True, eepoch := depoch (lebr q)\<rparr>"] e
    by (auto simp: ksiLCRQConsumerEnter_def on_ebr_def ksiDynamicEBREnter_def)
  show "\<exists>q'. ksiLCRQConsumerLeave tid q = Some q' \<and> seq_inv k m N n cs Ls q'"
    using seq_inv_entry [OF i tid, of "\<lambda>ee. ee\<lparr>active := False\<rparr>"] e
    by (auto simp: ksiLCRQConsumerLeave_def on_ebr_def ksiDynamicEBRLeave_def)
qed

lemma producer_ok:
  assumes i: "seq_inv k m N n cs Ls q" and h: "h < m"
  shows "\<exists>q'. ksiLCRQProducerEnter \<lparr>hnext = nx, olId = int h\<rparr> q = Some q' \<and> seq_inv k m N n cs Ls q'"
    "\<exists>q'. ksiLCRQProducerLeave \<lparr>hnext = nx, olId = int h\<rparr> q = Some q' \<and> seq_inv k m N n cs Ls q'"
proof -
  let ?v = "dynamicOverlookers (lebr q)"
  have n: "List.length (dentries (lebr q)) = n" "depoch (lebr q) < 3" "producers_ok m (lebr q)" using i by (simp_all add: seq_inv_def)
  have v: "vec_wf ?v" "vfree ?v = []" "vsize ?v = int m" using n(3) by (simp_all add: producers_ok_def)
  have p: "vec_map ?v (int h) = Some (vdata ?v ! h)" "h < List.length (vdata ?v)"
    using vec_wfD(2,3) [OF v(1)] vec_wfD(5) [OF v(1), of "int h"] v(2,3) h by (auto simp: vec_map_def)
  then obtain ol where ol: "overlookers (lebr q) (vdata ?v ! h) = Some ol" using n(3) by (auto simp: producers_ok_def)
  have u: "\<exists>ebr. overlooker_update (int h) f (lebr q) = Some ebr \<and> seq_inv k m N n cs Ls (q\<lparr>lebr := ebr\<rparr>)" for f
  proof -
    let ?ebr = "lebr q\<lparr>overlookers := (overlookers (lebr q))(vdata ?v ! h \<mapsto> f ol)\<rparr>"
    have "seq_inv k m N n cs Ls (q\<lparr>lebr := ?ebr\<rparr>)"
      using n seq_inv_freelist [OF i] by (intro seq_inv_ebr [OF i]) (simp_all add: producers_ok_def)
    moreover have "overlooker_update (int h) f (lebr q) = Some ?ebr"
      using p(2) ol by (simp add: overlooker_update_def get_at_def)
    ultimately show ?thesis by blast
  qed
  show "\<exists>q'. ksiLCRQProducerEnter \<lparr>hnext = nx, olId = int h\<rparr> q = Some q' \<and> seq_inv k m N n cs Ls q'"
    using u [of "\<lambda>ol. ol\<lparr>oactive := True, oepoch := depoch (lebr q)\<rparr>"]
    by (auto simp: ksiLCRQProducerEnter_def on_ebr_def ksiDynamicEBROverlookerEnter_def)
  show "\<exists>q'. ksiLCRQProducerLeave \<lparr>hnext = nx, olId = int h\<rparr> q = Some q' \<and> seq_inv k m N n cs Ls q'"
    using u [of "\<lambda>ol. ol\<lparr>oactive := False\<rparr>"]
    by (auto simp: ksiLCRQProducerLeave_def on_ebr_def ksiDynamicEBROverlookerLeave_def)
qed

lemma overlooker_lags_total:
  "\<forall>x \<in> set l. overlookers ebr (snd x) \<noteq> None \<Longrightarrow> \<exists>b. overlooker_lags ebr l = Some b"
  by (induction l) auto

lemma producers_lag:
  assumes "producers_ok m ebr"
  shows "\<exists>b. overlooker_lags ebr (ksiVecIterate (dynamicOverlookers ebr)) = Some b"
proof (rule overlooker_lags_total, intro ballI)
  fix x assume "x \<in> set (ksiVecIterate (dynamicOverlookers ebr))"
  then have "vec_map (dynamicOverlookers ebr) (fst x) = Some (snd x)" unfolding ksiVecIterate_set by auto
  then show "overlookers ebr (snd x) \<noteq> None" using assms by (auto simp: producers_ok_def)
qed

lemma collect_one:
  assumes i: "seq_inv k m N n cs Ls q" and b: "i < n" "l < 3"
  shows "\<exists>M ebr. release_rings (freelist (dentries (lebr q) ! i) ! l) (rqs q) = Some M \<and>
    dentry_update i (\<lambda>ee. ee\<lparr>freelist := (freelist ee)[l := NULL]\<rparr>) (lebr q) = Some ebr \<and>
    seq_inv k m N n cs (Ls(i := (Ls i)(l := []))) (q\<lparr>lebr := ebr, rqs := M\<rparr>) \<and> depoch ebr = depoch (lebr q)"
proof -
  note i' = i[unfolded seq_inv_def]
  let ?L = "Ls i l" and ?Ls = "Ls(i := (Ls i)(l := []))" and ?es = "dentries (lebr q)"
  let ?M = "\<lambda>a. if a \<in> set ?L then None else rqs q a"
  let ?ebr = "lebr q\<lparr>dentries := ?es[i := (?es ! i)\<lparr>freelist := (freelist (?es ! i))[l := NULL]\<rparr>]\<rparr>"
  have n: "List.length ?es = n" using i' by blast
  have ee: "List.length (freelist (?es ! i)) = 3" "qlist (rqs q) (freelist (?es ! i) ! l) ?L"
    using seq_inv_entries [OF i] b by (auto simp: qentry_ok_def)
  have part: "mset ?L + (mset (map fst cs) + given_up n ?Ls) = mset_set (dom (rqs q))"
    using seq_inv_total [OF i] given_up_update [OF b, of Ls "[]"] by (simp add: ac_simps)
  have d: "distinct ?L" by (rule mset_set_distinct [OF part])
  have rel: "release_rings (freelist (?es ! i) ! l) (rqs q) = Some ?M" by (rule release_qlist [OF ee(2) d])
  have upd: "dentry_update i (\<lambda>ee. ee\<lparr>freelist := (freelist ee)[l := NULL]\<rparr>) (lebr q) = Some ?ebr"
    using b(1) n by (simp add: dentry_update_def get_at_def)
  have out: "a \<notin> set ?L" if "a \<in> fst ` set cs \<or> a \<in># given_up n ?Ls" for a
    using count_mset_set_le [OF part, of a] that by auto
  have ch: "rchain ?M k N cs NULL" using i' out by (subst rchain_cong [where M = "rqs q"]) auto
  have e: "qentry_ok ?M (dentries ?ebr ! j) (?Ls j)" if j: "j < n" for j
  proof -
    have "qentry_ok (rqs q) (?es ! j) (Ls j)" using seq_inv_entries [OF i] j by blast
    then have "qentry_ok (rqs q) (dentries ?ebr ! j) (?Ls j)" using j n b by (auto simp: qentry_ok_def nth_list_update)
    then show ?thesis by (rule qentry_cong) (use out j in \<open>auto simp: in_given_up simp del: fun_upd_apply\<close>)
  qed
  have dom: "dom ?M = dom (rqs q) - set ?L" by (auto split: if_splits)
  have "set ?L \<subseteq> dom (rqs q)" by (rule qlist_dom [OF ee(2)])
  moreover have "mset_set (set ?L) = mset ?L" using d by (rule mset_set_set)
  ultimately have "mset_set (dom (rqs q)) = mset ?L + mset_set (dom ?M)"
    using i' unfolding dom by (simp add: mset_set_Diff)
      (metis (no_types, lifting) add.commute finite_set mset_set_Diff subset_imp_msubset_mset_set subset_mset.diff_add)
  then have tot: "mset (map fst cs) + given_up n ?Ls = mset_set (dom ?M)" using part by (metis add_left_imp_eq)
  have "finite (dom ?M)" "\<forall>a \<in> dom ?M. a < lfresh q" unfolding dom using i' by auto
  moreover have "producers_ok m ?ebr" using i' by (simp add: producers_ok_def)
  moreover have "List.length (dentries ?ebr) = n" using n by simp
  ultimately have "seq_inv k m N n cs ?Ls (q\<lparr>lebr := ?ebr, rqs := ?M\<rparr>)"
    by (intro seq_invI) (use i' ch e tot in \<open>simp_all del: fun_upd_apply\<close>)
  then show ?thesis using rel upd by auto
qed

lemma collect_lists_ok:
  assumes "seq_inv k m N n cs Ls q" "i \<le> n" "l < 3"
  shows "\<exists>M ebr Ls'. collect_lists release_rings l i (lebr q) (rqs q) = Some (ebr, M) \<and>
    seq_inv k m N n cs Ls' (q\<lparr>lebr := ebr, rqs := M\<rparr>) \<and> depoch ebr = depoch (lebr q)"
  using assms(1,2)
proof (induction i arbitrary: q Ls)
  case 0
  then show ?case by (intro exI [of _ "rqs q"] exI [of _ "lebr q"] exI [of _ Ls]) simp
next
  case (Suc i)
  have i: "i < n" using Suc.prems(2) by simp
  obtain M ebr where s: "release_rings (freelist (dentries (lebr q) ! i) ! l) (rqs q) = Some M"
    "dentry_update i (\<lambda>ee. ee\<lparr>freelist := (freelist ee)[l := NULL]\<rparr>) (lebr q) = Some ebr"
    "seq_inv k m N n cs (Ls(i := (Ls i)(l := []))) (q\<lparr>lebr := ebr, rqs := M\<rparr>)" "depoch ebr = depoch (lebr q)"
    using collect_one [OF Suc.prems(1) i assms(3)] by blast
  have "i < List.length (dentries (lebr q))" "l < List.length (freelist (dentries (lebr q) ! i))"
    using Suc.prems(1) i assms(3) by (auto simp: seq_inv_def qentry_ok_def)
  then have "collect_lists release_rings l (Suc i) (lebr q) (rqs q) = collect_lists release_rings l i ebr M"
    using s(1,2) by (simp add: get_at_def)
  then show ?case using Suc.IH [OF s(3)] i s(4) by simp
qed

lemma lcrq_try_free_ok:
  assumes i: "seq_inv k m N n cs Ls q" and tid: "tid < n"
  shows "\<exists>c q' Ls'. ksiLCRQTryFree tid q = Some (c, q') \<and> seq_inv k m N n cs Ls' q'"
proof -
  have n: "List.length (dentries (lebr q)) = n" "depoch (lebr q) < 3" "producers_ok m (lebr q)" using i by (simp_all add: seq_inv_def)
  obtain b where b: "overlooker_lags (lebr q) (ksiVecIterate (dynamicOverlookers (lebr q))) = Some b"
    using producers_lag [OF n(3)] by blast
  have same: "q\<lparr>lebr := lebr q, rqs := rqs q\<rparr> = q" by simp
  show ?thesis
  proof (cases "lagging (lebr q) \<or> b")
    case True
    then have "ksiLCRQTryFree tid q = Some (- 1, q)" using b by (auto simp: ksiLCRQTryFree_def ksiDynamicEBRTryFree_def)
    then show ?thesis using i by blast
  next
    case False
    let ?e = "depoch (lebr q)"
    let ?q = "q\<lparr>lebr := (lebr q)\<lparr>depoch := (?e + 1) mod 3\<rparr>\<rparr>"
    have "seq_inv k m N n cs Ls ?q"
      using n seq_inv_freelist [OF i] by (intro seq_inv_ebr [OF i]) (simp_all add: producers_ok_def)
    then obtain M ebr Ls' where c: "collect_lists release_rings ((?e + 2) mod 3) n (lebr ?q) (rqs ?q) = Some (ebr, M)"
      "seq_inv k m N n cs Ls' (?q\<lparr>lebr := ebr, rqs := M\<rparr>)" "depoch ebr = (?e + 1) mod 3"
      using collect_lists_ok [of k m N n cs Ls ?q n "(?e + 2) mod 3"] by auto
    let ?q1 = "q\<lparr>lebr := ebr, rqs := M\<rparr>"
    have i1: "seq_inv k m N n cs Ls' ?q1" using c(2) by simp
    obtain ebr' where "dentry_update tid (\<lambda>ee. ee\<lparr>eepoch := (?e + 1) mod 3\<rparr>) ebr = Some ebr'" "seq_inv k m N n cs Ls' (?q1\<lparr>lebr := ebr'\<rparr>)"
      using seq_inv_entry [OF i1 tid, of "\<lambda>ee. ee\<lparr>eepoch := (?e + 1) mod 3\<rparr>"] by auto
    moreover from this(1) have "ksiLCRQTryFree tid q = Some (0, ?q1\<lparr>lebr := ebr'\<rparr>)"
      using False b c(1) n(1) by (simp add: ksiLCRQTryFree_def ksiDynamicEBRTryFree_def Let_def)
    ultimately show ?thesis by blast
  qed
qed

section \<open>A new queue with its producers\<close>

lemma seq_inv_init:
  assumes "k < 62"
  shows "seq_inv k 0 0 n [(1, 0, [])] (\<lambda>i k. []) (ksiLCRQInit (2 ^ k) n)"
proof (rule seq_invI)
  show "producers_ok 0 (lebr (ksiLCRQInit (2 ^ k) n))"
    by (simp add: producers_ok_def ksiLCRQInit_def ksiDynamicEBRCreate_def vec_wf_init) (simp add: ksiVecInit_def)
  show "\<forall>i<n. qentry_ok (rqs (ksiLCRQInit (2 ^ k) n)) (dentries (lebr (ksiLCRQInit (2 ^ k) n)) ! i) (\<lambda>k. [])"
    by (auto simp: qentry_ok_def ksiLCRQInit_def ksiDynamicEBRCreate_def ksiRingBufferEBREntryInit_def nth_replicate less_Suc_eq numeral_3_eq_3)
qed (use assms ring_at_init [OF assms] in \<open>simp_all add: ksiLCRQInit_def ksiDynamicEBRCreate_def given_up_def init_ring_def\<close>)

lemma register_ok:
  assumes i: "seq_inv k m N n cs Ls q" and m: "m < 2 ^ 28"
  shows "\<exists>q'. ksiLCRQProducerHandleInit q = Some (\<lparr>hnext = NULL, olId = int m\<rparr>, q') \<and> seq_inv k (Suc m) N n cs Ls q'"
proof -
  let ?v = "dynamicOverlookers (lebr q)" and ?o = "ofresh (lebr q)"
  have p: "producers_ok m (lebr q)" using i by (simp add: seq_inv_def)
  have v: "vec_wf ?v" "vcap ?v < 2 ^ 30" "?o \<noteq> NULL" "vfree ?v = []" "vsize ?v = int m" "vcap ?v \<le> max 16 (2 * int m)"
    using p m by (auto simp: producers_ok_def)
  obtain j v' where j: "ksiVecInsert ?v ?o = Some (j, v')" "vec_wf v'" "vec_map v' = (vec_map ?v)(j \<mapsto> ?o)"
    "j = (if vfree ?v = [] then vsize ?v else hd (vfree ?v))" "vcap v' \<le> max (vcap ?v) (2 * vsize v')" "vsize v' \<le> vsize ?v + 1"
    by (rule ksiVecInsert_spec [OF v(1-3)]) blast
  have jm: "j = int m" using j(4) v(4,5) by simp
  have "vec_map v' (int m) \<noteq> None" using j(3) jm by simp
  then have sz: "vsize v' = int (Suc m)" using j(6) v(5) by (auto simp: vec_map_def split: if_splits)
  have fr: "vfree v' = []" using j(1) v(4) by (auto simp: ksiVecInsert_def bind_eq_Some_conv ksiVecGrow_def split: if_splits)
  let ?ebr = "lebr q\<lparr>dynamicOverlookers := v', overlookers := (overlookers (lebr q))(?o \<mapsto> \<lparr>oactive = False, oepoch = depoch (lebr q)\<rparr>), ofresh := Suc ?o\<rparr>"
  have "producers_ok (Suc m) ?ebr"
    using p j sz fr v(5,6) by (auto simp: producers_ok_def)
  then have "seq_inv k (Suc m) N n cs Ls (q\<lparr>lebr := ?ebr\<rparr>)" using i by (simp add: seq_inv_def)
  moreover have "ksiLCRQProducerHandleInit q = Some (\<lparr>hnext = NULL, olId = int m\<rparr>, q\<lparr>lebr := ?ebr\<rparr>)"
    using j(1) jm by (simp add: ksiLCRQProducerHandleInit_def ksiDynamicEBROverlookerRegister_def Let_def)
  ultimately show ?thesis by blast
qed

section \<open>Destruction\<close>

lemma rchain_qlist: "rchain M k N cs NULL \<Longrightarrow> qlist M (nxt cs NULL) (map fst cs)"
  by (induction cs) auto

text \<open>The rings of the chain are released; those on the free lists stay.\<close>

lemma lcrq_destroy_ok:
  assumes i: "seq_inv k m N n cs Ls q"
  shows "\<exists>q'. ksiLCRQDestroy q = Some q' \<and> dom (rqs q') = set_mset (given_up n Ls)"
proof -
  note i' = i[unfolded seq_inv_def]
  let ?M = "\<lambda>a. if a \<in> set (map fst cs) then None else rqs q a"
  have r: "release_rings (lhead q) (rqs q) = Some ?M"
    using release_qlist [OF rchain_qlist seq_invD(1) [OF i], of "rqs q" k N] i' by simp
  have "dom (rqs q) = set_mset (mset (map fst cs) + given_up n Ls)"
    using i' by (metis finite_set_mset_mset_set)
  then have "dom (rqs q) = fst ` set cs \<union> set_mset (given_up n Ls)" by simp
  moreover have "fst ` set cs \<inter> set_mset (given_up n Ls) = {}" using seq_invD(2) [OF i] by blast
  moreover have "dom ?M = dom (rqs q) - set (map fst cs)" by (auto simp del: set_map split: if_splits)
  ultimately have "dom ?M = set_mset (given_up n Ls)" by auto
  then show ?thesis using r by (simp add: ksiLCRQDestroy_def)
qed

lemma given_up_empty:
  assumes i: "seq_inv k m N n cs Ls q"
  shows "given_up n Ls = {#} \<longleftrightarrow> (\<forall>ee \<in> set (dentries (lebr q)). \<forall>f \<in> set (freelist ee). f = NULL)"
proof -
  have n: "List.length (dentries (lebr q)) = n" using i by (simp add: seq_inv_def)
  have e: "qentry_ok (rqs q) (dentries (lebr q) ! i) (Ls i)" if "i < n" for i using seq_inv_entries [OF i] that by blast
  have L: "Ls i l = [] \<longleftrightarrow> freelist (dentries (lebr q) ! i) ! l = NULL" if "i < n" "l < 3" for i l
    using e [OF that(1)] that(2) by (cases "Ls i l") (auto simp: qentry_ok_def)
  have "given_up n Ls = {#} \<longleftrightarrow> (\<forall>i < n. \<forall>l < 3. Ls i l = [])"
  proof
    assume "given_up n Ls = {#}"
    then have "\<not> (\<exists>i < n. \<exists>l < 3. a \<in> set (Ls i l))" for a by (metis in_given_up empty_iff set_mset_empty)
    then show "\<forall>i < n. \<forall>l < 3. Ls i l = []" by (metis list.set_intros(1) neq_Nil_conv)
  qed (simp add: given_up_def)
  also have "\<dots> \<longleftrightarrow> (\<forall>i < n. \<forall>l < 3. freelist (dentries (lebr q) ! i) ! l = NULL)" using L by blast
  also have "\<dots> \<longleftrightarrow> (\<forall>i < n. \<forall>f \<in> set (freelist (dentries (lebr q) ! i)). f = NULL)"
  proof -
    have "(\<forall>l < 3. freelist (dentries (lebr q) ! i) ! l = NULL) \<longleftrightarrow> (\<forall>f \<in> set (freelist (dentries (lebr q) ! i)). f = NULL)"
      if "i < n" for i
    proof -
      have "List.length (freelist (dentries (lebr q) ! i)) = 3" using e [OF that] by (simp add: qentry_ok_def)
      then show ?thesis by (metis in_set_conv_nth)
    qed
    then show ?thesis by blast
  qed
  also have "\<dots> \<longleftrightarrow> (\<forall>ee \<in> set (dentries (lebr q)). \<forall>f \<in> set (freelist ee). f = NULL)"
    using n by (simp add: all_set_conv_all_nth)
  finally show ?thesis .
qed

end
