(* ===== verification/Lcrq_Queue.thy ===== *)
theory Lcrq_Queue
  imports Lcrq_Seq
begin

text \<open>
  The contract of the queue of seed tasks, what follows from it for any run of calls, and that the
  queue of rings keeps it as long as calls do not overlap.
\<close>

section \<open>A queue with registered producers\<close>

datatype 'a fifo_op = Append 'a | Remove nat | Begin nat | Finish nat | Announce nat | Withdraw nat | Reclaim nat

text \<open>Consumers are below \<open>n\<close>, producers below \<open>m\<close>.\<close>

fun fifo_op_ok :: "nat \<Rightarrow> nat \<Rightarrow> 'a fifo_op \<Rightarrow> bool" where
  "fifo_op_ok n m (Append x) \<longleftrightarrow> True"
| "fifo_op_ok n m (Remove tid) \<longleftrightarrow> tid < n"
| "fifo_op_ok n m (Begin tid) \<longleftrightarrow> tid < n"
| "fifo_op_ok n m (Finish tid) \<longleftrightarrow> tid < n"
| "fifo_op_ok n m (Announce h) \<longleftrightarrow> h < m"
| "fifo_op_ok n m (Withdraw h) \<longleftrightarrow> h < m"
| "fifo_op_ok n m (Reclaim tid) \<longleftrightarrow> tid < n"

fun fifo_spec :: "'a fifo_op list \<Rightarrow> 'a list \<Rightarrow> 'a option list \<times> 'a list" where
  "fifo_spec [] xs = ([], xs)"
| "fifo_spec (Append x # ops) xs = fifo_spec ops (xs @ [x])"
| "fifo_spec (Remove tid # ops) xs =
     (let (rs, ys) = fifo_spec ops (tl xs) in ((if xs = [] then None else Some (hd xs)) # rs, ys))"
| "fifo_spec (op # ops) xs = fifo_spec ops xs"

locale fifo =
  fixes rep :: "nat \<Rightarrow> nat \<Rightarrow> nat \<Rightarrow> 'q \<Rightarrow> 'a list \<Rightarrow> bool"
    and room :: "nat \<Rightarrow> bool"
    and enq :: "'a \<Rightarrow> 'q \<Rightarrow> 'q option"
    and deq :: "nat \<Rightarrow> 'q \<Rightarrow> ('a option \<times> 'q) option"
    and enter :: "nat \<Rightarrow> 'q \<Rightarrow> 'q option"
    and leave :: "nat \<Rightarrow> 'q \<Rightarrow> 'q option"
    and penter :: "nat \<Rightarrow> 'q \<Rightarrow> 'q option"
    and pleave :: "nat \<Rightarrow> 'q \<Rightarrow> 'q option"
    and collect :: "nat \<Rightarrow> 'q \<Rightarrow> (int \<times> 'q) option"
  assumes enq: "rep N n m q xs \<Longrightarrow> room N \<Longrightarrow> \<exists>q'. enq x q = Some q' \<and> rep (Suc N) n m q' (xs @ [x])"
    and deq: "rep N n m q xs \<Longrightarrow> tid < n \<Longrightarrow> room N \<Longrightarrow>
      \<exists>q'. deq tid q = Some (if xs = [] then None else Some (hd xs), q') \<and> rep (Suc N) n m q' (tl xs)"
    and enter: "rep N n m q xs \<Longrightarrow> tid < n \<Longrightarrow> \<exists>q'. enter tid q = Some q' \<and> rep N n m q' xs"
    and leave: "rep N n m q xs \<Longrightarrow> tid < n \<Longrightarrow> \<exists>q'. leave tid q = Some q' \<and> rep N n m q' xs"
    and penter: "rep N n m q xs \<Longrightarrow> h < m \<Longrightarrow> \<exists>q'. penter h q = Some q' \<and> rep N n m q' xs"
    and pleave: "rep N n m q xs \<Longrightarrow> h < m \<Longrightarrow> \<exists>q'. pleave h q = Some q' \<and> rep N n m q' xs"
    and collect: "rep N n m q xs \<Longrightarrow> tid < n \<Longrightarrow> \<exists>c q'. collect tid q = Some (c, q') \<and> rep N n m q' xs"
    and room: "N \<le> M \<Longrightarrow> room M \<Longrightarrow> room N"
    and mono: "rep N n m q xs \<Longrightarrow> N \<le> M \<Longrightarrow> rep M n m q xs"
begin

fun run :: "'a fifo_op list \<Rightarrow> 'q \<Rightarrow> ('a option list \<times> 'q) option" where
  "run [] q = Some ([], q)"
| "run (Append x # ops) q = do { q \<leftarrow> enq x q; run ops q }"
| "run (Remove tid # ops) q = do { (r, q) \<leftarrow> deq tid q; (rs, q) \<leftarrow> run ops q; Some (r # rs, q) }"
| "run (Begin tid # ops) q = do { q \<leftarrow> enter tid q; run ops q }"
| "run (Finish tid # ops) q = do { q \<leftarrow> leave tid q; run ops q }"
| "run (Announce h # ops) q = do { q \<leftarrow> penter h q; run ops q }"
| "run (Withdraw h # ops) q = do { q \<leftarrow> pleave h q; run ops q }"
| "run (Reclaim tid # ops) q = do { (c, q) \<leftarrow> collect tid q; run ops q }"

lemma run_spec:
  assumes "rep N n m q xs" "\<forall>op \<in> set ops. fifo_op_ok n m op" "room (N + List.length ops)"
  shows "\<exists>q'. run ops q = Some (fst (fifo_spec ops xs), q') \<and> rep (N + List.length ops) n m q' (snd (fifo_spec ops xs))"
  using assms
proof (induction ops arbitrary: N q xs)
  case (Cons op ops)
  have ok: "fifo_op_ok n m op" and ops: "\<forall>op \<in> set ops. fifo_op_ok n m op" using Cons.prems(2) by simp_all
  have N: "room N" "room (Suc N + List.length ops)"
    using room [of N "N + List.length (op # ops)"] Cons.prems(3) by simp_all
  note rep = Cons.prems(1)
  have rep': "rep (Suc N) n m q' ys" if "rep N n m q' ys" for q' ys by (rule mono [OF that]) simp
  have IH: "\<exists>q''. run ops q' = Some (fst (fifo_spec ops ys), q'') \<and> rep (N + List.length (op # ops)) n m q'' (snd (fifo_spec ops ys))"
    if "rep (Suc N) n m q' ys" for q' ys
    using Cons.IH [OF that ops N(2)] by simp
  show ?case
  proof (cases op)
    case (Append x)
    then show ?thesis using enq [OF rep N(1), of x] IH by fastforce
  next
    case (Remove tid)
    then obtain q' where q': "deq tid q = Some (if xs = [] then None else Some (hd xs), q')" "rep (Suc N) n m q' (tl xs)"
      using deq [OF rep _ N(1), of tid] ok by auto
    then show ?thesis using IH [OF q'(2)] Remove by (auto simp: case_prod_beta)
  next
    case (Begin tid)
    then show ?thesis using enter [OF rep, of tid] ok IH [OF rep'] by fastforce
  next
    case (Finish tid)
    then show ?thesis using leave [OF rep, of tid] ok IH [OF rep'] by fastforce
  next
    case (Announce h)
    then show ?thesis using penter [OF rep, of h] ok IH [OF rep'] by fastforce
  next
    case (Withdraw h)
    then show ?thesis using pleave [OF rep, of h] ok IH [OF rep'] by fastforce
  next
    case (Reclaim tid)
    then show ?thesis using collect [OF rep, of tid] ok IH [OF rep'] by fastforce
  qed
qed auto

end

section \<open>The queue of rings keeps it\<close>

definition seed_rep :: "nat \<Rightarrow> nat \<Rightarrow> nat \<Rightarrow> nat \<Rightarrow> lcrq \<Rightarrow> ptr list \<Rightarrow> bool" where
  "seed_rep k N n m q xs \<longleftrightarrow> (\<exists>cs Ls. seq_inv k m N n cs Ls q \<and> tasks_of cs = xs)"

definition seed_room :: "nat \<Rightarrow> nat \<Rightarrow> bool" where
  "seed_room k N \<longleftrightarrow> N + 2 ^ k + 1 < 2 ^ 63"

definition handle :: "nat \<Rightarrow> producer_handle" where
  "handle h = \<lparr>hnext = NULL, olId = int h\<rparr>"

lemma seed_repI: "seq_inv k m N n cs Ls q \<Longrightarrow> tasks_of cs = xs \<Longrightarrow> seed_rep k N n m q xs"
  by (auto simp: seed_rep_def)

interpretation seeds: fifo "seed_rep k" "seed_room k" ksiLCRQEnqueue ksiLCRQDequeue ksiLCRQConsumerEnter ksiLCRQConsumerLeave
  "\<lambda>h. ksiLCRQProducerEnter (handle h)" "\<lambda>h. ksiLCRQProducerLeave (handle h)" ksiLCRQTryFree for k
proof
  fix N M n m q xs tid h and x :: ptr
  show "seed_room k N" if "N \<le> M" "seed_room k M" using that by (simp add: seed_room_def)
  assume r: "seed_rep k N n m q xs"
  then obtain cs Ls where i: "seq_inv k m N n cs Ls q" "tasks_of cs = xs" by (auto simp: seed_rep_def)
  show "seed_rep k M n m q xs" if "N \<le> M" using seq_inv_mono [OF i(1) that] i(2) by (rule seed_repI)
  show "\<exists>q'. ksiLCRQEnqueue x q = Some q' \<and> seed_rep k (Suc N) n m q' (xs @ [x])" if "seed_room k N"
    using enqueue_ok [OF i(1), of x] that i(2) by (auto simp: seed_room_def intro: seed_repI)
  show "\<exists>q'. ksiLCRQDequeue tid q = Some (if xs = [] then None else Some (hd xs), q') \<and> seed_rep k (Suc N) n m q' (tl xs)"
    if "tid < n" "seed_room k N"
  proof -
    have "tid < n" "N + 2 ^ k + 1 < 2 ^ 63" using that by (simp_all add: seed_room_def)
    then obtain q' cs' Ls' where d: "ksiLCRQDequeue tid q = Some (if tasks_of cs = [] then None else Some (hd (tasks_of cs)), q')"
      "seq_inv k m (Suc N) n cs' Ls' q'" "tasks_of cs' = tl (tasks_of cs)"
      using dequeue_ok [OF i(1)] by blast
    then have "seed_rep k (Suc N) n m q' (tl xs)" using i(2) by (auto intro: seed_repI)
    then show ?thesis using d(1) i(2) by blast
  qed
  show "\<exists>q'. ksiLCRQConsumerEnter tid q = Some q' \<and> seed_rep k N n m q' xs" if "tid < n"
    using consumer_ok(1) [OF i(1) that] i(2) by (auto intro: seed_repI)
  show "\<exists>q'. ksiLCRQConsumerLeave tid q = Some q' \<and> seed_rep k N n m q' xs" if "tid < n"
    using consumer_ok(2) [OF i(1) that] i(2) by (auto intro: seed_repI)
  show "\<exists>q'. ksiLCRQProducerEnter (handle h) q = Some q' \<and> seed_rep k N n m q' xs" if "h < m"
    using producer_ok(1) [OF i(1) that, of NULL] i(2) by (auto simp: handle_def intro: seed_repI)
  show "\<exists>q'. ksiLCRQProducerLeave (handle h) q = Some q' \<and> seed_rep k N n m q' xs" if "h < m"
    using producer_ok(2) [OF i(1) that, of NULL] i(2) by (auto simp: handle_def intro: seed_repI)
  show "\<exists>c q'. ksiLCRQTryFree tid q = Some (c, q') \<and> seed_rep k N n m q' xs" if "tid < n"
    using lcrq_try_free_ok [OF i(1) that] i(2) by (blast intro: seed_repI)
qed

text \<open>A new queue on which \<open>m\<close> producers have registered.\<close>

fun with_producers :: "nat \<Rightarrow> lcrq \<Rightarrow> lcrq option" where
  "with_producers 0 q = Some q"
| "with_producers (Suc m) q = do { q \<leftarrow> with_producers m q; (h, q) \<leftarrow> ksiLCRQProducerHandleInit q; need (h = handle m); Some q }"

lemma seed_rep_new:
  assumes "k < 62" "m \<le> 2 ^ 28"
  shows "\<exists>q. with_producers m (ksiLCRQInit (2 ^ k) n) = Some q \<and> seed_rep k 0 n m q []"
  using assms(2)
proof (induction m)
  case 0
  then show ?case using seed_repI [OF seq_inv_init [OF assms(1)]] by simp
next
  case (Suc m)
  then obtain q where q: "with_producers m (ksiLCRQInit (2 ^ k) n) = Some q" "seed_rep k 0 n m q []" by auto
  then obtain cs Ls where i: "seq_inv k m 0 n cs Ls q" "tasks_of cs = []" by (auto simp: seed_rep_def)
  obtain q' where "ksiLCRQProducerHandleInit q = Some (handle m, q')" "seq_inv k (Suc m) 0 n cs Ls q'"
    using register_ok [OF i(1)] Suc.prems by (auto simp: handle_def)
  then show ?case using q(1) i(2) by (auto intro: seed_repI)
qed

text \<open>The run of \<open>fifo\<close> on the queue of rings.\<close>

fun seed_run :: "ptr fifo_op list \<Rightarrow> lcrq \<Rightarrow> (ptr option list \<times> lcrq) option" where
  "seed_run [] q = Some ([], q)"
| "seed_run (Append x # ops) q = do { q \<leftarrow> ksiLCRQEnqueue x q; seed_run ops q }"
| "seed_run (Remove tid # ops) q = do { (r, q) \<leftarrow> ksiLCRQDequeue tid q; (rs, q) \<leftarrow> seed_run ops q; Some (r # rs, q) }"
| "seed_run (Begin tid # ops) q = do { q \<leftarrow> ksiLCRQConsumerEnter tid q; seed_run ops q }"
| "seed_run (Finish tid # ops) q = do { q \<leftarrow> ksiLCRQConsumerLeave tid q; seed_run ops q }"
| "seed_run (Announce h # ops) q = do { q \<leftarrow> ksiLCRQProducerEnter (handle h) q; seed_run ops q }"
| "seed_run (Withdraw h # ops) q = do { q \<leftarrow> ksiLCRQProducerLeave (handle h) q; seed_run ops q }"
| "seed_run (Reclaim tid # ops) q = do { (c, q) \<leftarrow> ksiLCRQTryFree tid q; seed_run ops q }"

lemma seed_run_eq: "seed_run ops q = seeds.run ops q"
proof (induction ops arbitrary: q)
  case (Cons op ops)
  then have "seed_run ops = seeds.run ops" by (intro ext)
  then show ?case by (cases op) simp_all
qed simp

section \<open>Properties\<close>

text \<open>C36: As long as calls do not overlap the queue of the seed tasks is a first-in first-out queue of any
  length, whatever the size of its rings, the producers registered and the consumers and collections in
  between: no call faults, so no released ring is read, every loop ends, and Dequeue says the queue is empty
  only when it is.\<close>

theorem lcrq_refines_fifo:
  assumes "k < 62" "m \<le> 2 ^ 28" "\<forall>op \<in> set ops. fifo_op_ok n m op" "List.length ops + 2 ^ k + 1 < 2 ^ 63"
  shows "\<exists>q q'. with_producers m (ksiLCRQInit (2 ^ k) n) = Some q \<and>
    seed_run ops q = Some (fst (fifo_spec ops []), q')"
proof -
  obtain q where q: "with_producers m (ksiLCRQInit (2 ^ k) n) = Some q" "seed_rep k 0 n m q []"
    using seed_rep_new [OF assms(1,2)] by blast
  have "seed_room k (0 + List.length ops)" using assms(4) by (simp add: seed_room_def)
  then show ?thesis using seeds.run_spec [OF q(2) assms(3)] q(1) by (auto simp: seed_run_eq)
qed

theorem lcrq_refines_fifo_witness:
  "\<exists>q q'. with_producers 1 (ksiLCRQInit (2 ^ 1) 2) = Some q \<and>
    seed_run [Announce 0, Append 5, Append 6, Append 7, Withdraw 0, Begin 1, Remove 1, Remove 1, Remove 1, Remove 1, Finish 1, Reclaim 0] q =
      Some ([Some 5, Some 6, Some 7, None], q')"
  using lcrq_refines_fifo [of 1 1 "[Announce 0, Append 5, Append 6, Append 7, Withdraw 0, Begin 1, Remove 1, Remove 1, Remove 1, Remove 1, Finish 1, Reclaim 0]" 2]
  by simp

end
