(* ===== verification/Ring_Queue.thy ===== *)
theory Ring_Queue
  imports Ring_Rep
begin

text \<open>
  The contract of a worker's queue, what follows from it for any run of calls, and that the ring
  buffers keep it as long as calls do not overlap. Then what happens when they do.
\<close>

section \<open>A double-ended queue shared by several processes\<close>

datatype 'a deque_op = Push nat 'a | Pop nat | Take nat | Enter nat | Leave nat | Collect nat

fun op_tid :: "'a deque_op \<Rightarrow> nat" where
  "op_tid (Push tid x) = tid"
| "op_tid (Pop tid) = tid"
| "op_tid (Take tid) = tid"
| "op_tid (Enter tid) = tid"
| "op_tid (Leave tid) = tid"
| "op_tid (Collect tid) = tid"

text \<open>On a list: the answers to the pops and takes, and what is left.\<close>

fun deque_spec :: "'a deque_op list \<Rightarrow> 'a list \<Rightarrow> 'a option list \<times> 'a list" where
  "deque_spec [] xs = ([], xs)"
| "deque_spec (Push tid x # ops) xs = deque_spec ops (xs @ [x])"
| "deque_spec (Pop tid # ops) xs =
     (let (rs, ys) = deque_spec ops (butlast xs) in ((if xs = [] then None else Some (last xs)) # rs, ys))"
| "deque_spec (Take tid # ops) xs =
     (let (rs, ys) = deque_spec ops (tl xs) in ((if xs = [] then None else Some (hd xs)) # rs, ys))"
| "deque_spec (op # ops) xs = deque_spec ops xs"

locale deque =
  fixes rep :: "nat \<Rightarrow> nat \<Rightarrow> 'q \<Rightarrow> 'a list \<Rightarrow> bool"
    and push :: "nat \<Rightarrow> 'a \<Rightarrow> 'q \<Rightarrow> 'q option"
    and pop :: "nat \<Rightarrow> 'q \<Rightarrow> ('a option \<times> 'q) option"
    and take' :: "nat \<Rightarrow> 'q \<Rightarrow> ('a option \<times> 'q) option"
    and enter :: "nat \<Rightarrow> 'q \<Rightarrow> 'q option"
    and leave :: "nat \<Rightarrow> 'q \<Rightarrow> 'q option"
    and collect :: "nat \<Rightarrow> 'q \<Rightarrow> (int \<times> 'q) option"
  assumes push: "rep N n q xs \<Longrightarrow> tid < n \<Longrightarrow> Suc N < 2 ^ 63 \<Longrightarrow>
      \<exists>q'. push tid x q = Some q' \<and> rep (Suc N) n q' (xs @ [x])"
    and pop: "rep N n q xs \<Longrightarrow> tid < n \<Longrightarrow> N < 2 ^ 63 \<Longrightarrow>
      \<exists>q'. pop tid q = Some (if xs = [] then None else Some (last xs), q') \<and> rep N n q' (butlast xs)"
    and take: "rep N n q xs \<Longrightarrow> tid < n \<Longrightarrow> N < 2 ^ 63 \<Longrightarrow>
      \<exists>q'. take' tid q = Some (if xs = [] then None else Some (hd xs), q') \<and> rep N n q' (tl xs)"
    and enter: "rep N n q xs \<Longrightarrow> tid < n \<Longrightarrow> \<exists>q'. enter tid q = Some q' \<and> rep N n q' xs"
    and leave: "rep N n q xs \<Longrightarrow> tid < n \<Longrightarrow> \<exists>q'. leave tid q = Some q' \<and> rep N n q' xs"
    and collect: "rep N n q xs \<Longrightarrow> tid < n \<Longrightarrow> \<exists>c q'. collect tid q = Some (c, q') \<and> rep N n q' xs"
begin

fun run :: "'a deque_op list \<Rightarrow> 'q \<Rightarrow> ('a option list \<times> 'q) option" where
  "run [] q = Some ([], q)"
| "run (Push tid x # ops) q = do { q \<leftarrow> push tid x q; run ops q }"
| "run (Pop tid # ops) q = do { (r, q) \<leftarrow> pop tid q; (rs, q) \<leftarrow> run ops q; Some (r # rs, q) }"
| "run (Take tid # ops) q = do { (r, q) \<leftarrow> take' tid q; (rs, q) \<leftarrow> run ops q; Some (r # rs, q) }"
| "run (Enter tid # ops) q = do { q \<leftarrow> enter tid q; run ops q }"
| "run (Leave tid # ops) q = do { q \<leftarrow> leave tid q; run ops q }"
| "run (Collect tid # ops) q = do { (c, q) \<leftarrow> collect tid q; run ops q }"

lemma run_spec:
  assumes "rep N n q xs" "\<forall>op \<in> set ops. op_tid op < n" "N + List.length ops < 2 ^ 63"
  shows "\<exists>q' M. run ops q = Some (fst (deque_spec ops xs), q') \<and> rep M n q' (snd (deque_spec ops xs)) \<and> M < 2 ^ 63"
  using assms
proof (induction ops arbitrary: N q xs)
  case (Cons op ops)
  have tid: "op_tid op < n" and ops: "\<forall>op \<in> set ops. op_tid op < n" using Cons.prems(2) by simp_all
  have N: "Suc N < 2 ^ 63 - List.length ops \<or> ops = []" "Suc N + List.length ops < 2 ^ 63" "N + List.length ops < 2 ^ 63" "Suc N < 2 ^ 63" "N < 2 ^ 63"
    using Cons.prems(3) by auto
  show ?case
  proof (cases op)
    case (Push tid x)
    obtain q' where q': "push tid x q = Some q'" "rep (Suc N) n q' (xs @ [x])"
      using push [OF Cons.prems(1) _ N(4), of tid x] tid Push by auto
    then show ?thesis using Cons.IH [OF q'(2) ops N(2)] Push by simp
  next
    case (Pop tid)
    obtain q' where q': "pop tid q = Some (if xs = [] then None else Some (last xs), q')" "rep N n q' (butlast xs)"
      using pop [OF Cons.prems(1) _ N(5), of tid] tid Pop by auto
    then show ?thesis using Cons.IH [OF q'(2) ops N(3)] Pop by (auto simp: case_prod_beta)
  next
    case (Take tid)
    obtain q' where q': "take' tid q = Some (if xs = [] then None else Some (hd xs), q')" "rep N n q' (tl xs)"
      using take [OF Cons.prems(1) _ N(5), of tid] tid Take by auto
    then show ?thesis using Cons.IH [OF q'(2) ops N(3)] Take by (auto simp: case_prod_beta)
  next
    case (Enter tid)
    then show ?thesis using enter [OF Cons.prems(1), of tid] tid Cons.IH [OF _ ops N(3)] by fastforce
  next
    case (Leave tid)
    then show ?thesis using leave [OF Cons.prems(1), of tid] tid Cons.IH [OF _ ops N(3)] by fastforce
  next
    case (Collect tid)
    then show ?thesis using collect [OF Cons.prems(1), of tid] tid Cons.IH [OF _ ops N(3)] by fastforce
  qed
qed (auto intro: exI)

end

section \<open>Ring buffers keep the contract\<close>

definition ring_rep :: "nat \<Rightarrow> nat \<Rightarrow> ring \<Rightarrow> ptr list \<Rightarrow> bool" where
  "ring_rep N n rb xs \<longleftrightarrow> (\<exists>ps Ls. ring_inv N n ps Ls rb \<and> content ps = xs)"

lemma ring_repI: "ring_inv N n ps Ls rb \<Longrightarrow> content ps = xs \<Longrightarrow> ring_rep N n rb xs"
  by (auto simp: ring_rep_def)

interpretation rings: deque ring_rep ksiRingBufferPush ksiRingBufferPop ksiRingBufferTake
  ksiRingBufferConsumerEnter ksiRingBufferConsumerLeave ksiRingBufferTryFree
proof
  fix N n rb xs tid and x :: ptr
  assume r: "ring_rep N n rb xs" and tid: "tid < n"
  then obtain ps Ls where i: "ring_inv N n ps Ls rb" "content ps = xs" by (auto simp: ring_rep_def)
  show "\<exists>q'. ksiRingBufferPush tid x rb = Some q' \<and> ring_rep (Suc N) n q' (xs @ [x])" if "Suc N < 2 ^ 63"
    using push_ok [OF i(1) tid that, of x] i(2) by (auto intro: ring_repI)
  show "\<exists>q'. ksiRingBufferPop tid rb = Some (if xs = [] then None else Some (last xs), q') \<and> ring_rep N n q' (butlast xs)"
    if "N < 2 ^ 63"
    using pop_ok [OF i(1) tid that] i(2) by (cases "xs = []") (auto intro: ring_repI)
  show "\<exists>q'. ksiRingBufferTake tid rb = Some (if xs = [] then None else Some (hd xs), q') \<and> ring_rep N n q' (tl xs)"
    if "N < 2 ^ 63"
    using take_ok [OF i(1) tid that] i(2) by (cases xs) (auto intro: ring_repI)
  show "\<exists>q'. ksiRingBufferConsumerEnter tid rb = Some q' \<and> ring_rep N n q' xs"
    using enter_ok [OF i(1) tid] i(2) by (auto intro: ring_repI)
  show "\<exists>q'. ksiRingBufferConsumerLeave tid rb = Some q' \<and> ring_rep N n q' xs"
    using leave_ok [OF i(1) tid] i(2) by (auto intro: ring_repI)
  show "\<exists>c q'. ksiRingBufferTryFree tid rb = Some (c, q') \<and> ring_rep N n q' xs"
    using try_free_ok [OF i(1) tid] i(2) by (blast intro: ring_repI)
qed

lemma ring_rep_init: "ring_rep 0 n (ksiRingBufferInit n) []"
proof -
  let ?s = "\<lparr>sprev = NULL, cells = Map.empty, head_idx = 0, tail_idx = 0, snext = NULL\<rparr>"
  have "seg_rep 0 ?s []" by (simp add: seg_rep_def)
  moreover have "given_up n (\<lambda>i k. []) = {#}" by (simp add: given_up_def)
  ultimately have "ring_inv 0 n [(1, [])] (\<lambda>i k. []) (ksiRingBufferInit n)"
    by (auto simp: ring_inv_def ksiRingBufferInit_def entry_ok_def ksiRingBufferEBREntryInit_def numeral_3_eq_3 less_Suc_eq)
  then show ?thesis by (rule ring_repI) (simp add: content_def)
qed

text \<open>The run of \<open>deque\<close> on ring buffers.\<close>

fun ring_run :: "ptr deque_op list \<Rightarrow> ring \<Rightarrow> (ptr option list \<times> ring) option" where
  "ring_run [] q = Some ([], q)"
| "ring_run (Push tid x # ops) q = do { q \<leftarrow> ksiRingBufferPush tid x q; ring_run ops q }"
| "ring_run (Pop tid # ops) q = do { (r, q) \<leftarrow> ksiRingBufferPop tid q; (rs, q) \<leftarrow> ring_run ops q; Some (r # rs, q) }"
| "ring_run (Take tid # ops) q = do { (r, q) \<leftarrow> ksiRingBufferTake tid q; (rs, q) \<leftarrow> ring_run ops q; Some (r # rs, q) }"
| "ring_run (Enter tid # ops) q = do { q \<leftarrow> ksiRingBufferConsumerEnter tid q; ring_run ops q }"
| "ring_run (Leave tid # ops) q = do { q \<leftarrow> ksiRingBufferConsumerLeave tid q; ring_run ops q }"
| "ring_run (Collect tid # ops) q = do { (c, q) \<leftarrow> ksiRingBufferTryFree tid q; ring_run ops q }"

lemma ring_run_eq: "ring_run ops q = rings.run ops q"
proof (induction ops arbitrary: q)
  case (Cons op ops)
  then have "ring_run ops = rings.run ops" by (intro ext)
  then show ?case by (cases op) simp_all
qed simp

lemma ring_run_spec:
  assumes "\<forall>op \<in> set ops. op_tid op < n" "List.length ops < 2 ^ 63"
  shows "\<exists>q' M. ring_run ops (ksiRingBufferInit n) = Some (fst (deque_spec ops []), q') \<and>
    ring_rep M n q' (snd (deque_spec ops [])) \<and> M < 2 ^ 63"
  unfolding ring_run_eq using rings.run_spec [OF ring_rep_init assms(1)] assms(2) by simp

section \<open>Properties\<close>

text \<open>C33: Calls on a ring buffer that do not overlap behave as on a double-ended queue: pushes at one end,
  pops from the same end, takes from the other, whatever the process, with segments and epochs
  changing underneath. None faults, so no released segment and no cell before its first write is
  ever read, and every loop ends.\<close>

theorem ring_refines_deque:
  assumes "\<forall>op \<in> set ops. op_tid op < n" "List.length ops < 2 ^ 63"
  shows "\<exists>q. ring_run ops (ksiRingBufferInit n) = Some (fst (deque_spec ops []), q)"
  using ring_run_spec [OF assms] by blast

theorem ring_refines_deque_witness:
  "\<exists>q. ring_run [Push 0 5, Push 0 6, Push 0 7, Enter 1, Take 1, Leave 1, Pop 0, Collect 1, Pop 0, Pop 0] (ksiRingBufferInit 2) =
     Some ([Some 5, Some 7, Some 6, None], q)"
proof -
  let ?ops = "[Push 0 5, Push 0 6, Push 0 7, Enter 1, Take 1, Leave 1, Pop 0, Collect 1, Pop 0, Pop 0] :: ptr deque_op list"
  have "fst (deque_spec ?ops []) = [Some 5, Some 7, Some 6, None]" by simp
  then show ?thesis using ring_refines_deque [of ?ops 2] by simp
qed

lemma chain_one: "chain H N NULL ps NULL \<Longrightarrow> ps \<noteq> [] \<Longrightarrow> distinct (map fst ps) \<Longrightarrow>
  first ps NULL = last_of NULL ps \<longleftrightarrow> tl ps = []"
  by (cases ps; cases "tl ps" rule: rev_cases) (auto simp: last_of_def)

text \<open>After such a run, destroying the buffer releases nothing twice, and releases everything exactly when
  the queue is within one segment; otherwise the segments after the first are never released.\<close>

theorem ring_destroy_releases:
  assumes "\<forall>op \<in> set ops. op_tid op < n" "List.length ops < 2 ^ 63" "ring_run ops (ksiRingBufferInit n) = Some (rs, q)"
  shows "\<exists>q'. ksiRingBufferDestroy q = Some q' \<and> (dom (segs q') = {} \<longleftrightarrow> rhead q = rtail q)"
proof -
  obtain M ps Ls where i: "ring_inv M n ps Ls q" using ring_run_spec [OF assms(1,2)] assms(3) by (auto simp: ring_rep_def)
  obtain q' where q': "ksiRingBufferDestroy q = Some q'" "dom (segs q') = fst ` set (tl ps)" using destroy_ok [OF i] by blast
  have "rtail q = rhead q \<longleftrightarrow> tl ps = []"
    using chain_one [of "segs q" M ps] i ring_invD(1) [OF i] by (simp add: ring_inv_def)
  then show ?thesis using q' by auto
qed

theorem ring_destroy_releases_witness:
  "\<exists>rs q q'. ring_run [Push 0 5, Push 0 6, Take 1] (ksiRingBufferInit 2) = Some (rs, q) \<and> ksiRingBufferDestroy q = Some q' \<and> dom (segs q') = {}"
proof -
  let ?ops = "[Push 0 5, Push 0 6, Take 1] :: ptr deque_op list"
  have "map_option (\<lambda>(rs, q). rhead q = rtail q) (ring_run ?ops (ksiRingBufferInit 2)) = Some True" by code_simp
  then obtain rs q where r: "ring_run ?ops (ksiRingBufferInit 2) = Some (rs, q)" "rhead q = rtail q" by auto
  obtain q' where "ksiRingBufferDestroy q = Some q' \<and> (dom (segs q') = {} \<longleftrightarrow> rhead q = rtail q)"
    using ring_destroy_releases [OF _ _ r(1)] by auto
  with r show ?thesis by blast
qed

text \<open>A pop that overlaps two takes hands out a task twice and loses another: the owner reads
  \<open>tail_idx\<close> before it stores \<open>head_idx\<close>, so of two tasks both are taken in between and the
  owner gets the second one again; the task it pushes next is not seen by any take or pop.\<close>

theorem pop_overlapping_takes:
  "do { (_, q) \<leftarrow> ring_run [Push 2 5, Push 2 6] (ksiRingBufferInit 3);
        (p, ts, q) \<leftarrow> ring_steps 2 (replicate 3 PopStep @ replicate 5 (TakeStep 0) @ replicate 5 (TakeStep 1) @ replicate 2 PopStep)
          (PStart, [TStart, TStart], q);
        (rs, _) \<leftarrow> ring_run [Push 2 7, Take 0, Pop 2] q;
        Some (p, ts, rs) } =
   Some (PDone (Some 6), [TDone (Some 5), TDone (Some 6)], [None, None])"
  by code_simp

text \<open>The state after 257 pushes and 256 takes: an exhausted segment and a new one.\<close>

definition ex_two_segments :: ring where
  "ex_two_segments = \<lparr>rhead = 2, rtail = 1, repoch = 0, ebrEntries = replicate 3 ksiRingBufferEBREntryInit,
     segs = [1 \<mapsto> \<lparr>sprev = NULL, cells = (\<lambda>i. Some (unat i + 1)), head_idx = 256, tail_idx = 256, snext = 2\<rparr>,
       2 \<mapsto> \<lparr>sprev = 1, cells = [0 \<mapsto> 257], head_idx = 1, tail_idx = 0, snext = NULL\<rparr>], sfresh = 3\<rparr>"

lemma ex_two_segments_rep: "ring_rep 257 3 ex_two_segments [257]"
proof -
  have "seg_rep 257 \<lparr>sprev = NULL, cells = (\<lambda>i. Some (unat i + 1)), head_idx = 256, tail_idx = 256, snext = 2\<rparr> []"
    unfolding seg_rep_def by (rule exI [of _ 256]) simp
  moreover have "seg_rep 257 \<lparr>sprev = 1, cells = [0 \<mapsto> 257], head_idx = 1, tail_idx = 0, snext = NULL\<rparr> [257]"
    unfolding seg_rep_def by (rule exI [of _ 0]) (simp add: cell_def)
  moreover have "given_up 3 (\<lambda>i k. []) = {#}" by (simp add: given_up_def)
  moreover have "dom (segs ex_two_segments) = {1, 2}" by (auto simp: ex_two_segments_def)
  ultimately have "ring_inv 257 3 [(1, []), (2, [257])] (\<lambda>i k. []) ex_two_segments"
    by (auto simp: ring_inv_def entry_ok_def ksiRingBufferEBREntryInit_def numeral_3_eq_3 less_Suc_eq)
      (auto simp: ex_two_segments_def last_of_def ksiRingBufferEBREntryInit_def numeral_3_eq_3 less_Suc_eq)
  then show ?thesis by (rule ring_repI) (simp add: content_def)
qed

text \<open>The epochs do not protect a take: the taker has entered its own buffer, not the one it takes from, so
  the collector can release the segment between the taker's reads.\<close>

theorem take_reads_released_segment:
  "ring_rep 257 3 ex_two_segments [257] \<and>
   ring_steps 2 ([TakeStep 0] @ replicate 7 (TakeStep 1) @ [Gc 2, Gc 2]) (PStart, [TStart, TStart], ex_two_segments) \<noteq> None \<and>
   ring_steps 2 ([TakeStep 0] @ replicate 7 (TakeStep 1) @ [Gc 2, Gc 2, TakeStep 0]) (PStart, [TStart, TStart], ex_two_segments) = None"
proof (intro conjI ex_two_segments_rep)
  have "map_option (\<lambda>_. ()) (ring_steps 2 ([TakeStep 0] @ replicate 7 (TakeStep 1) @ [Gc 2, Gc 2]) (PStart, [TStart, TStart], ex_two_segments)) =
     Some ()" by code_simp
  then show "ring_steps 2 ([TakeStep 0] @ replicate 7 (TakeStep 1) @ [Gc 2, Gc 2]) (PStart, [TStart, TStart], ex_two_segments) \<noteq> None"
    by auto
  have "map_option (\<lambda>_. ()) (ring_steps 2 ([TakeStep 0] @ replicate 7 (TakeStep 1) @ [Gc 2, Gc 2, TakeStep 0]) (PStart, [TStart, TStart], ex_two_segments)) =
     None" by code_simp
  then show "ring_steps 2 ([TakeStep 0] @ replicate 7 (TakeStep 1) @ [Gc 2, Gc 2, TakeStep 0]) (PStart, [TStart, TStart], ex_two_segments) = None"
    by simp
qed

end
