(* ===== verification/Work_Queue.thy ===== *)
theory Work_Queue
  imports Lcrq_Queue Ring_Queue
begin

text \<open>
  The queues of a worker pool together (\<^verbatim>\<open>ksid/queue.c\<close>): one ring buffer per worker, the queue of
  seed tasks, and for each worker the seed of its random choice. The array of seeds is not
  initialised by the code: its contents are an argument.
\<close>

section \<open>State and calls\<close>

type_synonym uint32 = "32 word"

record work_queue =
  wprocs :: nat
  masterQueue :: lcrq
  rbs :: "ring list"
  wseeds :: "uint32 list"

definition ksiWorkQueueInit :: "uint64 \<Rightarrow> uint32 list \<Rightarrow> nat \<Rightarrow> work_queue" where
  "ksiWorkQueueInit sz garbage nprocs =
     \<lparr>wprocs = nprocs, masterQueue = ksiLCRQInit sz nprocs, rbs = replicate nprocs (ksiRingBufferInit nprocs), wseeds = garbage\<rparr>"

text \<open>\<open>nth(wq, tid)\<close>, a call on that ring buffer, and a call on the master queue\<close>

definition on_ring :: "nat \<Rightarrow> (ring \<Rightarrow> ('r \<times> ring) option) \<Rightarrow> work_queue \<Rightarrow> ('r \<times> work_queue) option" where
  "on_ring i f wq = do {
     rb \<leftarrow> get_at (rbs wq) (int i);
     (r, rb) \<leftarrow> f rb;
     Some (r, wq\<lparr>rbs := (rbs wq)[i := rb]\<rparr>)
   }"

definition on_master :: "(lcrq \<Rightarrow> ('r \<times> lcrq) option) \<Rightarrow> work_queue \<Rightarrow> ('r \<times> work_queue) option" where
  "on_master f wq = do { (r, q) \<leftarrow> f (masterQueue wq); Some (r, wq\<lparr>masterQueue := q\<rparr>) }"

definition unit_call :: "('s \<Rightarrow> 's option) \<Rightarrow> 's \<Rightarrow> (unit \<times> 's) option" where
  "unit_call f s = do { s \<leftarrow> f s; Some ((), s) }"

definition ksiWorkQueueCommit :: "nat \<Rightarrow> ptr \<Rightarrow> work_queue \<Rightarrow> work_queue option" where
  "ksiWorkQueueCommit tid data wq = do { (_, wq) \<leftarrow> on_ring tid (unit_call (ksiRingBufferPush tid data)) wq; Some wq }"

definition ksiWorkQueueGet :: "nat \<Rightarrow> work_queue \<Rightarrow> (ptr option \<times> work_queue) option" where
  "ksiWorkQueueGet tid wq = on_ring tid (ksiRingBufferPop tid) wq"

definition ksiWorkQueueBeginTake :: "nat \<Rightarrow> work_queue \<Rightarrow> work_queue option" where
  "ksiWorkQueueBeginTake tid wq = do {
     (_, wq) \<leftarrow> on_master (unit_call (ksiLCRQConsumerEnter tid)) wq;
     (_, wq) \<leftarrow> on_ring tid (unit_call (ksiRingBufferConsumerEnter tid)) wq;
     Some wq
   }"

definition ksiWorkQueueEndTake :: "nat \<Rightarrow> work_queue \<Rightarrow> work_queue option" where
  "ksiWorkQueueEndTake tid wq = do {
     (_, wq) \<leftarrow> on_ring tid (unit_call (ksiRingBufferConsumerLeave tid)) wq;
     (_, wq) \<leftarrow> on_master (unit_call (ksiLCRQConsumerLeave tid)) wq;
     Some wq
   }"

definition fast_rand :: "uint32 \<Rightarrow> nat \<times> uint32" where
  "fast_rand seed = (let seed = 214013 * seed + 2531011 in (unat (drop_bit 16 seed AND 0x7FFF), seed))"

text \<open>The queue a take looks at: a worker's, or the master queue after the last of them.\<close>

definition select :: "nat \<Rightarrow> uint32 \<Rightarrow> nat \<times> uint32" where
  "select nprocs seed = (let (r, seed) = fast_rand (seed + 1) in (r mod (nprocs + 1), seed))"

definition ksiWorkQueueTake :: "nat \<Rightarrow> work_queue \<Rightarrow> (ptr option \<times> work_queue) option" where
  "ksiWorkQueueTake tid wq = do {
     seed \<leftarrow> get_at (wseeds wq) (int tid);
     let (sel, seed) = select (wprocs wq) seed;
     let wq = wq\<lparr>wseeds := (wseeds wq)[tid := seed]\<rparr>;
     (if sel = wprocs wq then do {
        (_, wq) \<leftarrow> on_master (unit_call (ksiLCRQConsumerEnter tid)) wq;
        (r, wq) \<leftarrow> on_master (ksiLCRQDequeue tid) wq;
        (_, wq) \<leftarrow> on_master (unit_call (ksiLCRQConsumerLeave tid)) wq;
        Some (r, wq)
      }
      else on_ring sel (ksiRingBufferTake tid) wq)
   }"

fun collect_rings :: "nat \<Rightarrow> nat list \<Rightarrow> work_queue \<Rightarrow> work_queue option" where
  "collect_rings tid [] wq = Some wq"
| "collect_rings tid (i # js) wq = do { (_, wq) \<leftarrow> on_ring i (ksiRingBufferTryFree tid) wq; collect_rings tid js wq }"

definition ksiWorkQueueTryFree :: "nat \<Rightarrow> work_queue \<Rightarrow> work_queue option" where
  "ksiWorkQueueTryFree tid wq = do {
     wq \<leftarrow> collect_rings tid [0..<wprocs wq] wq;
     (_, wq) \<leftarrow> on_master (ksiLCRQTryFree tid) wq;
     Some wq
   }"

text \<open>What the audio callback does for a node without predecessors, and how many engines a pool serves:
  each registers with the master queue.\<close>

definition put_seed :: "nat \<Rightarrow> ptr \<Rightarrow> work_queue \<Rightarrow> work_queue option" where
  "put_seed h n wq = do {
     (_, wq) \<leftarrow> on_master (unit_call (ksiLCRQProducerEnter (handle h))) wq;
     (_, wq) \<leftarrow> on_master (unit_call (ksiLCRQEnqueue n)) wq;
     (_, wq) \<leftarrow> on_master (unit_call (ksiLCRQProducerLeave (handle h))) wq;
     Some wq
   }"

text \<open>The ring buffers go from the last one down.\<close>

fun destroy_rings :: "nat \<Rightarrow> work_queue \<Rightarrow> work_queue option" where
  "destroy_rings 0 wq = Some wq"
| "destroy_rings (Suc i) wq = do { (_, wq) \<leftarrow> on_ring i (unit_call ksiRingBufferDestroy) wq; destroy_rings i wq }"

definition ksiWorkQueueDestroy :: "work_queue \<Rightarrow> work_queue option" where
  "ksiWorkQueueDestroy wq = do {
     wq \<leftarrow> destroy_rings (wprocs wq) wq;
     (_, wq) \<leftarrow> on_master (unit_call ksiLCRQDestroy) wq;
     Some wq
   }"

section \<open>Runs\<close>

datatype work_op = Work_Commit nat ptr | Work_Get nat | Work_Begin nat | Work_Take nat | Work_End nat | Work_Free nat | Work_Seed nat ptr

fun work_do :: "work_op \<Rightarrow> work_queue \<Rightarrow> (ptr option list \<times> work_queue) option" where
  "work_do (Work_Commit tid x) wq = do { wq \<leftarrow> ksiWorkQueueCommit tid x wq; Some ([], wq) }"
| "work_do (Work_Get tid) wq = do { (r, wq) \<leftarrow> ksiWorkQueueGet tid wq; Some ([r], wq) }"
| "work_do (Work_Begin tid) wq = do { wq \<leftarrow> ksiWorkQueueBeginTake tid wq; Some ([], wq) }"
| "work_do (Work_Take tid) wq = do { (r, wq) \<leftarrow> ksiWorkQueueTake tid wq; Some ([r], wq) }"
| "work_do (Work_End tid) wq = do { wq \<leftarrow> ksiWorkQueueEndTake tid wq; Some ([], wq) }"
| "work_do (Work_Free tid) wq = do { wq \<leftarrow> ksiWorkQueueTryFree tid wq; Some ([], wq) }"
| "work_do (Work_Seed h x) wq = do { wq \<leftarrow> put_seed h x wq; Some ([], wq) }"

fun work_run :: "work_op list \<Rightarrow> work_queue \<Rightarrow> (ptr option list \<times> work_queue) option" where
  "work_run [] wq = Some ([], wq)"
| "work_run (op # ops) wq = do { (rs, wq) \<leftarrow> work_do op wq; (rs', wq) \<leftarrow> work_run ops wq; Some (rs @ rs', wq) }"

fun work_op_ok :: "nat \<Rightarrow> nat \<Rightarrow> work_op \<Rightarrow> bool" where
  "work_op_ok n m (Work_Commit tid x) \<longleftrightarrow> tid < n"
| "work_op_ok n m (Work_Get tid) \<longleftrightarrow> tid < n"
| "work_op_ok n m (Work_Begin tid) \<longleftrightarrow> tid < n"
| "work_op_ok n m (Work_Take tid) \<longleftrightarrow> tid < n"
| "work_op_ok n m (Work_End tid) \<longleftrightarrow> tid < n"
| "work_op_ok n m (Work_Free tid) \<longleftrightarrow> tid < n"
| "work_op_ok n m (Work_Seed h x) \<longleftrightarrow> h < m"

section \<open>The abstract work queue\<close>

text \<open>A list of tasks per worker, the list of seed tasks and the seeds of the random choice.\<close>

type_synonym work_spec = "ptr list list \<times> ptr list \<times> uint32 list"

definition first_of :: "ptr list \<Rightarrow> ptr option" where
  "first_of xs = (if xs = [] then None else Some (hd xs))"

definition last_of_list :: "ptr list \<Rightarrow> ptr option" where
  "last_of_list xs = (if xs = [] then None else Some (last xs))"

fun work_spec :: "work_op \<Rightarrow> work_spec \<Rightarrow> ptr option list \<times> work_spec" where
  "work_spec (Work_Commit tid x) (xss, ys, ss) = ([], (xss[tid := xss ! tid @ [x]], ys, ss))"
| "work_spec (Work_Get tid) (xss, ys, ss) = ([last_of_list (xss ! tid)], (xss[tid := butlast (xss ! tid)], ys, ss))"
| "work_spec (Work_Take tid) (xss, ys, ss) =
     (let (sel, s) = select (List.length xss) (ss ! tid); ss = ss[tid := s] in
      if sel = List.length xss then ([first_of ys], (xss, tl ys, ss))
      else ([first_of (xss ! sel)], (xss[sel := tl (xss ! sel)], ys, ss)))"
| "work_spec (Work_Seed h x) (xss, ys, ss) = ([], (xss, ys @ [x], ss))"
| "work_spec op s = ([], s)"

fun work_spec_run :: "work_op list \<Rightarrow> work_spec \<Rightarrow> ptr option list \<times> work_spec" where
  "work_spec_run [] s = ([], s)"
| "work_spec_run (op # ops) s =
     (let (rs, s) = work_spec op s; (rs', s) = work_spec_run ops s in (rs @ rs', s))"

definition work_rep :: "nat \<Rightarrow> nat \<Rightarrow> nat \<Rightarrow> nat \<Rightarrow> work_queue \<Rightarrow> work_spec \<Rightarrow> bool" where
  "work_rep k N n m wq = (\<lambda>(xss, ys, ss). wprocs wq = n \<and> List.length xss = n \<and> List.length (rbs wq) = n \<and>
     (\<forall>i < n. \<exists>M \<le> N. ring_rep M n (rbs wq ! i) (xss ! i)) \<and> seed_rep k N n m (masterQueue wq) ys \<and>
     wseeds wq = ss \<and> List.length ss = n)"

lemma work_repD:
  assumes "work_rep k N n m wq (xss, ys, ss)"
  shows "wprocs wq = n" "List.length xss = n" "List.length (rbs wq) = n"
    "i < n \<Longrightarrow> \<exists>M \<le> N. ring_rep M n (rbs wq ! i) (xss ! i)" "seed_rep k N n m (masterQueue wq) ys"
    "wseeds wq = ss" "List.length ss = n"
  using assms by (simp_all add: work_rep_def)

lemma work_rep_ring:
  assumes r: "work_rep k N n m wq (xss, ys, ss)" and i: "i < n" and N: "N \<le> N'"
    and f: "\<And>M. M \<le> N \<Longrightarrow> ring_rep M n (rbs wq ! i) (xss ! i) \<Longrightarrow>
      \<exists>c q' M'. f (rbs wq ! i) = Some (c, q') \<and> P c \<and> M' \<le> N' \<and> ring_rep M' n q' zs"
  shows "\<exists>c wq'. on_ring i f wq = Some (c, wq') \<and> P c \<and> work_rep k N' n m wq' (xss[i := zs], ys, ss)"
proof -
  note d = work_repD [OF r]
  obtain M where M: "M \<le> N" "ring_rep M n (rbs wq ! i) (xss ! i)" using d(4) [OF i] by blast
  obtain c q' M' where c: "f (rbs wq ! i) = Some (c, q')" "P c" "M' \<le> N'" "ring_rep M' n q' zs" using f [OF M] by blast
  let ?wq = "wq\<lparr>rbs := (rbs wq)[i := q']\<rparr>"
  have "\<exists>M \<le> N'. ring_rep M n (rbs ?wq ! j) (xss[i := zs] ! j)" if j: "j < n" for j
  proof (cases "j = i")
    case True
    then show ?thesis using c(3,4) i d(2,3) by auto
  next
    case False
    then show ?thesis using d(4) [OF j] N by (auto intro: order_trans)
  qed
  moreover have "seed_rep k N' n m (masterQueue wq) ys" by (rule seeds.mono [OF d(5) N])
  ultimately have "work_rep k N' n m ?wq (xss[i := zs], ys, ss)" using d by (simp add: work_rep_def)
  moreover have "on_ring i f wq = Some (c, ?wq)" using c(1) i d(3) by (simp add: on_ring_def get_at_def)
  ultimately show ?thesis using c(2) by blast
qed

lemma work_rep_ring_same:
  assumes r: "work_rep k N n m wq (xss, ys, ss)" and i: "i < n"
    and f: "\<And>M. ring_rep M n (rbs wq ! i) (xss ! i) \<Longrightarrow> \<exists>c q'. f (rbs wq ! i) = Some (c, q') \<and> ring_rep M n q' (xss ! i)"
  shows "\<exists>c wq'. on_ring i f wq = Some (c, wq') \<and> work_rep k N n m wq' (xss, ys, ss)"
  using work_rep_ring [OF r i order.refl, of f "\<lambda>c. True" "xss ! i"] f by fastforce

lemma work_rep_master:
  assumes r: "work_rep k N n m wq (xss, ys, ss)" and N: "N \<le> N'"
    and f: "seed_rep k N n m (masterQueue wq) ys \<Longrightarrow> \<exists>c q'. f (masterQueue wq) = Some (c, q') \<and> P c \<and> seed_rep k N' n m q' zs"
  shows "\<exists>c wq'. on_master f wq = Some (c, wq') \<and> P c \<and> work_rep k N' n m wq' (xss, zs, ss)"
proof -
  note d = work_repD [OF r]
  obtain c q' where c: "f (masterQueue wq) = Some (c, q')" "P c" "seed_rep k N' n m q' zs" using f [OF d(5)] by blast
  have "\<exists>M \<le> N'. ring_rep M n (rbs wq ! j) (xss ! j)" if "j < n" for j using d(4) [OF that] N order_trans by blast
  then have "work_rep k N' n m (wq\<lparr>masterQueue := q'\<rparr>) (xss, zs, ss)" using d c(3) by (simp add: work_rep_def)
  then show ?thesis using c(1,2) by (simp add: on_master_def)
qed

lemma unit_call_eq: "f s = Some s' \<Longrightarrow> unit_call f s = Some ((), s')"
  by (simp add: unit_call_def)

lemma work_begin_ok:
  assumes "work_rep k N n m wq s" "tid < n"
  shows "\<exists>wq'. ksiWorkQueueBeginTake tid wq = Some wq' \<and> work_rep k N n m wq' s"
proof -
  obtain xss ys ss where s: "s = (xss, ys, ss)" by (cases s)
  obtain wq1 where 1: "on_master (unit_call (ksiLCRQConsumerEnter tid)) wq = Some ((), wq1)" "work_rep k N n m wq1 s"
    using work_rep_master [OF assms(1)[unfolded s] order.refl, of "unit_call (ksiLCRQConsumerEnter tid)" "\<lambda>c. True" ys]
      seeds.enter [of k N n m _ ys tid] assms(2) s by (fastforce dest: unit_call_eq)
  obtain wq2 where "on_ring tid (unit_call (ksiRingBufferConsumerEnter tid)) wq1 = Some ((), wq2)" "work_rep k N n m wq2 s"
    using work_rep_ring_same [OF 1(2)[unfolded s] assms(2), of "unit_call (ksiRingBufferConsumerEnter tid)"]
      rings.enter [of _ n _ "xss ! tid" tid] assms(2) s by (fastforce dest: unit_call_eq)
  then show ?thesis using 1(1) by (simp add: ksiWorkQueueBeginTake_def)
qed

lemma work_end_ok:
  assumes "work_rep k N n m wq s" "tid < n"
  shows "\<exists>wq'. ksiWorkQueueEndTake tid wq = Some wq' \<and> work_rep k N n m wq' s"
proof -
  obtain xss ys ss where s: "s = (xss, ys, ss)" by (cases s)
  obtain wq1 where 1: "on_ring tid (unit_call (ksiRingBufferConsumerLeave tid)) wq = Some ((), wq1)" "work_rep k N n m wq1 s"
    using work_rep_ring_same [OF assms(1)[unfolded s] assms(2), of "unit_call (ksiRingBufferConsumerLeave tid)"]
      rings.leave [of _ n _ "xss ! tid" tid] assms(2) s by (fastforce dest: unit_call_eq)
  obtain wq2 where "on_master (unit_call (ksiLCRQConsumerLeave tid)) wq1 = Some ((), wq2)" "work_rep k N n m wq2 s"
    using work_rep_master [OF 1(2)[unfolded s] order.refl, of "unit_call (ksiLCRQConsumerLeave tid)" "\<lambda>c. True" ys]
      seeds.leave [of k N n m _ ys tid] assms(2) s by (fastforce dest: unit_call_eq)
  then show ?thesis using 1(1) by (simp add: ksiWorkQueueEndTake_def)
qed

lemma collect_rings_ok:
  assumes "work_rep k N n m wq s" "tid < n" "\<forall>i \<in> set js. i < n"
  shows "\<exists>wq'. collect_rings tid js wq = Some wq' \<and> work_rep k N n m wq' s"
  using assms(1,3)
proof (induction js arbitrary: wq)
  case (Cons i js)
  obtain xss ys ss where s: "s = (xss, ys, ss)" by (cases s)
  obtain c wq1 where "on_ring i (ksiRingBufferTryFree tid) wq = Some (c, wq1)" "work_rep k N n m wq1 s"
    using work_rep_ring_same [OF Cons.prems(1)[unfolded s], of i "ksiRingBufferTryFree tid"]
      rings.collect [of _ n _ "xss ! i" tid] Cons.prems(2) assms(2) s by auto
  then show ?case using Cons.IH [of wq1] Cons.prems(2) by simp
qed simp

lemma work_free_ok:
  assumes "work_rep k N n m wq s" "tid < n"
  shows "\<exists>wq'. ksiWorkQueueTryFree tid wq = Some wq' \<and> work_rep k N n m wq' s"
proof -
  obtain xss ys ss where s: "s = (xss, ys, ss)" by (cases s)
  have n: "wprocs wq = n" using work_repD(1) assms(1) s by blast
  obtain wq1 where 1: "collect_rings tid [0..<n] wq = Some wq1" "work_rep k N n m wq1 s"
    using collect_rings_ok [OF assms, of "[0..<n]"] by auto
  obtain c wq2 where "on_master (ksiLCRQTryFree tid) wq1 = Some (c, wq2)" "work_rep k N n m wq2 s"
    using work_rep_master [OF 1(2)[unfolded s] order.refl, of "ksiLCRQTryFree tid" "\<lambda>c. True" ys]
      seeds.collect [of k N n m _ ys tid] assms(2) s by fastforce
  then show ?thesis using 1(1) n by (simp add: ksiWorkQueueTryFree_def)
qed

lemma seed_room_lt: "seed_room k N \<Longrightarrow> Suc N < 2 ^ 63"
  unfolding seed_room_def by (metis add_Suc_right add.right_neutral One_nat_def add_lessD1 add.assoc add.commute)

lemma work_commit_ok:
  assumes "work_rep k N n m wq (xss, ys, ss)" "tid < n" "seed_room k N"
  shows "\<exists>wq'. ksiWorkQueueCommit tid x wq = Some wq' \<and> work_rep k (Suc N) n m wq' (xss[tid := xss ! tid @ [x]], ys, ss)"
proof -
  have step: "\<exists>c q' M'. unit_call (ksiRingBufferPush tid x) (rbs wq ! tid) = Some (c, q') \<and> True \<and> M' \<le> Suc N \<and>
      ring_rep M' n q' (xss ! tid @ [x])" if "M \<le> N" "ring_rep M n (rbs wq ! tid) (xss ! tid)" for M
  proof -
    note M = that
    have "Suc M < 2 ^ 63" using seed_room_lt [OF assms(3)] M(1) by simp
    then obtain q' where "ksiRingBufferPush tid x (rbs wq ! tid) = Some q'" "ring_rep (Suc M) n q' (xss ! tid @ [x])"
      using rings.push [OF M(2) assms(2)] by blast
    then show ?thesis using M(1) by (auto simp: unit_call_eq)
  qed
  have "\<exists>c wq'. on_ring tid (unit_call (ksiRingBufferPush tid x)) wq = Some (c, wq') \<and> True \<and>
      work_rep k (Suc N) n m wq' (xss[tid := xss ! tid @ [x]], ys, ss)"
    by (rule work_rep_ring [OF assms(1,2)]) (simp, rule step)
  then show ?thesis by (auto simp: ksiWorkQueueCommit_def)
qed

lemma work_get_ok:
  assumes "work_rep k N n m wq (xss, ys, ss)" "tid < n" "seed_room k N"
  shows "\<exists>wq'. ksiWorkQueueGet tid wq = Some (last_of_list (xss ! tid), wq') \<and>
    work_rep k (Suc N) n m wq' (xss[tid := butlast (xss ! tid)], ys, ss)"
proof -
  have "\<exists>c q' M'. ksiRingBufferPop tid (rbs wq ! tid) = Some (c, q') \<and> c = last_of_list (xss ! tid) \<and> M' \<le> Suc N \<and>
      ring_rep M' n q' (butlast (xss ! tid))" if "M \<le> N" "ring_rep M n (rbs wq ! tid) (xss ! tid)" for M
  proof -
    have "M < 2 ^ 63" using seed_room_lt [OF assms(3)] that(1) by simp
    moreover have "M \<le> Suc N" using that(1) by simp
    ultimately show ?thesis using rings.pop [OF that(2) assms(2)] unfolding last_of_list_def by blast
  qed
  from work_rep_ring [where P = "\<lambda>c. c = last_of_list (xss ! tid)" and N' = "Suc N" and f = "ksiRingBufferPop tid", OF assms(1,2) _ this] show ?thesis
    by (auto simp: ksiWorkQueueGet_def)
qed

lemma ring_take_ok:
  assumes "work_rep k N n m wq (xss, ys, ss)" "tid < n" "i < n" "seed_room k N"
  shows "\<exists>wq'. on_ring i (ksiRingBufferTake tid) wq = Some (first_of (xss ! i), wq') \<and>
    work_rep k (Suc N) n m wq' (xss[i := tl (xss ! i)], ys, ss)"
proof -
  have "\<exists>c q' M'. ksiRingBufferTake tid (rbs wq ! i) = Some (c, q') \<and> c = first_of (xss ! i) \<and> M' \<le> Suc N \<and>
      ring_rep M' n q' (tl (xss ! i))" if "M \<le> N" "ring_rep M n (rbs wq ! i) (xss ! i)" for M
  proof -
    have "M < 2 ^ 63" using seed_room_lt [OF assms(4)] that(1) by simp
    moreover have "M \<le> Suc N" using that(1) by simp
    ultimately show ?thesis using rings.take [OF that(2) assms(2)] unfolding first_of_def by blast
  qed
  from work_rep_ring [where P = "\<lambda>c. c = first_of (xss ! i)" and N' = "Suc N" and f = "ksiRingBufferTake tid", OF assms(1,3) _ this] show ?thesis by auto
qed

lemma master_take_ok:
  assumes "work_rep k N n m wq (xss, ys, ss)" "tid < n" "seed_room k N"
  shows "\<exists>wq1 wq2 wq3. on_master (unit_call (ksiLCRQConsumerEnter tid)) wq = Some ((), wq1) \<and>
    on_master (ksiLCRQDequeue tid) wq1 = Some (first_of ys, wq2) \<and>
    on_master (unit_call (ksiLCRQConsumerLeave tid)) wq2 = Some ((), wq3) \<and> work_rep k (Suc N) n m wq3 (xss, tl ys, ss)"
proof -
  obtain wq1 where 1: "on_master (unit_call (ksiLCRQConsumerEnter tid)) wq = Some ((), wq1)" "work_rep k N n m wq1 (xss, ys, ss)"
    using work_rep_master [OF assms(1) order.refl, of "unit_call (ksiLCRQConsumerEnter tid)" "\<lambda>c. True" ys]
      seeds.enter [of k N n m _ ys tid] assms(2) by (fastforce dest: unit_call_eq)
  obtain wq2 where 2: "on_master (ksiLCRQDequeue tid) wq1 = Some (first_of ys, wq2)" "work_rep k (Suc N) n m wq2 (xss, tl ys, ss)"
    using work_rep_master [OF 1(2), of "Suc N" "ksiLCRQDequeue tid" "\<lambda>c. c = first_of ys" "tl ys"]
      seeds.deq [of k N n m _ ys tid] assms(2,3) by (fastforce simp: first_of_def)
  obtain wq3 where "on_master (unit_call (ksiLCRQConsumerLeave tid)) wq2 = Some ((), wq3)" "work_rep k (Suc N) n m wq3 (xss, tl ys, ss)"
    using work_rep_master [OF 2(2) order.refl, of "unit_call (ksiLCRQConsumerLeave tid)" "\<lambda>c. True" "tl ys"]
      seeds.leave [of k "Suc N" n m _ "tl ys" tid] assms(2) by (fastforce dest: unit_call_eq)
  then show ?thesis using 1(1) 2(1) by blast
qed

lemma select_le: "fst (select n s) \<le> n"
  by (simp add: select_def case_prod_beta)

lemma work_take_ok:
  assumes "work_rep k N n m wq (xss, ys, ss)" "tid < n" "seed_room k N"
  shows "\<exists>wq' r s. work_spec (Work_Take tid) (xss, ys, ss) = ([r], s) \<and>
    ksiWorkQueueTake tid wq = Some (r, wq') \<and> work_rep k (Suc N) n m wq' s"
proof -
  note d = work_repD [OF assms(1)]
  obtain sel s' where sel: "select n (ss ! tid) = (sel, s')" by fastforce
  have le: "sel \<le> n" using select_le [of n "ss ! tid"] sel by simp
  let ?wq = "wq\<lparr>wseeds := ss[tid := s']\<rparr>"
  have r: "work_rep k N n m ?wq (xss, ys, ss[tid := s'])" using assms(1) by (simp add: work_rep_def)
  have seed: "get_at (wseeds wq) (int tid) = Some (ss ! tid)" using d(6,7) assms(2) by (simp add: get_at_def)
  show ?thesis
  proof (cases "sel = n")
    case True
    obtain wq1 wq2 wq3 where "on_master (unit_call (ksiLCRQConsumerEnter tid)) ?wq = Some ((), wq1)"
      "on_master (ksiLCRQDequeue tid) wq1 = Some (first_of ys, wq2)"
      "on_master (unit_call (ksiLCRQConsumerLeave tid)) wq2 = Some ((), wq3)" "work_rep k (Suc N) n m wq3 (xss, tl ys, ss[tid := s'])"
      using master_take_ok [OF r assms(2,3)] by blast
    then show ?thesis using True sel seed d by (simp add: ksiWorkQueueTake_def)
  next
    case False
    obtain wq' where "on_ring sel (ksiRingBufferTake tid) ?wq = Some (first_of (xss ! sel), wq')"
      "work_rep k (Suc N) n m wq' (xss[sel := tl (xss ! sel)], ys, ss[tid := s'])"
      using ring_take_ok [OF r assms(2) _ assms(3), of sel] False le by auto
    then show ?thesis using False sel seed d by (simp add: ksiWorkQueueTake_def)
  qed
qed

lemma work_seed_ok:
  assumes "work_rep k N n m wq (xss, ys, ss)" "h < m" "seed_room k N"
  shows "\<exists>wq'. put_seed h x wq = Some wq' \<and> work_rep k (Suc N) n m wq' (xss, ys @ [x], ss)"
proof -
  obtain wq1 where 1: "on_master (unit_call (ksiLCRQProducerEnter (handle h))) wq = Some ((), wq1)" "work_rep k N n m wq1 (xss, ys, ss)"
    using work_rep_master [OF assms(1) order.refl, of "unit_call (ksiLCRQProducerEnter (handle h))" "\<lambda>c. True" ys]
      seeds.penter [of k N n m _ ys h] assms(2) by (fastforce dest: unit_call_eq)
  obtain wq2 where 2: "on_master (unit_call (ksiLCRQEnqueue x)) wq1 = Some ((), wq2)" "work_rep k (Suc N) n m wq2 (xss, ys @ [x], ss)"
    using work_rep_master [OF 1(2), of "Suc N" "unit_call (ksiLCRQEnqueue x)" "\<lambda>c. True" "ys @ [x]"]
      seeds.enq [of k N n m _ ys x] assms(3) by (fastforce dest: unit_call_eq)
  obtain wq3 where "on_master (unit_call (ksiLCRQProducerLeave (handle h))) wq2 = Some ((), wq3)" "work_rep k (Suc N) n m wq3 (xss, ys @ [x], ss)"
    using work_rep_master [OF 2(2) order.refl, of "unit_call (ksiLCRQProducerLeave (handle h))" "\<lambda>c. True" "ys @ [x]"]
      seeds.pleave [of k "Suc N" n m _ "ys @ [x]" h] assms(2) by (fastforce dest: unit_call_eq)
  then show ?thesis using 1(1) 2(1) by (simp add: put_seed_def)
qed

lemma work_rep_mono: "work_rep k N n m wq s \<Longrightarrow> N \<le> N' \<Longrightarrow> work_rep k N' n m wq s"
  using work_rep_master [of k N n m wq "fst s" "fst (snd s)" "snd (snd s)" N' "\<lambda>q. Some ((), q)" "\<lambda>c. True" "fst (snd s)"] seeds.mono
  by (auto simp: on_master_def)

lemma work_do_ok:
  assumes r: "work_rep k N n m wq s" and ok: "work_op_ok n m op" and N: "seed_room k N"
  shows "\<exists>wq'. work_do op wq = Some (fst (work_spec op s), wq') \<and> work_rep k (Suc N) n m wq' (snd (work_spec op s))"
proof -
  obtain xss ys ss where s: "s = (xss, ys, ss)" by (cases s)
  have r': "work_rep k (Suc N) n m wq' s" if "work_rep k N n m wq' s" for wq' by (rule work_rep_mono [OF that]) simp
  show ?thesis
  proof (cases op)
    case (Work_Commit tid x)
    then show ?thesis using work_commit_ok [OF r[unfolded s] _ N, of tid x] ok s by auto
  next
    case (Work_Get tid)
    then show ?thesis using work_get_ok [OF r[unfolded s] _ N, of tid] ok s by auto
  next
    case (Work_Begin tid)
    then show ?thesis using work_begin_ok [OF r, of tid] ok r' by auto
  next
    case (Work_Take tid)
    then show ?thesis using work_take_ok [OF r[unfolded s] _ N, of tid] ok s by auto
  next
    case (Work_End tid)
    then show ?thesis using work_end_ok [OF r, of tid] ok r' by auto
  next
    case (Work_Free tid)
    then show ?thesis using work_free_ok [OF r, of tid] ok r' by auto
  next
    case (Work_Seed h x)
    then show ?thesis using work_seed_ok [OF r[unfolded s] _ N, of h x] ok s by auto
  qed
qed

lemma work_run_ok:
  assumes "work_rep k N n m wq s" "\<forall>op \<in> set ops. work_op_ok n m op" "seed_room k (N + List.length ops)"
  shows "\<exists>wq'. work_run ops wq = Some (fst (work_spec_run ops s), wq') \<and>
    work_rep k (N + List.length ops) n m wq' (snd (work_spec_run ops s))"
  using assms
proof (induction ops arbitrary: N wq s)
  case (Cons op ops)
  have N: "seed_room k N" "seed_room k (Suc N + List.length ops)"
    using seeds.room [of N "N + List.length (op # ops)"] Cons.prems(3) by simp_all
  obtain wq1 where 1: "work_do op wq = Some (fst (work_spec op s), wq1)" "work_rep k (Suc N) n m wq1 (snd (work_spec op s))"
    using work_do_ok [OF Cons.prems(1) _ N(1), of op] Cons.prems(2) by auto
  show ?case using Cons.IH [OF 1(2) _ N(2)] Cons.prems(2) 1(1) by (auto simp: case_prod_beta)
qed simp

section \<open>Destruction\<close>

lemma destroy_rings_ok:
  assumes "i \<le> n" "List.length (rbs wq) = n" "\<forall>j < i. \<exists>M xs. ring_rep M n (rbs wq ! j) xs"
  shows "\<exists>wq'. destroy_rings i wq = Some wq' \<and> masterQueue wq' = masterQueue wq"
  using assms
proof (induction i arbitrary: wq)
  case (Suc i)
  obtain M xs where "ring_rep M n (rbs wq ! i) xs" using Suc.prems(3) by blast
  then obtain ps Ls where "ring_inv M n ps Ls (rbs wq ! i)" by (auto simp: ring_rep_def)
  from destroy_ok [OF this] obtain rb where rb: "ksiRingBufferDestroy (rbs wq ! i) = Some rb" by blast
  let ?wq = "wq\<lparr>rbs := (rbs wq)[i := rb]\<rparr>"
  have "destroy_rings (Suc i) wq = destroy_rings i ?wq"
    using rb Suc.prems(1,2) by (simp add: on_ring_def get_at_def unit_call_def)
  then show ?case using Suc.IH [of ?wq] Suc.prems by simp
qed simp

lemma work_destroy_ok:
  assumes "work_rep k N n m wq s"
  shows "\<exists>wq'. ksiWorkQueueDestroy wq = Some wq' \<and>
    (rqs (masterQueue wq') = Map.empty \<longleftrightarrow> (\<forall>ee \<in> set (dentries (lebr (masterQueue wq))). \<forall>f \<in> set (freelist ee). f = NULL))"
proof -
  obtain xss ys ss where s: "s = (xss, ys, ss)" by (cases s)
  note d = work_repD [OF assms[unfolded s]]
  obtain wq1 where 1: "destroy_rings n wq = Some wq1" "masterQueue wq1 = masterQueue wq"
    using destroy_rings_ok [of n n wq] d(3,4) by blast
  obtain cs Ls where i: "seq_inv k m N n cs Ls (masterQueue wq)" using d(5) by (auto simp: seed_rep_def)
  obtain q where q: "ksiLCRQDestroy (masterQueue wq) = Some q" "dom (rqs q) = set_mset (given_up n Ls)"
    using lcrq_destroy_ok [OF i] by blast
  have "rqs q = Map.empty \<longleftrightarrow> given_up n Ls = {#}" using q(2) by (metis dom_eq_empty_conv set_mset_eq_empty_iff)
  then show ?thesis using 1 q(1) d(1) given_up_empty [OF i]
    by (simp add: ksiWorkQueueDestroy_def on_master_def unit_call_def)
qed

section \<open>Nothing is lost or handed out twice\<close>

definition answers :: "ptr option list \<Rightarrow> ptr multiset" where
  "answers rs = mset (List.map_filter id rs)"

definition work_content :: "work_spec \<Rightarrow> ptr multiset" where
  "work_content = (\<lambda>(xss, ys, ss). sum_list (map mset xss) + mset ys)"

fun work_input :: "work_op \<Rightarrow> ptr list" where
  "work_input (Work_Commit tid x) = [x]"
| "work_input (Work_Seed h x) = [x]"
| "work_input op = []"

lemma answers_simps [simp]: "answers [] = {#}" "answers (Some x # rs) = add_mset x (answers rs)" "answers (None # rs) = answers rs"
  "answers (rs @ rs') = answers rs + answers rs'"
  by (simp_all add: answers_def map_filter_simps map_filter_def)

lemma sum_list_mset_update:
  "i < List.length xss \<Longrightarrow> sum_list (map mset (xss[i := zs])) + mset (xss ! i) = sum_list (map mset xss) + (mset zs :: 'a multiset)"
proof (induction xss arbitrary: i)
  case (Cons x xss)
  then show ?case by (cases i) (simp_all add: ac_simps)
qed simp

lemma mset_first: "answers [first_of xs] + mset (tl xs) = mset xs"
  by (cases xs) (simp_all add: first_of_def)

lemma mset_last: "answers [last_of_list xs] + mset (butlast xs) = mset xs"
  by (induction xs rule: rev_induct) (simp_all add: last_of_list_def)

lemma work_spec_balance:
  assumes "List.length (fst s) = n" "work_op_ok n m op"
  shows "answers (fst (work_spec op s)) + work_content (snd (work_spec op s)) = work_content s + mset (work_input op)"
    "List.length (fst (snd (work_spec op s))) = n"
proof -
  obtain xss ys ss where s: "s = (xss, ys, ss)" by (cases s)
  have move: "answers rs + (sum_list (map mset (xss[i := zs])) + mset ys) = sum_list (map mset xss) + mset ys + mset ins"
    if "i < n" "answers rs + mset zs = mset (xss ! i) + mset ins" for rs i zs ins
  proof -
    have "answers rs + (sum_list (map mset (xss[i := zs])) + mset (xss ! i)) = answers rs + mset zs + sum_list (map mset xss)"
      using sum_list_mset_update [of i xss zs] that(1) assms(1) s by (simp add: ac_simps)
    then have "answers rs + sum_list (map mset (xss[i := zs])) + mset (xss ! i) = sum_list (map mset xss) + mset ins + mset (xss ! i)"
      unfolding that(2) by (simp add: ac_simps)
    then show ?thesis by (simp add: ac_simps)
  qed
  have "answers (fst (work_spec op s)) + work_content (snd (work_spec op s)) = work_content s + mset (work_input op) \<and>
    List.length (fst (snd (work_spec op s))) = n"
  proof (cases op)
    case (Work_Commit tid x)
    then show ?thesis using move [of tid "[]" "xss ! tid @ [x]" "[x]"] assms s by (simp add: work_content_def)
  next
    case (Work_Get tid)
    then show ?thesis using move [of tid _ _ "[]"] mset_last [of "xss ! tid"] assms s by (simp add: work_content_def)
  next
    case (Work_Take tid)
    obtain sel s' where sel: "select n (ss ! tid) = (sel, s')" by fastforce
    have "sel \<le> n" using select_le [of n "ss ! tid"] sel by simp
    then show ?thesis
      using move [of sel _ _ "[]"] mset_first [of "xss ! sel"] mset_first [of ys] sel Work_Take assms s
      by (cases "sel = n") (auto simp: work_content_def ac_simps)
  qed (use assms s in \<open>simp_all add: work_content_def ac_simps\<close>)
  then show "answers (fst (work_spec op s)) + work_content (snd (work_spec op s)) = work_content s + mset (work_input op)"
    "List.length (fst (snd (work_spec op s))) = n" by blast+
qed

lemma work_spec_run_balance:
  assumes "List.length (fst s) = n" "\<forall>op \<in> set ops. work_op_ok n m op"
  shows "answers (fst (work_spec_run ops s)) + work_content (snd (work_spec_run ops s)) = work_content s + mset (concat (map work_input ops))"
  using assms
proof (induction ops arbitrary: s)
  case (Cons op ops)
  obtain rs t where op: "work_spec op s = (rs, t)" by (cases "work_spec op s")
  obtain rs' u where ops: "work_spec_run ops t = (rs', u)" by (cases "work_spec_run ops t")
  have b: "answers rs + work_content t = work_content s + mset (work_input op)" "List.length (fst t) = n"
    using work_spec_balance [OF Cons.prems(1), of m op] Cons.prems(2) op by auto
  have "answers rs' + work_content u = work_content t + mset (concat (map work_input ops))"
    using Cons.IH [OF b(2)] Cons.prems(2) ops by simp
  then have "answers rs + (answers rs' + work_content u) = answers rs + work_content t + mset (concat (map work_input ops))"
    by (simp add: ac_simps)
  then show ?case unfolding b(1) using op ops by (simp add: ac_simps)
qed simp

section \<open>Properties\<close>

text \<open>A new work queue with its producers.\<close>

definition new_work_queue :: "nat \<Rightarrow> uint32 list \<Rightarrow> nat \<Rightarrow> nat \<Rightarrow> work_queue option" where
  "new_work_queue k garbage n m = do {
     let wq = ksiWorkQueueInit (2 ^ k) garbage n;
     q \<leftarrow> with_producers m (masterQueue wq);
     Some (wq\<lparr>masterQueue := q\<rparr>)
   }"

lemma work_rep_new:
  assumes "k < 62" "m \<le> 2 ^ 28" "List.length garbage = n"
  shows "\<exists>wq. new_work_queue k garbage n m = Some wq \<and> work_rep k 0 n m wq (replicate n [], [], garbage)"
proof -
  obtain q where q: "with_producers m (ksiLCRQInit (2 ^ k) n) = Some q" "seed_rep k 0 n m q []"
    using seed_rep_new [OF assms(1,2)] by blast
  have "work_rep k 0 n m ((ksiWorkQueueInit (2 ^ k) garbage n)\<lparr>masterQueue := q\<rparr>) (replicate n [], [], garbage)"
    using q(2) assms(3) ring_rep_init by (simp add: work_rep_def ksiWorkQueueInit_def)
  then show ?thesis using q(1) by (simp add: new_work_queue_def ksiWorkQueueInit_def)
qed

lemma work_content_new: "work_content (replicate n [], [], garbage) = {#}"
  by (induction n) (simp_all add: work_content_def)

text \<open>C37: The queues of a pool together, with calls of all workers, of the garbage collector and of the producers that do not
  overlap, and whatever the array of seeds contains: no call faults, the answers are those of one list per worker
  and one list of seed tasks with the same random choices, and every task committed is handed out or
  still queued, none twice.\<close>

theorem work_queue_keeps_tasks:
  assumes "k < 62" "m \<le> 2 ^ 28" "List.length garbage = n" "\<forall>op \<in> set ops. work_op_ok n m op"
    "List.length ops + 2 ^ k + 1 < 2 ^ 63"
  shows "\<exists>wq rs wq' s. new_work_queue k garbage n m = Some wq \<and> work_run ops wq = Some (rs, wq') \<and>
    work_spec_run ops (replicate n [], [], garbage) = (rs, s) \<and>
    answers rs + work_content s = mset (concat (map work_input ops))"
proof -
  let ?s = "(replicate n [], [], garbage) :: work_spec"
  obtain wq where wq: "new_work_queue k garbage n m = Some wq" "work_rep k 0 n m wq ?s"
    using work_rep_new [OF assms(1-3)] by blast
  have "seed_room k (0 + List.length ops)" using assms(5) by (simp add: seed_room_def)
  then obtain wq' where run: "work_run ops wq = Some (fst (work_spec_run ops ?s), wq')"
    using work_run_ok [OF wq(2) assms(4)] by blast
  have "answers (fst (work_spec_run ops ?s)) + work_content (snd (work_spec_run ops ?s)) = mset (concat (map work_input ops))"
    using work_spec_run_balance [OF _ assms(4), of ?s] by (simp add: work_content_new)
  then show ?thesis using wq(1) run by (metis prod.collapse)
qed

theorem work_queue_keeps_tasks_witness:
  "\<exists>wq rs wq' s. new_work_queue 1 [7, 9] 2 1 = Some wq \<and>
    work_run [Work_Seed 0 5, Work_Commit 0 6, Work_Begin 1, Work_Take 1, Work_End 1, Work_Get 0, Work_Free 1] wq = Some (rs, wq') \<and>
    work_spec_run [Work_Seed 0 5, Work_Commit 0 6, Work_Begin 1, Work_Take 1, Work_End 1, Work_Get 0, Work_Free 1]
      (replicate 2 [], [], [7, 9]) = (rs, s) \<and>
    answers rs + work_content s = {#5, 6#}"
  using work_queue_keeps_tasks [of 1 1 "[7, 9]" 2
      "[Work_Seed 0 5, Work_Commit 0 6, Work_Begin 1, Work_Take 1, Work_End 1, Work_Get 0, Work_Free 1]"]
  by simp

text \<open>A seed that the random choice never leaves.\<close>

lemma select_stuck: "select n 54667440 = (834 mod (n + 1), 54667440)"
  by (simp add: select_def fast_rand_def)

lemma stuck_takes:
  "work_spec_run (replicate j (Work_Take 0)) ([[], []], [x], [54667440, s]) = (replicate j None, ([[], []], [x], [54667440, s]))"
  by (induction j) (simp_all add: select_stuck first_of_def)

text \<open>The random choice has fixed points, and the seeds are whatever the memory contains: a worker of a pool with one
  worker and the collector that starts with the seed 54667440 looks at its own queue in every take, and however
  often it tries never finds the task that waits in the queue of the seed tasks.\<close>

theorem unlucky_seed_never_finds_task:
  "\<forall>j < 2 ^ 40. \<exists>wq wq'. new_work_queue 12 [54667440, 0] 2 1 = Some wq \<and>
    work_run (Work_Seed 0 5 # replicate j (Work_Take 0)) wq = Some (replicate j None, wq')"
proof (intro allI impI)
  fix j :: nat assume j: "j < 2 ^ 40"
  obtain wq where wq: "new_work_queue 12 [54667440, 0] 2 1 = Some wq" "work_rep 12 0 2 1 wq (replicate 2 [], [], [54667440, 0])"
    using work_rep_new [of 12 1 "[54667440, 0]" 2] by auto
  let ?ops = "Work_Seed 0 5 # replicate j (Work_Take 0)"
  have "seed_room 12 (0 + List.length ?ops)" using j by (simp add: seed_room_def)
  then obtain wq' where "work_run ?ops wq = Some (fst (work_spec_run ?ops (replicate 2 [], [], [54667440, 0])), wq')"
    using work_run_ok [OF wq(2), of ?ops] by auto
  then show "\<exists>wq wq'. new_work_queue 12 [54667440, 0] 2 1 = Some wq \<and> work_run ?ops wq = Some (replicate j None, wq')"
    using wq(1) by (simp add: stuck_takes numeral_2_eq_2)
qed

theorem unlucky_seed_never_finds_task_witness:
  "\<exists>wq wq'. new_work_queue 12 [54667440, 0] 2 1 = Some wq \<and>
    work_run (Work_Seed 0 5 # replicate 1000 (Work_Take 0)) wq = Some (replicate 1000 None, wq')"
  using unlucky_seed_never_finds_task[rule_format, of 1000] by simp

text \<open>Destroying the queues after any such run does not fault; everything the queue of the seed tasks has allocated is
  released exactly when no ring has been retired and not yet collected: those on the free lists stay.\<close>

theorem work_queue_destroy:
  assumes "k < 62" "m \<le> 2 ^ 28" "List.length garbage = n" "\<forall>op \<in> set ops. work_op_ok n m op"
    "List.length ops + 2 ^ k + 1 < 2 ^ 63"
  shows "\<exists>wq rs wq' wq''. new_work_queue k garbage n m = Some wq \<and> work_run ops wq = Some (rs, wq') \<and>
    ksiWorkQueueDestroy wq' = Some wq'' \<and>
    (rqs (masterQueue wq'') = Map.empty \<longleftrightarrow>
     (\<forall>ee \<in> set (dentries (lebr (masterQueue wq'))). \<forall>f \<in> set (freelist ee). f = NULL))"
proof -
  obtain wq where wq: "new_work_queue k garbage n m = Some wq" "work_rep k 0 n m wq (replicate n [], [], garbage)"
    using work_rep_new [OF assms(1-3)] by blast
  have "seed_room k (0 + List.length ops)" using assms(5) by (simp add: seed_room_def)
  then obtain rs wq' s where run: "work_run ops wq = Some (rs, wq')" "work_rep k (0 + List.length ops) n m wq' s"
    using work_run_ok [OF wq(2) assms(4)] by blast
  show ?thesis using work_destroy_ok [OF run(2)] run(1) wq(1) by blast
qed

theorem work_queue_destroy_witness:
  "\<exists>wq rs wq' wq''. new_work_queue 1 [7, 9] 2 1 = Some wq \<and> work_run [Work_Seed 0 5, Work_Commit 0 6, Work_Get 0] wq = Some (rs, wq') \<and>
    ksiWorkQueueDestroy wq' = Some wq''"
  using work_queue_destroy [of 1 1 "[7, 9]" 2 "[Work_Seed 0 5, Work_Commit 0 6, Work_Get 0]"] by auto

end
