(* ===== verification/Float_Ops.thy ===== *)
theory Float_Ops
  imports Format
begin

text \<open>
  The floating point operations of the node functions: IEEE 754 binary32 on the patterns of
  \<open>Data\<close>, and binary64 for the expressions in which a \<open>double\<close> constant occurs. Expressions are
  evaluated in the types of their operands, without contraction. The functions of
  \<^verbatim>\<open>math.h\<close> whose results C leaves to the implementation are fields of \<open>libm\<close>.
\<close>

record libm =
  expf :: "KsiData \<Rightarrow> KsiData"
  sinf :: "KsiData \<Rightarrow> KsiData"
  powf :: "KsiData \<Rightarrow> KsiData \<Rightarrow> KsiData"

section \<open>binary32\<close>

definition f32_neg :: "KsiData \<Rightarrow> KsiData" where "f32_neg w = w XOR 0x80000000"

definition f32_sub :: "KsiData \<Rightarrow> KsiData \<Rightarrow> KsiData" where
  "f32_sub a b = f32_add a (f32_neg b)"

definition f32_div :: "KsiData \<Rightarrow> KsiData \<Rightarrow> KsiData" where
  "f32_div a b =
     (let s = (f32_sign a \<noteq> f32_sign b) in
      if f32_is_nan a \<or> f32_is_nan b then f32_nan
      else if f32_is_inf a then (if f32_is_inf b then f32_nan else f32_pack s 255 0)
      else if f32_is_inf b then f32_pack s 0 0
      else if f32_mant b = 0 then (if f32_mant a = 0 then f32_nan else f32_pack s 255 0)
      else if f32_mant a = 0 then f32_pack s 0 0
      else (let (m, k) = cut_ratio (f32_mant a) (f32_mant b) in f32_round s m (k + f32_scale a - f32_scale b)))"

definition f32_of_int :: "int \<Rightarrow> KsiData" where
  "f32_of_int i = (if i = 0 then 0 else f32_round (i < 0) \<bar>i\<bar> 0)"

text \<open>The value of a finite pattern in units of \<open>2 ^ k\<close>, \<open>k\<close> at most its scale.\<close>

definition f32_units :: "int \<Rightarrow> KsiData \<Rightarrow> int" where
  "f32_units k w = (if f32_sign w then - 1 else 1) * f32_mant w * 2 ^ nat (f32_scale w - k)"

definition f32_lt :: "KsiData \<Rightarrow> KsiData \<Rightarrow> bool" where
  "f32_lt a b \<longleftrightarrow>
     (if f32_is_nan a \<or> f32_is_nan b then False
      else if f32_is_inf a then f32_sign a \<and> \<not> (f32_is_inf b \<and> f32_sign b)
      else if f32_is_inf b then \<not> f32_sign b
      else (let k = min (f32_scale a) (f32_scale b) in f32_units k a < f32_units k b))"

definition f32_is_zero :: "KsiData \<Rightarrow> bool" where
  "f32_is_zero w \<longleftrightarrow> f32_mant w = 0"

text \<open>\<open>remainderf(x, 1.0f)\<close>: what is left of the nearest integer, the even one of two.\<close>

definition f32_remainder_one :: "KsiData \<Rightarrow> KsiData" where
  "f32_remainder_one x =
     (if f32_is_nan x \<or> f32_is_inf x then f32_nan
      else if 0 \<le> f32_scale x then f32_pack (f32_sign x) 0 0
      else let d = 2 ^ nat (- f32_scale x); q = f32_mant x div d; r = f32_mant x mod d;
               r = (if d < 2 * r \<or> (d = 2 * r \<and> odd q) then r - d else r)
           in if r = 0 then f32_pack (f32_sign x) 0 0
              else f32_round (f32_sign x \<noteq> (r < 0)) \<bar>r\<bar> (f32_scale x))"

section \<open>binary64\<close>

text \<open>A finite value is a sign, a mantissa and the power of two it is multiplied with.\<close>

datatype f64 = F64_nan | F64_inf bool | F64 bool int int

definition f64_make :: "bool \<Rightarrow> int \<Rightarrow> int \<Rightarrow> f64" where
  "f64_make s n k =
     (if n = 0 then F64 s 0 0
      else case f64_round n k of None \<Rightarrow> F64_inf s | Some (m, e) \<Rightarrow> F64 s m e)"

definition f64_of_f32 :: "KsiData \<Rightarrow> f64" where
  "f64_of_f32 w =
     (if f32_is_nan w then F64_nan else if f32_is_inf w then F64_inf (f32_sign w)
      else F64 (f32_sign w) (f32_mant w) (f32_scale w))"

definition f32_of_f64 :: "f64 \<Rightarrow> KsiData" where
  "f32_of_f64 x =
     (case x of
        F64_nan \<Rightarrow> f32_nan
      | F64_inf s \<Rightarrow> f32_pack s 255 0
      | F64 s m e \<Rightarrow> if m = 0 then f32_pack s 0 0 else f32_round s m e)"

text \<open>An \<open>int\<close> is a \<open>double\<close>.\<close>

definition f64_of_int :: "int \<Rightarrow> f64" where
  "f64_of_int i = F64 (i < 0) \<bar>i\<bar> 0"

fun f64_neg :: "f64 \<Rightarrow> f64" where
  "f64_neg F64_nan = F64_nan"
| "f64_neg (F64_inf s) = F64_inf (\<not> s)"
| "f64_neg (F64 s m e) = F64 (\<not> s) m e"

fun f64_add :: "f64 \<Rightarrow> f64 \<Rightarrow> f64" where
  "f64_add F64_nan y = F64_nan"
| "f64_add x F64_nan = F64_nan"
| "f64_add (F64_inf s) (F64_inf t) = (if s = t then F64_inf s else F64_nan)"
| "f64_add (F64_inf s) y = F64_inf s"
| "f64_add x (F64_inf t) = F64_inf t"
| "f64_add (F64 s m e) (F64 t n f) =
     (let k = min e f;
          v = (if s then - 1 else 1) * m * 2 ^ nat (e - k) + (if t then - 1 else 1) * n * 2 ^ nat (f - k)
      in if v = 0 then F64 (s \<and> t) 0 0 else f64_make (v < 0) \<bar>v\<bar> k)"

definition f64_sub :: "f64 \<Rightarrow> f64 \<Rightarrow> f64" where
  "f64_sub x y = f64_add x (f64_neg y)"

fun f64_mul :: "f64 \<Rightarrow> f64 \<Rightarrow> f64" where
  "f64_mul F64_nan y = F64_nan"
| "f64_mul x F64_nan = F64_nan"
| "f64_mul (F64_inf s) (F64_inf t) = F64_inf (s \<noteq> t)"
| "f64_mul (F64_inf s) (F64 t n f) = (if n = 0 then F64_nan else F64_inf (s \<noteq> t))"
| "f64_mul (F64 s m e) (F64_inf t) = (if m = 0 then F64_nan else F64_inf (s \<noteq> t))"
| "f64_mul (F64 s m e) (F64 t n f) = f64_make (s \<noteq> t) (m * n) (e + f)"

fun f64_div :: "f64 \<Rightarrow> f64 \<Rightarrow> f64" where
  "f64_div F64_nan y = F64_nan"
| "f64_div x F64_nan = F64_nan"
| "f64_div (F64_inf s) (F64_inf t) = F64_nan"
| "f64_div (F64_inf s) (F64 t n f) = F64_inf (s \<noteq> t)"
| "f64_div (F64 s m e) (F64_inf t) = F64 (s \<noteq> t) 0 0"
| "f64_div (F64 s m e) (F64 t n f) =
     (if n = 0 then (if m = 0 then F64_nan else F64_inf (s \<noteq> t))
      else if m = 0 then F64 (s \<noteq> t) 0 0
      else (let (q, k) = cut_ratio m n in f64_make (s \<noteq> t) q (k + e - f)))"

text \<open>\<open>(int32_t)round(x)\<close>; a result that is no \<open>int32_t\<close> is undefined behaviour.\<close>

definition f64_round_int32 :: "f64 \<Rightarrow> int option" where
  "f64_round_int32 x =
     (case x of
        F64 s m e \<Rightarrow> do {
          let v = (if s then - round_half_up m e else round_half_up m e);
          need (int32_ok v);
          Some v
        }
      | _ \<Rightarrow> None)"

definition M_E :: f64 where "M_E = F64 False 0x15BF0A8B145769 (- 51)"
definition M_PI :: f64 where "M_PI = F64 False 0x1921FB54442D18 (- 51)"

text \<open>\<open>M_E*M_E*M_E\<close>\<close>

definition M_E3 :: f64 where "M_E3 = f64_mul (f64_mul M_E M_E) M_E"

section \<open>Rounding stays below a power of two\<close>

text \<open>A pattern between 0.0 and 1.0 (-0.0 included).\<close>

definition f32_in_unit :: "KsiData \<Rightarrow> bool" where
  "f32_in_unit w \<longleftrightarrow> \<not> f32_is_nan w \<and> \<not> f32_lt w 0 \<and> \<not> f32_lt f32_one w"

lemma f32_pack_read:
  assumes "0 \<le> e" "e < 256" "0 \<le> m" "m < 2 ^ 23"
  shows "f32_exp (f32_pack s e m) = e" "f32_frac (f32_pack s e m) = m" "f32_sign (f32_pack s e m) = s"
proof -
  let ?v = "(if s then 2 ^ 31 else 0) + e * 2 ^ 23 + m"
  have b: "0 \<le> e * 2 ^ 23 + m" "e * 2 ^ 23 + m < 2 ^ 31" using assms by auto
  then have u: "uint (f32_pack s e m) = ?v"
    unfolding f32_pack_def by (subst uint_word_of_int, intro mod_pos_pos_trivial) auto
  have d: "(e * 2 ^ 23 + m) div 2 ^ 23 = e" "(e * 2 ^ 23 + m) mod 2 ^ 23 = m" using assms by simp_all
  have v: "?v = (e * 2 ^ 23 + m) + (if s then 2 ^ 8 else 0) * 2 ^ 23" by simp
  have "?v div 2 ^ 23 = e + (if s then 2 ^ 8 else 0)" unfolding v by (subst div_mult_self1) (use d in auto)
  then show "f32_exp (f32_pack s e m) = e" unfolding f32_fields u using assms by simp
  show "f32_frac (f32_pack s e m) = m" unfolding f32_fields u v using d by simp
  show "f32_sign (f32_pack s e m) = s" unfolding f32_fields u using b by auto
qed

lemma f32_pack_read_mant:
  assumes "0 \<le> e" "e < 255" "0 \<le> m" "m < 2 ^ 23"
  shows "f32_mant (f32_pack s e m) = (if e = 0 then m else m + 2 ^ 23)"
    "f32_scale (f32_pack s e m) = (if e = 0 then - 149 else e - 150)"
    "\<not> f32_is_nan (f32_pack s e m)" "\<not> f32_is_inf (f32_pack s e m)"
  using assms by (simp_all add: f32_mant_def f32_scale_def f32_is_nan_def f32_is_inf_def f32_pack_read)

lemma f32_scale_ge: "- 149 \<le> f32_scale w"
  using f32_bounds(1) [of w] by (simp add: f32_scale_def)

text \<open>Comparing finite patterns in the smallest unit.\<close>

lemma f32_lt_units:
  assumes "\<not> f32_is_nan a" "\<not> f32_is_inf a" "\<not> f32_is_nan b" "\<not> f32_is_inf b"
  shows "f32_lt a b \<longleftrightarrow> f32_units (- 149) a < f32_units (- 149) b"
proof -
  let ?k = "min (f32_scale a) (f32_scale b)"
  have k: "- 149 \<le> ?k" using f32_scale_ge by simp
  have u: "f32_units (- 149) w = f32_units ?k w * 2 ^ nat (?k + 149)" if "?k \<le> f32_scale w" for w
  proof -
    have "nat (a + 149) = nat (a - l) + nat (l + 149)" if "- 149 \<le> l" "l \<le> a" for a l :: int using that by simp
    then have "nat (f32_scale w + 149) = nat (f32_scale w - ?k) + nat (?k + 149)" using that k by blast
    then show ?thesis by (simp add: f32_units_def power_add)
  qed
  have "f32_units ?k a < f32_units ?k b \<longleftrightarrow> f32_units (- 149) a < f32_units (- 149) b"
    by (simp add: u)
  then show ?thesis using assms by (simp add: f32_lt_def Let_def)
qed

lemma f32_units_special: "f32_units (- 149) 0 = 0" "f32_units (- 149) f32_one = 2 ^ 149"
proof -
  have "f32_mant 0 = 0" by (simp add: f32_mant_def f32_fields)
  then show "f32_units (- 149) 0 = 0" "f32_units (- 149) f32_one = 2 ^ 149"
    by (simp_all add: f32_units_def f32_one_fields)
qed

text \<open>Dividing by \<open>2 ^ sh\<close> as \<open>f32_round\<close> does.\<close>

definition rounded_shift :: "int \<Rightarrow> int \<Rightarrow> int" where
  "rounded_shift n sh =
     (if sh \<le> 0 then n * 2 ^ nat (- sh)
      else let d = n div 2 ^ nat sh; r = n mod 2 ^ nat sh; h = 2 ^ (nat sh - 1) in
        if h < r \<or> (r = h \<and> odd d) then d + 1 else d)"

lemma rounded_shift_le:
  assumes "0 \<le> n" "n \<le> 2 ^ j"
  shows "0 \<le> rounded_shift n sh" "rounded_shift n sh \<le> 2 ^ nat (int j - sh)"
proof -
  show "0 \<le> rounded_shift n sh" using assms(1) by (auto simp: rounded_shift_def Let_def pos_imp_zdiv_nonneg_iff)
  let ?a = "2 ^ nat sh :: int" and ?b = "2 ^ nat (int j - sh) :: int"
  show "rounded_shift n sh \<le> ?b"
  proof (cases "sh \<le> 0")
    case True
    then have "nat (int j - sh) = j + nat (- sh)" by simp
    then show ?thesis using True assms(2) by (simp add: rounded_shift_def power_add)
  next
    case False
    have p: "2 ^ j \<le> ?b * ?a"
    proof -
      have "j \<le> nat (int j - sh) + nat sh" using False by simp
      then show ?thesis by (simp add: power_add [symmetric])
    qed
    have d: "n div ?a * ?a \<le> n" by (simp add: minus_mod_eq_div_mult [symmetric])
    show ?thesis
    proof (cases "n = ?b * ?a")
      case True
      then show ?thesis using False by (simp add: rounded_shift_def Let_def)
    next
      case less: False
      have "n div ?a < ?b"
      proof (rule ccontr)
        assume "\<not> n div ?a < ?b"
        then have "?b * ?a \<le> n div ?a * ?a" by (intro mult_right_mono) auto
        then show False using d less assms(2) p by linarith
      qed
      then show ?thesis using False by (simp add: rounded_shift_def Let_def)
    qed
  qed
qed

lemma bit_length_bound: "n < 2 ^ nat (bit_length n)"
proof (rule ccontr)
  assume "\<not> n < 2 ^ nat (bit_length n)"
  then have "2 ^ nat (bit_length n) \<le> n" by simp
  then have "int (nat (bit_length n)) + 1 \<le> bit_length n" by (rule bit_length_ge)
  then show False by linarith
qed

lemma f32_round_shift:
  "f32_round s n k =
     (let sh = max (bit_length n - 24) (- 149 - k); q = rounded_shift n sh;
          (q, e) = (if q = 2 ^ 24 then (2 ^ 23, k + sh + 1) else (q, k + sh))
      in if q < 2 ^ 23 then f32_pack s 0 q
         else if 255 \<le> e + 150 then f32_pack s 255 0
         else f32_pack s (e + 150) (q - 2 ^ 23))"
  by (simp add: f32_round_def rounded_shift_def Let_def)

lemma rounded_shift_mantissa:
  assumes "0 < n"
  shows "rounded_shift n (max (bit_length n - 24) x) \<le> 2 ^ 24"
proof -
  let ?sh = "max (bit_length n - 24) x"
  have "rounded_shift n ?sh \<le> 2 ^ nat (int (nat (bit_length n)) - ?sh)"
    using rounded_shift_le(2) [of n "nat (bit_length n)" ?sh] bit_length_bound [of n] assms by simp
  also have "\<dots> \<le> 2 ^ 24"
  proof -
    have "0 \<le> bit_length n" using bit_length_ge [of 0 n] assms by simp
    then show ?thesis by (intro power_increasing) auto
  qed
  finally show ?thesis .
qed

text \<open>The sign does not matter for the other fields.\<close>

lemma f32_round_pack:
  assumes "0 < n"
  shows "\<exists>e m. 0 \<le> e \<and> e < 256 \<and> 0 \<le> m \<and> m < 2 ^ 23 \<and> (\<forall>s. f32_round s n k = f32_pack s e m)"
proof -
  define sh where "sh = max (bit_length n - 24) (- 149 - k)"
  define q where "q = rounded_shift n sh"
  have q: "0 \<le> q" "q \<le> 2 ^ 24"
    using rounded_shift_le(1) [of n "nat (bit_length n)" sh] bit_length_bound [of n] rounded_shift_mantissa [OF assms, of "- 149 - k"] assms
    by (simp_all add: q_def sh_def)
  have e: "- 149 \<le> k + sh" by (simp add: sh_def)
  have r: "f32_round s n k =
     (let (q, e) = (if q = 2 ^ 24 then (2 ^ 23, k + sh + 1) else (q, k + sh))
      in if q < 2 ^ 23 then f32_pack s 0 q else if 255 \<le> e + 150 then f32_pack s 255 0 else f32_pack s (e + 150) (q - 2 ^ 23))" for s
    by (simp add: f32_round_shift sh_def q_def Let_def)
  consider "q < 2 ^ 23" | "2 ^ 23 \<le> q" "q < 2 ^ 24" | "q = 2 ^ 24" using q by linarith
  then show ?thesis
  proof cases
    case 1
    then show ?thesis unfolding r using q(1) by (intro exI [of _ 0] exI [of _ q]) simp
  next
    case 2
    then show ?thesis unfolding r using e
      by (intro exI [of _ "if 255 \<le> k + sh + 150 then 255 else k + sh + 150"] exI [of _ "if 255 \<le> k + sh + 150 then 0 else q - 2 ^ 23"]) simp
  next
    case 3
    then show ?thesis unfolding r using e
      by (intro exI [of _ "if 255 \<le> k + sh + 1 + 150 then 255 else k + sh + 1 + 150"] exI [of _ 0]) simp
  qed
qed

text \<open>A positive number that is at most 1 is rounded to one that is at most 1.\<close>

lemma f32_round_le_one:
  assumes "0 < n" "n \<le> 2 ^ j"
  shows "f32_in_unit (f32_round False n (- int j))"
proof -
  define sh where "sh = max (bit_length n - 24) (- 149 + int j)"
  define q where "q = rounded_shift n sh"
  define e where "e = - int j + sh"
  have "bit_length n \<le> int (Suc j)" using bit_length_le [of n "Suc j"] assms by simp
  then have e: "- 149 \<le> e" "e \<le> 0" by (auto simp: sh_def e_def)
  have q: "0 \<le> q" "q \<le> 2 ^ nat (- e)"
    using rounded_shift_le [of n j sh] assms by (simp_all add: q_def e_def)
  have q24: "q \<le> 2 ^ 24" using rounded_shift_mantissa [OF assms(1)] by (simp add: q_def sh_def)
  have units: "f32_units (- 149) (f32_pack False x m) = (if x = 0 then m else (m + 2 ^ 23) * 2 ^ nat (x - 1))"
    if "0 \<le> x" "x < 255" "0 \<le> m" "m < 2 ^ 23" for x m
    using f32_pack_read [of x m False] f32_pack_read_mant [OF that] that by (simp add: f32_units_def)
  have unit: "f32_in_unit (f32_pack False x m)"
    if "0 \<le> x" "x < 255" "0 \<le> m" "m < 2 ^ 23" "(if x = 0 then m else (m + 2 ^ 23) * 2 ^ nat (x - 1)) \<le> 2 ^ 149" for x m
  proof -
    have z: "\<not> f32_is_nan 0" "\<not> f32_is_inf 0" by (simp_all add: f32_is_nan_def f32_is_inf_def f32_fields)
    show ?thesis
      using f32_pack_read_mant(3,4) [OF that(1-4)] that(3,5)
      by (simp add: f32_in_unit_def f32_lt_units z f32_one_fields f32_units_special units [OF that(1-4)] mult_less_0_iff)
  qed
  have r: "f32_round False n (- int j) =
     (let (q, e) = (if q = 2 ^ 24 then (2 ^ 23, e + 1) else (q, e))
      in if q < 2 ^ 23 then f32_pack False 0 q
         else if 255 \<le> e + 150 then f32_pack False 255 0
         else f32_pack False (e + 150) (q - 2 ^ 23))"
    by (simp add: f32_round_shift sh_def q_def e_def Let_def)
  have small: "x \<le> nat (- e)" if "2 ^ x \<le> q" for x
    using order_trans [OF that q(2)] by simp
  consider "q < 2 ^ 23" | "2 ^ 23 \<le> q" "q < 2 ^ 24" | "q = 2 ^ 24" using q24 by linarith
  then show ?thesis
  proof cases
    case 1
    then show ?thesis unfolding r using q(1) by (simp add: unit)
  next
    case 2
    have p: "q * 2 ^ nat (e + 149) \<le> 2 ^ 149"
    proof -
      have "q * 2 ^ nat (e + 149) \<le> 2 ^ nat (- e) * 2 ^ nat (e + 149)" using q(2) by (intro mult_right_mono) auto
      also have "\<dots> = 2 ^ 149" using e by (simp add: power_add [symmetric] nat_add_distrib [symmetric])
      finally show ?thesis .
    qed
    have "e + 150 < 255" "1 \<le> e + 150" using e by linarith+
    then show ?thesis unfolding r using unit [of "e + 150" "q - 2 ^ 23"] 2 p by (simp add: add.commute)
  next
    case 3
    then have "24 \<le> nat (- e)" using small [of 24] by simp
    then have b: "e + 1 + 150 < 255" "1 \<le> e + 1 + 150" "e \<le> - 24" using e by linarith+
    have "(2::int) ^ (23 + nat (e + 1 + 150 - 1)) \<le> 2 ^ 149"
      by (rule power_increasing) (use b(3) e in linarith, simp)
    then have "f32_in_unit (f32_pack False (e + 1 + 150) 0)"
      using b(1,2) by (intro unit) (simp_all only: power_add, simp_all)
    then show ?thesis unfolding r using 3 b by (simp add: add.commute)
  qed
qed

text \<open>So is the difference of 1 and a number between 0 and 1.\<close>

lemma f32_unit_units:
  assumes "f32_in_unit w" "\<not> f32_is_inf w"
  shows "0 \<le> f32_units (- 149) w" "f32_units (- 149) w \<le> 2 ^ 149"
proof -
  have "\<not> f32_is_nan 0" "\<not> f32_is_inf 0" by (simp_all add: f32_is_nan_def f32_is_inf_def f32_fields)
  then show "0 \<le> f32_units (- 149) w" "f32_units (- 149) w \<le> 2 ^ 149"
    using assms f32_lt_units [of w 0] f32_lt_units [of f32_one w]
    by (simp_all add: f32_in_unit_def f32_one_fields f32_units_special)
qed

lemma f32_zero_unit: "f32_in_unit (f32_pack s 0 0)"
proof -
  have "\<not> f32_is_nan 0" "\<not> f32_is_inf 0" by (simp_all add: f32_is_nan_def f32_is_inf_def f32_fields)
  moreover have "f32_units (- 149) (f32_pack s 0 0) = 0" by (simp add: f32_units_def f32_pack_read_mant)
  ultimately show ?thesis
    by (simp add: f32_in_unit_def f32_lt_units f32_one_fields f32_units_special f32_pack_read_mant)
qed

lemma f32_unit_not_inf:
  assumes "f32_in_unit w"
  shows "\<not> f32_is_inf w"
proof
  assume i: "f32_is_inf w"
  have "\<not> f32_is_nan 0" "\<not> f32_is_inf 0" by (simp_all add: f32_is_nan_def f32_is_inf_def f32_fields)
  then show False using assms i by (auto simp: f32_in_unit_def f32_lt_def f32_one_fields)
qed

lemma f32_one_minus_unit:
  assumes "0 < n" "n \<le> 2 ^ j"
  shows "f32_in_unit (f32_add (f32_round True n (- int j)) f32_one)"
proof -
  obtain e m where em: "0 \<le> e" "e < 256" "0 \<le> m" "m < 2 ^ 23" "\<And>s. f32_round s n (- int j) = f32_pack s e m"
    using f32_round_pack [OF assms(1)] by blast
  let ?y = "f32_pack True e m" and ?z = "f32_pack False e m"
  have z: "f32_in_unit ?z" using f32_round_le_one [OF assms] em(5) by simp
  have same: "f32_mant ?y = f32_mant ?z" "f32_scale ?y = f32_scale ?z" "f32_is_nan ?y = f32_is_nan ?z"
    "f32_is_inf ?y = f32_is_inf ?z" "f32_sign ?y" "\<not> f32_sign ?z"
    using em(1-4) by (simp_all add: f32_mant_def f32_scale_def f32_is_nan_def f32_is_inf_def f32_pack_read)
  have fin: "\<not> f32_is_nan ?y" "\<not> f32_is_inf ?y"
    using z f32_unit_not_inf [OF z] by (simp_all add: same f32_in_unit_def)
  let ?k = "min (f32_scale ?z) (- 23)"
  have k: "- 149 \<le> ?k" "?k \<le> f32_scale ?z" "?k \<le> - 23" using f32_scale_ge [of ?z] by auto
  define c where "c = f32_mant ?z * 2 ^ nat (f32_scale ?z - ?k)"
  have c0: "0 \<le> c" using f32_bounds(3) [of ?z] by (simp add: c_def f32_mant_def)
  have "c \<le> 2 ^ nat (- ?k)"
  proof -
    have "f32_units (- 149) ?z = c * 2 ^ nat (?k + 149)"
    proof -
      have "nat (a + 149) = nat (a - l) + nat (l + 149)" if "- 149 \<le> l" "l \<le> a" for a l :: int using that by simp
      then have "nat (f32_scale ?z + 149) = nat (f32_scale ?z - ?k) + nat (?k + 149)" using k by blast
      then show ?thesis by (simp add: f32_units_def c_def same(6) power_add)
    qed
    moreover have "(2::int) ^ 149 = 2 ^ nat (- ?k) * 2 ^ nat (?k + 149)"
    proof -
      have "nat (- l) + nat (l + 149) = 149" if "- 149 \<le> l" "l \<le> - 23" for l :: int using that by simp
      then have "nat (- ?k) + nat (?k + 149) = 149" using k by blast
      then show ?thesis by (metis power_add)
    qed
    ultimately have "c * 2 ^ nat (?k + 149) \<le> 2 ^ nat (- ?k) * 2 ^ nat (?k + 149)"
      using f32_unit_units(2) [OF z f32_unit_not_inf [OF z]] by simp
    then show ?thesis by simp
  qed
  have one: "(2::int) ^ 23 * 2 ^ nat (- 23 - ?k) = 2 ^ nat (- ?k)"
  proof -
    have "23 + nat (- 23 - l) = nat (- l)" if "l \<le> - 23" for l :: int using that by simp
    then show ?thesis using k(3) by (metis power_add)
  qed
  define d where "d = 2 ^ nat (- ?k) - c"
  have d: "0 \<le> d" "d \<le> 2 ^ nat (- ?k)" using c0 \<open>c \<le> 2 ^ nat (- ?k)\<close> by (simp_all add: d_def)
  have "f32_add ?y f32_one = (if d = 0 then f32_pack False 0 0 else f32_round (d < 0) \<bar>d\<bar> ?k)"
    using fin one by (simp add: f32_add_def Let_def f32_one_fields same c_def d_def)
  then show ?thesis
    using d f32_zero_unit f32_round_le_one [of d "nat (- ?k)"] k(3) em(5) by simp
qed

lemma negative_in_unit:
  assumes "0 < n" "n \<le> 2 ^ j" "\<not> f32_lt (f32_round True n (- int j)) 0"
  shows "f32_in_unit (f32_round True n (- int j))"
proof -
  obtain e m where em: "0 \<le> e" "e < 256" "0 \<le> m" "m < 2 ^ 23" "\<And>s. f32_round s n (- int j) = f32_pack s e m"
    using f32_round_pack [OF assms(1)] by blast
  let ?y = "f32_pack True e m" and ?z = "f32_pack False e m"
  have z: "f32_in_unit ?z" using f32_round_le_one [OF assms(1,2)] em(5) by simp
  have y: "f32_is_nan ?y = f32_is_nan ?z" "f32_is_inf ?y = f32_is_inf ?z" "f32_sign ?y"
    using em(1-4) by (simp_all add: f32_is_nan_def f32_is_inf_def f32_pack_read)
  then have fin: "\<not> f32_is_nan ?y" "\<not> f32_is_inf ?y"
    using z f32_unit_not_inf [OF z] by (simp_all add: f32_in_unit_def)
  have "f32_units (- 149) ?y \<le> 0" using f32_bounds(3) [of ?y] y(3) by (simp add: f32_units_def f32_mant_def)
  then have "\<not> f32_lt f32_one ?y" using fin by (simp add: f32_lt_units f32_one_fields f32_units_special)
  then show ?thesis using assms(3) fin em(5) by (simp add: f32_in_unit_def)
qed

lemma f32_remainder_one_cases:
  assumes "\<not> f32_is_nan x" "\<not> f32_is_inf x"
  shows "f32_in_unit (f32_remainder_one x) \<or> (\<exists>n j. 0 < n \<and> n \<le> 2 ^ j \<and> f32_remainder_one x = f32_round True n (- int j))"
proof (cases "0 \<le> f32_scale x")
  case True
  then show ?thesis using assms by (simp add: f32_remainder_one_def f32_zero_unit)
next
  case False
  let ?j = "nat (- f32_scale x)"
  let ?d = "2 ^ ?j :: int"
  define q where "q = f32_mant x div ?d"
  define r where "r = f32_mant x mod ?d"
  define r' where "r' = (if ?d < 2 * r \<or> (?d = 2 * r \<and> odd q) then r - ?d else r)"
  have r: "0 \<le> r" "r < ?d" by (simp_all add: r_def)
  then have r': "\<bar>r'\<bar> \<le> ?d" by (auto simp: r'_def)
  have "f32_remainder_one x = (if r' = 0 then f32_pack (f32_sign x) 0 0 else f32_round (f32_sign x \<noteq> (r' < 0)) \<bar>r'\<bar> (- int ?j))"
    using assms False by (simp add: f32_remainder_one_def Let_def q_def r_def r'_def)
  then show ?thesis
    using f32_zero_unit f32_round_le_one [of "\<bar>r'\<bar>" ?j] r'
    by (cases "r' = 0"; cases "f32_sign x \<noteq> (r' < 0)") (auto intro!: exI [of _ "\<bar>r'\<bar>"] exI [of _ ?j])
qed

end
