(* ===== verification/Events.thy ===== *)
theory Events
  imports Mix "HOL-Library.Multiset"
begin

text \<open>
  Iterating over the events of an input port (\<^verbatim>\<open>ksid/dag.h\<close>). Every wire of the port has a
  cursor in the queue of its source; the cursors are the lists of the events not yet delivered,
  in the order of the wires. The queues do not change while a node iterates: their sources have
  been evaluated before.
\<close>

section \<open>The iteration\<close>

fun begin_iterate :: "KsiEngine \<Rightarrow> KsiEventEnvEntry list \<Rightarrow> KsiEvent list list option" where
  "begin_iterate e [] = Some []"
| "begin_iterate e (ee # rest) = do {
     b \<leftarrow> output_buffer e (src ee) (srcPort ee);
     blk \<leftarrow> blocks e b;
     (case blk of
        EventQueue es \<Rightarrow> do { qs \<leftarrow> begin_iterate e rest; Some (es # qs) }
      | Raw _ \<Rightarrow> None)
   }"

definition ksiNodeBeginIterateEvent :: "KsiEngine \<Rightarrow> ptr \<Rightarrow> int \<Rightarrow> KsiEvent list list option" where
  "ksiNodeBeginIterateEvent e p port = do {
     n \<leftarrow> audio_node e p;
     env \<leftarrow> get_at (nenv n) port;
     (case env of EventEnv es \<Rightarrow> begin_iterate e es | SignalEnv _ _ _ \<Rightarrow> None)
   }"

text \<open>The search for the soonest event: \<open>i\<close> is the position of the next wire, \<open>best\<close> the position
  of \<open>cn\<close> and \<open>ct\<close> once \<open>flag\<close> is set.\<close>

fun soonest :: "nat \<Rightarrow> (nat \<times> uint64) option \<Rightarrow> KsiEvent list list \<Rightarrow> (nat \<times> uint64) option" where
  "soonest i best [] = best"
| "soonest i best (q # qs) =
     soonest (Suc i)
       (case q of
          [] \<Rightarrow> best
        | ev # _ \<Rightarrow>
            (case best of
               None \<Rightarrow> Some (i, timeStamp ev)
             | Some (j, ct) \<Rightarrow> if timeStamp ev < ct then Some (i, timeStamp ev) else best)) qs"

definition ksiNodeGetNextEvent :: "KsiEvent list list \<Rightarrow> KsiEvent option \<times> KsiEvent list list" where
  "ksiNodeGetNextEvent qs =
     (case soonest 0 None qs of
        None \<Rightarrow> (None, qs)
      | Some (j, _) \<Rightarrow> (Some (hd (qs ! j)), qs[j := tl (qs ! j)]))"

section \<open>The order of the events\<close>

text \<open>All events, taken one after the other; \<open>k\<close> bounds their number.\<close>

fun take_events :: "nat \<Rightarrow> KsiEvent list list \<Rightarrow> KsiEvent list" where
  "take_events 0 qs = []"
| "take_events (Suc k) qs =
     (case ksiNodeGetNextEvent qs of (None, _) \<Rightarrow> [] | (Some ev, qs) \<Rightarrow> ev # take_events k qs)"

abbreviation in_time :: "KsiEvent list list \<Rightarrow> bool" where
  "in_time qs \<equiv> \<forall>q \<in> set qs. sorted (map timeStamp q)"

definition later :: "uint64 \<Rightarrow> KsiEvent list list \<Rightarrow> bool" where
  "later t qs \<longleftrightarrow> (\<forall>q \<in> set qs. q \<noteq> [] \<longrightarrow> t < timeStamp (hd q))"

definition not_before :: "uint64 \<Rightarrow> KsiEvent list list \<Rightarrow> bool" where
  "not_before t qs \<longleftrightarrow> (\<forall>q \<in> set qs. q \<noteq> [] \<longrightarrow> t \<le> timeStamp (hd q))"

lemma later_simps [simp]:
  "later t []" "later t (q # qs) \<longleftrightarrow> (q \<noteq> [] \<longrightarrow> t < timeStamp (hd q)) \<and> later t qs"
  "not_before t []" "not_before t (q # qs) \<longleftrightarrow> (q \<noteq> [] \<longrightarrow> t \<le> timeStamp (hd q)) \<and> not_before t qs"
  by (simp_all add: later_def not_before_def)

text \<open>What the search finds in the wires from \<open>i\<close> on when it starts with a candidate.\<close>

lemma soonest_better:
  "\<exists>j' t'. soonest i (Some (j, t)) qs = Some (j', t') \<and> t' \<le> t \<and>
     ((j' = j \<and> t' = t \<and> not_before t qs) \<or>
      (\<exists>us ev q vs. qs = us @ (ev # q) # vs \<and> j' = i + length us \<and> t' = timeStamp ev \<and> t' < t \<and>
         later t' us \<and> not_before t' vs))"
proof (induction qs arbitrary: i j t)
  case (Cons q qs)
  show ?case
  proof (cases "\<exists>ev r. q = ev # r \<and> timeStamp ev < t")
    case True
    then obtain ev r where q: "q = ev # r" "timeStamp ev < t" by blast
    from Cons.IH [of "Suc i" i "timeStamp ev"] obtain j' t' where
      *: "soonest (Suc i) (Some (i, timeStamp ev)) qs = Some (j', t')" "t' \<le> timeStamp ev"
        "(j' = i \<and> t' = timeStamp ev \<and> not_before (timeStamp ev) qs) \<or>
         (\<exists>us ev' q vs. qs = us @ (ev' # q) # vs \<and> j' = Suc i + length us \<and> t' = timeStamp ev' \<and> t' < timeStamp ev \<and>
            later t' us \<and> not_before t' vs)" by blast
    from *(3) have "\<exists>us ev' q' vs. q # qs = us @ (ev' # q') # vs \<and> j' = i + length us \<and> t' = timeStamp ev' \<and> t' < t \<and>
         later t' us \<and> not_before t' vs"
    proof (elim disjE conjE exE)
      assume "j' = i" "t' = timeStamp ev" "not_before (timeStamp ev) qs"
      then show ?thesis using q by (intro exI [of _ "[]"]) auto
    next
      fix us ev' q' vs
      assume "qs = us @ (ev' # q') # vs" "j' = Suc i + length us" "t' = timeStamp ev'" "t' < timeStamp ev"
        "later t' us" "not_before t' vs"
      then show ?thesis using q by (intro exI [of _ "q # us"] exI [of _ ev'] exI [of _ q'] exI [of _ vs]) auto
    qed
    moreover have "soonest i (Some (j, t)) (q # qs) = Some (j', t')" "t' \<le> t" using q * by auto
    ultimately show ?thesis by blast
  next
    case False
    then have s: "soonest i (Some (j, t)) (q # qs) = soonest (Suc i) (Some (j, t)) qs"
      and b: "q \<noteq> [] \<longrightarrow> t \<le> timeStamp (hd q)" by (cases q; auto simp: not_less)+
    from Cons.IH [of "Suc i" j t] obtain j' t' where
      *: "soonest (Suc i) (Some (j, t)) qs = Some (j', t')" "t' \<le> t"
        "(j' = j \<and> t' = t \<and> not_before t qs) \<or>
         (\<exists>us ev' q vs. qs = us @ (ev' # q) # vs \<and> j' = Suc i + length us \<and> t' = timeStamp ev' \<and> t' < t \<and>
            later t' us \<and> not_before t' vs)" by blast
    from *(3) have "(j' = j \<and> t' = t \<and> not_before t (q # qs)) \<or>
       (\<exists>us ev' q' vs. q # qs = us @ (ev' # q') # vs \<and> j' = i + length us \<and> t' = timeStamp ev' \<and> t' < t \<and>
          later t' us \<and> not_before t' vs)"
    proof (elim disjE conjE exE)
      fix us ev' q' vs
      assume "qs = us @ (ev' # q') # vs" "j' = Suc i + length us" "t' = timeStamp ev'" "t' < t"
        "later t' us" "not_before t' vs"
      then show ?thesis
        using b by (intro disjI2 exI [of _ "q # us"] exI [of _ ev'] exI [of _ q'] exI [of _ vs]) auto
    qed (use b in simp)
    then show ?thesis using s * by auto
  qed
qed simp

lemma soonest_first:
  "case soonest i None qs of
     None \<Rightarrow> concat qs = []
   | Some (j, t) \<Rightarrow> \<exists>us ev q vs. qs = us @ (ev # q) # vs \<and> j = i + length us \<and> t = timeStamp ev \<and> later t us \<and> not_before t vs"
proof (induction qs arbitrary: i)
  case (Cons q qs)
  show ?case
  proof (cases q)
    case Nil
    have "\<exists>us ev q' vs. q # qs = us @ (ev # q') # vs \<and> j = i + length us \<and> t = timeStamp ev \<and> later t us \<and> not_before t vs"
      if "soonest (Suc i) None qs = Some (j, t)" for j t
    proof -
      from Cons.IH [of "Suc i"] that obtain us ev q' vs where
        "qs = us @ (ev # q') # vs" "j = Suc i + length us" "t = timeStamp ev" "later t us" "not_before t vs" by auto
      then show ?thesis using Nil by (intro exI [of _ "q # us"] exI [of _ ev] exI [of _ q'] exI [of _ vs]) simp
    qed
    then show ?thesis using Nil Cons.IH [of "Suc i"] by (auto split: option.splits)
  next
    case (Cons ev r)
    from soonest_better [of "Suc i" i "timeStamp ev" qs] obtain j t where
      *: "soonest (Suc i) (Some (i, timeStamp ev)) qs = Some (j, t)"
        "(j = i \<and> t = timeStamp ev \<and> not_before (timeStamp ev) qs) \<or>
         (\<exists>us ev' q vs. qs = us @ (ev' # q) # vs \<and> j = Suc i + length us \<and> t = timeStamp ev' \<and> t < timeStamp ev \<and>
            later t us \<and> not_before t vs)" by blast
    from *(2) have "\<exists>us ev' q' vs. q # qs = us @ (ev' # q') # vs \<and> j = i + length us \<and> t = timeStamp ev' \<and> later t us \<and> not_before t vs"
    proof (elim disjE conjE exE)
      assume "j = i" "t = timeStamp ev" "not_before (timeStamp ev) qs"
      then show ?thesis using Cons by (intro exI [of _ "[]"]) auto
    next
      fix us ev' q' vs
      assume "qs = us @ (ev' # q') # vs" "j = Suc i + length us" "t = timeStamp ev'" "t < timeStamp ev"
        "later t us" "not_before t vs"
      then show ?thesis using Cons by (intro exI [of _ "q # us"] exI [of _ ev'] exI [of _ q'] exI [of _ vs]) auto
    qed
    then show ?thesis using Cons *(1) by simp
  qed
qed simp

lemma next_event_cases:
  obtains "ksiNodeGetNextEvent qs = (None, qs)" "concat qs = []"
  | us ev q vs where "qs = us @ (ev # q) # vs" "ksiNodeGetNextEvent qs = (Some ev, us @ q # vs)"
      "later (timeStamp ev) us" "not_before (timeStamp ev) vs"
proof (cases "soonest 0 None qs")
  case None
  then show ?thesis using soonest_first [of qs 0] that(1) by (simp add: ksiNodeGetNextEvent_def)
next
  case (Some p)
  then obtain j t us ev q vs where p: "p = (j, t)" "qs = us @ (ev # q) # vs" "j = length us" "t = timeStamp ev"
    "later t us" "not_before t vs"
    using soonest_first [of qs 0] by (cases p) auto
  then have "ksiNodeGetNextEvent qs = (Some ev, us @ q # vs)"
    using Some by (simp add: ksiNodeGetNextEvent_def)
  then show ?thesis using p by (intro that(2)) simp_all
qed

lemma in_time_all:
  assumes "in_time qs" "x \<in> set (concat qs)"
  shows "\<exists>q \<in> set qs. q \<noteq> [] \<and> timeStamp (hd q) \<le> timeStamp x"
proof -
  obtain q where q: "q \<in> set qs" "x \<in> set q" using assms(2) by auto
  moreover have "sorted (map timeStamp q)" using assms(1) q by blast
  ultimately have "timeStamp (hd q) \<le> timeStamp x" by (cases q rule: list.exhaust) auto
  then show ?thesis using q by (intro bexI [of _ q]) auto
qed

text \<open>A first element that is before everything in front of it and not after anything behind it.\<close>

lemma sort_key_first:
  assumes "\<forall>x \<in> set xs. f y < f x" "\<forall>x \<in> set ys. f y \<le> f x"
  shows "sort_key f (xs @ y # ys) = y # sort_key f (xs @ ys)"
proof (rule properties_for_sort_key)
  show "mset (y # sort_key f (xs @ ys)) = mset (xs @ y # ys)" by simp
  show "sorted (map f (y # sort_key f (xs @ ys)))"
    using assms by (auto intro: less_imp_le)
  have "filter (\<lambda>x. f y = f x) xs = []" using assms(1) by (auto simp: filter_empty_conv)
  then show "filter (\<lambda>x. f k = f x) (y # sort_key f (xs @ ys)) = filter (\<lambda>x. f k = f x) (xs @ y # ys)" for k
    using sort_key_stable [of f "f k" "xs @ ys"] by (auto simp: eq_commute [of "f k"])
qed

lemma take_events_sorts:
  "in_time qs \<Longrightarrow> length (concat qs) \<le> k \<Longrightarrow> take_events k qs = sort_key timeStamp (concat qs)"
proof (induction k arbitrary: qs)
  case (Suc k)
  show ?case
  proof (cases qs rule: next_event_cases)
    case 1
    then have "concat qs = []" by simp
    then show ?thesis using 1(1) by (simp del: concat_eq_Nil_conv)
  next
    case (2 us ev q vs)
    have t: "in_time us" "in_time vs" "sorted (map timeStamp (ev # q))" "in_time (us @ q # vs)"
      using Suc.prems(1) 2(1) by auto
    have "\<forall>x \<in> set (concat us). timeStamp ev < timeStamp x"
      using in_time_all [OF t(1)] 2(3) by (fastforce simp: later_def)
    moreover have "\<forall>x \<in> set (q @ concat vs). timeStamp ev \<le> timeStamp x"
      using in_time_all [OF t(2)] 2(4) t(3) by (fastforce simp: not_before_def)
    ultimately have "sort_key timeStamp (concat us @ ev # q @ concat vs) = ev # sort_key timeStamp (concat us @ q @ concat vs)"
      by (rule sort_key_first)
    moreover have "take_events k (us @ q # vs) = sort_key timeStamp (concat (us @ q # vs))"
      by (rule Suc.IH [OF t(4)]) (use Suc.prems(2) 2(1) in simp)
    ultimately show ?thesis using 2(1,2) by simp
  qed
next
  case 0
  then have "concat qs = []" by simp
  then show ?case by (simp del: concat_eq_Nil_conv)
qed

text \<open>What a wire contributes: the queue of its source.\<close>

definition events_at :: "KsiEngine \<Rightarrow> KsiEventEnvEntry \<Rightarrow> KsiEvent list option" where
  "events_at e ee = do {
     b \<leftarrow> output_buffer e (src ee) (srcPort ee);
     blk \<leftarrow> blocks e b;
     (case blk of EventQueue q \<Rightarrow> Some q | Raw _ \<Rightarrow> None)
   }"

lemma begin_iterate_all: "map (events_at e) es = map Some qs \<Longrightarrow> begin_iterate e es = Some qs"
proof (induction es arbitrary: qs)
  case (Cons ee es)
  then obtain q qs' where q: "qs = q # qs'" "events_at e ee = Some q" "map (events_at e) es = map Some qs'"
    by (cases qs) auto
  then show ?case using Cons.IH [OF q(3)]
    by (auto simp: events_at_def split: Option.bind_splits block.splits)
qed simp

text \<open>C22: The events of a port come in the order of their time stamps, those of one time in the order of the wires, as if
  all events of the sources had been put together and sorted; none is left out or delivered twice. Each source has
  to have its own events in order.\<close>

theorem events_delivered_in_order:
  assumes "audio_node e p = Some n" "get_at (nenv n) port = Some (EventEnv es)"
    "map (events_at e) es = map Some qs" "in_time qs"
  shows "ksiNodeBeginIterateEvent e p port = Some qs \<and>
    take_events (length (concat qs)) qs = sort_key timeStamp (concat qs)"
  using begin_iterate_all [OF assms(3)] take_events_sorts [OF assms(4) order.refl] assms(1,2)
  by (simp add: ksiNodeBeginIterateEvent_def)

definition ex_queues :: "KsiEvent list \<Rightarrow> KsiEvent list \<Rightarrow> KsiEngine" where
  "ex_queues q r = (ksiEngineInit 4 48000)
     \<lparr>ver := (\<lambda>_. empty_version\<lparr>nheap := [1 \<mapsto> ex_source 0x9 11, 2 \<mapsto> ex_source 0x9 12,
        3 \<mapsto> (ex_sink NULL [])\<lparr>nenv := [EventEnv [ex_wire 1 0, ex_wire 2 0]]\<rparr>]\<rparr>),
      blocks := [11 \<mapsto> EventQueue q, 12 \<mapsto> EventQueue r]\<rparr>"

theorem events_delivered_in_order_witness:
  "\<exists>qs. ksiNodeBeginIterateEvent (ex_queues [\<lparr>timeStamp = 1, edata = 5\<rparr>, \<lparr>timeStamp = 4, edata = 6\<rparr>] [\<lparr>timeStamp = 1, edata = 7\<rparr>]) 3 0 = Some qs \<and>
     map edata (take_events 3 qs) = [5, 7, 6]"
proof -
  let ?q = "[\<lparr>timeStamp = 1, edata = 5\<rparr>, \<lparr>timeStamp = 4, edata = 6\<rparr>] :: KsiEvent list"
  let ?r = "[\<lparr>timeStamp = 1, edata = 7\<rparr>] :: KsiEvent list"
  let ?n = "(ex_sink NULL [])\<lparr>nenv := [EventEnv [ex_wire 1 0, ex_wire 2 0]]\<rparr>"
  have "audio_node (ex_queues ?q ?r) 3 = Some ?n" by (simp add: ex_queues_def audio_node_def empty_version_def)
  moreover have "get_at (nenv ?n) 0 = Some (EventEnv [ex_wire 1 0, ex_wire 2 0])" by (simp add: get_at_def)
  moreover have "map (events_at (ex_queues ?q ?r)) [ex_wire 1 0, ex_wire 2 0] = map Some [?q, ?r]"
    by (simp add: events_at_def ex_queues_def ex_wire_def output_buffer_def audio_node_def empty_version_def ex_source_def get_at_def)
  ultimately have "ksiNodeBeginIterateEvent (ex_queues ?q ?r) 3 0 = Some [?q, ?r] \<and>
     take_events (length (concat [?q, ?r])) [?q, ?r] = sort_key timeStamp (concat [?q, ?r])"
    by (rule events_delivered_in_order) simp
  moreover have "length (concat [?q, ?r]) = 3" by simp
  moreover have "map edata (sort_key timeStamp (concat [?q, ?r])) = [5, 7, 6]" by code_simp
  ultimately show ?thesis by metis
qed

end
