(* ===== verification/Sound.thy ===== *)
theory Sound
  imports Float_Ops Events Timeseq
begin

text \<open>
  The state a node function works on: the engine, the samples, the trees of the time sequences, and
  the private data of the nodes. Of the latter the engine holds the fields that editing commands
  and resets touch (\<open>plugs\<close>); \<open>voices\<close> has the fields that only the function itself uses, with
  whatever the memory contained when the node was made.
\<close>

section \<open>State\<close>

datatype voice =
    MidiSegVoice KsiData
  | WavetableVoice KsiData
  | ADSRVoice int KsiData KsiData int

record sound =
  eng :: KsiEngine
  samp :: samples
  tseqs :: trees
  voices :: "ptr \<Rightarrow> voice option"

definition bufsize :: "sound \<Rightarrow> int" where "bufsize s = framesPerBuffer (eng s)"

text \<open>\<open>(float)n->e->framesPerSecond\<close>\<close>

definition rate :: "sound \<Rightarrow> KsiData" where "rate s = f32_of_int (framesPerSecond (eng s))"

definition input_at :: "sound \<Rightarrow> ptr \<Rightarrow> int \<Rightarrow> int \<Rightarrow> KsiData option" where
  "input_at s p port i = ksiNodeGetInput (eng s) (samp s) p (bufsize s) port i"

definition input_is_dirty :: "sound \<Rightarrow> ptr \<Rightarrow> int \<Rightarrow> bool option" where
  "input_is_dirty s p port = do { t \<leftarrow> get_input_type p port (eng s); Some (t AND ksiNodePortIODirty \<noteq> 0) }"

text \<open>\<open>n->outputBuffer[port].d[i] = x\<close>\<close>

definition put :: "ptr \<Rightarrow> int \<Rightarrow> int \<Rightarrow> KsiData \<Rightarrow> sound \<Rightarrow> sound option" where
  "put p port i x s = do {
     b \<leftarrow> output_buffer (eng s) p port;
     m \<leftarrow> set_sample b i x (samp s);
     Some (s\<lparr>samp := m\<rparr>)
   }"

text \<open>\<open>n->outputTypes[i] = f(n->outputTypes[i])\<close>, through the array the node points to.\<close>

definition map_output_type :: "(int8 \<Rightarrow> int8) \<Rightarrow> ptr \<Rightarrow> int \<Rightarrow> sound \<Rightarrow> sound option" where
  "map_output_type f p i s = do {
     let e = eng s;
     n \<leftarrow> audio_node e p;
     t \<leftarrow> get_at (types_of e (outputTypes n)) i;
     ts \<leftarrow> set_at (types_of e (outputTypes n)) i (f t);
     e \<leftarrow> (case outputTypes n of
        InPorts k \<Rightarrow> Some (e\<lparr>staticIn := (staticIn e)(k := ts)\<rparr>)
      | OutPorts k \<Rightarrow> Some (e\<lparr>staticOut := (staticOut e)(k := ts)\<rparr>)
      | Own _ \<Rightarrow> Some (e\<lparr>ver := (ver e)(audioEpoch e := (ver e (audioEpoch e))
          \<lparr>nheap := (nheap (ver e (audioEpoch e)))(p \<mapsto> n\<lparr>outputTypes := Own ts\<rparr>)\<rparr>)\<rparr>)
      | NoTypes \<Rightarrow> None);
     Some (s\<lparr>eng := e\<rparr>)
   }"

abbreviation clear_port :: "ptr \<Rightarrow> int \<Rightarrow> sound \<Rightarrow> sound option" where
  "clear_port \<equiv> map_output_type ksiNodePortIOClear"

abbreviation dirty_port :: "ptr \<Rightarrow> int \<Rightarrow> sound \<Rightarrow> sound option" where
  "dirty_port \<equiv> map_output_type ksiNodePortIOSetDirty"

text \<open>A loop over the frames from \<open>i\<close> on; \<open>k\<close> are left.\<close>

fun each_frame :: "(int \<Rightarrow> 's \<Rightarrow> 's option) \<Rightarrow> int \<Rightarrow> nat \<Rightarrow> 's \<Rightarrow> 's option" where
  "each_frame f i 0 s = Some s"
| "each_frame f i (Suc k) s = do { s \<leftarrow> f i s; each_frame f (i + 1) k s }"

text \<open>\<open>n->e->timeStamp + i\<close>\<close>

definition frame_time :: "sound \<Rightarrow> int \<Rightarrow> uint64" where
  "frame_time s i = etime (eng s) + word_of_int i"

section \<open>Rules for the loops\<close>

lemma each_frame_inv:
  assumes "\<And>j s. i \<le> j \<Longrightarrow> j < i + int k \<Longrightarrow> I j s \<Longrightarrow> \<exists>s'. f j s = Some s' \<and> I (j + 1) s'" "I i s"
  shows "\<exists>s'. each_frame f i k s = Some s' \<and> I (i + int k) s'"
  using assms
proof (induction k arbitrary: i s)
  case (Suc k)
  obtain s1 where 1: "f i s = Some s1" "I (i + 1) s1" using Suc.prems(1) [of i s] Suc.prems(2) by auto
  have "\<exists>s'. each_frame f (i + 1) k s1 = Some s' \<and> I (i + 1 + int k) s'"
    by (rule Suc.IH) (use Suc.prems(1) 1(2) in auto)
  then show ?case using 1(1) by (simp add: algebra_simps)
qed simp

lemma each_frame_add:
  "each_frame f i (k + l) s = do { s \<leftarrow> each_frame f i k s; each_frame f (i + int k) l s }"
  by (induction k arbitrary: i s) (auto simp: algebra_simps split: Option.bind_splits)

lemma put_sample:
  assumes "output_buffer (eng s) p port = Some b" "samp s b = Some xs" "0 \<le> i" "i < int (length xs)"
  shows "put p port i x s = Some (s\<lparr>samp := (samp s)(b \<mapsto> xs[nat i := x])\<rparr>)"
  using assms by (simp add: put_def set_sample_def set_at_def)

text \<open>Only the samples of the buffers \<open>B\<close> have changed, and not their number.\<close>

definition same_but :: "ptr set \<Rightarrow> sound \<Rightarrow> sound \<Rightarrow> bool" where
  "same_but B s s' \<longleftrightarrow> eng s' = eng s \<and> tseqs s' = tseqs s \<and> voices s' = voices s \<and>
     (\<forall>b. b \<notin> B \<longrightarrow> samp s' b = samp s b) \<and> (\<forall>b. map_option length (samp s' b) = map_option length (samp s b))"

lemma same_but_refl: "same_but B s s"
  by (simp add: same_but_def)

lemma same_but_eng:
  assumes "same_but B s s'"
  shows "eng s' = eng s" "bufsize s' = bufsize s" "rate s' = rate s" "frame_time s' i = frame_time s i"
    "voices s' = voices s" "tseqs s' = tseqs s"
  using assms by (simp_all add: same_but_def bufsize_def rate_def frame_time_def)

lemma same_but_samp: "same_but B s s' \<Longrightarrow> b \<notin> B \<Longrightarrow> samp s' b = samp s b"
  by (simp add: same_but_def)

lemma same_but_length:
  assumes "same_but B s s'" "samp s b = Some xs"
  shows "\<exists>ys. samp s' b = Some ys \<and> length ys = length xs"
proof -
  have "map_option length (samp s' b) = map_option length (samp s b)" using assms(1) by (simp add: same_but_def)
  then show ?thesis using assms(2) by (cases "samp s' b") simp_all
qed

lemma same_but_put:
  assumes "same_but B s s'" "output_buffer (eng s) p port = Some b" "b \<in> B" "samp s b = Some xs" "0 \<le> i" "i < int (length xs)"
  obtains ys where "samp s' b = Some ys" "length ys = length xs"
    "put p port i x s' = Some (s'\<lparr>samp := (samp s')(b \<mapsto> ys[nat i := x])\<rparr>)"
    "same_but B s (s'\<lparr>samp := (samp s')(b \<mapsto> ys[nat i := x])\<rparr>)"
proof -
  obtain ys where y: "samp s' b = Some ys" "length ys = length xs" using same_but_length [OF assms(1,4)] by blast
  have "put p port i x s' = Some (s'\<lparr>samp := (samp s')(b \<mapsto> ys[nat i := x])\<rparr>)"
    by (rule put_sample) (use assms y same_but_eng(1) [OF assms(1)] in simp_all)
  moreover have "same_but B s (s'\<lparr>samp := (samp s')(b \<mapsto> ys[nat i := x])\<rparr>)"
    using assms(1,3,4) y by (auto simp: same_but_def)
  ultimately show ?thesis using that y by blast
qed

text \<open>A signal port that does not read the buffers \<open>B\<close>.\<close>

definition reads_other :: "sound \<Rightarrow> ptr \<Rightarrow> int \<Rightarrow> ptr set \<Rightarrow> bool" where
  "reads_other s p port B \<longleftrightarrow> (\<exists>n buf ib mes. audio_node (eng s) p = Some n \<and>
     get_at (nenv n) port = Some (SignalEnv buf ib mes) \<and> ib \<notin> B)"

lemma same_but_input:
  assumes "same_but B s s'" "reads_other s p port B"
  shows "input_at s' p port i = input_at s p port i"
proof -
  obtain n buf ib mes where n: "audio_node (eng s) p = Some n" "get_at (nenv n) port = Some (SignalEnv buf ib mes)" "ib \<notin> B"
    using assms(2) by (auto simp: reads_other_def)
  have "samp s' ib = samp s ib" using same_but_samp [OF assms(1) n(3)] .
  then have "sample_at (samp s') ib = sample_at (samp s) ib" by (intro ext) (simp add: sample_at_def)
  then show ?thesis using n(1,2) same_but_eng [OF assms(1)]
    by (simp add: input_at_def ksiNodeGetInput_def cong: if_cong)
qed

text \<open>The dirty flag of an output port.\<close>

lemma map_output_type_result:
  assumes "audio_node (eng s) p = Some n" "0 \<le> i" "i < int (length (types_of (eng s) (outputTypes n)))"
  shows "\<exists>e' n'. map_output_type f p i s = Some (s\<lparr>eng := e'\<rparr>) \<and> audio_node e' p = Some n' \<and>
     types_of e' (outputTypes n') = (types_of (eng s) (outputTypes n))[nat i := f (types_of (eng s) (outputTypes n) ! nat i)] \<and>
     outputBuffer n' = outputBuffer n \<and> nargs n' = nargs n \<and> plugs e' = plugs (eng s) \<and> blocks e' = blocks (eng s)"
  using assms
  by (cases "outputTypes n")
    (auto simp: map_output_type_def Let_def set_at_def get_at_def audio_node_def types_of_def)

end
