(* ===== verification/Oscillators.thy ===== *)
theory Oscillators
  imports Sound
begin

text \<open>
  The functions of the built-in nodes (\<^verbatim>\<open>ksid/linear_builtins.c\<close>) and of the oscillator
  (\<^verbatim>\<open>builtins/kscarlet/wavetable.c\<close>).
\<close>

section \<open>Built-in nodes\<close>

text \<open>The inner loop of \<open>ksiBuiltinNodeFuncId\<close>, over the ports below \<open>j\<close> downwards.\<close>

fun copy_ports :: "ptr \<Rightarrow> int \<Rightarrow> nat \<Rightarrow> sound \<Rightarrow> sound option" where
  "copy_ports p i 0 s = Some s"
| "copy_ports p i (Suc j) s = do {
     x \<leftarrow> input_at s p (int j) i;
     s \<leftarrow> put p (int j) i x s;
     copy_ports p i j s
   }"

definition ksiBuiltinNodeFuncId :: "ptr \<Rightarrow> sound \<Rightarrow> sound option" where
  "ksiBuiltinNodeFuncId p s = do {
     n \<leftarrow> audio_node (eng s) p;
     each_frame (\<lambda>i. copy_ports p i (nat (inputCount n))) 0 (nat (bufsize s)) s
   }"

text \<open>\<open>timeStamp\<close> and \<open>i\<close> become \<open>float\<close>, their sum is multiplied in \<open>double\<close>.\<close>

definition test_osc_value :: "libm \<Rightarrow> sound \<Rightarrow> KsiData \<Rightarrow> int \<Rightarrow> KsiData" where
  "test_osc_value lm s freq i =
     (let freq = (if \<not> f32_is_nan freq \<and> f32_is_zero freq then f32_of_int 441 else freq);
          dfreq = f32_div freq (rate s);
          t = f32_add (f32_of_int (uint (etime (eng s)))) (f32_of_int i)
      in sinf lm (f32_of_f64 (f64_mul (f64_mul (f64_mul (f64_of_int 2) M_PI) (f64_of_f32 t)) (f64_of_f32 dfreq))))"

definition test_osc_frame :: "libm \<Rightarrow> ptr \<Rightarrow> int \<Rightarrow> sound \<Rightarrow> sound option" where
  "test_osc_frame lm p i s = do {
     freq \<leftarrow> input_at s p 0 i;
     put p 0 i (test_osc_value lm s freq i) s
   }"

definition ksiBuiltinNodeFuncTestOsc :: "libm \<Rightarrow> ptr \<Rightarrow> sound \<Rightarrow> sound option" where
  "ksiBuiltinNodeFuncTestOsc lm p s = do {
     s \<leftarrow> each_frame (test_osc_frame lm p) 0 (nat (bufsize s)) s;
     dirty_port p 0 s
   }"

definition modulate :: "ptr \<Rightarrow> int \<Rightarrow> int \<Rightarrow> sound \<Rightarrow> sound option" where
  "modulate p j i s = do {
     x \<leftarrow> input_at s p 0 i;
     y \<leftarrow> input_at s p 1 i;
     put p 0 j (f32_mul x y) s
   }"

definition ksiBuiltinNodeFuncModulator :: "ptr \<Rightarrow> sound \<Rightarrow> sound option" where
  "ksiBuiltinNodeFuncModulator p s = do {
     d0 \<leftarrow> input_is_dirty s p 0;
     d1 \<leftarrow> (if d0 then Some True else input_is_dirty s p 1);
     (if d1 then do {
        s \<leftarrow> each_frame (\<lambda>i. modulate p i i) 0 (nat (bufsize s)) s;
        dirty_port p 0 s
      }
      else do {
        s \<leftarrow> modulate p (bufsize s - 1) 0 s;
        clear_port p 0 s
      })
   }"

section \<open>The oscillator\<close>

text \<open>The position in the period after one frame.\<close>

definition next_pos :: "sound \<Rightarrow> KsiData \<Rightarrow> KsiData \<Rightarrow> KsiData" where
  "next_pos s freq pos =
     (let pos = f32_remainder_one (f32_add pos (f32_div freq (rate s)))
      in if f32_lt pos 0 then f32_add pos f32_one else pos)"

text \<open>The waveforms; \<^const>\<open>None\<close> for a number that is none.\<close>

definition waveform :: "libm \<Rightarrow> KsiData \<Rightarrow> KsiData \<Rightarrow> KsiData \<Rightarrow> KsiData option" where
  "waveform lm wave pos md =
     (let num = f32_of_int; quarter = 0x3E800000; half = 0x3F000000; three_quarters = 0x3F400000 in
      if wave = 1 then Some (sinf lm (f32_of_f64 (f64_mul (f64_of_f32 (f32_mul pos (num 2))) M_PI)))
      else if wave = 2 then Some (f32_add (f32_mul (num (- 2)) pos) f32_one)
      else if wave = 3 then Some
        (if f32_lt pos quarter then f32_mul pos (num 4)
         else if f32_lt pos three_quarters then f32_add (f32_mul (f32_neg pos) (num 4)) (num 2)
         else f32_sub (f32_mul pos (num 4)) (num 4))
      else if wave = 4 then Some
        (if f32_lt md half then
           (if f32_lt pos md then f32_one else f32_div (f32_neg md) (f32_sub f32_one md))
         else if f32_lt pos md then f32_div (f32_sub f32_one md) md
         else f32_neg f32_one)
      else None)"

definition wavetable_frame :: "libm \<Rightarrow> ptr \<Rightarrow> ptr \<Rightarrow> int \<Rightarrow> sound \<Rightarrow> sound option" where
  "wavetable_frame lm p a i s = do {
     gate \<leftarrow> input_at s p 1 i;
     (if gate \<noteq> 0 then Some s
      else do {
        freq \<leftarrow> input_at s p 0 i;
        v \<leftarrow> voices s a;
        (case v of
           WavetableVoice pos \<Rightarrow> do {
             let pos = next_pos s freq pos;
             md \<leftarrow> input_at s p 3 i;
             wave \<leftarrow> input_at s p 2 i;
             let s = s\<lparr>voices := (voices s)(a \<mapsto> WavetableVoice pos)\<rparr>;
             (case waveform lm wave pos md of None \<Rightarrow> Some s | Some x \<Rightarrow> put p 0 i x s)
           }
         | _ \<Rightarrow> None)
      })
   }"

text \<open>The first \<open>if\<close> has no braces: the function returns whatever the gate is.\<close>

definition kscarletWavetable :: "libm \<Rightarrow> ptr \<Rightarrow> sound \<Rightarrow> sound option" where
  "kscarletWavetable lm p s = do {
     n \<leftarrow> audio_node (eng s) p;
     d \<leftarrow> input_is_dirty s p 1;
     (if \<not> d then do {
        gate \<leftarrow> input_at s p 1 0;
        (if gate \<noteq> 0 then clear_port p 0 s else Some s)
      }
      else do {
        s \<leftarrow> each_frame (wavetable_frame lm p (nargs n)) 0 (nat (bufsize s)) s;
        dirty_port p 0 s
      })
   }"

section \<open>What the oscillator computes\<close>

text \<open>The position stays between 0 and 1, both included, unless the sum is no finite number; then it is a
  NaN and stays one.\<close>

lemma next_pos_bounds:
  "let x = f32_add pos (f32_div freq (rate s)) in
   if f32_is_nan x \<or> f32_is_inf x then next_pos s freq pos = f32_nan else f32_in_unit (next_pos s freq pos)"
proof -
  let ?x = "f32_add pos (f32_div freq (rate s))"
  let ?y = "f32_remainder_one ?x"
  show ?thesis
  proof (cases "f32_is_nan ?x \<or> f32_is_inf ?x")
    case True
    have "f32_is_nan f32_nan" by (simp add: f32_is_nan_def f32_fields f32_nan_def)
    then show ?thesis using True by (simp add: next_pos_def f32_remainder_one_def f32_lt_def)
  next
    case False
    then have "f32_in_unit ?y \<or> (\<exists>n j. 0 < n \<and> n \<le> 2 ^ j \<and> ?y = f32_round True n (- int j))"
      using f32_remainder_one_cases by blast
    then have "f32_in_unit (next_pos s freq pos)"
    proof
      assume "f32_in_unit ?y"
      then show ?thesis by (simp add: next_pos_def f32_in_unit_def Let_def)
    next
      assume "\<exists>n j. 0 < n \<and> n \<le> 2 ^ j \<and> ?y = f32_round True n (- int j)"
      then obtain n j where n: "0 < n" "n \<le> 2 ^ j" "?y = f32_round True n (- int j)" by blast
      have "f32_in_unit (f32_add ?y f32_one)" using f32_one_minus_unit [OF n(1,2)] n(3) by simp
      moreover have "f32_in_unit ?y" if "\<not> f32_lt ?y 0" using negative_in_unit [OF n(1,2)] n(3) that by simp
      ultimately show ?thesis by (simp add: next_pos_def Let_def)
    qed
    then show ?thesis using False by simp
  qed
qed

lemma next_pos_nan: "f32_is_nan pos \<Longrightarrow> next_pos s freq pos = f32_nan"
  using next_pos_bounds [of pos freq s] by (simp add: f32_add_def Let_def f32_is_nan_def f32_fields f32_nan_def)

text \<open>The position before frame \<open>i\<close>.\<close>

fun pos_at :: "sound \<Rightarrow> ptr \<Rightarrow> KsiData \<Rightarrow> nat \<Rightarrow> KsiData" where
  "pos_at s p x 0 = x"
| "pos_at s p x (Suc i) =
     (if the (input_at s p 1 (int i)) \<noteq> 0 then pos_at s p x i
      else next_pos s (the (input_at s p 0 (int i))) (pos_at s p x i))"

text \<open>The sample of frame \<open>i\<close>; \<open>old\<close> is what the buffer held before.\<close>

definition osc_sample :: "libm \<Rightarrow> sound \<Rightarrow> ptr \<Rightarrow> KsiData \<Rightarrow> nat \<Rightarrow> KsiData \<Rightarrow> KsiData" where
  "osc_sample lm s p x i old =
     (if the (input_at s p 1 (int i)) \<noteq> 0 then old
      else case waveform lm (the (input_at s p 2 (int i))) (pos_at s p x (Suc i)) (the (input_at s p 3 (int i))) of
             None \<Rightarrow> old | Some y \<Rightarrow> y)"

definition osc_inputs_ok :: "sound \<Rightarrow> ptr \<Rightarrow> ptr \<Rightarrow> bool" where
  "osc_inputs_ok s p b \<longleftrightarrow>
     (\<forall>port \<in> {0, 1, 2, 3}. reads_other s p port {b} \<and> (\<forall>i. 0 \<le> i \<and> i < bufsize s \<longrightarrow> input_at s p port i \<noteq> None))"

definition osc_inv :: "libm \<Rightarrow> sound \<Rightarrow> ptr \<Rightarrow> ptr \<Rightarrow> ptr \<Rightarrow> KsiData \<Rightarrow> KsiData list \<Rightarrow> int \<Rightarrow> sound \<Rightarrow> bool" where
  "osc_inv lm s p a b x xs i s' \<longleftrightarrow> 0 \<le> i \<and>
     same_but {b} (s\<lparr>voices := voices s'\<rparr>) s' \<and> voices s' = (voices s)(a \<mapsto> WavetableVoice (pos_at s p x (nat i))) \<and>
     (\<exists>ys. samp s' b = Some ys \<and> length ys = length xs \<and>
        (\<forall>j < length xs. ys ! j = (if int j < i then osc_sample lm s p x j (xs ! j) else xs ! j)))"

lemma input_at_voices [simp]: "input_at (s\<lparr>voices := v\<rparr>) p port i = input_at s p port i"
  by (simp add: input_at_def bufsize_def)

lemma same_but_voices: "same_but B s s' \<Longrightarrow> same_but B (s\<lparr>voices := v\<rparr>) (s'\<lparr>voices := v\<rparr>)"
  by (simp add: same_but_def)

lemma next_pos_rate: "rate s' = rate s \<Longrightarrow> next_pos s' = next_pos s"
  by (intro ext) (simp add: next_pos_def)

lemma osc_frame_inv:
  assumes "output_buffer (eng s) p 0 = Some b" "samp s b = Some xs" "bufsize s \<le> int (length xs)" "osc_inputs_ok s p b"
    "int n < bufsize s" "osc_inv lm s p a b x xs (int n) s'"
  shows "\<exists>s''. wavetable_frame lm p a (int n) s' = Some s'' \<and> osc_inv lm s p a b x xs (int n + 1) s''"
proof -
  obtain ys where 1: "same_but {b} (s\<lparr>voices := voices s'\<rparr>) s'" "voices s' a = Some (WavetableVoice (pos_at s p x n))"
    "voices s' = (voices s)(a \<mapsto> WavetableVoice (pos_at s p x n))" "samp s' b = Some ys" "length ys = length xs"
    "\<And>j. j < length xs \<Longrightarrow> ys ! j = (if int j < int n then osc_sample lm s p x j (xs ! j) else xs ! j)"
    using assms(6) by (auto simp: osc_inv_def)
  have inp: "input_at s' p port (int n) = Some (the (input_at s p port (int n)))" if "port \<in> {0, 1, 2, 3}" for port
  proof -
    have "reads_other s p port {b}" "input_at s p port (int n) \<noteq> None"
      using assms(4,5) that by (auto simp: osc_inputs_ok_def)
    moreover have "reads_other (s\<lparr>voices := voices s'\<rparr>) p port {b} = reads_other s p port {b}" by (simp add: reads_other_def)
    ultimately show ?thesis using same_but_input [OF 1(1), of p port "int n"] assms(5) by auto
  qed
  have eng: "eng s' = eng s" "rate s' = rate s"
    using same_but_eng [OF 1(1)] by (simp_all add: rate_def)
  have i1: "nat (int n + 1) = Suc n" by simp
  let ?pos = "pos_at s p x (Suc n)"
  let ?v = "(voices s)(a \<mapsto> WavetableVoice ?pos)"
  have old: "osc_inv lm s p a b x xs (int n + 1) (s'\<lparr>voices := ?v\<rparr>)"
    if "osc_sample lm s p x n (xs ! n) = xs ! n"
  proof -
    have "same_but {b} (s\<lparr>voices := ?v\<rparr>) (s'\<lparr>voices := ?v\<rparr>)" using same_but_voices [OF 1(1), of ?v] by simp
    moreover have "ys ! j = (if int j < int n + 1 then osc_sample lm s p x j (xs ! j) else xs ! j)" if "j < length xs" for j
      using 1(6) [OF that] \<open>osc_sample lm s p x n (xs ! n) = xs ! n\<close>
      by (cases "j = n") auto
    ultimately show ?thesis using 1(4,5) by (simp add: osc_inv_def i1)
  qed
  show ?thesis
  proof (cases "the (input_at s p 1 (int n)) \<noteq> 0")
    case True
    then have "?v = voices s'" using 1(3) by simp
    then have "s'\<lparr>voices := ?v\<rparr> = s'" by simp
    moreover have "wavetable_frame lm p a (int n) s' = Some s'" using True inp [of 1] by (simp add: wavetable_frame_def)
    ultimately show ?thesis using old True by (simp add: osc_sample_def)
  next
    case False
    let ?s1 = "s'\<lparr>voices := ?v\<rparr>"
    have p: "next_pos s (the (input_at s p 0 (int n))) (pos_at s p x n) = ?pos" using False by simp
    have v: "(voices s')(a \<mapsto> WavetableVoice ?pos) = ?v" using 1(3) by simp
    have f: "wavetable_frame lm p a (int n) s' =
       (case waveform lm (the (input_at s p 2 (int n))) ?pos (the (input_at s p 3 (int n))) of
          None \<Rightarrow> Some ?s1 | Some y \<Rightarrow> put p 0 (int n) y ?s1)"
      using False inp [of 0] inp [of 1] inp [of 2] inp [of 3] 1(2) v next_pos_rate [OF eng(2)] p
      by (simp add: wavetable_frame_def Let_def del: pos_at.simps cong: option.case_cong)
    show ?thesis
    proof (cases "waveform lm (the (input_at s p 2 (int n))) ?pos (the (input_at s p 3 (int n)))")
      case None
      then show ?thesis using f old False by (simp add: osc_sample_def)
    next
      case (Some y)
      have l: "int n < int (length ys)" using assms(3,5) 1(5) by simp
      let ?s2 = "?s1\<lparr>samp := (samp ?s1)(b \<mapsto> ys[n := y])\<rparr>"
      have "put p 0 (int n) y ?s1 = Some ?s2"
        using put_sample [of ?s1 p 0 b ys "int n" y] assms(1) 1(4) l eng by simp
      moreover have "osc_inv lm s p a b x xs (int n + 1) ?s2"
      proof -
        have "same_but {b} (s\<lparr>voices := ?v\<rparr>) ?s2"
          using same_but_voices [OF 1(1), of ?v] 1(4,5) assms(2) by (auto simp: same_but_def)
        moreover have "ys[n := y] ! j = (if int j < int n + 1 then osc_sample lm s p x j (xs ! j) else xs ! j)"
          if "j < length xs" for j
          using 1(5) 1(6) [OF that] False Some that by (cases "j = n") (auto simp: osc_sample_def)
        ultimately show ?thesis using 1(5) by (simp add: osc_inv_def i1)
      qed
      ultimately show ?thesis using f Some by simp
    qed
  qed
qed

lemma osc_pos_bounds:
  "f32_in_unit x \<or> f32_is_nan x \<Longrightarrow> f32_in_unit (pos_at s p x i) \<or> f32_is_nan (pos_at s p x i)"
proof (induction i)
  case (Suc i)
  have "f32_is_nan f32_nan" by (simp add: f32_is_nan_def f32_fields f32_nan_def)
  then have "f32_in_unit (next_pos s f y) \<or> f32_is_nan (next_pos s f y)" for f y
    using next_pos_bounds [of y f s] by (auto simp: Let_def split: if_splits)
  then show ?case using Suc by simp
qed simp

text \<open>C26: With a changing gate the oscillator goes through: it writes into each frame the waveform at the position the
  frequencies have led to, and only there where the gate is open; in the frames in which it is closed the buffer keeps
  what it held. The position stays within 0 and 1, or is not a number for ever.\<close>

theorem wavetable_writes_waveform:
  assumes "audio_node (eng s) p = Some n" "input_is_dirty s p 1 = Some True"
    "0 < length (types_of (eng s) (outputTypes n))" "voices s (nargs n) = Some (WavetableVoice x)"
    "f32_in_unit x \<or> f32_is_nan x"
    "output_buffer (eng s) p 0 = Some b" "samp s b = Some xs" "bufsize s \<le> int (length xs)" "osc_inputs_ok s p b"
  shows "\<exists>s' ys pos. kscarletWavetable lm p s = Some s' \<and> samp s' b = Some ys \<and> length ys = length xs \<and>
    (\<forall>j < length xs. ys ! j = (if int j < bufsize s then osc_sample lm s p x j (xs ! j) else xs ! j)) \<and>
    voices s' (nargs n) = Some (WavetableVoice pos) \<and> pos = pos_at s p x (nat (bufsize s)) \<and>
    (f32_in_unit pos \<or> f32_is_nan pos) \<and> (f32_is_nan x \<longrightarrow> f32_is_nan pos)"
proof -
  let ?I = "osc_inv lm s p (nargs n) b x xs"
  have "voices s = (voices s)(nargs n \<mapsto> WavetableVoice x)" using assms(4) by (simp add: fun_upd_idem)
  then have start: "?I 0 s" using assms(7) by (simp add: osc_inv_def same_but_def)
  have "\<exists>s''. wavetable_frame lm p (nargs n) j s' = Some s'' \<and> ?I (j + 1) s''"
    if "0 \<le> j" "j < 0 + int (nat (bufsize s))" "?I j s'" for j s'
    using osc_frame_inv [OF assms(6-9), of "nat j" lm "nargs n" x s'] that by (cases "0 \<le> bufsize s") simp_all
  from each_frame_inv [where I = ?I and f = "wavetable_frame lm p (nargs n)" and i = 0 and k = "nat (bufsize s)", OF this start]
  obtain s1 where 1: "each_frame (wavetable_frame lm p (nargs n)) 0 (nat (bufsize s)) s = Some s1" "?I (int (nat (bufsize s))) s1"
    by auto
  have "eng s1 = eng s" using 1(2) same_but_eng(1) by (fastforce simp: osc_inv_def)
  then obtain e' where 2: "dirty_port p 0 s1 = Some (s1\<lparr>eng := e'\<rparr>)"
    using map_output_type_result [of s1 p n 0 ksiNodePortIOSetDirty] assms(1,3) by auto
  have "kscarletWavetable lm p s = Some (s1\<lparr>eng := e'\<rparr>)"
    using assms(1,2) 1(1) 2 by (simp add: kscarletWavetable_def)
  moreover have "f32_is_nan (pos_at s p x k)" if "f32_is_nan x" for k
  proof (induction k)
    case (Suc k)
    have "f32_is_nan f32_nan" by (simp add: f32_is_nan_def f32_fields f32_nan_def)
    then show ?case using Suc next_pos_nan by auto
  qed (use that in simp)
  ultimately show ?thesis using 1(2) osc_pos_bounds [OF assms(5)]
    by (intro exI [of _ "s1\<lparr>eng := e'\<rparr>"]) (auto simp: osc_inv_def)
qed

section \<open>Examples\<close>

text \<open>An oscillator, node 3, at 8 frames a second with a frequency of 1 and a sawtooth; node 1 gives the gate.\<close>

definition ex_osc_node :: KsiNode where
  "ex_osc_node = \<lparr>depNum = 1, successors = [], nid = 3, ntype = 0x00040000, outputCount = 2, outputTypes = OutPorts 4,
     outputBuffer = [31, 32], inputCount = 4, inputTypes = InPorts 4,
     nenv = [SignalEnv NULL NULL [\<lparr>srcPort = 0, src = NULL, gain = f32_one\<rparr>],
             SignalEnv NULL 21 [\<lparr>srcPort = 0, src = 1, gain = 0\<rparr>],
             SignalEnv NULL NULL [\<lparr>srcPort = 0, src = NULL, gain = 2\<rparr>],
             SignalEnv NULL NULL []],
     nargs = 7, extArgs = []\<rparr>"

definition ex_osc :: "int8 \<Rightarrow> KsiData list \<Rightarrow> KsiData \<Rightarrow> sound" where
  "ex_osc gate_type gates pos =
     \<lparr>eng = (ksiEngineInit 4 8)
        \<lparr>ver := (\<lambda>_. empty_version\<lparr>nheap := [1 \<mapsto> ex_source gate_type 21, 3 \<mapsto> ex_osc_node]\<rparr>)\<rparr>,
      samp = [21 \<mapsto> gates, 31 \<mapsto> [5, 5, 5, 5], 32 \<mapsto> [0, 0, 0, 0]],
      tseqs = Map.empty, voices = [7 \<mapsto> WavetableVoice pos]\<rparr>"

definition ex_sine :: libm where
  "ex_sine = \<lparr>expf = (\<lambda>x. 0), sinf = (\<lambda>x. x), powf = (\<lambda>x y. x)\<rparr>"

definition ex_mixed :: "sound \<Rightarrow> sound option" where
  "ex_mixed s = do { (e, m) \<leftarrow> mix_inputs 3 0 4 (eng s, samp s); Some (s\<lparr>eng := e, samp := m\<rparr>) }"

definition ex_osc_mixed :: "KsiData list \<Rightarrow> KsiData \<Rightarrow> sound" where
  "ex_osc_mixed gates pos = (let s = ex_osc (ksiNodePortTypeGate OR ksiNodePortIODirty) gates pos in
     s\<lparr>eng := (eng s)\<lparr>staticIn := (staticIn (eng s))
       (4 := [ksiNodePortTypeFloat, ksiNodePortTypeGate OR ksiNodePortIODirty, ksiNodePortTypeInt32, ksiNodePortTypeFloat])\<rparr>\<rparr>)"

lemma ex_osc_facts:
  "audio_node (eng (ex_osc_mixed gates pos)) 3 = Some ex_osc_node" "nargs ex_osc_node = 7"
  "input_is_dirty (ex_osc_mixed gates pos) 3 1 = Some True"
  "0 < length (types_of (eng (ex_osc_mixed gates pos)) (outputTypes ex_osc_node))"
  "voices (ex_osc_mixed gates pos) 7 = Some (WavetableVoice pos)" "bufsize (ex_osc_mixed gates pos) = 4"
  "output_buffer (eng (ex_osc_mixed gates pos)) 3 0 = Some 31" "samp (ex_osc_mixed gates pos) 31 = Some [5, 5, 5, 5]"
  by (simp_all add: ex_osc_mixed_def ex_osc_def ex_osc_node_def audio_node_def empty_version_def types_of_def Let_def
      ksiEngineInit_def initPorts_def INLINE_LIST_def bufsize_def output_buffer_def get_at_def input_is_dirty_def
      get_input_type_def port_type_defs)

lemma ex_osc_input:
  assumes "length gates = 4" "0 \<le> i" "i < 4"
  shows "input_at (ex_osc_mixed gates pos) 3 0 i = Some f32_one" "input_at (ex_osc_mixed gates pos) 3 1 i = Some (gates ! nat i)"
    "input_at (ex_osc_mixed gates pos) 3 2 i = Some 2" "input_at (ex_osc_mixed gates pos) 3 3 i = Some 0"
  using assms
  by (simp_all add: ex_osc_mixed_def ex_osc_def ex_osc_node_def audio_node_def empty_version_def types_of_def Let_def
      ksiEngineInit_def initPorts_def INLINE_LIST_def bufsize_def get_at_def sample_at_def
      get_input_type_def port_type_defs input_at_def ksiNodeGetInput_def)

lemma ex_osc_inputs_ok:
  assumes "length gates = 4"
  shows "osc_inputs_ok (ex_osc_mixed gates pos) 3 31"
proof -
  have "reads_other (ex_osc_mixed gates pos) 3 port {31}" if "port \<in> {0, 1, 2, 3}" for port
    using that by (auto simp: reads_other_def ex_osc_facts) (simp_all add: ex_osc_node_def get_at_def)
  then show ?thesis using ex_osc_input [OF assms] by (auto simp: osc_inputs_ok_def ex_osc_facts)
qed

theorem wavetable_writes_waveform_witness:
  "\<exists>s' ys pos. kscarletWavetable ex_sine 3 (ex_osc_mixed [0, 1, 1, 0] 0) = Some s' \<and> samp s' 31 = Some ys \<and>
     ys ! 1 = 5 \<and> voices s' 7 = Some (WavetableVoice pos) \<and> (f32_in_unit pos \<or> f32_is_nan pos)"
proof -
  have l: "length [0, 1, 1, 0 :: KsiData] = 4" by simp
  let ?s = "ex_osc_mixed [0, 1, 1, 0] 0"
  have u: "f32_in_unit 0 \<or> f32_is_nan 0" using f32_zero_unit [of False] by (simp add: f32_pack_def)
  have b: "bufsize ?s \<le> int (length [5, 5, 5, 5 :: KsiData])" by (simp add: ex_osc_facts)
  obtain s' ys pos where 1: "kscarletWavetable ex_sine 3 ?s = Some s'" "samp s' 31 = Some ys"
    "\<forall>j < length [5, 5, 5, 5 :: KsiData]. ys ! j = (if int j < bufsize ?s
       then osc_sample ex_sine ?s 3 0 j ([5, 5, 5, 5] ! j) else [5, 5, 5, 5] ! j)"
    "voices s' (nargs ex_osc_node) = Some (WavetableVoice pos)" "f32_in_unit pos \<or> f32_is_nan pos"
    using wavetable_writes_waveform [OF ex_osc_facts(1,3,4) ex_osc_facts(5) [folded ex_osc_facts(2)] u ex_osc_facts(7,8) b
        ex_osc_inputs_ok [OF l], of ex_sine] by blast
  have "ys ! 1 = osc_sample ex_sine (ex_osc_mixed [0, 1, 1, 0] 0) 3 0 1 5"
    using 1(3) [rule_format, of 1] by (simp add: ex_osc_facts)
  then have "ys ! 1 = 5" using ex_osc_input(2) [OF l, of 1 0] by (simp add: osc_sample_def)
  then show ?thesis using 1 by (auto simp: ex_osc_facts)
qed

text \<open>The oscillator with a gate that does not change is never heard: the function returns before it computes anything,
  whether the gate is closed or open. And in the frames in which a changing gate is closed the buffer repeats what it
  held in the last round.\<close>

theorem wavetable_constant_gate_silent:
  "do { s \<leftarrow> ex_mixed (ex_osc ksiNodePortTypeGate [0, 0, 0, 0] 0); s \<leftarrow> kscarletWavetable ex_sine 3 s; samp s 31 } = Some [5, 5, 5, 5] \<and>
   do { s \<leftarrow> ex_mixed (ex_osc (ksiNodePortTypeGate OR ksiNodePortIODirty) [0, 1, 1, 0] 0);
        s \<leftarrow> kscarletWavetable ex_sine 3 s; samp s 31 } = Some [0x3F400000, 5, 5, 0x3F000000]"
  by code_simp

end
