(* ===== verification/Adsr.thy ===== *)
theory Adsr
  imports Sound Engine_Run
begin

text \<open>
  The envelope generator (\<^verbatim>\<open>builtins/kscarlet/adsr.c\<close>). Its private data is put together
  here from the two fields a reset sets and the others.
\<close>

section \<open>Private data\<close>

record adsr_env =
  currentTime :: int
  currentStage :: int
  currentStageStartMod :: KsiData
  currentMod :: KsiData
  currentBias :: KsiData
  stageDuration :: int

definition stageAttack :: int where "stageAttack = 1"
definition stageDecay :: int where "stageDecay = 2"
definition stageSustain :: int where "stageSustain = 3"
definition stageRelease :: int where "stageRelease = 4"

lemmas stage_defs = stageHalt_def stageAttack_def stageDecay_def stageSustain_def stageRelease_def

definition load_adsr :: "sound \<Rightarrow> ptr \<Rightarrow> adsr_env option" where
  "load_adsr s a =
     (case (plugs (eng s) a, voices s a) of
        (Some (ADSREnv stage md), Some (ADSRVoice t start bias dur)) \<Rightarrow>
          Some \<lparr>currentTime = t, currentStage = stage, currentStageStartMod = start, currentMod = md,
                currentBias = bias, stageDuration = dur\<rparr>
      | _ \<Rightarrow> None)"

definition store_adsr :: "ptr \<Rightarrow> adsr_env \<Rightarrow> sound \<Rightarrow> sound" where
  "store_adsr a env s =
     s\<lparr>eng := (eng s)\<lparr>plugs := (plugs (eng s))(a \<mapsto> ADSREnv (currentStage env) (currentMod env))\<rparr>,
       voices := (voices s)(a \<mapsto> ADSRVoice (currentTime env) (currentStageStartMod env) (currentBias env) (stageDuration env))\<rparr>"

section \<open>One frame\<close>

text \<open>\<open>round(x*n->e->framesPerSecond)\<close>\<close>

definition stage_frames :: "sound \<Rightarrow> KsiData \<Rightarrow> int option" where
  "stage_frames s x = f64_round_int32 (f64_of_f32 (f32_mul x (rate s)))"

definition idle :: "adsr_env \<Rightarrow> bool" where
  "idle env \<longleftrightarrow> currentStage env = stageHalt \<or> currentStage env = stageRelease"

text \<open>An event at the current frame: 0 opens the gate, 1 closes it.\<close>

definition adsr_event :: "sound \<Rightarrow> ptr \<Rightarrow> int \<Rightarrow> KsiEvent \<Rightarrow> adsr_env \<Rightarrow> adsr_env option" where
  "adsr_event s p i ev env =
     (if idle env \<and> edata ev = 0 then do {
        x \<leftarrow> input_at s p 1 i;
        d \<leftarrow> stage_frames s x;
        let start = currentMod env;
        Some (env\<lparr>currentTime := 1, currentStage := stageAttack, stageDuration := d,
                  currentStageStartMod := start,
                  currentBias := f32_of_f64 (f64_div (f64_sub M_E (f64_of_f32 start)) (f64_sub M_E (f64_of_int 1)))\<rparr>)
      }
      else if \<not> idle env \<and> edata ev = 1 then do {
        x \<leftarrow> input_at s p 4 i;
        d \<leftarrow> stage_frames s x;
        let start = currentMod env;
        Some (env\<lparr>currentTime := 1, currentStage := stageRelease, stageDuration := d,
                  currentStageStartMod := start,
                  currentBias := f32_of_f64 (f64_div (f64_of_f32 start) (f64_sub M_E3 (f64_of_int 1)))\<rparr>)
      }
      else Some env)"

text \<open>\<open>-env->currentTime/(float)env->stageDuration\<close>\<close>

definition progress :: "adsr_env \<Rightarrow> KsiData option" where
  "progress env = do {
     t \<leftarrow> int_chk (- currentTime env);
     Some (f32_div (f32_of_int t) (f32_of_int (stageDuration env)))
   }"

definition adsr_attack :: "libm \<Rightarrow> sound \<Rightarrow> ptr \<Rightarrow> int \<Rightarrow> adsr_env \<Rightarrow> adsr_env option" where
  "adsr_attack lm s p i env = do {
     x \<leftarrow> progress env;
     let env = env\<lparr>currentMod := f32_sub (currentBias env)
       (f32_mul (f32_sub (currentBias env) (currentStageStartMod env)) (expf lm x))\<rparr>;
     (if \<not> currentTime env < stageDuration env then do {
        start \<leftarrow> input_at s p 3 i;
        x \<leftarrow> input_at s p 2 i;
        d \<leftarrow> stage_frames s x;
        Some (env\<lparr>currentStage := stageDecay, currentStageStartMod := start, stageDuration := d,
                  currentBias := f32_of_f64
                    (f64_div (f64_sub (f64_mul M_E3 (f64_of_f32 start)) (f64_of_int 1)) (f64_sub M_E3 (f64_of_int 1))),
                  currentTime := 0\<rparr>)
      }
      else Some env)
   }"

definition adsr_decay :: "libm \<Rightarrow> adsr_env \<Rightarrow> adsr_env option" where
  "adsr_decay lm env = do {
     x \<leftarrow> progress env;
     let env = env\<lparr>currentMod := f32_add (currentStageStartMod env)
       (f32_mul (f32_sub f32_one (currentStageStartMod env)) (expf lm (f32_mul x (f32_of_int 3))))\<rparr>;
     Some (if \<not> currentTime env < stageDuration env then env\<lparr>currentStage := stageSustain\<rparr> else env)
   }"

definition adsr_release :: "libm \<Rightarrow> adsr_env \<Rightarrow> adsr_env option" where
  "adsr_release lm env = do {
     x \<leftarrow> progress env;
     let env = env\<lparr>currentMod := f32_of_f64
       (f64_mul (f64_of_f32 (f32_add (currentStageStartMod env) (currentBias env)))
          (f64_sub (f64_of_f32 (expf lm (f32_mul x (f32_of_int 3)))) (f64_div (f64_of_int 1) M_E3)))\<rparr>;
     Some (if \<not> currentTime env < stageDuration env then env\<lparr>currentStage := stageHalt, currentMod := 0\<rparr> else env)
   }"

definition adsr_stage_step :: "libm \<Rightarrow> sound \<Rightarrow> ptr \<Rightarrow> int \<Rightarrow> adsr_env \<Rightarrow> adsr_env option" where
  "adsr_stage_step lm s p i env =
     (if currentStage env = stageAttack then adsr_attack lm s p i env
      else if currentStage env = stageDecay then adsr_decay lm env
      else if currentStage env = stageRelease then adsr_release lm env
      else Some env)"

definition adsr_output :: "ptr \<Rightarrow> int \<Rightarrow> adsr_env \<Rightarrow> sound \<Rightarrow> sound option" where
  "adsr_output p i env s =
     (if currentStage env \<noteq> stageHalt then do { s \<leftarrow> put p 0 i (currentMod env) s; put p 1 i 0 s }
      else do { s \<leftarrow> put p 0 i 0 s; put p 1 i 1 s })"

text \<open>The loop's state: the sound, the next event with the cursors, and the private data.\<close>

type_synonym adsr_run = "sound \<times> (KsiEvent option \<times> KsiEvent list list) \<times> adsr_env"

definition adsr_frame :: "libm \<Rightarrow> ptr \<Rightarrow> int \<Rightarrow> adsr_run \<Rightarrow> adsr_run option" where
  "adsr_frame lm p i st = do {
     let (s, (next_ev, qs), env) = st;
     (evs, env) \<leftarrow>
       (case next_ev of
          Some ev \<Rightarrow>
            (if timeStamp ev = frame_time s i then do {
               env \<leftarrow> adsr_event s p i ev env;
               Some (ksiNodeGetNextEvent qs, env)
             }
             else Some ((next_ev, qs), env))
        | None \<Rightarrow> Some ((next_ev, qs), env));
     env \<leftarrow> adsr_stage_step lm s p i env;
     t \<leftarrow> int_chk (currentTime env + 1);
     let env = env\<lparr>currentTime := t\<rparr>;
     s \<leftarrow> adsr_output p i env s;
     Some (s, evs, env)
   }"

definition kscarletADSR :: "libm \<Rightarrow> ptr \<Rightarrow> sound \<Rightarrow> sound option" where
  "kscarletADSR lm p s = do {
     n \<leftarrow> audio_node (eng s) p;
     env \<leftarrow> load_adsr s (nargs n);
     qs \<leftarrow> ksiNodeBeginIterateEvent (eng s) p 0;
     let (next_ev, qs) = ksiNodeGetNextEvent qs;
     (if (currentStage env = stageHalt \<or> currentStage env = stageSustain) \<and> next_ev = None
      then do { s \<leftarrow> clear_port p 0 s; clear_port p 1 s }
      else do {
        (s, _, env) \<leftarrow> each_frame (adsr_frame lm p) 0 (nat (bufsize s)) (s, (next_ev, qs), env);
        let s = store_adsr (nargs n) env s;
        s \<leftarrow> dirty_port p 0 s;
        dirty_port p 1 s
      })
   }"

section \<open>What a call keeps\<close>

definition stage_ok :: "int \<Rightarrow> adsr_env \<Rightarrow> bool" where
  "stage_ok u env \<longleftrightarrow> currentStage env \<in> {stageHalt, stageAttack, stageDecay, stageSustain, stageRelease} \<and>
     0 \<le> currentTime env \<and> currentTime env \<le> u"

text \<open>The inputs can be read, do not alias the outputs, and the lengths of the stages are numbers of
  frames.\<close>

definition adsr_inputs_ok :: "sound \<Rightarrow> ptr \<Rightarrow> ptr set \<Rightarrow> bool" where
  "adsr_inputs_ok s p B \<longleftrightarrow>
     (\<forall>port \<in> {1, 2, 3, 4}. reads_other s p port B \<and>
        (\<forall>i. 0 \<le> i \<and> i < bufsize s \<longrightarrow>
           (\<exists>x. input_at s p port i = Some x \<and> (port \<noteq> 3 \<longrightarrow> stage_frames s x \<noteq> None))))"

lemma adsr_inputs_okD:
  assumes "adsr_inputs_ok s p B" "same_but B s s'" "0 \<le> i" "i < bufsize s" "port \<in> {1, 2, 3, 4}"
  shows "\<exists>x. input_at s' p port i = Some x \<and> (port \<noteq> 3 \<longrightarrow> (\<exists>d. stage_frames s' x = Some d))"
proof -
  have "reads_other s p port B"
    and "\<exists>x. input_at s p port i = Some x \<and> (port \<noteq> 3 \<longrightarrow> stage_frames s x \<noteq> None)"
    using assms(1,3-5) by (auto simp: adsr_inputs_ok_def)
  moreover have "stage_frames s' x = stage_frames s x" for x
    using same_but_eng(3) [OF assms(2)] by (simp add: stage_frames_def)
  ultimately show ?thesis using same_but_input [OF assms(2)] by auto
qed

lemma adsr_event_ok:
  assumes "adsr_inputs_ok s p B" "same_but B s s'" "0 \<le> i" "i < bufsize s" "stage_ok u env" "1 \<le> u"
  shows "\<exists>env'. adsr_event s' p i ev env = Some env' \<and> stage_ok u env'"
proof -
  obtain x d where "input_at s' p 1 i = Some x" "stage_frames s' x = Some d"
    using adsr_inputs_okD [OF assms(1-4), of 1] by auto
  moreover obtain y c where "input_at s' p 4 i = Some y" "stage_frames s' y = Some c"
    using adsr_inputs_okD [OF assms(1-4), of 4] by auto
  ultimately show ?thesis using assms(5,6) by (simp add: adsr_event_def stage_ok_def Let_def)
qed

lemma progress_ok:
  assumes "0 \<le> currentTime env" "currentTime env \<le> u" "u < 2 ^ 31"
  shows "\<exists>x. progress env = Some x"
proof -
  have "int32_ok (- currentTime env)" using assms by (simp add: int32_ok_def)
  then show ?thesis by (simp add: progress_def int_chk_def)
qed

lemma adsr_stage_step_ok:
  assumes "adsr_inputs_ok s p B" "same_but B s s'" "0 \<le> i" "i < bufsize s" "stage_ok u env" "u < 2 ^ 31"
  shows "\<exists>env'. adsr_stage_step lm s' p i env = Some env' \<and> stage_ok u env'"
proof -
  obtain x where x: "progress env = Some x" using progress_ok assms(5,6) by (auto simp: stage_ok_def)
  obtain y where y: "input_at s' p 3 i = Some y" using adsr_inputs_okD [OF assms(1-4), of 3] by auto
  obtain z c where z: "input_at s' p 2 i = Some z" "stage_frames s' z = Some c"
    using adsr_inputs_okD [OF assms(1-4), of 2] by auto
  show ?thesis
    using assms(5) x y z
    by (auto simp: adsr_stage_step_def adsr_attack_def adsr_decay_def adsr_release_def Let_def stage_ok_def stage_defs)
qed

text \<open>The samples written so far.\<close>

definition gate_closed :: "sound \<Rightarrow> ptr \<Rightarrow> ptr \<Rightarrow> int \<Rightarrow> bool" where
  "gate_closed s b0 b1 j \<longleftrightarrow> sample_at (samp s) b1 j = Some 1 \<and> sample_at (samp s) b0 j = Some 0"

definition gate_open :: "sound \<Rightarrow> ptr \<Rightarrow> ptr \<Rightarrow> int \<Rightarrow> KsiData \<Rightarrow> bool" where
  "gate_open s b0 b1 j x \<longleftrightarrow> sample_at (samp s) b1 j = Some 0 \<and> sample_at (samp s) b0 j = Some x"

lemma gates_cong:
  assumes "\<And>b. sample_at (samp s') b j = sample_at (samp s) b j"
  shows "gate_open s' b0 b1 j = gate_open s b0 b1 j" "gate_closed s' b0 b1 j = gate_closed s b0 b1 j"
  using assms by (simp_all add: fun_eq_iff gate_open_def gate_closed_def)

definition frame_out :: "sound \<Rightarrow> ptr \<Rightarrow> ptr \<Rightarrow> int \<Rightarrow> adsr_env \<Rightarrow> bool" where
  "frame_out s b0 b1 j env \<longleftrightarrow>
     (if currentStage env = stageHalt then gate_closed s b0 b1 j else gate_open s b0 b1 j (currentMod env))"

definition adsr_buffers :: "sound \<Rightarrow> ptr \<Rightarrow> ptr \<Rightarrow> ptr \<Rightarrow> bool" where
  "adsr_buffers s p b0 b1 \<longleftrightarrow> output_buffer (eng s) p 0 = Some b0 \<and> output_buffer (eng s) p 1 = Some b1 \<and> b0 \<noteq> b1 \<and>
     (\<exists>xs ys. samp s b0 = Some xs \<and> samp s b1 = Some ys \<and> bufsize s \<le> int (length xs) \<and> bufsize s \<le> int (length ys))"

lemma adsr_output_split:
  "adsr_output p i env s = do {
     s \<leftarrow> put p 0 i (if currentStage env \<noteq> stageHalt then currentMod env else 0) s;
     put p 1 i (if currentStage env \<noteq> stageHalt then 0 else 1) s
   }"
  by (simp add: adsr_output_def)

lemma adsr_output_ok:
  assumes "adsr_buffers s p b0 b1" "same_but {b0, b1} s s'" "0 \<le> i" "i < bufsize s"
  obtains s'' where "adsr_output p i env s' = Some s''" "same_but {b0, b1} s s''" "frame_out s'' b0 b1 i env"
    "\<And>b j. 0 \<le> j \<Longrightarrow> j \<noteq> i \<Longrightarrow> sample_at (samp s'') b j = sample_at (samp s') b j"
proof -
  obtain xs ys where b: "output_buffer (eng s) p 0 = Some b0" "output_buffer (eng s) p 1 = Some b1" "b0 \<noteq> b1"
    "samp s b0 = Some xs" "samp s b1 = Some ys" "i < int (length xs)" "i < int (length ys)"
    using assms(1,4) by (auto simp: adsr_buffers_def)
  define x where "x = (if currentStage env \<noteq> stageHalt then currentMod env else 0)"
  define g :: KsiData where "g = (if currentStage env \<noteq> stageHalt then 0 else 1)"
  obtain us where u: "samp s' b0 = Some us" "length us = length xs"
    "put p 0 i x s' = Some (s'\<lparr>samp := (samp s')(b0 \<mapsto> us[nat i := x])\<rparr>)"
    "same_but {b0, b1} s (s'\<lparr>samp := (samp s')(b0 \<mapsto> us[nat i := x])\<rparr>)"
    using same_but_put [OF assms(2) b(1) _ b(4) assms(3) b(6), of x] by auto
  let ?s1 = "s'\<lparr>samp := (samp s')(b0 \<mapsto> us[nat i := x])\<rparr>"
  obtain vs where v: "samp ?s1 b1 = Some vs" "length vs = length ys"
    "put p 1 i g ?s1 = Some (?s1\<lparr>samp := (samp ?s1)(b1 \<mapsto> vs[nat i := g])\<rparr>)"
    "same_but {b0, b1} s (?s1\<lparr>samp := (samp ?s1)(b1 \<mapsto> vs[nat i := g])\<rparr>)"
    using same_but_put [OF u(4) b(2) _ b(5) assms(3) b(7), of g] by auto
  let ?s2 = "?s1\<lparr>samp := (samp ?s1)(b1 \<mapsto> vs[nat i := g])\<rparr>"
  have "adsr_output p i env s' = Some ?s2"
    using u(3) v(3) unfolding adsr_output_split x_def g_def by (simp del: fun_upd_apply)
  moreover have "frame_out ?s2 b0 b1 i env"
    using b(3,6,7) u(2) v(2) assms(3)
    by (simp add: frame_out_def gate_closed_def gate_open_def sample_at_def get_at_def x_def g_def)
  moreover have "sample_at (samp ?s2) b j = sample_at (samp s') b j" if "0 \<le> j" "j \<noteq> i" for b j
    using that assms(3) u(1) v(1) b(3) by (simp add: sample_at_def get_at_def eq_nat_nat_iff)
  ultimately show ?thesis using that v(4) by blast
qed

text \<open>What holds after the frames before \<open>i\<close>, with \<open>u\<close> a bound of the time in the stage.\<close>

definition adsr_inv :: "sound \<Rightarrow> ptr \<Rightarrow> ptr \<Rightarrow> int \<Rightarrow> int \<Rightarrow> adsr_run \<Rightarrow> bool" where
  "adsr_inv s b0 b1 u i st =
     (case st of (s', _, env) \<Rightarrow>
        same_but {b0, b1} s s' \<and> stage_ok (u + i) env \<and>
        (\<forall>j. 0 \<le> j \<and> j < i \<longrightarrow> gate_closed s' b0 b1 j \<or> (\<exists>x. gate_open s' b0 b1 j x)) \<and>
        (0 < i \<longrightarrow> frame_out s' b0 b1 (i - 1) env))"

lemma adsr_frame_inv:
  assumes "adsr_buffers s p b0 b1" "adsr_inputs_ok s p {b0, b1}" "0 \<le> i" "i < bufsize s" "adsr_inv s b0 b1 u i st"
    "1 \<le> u" "u + bufsize s < 2 ^ 31"
  shows "\<exists>st'. adsr_frame lm p i st = Some st' \<and> adsr_inv s b0 b1 u (i + 1) st' \<and>
    (\<forall>b j. 0 \<le> j \<and> j \<noteq> i \<longrightarrow> sample_at (samp (fst st')) b j = sample_at (samp (fst st)) b j)"
proof -
  obtain s' next_ev qs env where st: "st = (s', (next_ev, qs), env)" by (cases st) auto
  have 1: "same_but {b0, b1} s s'" "stage_ok (u + i) env"
    "\<And>j. 0 \<le> j \<Longrightarrow> j < i \<Longrightarrow> gate_closed s' b0 b1 j \<or> (\<exists>x. gate_open s' b0 b1 j x)"
    using assms(5) by (auto simp: adsr_inv_def st)
  define pick where "pick = (case next_ev of
       Some ev \<Rightarrow> (if timeStamp ev = frame_time s' i then do {
           env \<leftarrow> adsr_event s' p i ev env;
           Some (ksiNodeGetNextEvent qs, env)
         } else Some ((next_ev, qs), env))
     | None \<Rightarrow> Some ((next_ev, qs), env))"
  have "\<exists>evs env'. pick = Some (evs, env') \<and> stage_ok (u + i) env'"
  proof -
    have "\<exists>env'. adsr_event s' p i ev env = Some env' \<and> stage_ok (u + i) env'" for ev
      by (rule adsr_event_ok [OF assms(2) 1(1) assms(3,4) 1(2)]) (use assms(3,6) in simp)
    then obtain f where "\<And>ev. adsr_event s' p i ev env = Some (f ev)" "\<And>ev. stage_ok (u + i) (f ev)" by metis
    then show ?thesis using 1(2) by (auto simp: pick_def split: option.split)
  qed
  then obtain evs env1 where 2: "pick = Some (evs, env1)" "stage_ok (u + i) env1" by blast
  obtain env2 where 3: "adsr_stage_step lm s' p i env1 = Some env2" "stage_ok (u + i) env2"
    using adsr_stage_step_ok [OF assms(2) 1(1) assms(3,4) 2(2)] assms(4,7) by force
  have 4: "int_chk (currentTime env2 + 1) = Some (currentTime env2 + 1)"
    using 3(2) assms(4,7) by (simp add: stage_ok_def int_chk_def int32_ok_def)
  let ?env = "env2\<lparr>currentTime := currentTime env2 + 1\<rparr>"
  obtain s'' where 5: "adsr_output p i ?env s' = Some s''" "same_but {b0, b1} s s''" "frame_out s'' b0 b1 i ?env"
    "\<And>b j. 0 \<le> j \<Longrightarrow> j \<noteq> i \<Longrightarrow> sample_at (samp s'') b j = sample_at (samp s') b j"
    using adsr_output_ok [OF assms(1) 1(1) assms(3,4)] by blast
  have "adsr_frame lm p i st = Some (s'', evs, ?env)"
    using 2(1) 3(1) 4 5(1) unfolding adsr_frame_def st pick_def by simp
  moreover have "adsr_inv s b0 b1 u (i + 1) (s'', evs, ?env)"
  proof -
    have "gate_closed s'' b0 b1 j \<or> (\<exists>x. gate_open s'' b0 b1 j x)" if "0 \<le> j" "j < i + 1" for j
    proof (cases "j = i")
      case True
      then show ?thesis using 5(3) by (auto simp: frame_out_def split: if_splits)
    next
      case False
      then show ?thesis using 1(3) [of j] 5(4) [of j] that by (simp add: gate_closed_def gate_open_def)
    qed
    moreover have "stage_ok (u + (i + 1)) ?env" using 3(2) by (auto simp: stage_ok_def)
    ultimately show ?thesis using 5(2,3) by (simp add: adsr_inv_def)
  qed
  ultimately show ?thesis using 5(4) by (intro exI [of _ "(s'', evs, ?env)"]) (simp add: st)
qed

lemma adsr_frames_inv:
  assumes "adsr_buffers s p b0 b1" "adsr_inputs_ok s p {b0, b1}" "1 \<le> u" "u + bufsize s < 2 ^ 31" "stage_ok u env"
    "0 \<le> bufsize s"
  shows "\<exists>st'. each_frame (adsr_frame lm p) 0 (nat (bufsize s)) (s, evs, env) = Some st' \<and> adsr_inv s b0 b1 u (bufsize s) st'"
proof -
  have i: "adsr_inv s b0 b1 u 0 (s, evs, env)" using assms(5) by (auto simp: adsr_inv_def same_but_refl)
  have "\<exists>st'. adsr_frame lm p j st = Some st' \<and> adsr_inv s b0 b1 u (j + 1) st'"
    if "0 \<le> j" "j < 0 + int (nat (bufsize s))" "adsr_inv s b0 b1 u j st" for j st
    using adsr_frame_inv [OF assms(1,2) _ _ that(3) assms(3,4), of lm] that(1,2) assms(6) by auto
  from each_frame_inv [where I = "adsr_inv s b0 b1 u" and f = "adsr_frame lm p" and i = 0 and k = "nat (bufsize s)", OF this i] show ?thesis using assms(6) by simp
qed

lemma load_store_adsr [simp]: "load_adsr (store_adsr a env s) a = Some env"
  by (simp add: load_adsr_def store_adsr_def)

lemma load_adsr_cong: "plugs e = plugs (eng s) \<Longrightarrow> load_adsr (s\<lparr>eng := e\<rparr>) a = load_adsr s a"
  by (simp add: load_adsr_def)

lemma next_event_None: "fst (ksiNodeGetNextEvent qs) = None \<longleftrightarrow> concat qs = []"
  by (rule next_event_cases [of qs]) (auto simp del: concat_eq_Nil_conv)

text \<open>Both output types are written.\<close>

lemma both_output_types:
  assumes "audio_node (eng s) p = Some n" "types_of (eng s) (outputTypes n) = [t0, t1]"
  shows "\<exists>e' n'. do { s \<leftarrow> map_output_type f p 0 s; map_output_type f p 1 s } = Some (s\<lparr>eng := e'\<rparr>) \<and>
     audio_node e' p = Some n' \<and> types_of e' (outputTypes n') = [f t0, f t1] \<and> plugs e' = plugs (eng s)"
proof -
  obtain e1 n1 where 1: "map_output_type f p 0 s = Some (s\<lparr>eng := e1\<rparr>)" "audio_node e1 p = Some n1"
    "types_of e1 (outputTypes n1) = [f t0, t1]" "plugs e1 = plugs (eng s)"
    using map_output_type_result [OF assms(1), of 0 f] assms(2) by auto
  obtain e2 n2 where 2: "map_output_type f p 1 (s\<lparr>eng := e1\<rparr>) = Some (s\<lparr>eng := e2\<rparr>)" "audio_node e2 p = Some n2"
    "types_of e2 (outputTypes n2) = [f t0, f t1]" "plugs e2 = plugs e1"
    using map_output_type_result [of "s\<lparr>eng := e1\<rparr>" p n1 1 f] 1(2,3) by auto
  then show ?thesis using 1 by auto
qed

lemma adsr_inv_store:
  assumes "adsr_inv s b0 b1 u i (s1, evs, env)" "audio_node (eng s) p = Some n" "types_of (eng s) (outputTypes n) = ts"
  shows "audio_node (eng (store_adsr a env s1)) p = Some n" "types_of (eng (store_adsr a env s1)) (outputTypes n) = ts"
proof -
  have "eng s1 = eng s" using assms(1) same_but_eng(1) unfolding adsr_inv_def by blast
  then show "audio_node (eng (store_adsr a env s1)) p = Some n" "types_of (eng (store_adsr a env s1)) (outputTypes n) = ts"
    using assms(2,3) by (simp_all add: store_adsr_def audio_node_def types_of_def split: type_array.splits)
qed

text \<open>C24: The envelope generator goes through: given inputs that can be read and stage lengths that are numbers of frames,
  a call does not fault, leaves the generator in one of its stages, and every sample of the gate output is 0 or 1,
  with a modulation of 0.0 where the gate is closed. The last samples, which unchanging outputs are read from, are
  those of the stage the call ends in. Without events in a stage that does not change nothing is computed, and the
  outputs are marked as unchanging.\<close>

theorem adsr_keeps_types:
  assumes "audio_node (eng s) p = Some n" "types_of (eng s) (outputTypes n) = [t0, t1]"
    "load_adsr s (nargs n) = Some env" "ksiNodeBeginIterateEvent (eng s) p 0 = Some qs"
    "adsr_buffers s p b0 b1" "adsr_inputs_ok s p {b0, b1}" "0 < bufsize s"
    "stage_ok u env" "1 \<le> u" "u + bufsize s < 2 ^ 31"
  shows "\<exists>s' env' n'. kscarletADSR lm p s = Some s' \<and> load_adsr s' (nargs n) = Some env' \<and>
    stage_ok (u + bufsize s) env' \<and> audio_node (eng s') p = Some n' \<and>
    (if currentStage env \<in> {stageHalt, stageSustain} \<and> concat qs = []
     then samp s' = samp s \<and> env' = env \<and>
       types_of (eng s') (outputTypes n') = [ksiNodePortIOClear t0, ksiNodePortIOClear t1]
     else (\<forall>j. 0 \<le> j \<and> j < bufsize s \<longrightarrow> gate_closed s' b0 b1 j \<or> (\<exists>x. gate_open s' b0 b1 j x)) \<and>
       frame_out s' b0 b1 (bufsize s - 1) env' \<and>
       types_of (eng s') (outputTypes n') = [ksiNodePortIOSetDirty t0, ksiNodePortIOSetDirty t1])"
proof (cases "currentStage env \<in> {stageHalt, stageSustain} \<and> concat qs = []")
  case True
  then have "kscarletADSR lm p s = do { s \<leftarrow> clear_port p 0 s; clear_port p 1 s }"
    using assms(1,3,4) next_event_None [of qs] by (auto simp: kscarletADSR_def split_beta)
  moreover obtain e' n' where "do { s \<leftarrow> clear_port p 0 s; clear_port p 1 s } = Some (s\<lparr>eng := e'\<rparr>)"
    "audio_node e' p = Some n'" "types_of e' (outputTypes n') = [ksiNodePortIOClear t0, ksiNodePortIOClear t1]"
    "plugs e' = plugs (eng s)"
    using both_output_types [OF assms(1,2)] by blast
  moreover have "stage_ok (u + bufsize s) env" using assms(7,8) by (auto simp: stage_ok_def)
  ultimately show ?thesis using True assms(3) load_adsr_cong
    by (intro exI [of _ "s\<lparr>eng := e'\<rparr>"] exI [of _ env] exI [of _ n']) auto
next
  case False
  obtain ev qs' where ev: "ksiNodeGetNextEvent qs = (ev, qs')" by fastforce
  obtain s1 evs env' where 1: "each_frame (adsr_frame lm p) 0 (nat (bufsize s)) (s, (ev, qs'), env) = Some (s1, evs, env')"
    "adsr_inv s b0 b1 u (bufsize s) (s1, evs, env')"
    using adsr_frames_inv [OF assms(5,6,9,10,8)] assms(7) by (metis less_imp_le prod_cases3)
  let ?s2 = "store_adsr (nargs n) env' s1"
  have e: "audio_node (eng ?s2) p = Some n" "types_of (eng ?s2) (outputTypes n) = [t0, t1]"
    using adsr_inv_store [OF 1(2) assms(1,2)] by simp_all
  obtain e' n' where 2: "do { s \<leftarrow> dirty_port p 0 ?s2; dirty_port p 1 s } = Some (?s2\<lparr>eng := e'\<rparr>)"
    "audio_node e' p = Some n'" "types_of e' (outputTypes n') = [ksiNodePortIOSetDirty t0, ksiNodePortIOSetDirty t1]"
    "plugs e' = plugs (eng ?s2)"
    using both_output_types [OF e] by blast
  have run: "kscarletADSR lm p s = Some (?s2\<lparr>eng := e'\<rparr>)"
    using False assms(1,3,4) next_event_None [of qs] ev 1(1) 2(1) by (auto simp: kscarletADSR_def)
  have "load_adsr (?s2\<lparr>eng := e'\<rparr>) (nargs n) = Some env'" using 2(4) load_adsr_cong by simp
  moreover have "samp (?s2\<lparr>eng := e'\<rparr>) = samp s1" by (simp add: store_adsr_def)
  ultimately show ?thesis using run 1(2) 2(2,3) False assms(7)
    by (intro exI [of _ "?s2\<lparr>eng := e'\<rparr>"] exI [of _ env'] exI [of _ n'])
      (auto simp: adsr_inv_def frame_out_def gate_closed_def gate_open_def)
qed

section \<open>The end of a note\<close>

lemma adsr_frame_quiet:
  assumes "adsr_frame lm p i (s, (None, qs), env) = Some (s', evs, env')"
  shows "evs = (None, qs)" "currentTime env' = currentTime env + 1 \<or> currentStage env = stageAttack"
    "currentStage env = stageRelease \<Longrightarrow> stageDuration env' = stageDuration env \<and>
       currentStage env' = (if currentTime env < stageDuration env then stageRelease else stageHalt)"
    "currentStage env = stageHalt \<Longrightarrow> stageDuration env' = stageDuration env \<and> currentStage env' = stageHalt"
  using assms
  by (auto simp: adsr_frame_def adsr_stage_step_def adsr_decay_def adsr_release_def int_chk_def stage_defs Let_def
      split: Option.bind_splits if_splits)

text \<open>The state of a release that began at time \<open>t\<close> of its \<open>d\<close> frames, after \<open>i\<close> frames.\<close>

definition releasing :: "sound \<Rightarrow> ptr \<Rightarrow> ptr \<Rightarrow> int \<Rightarrow> int \<Rightarrow> KsiEvent list list \<Rightarrow> int \<Rightarrow> adsr_run \<Rightarrow> bool" where
  "releasing s b0 b1 t d qs i st =
     (case st of (s', evs, env) \<Rightarrow>
        evs = (None, qs) \<and> currentTime env = t + i \<and> stageDuration env = d \<and>
        currentStage env = (if i = 0 \<or> t + i - 1 < d then stageRelease else stageHalt) \<and>
        (\<forall>j. 0 \<le> j \<and> j < i \<longrightarrow> (if t + j < d then \<exists>x. gate_open s' b0 b1 j x else gate_closed s' b0 b1 j)))"

lemma releasing_frame:
  assumes "adsr_buffers s p b0 b1" "adsr_inputs_ok s p {b0, b1}" "0 \<le> i" "i < bufsize s" "adsr_inv s b0 b1 u i st"
    "1 \<le> u" "u + bufsize s < 2 ^ 31" "releasing s b0 b1 t d qs i st"
  shows "\<exists>st'. adsr_frame lm p i st = Some st' \<and> adsr_inv s b0 b1 u (i + 1) st' \<and> releasing s b0 b1 t d qs (i + 1) st'"
proof -
  obtain s1 env where st: "st = (s1, (None, qs), env)" using assms(8) by (cases st) (auto simp: releasing_def)
  obtain s2 evs env' where 1: "adsr_frame lm p i st = Some (s2, evs, env')" "adsr_inv s b0 b1 u (i + 1) (s2, evs, env')"
    "\<And>b j. 0 \<le> j \<Longrightarrow> j \<noteq> i \<Longrightarrow> sample_at (samp s2) b j = sample_at (samp s1) b j"
    using adsr_frame_inv [OF assms(1-7), of lm] by (auto simp: st)
  note q = adsr_frame_quiet [OF 1(1) [unfolded st]]
  have r: "currentTime env = t + i" "stageDuration env = d"
    "currentStage env = (if i = 0 \<or> t + i - 1 < d then stageRelease else stageHalt)"
    "\<And>j. 0 \<le> j \<Longrightarrow> j < i \<Longrightarrow> if t + j < d then \<exists>x. gate_open s1 b0 b1 j x else gate_closed s1 b0 b1 j"
    using assms(8) by (auto simp: releasing_def st)
  have stage: "currentStage env' = (if t + i < d then stageRelease else stageHalt)"
    using q(3,4) r(1-3) by (cases "i = 0 \<or> t + i - 1 < d") auto
  have time: "currentTime env' = t + (i + 1)" using q(2) r(1,3) by (auto simp: stage_defs split: if_splits)
  have dur: "stageDuration env' = d" using q(3,4) r(2,3) by (cases "i = 0 \<or> t + i - 1 < d") auto
  have "if t + j < d then \<exists>x. gate_open s2 b0 b1 j x else gate_closed s2 b0 b1 j" if "0 \<le> j" "j < i + 1" for j
  proof (cases "j = i")
    case True
    then show ?thesis using 1(2) assms(3) stage by (auto simp: adsr_inv_def frame_out_def stage_defs split: if_splits)
  next
    case False
    then show ?thesis using r(4) [of j] that gates_cong [of s2 j s1, OF 1(3)] by simp
  qed
  then have "releasing s b0 b1 t d qs (i + 1) (s2, evs, env')"
    using q(1) stage time dur assms(3) by (simp add: releasing_def)
  then show ?thesis using 1(1,2) by blast
qed

text \<open>C25: A note that is let go of ends: without further events the gate stays open for exactly the frames that are left of the
  release and is closed from then on.\<close>

theorem adsr_release_ends:
  assumes "audio_node (eng s) p = Some n" "types_of (eng s) (outputTypes n) = [t0, t1]"
    "load_adsr s (nargs n) = Some env" "ksiNodeBeginIterateEvent (eng s) p 0 = Some qs" "concat qs = []"
    "adsr_buffers s p b0 b1" "adsr_inputs_ok s p {b0, b1}" "0 < bufsize s"
    "stage_ok u env" "1 \<le> u" "u + bufsize s < 2 ^ 31" "currentStage env = stageRelease"
  shows "\<exists>s' env'. kscarletADSR lm p s = Some s' \<and> load_adsr s' (nargs n) = Some env' \<and>
    (\<forall>j. 0 \<le> j \<and> j < bufsize s \<longrightarrow>
       (if currentTime env + j < stageDuration env then \<exists>x. gate_open s' b0 b1 j x else gate_closed s' b0 b1 j)) \<and>
    currentTime env' = currentTime env + bufsize s \<and>
    currentStage env' = (if currentTime env + bufsize s \<le> stageDuration env then stageRelease else stageHalt)"
proof -
  let ?I = "\<lambda>i st. adsr_inv s b0 b1 u i st \<and> releasing s b0 b1 (currentTime env) (stageDuration env) qs i st"
  have ev: "ksiNodeGetNextEvent qs = (None, qs)" using assms(5) by (cases qs rule: next_event_cases) auto
  have start: "?I 0 (s, (None, qs), env)"
    using assms(9,12) by (auto simp: adsr_inv_def releasing_def same_but_refl)
  have "\<exists>st'. adsr_frame lm p j st = Some st' \<and> ?I (j + 1) st'"
    if "0 \<le> j" "j < 0 + int (nat (bufsize s))" "?I j st" for j st
    using releasing_frame [OF assms(6,7) that(1) _ conjunct1 [OF that(3)] assms(10,11) conjunct2 [OF that(3)]] that(2) assms(8) by simp
  from each_frame_inv [where I = ?I and f = "adsr_frame lm p" and i = 0 and k = "nat (bufsize s)", OF this start]
  obtain s1 evs env' where 1: "each_frame (adsr_frame lm p) 0 (nat (bufsize s)) (s, (None, qs), env) = Some (s1, evs, env')"
    "adsr_inv s b0 b1 u (bufsize s) (s1, evs, env')"
    "releasing s b0 b1 (currentTime env) (stageDuration env) qs (bufsize s) (s1, evs, env')"
    using assms(8) by auto
  let ?s2 = "store_adsr (nargs n) env' s1"
  have e: "audio_node (eng ?s2) p = Some n" "types_of (eng ?s2) (outputTypes n) = [t0, t1]"
    using adsr_inv_store [OF 1(2) assms(1,2)] by simp_all
  obtain e' n' where 2: "do { s \<leftarrow> dirty_port p 0 ?s2; dirty_port p 1 s } = Some (?s2\<lparr>eng := e'\<rparr>)"
    "plugs e' = plugs (eng ?s2)"
    using both_output_types [OF e] by blast
  have "kscarletADSR lm p s = Some (?s2\<lparr>eng := e'\<rparr>)"
    using assms(1,3,4,12) ev 1(1) 2(1) by (simp add: kscarletADSR_def stage_defs)
  moreover have "load_adsr (?s2\<lparr>eng := e'\<rparr>) (nargs n) = Some env'" using 2(2) load_adsr_cong by simp
  moreover have "samp (?s2\<lparr>eng := e'\<rparr>) = samp s1" by (simp add: store_adsr_def)
  ultimately show ?thesis using 1(3) assms(8)
    by (intro exI [of _ "?s2\<lparr>eng := e'\<rparr>"] exI [of _ env'])
      (auto simp: releasing_def gates_cong [of "?s2\<lparr>eng := e'\<rparr>" _ s1])
qed

section \<open>Examples\<close>

text \<open>Four frames of a second; the generator is node 3, with the event sources 1 and 2, an attack, decay
  and release of half a second and a sustain of 0.5. \<open>es\<close> and \<open>fs\<close> are the events of the sources.\<close>

definition ex_libm :: libm where
  "ex_libm = \<lparr>expf = (\<lambda>x. 0), sinf = (\<lambda>x. x), powf = (\<lambda>x y. x)\<rparr>"

definition ex_bias :: "KsiData \<Rightarrow> KsiEnv" where
  "ex_bias x = SignalEnv NULL NULL [\<lparr>srcPort = 0, src = NULL, gain = x\<rparr>]"

definition ex_player :: "ptr \<Rightarrow> KsiNode" where
  "ex_player q = (ex_source ksiNodePortTypeEventGate q)"

definition ex_adsr_node :: KsiNode where
  "ex_adsr_node = \<lparr>depNum = 2, successors = [], nid = 3, ntype = 0x00050000, outputCount = 2, outputTypes = OutPorts 5,
     outputBuffer = [31, 32], inputCount = 5, inputTypes = InPorts 5,
     nenv = [EventEnv [ex_wire 1 f32_one, ex_wire 2 f32_one], ex_bias 0x3F000000, ex_bias 0x3F000000, ex_bias 0x3F000000,
             ex_bias 0x3F000000],
     nargs = 7, extArgs = []\<rparr>"

definition ex_event :: "uint64 \<Rightarrow> KsiData \<Rightarrow> KsiEvent" where "ex_event t x = \<lparr>timeStamp = t, edata = x\<rparr>"

definition ex_adsr :: "adsr_env \<Rightarrow> KsiEvent list \<Rightarrow> KsiEvent list \<Rightarrow> sound" where
  "ex_adsr env es fs = store_adsr 7 env
     \<lparr>eng = (ksiEngineInit 4 4)
        \<lparr>ver := (\<lambda>_. empty_version\<lparr>nheap := [1 \<mapsto> ex_player 21, 2 \<mapsto> ex_player 22, 3 \<mapsto> ex_adsr_node]\<rparr>),
         blocks := [21 \<mapsto> EventQueue es, 22 \<mapsto> EventQueue fs]\<rparr>,
      samp = [31 \<mapsto> [0, 0, 0, 0], 32 \<mapsto> [1, 1, 1, 1]],
      tseqs = Map.empty, voices = Map.empty\<rparr>"

definition ex_env_in :: "int \<Rightarrow> int \<Rightarrow> int \<Rightarrow> adsr_env" where
  "ex_env_in stage t d = \<lparr>currentTime = t, currentStage = stage, currentStageStartMod = 0, currentMod = 0,
     currentBias = 0, stageDuration = d\<rparr>"

lemma ex_adsr_facts:
  "audio_node (eng (ex_adsr env es fs)) 3 = Some ex_adsr_node" "nargs ex_adsr_node = 7"
  "types_of (eng (ex_adsr env es fs)) (outputTypes ex_adsr_node) = [ksiNodePortTypeFloat, ksiNodePortTypeGate]"
  "load_adsr (ex_adsr env es fs) 7 = Some env" "bufsize (ex_adsr env es fs) = 4"
  "adsr_buffers (ex_adsr env es fs) 3 31 32"
  by (simp_all add: ex_adsr_def store_adsr_def load_adsr_def ex_adsr_node_def audio_node_def empty_version_def types_of_def
      ksiEngineInit_def initPorts_def INLINE_LIST_def bufsize_def adsr_buffers_def output_buffer_def get_at_def)

lemma ex_adsr_iterate: "ksiNodeBeginIterateEvent (eng (ex_adsr env es fs)) 3 0 = Some [es, fs]"
  by (simp add: ex_adsr_def store_adsr_def ex_adsr_node_def audio_node_def empty_version_def ex_player_def ex_source_def
      ksiNodeBeginIterateEvent_def get_at_def output_buffer_def ex_wire_def)

lemma ex_adsr_input:
  assumes "port \<in> {1, 2, 3, 4}"
  shows "input_at (ex_adsr env es fs) 3 port i = Some 0x3F000000" "reads_other (ex_adsr env es fs) 3 port {31, 32}"
  using assms
  by (auto simp: ex_adsr_def store_adsr_def ex_adsr_node_def audio_node_def empty_version_def ex_bias_def reads_other_def
      input_at_def ksiNodeGetInput_def get_at_def get_input_type_def types_of_def ksiEngineInit_def initPorts_def
      INLINE_LIST_def port_type_defs)

lemma ex_adsr_frames: "stage_frames (ex_adsr env es fs) 0x3F000000 = Some 2"
proof -
  have "rate (ex_adsr env es fs) = f32_of_int 4"
    by (simp add: rate_def ex_adsr_def store_adsr_def ksiEngineInit_def)
  moreover have "f64_round_int32 (f64_of_f32 (f32_mul 0x3F000000 (f32_of_int 4))) = Some 2" by code_simp
  ultimately show ?thesis by (simp add: stage_frames_def)
qed

lemma ex_adsr_inputs_ok: "adsr_inputs_ok (ex_adsr env es fs) 3 {31, 32}"
  unfolding adsr_inputs_ok_def using ex_adsr_input ex_adsr_frames by simp

theorem adsr_keeps_types_witness:
  "\<exists>s' env'. kscarletADSR ex_libm 3 (ex_adsr (ex_env_in stageHalt 0 0) [ex_event 0 0] []) = Some s' \<and>
     load_adsr s' 7 = Some env' \<and> stage_ok 5 env' \<and> frame_out s' 31 32 3 env'"
  using adsr_keeps_types [where u = 1 and lm = ex_libm, OF ex_adsr_facts(1,3) ex_adsr_facts(4) [folded ex_adsr_facts(2)] ex_adsr_iterate
      ex_adsr_facts(6) ex_adsr_inputs_ok, of "ex_env_in stageHalt 0 0" "[ex_event 0 0]" "[]"]
  by (force simp: ex_adsr_facts stage_ok_def ex_env_in_def)

theorem adsr_release_ends_witness:
  "\<exists>s' env'. kscarletADSR ex_libm 3 (ex_adsr (ex_env_in stageRelease 1 3) [] []) = Some s' \<and>
     load_adsr s' 7 = Some env' \<and> currentStage env' = stageHalt \<and> gate_closed s' 31 32 2 \<and> (\<exists>x. gate_open s' 31 32 1 x)"
  using adsr_release_ends [where u = 1 and lm = ex_libm, OF ex_adsr_facts(1,3) ex_adsr_facts(4) [folded ex_adsr_facts(2)] ex_adsr_iterate
      _ ex_adsr_facts(6) ex_adsr_inputs_ok, of "[]" "[]" "ex_env_in stageRelease 1 3"]
  by (force simp: ex_adsr_facts stage_ok_def ex_env_in_def)

definition ex_stage :: "sound option \<Rightarrow> int option" where
  "ex_stage s = do { s \<leftarrow> s; env \<leftarrow> load_adsr s 7; Some (currentStage env) }"

definition ex_gate :: "sound option \<Rightarrow> KsiData list option" where
  "ex_gate s = do { s \<leftarrow> s; samp s 32 }"

text \<open>Of two events at the same time, from two players, the generator handles one: the other is waited for at a time that
  has passed, and hides all events after it. A note that ends in the same buffer is held.\<close>

theorem adsr_loses_simultaneous_event:
  "ex_stage (kscarletADSR ex_libm 3 (ex_adsr (ex_env_in stageHalt 0 0) [ex_event 0 0, ex_event 3 1] [])) = Some stageRelease \<and>
   ex_stage (kscarletADSR ex_libm 3 (ex_adsr (ex_env_in stageHalt 0 0) [ex_event 0 0, ex_event 3 1] [ex_event 0 0])) = Some stageSustain"
  by code_simp

text \<open>A reset stops the generator but not its output: the next call, without events, marks the outputs as unchanging, and
  what is read is the last sample from before the reset, with the gate still open.\<close>

theorem adsr_reset_keeps_sounding:
  "do { s \<leftarrow> kscarletADSR ex_libm 3 (ex_adsr (ex_env_in stageHalt 0 0) [ex_event 0 0] []);
        e \<leftarrow> kscarletADSRReset ex_adsr_node (eng s);
        e \<leftarrow> ksiEventClearQueue e 21;
        let s = s\<lparr>eng := e\<lparr>etime := 4\<rparr>\<rparr>;
        s \<leftarrow> kscarletADSR ex_libm 3 s;
        env \<leftarrow> load_adsr s 7;
        g \<leftarrow> sample_at (samp s) 32 3;
        d \<leftarrow> output_dirty (eng s) 3 1;
        Some (currentStage env, g, d) } = Some (stageHalt, 0, False)"
  by code_simp

end
