(* ===== verification/Midi_Seg.thy ===== *)
theory Midi_Seg
  imports Sound
begin

text \<open>
  The player of a time sequence (\<^verbatim>\<open>builtins/kscarlet/midiseg.c\<close>): it walks through a tree of
  notes and puts out their frequencies and an event for each.
\<close>

definition load_midiseg :: "sound \<Rightarrow> ptr \<Rightarrow> (ptr \<times> ptr \<times> KsiData) option" where
  "load_midiseg s a =
     (case (plugs (eng s) a, voices s a) of
        (Some (MidiSegEnv tree current), Some (MidiSegVoice freq)) \<Rightarrow> Some (tree, current, freq)
      | _ \<Rightarrow> None)"

definition store_midiseg :: "ptr \<Rightarrow> ptr \<times> ptr \<times> KsiData \<Rightarrow> sound \<Rightarrow> sound" where
  "store_midiseg a env s =
     (case env of (tree, current, freq) \<Rightarrow>
        s\<lparr>eng := (eng s)\<lparr>plugs := (plugs (eng s))(a \<mapsto> MidiSegEnv tree current)\<rparr>,
          voices := (voices s)(a \<mapsto> MidiSegVoice freq)\<rparr>)"

text \<open>\<open>(env->current->key) - n->e->timeStamp\<close>, in \<open>size_t\<close> and cut to an \<open>int32_t\<close>\<close>

definition current_dt :: "uint64 \<Rightarrow> rbtree \<Rightarrow> ptr \<Rightarrow> int option" where
  "current_dt now t current = do {
     n \<leftarrow> rmem t current;
     Some (sint (ucast (word_of_int (rkey n) - now) :: int32))
   }"

text \<open>\<open>440.0f*powf(2, ((float)tone-69)/12)\<close>\<close>

definition note_freq :: "libm \<Rightarrow> int \<Rightarrow> KsiData" where
  "note_freq lm tone =
     f32_mul (f32_of_int 440)
       (powf lm (f32_of_int 2) (f32_div (f32_sub (f32_of_int tone) (f32_of_int 69)) (f32_of_int 12)))"

text \<open>The inner loop: all notes of frame \<open>i\<close>. The state has the sound, the node \<open>current\<close>,
  \<open>localNextEvent\<close> and the frequency; \<open>t\<close> is the tree and \<open>q\<close> the queue of events.\<close>

type_synonym seg_run = "sound \<times> ptr \<times> int \<times> KsiData"

definition play_note :: "libm \<Rightarrow> rbtree \<Rightarrow> ptr \<Rightarrow> int \<Rightarrow> seg_run \<Rightarrow> seg_run option" where
  "play_note lm t q i st = do {
     let (s, current, local, freq) = st;
     n \<leftarrow> rmem t current;
     let freq = note_freq lm (note_tone (rdata n));
     e \<leftarrow> ksiEventEnqueue (eng s) q (if note_velocity (rdata n) = 0 then 1 else 0) (frame_time s i);
     let s = s\<lparr>eng := e\<rparr>;
     current \<leftarrow> ksiRBTreeNext t current;
     local \<leftarrow> (if current \<noteq> NULL then current_dt (etime (eng s)) t current else Some (- 1));
     Some (s, current, local, freq)
   }"

partial_function (option) play_notes :: "libm \<Rightarrow> rbtree \<Rightarrow> ptr \<Rightarrow> int \<Rightarrow> seg_run \<Rightarrow> seg_run option" where
  "play_notes lm t q i st =
     (if fst (snd (snd st)) = i then do {
        st \<leftarrow> play_note lm t q i st;
        play_notes lm t q i st
      }
      else Some st)"

declare play_notes.simps [code]

definition midiseg_frame :: "libm \<Rightarrow> ptr \<Rightarrow> rbtree \<Rightarrow> ptr \<Rightarrow> int \<Rightarrow> seg_run \<Rightarrow> seg_run option" where
  "midiseg_frame lm p t q i st = do {
     (s, current, local, freq) \<leftarrow> play_notes lm t q i st;
     s \<leftarrow> put p 0 i freq s;
     Some (s, current, local, freq)
   }"

definition midiseg_bypass :: "ptr \<Rightarrow> KsiData \<Rightarrow> sound \<Rightarrow> sound option" where
  "midiseg_bypass p freq s = do { s \<leftarrow> put p 0 (bufsize s - 1) freq s; clear_port p 1 s }"

definition kscarletMidiSeg :: "libm \<Rightarrow> ptr \<Rightarrow> sound \<Rightarrow> sound option" where
  "kscarletMidiSeg lm p s = do {
     n \<leftarrow> audio_node (eng s) p;
     (tree, current, freq) \<leftarrow> load_midiseg s (nargs n);
     (if current = NULL \<and> tree = NULL then midiseg_bypass p freq s
      else do {
        t \<leftarrow> tseqs s tree;
        current \<leftarrow> (if current = NULL then ksiRBTreeNextForKey t (sint (ucast (etime (eng s)) :: int32)) else Some current);
        let s = store_midiseg (nargs n) (tree, current, freq) s;
        (if current = NULL then midiseg_bypass p freq s
         else do {
           local \<leftarrow> current_dt (etime (eng s)) t current;
           (if local > bufsize s then midiseg_bypass p freq s
            else do {
              q \<leftarrow> output_buffer (eng s) p 1;
              e \<leftarrow> ksiEventClearQueue (eng s) q;
              let s = s\<lparr>eng := e\<rparr>;
              (s, current, _, freq) \<leftarrow> each_frame (midiseg_frame lm p t q) 0 (nat (bufsize s)) (s, current, local, freq);
              dirty_port p 1 (store_midiseg (nargs n) (tree, current, freq) s)
            })
         })
      })
   }"

section \<open>What the player plays\<close>

text \<open>The data of a note.\<close>

definition data_of :: "rbtree \<Rightarrow> ptr \<Rightarrow> uint64" where
  "data_of t a = (case rmem t a of Some n \<Rightarrow> rdata n | None \<Rightarrow> 0)"

definition note_event :: "rbtree \<Rightarrow> ptr \<Rightarrow> KsiEvent" where
  "note_event t a = \<lparr>timeStamp = word_of_int (keyof t a), edata = (if note_velocity (data_of t a) = 0 then 1 else 0)\<rparr>"

text \<open>The frequency after the notes \<open>as\<close>.\<close>

definition last_freq :: "libm \<Rightarrow> rbtree \<Rightarrow> KsiData \<Rightarrow> ptr list \<Rightarrow> KsiData" where
  "last_freq lm t freq as = (if as = [] then freq else note_freq lm (note_tone (data_of t (last as))))"

definition with_events :: "ptr \<Rightarrow> KsiEvent list \<Rightarrow> sound \<Rightarrow> sound" where
  "with_events q es s = s\<lparr>eng := (eng s)\<lparr>blocks := (blocks (eng s))(q \<mapsto> EventQueue es)\<rparr>\<rparr>"

lemma with_events_simps [simp]:
  "blocks (eng (with_events q es s)) q = Some (EventQueue es)" "etime (eng (with_events q es s)) = etime (eng s)"
  "with_events q es (with_events q fs s) = with_events q es s" "frame_time (with_events q es s) i = frame_time s i"
  "bufsize (with_events q es s) = bufsize s" "samp (with_events q es s) = samp s"
  "output_buffer (eng (with_events q es s)) p port = output_buffer (eng s) p port"
  "with_events q es (s\<lparr>samp := m\<rparr>) = (with_events q es s)\<lparr>samp := m\<rparr>"
  by (simp_all add: with_events_def frame_time_def bufsize_def output_buffer_def audio_node_def)

text \<open>Time as a number of frames, far from the limits of an \<open>int32_t\<close>.\<close>

definition near :: "uint64 \<Rightarrow> int \<Rightarrow> bool" where
  "near now k \<longleftrightarrow> 0 \<le> k \<and> k < 2 ^ 31 \<and> uint now < 2 ^ 31"

lemma current_dt_near:
  assumes "rmem t a = Some n" "near now (keyof t a)"
  shows "current_dt now t a = Some (keyof t a - uint now)"
proof -
  let ?k = "keyof t a - uint now"
  have k: "- (2 ^ 31) \<le> ?k" "?k < 2 ^ 31" using assms(2) uint_ge_0 [of now] unfolding near_def by linarith+
  have w: "word_of_int (rkey n) - now = (word_of_int ?k :: uint64)" using assms(1) by simp
  have "uint (word_of_int (rkey n) - now) = take_bit 64 ?k" unfolding w by (simp only: uint_word_of_int_eq) simp
  moreover have "sint (ucast (word_of_int (rkey n) - now) :: int32) = signed_take_bit 31 (uint (word_of_int (rkey n) - now))"
    by (simp add: unsigned_ucast_eq signed_ucast_eq)
  ultimately have "sint (ucast (word_of_int (rkey n) - now) :: int32) = signed_take_bit 31 ?k"
    by (simp add: signed_take_bit_take_bit)
  also have "\<dots> = ?k" using k by (simp add: signed_take_bit_int_eq_self_iff)
  finally show ?thesis using assms(1) by (simp add: current_dt_def)
qed

text \<open>One note of the tree, \<open>v\<close> being what \<open>ksiRBTreeNext\<close> returns.\<close>

lemma play_note_to:
  assumes "rb t T" "a \<in> set_tree T" "ksiRBTreeNext t a = Some v" "v \<in> set_tree T" "blocks (eng s) q = Some (EventQueue es)"
    "near (etime (eng s)) (keyof t v)" "frame_time s i = word_of_int (keyof t a)"
  shows "play_note lm t q i (s, a, local, freq) =
    Some (with_events q (es @ [note_event t a]) s, v, keyof t v - uint (etime (eng s)), last_freq lm t freq [a])"
proof -
  have "set_tree T \<subseteq> dom (rmem t)" using assms(1) rep_dom [of "rmem t" "rsentinel t" NULL T] by (simp add: rb_def)
  then obtain n n' where n: "rmem t a = Some n" "rmem t v = Some n'" using assms(2,4) by blast
  have "v \<noteq> NULL" using assms(1,4) unfolding rb_def by metis
  then show ?thesis
    using n assms(3,5,7) current_dt_near [OF n(2) assms(6)]
    by (simp add: play_note_def ksiEventEnqueue_def with_events_def note_event_def last_freq_def data_of_def)
qed

text \<open>A note with another one behind it.\<close>

lemma play_note_spec:
  assumes "rbt t T" "inorder T = xs @ a # v # vs" "blocks (eng s) q = Some (EventQueue es)"
    "near (etime (eng s)) (keyof t v)" "frame_time s i = word_of_int (keyof t a)"
  shows "play_note lm t q i (s, a, local, freq) =
    Some (with_events q (es @ [note_event t a]) s, v, keyof t v - uint (etime (eng s)), last_freq lm t freq [a])"
proof -
  have r: "rb t T" using assms(1) by (simp add: rbt_def)
  have m: "a \<in> set_tree T" "v \<in> set_tree T" using assms(2) by (simp_all add: set_inorder [symmetric] del: set_inorder)
  have "T \<noteq> Node l a Leaf" for l
  proof
    assume "T = Node l a Leaf"
    then have "xs @ a # v # vs = inorder l @ [a]" using assms(2) by simp
    moreover have "distinct (inorder T)" using r by (simp add: rb_def)
    ultimately show False using assms(2) by (metis append_is_Nil_conv distinct.simps(2) distinct_append in_set_conv_decomp last_appendR last_snoc list.discI list.set_intros(1) last_ConsR last_in_set)
  qed
  then have "ksiRBTreeNext t a = Some v" using next_of [OF r assms(2)] by (simp add: ksiRBTreeNext_def)
  from play_note_to [OF r m(1) this m(2) assms(3-5)] show ?thesis .
qed

lemma last_freq_append: "last_freq lm t (last_freq lm t freq as) bs = last_freq lm t freq (as @ bs)"
  by (simp add: last_freq_def)

text \<open>All notes \<open>us\<close> of one frame.\<close>

lemma play_notes_spec:
  assumes "rbt t T" "inorder T = xs @ us @ v # vs" "blocks (eng s) q = Some (EventQueue es)"
    "\<forall>a \<in> set (us @ [v]). near now (keyof t a)" "etime (eng s) = now"
    "\<forall>a \<in> set us. keyof t a = uint now + i" "keyof t v \<noteq> uint now + i" "local = keyof t (hd (us @ [v])) - uint now"
  shows "play_notes lm t q i (s, hd (us @ [v]), local, freq) =
    Some (with_events q (es @ map (note_event t) us) s, v, keyof t v - uint now, last_freq lm t freq us)"
  using assms(2-)
proof (induction us arbitrary: xs s es local freq)
  case Nil
  then have "with_events q es s = s" by (simp add: with_events_def fun_upd_idem)
  then show ?case using Nil by (simp add: play_notes.simps [of lm t q i] last_freq_def)
next
  case (Cons a us)
  let ?w = "hd (us @ [v])"
  obtain ws where w: "us @ v # vs = ?w # ws" by (cases us) auto
  have ino: "inorder T = xs @ a # ?w # ws" using Cons.prems(1) w by simp
  have wm: "?w \<in> set (us @ [v])" by (cases us) auto
  have "frame_time s i = word_of_int (keyof t a)"
    using Cons.prems(4,5) by (simp add: frame_time_def)
  then have step: "play_note lm t q i (s, a, local, freq) =
      Some (with_events q (es @ [note_event t a]) s, ?w, keyof t ?w - uint now, last_freq lm t freq [a])"
    using play_note_spec [OF assms(1) ino Cons.prems(2), of i lm local freq] Cons.prems(3,4) wm by auto
  have "play_notes lm t q i (with_events q (es @ [note_event t a]) s, ?w, keyof t ?w - uint now, last_freq lm t freq [a]) =
      Some (with_events q ((es @ [note_event t a]) @ map (note_event t) us) (with_events q (es @ [note_event t a]) s), v,
        keyof t v - uint now, last_freq lm t (last_freq lm t freq [a]) us)"
    by (rule Cons.IH [of "xs @ [a]"]) (use Cons.prems in auto)
  moreover have "local = i" using Cons.prems(5,7) by simp
  ultimately show ?case
    using step last_freq_append [of lm t freq "[a]" us]
    by (subst play_notes.simps) (simp add: last_freq_append)
qed

section \<open>Whole buffers\<close>

text \<open>Sorted lists are cut by a bound.\<close>

lemma sorted_cut:
  fixes k :: int
  shows "sorted (map f xs) \<Longrightarrow> filter (\<lambda>x. f x < k) xs @ filter (\<lambda>x. \<not> f x < k) xs = xs"
proof (induction xs)
  case (Cons a xs)
  show ?case
  proof (cases "f a < k")
    case True
    then show ?thesis using Cons by simp
  next
    case False
    then have "filter (\<lambda>x. f x < k) (a # xs) = []" using Cons.prems by (auto simp: filter_empty_conv)
    moreover have "filter (\<lambda>x. \<not> f x < k) (a # xs) = a # xs"
      by (rule filter_True) (use False Cons.prems in auto)
    ultimately show ?thesis by simp
  qed
qed simp

definition before :: "rbtree \<Rightarrow> int \<Rightarrow> ptr list \<Rightarrow> ptr list" where
  "before t k ps = filter (\<lambda>a. keyof t a < k) ps"

definition from_on :: "rbtree \<Rightarrow> int \<Rightarrow> ptr list \<Rightarrow> ptr list" where
  "from_on t k ps = filter (\<lambda>a. \<not> keyof t a < k) ps"

definition at_time :: "rbtree \<Rightarrow> int \<Rightarrow> ptr list \<Rightarrow> ptr list" where
  "at_time t k ps = filter (\<lambda>a. keyof t a = k) ps"

lemma cut_at:
  assumes "sorted (map (keyof t) ps)"
  shows "from_on t k ps = at_time t k ps @ from_on t (k + 1) ps" "before t (k + 1) ps = before t k ps @ at_time t k ps"
    "before t k ps @ from_on t k ps = ps"
proof -
  have s: "sorted (map (keyof t) (filter P ps))" for P
    using assms by (rule sorted_filter)
  have a: "filter (\<lambda>x. keyof t x < k + 1) (filter (\<lambda>x. \<not> keyof t x < k) ps) = filter (\<lambda>x. keyof t x = k) ps"
    "filter (\<lambda>x. \<not> keyof t x < k + 1) (filter (\<lambda>x. \<not> keyof t x < k) ps) = filter (\<lambda>x. \<not> keyof t x < k + 1) ps"
    "filter (\<lambda>x. keyof t x < k) (filter (\<lambda>x. keyof t x < k + 1) ps) = filter (\<lambda>x. keyof t x < k) ps"
    "filter (\<lambda>x. \<not> keyof t x < k) (filter (\<lambda>x. keyof t x < k + 1) ps) = filter (\<lambda>x. keyof t x = k) ps"
    by (auto intro!: filter_cong)
  show "from_on t k ps = at_time t k ps @ from_on t (k + 1) ps"
    using sorted_cut [OF s, of "k + 1" "\<lambda>x. \<not> keyof t x < k"] unfolding a from_on_def at_time_def by simp
  show "before t (k + 1) ps = before t k ps @ at_time t k ps"
    using sorted_cut [OF s, of k "\<lambda>x. keyof t x < k + 1"] unfolding a before_def at_time_def by simp
  show "before t k ps @ from_on t k ps = ps" using sorted_cut [OF assms] by (simp add: before_def from_on_def)
qed

definition seg_inv :: "libm \<Rightarrow> sound \<Rightarrow> rbtree \<Rightarrow> ptr \<Rightarrow> ptr \<Rightarrow> ptr list \<Rightarrow> ptr \<Rightarrow> KsiData \<Rightarrow> KsiData list \<Rightarrow> int \<Rightarrow> seg_run \<Rightarrow> bool" where
  "seg_inv lm s t q b ps c freq xs i st =
     (case st of (s', cur, local, f) \<Rightarrow>
        let now = uint (etime (eng s)) in 0 \<le> i \<and>
        same_but {b} (with_events q (map (note_event t) (before t (now + i) ps)) s) s' \<and>
        cur = hd (from_on t (now + i) ps @ [c]) \<and> local = keyof t cur - now \<and>
        f = last_freq lm t freq (before t (now + i) ps) \<and>
        (\<exists>ys. samp s' b = Some ys \<and> length ys = length xs \<and>
           (\<forall>j < length xs. ys ! j = (if int j < i then last_freq lm t freq (before t (now + int j + 1) ps) else xs ! j))))"

lemma midiseg_frame_inv:
  assumes "rbt t T" "inorder T = us @ ps @ c # vs" "\<forall>a \<in> set (ps @ [c]). near (etime (eng s)) (keyof t a)"
    "uint (etime (eng s)) + bufsize s \<le> keyof t c"
    "output_buffer (eng s) p 0 = Some b" "samp s b = Some xs" "bufsize s \<le> int (length xs)"
    "i < bufsize s" "seg_inv lm s t q b ps c freq xs i st"
  shows "\<exists>st'. midiseg_frame lm p t q i st = Some st' \<and> seg_inv lm s t q b ps c freq xs (i + 1) st'"
proof -
  let ?now = "uint (etime (eng s))"
  let ?k = "?now + i"
  let ?dn = "before t ?k ps" and ?us = "at_time t ?k ps" and ?rest = "from_on t (?k + 1) ps"
  have o: "sorted (map (keyof t) ps)" using assms(1,2) by (simp add: rbt_def ordered_def sorted_append)
  note cut = cut_at [OF o, of ?k]
  obtain s1 cur local f ys where st: "st = (s1, cur, local, f)" and i0: "0 \<le> i"
    and s1: "same_but {b} (with_events q (map (note_event t) ?dn) s) s1"
    and cur: "cur = hd (?us @ ?rest @ [c])" "local = keyof t cur - ?now" "f = last_freq lm t freq ?dn"
    and ys: "samp s1 b = Some ys" "length ys = length xs"
      "\<And>j. j < length xs \<Longrightarrow> ys ! j = (if int j < i then last_freq lm t freq (before t (?now + int j + 1) ps) else xs ! j)"
    using assms(9) cut(1) by (cases st) (auto simp: seg_inv_def Let_def)
  let ?v = "hd (?rest @ [c])"
  obtain ws where w: "?rest @ c # vs = ?v # ws" by (cases ?rest) auto
  have ino: "inorder T = (us @ ?dn) @ ?us @ ?v # ws"
    using assms(2) cut(1,3) w by (metis append.assoc)
  have vm: "?v \<in> set (ps @ [c])" and vk: "?k < keyof t ?v"
    using assms(4,8) by (cases ?rest; force simp: from_on_def filter_eq_Cons_iff)+
  have e: "blocks (eng s1) q = Some (EventQueue (map (note_event t) ?dn))" "etime (eng s1) = etime (eng s)"
    using same_but_eng(1) [OF s1] by simp_all
  let ?s2 = "with_events q (map (note_event t) (before t (?k + 1) ps)) s1"
  have run: "play_notes lm t q i (s1, hd (?us @ [?v]), keyof t (hd (?us @ [?v])) - ?now, f) =
      Some (?s2, ?v, keyof t ?v - ?now, last_freq lm t freq (before t (?k + 1) ps))"
  proof -
    have us: "\<forall>a \<in> set (?us @ [?v]). near (etime (eng s)) (keyof t a)" "\<forall>a \<in> set ?us. keyof t a = ?k"
      using assms(3) vm by (auto simp: at_time_def)
    show ?thesis
      using play_notes_spec [OF assms(1) ino e(1) us(1) e(2) us(2) _ refl, of lm f] vk cur(3) cut(2)
      by (simp add: last_freq_append)
  qed
  have cur': "cur = hd (?us @ [?v])" using cur(1) by (cases ?us; cases ?rest) auto
  let ?f = "last_freq lm t freq (before t (?k + 1) ps)"
  let ?s3 = "?s2\<lparr>samp := (samp ?s2)(b \<mapsto> ys[nat i := ?f])\<rparr>"
  have s2: "same_but {b} (with_events q (map (note_event t) (before t (?k + 1) ps)) s) ?s2"
    using s1 by (simp add: same_but_def with_events_def)
  have "put p 0 i ?f ?s2 = Some ?s3"
    by (rule put_sample) (use assms(5,7,8) i0 ys(1,2) same_but_eng(1) [OF s1] in simp_all)
  then have "midiseg_frame lm p t q i st = Some (?s3, ?v, keyof t ?v - ?now, ?f)"
    using run cur(2) cur' by (simp add: midiseg_frame_def st)
  moreover have "seg_inv lm s t q b ps c freq xs (i + 1) (?s3, ?v, keyof t ?v - ?now, ?f)"
  proof -
    have "same_but {b} (with_events q (map (note_event t) (before t (?k + 1) ps)) s) ?s3"
      using s2 ys(1,2) assms(6) by (auto simp: same_but_def)
    moreover have "ys[nat i := ?f] ! j = (if int j < i + 1 then last_freq lm t freq (before t (?now + int j + 1) ps) else xs ! j)"
      if "j < length xs" for j
      using ys(2) ys(3) [OF that] that i0 by (cases "j = nat i") (auto simp: nth_list_update algebra_simps)
    ultimately show ?thesis using i0 ys(2) unfolding seg_inv_def by (simp add: Let_def add.assoc)
  qed
  ultimately show ?thesis by blast
qed

lemma midiseg_frames:
  assumes "rbt t T" "inorder T = us @ ps @ c # vs" "\<forall>a \<in> set (ps @ [c]). near (etime (eng s)) (keyof t a)"
    "\<forall>a \<in> set ps. uint (etime (eng s)) \<le> keyof t a \<and> keyof t a < uint (etime (eng s)) + bufsize s"
    "uint (etime (eng s)) + bufsize s \<le> keyof t c"
    "output_buffer (eng s) p 0 = Some b" "samp s b = Some xs" "bufsize s \<le> int (length xs)" "0 \<le> bufsize s"
  shows "\<exists>s' local. each_frame (midiseg_frame lm p t q) 0 (nat (bufsize s))
        (with_events q [] s, hd (ps @ [c]), keyof t (hd (ps @ [c])) - uint (etime (eng s)), freq) =
      Some (s', c, local, last_freq lm t freq ps) \<and>
    same_but {b} (with_events q (map (note_event t) ps) s) s' \<and>
    (\<exists>ys. samp s' b = Some ys \<and> length ys = length xs \<and>
       (\<forall>j < length xs. ys ! j = (if int j < bufsize s
          then last_freq lm t freq (before t (uint (etime (eng s)) + int j + 1) ps) else xs ! j)))"
proof -
  let ?now = "uint (etime (eng s))"
  let ?I = "seg_inv lm s t q b ps c freq xs"
  have none: "before t (?now + 0) ps = []" "from_on t (?now + 0) ps = ps"
    using assms(4) by (auto simp: before_def from_on_def filter_empty_conv filter_id_conv)
  have all: "before t (?now + bufsize s) ps = ps" "from_on t (?now + bufsize s) ps = []"
    using assms(4) by (auto simp: before_def from_on_def filter_empty_conv filter_id_conv)
  have start: "?I 0 (with_events q [] s, hd (ps @ [c]), keyof t (hd (ps @ [c])) - ?now, freq)"
    using assms(7) none by (simp add: seg_inv_def Let_def same_but_refl last_freq_def)
  have "\<exists>st'. midiseg_frame lm p t q j st = Some st' \<and> ?I (j + 1) st'"
    if "0 \<le> j" "j < 0 + int (nat (bufsize s))" "?I j st" for j st
    using midiseg_frame_inv [OF assms(1-3,5-8) _ that(3)] that(2) assms(9) by simp
  from each_frame_inv [where I = ?I and f = "midiseg_frame lm p t q" and i = 0 and k = "nat (bufsize s)", OF this start]
  obtain s' cur local f where "each_frame (midiseg_frame lm p t q) 0 (nat (bufsize s))
        (with_events q [] s, hd (ps @ [c]), keyof t (hd (ps @ [c])) - ?now, freq) = Some (s', cur, local, f)"
    "?I (bufsize s) (s', cur, local, f)"
    using assms(9) by auto
  then show ?thesis using all by (auto simp: seg_inv_def Let_def)
qed


section \<open>The end of a sequence\<close>

text \<open>\<open>k\<close> rounds of the inner loop.\<close>

fun rounds :: "libm \<Rightarrow> rbtree \<Rightarrow> ptr \<Rightarrow> int \<Rightarrow> nat \<Rightarrow> seg_run \<Rightarrow> seg_run option" where
  "rounds lm t q i 0 st = Some st"
| "rounds lm t q i (Suc k) st = do { st \<leftarrow> play_note lm t q i st; rounds lm t q i k st }"

lemma play_notes_rounds:
  assumes "play_notes lm t q i st = Some st'"
  shows "\<exists>k. rounds lm t q i k st = Some st' \<and> fst (snd (snd st')) \<noteq> i"
proof (rule play_notes.raw_induct [where P = "\<lambda>lm t q i st st'. \<exists>k. rounds lm t q i k st = Some st' \<and> fst (snd (snd st')) \<noteq> i"])
  fix play lm t q i st st'
  assume IH: "\<And>lm t q i st st'. play lm t q i st = Some st' \<Longrightarrow> \<exists>k. rounds lm t q i k st = Some st' \<and> fst (snd (snd st')) \<noteq> i"
    and run: "(if fst (snd (snd st)) = i then do { st \<leftarrow> play_note lm t q i st; play lm t q i st } else Some st) = Some st'"
  show "\<exists>k. rounds lm t q i k st = Some st' \<and> fst (snd (snd st')) \<noteq> i"
  proof (cases "fst (snd (snd st)) = i")
    case True
    then obtain st1 where 1: "play_note lm t q i st = Some st1" "play lm t q i st1 = Some st'"
      using run by (auto split: Option.bind_splits)
    obtain k where "rounds lm t q i k st1 = Some st'" "fst (snd (snd st')) \<noteq> i" using IH [OF 1(2)] by blast
    then show ?thesis using 1(1) by (intro exI [of _ "Suc k"]) simp
  next
    case False
    then show ?thesis using run by (intro exI [of _ 0]) simp
  qed
qed (rule assms)

lemma chord_round:
  assumes "rbt t (Node l a r)" "r \<noteq> Leaf" "\<forall>x \<in> set (a # inorder r). keyof t x = uint now + i \<and> near now (keyof t x)"
    "cur \<in> set (a # inorder r)" "etime (eng s) = now" "blocks (eng s) q = Some (EventQueue es)"
  shows "\<exists>s' cur' freq' es'. play_note lm t q i (s, cur, i, freq) = Some (s', cur', i, freq') \<and>
    cur' \<in> set (a # inorder r) \<and> etime (eng s') = now \<and> blocks (eng s') q = Some (EventQueue es')"
proof -
  have rb: "rb t (Node l a r)" using assms(1) by (simp add: rbt_def)
  then have d: "distinct (inorder l @ a # inorder r)" and top: "rroot t = a" by (simp_all add: rb_def)
  obtain xs ys where xy: "a # inorder r = xs @ cur # ys" using assms(4) by (metis in_set_conv_decomp)
  have "Node l a r \<noteq> Node l' cur Leaf" for l' using assms(2) by simp
  moreover have "inorder (Node l a r) = (inorder l @ xs) @ cur # ys" using xy by simp
  ultimately have nx: "ksiRBTreeNext t cur = Some (case ys of [] \<Rightarrow> rroot t | b # _ \<Rightarrow> b)"
    using next_of [OF rb] by (simp add: ksiRBTreeNext_def)
  let ?v = "case ys of [] \<Rightarrow> rroot t | b # _ \<Rightarrow> b"
  have v: "?v \<in> set (a # inorder r)" 
  proof (cases ys)
    case Nil
    then show ?thesis using top by simp
  next
    case (Cons b zs)
    then have "b \<in> set (xs @ cur # ys)" by simp
    then show ?thesis using Cons xy by simp
  qed
  have tr: "x \<in> set_tree (Node l a r)" if "x \<in> set (a # inorder r)" for x using that by auto
  have f: "frame_time s i = word_of_int (keyof t cur)" using assms(3-5) by (auto simp: frame_time_def)
  have nv: "near (etime (eng s)) (keyof t ?v)" "keyof t ?v = uint now + i" using assms(3,5) v by blast+
  show ?thesis
    using play_note_to [OF rb tr [OF assms(4)] nx tr [OF v] assms(6) nv(1) f, of lm i freq] nv(2) v assms(5) by simp
qed

text \<open>C27: A sequence that ends in a chord: when the notes from the root of the tree on are all at one frame, the reader, which goes
  from the last note to the root, is never done with that frame, and queues events for ever.\<close>

theorem midiseg_chord_never_ends:
  assumes "rbt t (Node l a r)" "r \<noteq> Leaf" "\<forall>x \<in> set (a # inorder r). keyof t x = uint now + i \<and> near now (keyof t x)"
    "etime (eng s) = now" "blocks (eng s) q = Some (EventQueue es)"
  shows "(\<forall>k. \<exists>s' cur freq'. rounds lm t q i k (s, a, i, freq) = Some (s', cur, i, freq')) \<and>
    play_notes lm t q i (s, a, i, freq) = None"
proof -
  have *: "\<exists>s' cur' freq'. rounds lm t q i k (s, cur, i, freq) = Some (s', cur', i, freq')"
    if "cur \<in> set (a # inorder r)" "etime (eng s) = now" "blocks (eng s) q = Some (EventQueue es)" for k s cur freq es
    using that
  proof (induction k arbitrary: s cur freq es)
    case (Suc k)
    obtain s' cur' freq' es' where 1: "play_note lm t q i (s, cur, i, freq) = Some (s', cur', i, freq')"
      "cur' \<in> set (a # inorder r)" "etime (eng s') = now" "blocks (eng s') q = Some (EventQueue es')"
      using chord_round [OF assms(1-3) Suc.prems] by blast
    then show ?case using Suc.IH [OF 1(2-4)] by simp
  qed simp
  have "a \<in> set (a # inorder r)" by simp
  note all = * [OF this assms(4,5)]
  have "play_notes lm t q i (s, a, i, freq) \<noteq> Some st'" for st'
  proof
    assume "play_notes lm t q i (s, a, i, freq) = Some st'"
    then obtain k where k: "rounds lm t q i k (s, a, i, freq) = Some st'" "fst (snd (snd st')) \<noteq> i"
      using play_notes_rounds by blast
    obtain s' cur freq' where "rounds lm t q i k (s, a, i, freq) = Some (s', cur, i, freq')"
      using all [of k freq] by blast
    then show False using k by simp
  qed
  then show ?thesis using all by blast
qed

section \<open>Examples\<close>

text \<open>A player, node 3, of four frames a buffer, at frame 4 of the sequence of \<open>ex_tree\<close>.\<close>

definition ex_midi_libm :: libm where
  "ex_midi_libm = \<lparr>expf = (\<lambda>x. 0), sinf = (\<lambda>x. x), powf = (\<lambda>x y. f32_one)\<rparr>"

definition ex_seg_node :: KsiNode where
  "ex_seg_node = \<lparr>depNum = 0, successors = [], nid = 3, ntype = 0x00030000, outputCount = 2, outputTypes = OutPorts 3,
     outputBuffer = [31, 33], inputCount = 0, inputTypes = NoTypes, nenv = [], nargs = 7, extArgs = []\<rparr>"

definition ex_seg :: "rbtree \<Rightarrow> uint64 \<Rightarrow> sound" where
  "ex_seg t now =
     \<lparr>eng = (ksiEngineInit 4 48000)
        \<lparr>ver := (\<lambda>_. empty_version\<lparr>nheap := [3 \<mapsto> ex_seg_node]\<rparr>), blocks := [33 \<mapsto> EventQueue []],
         plugs := [7 \<mapsto> MidiSegEnv 9 NULL], etime := now\<rparr>,
      samp = [31 \<mapsto> [0, 0, 0, 0]], tseqs = [9 \<mapsto> t], voices = [7 \<mapsto> MidiSegVoice 0]\<rparr>"


definition ex_end_chord :: rbtree where
  "ex_end_chord = \<lparr>rroot = 3, rsentinel = 1, rmem =
     [1 \<mapsto> \<lparr>rparent = 0, rright = 0, rleft = 0, rkey = - 1, rtype = 1, rdata = 0\<rparr>,
      2 \<mapsto> \<lparr>rparent = 3, rright = 1, rleft = 1, rkey = 5, rtype = 0, rdata = 0\<rparr>,
      3 \<mapsto> \<lparr>rparent = 0, rright = 4, rleft = 2, rkey = 5, rtype = 1, rdata = 0\<rparr>,
      4 \<mapsto> \<lparr>rparent = 3, rright = 1, rleft = 1, rkey = 5, rtype = 0, rdata = 0\<rparr>]\<rparr>"

lemma ex_end_rbt: "rbt ex_end_chord ex_shape"
  by (auto simp: rbt_def rb_def ex_end_chord_def ex_shape_def ordered_def keyof_def reds_def rbtree_is_red_def
    rbtree_is_black_def RB_COLORMASK_def)

theorem midiseg_chord_never_ends_witness:
  "play_notes ex_midi_libm ex_end_chord 33 1 (ex_seg ex_end_chord 4, 3, 1, 0) = None"
proof -
  let ?l = "Node Leaf 2 Leaf :: ptr tree" and ?r = "Node Leaf 4 Leaf :: ptr tree"
  have "rbt ex_end_chord (Node ?l 3 ?r)" using ex_end_rbt by (simp add: ex_shape_def)
  moreover have "\<forall>x \<in> set (3 # inorder ?r). keyof ex_end_chord x = uint (4 :: uint64) + 1 \<and> near 4 (keyof ex_end_chord x)"
    by (simp add: ex_end_chord_def keyof_def near_def)
  moreover have "etime (eng (ex_seg ex_end_chord 4)) = 4" "blocks (eng (ex_seg ex_end_chord 4)) 33 = Some (EventQueue [])"
    by (simp_all add: ex_seg_def)
  ultimately show ?thesis using midiseg_chord_never_ends [of ex_end_chord ?l 3 ?r 4 1 "ex_seg ex_end_chord 4" 33 "[]" ex_midi_libm 0] by (simp add: near_def)
qed

end
