(* ===== verification/Node_Funcs.thy ===== *)
theory Node_Funcs
  imports Oscillators Adsr Midi_Seg
begin

text \<open>
  What a worker does with one node (\<^verbatim>\<open>ksid/engine.c\<close>): it mixes the input ports and
  calls the node's function.
\<close>

text \<open>The switch on the plugin. A node without one calls the function its \<open>extArgs\<close> point to,
  which is not code of the repository: \<open>ext\<close> is that function.\<close>

definition ksiNodeFuncWrapper ::
  "libm \<Rightarrow> (8 word list \<Rightarrow> ptr \<Rightarrow> sound \<Rightarrow> sound option) \<Rightarrow> ptr \<Rightarrow> sound \<Rightarrow> sound option" where
  "ksiNodeFuncWrapper lm ext p s = do {
     n \<leftarrow> audio_node (eng s) p;
     let i = ksiNodeTypeInlineId (ntype n);
     (if i = 0 then ext (extArgs n) p s
      else if i = 1 then ksiBuiltinNodeFuncId p s
      else if i = 2 then ksiBuiltinNodeFuncTestOsc lm p s
      else if i = 3 then kscarletMidiSeg lm p s
      else if i = 4 then kscarletWavetable lm p s
      else if i = 5 then kscarletADSR lm p s
      else if i = 6 then ksiBuiltinNodeFuncModulator p s
      else Some s)
   }"

definition evaluate_node ::
  "libm \<Rightarrow> (8 word list \<Rightarrow> ptr \<Rightarrow> sound \<Rightarrow> sound option) \<Rightarrow> ptr \<Rightarrow> sound \<Rightarrow> sound option" where
  "evaluate_node lm ext p s = do {
     n \<leftarrow> audio_node (eng s) p;
     (e, m) \<leftarrow> mix_inputs p 0 (nat (inputCount n)) (eng s, samp s);
     ksiNodeFuncWrapper lm ext p (s\<lparr>eng := e, samp := m\<rparr>)
   }"

section \<open>Mixing and computing together\<close>

text \<open>Mixing writes the flags of the input types, and nothing else of the engine.\<close>

lemma mix_input_engine:
  assumes "mix_input p i (e, m) = Some (e', m')"
  shows "e' = e \<or> (\<exists>t. set_input_type p i t e = Some e')"
  using assms
  by (auto simp: mix_input_def split: Option.bind_splits if_splits KsiEnv.splits)

lemma mix_input_static:
  assumes "mix_input p i (e, m) = Some (e', m')" "audio_node e p = Some n" "inputTypes n = InPorts k"
  shows "\<exists>f. e' = e\<lparr>staticIn := f\<rparr>"
  using mix_input_engine [OF assms(1)]
proof
  assume "e' = e"
  then show ?thesis by (intro exI [of _ "staticIn e"]) simp
next
  assume "\<exists>t. set_input_type p i t e = Some e'"
  then show ?thesis using assms(2,3) by (auto simp: set_input_type_def split: Option.bind_splits)
qed

text \<open>C21: A test oscillator in a graph: evaluating the node mixes its input and computes a sine from it, so that each sample it
  puts out is the sine at the frequency which is the weighted sum of the node's sources at that frame.\<close>

theorem evaluate_test_osc:
  assumes "audio_node (eng s) p = Some n" "ksiNodeTypeInlineId (ntype n) = 2" "inputCount n = 1"
    "inputTypes n = InPorts k" "outputTypes n = OutPorts l" "staticOut (eng s) l \<noteq> []"
    "get_at (nenv n) 0 = Some (SignalEnv buf buf mes)" "buf \<noteq> NULL"
    "get_input_type p 0 (eng s) = Some t" "\<not> is_event t" "0 < bufsize s"
    "samp s buf = Some des" "bufsize s = int (length des)"
    "\<forall>me \<in> set mes. source_ok (eng s) (samp s) buf me"
    "output_buffer (eng s) p 0 = Some b" "b \<noteq> buf" "samp s b = Some xs" "bufsize s \<le> int (length xs)"
  shows "\<exists>s' ys. evaluate_node lm ext p s = Some s' \<and> samp s' b = Some ys \<and> length ys = length xs \<and>
    (\<forall>j < length xs. ys ! j =
       (if int j < bufsize s then test_osc_value lm s (input_value (eng s) (samp s) t mes (int j)) (int j) else xs ! j))"
proof -
  obtain e' zs where mix: "mix_input p 0 (eng s, samp s) = Some (e', (samp s)(buf \<mapsto> zs))"
    and read: "\<And>j. 0 \<le> j \<Longrightarrow> j < bufsize s \<Longrightarrow>
       ksiNodeGetInput e' ((samp s)(buf \<mapsto> zs)) p (bufsize s) 0 j = Some (input_value (eng s) (samp s) t mes j)"
    using mix_input_buffer [OF assms(1,7-10) _ assms(12) _ assms(14)] assms(11,13) unfolding bufsize_def by blast
  obtain f where e': "e' = (eng s)\<lparr>staticIn := f\<rparr>" using mix_input_static [OF mix assms(1,4)] by blast
  let ?s = "s\<lparr>eng := e', samp := (samp s)(buf \<mapsto> zs)\<rparr>"
  have node: "audio_node (eng ?s) = audio_node (eng s)" "output_buffer (eng ?s) = output_buffer (eng s)"
    "bufsize ?s = bufsize s" "test_osc_value lm ?s = test_osc_value lm s"
    by (simp_all add: e' audio_node_def output_buffer_def bufsize_def test_osc_value_def rate_def fun_eq_iff)
  let ?v = "\<lambda>j. test_osc_value lm s (input_value (eng s) (samp s) t mes (int j)) (int j)"
  let ?I = "\<lambda>i s'. 0 \<le> i \<and> same_but {b} ?s s' \<and> (\<exists>ys. samp s' b = Some ys \<and> length ys = length xs \<and>
     (\<forall>j < length xs. ys ! j = (if int j < i then ?v j else xs ! j)))"
  have start: "?I 0 ?s" using assms(16,17) by (simp add: same_but_refl)
  have ro: "reads_other ?s p 0 {b}" using assms(1,7,16) node(1) by (simp add: reads_other_def)
  have step: "\<exists>s''. test_osc_frame lm p i s' = Some s'' \<and> ?I (i + 1) s''"
    if "0 \<le> i" "i < 0 + int (nat (bufsize s))" "?I i s'" for i s'
  proof -
    have i: "0 \<le> i" "i < bufsize s" and inv: "?I i s'" using that assms(11) by simp_all
    obtain ys where ys: "same_but {b} ?s s'" "samp s' b = Some ys" "length ys = length xs"
      "\<And>j. j < length xs \<Longrightarrow> ys ! j = (if int j < i then ?v j else xs ! j)"
      using inv by blast
    have inp: "input_at s' p 0 i = Some (input_value (eng s) (samp s) t mes i)"
      using same_but_input [OF ys(1) ro] read [OF i] node(3) by (simp add: input_at_def)
    have v: "test_osc_value lm s' = test_osc_value lm s"
      using same_but_eng(1,3) [OF ys(1)] node(4) by (simp add: test_osc_value_def rate_def fun_eq_iff)
    let ?s2 = "s'\<lparr>samp := (samp s')(b \<mapsto> ys[nat i := ?v (nat i)])\<rparr>"
    have "put p 0 i (?v (nat i)) s' = Some ?s2"
      using put_sample [of s' p 0 b ys i "?v (nat i)"] ys(2,3) i assms(15,18) same_but_eng(1) [OF ys(1)] node(2) by simp
    then have "test_osc_frame lm p i s' = Some ?s2" using inp v i by (simp add: test_osc_frame_def)
    moreover have "same_but {b} ?s ?s2" using ys(1-3) assms(16,17) by (auto simp: same_but_def)
    moreover have "ys[nat i := ?v (nat i)] ! j = (if int j < i + 1 then ?v j else xs ! j)" if "j < length xs" for j
      using ys(3) ys(4) [OF that] that i by (cases "j = nat i") auto
    ultimately show ?thesis using i ys(3) by auto
  qed
  from each_frame_inv [where I = ?I and f = "test_osc_frame lm p" and i = 0 and k = "nat (bufsize s)", OF step start]
  obtain s1 where 1: "each_frame (test_osc_frame lm p) 0 (nat (bufsize s)) ?s = Some s1" "?I (bufsize s) s1"
    using assms(11) by auto
  have "audio_node (eng s1) p = Some n" "types_of (eng s1) (outputTypes n) = staticOut (eng s) l"
    using 1(2) same_but_eng(1) node(1) assms(1,5) e' by (auto simp: types_of_def dest!: same_but_eng(1))
  then obtain e2 where 2: "dirty_port p 0 s1 = Some (s1\<lparr>eng := e2\<rparr>)"
    using map_output_type_result [of s1 p n 0 ksiNodePortIOSetDirty] assms(6) by auto
  have "evaluate_node lm ext p s = Some (s1\<lparr>eng := e2\<rparr>)"
    using assms(1-3) mix node 1(1) 2
    by (simp add: evaluate_node_def ksiNodeFuncWrapper_def ksiBuiltinNodeFuncTestOsc_def)
  then show ?thesis using 1(2) by (intro exI [of _ "s1\<lparr>eng := e2\<rparr>"]) auto
qed

text \<open>A test oscillator, node 3, fed by a constant source of value 2 and a bias of 1.0.\<close>

definition ex_test_osc :: KsiNode where
  "ex_test_osc = \<lparr>depNum = 1, successors = [], nid = 3, ntype = 0x00020000, outputCount = 1, outputTypes = OutPorts 2,
     outputBuffer = [31], inputCount = 1, inputTypes = InPorts 2,
     nenv = [SignalEnv 41 41 [ex_wire NULL f32_one, ex_wire 1 f32_one]], nargs = NULL, extArgs = []\<rparr>"

definition ex_test_sound :: sound where
  "ex_test_sound =
     \<lparr>eng = (ksiEngineInit 2 48000)
        \<lparr>ver := (\<lambda>_. empty_version\<lparr>nheap := [1 \<mapsto> ex_source 0 21, 3 \<mapsto> ex_test_osc]\<rparr>)\<rparr>,
      samp = [21 \<mapsto> [0, f32_of_int 2], 31 \<mapsto> [0, 0], 41 \<mapsto> [0, 0]], tseqs = Map.empty, voices = Map.empty\<rparr>"

theorem evaluate_test_osc_witness:
  "\<exists>s' ys. evaluate_node ex_sine (\<lambda>_ _ _. None) 3 ex_test_sound = Some s' \<and> samp s' 31 = Some ys \<and>
     ys ! 1 = test_osc_value ex_sine ex_test_sound (f32_of_int 3) 1"
proof -
  let ?mes = "[ex_wire NULL f32_one, ex_wire 1 f32_one]"
  have e: "audio_node (eng ex_test_sound) 3 = Some ex_test_osc" "audio_node (eng ex_test_sound) 1 = Some (ex_source 0 21)"
    "bufsize ex_test_sound = 2" "staticOut (eng ex_test_sound) 2 \<noteq> []" "get_input_type 3 0 (eng ex_test_sound) = Some 0"
    "output_buffer (eng ex_test_sound) 3 0 = Some 31" "framesPerBuffer (eng ex_test_sound) = 2"
    by (simp_all add: ex_test_sound_def audio_node_def empty_version_def bufsize_def ksiEngineInit_def initPorts_def
        INLINE_LIST_def get_input_type_def types_of_def get_at_def output_buffer_def ex_test_osc_def port_type_defs)
  have m: "samp ex_test_sound 41 = Some [0, 0]" "samp ex_test_sound 31 = Some [0, 0]" "samp ex_test_sound 21 = Some [0, f32_of_int 2]"
    by (simp_all add: ex_test_sound_def)
  have n: "ksiNodeTypeInlineId (ntype ex_test_osc) = 2" "inputCount ex_test_osc = 1" "inputTypes ex_test_osc = InPorts 2"
    "outputTypes ex_test_osc = OutPorts 2" "get_at (nenv ex_test_osc) 0 = Some (SignalEnv 41 41 ?mes)"
    by (simp_all add: ex_test_osc_def get_at_def) code_simp
  have src: "\<forall>me \<in> set ?mes. source_ok (eng ex_test_sound) (samp ex_test_sound) 41 me"
    by (simp add: source_ok_def ex_wire_def output_dirty_def output_buffer_def e(2,7) m del: One_nat_def)
      (auto simp: ex_source_def types_of_def get_at_def m)
  have b: "(41 :: ptr) \<noteq> NULL" "\<not> is_event 0" "0 < bufsize ex_test_sound" "bufsize ex_test_sound = int (length [0, 0 :: KsiData])"
    "(31 :: ptr) \<noteq> 41" "bufsize ex_test_sound \<le> int (length [0, 0 :: KsiData])"
    by (simp_all add: e(3))
  note evaluated = evaluate_test_osc [OF e(1) n(1-4) e(4) n(5) b(1) e(5) b(2,3) m(1) b(4) src e(6) b(5) m(2) b(6), of ex_sine "\<lambda>_ _ _. None"]
  then obtain s' ys where 1: "evaluate_node ex_sine (\<lambda>_ _ _. None) 3 ex_test_sound = Some s'" "samp s' 31 = Some ys"
    "\<forall>j < length [0, 0 :: KsiData]. ys ! j = (if int j < bufsize ex_test_sound
       then test_osc_value ex_sine ex_test_sound (input_value (eng ex_test_sound) (samp ex_test_sound) 0 ?mes (int j)) (int j)
       else [0, 0] ! j)" by blast
  have "input_value (eng ex_test_sound) (samp ex_test_sound) 0 ?mes (int 1) = f32_of_int 3" by code_simp
  then show ?thesis using 1(1,2) 1(3) [rule_format, of 1] by (simp add: e(3))
qed

end
