(* ===== verification/Rbtree_Fixup.thy ===== *)
theory Rbtree_Fixup
  imports Rbtree_Search
begin

text \<open>
  Deletion from a red-black tree (\<^verbatim>\<open>rbtree_delete\<close> of \<^verbatim>\<open>ksid/rbtree.c\<close>):
  the operation, and the loop that repairs the black heights.
\<close>

section \<open>The operation\<close>

text \<open>The rest of a turn, with a black sibling \<open>w\<close>, under the left child and under the right one.\<close>

definition repair_left :: "rbtree \<Rightarrow> ptr \<Rightarrow> ptr \<Rightarrow> (ptr \<times> rbtree) option" where
  "repair_left t temp w = do {
     wn \<leftarrow> rmem t w;
     lred \<leftarrow> rb_red t (rleft wn);
     rred \<leftarrow> rb_red t (rright wn);
     (if \<not> lred \<and> \<not> rred then do {
        t \<leftarrow> rupd w rbtree_red t;
        par \<leftarrow> rb_parent t temp;
        Some (par, t)
      }
      else do {
        (w, t) \<leftarrow> (if \<not> rred then do {
             t \<leftarrow> rupd (rleft wn) rbtree_black t;
             t \<leftarrow> rupd w rbtree_red t;
             t \<leftarrow> rbtree_right_rotate t w;
             par \<leftarrow> rb_parent t temp;
             p \<leftarrow> rmem t par;
             Some (rright p, t)
           } else Some (w, t));
        par \<leftarrow> rb_parent t temp;
        p \<leftarrow> rmem t par;
        t \<leftarrow> rupd w (\<lambda>n. rbtree_copy_color n p) t;
        t \<leftarrow> rupd par rbtree_black t;
        wn \<leftarrow> rmem t w;
        t \<leftarrow> rupd (rright wn) rbtree_black t;
        t \<leftarrow> rbtree_left_rotate t par;
        Some (rroot t, t)
      })
   }"

definition repair_right :: "rbtree \<Rightarrow> ptr \<Rightarrow> ptr \<Rightarrow> (ptr \<times> rbtree) option" where
  "repair_right t temp w = do {
     wn \<leftarrow> rmem t w;
     lred \<leftarrow> rb_red t (rleft wn);
     rred \<leftarrow> rb_red t (rright wn);
     (if \<not> lred \<and> \<not> rred then do {
        t \<leftarrow> rupd w rbtree_red t;
        par \<leftarrow> rb_parent t temp;
        Some (par, t)
      }
      else do {
        (w, t) \<leftarrow> (if \<not> lred then do {
             t \<leftarrow> rupd (rright wn) rbtree_black t;
             t \<leftarrow> rupd w rbtree_red t;
             t \<leftarrow> rbtree_left_rotate t w;
             par \<leftarrow> rb_parent t temp;
             p \<leftarrow> rmem t par;
             Some (rleft p, t)
           } else Some (w, t));
        par \<leftarrow> rb_parent t temp;
        p \<leftarrow> rmem t par;
        t \<leftarrow> rupd w (\<lambda>n. rbtree_copy_color n p) t;
        t \<leftarrow> rupd par rbtree_black t;
        wn \<leftarrow> rmem t w;
        t \<leftarrow> rupd (rleft wn) rbtree_black t;
        t \<leftarrow> rbtree_right_rotate t par;
        Some (rroot t, t)
      })
   }"

text \<open>One turn of the loop: the next node to look at, and the tree.\<close>

definition delete_turn :: "rbtree \<Rightarrow> ptr \<Rightarrow> (ptr \<times> rbtree) option" where
  "delete_turn t temp = do {
     par \<leftarrow> rb_parent t temp;
     p \<leftarrow> rmem t par;
     (if temp = rleft p then do {
        red \<leftarrow> rb_red t (rright p);
        (w, t) \<leftarrow> (if red then do {
             t \<leftarrow> rupd (rright p) rbtree_black t;
             t \<leftarrow> rupd par rbtree_red t;
             t \<leftarrow> rbtree_left_rotate t par;
             par \<leftarrow> rb_parent t temp;
             p \<leftarrow> rmem t par;
             Some (rright p, t)
           } else Some (rright p, t));
        repair_left t temp w
      }
      else do {
        red \<leftarrow> rb_red t (rleft p);
        (w, t) \<leftarrow> (if red then do {
             t \<leftarrow> rupd (rleft p) rbtree_black t;
             t \<leftarrow> rupd par rbtree_red t;
             t \<leftarrow> rbtree_right_rotate t par;
             par \<leftarrow> rb_parent t temp;
             p \<leftarrow> rmem t par;
             Some (rleft p, t)
           } else Some (rleft p, t));
        repair_right t temp w
      })
   }"

partial_function (option) delete_fixup :: "rbtree \<Rightarrow> ptr \<Rightarrow> rbtree option" where
  "delete_fixup t temp =
     (if temp = rroot t then rupd temp rbtree_black t
      else do {
        red \<leftarrow> rb_red t temp;
        (if red then rupd temp rbtree_black t
         else do { (temp, t) \<leftarrow> delete_turn t temp; delete_fixup t temp })
      })"

text \<open>The child of \<open>subst\<close> takes its place.\<close>

definition cut_child :: "rbtree \<Rightarrow> ptr \<Rightarrow> ptr \<Rightarrow> rbtree option" where
  "cut_child t subst temp = do {
     par \<leftarrow> rb_parent t subst;
     p \<leftarrow> rmem t par;
     (if subst = rleft p then rupd par (rleft_update (\<lambda>_. temp)) t
      else rupd par (rright_update (\<lambda>_. temp)) t)
   }"

text \<open>\<open>subst\<close>, the next node in order, takes the place of \<open>node\<close>.\<close>

definition take_place :: "rbtree \<Rightarrow> ptr \<Rightarrow> ptr \<Rightarrow> ptr \<Rightarrow> rbtree option" where
  "take_place t node subst temp = do {
     par \<leftarrow> rb_parent t subst;
     t \<leftarrow> rupd temp (rparent_update (\<lambda>_. if par = node then subst else par)) t;
     n \<leftarrow> rmem t node;
     t \<leftarrow> rupd subst (\<lambda>m. rbtree_copy_color
            (m\<lparr>rleft := rleft n, rright := rright n, rparent := rparent n\<rparr>) n) t;
     t \<leftarrow> (if node = rroot t then Some (t\<lparr>rroot := subst\<rparr>)
           else do {
             p \<leftarrow> rmem t (rparent n);
             (if node = rleft p then rupd (rparent n) (rleft_update (\<lambda>_. subst)) t
              else rupd (rparent n) (rright_update (\<lambda>_. subst)) t)
           });
     m \<leftarrow> rmem t subst;
     t \<leftarrow> (if rleft m \<noteq> rsentinel t then rupd (rleft m) (rparent_update (\<lambda>_. subst)) t else Some t);
     m \<leftarrow> rmem t subst;
     (if rright m \<noteq> rsentinel t then rupd (rright m) (rparent_update (\<lambda>_. subst)) t else Some t)
   }"

definition rbtree_delete :: "rbtree \<Rightarrow> ptr \<Rightarrow> rbtree option" where
  "rbtree_delete t node =
     (if node = rsentinel t then Some t
      else do {
        n \<leftarrow> rmem t node;
        (temp, subst) \<leftarrow>
          (if rleft n = rsentinel t then Some (rright n, node)
           else if rright n = rsentinel t then Some (rleft n, node)
           else do {
             subst \<leftarrow> rbtree_node_min t (rright n);
             m \<leftarrow> rmem t subst;
             Some (rright m, subst)
           });
        (if subst = rroot t then do {
           t \<leftarrow> rupd temp rbtree_black (t\<lparr>rroot := temp\<rparr>);
           rupd node rbtree_node_init t
         }
         else do {
           red \<leftarrow> rb_red t subst;
           t \<leftarrow> cut_child t subst temp;
           t \<leftarrow> (if subst = node then do {
                    par \<leftarrow> rb_parent t subst;
                    rupd temp (rparent_update (\<lambda>_. par)) t
                  }
                  else take_place t node subst temp);
           t \<leftarrow> rupd node rbtree_node_init t;
           (if red then Some t else delete_fixup t temp)
         })
      })"

declare delete_fixup.simps [code]

section \<open>Mirror images\<close>

lemma flip_copy:
  "p = q \<Longrightarrow> rupd p (\<lambda>n. rbtree_copy_color n (flip m)) (flip_tree t) = map_option flip_tree (rupd q (\<lambda>n. rbtree_copy_color n m) t)"
  by (simp, rule rupd_flip, simp add: flip_def rbtree_copy_color_def)

lemma flip_some_root: "Some (rroot (flip_tree t), flip_tree t) = map_option (map_prod id flip_tree) (Some (rroot t, t))"
  by simp

lemma flip_reds:
  "p = q \<Longrightarrow> p' = q' \<Longrightarrow> (\<And>a b. f a b = map_option F (g b a)) \<Longrightarrow>
   Option.bind (rb_red (flip_tree t) p') (\<lambda>a. Option.bind (rb_red (flip_tree t) p) (f a)) =
   map_option F (Option.bind (rb_red t q) (\<lambda>b. Option.bind (rb_red t q') (g b)))"
  by (cases "rmem t q"; cases "rmem t q'") (auto simp: rb_red_def rbtree_is_red_def rbtree_is_black_def)

lemma repair_flip: "repair_right (flip_tree t) temp w = map_option (map_prod id flip_tree) (repair_left t temp w)"
  unfolding repair_right_def repair_left_def
  by (rule flip_read, rule refl, rule flip_reds, simp, simp, rule flip_if, blast)
    (rule flip_rules flip_copy flip_some_root | simp only: split_conv | simp only: flip_simps flip_tree_simps)+

lemma repair_flip': "repair_left (flip_tree t) temp w = map_option (map_prod id flip_tree) (repair_right t temp w)"
  using repair_flip [of "flip_tree t" temp w]
  by (simp add: option.map_comp comp_def map_prod_def split_def option.map_ident)

lemma delete_turn_flip:
  assumes "rb_parent t x = Some p" "rmem t p = Some np" "rleft np \<noteq> rright np" "x = rleft np \<or> x = rright np"
  shows "delete_turn (flip_tree t) x = map_option (map_prod id flip_tree) (delete_turn t x)"
proof -
  have e: "x = rleft (flip np) \<longleftrightarrow> \<not> x = rleft np" using assms(3,4) by auto
  have r: "rb_parent (flip_tree t) x = Some p" "rmem (flip_tree t) p = Some (flip np)"
    using assms(1,2) by (auto simp: rb_parent_def)
  show ?thesis
    unfolding delete_turn_def assms(1,2) r Option.bind.simps
    by (rule flip_if_not, rule e)
      (rule flip_rules repair_flip repair_flip' | simp only: split_conv | simp only: flip_simps flip_tree_simps)+
qed

section \<open>A place with too few black nodes\<close>

text \<open>\<open>hole R C N\<close>: the tree would be in order if \<open>N\<close>, with its top black, had one black node more.\<close>

definition hole :: "ptr set \<Rightarrow> path \<Rightarrow> ptr tree \<Rightarrow> bool" where
  "hole R C N \<longleftrightarrow> okh R N \<and> okhp R (bh R N + 1) C \<and> okc (R - {rtop NULL N}) N \<and> okcp R False C \<and>
     (C \<noteq> [] \<longrightarrow> fst (snd (last C)) \<notin> R)"

text \<open>\<open>hole_at\<close>: the loop finds the parent of the place, also when there is only the sentinel.\<close>

definition hole_at :: "rbtree \<Rightarrow> path \<Rightarrow> ptr tree \<Rightarrow> bool" where
  "hole_at t C N \<longleftrightarrow> rb t (plug C N) \<and> (C \<noteq> [] \<longrightarrow> rb_parent t (rtop (rsentinel t) N) = Some (up C))"

lemma hole_atI: "rb t (plug C N) \<Longrightarrow> N \<noteq> Leaf \<Longrightarrow> hole_at t C N"
  by (cases N) (auto simp: hole_at_def rb_def rep_plug rb_parent_def)

lemma hole_at_rb: "hole_at t C N \<Longrightarrow> rb t (plug C N)"
  by (simp add: hole_at_def)

lemma hole_at_keep:
  assumes "hole_at t C N" "keeps_nodes t t'" "rb t' (plug C' N)" "up C' = up C" "C \<noteq> []"
  shows "hole_at t' C' N"
proof (cases "N = Leaf")
  case True
  then show ?thesis using assms by (auto simp: hole_at_def rb_parent_def keeps_nodes_def)
qed (use assms hole_atI in blast)

lemma red_sub:
  assumes "rb t T" "set_tree u \<subseteq> set_tree T"
  shows "rb_red t (rtop (rsentinel t) u) = Some (redtop (reds t) u)"
proof (cases u)
  case Leaf
  then show ?thesis using assms(1) by (auto simp: rb_def rb_red_def rbtree_is_red_def)
next
  case (Node l b r)
  then show ?thesis using assms rb_dom [OF assms(1), of b] by (auto simp: rb_red_def reds_def)
qed

lemma siblings:
  assumes "hole_at t ((True, p, Node a w b) # C) N"
  obtains np nw where "rb_parent t (rtop (rsentinel t) N) = Some p" "rmem t p = Some np" "rmem t w = Some nw"
    "rleft np = rtop (rsentinel t) N" "rright np = w"
    "rleft nw = rtop (rsentinel t) a" "rright nw = rtop (rsentinel t) b"
    "rb_red t w = Some (w \<in> reds t)" "rb_red t p = Some (p \<in> reds t)"
    "rb_red t (rtop (rsentinel t) a) = Some (redtop (reds t) a)"
    "rb_red t (rtop (rsentinel t) b) = Some (redtop (reds t) b)"
proof -
  have rb: "rb t (plug ((True, p, Node a w b) # C) N)" using assms by (rule hole_at_rb)
  have "rep_path (rmem t) (rsentinel t) (rtop (rsentinel t) N) ((True, p, Node a w b) # C)"
    using rb by (simp add: rb_def rep_plug del: plug.simps)
  moreover have "set_tree u \<subseteq> set_tree (plug ((True, p, Node a w b) # C) N)" if "u \<in> {a, b, Node a w b, Node Leaf p Leaf}" for u
    using that by (auto simp: set_plug simp del: plug.simps)
  then have "rb_red t (rtop (rsentinel t) u) = Some (redtop (reds t) u)" if "u \<in> {a, b, Node a w b, Node Leaf p Leaf}" for u
    using red_sub [OF rb] that by blast
  from this [of a] this [of b] this [of "Node a w b"] this [of "Node Leaf p Leaf"]
  have "rb_red t (rtop (rsentinel t) a) = Some (redtop (reds t) a)" "rb_red t (rtop (rsentinel t) b) = Some (redtop (reds t) b)"
    "rb_red t w = Some (w \<in> reds t)" "rb_red t p = Some (p \<in> reds t)" by simp_all
  ultimately show ?thesis using assms that by (auto simp: hole_at_def)
qed

lemma is_red_copy [simp]: "rbtree_is_red (rbtree_copy_color n m) = rbtree_is_red m"
proof -
  have b: "bit (1::int32) i \<longleftrightarrow> i = 0" for i by (simp add: bit_1_iff)
  have "((w AND NOT 1) OR (v AND 1)) AND 1 = v AND (1::int32)" for w v :: int32
    by (rule bit_word_eqI) (auto simp: bit_simps b)
  then show ?thesis by (simp add: rbtree_is_red_def rbtree_is_black_def rbtree_copy_color_def RB_COLORMASK_def)
qed

lemma copied:
  assumes "rb t T" "a \<in> set_tree T"
  obtains t' where "rupd a (\<lambda>n. rbtree_copy_color n m) t = Some t'" "rb t' T" "keeps_nodes t t'" "rroot t' = rroot t"
    "reds t' = (if rbtree_is_red m then insert a (reds t) else reds t - {a})"
proof -
  have "links (rbtree_copy_color n m) = links n" "rkey (rbtree_copy_color n m) = rkey n \<and> rdata (rbtree_copy_color n m) = rdata n" for n
    by (simp_all add: rbtree_copy_color_def links_def)
  moreover obtain n where "rmem t a = Some n" using rb_dom [OF assms] by blast
  ultimately show ?thesis using that rb_recolour [OF assms, of "\<lambda>n. rbtree_copy_color n m"] by auto
qed

text \<open>What a turn of the loop leads to.\<close>

definition lowered :: "rbtree \<Rightarrow> ptr tree \<Rightarrow> nat \<Rightarrow> ptr \<Rightarrow> rbtree \<Rightarrow> bool" where
  "lowered t T k q t' \<longleftrightarrow> (\<exists>C N. rb t' (plug C N) \<and> N \<noteq> Leaf \<and> q = rtop NULL N \<and> keeps_nodes t t' \<and>
     inorder (plug C N) = inorder T \<and> hole (reds t') C N \<and> (length C < k \<or> redtop (reds t') N))"

section \<open>A turn under the left child\<close>

text \<open>Only the colours of the nodes that are painted change.\<close>

lemma same_colI2: "R' - S = R - S \<Longrightarrow> A \<inter> S = {} \<Longrightarrow> same_col R' R A"
  by (auto simp: same_col_def)

lemma okcp_black: "okcp R d C \<Longrightarrow> okcp R False C"
  by (cases C rule: path_set.cases) auto

lemma redden_ok:
  assumes d: "distinct (inorder (plug ((True, p, Node a w b) # C) N))" and h: "hole R ((True, p, Node a w b) # C) N"
    and R: "w \<notin> R" "\<not> redtop R a" "\<not> redtop R b" "\<not> redtop R N"
  shows "hole (insert w R) C (Node N p (Node a w b))"
proof -
  have sets: "same_col (insert w R) R (set_tree a)" "same_col (insert w R) R (set_tree b)" "same_col (insert w R) R (set_tree N)"
    "same_col (insert w R) R (path_set C)" "same_col (insert w R - {p}) R (set_tree a)" "same_col (insert w R - {p}) R (set_tree b)"
    "same_col (insert w R - {p}) R (set_tree N)" "same_col (R - {rtop NULL N}) R (set_tree N)"
    using d R(4) by (auto simp: same_col_def inorder_plug path_set_lists) (cases N; auto)+
  note co = sets(1-3,5-8) [THEN redtop_cong] sets(1-3,5-8) [THEN bh_cong] sets(1-3,5-8) [THEN okh_cong] sets(1-3,5-8) [THEN okc_cong]
    sets(4) [THEN okhp_cong] sets(4) [THEN okcp_cong]
  have n: "w \<noteq> p" "C \<noteq> [] \<Longrightarrow> w \<noteq> fst (snd (last C))" using d last_path [of C] by (auto simp: inorder_plug path_set_lists)
  show ?thesis using h R n
    by (auto simp: hole_def co okcp_black split: if_split_asm)
qed

lemma inner_ok:
  assumes d: "distinct (inorder (plug ((True, p, Node (Node a1 v a2) w b) # C) N))"
    and h: "hole R ((True, p, Node (Node a1 v a2) w b) # C) N"
    and R: "w \<notin> R" "v \<in> R" "\<not> redtop R b" and R': "R' = insert w (R - {v})"
  shows "hole R' ((True, p, Node a1 v (Node a2 w b)) # C) N"
proof -
  have t: "N \<noteq> Leaf \<Longrightarrow> rtop NULL N \<in> set_tree N" by (cases N) auto
  have sets: "same_col R' R (set_tree a1)" "same_col R' R (set_tree a2)" "same_col R' R (set_tree b)"
    "same_col R' R (set_tree N)" "same_col R' R (path_set C)"
    "same_col (R' - {rtop NULL N}) (R - {rtop NULL N}) (set_tree N)"
    using d by (auto simp: same_col_def inorder_plug path_set_lists R')
  note co = sets(1-4,6) [THEN redtop_cong] sets(1-4,6) [THEN bh_cong] sets(1-4,6) [THEN okh_cong] sets(1-4,6) [THEN okc_cong]
    sets(5) [THEN okhp_cong] sets(5) [THEN okcp_cong]
  have n: "w \<noteq> p" "v \<noteq> p" "w \<noteq> v" "C \<noteq> [] \<Longrightarrow> fst (snd (last C)) \<notin> {v, w}"
    using d last_path [of C] by (auto simp: inorder_plug path_set_lists)
  have n': "w \<in> R'" "v \<notin> R'" "p \<in> R' \<longleftrightarrow> p \<in> R" "C \<noteq> [] \<Longrightarrow> fst (snd (last C)) \<in> R' \<longleftrightarrow> fst (snd (last C)) \<in> R"
    using n by (auto simp: R')
  show ?thesis using h R n n'
    by (auto simp: hole_def co split: if_split_asm)
qed

lemma outer_ok:
  assumes d: "distinct (inorder (plug ((True, p, Node a w (Node b1 x b2)) # C) N))"
    and h: "hole R ((True, p, Node a w (Node b1 x b2)) # C) N"
    and R: "w \<notin> R" "x \<in> R" "\<not> redtop R N"
    and R': "R' = (if p \<in> R then insert w R else R) - {p} - {x}"
  shows "okh R' (plug C (Node (Node N p a) w (Node b1 x b2)))" "okc R' (plug C (Node (Node N p a) w (Node b1 x b2)))"
    "\<not> redtop R' (plug C (Node (Node N p a) w (Node b1 x b2)))"
proof -
  have sets: "same_col R' R (set_tree a)" "same_col R' R (set_tree b1)" "same_col R' R (set_tree b2)"
    "same_col R' R (set_tree N)" "same_col R' R (path_set C)" "same_col (R - {rtop NULL N}) R (set_tree N)"
    using d R(3) by (auto simp: same_col_def inorder_plug path_set_lists R' split: if_split_asm) (cases N; auto)
  note co = sets(1-4,6) [THEN redtop_cong] sets(1-4,6) [THEN bh_cong] sets(1-4,6) [THEN okh_cong] sets(1-4,6) [THEN okc_cong]
    sets(5) [THEN okhp_cong] sets(5) [THEN okcp_cong]
  have n: "w \<noteq> p" "x \<noteq> p" "w \<noteq> x" "C \<noteq> [] \<Longrightarrow> fst (snd (last C)) \<notin> {p, w, x}"
    using d last_path [of C] by (auto simp: inorder_plug path_set_lists)
  have n': "p \<notin> R'" "x \<notin> R'" "w \<in> R' \<longleftrightarrow> p \<in> R" "C \<noteq> [] \<Longrightarrow> fst (snd (last C)) \<in> R' \<longleftrightarrow> fst (snd (last C)) \<in> R"
    using n R(1) by (auto simp: R')
  show "okh R' (plug C (Node (Node N p a) w (Node b1 x b2)))"
    using h R n n' by (auto simp: hole_def okh_plug co split: if_split_asm)
  show "okc R' (plug C (Node (Node N p a) w (Node b1 x b2)))"
    using h R n n' by (cases "p \<in> R") (auto simp: hole_def okc_plug co)
  have "redtop R' T = (rtop NULL T \<in> R' \<and> T \<noteq> Leaf)" for T by (cases T) auto
  then show "\<not> redtop R' (plug C (Node (Node N p a) w (Node b1 x b2)))"
    using h n n' by (simp add: hole_def rtop_plug del: plug.simps split: if_split_asm)
qed

text \<open>A red sibling is turned into a black one under a red parent.\<close>

lemma red_sibling_ok:
  assumes d: "distinct (inorder (plug ((True, p, Node a w b) # C) N))" and h: "hole R ((True, p, Node a w b) # C) N"
    and R: "w \<in> R" and R': "R' = insert p (R - {w})"
  shows "hole R' ((True, p, a) # (True, w, b) # C) N" "p \<in> R'" "p \<notin> R"
    "\<exists>a1 v a2. a = Node a1 v a2 \<and> v \<notin> R'"
proof -
  have sets: "same_col R' R (set_tree a)" "same_col R' R (set_tree b)" "same_col R' R (set_tree N)" "same_col R' R (path_set C)"
    "same_col (R' - {rtop NULL N}) (R - {rtop NULL N}) (set_tree N)"
    using d by (auto simp: same_col_def inorder_plug path_set_lists R')
  note co = sets(1-3,5) [THEN redtop_cong] sets(1-3,5) [THEN bh_cong] sets(1-3,5) [THEN okh_cong] sets(1-3,5) [THEN okc_cong]
    sets(4) [THEN okhp_cong] sets(4) [THEN okcp_cong]
  have n: "w \<noteq> p" "C \<noteq> [] \<Longrightarrow> fst (snd (last C)) \<notin> {p, w}"
    using d last_path [of C] by (auto simp: inorder_plug path_set_lists)
  have n': "p \<in> R'" "w \<notin> R'" "C \<noteq> [] \<Longrightarrow> fst (snd (last C)) \<in> R' \<longleftrightarrow> fst (snd (last C)) \<in> R"
    using n by (auto simp: R')
  show p: "p \<notin> R" using h R by (auto simp: hole_def)
  show "hole R' ((True, p, a) # (True, w, b) # C) N"
    using h R n n' p by (auto simp: hole_def co split: if_split_asm)
  show "p \<in> R'" by (rule n')
  show "\<exists>a1 v a2. a = Node a1 v a2 \<and> v \<notin> R'"
    using h R co(1) by (cases a) (auto simp: hole_def)
qed

text \<open>The turn, statement by statement: a black sibling with black children.\<close>

lemma repair_red:
  assumes at: "hole_at t ((True, p, Node a w b) # C) N" and h: "hole (reds t) ((True, p, Node a w b) # C) N"
    and R: "w \<notin> reds t" "\<not> redtop (reds t) a" "\<not> redtop (reds t) b" "\<not> redtop (reds t) N"
    and k: "length C < k \<or> p \<in> reds t"
  shows "\<exists>q t'. repair_left t (rtop (rsentinel t) N) w = Some (q, t') \<and>
    lowered t (plug ((True, p, Node a w b) # C) N) k q t'"
proof -
  let ?T = "plug ((True, p, Node a w b) # C) N"
  have rb: "rb t ?T" using at by (rule hole_at_rb)
  have mem: "w \<in> set_tree ?T" by (simp add: set_plug del: plug.simps)
  obtain t' where 1: "rupd w rbtree_red t = Some t'" "rb t' ?T" "keeps_nodes t t'" "reds t' = insert w (reds t)"
    using redden [OF rb mem] by metis
  have "hole_at t' ((True, p, Node a w b) # C) N" using hole_at_keep [OF at 1(3,2)] by simp
  then have "rb_parent t' (rtop (rsentinel t) N) = Some p" using 1(3) by (simp add: hole_at_def keeps_nodes_def)
  moreover obtain nw where "rmem t w = Some nw" "rb_red t (rleft nw) = Some False" "rb_red t (rright nw) = Some False"
    by (rule siblings [OF at]) (simp add: R)
  ultimately have "repair_left t (rtop (rsentinel t) N) w = Some (p, t')"
    using 1(1) by (simp add: repair_left_def)
  moreover have "lowered t ?T k p t'"
    unfolding lowered_def
    by (intro exI [of _ C] exI [of _ "Node N p (Node a w b)"])
      (use 1 redden_ok [OF _ h R] rb k in \<open>auto simp: rb_def\<close>)
  ultimately show ?thesis by blast
qed

text \<open>A black sibling with a red outer child: the last turn.\<close>

lemma repair_outer:
  assumes at: "hole_at t ((True, p, Node a w b) # C) N" and h: "hole (reds t) ((True, p, Node a w b) # C) N"
    and R: "w \<notin> reds t" "redtop (reds t) b" "\<not> redtop (reds t) N" and k: "0 < k"
  shows "\<exists>np t1 t2 nw t3 t4. rb_parent t (rtop (rsentinel t) N) = Some p \<and> rmem t p = Some np \<and>
    rupd w (\<lambda>n. rbtree_copy_color n np) t = Some t1 \<and> rupd p rbtree_black t1 = Some t2 \<and>
    rmem t2 w = Some nw \<and> rupd (rright nw) rbtree_black t2 = Some t3 \<and> rbtree_left_rotate t3 p = Some t4 \<and>
    lowered t (plug ((True, p, Node a w b) # C) N) k (rroot t4) t4"
proof -
  obtain b1 x b2 where b: "b = Node b1 x b2" "x \<in> reds t" using R(2) by (cases b) auto
  let ?P = "(True, p, Node a w b) # C"
  let ?T = "plug ?P N" and ?T' = "plug C (Node (Node N p a) w b)"
  have rb: "rb t ?T" using at by (rule hole_at_rb)
  have mem: "w \<in> set_tree ?T" "p \<in> set_tree ?T" "x \<in> set_tree ?T" by (auto simp: set_plug b simp del: plug.simps)
  obtain np where np: "rb_parent t (rtop (rsentinel t) N) = Some p" "rmem t p = Some np" "rbtree_is_red np \<longleftrightarrow> p \<in> reds t"
    by (rule siblings [OF at]) (auto simp: rb_red_def)
  obtain t1 where 1: "rupd w (\<lambda>n. rbtree_copy_color n np) t = Some t1" "rb t1 ?T" "keeps_nodes t t1"
    "reds t1 = (if p \<in> reds t then insert w (reds t) else reds t - {w})"
    using copied [OF rb mem(1), of np] np(3) by metis
  obtain t2 where 2: "rupd p rbtree_black t1 = Some t2" "rb t2 ?T" "keeps_nodes t1 t2" "reds t2 = reds t1 - {p}"
    using blacken [OF 1(2) mem(2)] by metis
  have k2: "keeps_nodes t t2" by (rule keeps_nodes_trans [OF 1(3) 2(3)])
  have "hole_at t2 ?P N" using hole_at_keep [OF at k2 2(2)] by simp
  then obtain nw where nw: "rmem t2 w = Some nw" "rright nw = x" by (rule siblings) (auto simp: b)
  obtain t3 where 3: "rupd x rbtree_black t2 = Some t3" "rb t3 ?T" "keeps_nodes t2 t3" "reds t3 = reds t2 - {x}"
    using blacken [OF 2(2) mem(3)] by metis
  obtain t4 where 4: "rbtree_left_rotate t3 p = Some t4" "rb t4 ?T'" "keeps_nodes t3 t4" "reds t4 = reds t3"
    using left_rotated [of t3 C N p a w b] 3(2) by auto
  have R4: "reds t4 = (if p \<in> reds t then insert w (reds t) else reds t) - {p} - {x}"
    using 1(4) 2(4) 3(4) 4(4) R(1) by auto
  have d: "distinct (inorder (plug ((True, p, Node a w (Node b1 x b2)) # C) N))" using rb b by (simp add: rb_def)
  note ok = outer_ok [OF d h [unfolded b(1)] R(1) b(2) R(3) R4]
  have "keeps_nodes t t4" by (rule keeps_nodes_trans [OF k2 keeps_nodes_trans [OF 3(3) 4(3)]])
  moreover have "hole (reds t4) [] ?T'"
  proof -
    have "reds t4 - {rtop NULL ?T'} = reds t4 \<or> redtop (reds t4) ?T' \<or> ?T' = Leaf" by (cases ?T') auto
    then show ?thesis using ok by (auto simp: hole_def b plug_eq_Leaf)
  qed
  moreover have "?T' \<noteq> Leaf" by (simp add: plug_eq_Leaf)
  moreover have "rroot t4 = rtop NULL ?T'" using 4(2) \<open>?T' \<noteq> Leaf\<close> rb_root by blast
  ultimately have "lowered t ?T k (rroot t4) t4"
    using 4(2) unfolding lowered_def by (intro exI [of _ "[]"] exI [of _ ?T']) (auto simp: inorder_plug k)
  then show ?thesis using np(1,2) 1(1) 2(1) nw 3(1) 4(1) by metis
qed

text \<open>A black sibling with a red inner child only is exchanged for that child.\<close>

lemma repair_inner:
  assumes at: "hole_at t ((True, p, Node (Node a1 v a2) w b) # C) N"
    and h: "hole (reds t) ((True, p, Node (Node a1 v a2) w b) # C) N"
    and R: "w \<notin> reds t" "v \<in> reds t" "\<not> redtop (reds t) b" "\<not> redtop (reds t) N"
  shows "\<exists>t1 t2 t3 np. rupd v rbtree_black t = Some t1 \<and> rupd w rbtree_red t1 = Some t2 \<and> rbtree_right_rotate t2 w = Some t3 \<and>
    rb_parent t3 (rtop (rsentinel t) N) = Some p \<and> rmem t3 p = Some np \<and> rright np = v \<and>
    hole_at t3 ((True, p, Node a1 v (Node a2 w b)) # C) N \<and> hole (reds t3) ((True, p, Node a1 v (Node a2 w b)) # C) N \<and>
    keeps_nodes t t3 \<and> reds t3 = insert w (reds t - {v})"
proof -
  let ?P = "(True, p, Node (Node a1 v a2) w b) # C" and ?P' = "(True, p, Node a1 v (Node a2 w b)) # C"
  have rb: "rb t (plug ?P N)" using at by (rule hole_at_rb)
  have mem: "v \<in> set_tree (plug ?P N)" "w \<in> set_tree (plug ?P N)" by (auto simp: set_plug simp del: plug.simps)
  obtain t1 where 1: "rupd v rbtree_black t = Some t1" "rb t1 (plug ?P N)" "keeps_nodes t t1" "reds t1 = reds t - {v}"
    using blacken [OF rb mem(1)] by metis
  obtain t2 where 2: "rupd w rbtree_red t1 = Some t2" "rb t2 (plug ?P N)" "keeps_nodes t1 t2" "reds t2 = insert w (reds t1)"
    using redden [OF 1(2) mem(2)] by metis
  have rb2: "rb t2 (plug ((False, p, N) # C) (Node (Node a1 v a2) w b))" using 2(2) by simp
  obtain t3 where 3: "rbtree_right_rotate t2 w = Some t3" "rb t3 (plug ?P' N)" "keeps_nodes t2 t3" "reds t3 = reds t2"
    using right_rotated [OF rb2] by auto
  have k: "keeps_nodes t t3" by (rule keeps_nodes_trans [OF 1(3) keeps_nodes_trans [OF 2(3) 3(3)]])
  have R3: "reds t3 = insert w (reds t - {v})" using 1(4) 2(4) 3(4) by simp
  have at3: "hole_at t3 ?P' N" using hole_at_keep [OF at k 3(2)] by simp
  have s: "rsentinel t3 = rsentinel t" using k by (simp add: keeps_nodes_def)
  have d: "distinct (inorder (plug ?P N))" using rb by (simp add: rb_def)
  have "hole (reds t3) ?P' N" by (rule inner_ok [OF d h R(1-3) R3])
  moreover obtain np where "rb_parent t3 (rtop (rsentinel t) N) = Some p" "rmem t3 p = Some np" "rright np = v"
    by (rule siblings [OF at3]) (simp add: s)
  ultimately show ?thesis using 1(1) 2(1) 3(1) at3 k R3 by metis
qed

lemma lowered_keep:
  assumes "lowered t1 T1 k q t'" "keeps_nodes t t1" "inorder T1 = inorder T"
  shows "lowered t T k q t'"
  using assms keeps_nodes_trans unfolding lowered_def by metis

lemma repair_left_lowers:
  assumes at: "hole_at t ((True, p, Node a w b) # C) N" and h: "hole (reds t) ((True, p, Node a w b) # C) N"
    and R: "w \<notin> reds t" "\<not> redtop (reds t) N" and k: "0 < k" "length C < k \<or> p \<in> reds t"
  shows "\<exists>q t'. repair_left t (rtop (rsentinel t) N) w = Some (q, t') \<and>
    lowered t (plug ((True, p, Node a w b) # C) N) k q t'"
proof -
  let ?x = "rtop (rsentinel t) N"
  consider "\<not> redtop (reds t) a" "\<not> redtop (reds t) b" | "redtop (reds t) b"
    | a1 v a2 where "a = Node a1 v a2" "v \<in> reds t" "\<not> redtop (reds t) b"
    by (cases a) auto
  then show ?thesis
  proof cases
    case 1
    then show ?thesis using repair_red [OF at h R(1)] R(2) k(2) by blast
  next
    case 2
    obtain nw where nw: "rmem t w = Some nw" "rb_red t (rright nw) = Some True" "rb_red t (rleft nw) = Some (redtop (reds t) a)"
      by (rule siblings [OF at]) (simp add: 2)
    then show ?thesis using repair_outer [OF at h R(1) 2 R(2) k(1)] by (auto simp: repair_left_def simp del: plug.simps)
  next
    case 3
    obtain nw where nw: "rmem t w = Some nw" "rb_red t (rright nw) = Some False" "rb_red t v = Some True" "rleft nw = v"
      by (rule siblings [OF at]) (simp add: 3)
    obtain t1 t2 t3 np where i: "rupd v rbtree_black t = Some t1" "rupd w rbtree_red t1 = Some t2" "rbtree_right_rotate t2 w = Some t3"
      "rb_parent t3 ?x = Some p" "rmem t3 p = Some np" "rright np = v"
      "hole_at t3 ((True, p, Node a1 v (Node a2 w b)) # C) N" "hole (reds t3) ((True, p, Node a1 v (Node a2 w b)) # C) N"
      "keeps_nodes t t3" "reds t3 = insert w (reds t - {v})"
      using repair_inner [OF at [unfolded 3(1)] h [unfolded 3(1)] R(1) 3(2,3) R(2)] by blast
    have d: "v \<noteq> w" "w \<notin> set_tree N"
      using hole_at_rb [OF at] 3(1) by (auto simp: rb_def inorder_plug)
    have "v \<notin> reds t3" "redtop (reds t3) (Node a2 w b)" "\<not> redtop (reds t3) N"
      using i(10) d R(2) by (cases N; auto)+
    note o = repair_outer [OF i(7,8) this k(1)]
    have s: "rsentinel t3 = rsentinel t" using i(9) by (simp add: keeps_nodes_def)
    have "\<exists>q t'. repair_left t ?x w = Some (q, t') \<and> lowered t3 (plug ((True, p, Node a1 v (Node a2 w b)) # C) N) k q t'"
      using o nw i(1-6) by (auto simp: repair_left_def s simp del: plug.simps)
    then show ?thesis using lowered_keep [OF _ i(9)] 3(1) by (fastforce simp: inorder_plug)
  qed
qed

lemma turn_left:
  assumes at: "hole_at t ((True, p, W) # C) N" and h: "hole (reds t) ((True, p, W) # C) N" and N: "\<not> redtop (reds t) N"
  shows "\<exists>q t'. delete_turn t (rtop (rsentinel t) N) = Some (q, t') \<and> lowered t (plug ((True, p, W) # C) N) (Suc (length C)) q t'"
proof -
  let ?x = "rtop (rsentinel t) N"
  obtain a w b where W: "W = Node a w b" using h by (cases W) (auto simp: hole_def)
  note at = at [unfolded W] and h = h [unfolded W]
  let ?P = "(True, p, Node a w b) # C"
  obtain np where np: "rb_parent t ?x = Some p" "rmem t p = Some np" "rleft np = ?x" "rright np = w" "rb_red t w = Some (w \<in> reds t)"
    by (rule siblings [OF at])
  show ?thesis
  proof (cases "w \<in> reds t")
    case False
    then show ?thesis using repair_left_lowers [OF at h False N, of "Suc (length C)"] np
      by (simp add: delete_turn_def W del: plug.simps)
  next
    case True
    let ?P' = "(True, p, a) # (True, w, b) # C"
    have rb: "rb t (plug ?P N)" using at by (rule hole_at_rb)
    have mem: "w \<in> set_tree (plug ?P N)" "p \<in> set_tree (plug ?P N)" by (auto simp: set_plug simp del: plug.simps)
    obtain t1 where 1: "rupd w rbtree_black t = Some t1" "rb t1 (plug ?P N)" "keeps_nodes t t1" "reds t1 = reds t - {w}"
      using blacken [OF rb mem(1)] by metis
    obtain t2 where 2: "rupd p rbtree_red t1 = Some t2" "rb t2 (plug ?P N)" "keeps_nodes t1 t2" "reds t2 = insert p (reds t1)"
      using redden [OF 1(2) mem(2)] by metis
    have rb2: "rb t2 (plug C (Node N p (Node a w b)))" using 2(2) by simp
    obtain t3 where 3: "rbtree_left_rotate t2 p = Some t3" "rb t3 (plug ?P' N)" "keeps_nodes t2 t3" "reds t3 = reds t2"
      using left_rotated [OF rb2] by auto
    have k: "keeps_nodes t t3" by (rule keeps_nodes_trans [OF 1(3) keeps_nodes_trans [OF 2(3) 3(3)]])
    have R3: "reds t3 = insert p (reds t - {w})" using 1(4) 2(4) 3(4) by simp
    have at3: "hole_at t3 ?P' N" using hole_at_keep [OF at k 3(2)] by simp
    have s: "rsentinel t3 = rsentinel t" using k by (simp add: keeps_nodes_def)
    have d: "distinct (inorder (plug ?P N))" using rb by (simp add: rb_def)
    have ok: "hole (reds t3) ?P' N" "p \<in> reds t3" using red_sibling_ok [OF d h True R3] by blast+
    obtain a1 v a2 where a: "a = Node a1 v a2" "v \<notin> reds t3" using red_sibling_ok(4) [OF d h True R3] by blast
    obtain np3 where np3: "rb_parent t3 ?x = Some p" "rmem t3 p = Some np3" "rright np3 = v"
      by (rule siblings [OF at3 [unfolded a(1)]]) (simp add: s)
    have "\<not> redtop (reds t3) N" using N hole_at_rb [OF at] by (cases N) (auto simp: R3 rb_def inorder_plug)
    then obtain q t' where "repair_left t3 ?x v = Some (q, t')" "lowered t3 (plug ?P' N) (Suc (length C)) q t'"
      using repair_left_lowers [OF at3 [unfolded a(1)] ok(1) [unfolded a(1)] a(2), of "Suc (length C)"] ok(2) a(1)
      by (auto simp: s simp del: plug.simps)
    moreover from this(2) have "lowered t (plug ?P N) (Suc (length C)) q t'"
      by (rule lowered_keep) (simp_all add: k inorder_plug)
    ultimately show ?thesis using np np3 1(1) 2(1) 3(1) True by (simp add: delete_turn_def W del: plug.simps)
  qed
qed

section \<open>The other side, and the loop\<close>

lemma okhp_mirror: "okhp R b (mirror_path C) \<longleftrightarrow> okhp R b C"
  by (induction R b C rule: okhp.induct) (auto simp: bh_ok dest: bh_ok [of R "mirror _", simplified])

lemma last_mirror_path: "fst (snd (last (mirror_path C))) = fst (snd (last C))" "mirror_path C = [] \<longleftrightarrow> C = []"
  "up (mirror_path C) = up C" "length (mirror_path C) = length C"
  by (induction C rule: mirror_path.induct) auto

lemma hole_mirror: "hole R (mirror_path C) (mirror N) \<longleftrightarrow> hole R C N"
  using bh_ok [of R N] by (auto simp: hole_def okhp_mirror last_mirror_path)

lemma hole_at_mirror: "hole_at t C N \<Longrightarrow> hole_at (flip_tree t) (mirror_path C) (mirror N)"
  using rb_mirror [of t "plug C N"]
  by (auto simp: hole_at_def mirror_plug last_mirror_path rb_parent_def)

lemma lowered_mirror:
  assumes "lowered (flip_tree t) (mirror T) k q t'"
  shows "lowered t T k q (flip_tree t')"
proof -
  obtain C N where C: "rb t' (plug C N)" "N \<noteq> Leaf" "q = rtop NULL N" "keeps_nodes (flip_tree t) t'"
    "inorder (plug C N) = inorder (mirror T)" "hole (reds t') C N" "length C < k \<or> redtop (reds t') N"
    using assms unfolding lowered_def by blast
  have "rb (flip_tree t') (plug (mirror_path C) (mirror N))" using rb_mirror [OF C(1)] by (simp add: mirror_plug)
  moreover have "inorder (plug (mirror_path C) (mirror N)) = inorder T"
    using C(5) by (simp add: mirror_plug [symmetric] inorder_mirror)
  moreover have "keeps_nodes t (flip_tree t')" using C(4) keeps_nodes_flip [of "flip_tree t" t'] by simp
  moreover have "mirror N \<noteq> Leaf" using C(2) by (cases N) auto
  ultimately show ?thesis unfolding lowered_def using C(3,6,7)
    by (intro exI [of _ "mirror_path C"] exI [of _ "mirror N"]) (simp add: hole_mirror last_mirror_path)
qed

lemma turn:
  assumes at: "hole_at t ((lft, p, W) # C) N" and h: "hole (reds t) ((lft, p, W) # C) N" and N: "\<not> redtop (reds t) N"
  shows "\<exists>q t'. delete_turn t (rtop (rsentinel t) N) = Some (q, t') \<and> lowered t (plug ((lft, p, W) # C) N) (Suc (length C)) q t'"
proof (cases lft)
  case True
  then show ?thesis using turn_left assms by simp
next
  case False
  let ?s = "rsentinel t"
  have "\<exists>q t'. delete_turn (flip_tree t) (rtop (rsentinel (flip_tree t)) (mirror N)) = Some (q, t') \<and>
     lowered (flip_tree t) (plug ((True, p, mirror W) # mirror_path C) (mirror N)) (Suc (length (mirror_path C))) q t'"
    using hole_at_mirror [OF at] h N hole_mirror [of "reds t" "(lft, p, W) # C" N] False by (intro turn_left) simp_all
  then obtain q t' where t': "delete_turn (flip_tree t) (rtop ?s N) = Some (q, t')"
    "lowered (flip_tree t) (mirror (plug ((lft, p, W) # C) N)) (Suc (length C)) q t'"
    using False by (auto simp: mirror_plug last_mirror_path)
  have rb: "rb t (plug ((lft, p, W) # C) N)" using at by (rule hole_at_rb)
  then obtain np where np: "rmem t p = Some np" "rleft np = rtop ?s W" "rright np = rtop ?s N"
    using False by (auto simp: rb_def rep_plug simp del: plug.simps)
  have "W \<noteq> Leaf" using h by (auto simp: hole_def)
  then have "rtop ?s W \<noteq> rtop ?s N" using rb False by (cases W; cases N) (auto simp: rb_def inorder_plug set_plug)
  moreover have "rb_parent t (rtop ?s N) = Some p" using at by (simp add: hole_at_def)
  ultimately have "delete_turn (flip_tree t) (rtop ?s N) = map_option (map_prod id flip_tree) (delete_turn t (rtop ?s N))"
    using np by (intro delete_turn_flip) auto
  then have "delete_turn t (rtop ?s N) = Some (q, flip_tree t')" using t'(1) by (cases "delete_turn t (rtop ?s N)") auto
  then show ?thesis using lowered_mirror [OF t'(2)] by blast
qed

text \<open>Blackening the place ends the repair.\<close>

lemma blacken_hole:
  assumes rb: "rb t (plug C N)" "N \<noteq> Leaf" and h: "hole (reds t) C N" and top: "redtop (reds t) N \<or> C = []"
  shows "\<exists>t' T'. rupd (rtop NULL N) rbtree_black t = Some t' \<and> rb t' T' \<and> keeps_nodes t t' \<and>
    inorder T' = inorder (plug C N) \<and> okh (reds t') T' \<and> okc (reds t') T' \<and> \<not> redtop (reds t') T'"
proof -
  obtain l x r where N: "N = Node l x r" using rb(2) by (cases N) auto
  have mem: "x \<in> set_tree (plug C N)" by (simp add: set_plug N)
  obtain t' where t': "rupd x rbtree_black t = Some t'" "rb t' (plug C N)" "keeps_nodes t t'" "reds t' = reds t - {x}"
    using blacken [OF rb(1) mem] by metis
  have sets: "same_col (reds t') (reds t) (set_tree l)" "same_col (reds t') (reds t) (set_tree r)"
    "same_col (reds t') (reds t) (path_set C)"
    using rb(1) by (auto simp: t'(4) same_col_def rb_def inorder_plug path_set_lists N)
  note co = sets(1,2) [THEN bh_cong] sets(1,2) [THEN okh_cong] sets(3) [THEN okhp_cong] sets(3) [THEN okcp_cong]
  have x: "x \<notin> reds t'" by (simp add: t'(4))
  have h': "okh (reds t) N" "okhp (reds t) (bh (reds t) N + 1) C" "okc (reds t') N" "okcp (reds t) False C"
    "C \<noteq> [] \<Longrightarrow> fst (snd (last C)) \<notin> reds t"
    using h by (auto simp: hole_def N t'(4))
  have "okh (reds t') (plug C N)" using h'(1,2) top x by (auto simp: okh_plug N co)
  moreover have "okc (reds t') (plug C N)" using h'(3,4) x by (simp add: okc_plug N co)
  moreover have "redtop R T = (rtop NULL T \<in> R \<and> T \<noteq> Leaf)" for R T by (cases T) auto
  then have "\<not> redtop (reds t') (plug C N)" using h'(5) x t'(4) by (simp add: rtop_plug N)
  ultimately show ?thesis using t'(1-3) by (intro exI [of _ t'] exI [of _ "plug C N"]) (simp add: N)
qed

definition repaired :: "rbtree \<Rightarrow> ptr tree \<Rightarrow> rbtree \<Rightarrow> bool" where
  "repaired t T t' \<longleftrightarrow> (\<exists>T'. rb t' T' \<and> keeps_nodes t t' \<and> inorder T' = inorder T \<and>
     okh (reds t') T' \<and> okc (reds t') T' \<and> \<not> redtop (reds t') T')"

lemma root_hole:
  assumes "rb t (plug C N)" "plug C N \<noteq> Leaf"
  shows "rtop (rsentinel t) N = rroot t \<longleftrightarrow> C = []"
proof (cases N)
  case Leaf
  then show ?thesis using assms rb_root [OF assms] by (auto simp: rb_def)
next
  case (Node l x r)
  then show ?thesis using assms(1) root_plug [of t C l x r] by simp
qed

lemma fixup_ends:
  assumes "rb t (plug C N)" "hole (reds t) C N" "plug C N \<noteq> Leaf" "redtop (reds t) N \<or> C = []"
  shows "\<exists>t'. delete_fixup t (rtop (rsentinel t) N) = Some t' \<and> repaired t (plug C N) t'"
proof -
  have N: "N \<noteq> Leaf" using assms(3,4) by auto
  then have "rtop (rsentinel t) N = rtop NULL N" by (cases N) auto
  moreover have "rb_red t (rtop (rsentinel t) N) = Some (redtop (reds t) N)" using red_sub [OF assms(1)] by (simp add: set_plug)
  ultimately show ?thesis using blacken_hole [OF assms(1) N assms(2,4)] root_hole [OF assms(1,3)] assms(4)
    by (subst delete_fixup.simps) (auto simp: repaired_def)
qed

lemma fixup_balances:
  assumes "hole_at t C N" "hole (reds t) C N" "plug C N \<noteq> Leaf"
  shows "\<exists>t'. delete_fixup t (rtop (rsentinel t) N) = Some t' \<and> repaired t (plug C N) t'"
  using assms
proof (induction "length C" arbitrary: t C N rule: less_induct)
  case less
  let ?x = "rtop (rsentinel t) N"
  have rb: "rb t (plug C N)" using less.prems(1) by (rule hole_at_rb)
  show ?case
  proof (cases "redtop (reds t) N \<or> C = []")
    case True
    then show ?thesis using fixup_ends [OF rb less.prems(2,3)] by simp
  next
    case False
    obtain lft p W C' where C: "C = (lft, p, W) # C'" using False by (cases C rule: path_set.cases) auto
    obtain q t' where t': "delete_turn t ?x = Some (q, t')" "lowered t (plug C N) (length C) q t'"
      using turn [of t lft p W C' N] less.prems(1,2) False by (auto simp: C)
    then obtain D M where D: "rb t' (plug D M)" "M \<noteq> Leaf" "q = rtop NULL M" "keeps_nodes t t'"
      "inorder (plug D M) = inorder (plug C N)" "hole (reds t') D M" "length D < length C \<or> redtop (reds t') M"
      unfolding lowered_def by blast
    have M: "plug D M \<noteq> Leaf" "q = rtop (rsentinel t') M" using D(2,3) by (cases M; auto simp: plug_eq_Leaf)+
    obtain t'' where "delete_fixup t' q = Some t''" "repaired t' (plug D M) t''"
      using D(7) fixup_ends [OF D(1,6) M(1)] less.hyps [OF _ hole_atI [OF D(1,2)] D(6) M(1)] unfolding M(2) by blast
    moreover from this(2) have "repaired t (plug C N) t''"
      using D(4,5) keeps_nodes_trans unfolding repaired_def by metis
    moreover have "rb_red t ?x = Some False" using red_sub [OF rb, of N] False by (simp add: set_plug)
    ultimately show ?thesis using t'(1) root_hole [OF rb less.prems(3)] False
      by (subst delete_fixup.simps) auto
  qed
qed

end
