(* ===== verification/Rbtree_Delete.thy ===== *)
theory Rbtree_Delete
  imports Rbtree_Fixup
begin

text \<open>
  Taking a node out of the tree: its only child, or the next node in order, takes its place. With
  the repair of \<open>Rbtree_Fixup\<close> a red-black tree of the other nodes is left.
\<close>

section \<open>Updates of the memory\<close>

definition upd :: "ptr \<Rightarrow> (rbnode \<Rightarrow> rbnode) \<Rightarrow> rbmem \<Rightarrow> rbmem" where
  "upd a f h = h(a := map_option f (h a))"

lemma upd_apply: "upd a f h b = (if b = a then map_option f (h b) else h b)"
  by (simp add: upd_def)

lemma rupd_upd: "rmem t a = Some n \<Longrightarrow> rupd a f t = Some (t\<lparr>rmem := upd a f (rmem t)\<rparr>)"
  by (simp add: rupd_def upd_def fun_upd_def)

lemma rep_path_upd:
  assumes "rep_path h s q C" "a \<notin> path_set C"
  shows "rep_path (upd a f h) s q C"
  by (rule rep_path_cong [OF assms(1)], rule same_linksI) (use assms(2) in \<open>auto simp: upd_apply\<close>)

lemma rep_upd:
  assumes "rep h s p T" "a \<notin> set_tree T"
  shows "rep (upd a f h) s p T"
  by (rule rep_cong [OF assms(1)], rule same_linksI) (use assms(2) in \<open>auto simp: upd_apply\<close>)

text \<open>A subtree gets another parent, written to the sentinel when it is empty.\<close>

lemma rep_upd_parent:
  assumes "rep h s p T" "distinct (inorder T)"
  shows "rep (upd (rtop s T) (rparent_update (\<lambda>_. q)) h) s q T"
  by (rule rep_reparent [OF assms(1)]) (use assms(2) in \<open>auto simp: upd_apply intro!: same_linksI split: if_split_asm\<close>)

text \<open>What the removal of \<open>x\<close> leaves of the other nodes.\<close>

definition keeps_others :: "ptr \<Rightarrow> rbtree \<Rightarrow> rbtree \<Rightarrow> bool" where
  "keeps_others x t t' \<longleftrightarrow> rsentinel t' = rsentinel t \<and>
     (\<forall>a. a \<noteq> x \<longrightarrow> map_option (\<lambda>n. (rkey n, rdata n)) (rmem t' a) = map_option (\<lambda>n. (rkey n, rdata n)) (rmem t a))"

lemma keeps_others_trans: "keeps_others x t t' \<Longrightarrow> keeps_nodes t' t'' \<Longrightarrow> keeps_others x t t''"
  by (simp add: keeps_others_def keeps_nodes_def)

lemma keeps_others_keyof: "keeps_others x t t' \<Longrightarrow> a \<noteq> x \<Longrightarrow> keyof t' a = keyof t a"
proof -
  assume "keeps_others x t t'" "a \<noteq> x"
  then have "map_option (\<lambda>n. (rkey n, rdata n)) (rmem t' a) = map_option (\<lambda>n. (rkey n, rdata n)) (rmem t a)"
    by (simp add: keeps_others_def)
  then show ?thesis by (cases "rmem t a"; cases "rmem t' a") (auto simp: keyof_def)
qed

section \<open>Cutting a node off\<close>

text \<open>A node with at most one child, whose subtree is \<open>N\<close>.\<close>

definition only_child :: "ptr tree \<Rightarrow> ptr tree \<Rightarrow> ptr tree \<Rightarrow> bool" where
  "only_child A B N \<longleftrightarrow> A = Leaf \<and> N = B \<or> B = Leaf \<and> N = A"

lemma set_child_update: "set_child True q = rleft_update (\<lambda>_. q)" "set_child False q = rright_update (\<lambda>_. q)"
  by (simp_all add: set_child_def fun_eq_iff)

lemma cut:
  assumes rb: "rb t (plug ((lft, p, u) # C) (Node A y B))" and N: "only_child A B N"
  shows "cut_child t y (rtop (rsentinel t) N) = Some (t\<lparr>rmem := upd p (set_child lft (rtop (rsentinel t) N)) (rmem t)\<rparr>) \<and>
    rep_path (upd p (set_child lft (rtop (rsentinel t) N)) (rmem t)) (rsentinel t) (rtop (rsentinel t) N) ((lft, p, u) # C) \<and>
    rep (upd p (set_child lft (rtop (rsentinel t) N)) (rmem t)) (rsentinel t) y N \<and>
    rb_parent t y = Some p \<and> (\<exists>np. rmem t p = Some np)"
proof -
  let ?s = "rsentinel t" and ?P = "(lft, p, u) # C"
  have d: "p \<notin> insert y (set_tree N)" "p \<notin> set_tree u \<union> path_set C" "y \<notin> set_tree u" "y \<noteq> ?s"
    using rb N by (auto simp: rb_def inorder_plug path_set_lists set_plug only_child_def split: if_split_asm)
  have path: "rep_path (rmem t) ?s y ?P" and rep: "rep (rmem t) ?s y N" and ny: "\<exists>ny. rmem t y = Some ny \<and> rparent ny = p"
    using rb N by (auto simp: rb_def rep_plug only_child_def simp del: plug.simps)
  obtain np where np: "rmem t p = Some np" "y = rleft np \<longleftrightarrow> lft"
    using path d(3,4) by (cases u) (auto split: if_split_asm)
  have "cut_child t y (rtop ?s N) = Some (t\<lparr>rmem := upd p (set_child lft (rtop ?s N)) (rmem t)\<rparr>)"
    using ny np by (cases lft) (auto simp: cut_child_def rb_parent_def rupd_upd set_child_update)
  moreover have "rep_path (upd p (set_child lft (rtop ?s N)) (rmem t)) ?s (rtop ?s N) ?P"
    by (rule rep_path_hole [OF path]) (use d in \<open>auto simp: upd_apply intro!: same_linksI\<close>)
  ultimately show ?thesis using rep_upd [OF rep] d(1) ny np(1) by (auto simp: rb_parent_def)
qed

text \<open>A node other than the root, with at most one child.\<close>

lemma detach:
  assumes rb: "rb t (plug ((lft, p, u) # C) (Node A y B))" and N: "only_child A B N"
  shows "\<exists>t1 t2 t3. cut_child t y (rtop (rsentinel t) N) = Some t1 \<and> rb_parent t1 y = Some p \<and>
    rupd (rtop (rsentinel t) N) (rparent_update (\<lambda>_. p)) t1 = Some t2 \<and> rupd y rbtree_node_init t2 = Some t3 \<and>
    hole_at t3 ((lft, p, u) # C) N \<and> keeps_others y t t3 \<and> reds t3 = reds t"
proof -
  let ?s = "rsentinel t" and ?P = "(lft, p, u) # C"
  let ?q = "rtop ?s N"
  let ?h1 = "upd p (set_child lft ?q) (rmem t)"
  let ?h2 = "upd ?q (rparent_update (\<lambda>_. p)) ?h1"
  let ?h3 = "upd y rbtree_node_init ?h2"
  note c = cut [OF assms]
  have d: "p \<noteq> y" "?s \<notin> insert y (insert p (set_tree N))" "y \<notin> set_tree N" "y \<notin> path_set ?P" "?q \<notin> path_set ?P" "distinct (inorder N)"
    "NULL \<notin> set_tree N"
  proof -
    have *: "distinct (lefts ?P @ inorder (Node A y B) @ rights ?P)" "?s \<notin> set_tree (Node A y B) \<union> path_set ?P"
      "NULL \<notin> set_tree (Node A y B)"
      using rb by (auto simp: rb_def inorder_plug set_plug simp del: plug.simps path_set.simps)
    have NN: "set_tree N \<subseteq> set_tree (Node A y B)" "y \<notin> set_tree N" "distinct (inorder N)"
      using N *(1) by (auto simp: only_child_def simp del: lefts.simps rights.simps)
    have yP: "insert y (set_tree N) \<inter> path_set ?P = {}" using *(1) NN(1) unfolding path_set_lists
      by (auto simp del: lefts.simps rights.simps)
    then show "p \<noteq> y" "y \<notin> path_set ?P" by auto
    show "?s \<notin> insert y (insert p (set_tree N))" "NULL \<notin> set_tree N" using *(2,3) NN(1) by auto
    show "y \<notin> set_tree N" "distinct (inorder N)" by (rule NN)+
    show "?q \<notin> path_set ?P" using yP *(2) by (cases N) (auto simp del: path_set.simps)
  qed
  obtain np ny where n: "rmem t p = Some np" "rmem t y = Some ny" "rparent ny = p"
    using c by (auto simp: rb_parent_def simp del: rep_path.simps)
  obtain nq where nq: "rmem t ?q = Some nq" "?q \<noteq> p" "?q \<noteq> y"
  proof -
    have "rtop ?s N \<in> insert ?s (set_tree (Node A y B))" using N by (cases N) (auto simp: only_child_def)
    then have "\<exists>nq. rmem t ?q = Some nq" using rb rb_dom [OF rb, of ?q] by (auto simp: rb_def set_plug simp del: plug.simps)
    moreover have "?q \<noteq> p" "?q \<noteq> y" using d(2,3,5) by (cases N; auto)+
    ultimately show ?thesis using that by blast
  qed
  have c': "rep_path ?h1 ?s ?q ?P" "rep ?h1 ?s y N" using c by blast+
  have "rep_path ?h3 ?s ?q ?P" by (rule rep_path_upd [OF rep_path_upd [OF c'(1) d(5)] d(4)])
  moreover have "rep ?h3 ?s p N" by (rule rep_upd [OF rep_upd_parent [OF c'(2) d(6)] d(3)])
  ultimately have "rep ?h3 ?s NULL (plug ?P N)" by (simp add: rep_plug del: plug.simps)
  moreover have "distinct (inorder (plug ?P N))" "set_tree (plug ?P N) \<subseteq> set_tree (plug ?P (Node A y B))"
    using rb N by (auto simp: rb_def inorder_plug set_plug only_child_def)
  moreover have "\<exists>n. ?h3 ?s = Some n \<and> rbtree_is_black n \<and> rleft n = NULL \<and> rright n = NULL \<and> rkey n = - 1"
    using rb d(2) by (auto simp: rb_def upd_apply rbtree_is_black_def)
  ultimately have "rb (t\<lparr>rmem := ?h3\<rparr>) (plug ?P N)"
    using rb by (auto simp: rb_def rtop_plug simp del: plug.simps)
  moreover have "?h3 ?q = Some (nq\<lparr>rparent := p\<rparr>)" using nq by (simp add: upd_apply)
  ultimately have "hole_at (t\<lparr>rmem := ?h3\<rparr>) ?P N" by (simp add: hole_at_def rb_parent_def del: plug.simps)
  moreover have "keeps_others y t (t\<lparr>rmem := ?h3\<rparr>)"
    using n by (auto simp: keeps_others_def upd_apply set_child_def option.map_comp comp_def)
  moreover have "rbtree_is_red (set_child lft a m) = rbtree_is_red m" "rbtree_is_red (rbtree_node_init m) = rbtree_is_red m"
    "rbtree_is_red (m\<lparr>rparent := a\<rparr>) = rbtree_is_red m" for a m
    by (simp_all add: set_child_def rbtree_node_init_def rbtree_is_red_def rbtree_is_black_def)
  then have "reds (t\<lparr>rmem := ?h3\<rparr>) = reds t" by (auto simp: reds_def upd_apply)
  moreover have "rupd ?q (rparent_update (\<lambda>_. p)) (t\<lparr>rmem := ?h1\<rparr>) = Some (t\<lparr>rmem := ?h2\<rparr>)"
    using nq rupd_upd [of "t\<lparr>rmem := ?h1\<rparr>"] by (simp add: upd_apply)
  moreover have "rupd y rbtree_node_init (t\<lparr>rmem := ?h2\<rparr>) = Some (t\<lparr>rmem := ?h3\<rparr>)"
    using n nq d(1) rupd_upd [of "t\<lparr>rmem := ?h2\<rparr>"] by (simp add: upd_apply)
  moreover have "rb_parent (t\<lparr>rmem := ?h1\<rparr>) y = Some p" using n d(1) by (simp add: rb_parent_def upd_apply)
  ultimately show ?thesis using c by blast
qed

section \<open>The next node in order takes the place\<close>

text \<open>The memory after \<open>take_place\<close>: \<open>y\<close> with the links of \<open>x\<close>, whose record is \<open>n\<close>, under the
  path \<open>C\<close>; \<open>q\<close> is the child of \<open>y\<close>, with the parent \<open>g\<close> of \<open>y\<close>.\<close>

definition place_mem :: "ptr \<Rightarrow> path \<Rightarrow> ptr \<Rightarrow> ptr \<Rightarrow> ptr \<Rightarrow> ptr \<Rightarrow> rbnode \<Rightarrow> rbmem \<Rightarrow> rbmem" where
  "place_mem s C x y q g n h = (\<lambda>a.
     if a = y then map_option (\<lambda>m. rbtree_copy_color (m\<lparr>rleft := rleft n, rright := rright n, rparent := rparent n\<rparr>) n) (h a)
     else if a = rleft n \<or> a = rright n \<and> a \<noteq> s then map_option (rparent_update (\<lambda>_. y)) (h a)
     else if a = q then map_option (rparent_update (\<lambda>_. if g = x then y else g)) (h a)
     else if C \<noteq> [] \<and> a = up C then map_option (set_child (fst (hd C)) y) (h a)
     else h a)"

lemma copy_links [simp]:
  "rleft (rbtree_copy_color n m) = rleft n" "rright (rbtree_copy_color n m) = rright n"
  "rparent (rbtree_copy_color n m) = rparent n" "rkey (rbtree_copy_color n m) = rkey n" "rdata (rbtree_copy_color n m) = rdata n"
  by (simp_all add: rbtree_copy_color_def)

lemma take_place_run:
  assumes n: "rmem t x = Some n" "rmem t y = Some ny" "rparent ny = g" "rmem t q = Some nq" "rmem t (rleft n) = Some nl"
    "rright n \<noteq> rsentinel t \<Longrightarrow> \<exists>nr. rmem t (rright n) = Some nr"
    and C: "C \<noteq> [] \<Longrightarrow> rparent n = up C \<and> up C \<notin> {x, y, q, rleft n, rright n} \<and>
      (\<exists>nc. rmem t (up C) = Some nc \<and> (x = rleft nc \<longleftrightarrow> fst (hd C)))" "rroot t = x \<longleftrightarrow> C = []"
    and d: "x \<noteq> y" "q \<notin> {x, y}" "rleft n \<notin> {rsentinel t, x, y, q}" "rright n \<notin> {x, y, rleft n}"
  shows "take_place t x y q = Some (t\<lparr>rmem := place_mem (rsentinel t) C x y q g n (rmem t), rroot := (if C = [] then y else rroot t)\<rparr>)"
proof -
  let ?paint = "\<lambda>m. rbtree_copy_color (m\<lparr>rleft := rleft n, rright := rright n, rparent := rparent n\<rparr>) n"
  define h2 where "h2 = upd q (rparent_update (\<lambda>_. if g = x then y else g)) (rmem t)"
  define h3 where "h3 = upd y ?paint h2"
  define h4 where "h4 = (if C = [] then h3 else upd (up C) (set_child (fst (hd C)) y) h3)"
  define h5 where "h5 = upd (rleft n) (rparent_update (\<lambda>_. y)) h4"
  define h6 where "h6 = (if rright n = rsentinel t then h5 else upd (rright n) (rparent_update (\<lambda>_. y)) h5)"
  define t4 where "t4 = t\<lparr>rmem := h4, rroot := (if C = [] then y else rroot t)\<rparr>"
  have up: "C \<noteq> [] \<Longrightarrow> up C \<notin> {x, y, q, rleft n, rright n}" using C(1) by blast
  have neq: "rleft n \<noteq> rsentinel t" "rleft n \<noteq> y" "rleft n \<noteq> q" "rright n \<noteq> y" "rright n \<noteq> rleft n" "q \<noteq> y" "y \<noteq> x"
    using d by auto
  have mem: "h6 = place_mem (rsentinel t) C x y q g n (rmem t)"
  proof (rule ext)
    fix a
    have twice: "map_option (rparent_update (\<lambda>_. b)) (map_option (rparent_update (\<lambda>_. c)) k) = map_option (rparent_update (\<lambda>_. b)) k"
      for b c k by (cases k) auto
    note defs = h2_def h3_def h4_def h5_def h6_def place_mem_def upd_apply twice
    show "h6 a = place_mem (rsentinel t) C x y q g n (rmem t) a"
    proof (cases "C = []")
      case True
      then show ?thesis
        by (cases "a = y"; cases "a = rleft n"; cases "a = rright n"; cases "rright n = rsentinel t")
          (simp_all add: defs neq neq [symmetric])
    next
      case False
      then show ?thesis using up [OF False]
        by (cases "a = y"; cases "a = rleft n"; cases "a = rright n"; cases "rright n = rsentinel t"; cases "a = q")
          (simp_all add: defs neq neq [symmetric])
    qed
  qed
  have 2: "rupd q (rparent_update (\<lambda>_. if g = x then y else g)) t = Some (t\<lparr>rmem := h2\<rparr>)"
    unfolding h2_def using n(4) by (rule rupd_upd)
  have 3: "rupd y ?paint (t\<lparr>rmem := h2\<rparr>) = Some (t\<lparr>rmem := h3\<rparr>)"
    using n(2) d(2) rupd_upd [of "t\<lparr>rmem := h2\<rparr>" y ny ?paint] by (simp add: upd_apply h3_def h2_def)
  have 4: "(if x = rroot t then Some (t\<lparr>rmem := h3, rroot := y\<rparr>)
      else do { p \<leftarrow> h3 (rparent n);
                (if x = rleft p then rupd (rparent n) (rleft_update (\<lambda>_. y)) (t\<lparr>rmem := h3\<rparr>)
                 else rupd (rparent n) (rright_update (\<lambda>_. y)) (t\<lparr>rmem := h3\<rparr>)) }) = Some t4"
  proof (cases "C = []")
    case True
    then show ?thesis using C(2) by (simp add: t4_def h4_def)
  next
    case False
    then obtain nc where nc: "rparent n = up C" "h3 (up C) = Some nc" "x = rleft nc \<longleftrightarrow> fst (hd C)"
      using C(1) by (auto simp: upd_apply h3_def h2_def)
    have "rupd (up C) f (t\<lparr>rmem := h3\<rparr>) = Some (t\<lparr>rmem := upd (up C) f h3\<rparr>)" for f
      using rupd_upd [of "t\<lparr>rmem := h3\<rparr>" "up C" nc] nc(2) by simp
    then show ?thesis using nc C(2) False by (cases "fst (hd C)") (simp_all add: set_child_update t4_def h4_def)
  qed
  have h4: "h4 y = h3 y" "h4 (rleft n) = h3 (rleft n)" "h4 (rright n) = h3 (rright n)"
    using up by (cases "C = []"; simp add: h4_def upd_apply)+
  obtain m where m: "h4 y = Some m" "h5 y = Some m" "rleft m = rleft n" "rright m = rright n"
    using n(2) neq unfolding h5_def upd_apply [of "rleft n"] h4 by (auto simp: upd_apply h3_def h2_def)
  have "\<exists>k. h4 (rleft n) = Some k" using n(5) neq unfolding h4 by (auto simp: upd_apply h3_def h2_def)
  then have 5: "rupd (rleft n) (rparent_update (\<lambda>_. y)) t4 = Some (t4\<lparr>rmem := h5\<rparr>)"
    using rupd_upd [of t4 "rleft n"] by (auto simp: h5_def t4_def)
  have "rright n \<noteq> rsentinel t \<Longrightarrow> \<exists>k. h5 (rright n) = Some k"
    using n(6) neq unfolding h5_def upd_apply [of "rleft n"] h4 by (auto simp: upd_apply h3_def h2_def)
  then have 6: "(if rright n \<noteq> rsentinel t then rupd (rright n) (rparent_update (\<lambda>_. y)) (t4\<lparr>rmem := h5\<rparr>) else Some (t4\<lparr>rmem := h5\<rparr>)) =
      Some (t4\<lparr>rmem := h6\<rparr>)"
    using rupd_upd [of "t4\<lparr>rmem := h5\<rparr>" "rright n"] by (auto simp: h6_def)
  have n2: "h2 x = Some n" "rb_parent t y = Some g" using n d(2) by (auto simp: upd_apply rb_parent_def h2_def)
  have t4: "rmem t4 = h4" "rsentinel t4 = rsentinel t" by (simp_all add: t4_def)
  have sel: "rmem (u\<lparr>rmem := h\<rparr>) = h" "rroot (u\<lparr>rmem := h\<rparr>) = rroot u" "rsentinel (u\<lparr>rmem := h\<rparr>) = rsentinel u"
    for u :: rbtree and h by simp_all
  have "take_place t x y q = Some (t4\<lparr>rmem := h6\<rparr>)"
    unfolding take_place_def n2(2) Option.bind.simps 2
    by (simp only: sel n2(1) 3 4 5 6 m neq(1) t4 Option.bind.simps not_False_eq_True if_True)
  then show ?thesis unfolding mem by (simp add: t4_def)
qed

text \<open>Exchanging a node inside a path.\<close>

lemma rep_path_swap:
  assumes "rep_path h s q (D @ (d, x, l) # C)" "distinct (lefts D @ rights D)"
    "D \<noteq> [] \<Longrightarrow> h' (fst (snd (last D))) = map_option (rparent_update (\<lambda>_. y)) (h (fst (snd (last D))))"
    "same_links h h' (path_set D - {fst (snd (last D))})"
    "rep_path h' s (if D = [] then q else fst (snd (last D))) ((d, y, l) # C)"
  shows "rep_path h' s q (D @ (d, y, l) # C)"
  using assms
proof (induction D arbitrary: q)
  case (Cons f D)
  obtain df a u where f: "f = (df, a, u)" by (cases f)
  have a: "a \<notin> set_tree u \<union> path_set D" "set_tree u \<inter> path_set D = {}"
    using Cons.prems(2) by (auto simp: f path_set_lists split: if_split_asm)
  let ?e = "fst (snd (last (f # D)))"
  have e: "?e \<notin> set_tree u" "D \<noteq> [] \<Longrightarrow> ?e \<noteq> a"
    using a last_path [of D] by (auto simp: f)
  have "same_links h h' (set_tree u)"
    by (rule same_links_subset [OF Cons.prems(4)]) (use e(1) in \<open>auto simp: f\<close>)
  then have u: "rep h' s a u" using Cons.prems(1) rep_cong by (auto simp: f)
  have rest: "rep_path h' s a (D @ (d, y, l) # C)"
  proof (rule Cons.IH)
    show "distinct (lefts D @ rights D)" using Cons.prems(2) by (auto simp: f)
    show "same_links h h' (path_set D - {fst (snd (last D))})"
    proof (cases "D = []")
      case False
      then show ?thesis by (intro same_links_subset [OF Cons.prems(4)]) (auto simp: f)
    qed (simp add: same_links_def)
    show "rep_path h' s (if D = [] then a else fst (snd (last D))) ((d, y, l) # C)"
      using Cons.prems(5) by (auto simp: f simp del: rep_path.simps split: if_split_asm)
  qed (use Cons.prems(1,3) in \<open>auto simp: f\<close>)
  obtain n where n: "h a = Some n" "rparent n = up (D @ (d, x, l) # C)"
    "if df then rleft n = q \<and> rright n = rtop s u else rleft n = rtop s u \<and> rright n = q"
    using Cons.prems(1) by (auto simp: f)
  have "\<exists>m. h' a = Some m \<and> rparent m = up (D @ (d, y, l) # C) \<and>
      (if df then rleft m = q \<and> rright m = rtop s u else rleft m = rtop s u \<and> rright m = q)"
  proof (cases "D = []")
    case True
    then show ?thesis using Cons.prems(3) n by (simp add: f)
  next
    case False
    then obtain m where "h' a = Some m" "links m = links n"
      using same_linksD [OF Cons.prems(4) _ n(1)] e(2) by (auto simp: f)
    moreover have "up (D @ (d, y, l) # C) = up (D @ (d, x, l) # C)" using False by (cases D rule: path_set.cases) auto
    ultimately show ?thesis using n by (auto simp: links_def)
  qed
  then show ?case using u rest by (simp add: f)
qed simp

lemma rep_path_tail: "rep_path h s q (D @ E) \<Longrightarrow> rep_path h s (if D = [] then q else fst (snd (last D))) E"
  by (induction h s q D rule: rep_path.induct) (auto split: if_split_asm)

lemma rep_path_dom: "rep_path h s q C \<Longrightarrow> path_set C \<subseteq> dom h"
  by (induction h s q C rule: rep_path.induct) (auto dest!: rep_dom)

text \<open>The tree in memory when \<open>y\<close> has taken the place of \<open>x\<close>.\<close>

lemma replaced_rep:
  assumes rep: "rep_path h s q (D @ (False, x, l) # C)" "rep h s y N" "q = rtop s N" "l \<noteq> Leaf"
    and n: "h x = Some n" "h y = Some ny" "rleft n = rtop s l" "rright n = (if D = [] then q else fst (snd (last D)))"
      "rparent n = up C"
    and d: "distinct (lefts C @ inorder l @ x # (lefts D @ y # inorder N @ rights D) @ rights C)"
      "s \<notin> insert x (insert y (set_tree l \<union> path_set D \<union> set_tree N \<union> path_set C))"
    and g: "g = up (D @ (False, x, l) # C)" and h': "h' = upd x rbtree_node_init (place_mem s C x y q g n h)"
  shows "rep_path h' s q (D @ (False, y, l) # C) \<and> rep h' s (up (D @ (False, y, l) # C)) N"
proof -
  let ?e = "fst (snd (last D))" and ?tl = "rtop s l"
  have tl: "?tl \<in> set_tree l" using rep(4) by (cases l) auto
  have q: "q = s \<and> N = Leaf \<or> q \<in> set_tree N \<and> N \<noteq> Leaf" using rep(3) by (cases N) auto
  have e: "D \<noteq> [] \<Longrightarrow> ?e \<in> path_set D" by (rule last_path)
  have uc: "C \<noteq> [] \<Longrightarrow> up C \<in> path_set C" by (rule up_path)
  have dl: "distinct (inorder l)" "distinct (inorder N)" "distinct (lefts D @ rights D)" using d(1) by auto
  have dj: "x \<noteq> y" "x \<notin> set_tree l" "y \<notin> set_tree l" "x \<notin> path_set D" "y \<notin> path_set D" "x \<notin> set_tree N" "y \<notin> set_tree N"
    "x \<notin> path_set C" "y \<notin> path_set C" "set_tree l \<inter> path_set D = {}" "set_tree l \<inter> set_tree N = {}"
    "set_tree l \<inter> path_set C = {}" "path_set D \<inter> set_tree N = {}" "path_set D \<inter> path_set C = {}" "set_tree N \<inter> path_set C = {}"
    using d(1) unfolding path_set_lists by auto
  have same: "h' a = h a" if "a \<notin> {x, y, ?tl, q}" "a \<noteq> rright n" "C \<noteq> [] \<Longrightarrow> a \<noteq> up C" for a
    using that by (cases "C = []") (simp_all add: h' upd_apply place_mem_def n(3))
  have rn: "rright n \<noteq> x" "rright n \<noteq> y" "rright n \<notin> set_tree l" "C \<noteq> [] \<Longrightarrow> rright n \<noteq> up C" "rright n \<notin> path_set C"
    using n(4) e dj d(2) q uc by (auto split: if_split_asm)
  have gx: "g = x \<longleftrightarrow> D = []" using dj(4) up_path [of D] by (cases D rule: path_set.cases) (auto simp: g)
  have upP: "up (D @ (False, y, l) # C) = (if g = x then y else g)"
    using gx by (cases D rule: path_set.cases) (auto simp: g)
  have hq: "h' q = map_option (rparent_update (\<lambda>_. up (D @ (False, y, l) # C))) (h q)"
  proof -
    have "q \<noteq> x" "q \<noteq> y" "q \<noteq> ?tl" using q dj tl d(2) by auto
    moreover have "g = x" if "q = rright n" "q \<noteq> s"
      using that n(4) e q dj(13) gx by (auto split: if_split_asm)
    ultimately show ?thesis by (simp add: h' upd_apply place_mem_def n(3) upP)
  qed
  have path_C: "rep_path h' s y C"
  proof (cases C)
    case (Cons f C')
    obtain b c v where f: "f = (b, c, v)" by (cases f)
    have "rep_path h s x C" using rep_path_tail [OF rep(1)] by simp
    then show ?thesis
      unfolding Cons f
    proof (rule rep_path_hole [OF _ _ same_linksI])
      have cC: "c \<in> path_set C" "set_tree v \<union> path_set C' \<subseteq> path_set C" by (auto simp: Cons f)
      have c: "c \<notin> {x, y, ?tl, q}" "c \<noteq> rright n" using cC(1) dj tl q d(2) rn(5) by blast+
      have "distinct (lefts C @ rights C)" using d(1) by auto
      then have c': "c \<notin> set_tree v \<union> path_set C'" unfolding Cons f path_set_lists by (auto split: if_split_asm)
      show "h' c = map_option (set_child b y) (h c)"
        using c by (simp add: h' upd_apply place_mem_def n(3) Cons f)
      show "h' a = h a" if "a \<in> set_tree v \<union> path_set C'" for a
      proof (rule same)
        have "a \<in> path_set C" using that cC(2) by blast
        then show "a \<notin> {x, y, ?tl, q}" "a \<noteq> rright n" using dj tl q d(2) rn(5) by blast+
        show "a \<noteq> up C" using that c' by (auto simp: Cons f)
      qed
    qed
  qed simp
  have rep_l: "rep h' s y l"
  proof (rule rep_reparent)
    show "rep h s x l" using rep_path_tail [OF rep(1)] by simp
    show "h' (rtop s l) = map_option (rparent_update (\<lambda>_. y)) (h (rtop s l))"
      using tl dj by (auto simp: h' upd_apply place_mem_def n(3))
    show "same_links h h' (set_tree l - {rtop s l})"
      by (rule same_linksI, rule same) (use dj q d(2) rn uc in auto)
  qed (rule dl)
  have y: "\<exists>m. h' y = Some m \<and> rparent m = up C \<and> rleft m = rtop s l \<and> rright m = rright n"
    using n(2,3,5) dj(1) by (simp add: h' upd_apply place_mem_def)
  have "rep_path h' s (if D = [] then q else ?e) ((False, y, l) # C)"
    using path_C rep_l y n(4) by auto
  then have "rep_path h' s q (D @ (False, y, l) # C)"
  proof (rule rep_path_swap [OF rep(1) dl(3), rotated 2])
    show "h' ?e = map_option (rparent_update (\<lambda>_. y)) (h ?e)" if "D \<noteq> []"
    proof -
      have "?e \<notin> {x, y, s}" "?e \<noteq> ?tl" using e [OF that] dj tl d(2) by auto
      then show ?thesis using that n(4) by (simp add: h' upd_apply place_mem_def)
    qed
    show "same_links h h' (path_set D - {?e})"
      by (rule same_linksI, rule same) (use dj q d(2) tl uc n(4) in \<open>auto split: if_split_asm\<close>)
  qed
  moreover have "rep h' s (up (D @ (False, y, l) # C)) N"
  proof (rule rep_reparent [OF rep(2)])
    show "h' (rtop s N) = map_option (rparent_update (\<lambda>_. up (D @ (False, y, l) # C))) (h (rtop s N))"
      using hq rep(3) by simp
    show "same_links h h' (set_tree N - {rtop s N})"
      by (rule same_linksI, rule same) (use dj d(2) tl uc n(4) e rep(3) in \<open>auto split: if_split_asm\<close>)
  qed (rule dl)
  ultimately show ?thesis by simp
qed

lemma kept_fields [simp]:
  "rbtree_is_red (rparent_update f m) = rbtree_is_red m" "rbtree_is_red (set_child lft q m) = rbtree_is_red m"
  "rbtree_is_red (rbtree_node_init m) = rbtree_is_red m"
  "rkey (set_child lft q m) = rkey m" "rdata (set_child lft q m) = rdata m"
  by (simp_all add: set_child_def rbtree_node_init_def rbtree_is_red_def rbtree_is_black_def)

lemma if_map: "(if c then map_option f k else map_option g k) = map_option (if c then f else g) k"
  by simp

lemma place_mem_maps:
  "\<exists>f. place_mem s C x y q g n h a = map_option f (h a) \<and>
     (\<forall>m. rkey (f m) = rkey m \<and> rdata (f m) = rdata m \<and> rbtree_is_red (f m) = rbtree_is_red (if a = y then n else m))"
proof -
  have h: "h a = map_option (\<lambda>m. m) (h a)" by (simp add: option.map_ident)
  show ?thesis
    unfolding place_mem_def
    by (subst (5) h, unfold if_map, rule exI, rule conjI, rule refl) simp
qed

lemma place_mem_kept:
  "map_option (\<lambda>m. (rkey m, rdata m)) (place_mem s C x y q g n h a) = map_option (\<lambda>m. (rkey m, rdata m)) (h a)"
  "map_option rbtree_is_red (place_mem s C x y q g n h a) = (if a = y then map_option (\<lambda>_. rbtree_is_red n) (h a) else map_option rbtree_is_red (h a))"
  using place_mem_maps [of s C x y q g n h a] by (auto simp: option.map_comp comp_def)

lemma upd_red: "(\<And>m. rbtree_is_red (f m) = rbtree_is_red m) \<Longrightarrow> map_option rbtree_is_red (upd p f h a) = map_option rbtree_is_red (h a)"
  by (cases "h a") (auto simp: upd_apply)

lemma reds_iff: "a \<in> reds t \<longleftrightarrow> map_option rbtree_is_red (rmem t a) = Some True"
  by (auto simp: reds_def)

lemma replaced:
  assumes rb: "rb t (plug C (Node l x (plug D (Node Leaf y N))))" and l: "l \<noteq> Leaf"
  shows "\<exists>t1 t2 t3. cut_child t y (rtop (rsentinel t) N) = Some t1 \<and> take_place t1 x y (rtop (rsentinel t) N) = Some t2 \<and>
    rupd x rbtree_node_init t2 = Some t3 \<and> hole_at t3 (D @ (False, y, l) # C) N \<and> keeps_others x t t3 \<and>
    (\<forall>a. a \<in> reds t3 \<longleftrightarrow> (if a = y then x else a) \<in> reds t)"
proof -
  let ?s = "rsentinel t" and ?Q = "D @ (False, x, l) # C" and ?P = "D @ (False, y, l) # C"
  let ?q = "rtop ?s N" and ?T = "plug C (Node l x (plug D (Node Leaf y N)))"
  obtain lft p u E where P0: "?Q = (lft, p, u) # E" by (cases D) auto
  have T: "?T = plug ((lft, p, u) # E) (Node Leaf y N)" by (simp add: plug_append flip: P0)
  let ?h1 = "upd p (set_child lft ?q) (rmem t)"
  have d: "distinct (lefts C @ inorder l @ x # (lefts D @ y # inorder N @ rights D) @ rights C)"
    "?s \<notin> insert x (insert y (set_tree l \<union> path_set D \<union> set_tree N \<union> path_set C))"
    using rb by (auto simp: rb_def inorder_plug set_plug)
  have cut: "cut_child t y ?q = Some (t\<lparr>rmem := ?h1\<rparr>)" "rep_path ?h1 ?s ?q ?Q" "rep ?h1 ?s y N" "rb_parent t y = Some p"
    using cut [of t lft p u E Leaf y N] rb unfolding T P0 only_child_def by blast+
  have q: "?q = ?s \<and> N = Leaf \<or> ?q \<in> set_tree N \<and> N \<noteq> Leaf" by (cases N) auto
  have p: "p = up ?Q" "p \<in> insert x (path_set D)" using P0 by (cases D; auto)+
  have dj: "x \<noteq> y" "x \<notin> set_tree l" "y \<notin> set_tree l" "x \<notin> path_set D" "y \<notin> path_set D" "x \<notin> set_tree N" "y \<notin> set_tree N"
    "x \<notin> path_set C" "y \<notin> path_set C" "set_tree l \<inter> path_set D = {}" "set_tree l \<inter> set_tree N = {}"
    "set_tree l \<inter> path_set C = {}" "path_set D \<inter> set_tree N = {}" "path_set D \<inter> path_set C = {}" "set_tree N \<inter> path_set C = {}"
    using d(1) unfolding path_set_lists by auto
  let ?e = "fst (snd (last D))"
  have tail: "rep_path ?h1 ?s (if D = [] then ?q else ?e) ((False, x, l) # C)" using rep_path_tail [OF cut(2)] .
  then obtain n where n: "?h1 x = Some n" "rleft n = rtop ?s l" "rright n = (if D = [] then ?q else ?e)" "rparent n = up C"
    and rl: "rep ?h1 ?s x l" and rC: "rep_path ?h1 ?s x C" by (auto split: if_split_asm)
  have yp: "y \<noteq> p" using p(2) dj by auto
  obtain ny where ny: "?h1 y = Some ny" "rparent ny = p" using cut(4) yp by (auto simp: rb_parent_def upd_apply)
  have dom: "\<exists>m. ?h1 a = Some m" if "a \<in> insert ?s (path_set D \<union> set_tree N \<union> path_set C \<union> set_tree l)" for a
  proof -
    have "\<exists>m. rmem t a = Some m" using that rb_dom [OF rb, of a] rb by (auto simp: rb_def set_plug)
    then show ?thesis by (auto simp: upd_apply)
  qed
  have tl: "rtop ?s l \<in> set_tree l" using l by (cases l) auto
  have e: "D \<noteq> [] \<Longrightarrow> ?e \<in> path_set D" by (rule last_path)
  have uc: "C \<noteq> [] \<Longrightarrow> up C \<in> path_set C" by (rule up_path)
  let ?h2 = "place_mem ?s C x y ?q p n ?h1"
  let ?t2 = "t\<lparr>rmem := ?h2, rroot := (if C = [] then y else rroot t)\<rparr>"
  have run2: "take_place (t\<lparr>rmem := ?h1\<rparr>) x y ?q = Some ?t2"
  proof -
    obtain nq where "?h1 ?q = Some nq" using dom [of ?q] q by auto
    moreover obtain nl where "?h1 (rleft n) = Some nl" using dom [of "rleft n"] tl n(2) by auto
    moreover have "\<exists>nr. ?h1 (rright n) = Some nr" using dom [of "rright n"] n(3) q e by (auto split: if_split_asm)
    moreover have "rparent n = up C \<and> up C \<notin> {x, y, ?q, rleft n, rright n} \<and>
      (\<exists>nc. ?h1 (up C) = Some nc \<and> (x = rleft nc \<longleftrightarrow> fst (hd C)))" if "C \<noteq> []"
    proof -
      have "up C \<notin> {x, y, ?q, rleft n, rright n}"
        using uc [OF that] dj tl n(2,3) q e d(2) by (auto split: if_split_asm)
      moreover obtain b c v C' where C: "C = (b, c, v) # C'" using \<open>C \<noteq> []\<close> by (cases C rule: path_set.cases) auto
      then have "x \<noteq> rtop ?s v" using d(2) dj(8) by (cases v) auto
      then have "\<exists>nc. ?h1 (up C) = Some nc \<and> (x = rleft nc \<longleftrightarrow> fst (hd C))" using rC by (auto simp: C split: if_split_asm)
      ultimately show ?thesis using n(4) by blast
    qed
    moreover have "rroot t = x \<longleftrightarrow> C = []" using root_plug [OF rb] by auto
    moreover have "?q \<notin> {x, y}" "rleft n \<notin> {?s, x, y, ?q}" "rright n \<notin> {x, y, rleft n}"
      using dj tl n(2,3) q e d(2) by (auto split: if_split_asm)
    ultimately show ?thesis using take_place_run [of "t\<lparr>rmem := ?h1\<rparr>" x n y ny p ?q nq nl C] n(1) ny dj(1) by auto
  qed
  let ?h3 = "upd x rbtree_node_init ?h2"
  let ?t3 = "?t2\<lparr>rmem := ?h3\<rparr>"
  have "?h2 x \<noteq> None" using n(1) by (auto simp: place_mem_def)
  then have run3: "rupd x rbtree_node_init ?t2 = Some ?t3" using rupd_upd [of ?t2 x] by auto
  have rep3: "rep_path ?h3 ?s ?q ?P" "rep ?h3 ?s (up ?P) N"
    using replaced_rep [OF cut(2,3) refl l n(1) ny(1) n(2-4) d p(1) refl] by blast+
  have "rep ?h3 ?s NULL (plug ?P N)" using rep3 by (simp add: rep_plug)
  moreover have "inorder (plug ?P N) = lefts C @ inorder l @ y # (lefts D @ inorder N @ rights D) @ rights C"
    by (simp add: plug_append inorder_plug)
  then have "distinct (inorder (plug ?P N))" "set_tree (plug ?P N) \<subseteq> set_tree ?T"
    using d(1) arg_cong [of _ _ set] by (auto simp: set_plug plug_append)
  moreover have "\<exists>m. ?h3 ?s = Some m \<and> rbtree_is_black m \<and> rleft m = NULL \<and> rright m = NULL \<and> rkey m = - 1"
  proof -
    obtain m where m: "rmem t ?s = Some m" "rbtree_is_black m" "rleft m = NULL" "rright m = NULL" "rkey m = - 1"
      using rb by (auto simp: rb_def)
    have "?s \<notin> {x, y, rleft n, p}" "C \<noteq> [] \<Longrightarrow> ?s \<noteq> up C" using d(2) n(2) tl p(2) uc by auto
    then show ?thesis using m by (auto simp: upd_apply place_mem_def rbtree_is_black_def)
  qed
  moreover have "rroot ?t3 = rtop ?s (plug ?P N)"
    using rb by (cases C) (auto simp: rb_def plug_append rtop_plug)
  ultimately have rb3: "rb ?t3 (plug ?P N)" using rb by (auto simp: rb_def)
  moreover have "rb_parent ?t3 ?q = Some (up ?P)"
  proof -
    obtain nq where nq: "?h1 ?q = Some nq" using dom [of ?q] q by auto
    have ne: "?q \<notin> {x, y, rleft n}" using dj tl n(2) q d(2) by auto
    have px: "p = x \<longleftrightarrow> D = []" using P0 dj(4) by (cases D) auto
    have D: "D = []" if "?q = rright n" "?q \<noteq> ?s" using that n(3) e q dj(13) by (auto split: if_split_asm)
    have "up ?P = (if p = x then y else p)" using P0 px by (cases D) auto
    moreover have "?h2 ?q = Some (nq\<lparr>rparent := if p = x then y else p\<rparr>)"
      using nq ne D px by (cases "?q = rright n \<and> ?q \<noteq> ?s") (auto simp: place_mem_def)
    then have "rb_parent ?t3 ?q = Some (if p = x then y else p)"
      using ne by (simp add: rb_parent_def upd_apply [of x])
    ultimately show ?thesis by simp
  qed
  ultimately have "hole_at ?t3 ?P N" by (simp add: hole_at_def)
  moreover have "keeps_others x t ?t3"
    by (auto simp: keeps_others_def upd_apply place_mem_kept option.map_comp comp_def)
  moreover have "\<forall>a. a \<in> reds ?t3 \<longleftrightarrow> (if a = y then x else a) \<in> reds t"
  proof
    fix a
    have "map_option rbtree_is_red (rmem t x) = Some (rbtree_is_red n)"
      using n(1) upd_red [of "set_child lft ?q" p "rmem t" x] by simp
    moreover have "\<exists>m. ?h1 y = Some m" using ny by blast
    ultimately show "a \<in> reds ?t3 \<longleftrightarrow> (if a = y then x else a) \<in> reds t"
      by (auto simp: reds_iff upd_red place_mem_kept)
  qed
  ultimately show ?thesis using cut(1) run2 run3 by blast
qed

section \<open>Colours\<close>

text \<open>What is known of the colours when a node has been cut off under the path \<open>P\<close>.\<close>

definition cut_colours :: "ptr set \<Rightarrow> bool \<Rightarrow> path \<Rightarrow> ptr tree \<Rightarrow> bool" where
  "cut_colours R red P N \<longleftrightarrow> okh R N \<and> okc R N \<and> bh R N = 0 \<and> okhp R (if red then 0 else 1) P \<and> okcp R False P \<and>
     (red \<longrightarrow> \<not> redtop R N) \<and> fst (snd (last P)) \<notin> R"

lemma redtop_plug: "P \<noteq> [] \<Longrightarrow> redtop R (plug P N) \<longleftrightarrow> fst (snd (last P)) \<in> R"
proof -
  assume "P \<noteq> []"
  then have "plug P N \<noteq> Leaf" "rtop NULL (plug P N) = fst (snd (last P))" by (simp_all add: plug_eq_Leaf rtop_plug)
  then show ?thesis by (cases "plug P N") auto
qed

lemma cut_coloured:
  assumes "okh R (plug P (Node A y B))" "okc R (plug P (Node A y B))" "\<not> redtop R (plug P (Node A y B))" "P \<noteq> []"
    "only_child A B N"
  shows "cut_colours R (y \<in> R) P N"
  using assms by (auto simp: cut_colours_def okh_plug okc_plug redtop_plug only_child_def okcp_black)

lemma path_rename:
  assumes "same_col R' R (path_set D \<union> set_tree l \<union> path_set C)" "y \<in> R' \<longleftrightarrow> x \<in> R"
  shows "okhp R' b (D @ (d, y, l) # C) = okhp R b (D @ (d, x, l) # C)"
    "okcp R' e (D @ (d, y, l) # C) = okcp R e (D @ (d, x, l) # C)"
  using assms
proof (induction D arbitrary: b e)
  case Nil
  {
    case 1
    then show ?case by (simp add: okh_cong [of R' R] bh_cong [of R' R] okhp_cong [of R' R])
  next
    case 2
    then show ?case by (simp add: okc_cong [of R' R] redtop_cong [of R' R] okcp_cong [of R' R])
  }
next
  case (Cons f D)
  obtain df a u where f: "f = (df, a, u)" by (cases f)
  {
    case 1
    then show ?case using Cons.IH(1) by (simp add: f okh_cong [of R' R] bh_cong [of R' R])
  next
    case 2
    then show ?case using Cons.IH(2) by (simp add: f okc_cong [of R' R] redtop_cong [of R' R])
  }
qed

lemma cut_colours_rename:
  assumes "cut_colours R red (D @ (d, x, l) # C) N" "same_col R' R (path_set D \<union> set_tree l \<union> path_set C \<union> set_tree N)"
    "y \<in> R' \<longleftrightarrow> x \<in> R"
  shows "cut_colours R' red (D @ (d, y, l) # C) N"
proof -
  have "fst (snd (last (D @ (d, y, l) # C))) \<in> R' \<longleftrightarrow> fst (snd (last (D @ (d, x, l) # C))) \<in> R"
    using assms(2,3) last_path [of C] by (cases "C = []") (auto simp: same_col_def)
  then show ?thesis
    using assms unfolding cut_colours_def
    by (simp add: path_rename [of R' R D l C y x] okh_cong [of R' R N] okc_cong [of R' R N] bh_cong [of R' R N] redtop_cong [of R' R N])
qed

text \<open>The end of \<open>rbtree_delete\<close>.\<close>

lemma delete_ends:
  assumes at: "hole_at t P N" and c: "cut_colours (reds t) red P N" and P: "P \<noteq> []"
  shows "\<exists>t'. (if red then Some t else delete_fixup t (rtop (rsentinel t) N)) = Some t' \<and> repaired t (plug P N) t'"
proof (cases red)
  case True
  then show ?thesis using hole_at_rb [OF at] c P
    by (auto simp: repaired_def cut_colours_def okh_plug okc_plug redtop_plug intro!: exI [of _ "plug P N"])
next
  case False
  have "okc (reds t - {rtop NULL N}) N"
  proof -
    have "distinct (inorder N)" using hole_at_rb [OF at] by (simp add: rb_def inorder_plug)
    then show ?thesis using blacken_root_ok [of "reds t" N NULL] c by (simp add: cut_colours_def)
  qed
  then have "hole (reds t) P N" using c False by (simp add: hole_def cut_colours_def)
  then show ?thesis using fixup_balances [OF at] False P by (simp add: plug_eq_Leaf)
qed

section \<open>Deletion\<close>

lemma sorted_without:
  assumes "sorted (map f (xs @ x # ys))"
  shows "sorted (map f (xs @ ys))"
  using assms by (auto simp: sorted_append)

text \<open>The path to the first node.\<close>

lemma leftmost:
  "r \<noteq> Leaf \<Longrightarrow> \<exists>D N. r = plug D (Node Leaf (hd (inorder r)) N) \<and> lefts D = []"
proof (induction r)
  case (Node l a r)
  show ?case
  proof (cases "l = Leaf")
    case True
    then show ?thesis by (intro exI [of _ "[]"]) simp
  next
    case False
    then obtain D N where "l = plug D (Node Leaf (hd (inorder l)) N)" "lefts D = []" using Node.IH(1) by blast
    then show ?thesis using False
      by (intro exI [of _ "D @ [(True, a, r)]"] exI [of _ N]) (auto simp: plug_append lefts_append hd_append)
  qed
qed simp

text \<open>A node that is not the root with at most one child.\<close>

lemma repaired_rbt:
  assumes "rbt t T" "inorder T = xs @ x # ys" "keeps_others x t t1" "repaired t1 T1 t'" "inorder T1 = xs @ ys"
  shows "\<exists>T'. rbt t' T' \<and> inorder T' = xs @ ys \<and> keeps_others x t t'"
proof -
  obtain T' where T': "rb t' T'" "keeps_nodes t1 t'" "inorder T' = inorder T1" "okh (reds t') T'" "okc (reds t') T'" "\<not> redtop (reds t') T'"
    using assms(4) by (auto simp: repaired_def)
  have k: "keeps_others x t t'" by (rule keeps_others_trans [OF assms(3) T'(2)])
  have "distinct (xs @ x # ys)" "sorted (map (keyof t) (xs @ x # ys))"
    using assms(1,2) by (auto simp: rbt_def rb_def ordered_def)
  then have o: "sorted (map (keyof t) (xs @ ys))" and x: "x \<notin> set (xs @ ys)" using sorted_without by auto
  have "keyof t' a = keyof t a" if "a \<in> set (xs @ ys)" for a
    using that x keeps_others_keyof [OF k, of a] by blast
  then have "map (keyof t') (xs @ ys) = map (keyof t) (xs @ ys)" by (rule map_cong [OF refl])
  then have "ordered t' T'" using o by (simp only: ordered_def T'(3) assms(5))
  then show ?thesis using T' k assms(5) by (auto simp: rbt_def)
qed

lemma delete_inner:
  assumes rbt: "rbt t (plug ((lft, p, u) # C) (Node l x r))" and N: "only_child l r N"
  shows "\<exists>t' T'. rbtree_delete t x = Some t' \<and> rbt t' T' \<and>
    inorder T' = lefts ((lft, p, u) # C) @ inorder l @ inorder r @ rights ((lft, p, u) # C) \<and> keeps_others x t t'"
proof -
  let ?P = "(lft, p, u) # C" and ?s = "rsentinel t"
  let ?T = "plug ?P (Node l x r)"
  have rb: "rb t ?T" using rbt by (simp add: rbt_def)
  obtain t1 t2 t3 where 1: "cut_child t x (rtop ?s N) = Some t1" "rb_parent t1 x = Some p"
    "rupd (rtop ?s N) (rparent_update (\<lambda>_. p)) t1 = Some t2" "rupd x rbtree_node_init t2 = Some t3"
    "hole_at t3 ?P N" "keeps_others x t t3" "reds t3 = reds t"
    using detach [OF rb N] by blast
  obtain n where n: "rmem t x = Some n" "rleft n = rtop ?s l" "rright n = rtop ?s r"
    using rb by (auto simp: rb_def rep_plug simp del: plug.simps)
  have ne: "x \<noteq> ?s" "x \<noteq> rroot t" "?s \<notin> set_tree l" "?s \<notin> set_tree r"
    using rb root_plug [OF rb] by (auto simp: rb_def set_plug simp del: plug.simps)
  have sub: "(if rleft n = ?s then Some (rright n, x) else if rright n = ?s then Some (rleft n, x) else m) = Some (rtop ?s N, x)" for m
    using N n rtop_sentinel [OF ne(3)] rtop_sentinel [OF ne(4)] by (auto simp: only_child_def)
  have c: "cut_colours (reds t3) (x \<in> reds t) ?P N"
    using rbt N 1(7) cut_coloured [of "reds t" ?P l x r N] by (auto simp: rbt_def simp del: plug.simps)
  have s3: "rsentinel t3 = ?s" using 1(6) by (simp add: keeps_others_def)
  obtain t' where t': "(if x \<in> reds t then Some t3 else delete_fixup t3 (rtop ?s N)) = Some t'" "repaired t3 (plug ?P N) t'"
    using delete_ends [OF 1(5) c, unfolded s3] by blast
  have "rb_red t x = Some (x \<in> reds t)" using n(1) by (simp add: rb_red_def reds_def)
  then have run: "rbtree_delete t x = Some t'"
    unfolding rbtree_delete_def using ne n(1) sub 1(1-4) t'(1) by (simp del: if_split_asm)
  have "inorder (plug ?P N) = lefts ?P @ (inorder l @ inorder r) @ rights ?P" using N by (auto simp: inorder_plug only_child_def simp del: plug.simps)
  then show ?thesis using run
      repaired_rbt [OF rbt _ 1(6) t'(2), of "lefts ?P @ inorder l" "inorder r @ rights ?P"] by (simp add: inorder_plug del: plug.simps)
qed

lemma delete_replaced:
  assumes rbt: "rbt t (plug C (Node l x r))" and lr: "l \<noteq> Leaf" "r \<noteq> Leaf"
  shows "\<exists>t' T'. rbtree_delete t x = Some t' \<and> rbt t' T' \<and>
    inorder T' = lefts C @ inorder l @ inorder r @ rights C \<and> keeps_others x t t'"
proof -
  let ?s = "rsentinel t" and ?T = "plug C (Node l x r)"
  have rb: "rb t ?T" using rbt by (simp add: rbt_def)
  have s: "?s \<notin> set_tree l" "?s \<notin> set_tree r" "x \<noteq> ?s" "rep (rmem t) ?s x r" using rb by (auto simp: rb_def set_plug rep_plug)
  define y where "y = hd (inorder r)"
  obtain D N where r: "r = plug D (Node Leaf y N)" "lefts D = []" using leftmost [OF lr(2)] by (auto simp: y_def)
  let ?P = "D @ (False, y, l) # C" and ?Q = "D @ (False, x, l) # C"
  have rb': "rb t (plug C (Node l x (plug D (Node Leaf y N))))" using rb by (simp add: r(1))
  obtain t1 t2 t3 where 1: "cut_child t y (rtop ?s N) = Some t1" "take_place t1 x y (rtop ?s N) = Some t2"
    "rupd x rbtree_node_init t2 = Some t3" "hole_at t3 ?P N" "keeps_others x t t3"
    "\<And>a. a \<in> reds t3 \<longleftrightarrow> (if a = y then x else a) \<in> reds t"
    using replaced [OF rb' lr(1)] by blast
  have T: "?T = plug ?Q (Node Leaf y N)" by (simp add: plug_append r(1))
  obtain n where n: "rmem t x = Some n" "rleft n = rtop ?s l" "rright n = rtop ?s r"
    using rb by (auto simp: rb_def rep_plug)
  have d: "distinct (lefts C @ inorder l @ x # (lefts D @ y # inorder N @ rights D) @ rights C)"
    using rb' by (simp add: rb_def inorder_plug)
  have y: "x \<noteq> y" "y \<noteq> rroot t" using d root_plug [OF rb [unfolded T]] by auto
  obtain m where m: "rmem t y = Some m" "rright m = rtop ?s N" using rb unfolding T by (auto simp: rb_def rep_plug simp del: plug.simps)
  have min: "rbtree_node_min t (rright n) = Some y" using node_min [OF s(4) lr(2) s(2)] by (simp add: n(3) y_def)
  have sub: "rleft n \<noteq> ?s" "rright n \<noteq> ?s" using n lr rtop_sentinel s(1,2) by auto
  have c: "cut_colours (reds t) (y \<in> reds t) ?Q N"
    using rbt cut_coloured [of "reds t" ?Q Leaf y N N] by (simp add: rbt_def T only_child_def del: plug.simps)
  have c': "cut_colours (reds t3) (y \<in> reds t) ?P N"
    by (rule cut_colours_rename [OF c]) (use 1(6) d in \<open>auto simp: same_col_def path_set_lists\<close>)
  have s3: "rsentinel t3 = ?s" using 1(5) by (simp add: keeps_others_def)
  obtain t' where t': "(if y \<in> reds t then Some t3 else delete_fixup t3 (rtop ?s N)) = Some t'" "repaired t3 (plug ?P N) t'"
    using delete_ends [OF 1(4) c', unfolded s3] by blast
  have "rb_red t y = Some (y \<in> reds t)" using m(1) by (simp add: rb_red_def reds_def)
  then have run: "rbtree_delete t x = Some t'"
    unfolding rbtree_delete_def using s(3) n(1) sub min m y 1(1-3) t'(1) by (simp del: if_split_asm)
  have "inorder (plug ?P N) = (lefts C @ inorder l) @ inorder r @ rights C" by (simp add: r inorder_plug plug_append)
  then show ?thesis using run
      repaired_rbt [OF rbt _ 1(5) t'(2), of "lefts C @ inorder l" "inorder r @ rights C"] by (simp add: inorder_plug)
qed

text \<open>A root with at most one child. The child becomes the root and keeps its parent pointer.\<close>

definition clear_root :: "rbtree \<Rightarrow> rbtree" where
  "clear_root t = t\<lparr>rmem := upd (rroot t) (rparent_update (\<lambda>_. NULL)) (rmem t)\<rparr>"

lemma only_child_of_root:
  assumes "okh R (Node l x r)" "okc R (Node l x r)" "only_child l r N"
  shows "N = Leaf \<or> (\<exists>b. N = Node Leaf b Leaf \<and> b \<in> R)"
proof (cases N)
  case (Node A b B)
  have N: "okh R N" "okc R N" "bh R N = 0" using assms by (auto simp: only_child_def)
  then have b: "b \<in> R" "bh R A = 0" "bh R B = 0" "\<not> redtop R A" "\<not> redtop R B" by (auto simp: Node split: if_split_asm)
  then have "A = Leaf" "B = Leaf" by (cases A; cases B; auto split: if_split_asm)+
  then show ?thesis using b(1) Node by simp
qed simp

lemma delete_root:
  assumes rbt: "rbt t (Node l x r)" and N: "only_child l r N"
  shows "\<exists>t'. rbtree_delete t x = Some t' \<and> keeps_others x t t' \<and>
    (if N = Leaf then rbt t' Leaf else rb_parent t' (rroot t') = Some x \<and> rbt (clear_root t') N)"
proof -
  let ?s = "rsentinel t"
  have rb: "rb t (Node l x r)" and ok: "okh (reds t) (Node l x r)" "okc (reds t) (Node l x r)" using rbt by (auto simp: rbt_def)
  obtain n where n: "rmem t x = Some n" "rleft n = rtop ?s l" "rright n = rtop ?s r" using rb by (auto simp: rb_def)
  have ne: "x \<noteq> ?s" "rroot t = x" "?s \<notin> set_tree l" "?s \<notin> set_tree r" using rb by (auto simp: rb_def)
  have sub: "(if rleft n = ?s then Some (rright n, x) else if rright n = ?s then Some (rleft n, x) else m) = Some (rtop ?s N, x)" for m
    using N n rtop_sentinel [OF ne(3)] rtop_sentinel [OF ne(4)] by (auto simp: only_child_def)
  let ?h1 = "upd (rtop ?s N) rbtree_black (rmem t)"
  let ?t' = "t\<lparr>rroot := rtop ?s N, rmem := upd x rbtree_node_init ?h1\<rparr>"
  have q: "rtop ?s N \<noteq> x" "\<exists>nq. rmem t (rtop ?s N) = Some nq"
  proof -
    have "rtop ?s N \<in> insert ?s (set_tree l \<union> set_tree r)" using N by (cases N) (auto simp: only_child_def)
    then show "rtop ?s N \<noteq> x" "\<exists>nq. rmem t (rtop ?s N) = Some nq"
      using rb rb_dom [OF rb, of "rtop ?s N"] by (auto simp: rb_def)
  qed
  have "rupd (rtop ?s N) rbtree_black (t\<lparr>rroot := rtop ?s N\<rparr>) = Some (t\<lparr>rroot := rtop ?s N, rmem := ?h1\<rparr>)"
    using q(2) rupd_upd [of "t\<lparr>rroot := rtop ?s N\<rparr>"] by auto
  moreover have "rupd x rbtree_node_init (t\<lparr>rroot := rtop ?s N, rmem := ?h1\<rparr>) = Some ?t'"
    using n(1) q(1) rupd_upd [of "t\<lparr>rroot := rtop ?s N, rmem := ?h1\<rparr>" x n] by (simp add: upd_apply)
  ultimately have run: "rbtree_delete t x = Some ?t'"
    unfolding rbtree_delete_def using ne(1,2) n(1) sub by (simp del: if_split_asm)
  have keep: "keeps_others x t ?t'"
    by (auto simp: keeps_others_def upd_apply option.map_comp comp_def)
  obtain m where m: "rmem t ?s = Some m" "rbtree_is_black m" "rleft m = NULL" "rright m = NULL" "rkey m = - 1"
    using rb by (auto simp: rb_def)
  have black: "rbtree_is_black (rbtree_black k)" "rleft (rbtree_black k) = rleft k" "rright (rbtree_black k) = rright k"
    "rparent (rbtree_black k) = rparent k" for k
    using is_red_black(1) [of k] by (simp_all add: rbtree_is_red_def) (simp_all add: rbtree_black_def)
  show ?thesis
  proof (cases "N = Leaf")
    case True
    then have "rbt ?t' Leaf" using rb m ne(1) black by (auto simp: rbt_def rb_def ordered_def upd_apply)
    then show ?thesis using run keep True by auto
  next
    case False
    then obtain b where b: "N = Node Leaf b Leaf" using only_child_of_root [OF ok N] by auto
    obtain nb where nb: "rmem t b = Some nb" "rparent nb = x" "rleft nb = ?s" "rright nb = ?s"
      using rb N b by (auto simp: rb_def only_child_def)
    have bs: "b \<noteq> ?s" "b \<noteq> x" "b \<noteq> NULL" using rb N b by (auto simp: rb_def only_child_def)
    have "rb_parent ?t' (rroot ?t') = Some x" using nb bs b black by (simp add: rb_parent_def upd_apply)
    moreover have "rb (clear_root ?t') N"
      using rb m nb bs b ne(1) black by (auto simp: rb_def clear_root_def upd_apply)
    moreover have "b \<notin> reds (clear_root ?t')" using nb bs b by (auto simp: reds_def clear_root_def upd_apply)
    ultimately have "rb_parent ?t' (rroot ?t') = Some x \<and> rbt (clear_root ?t') N" by (auto simp: rbt_def b ordered_def)
    then show ?thesis using run keep False by auto
  qed
qed

section \<open>Properties\<close>

text \<open>A tree of two nodes, for the example.\<close>

definition ex_pair :: rbtree where
  "ex_pair = \<lparr>rroot = 2, rsentinel = 1, rmem =
     [1 \<mapsto> \<lparr>rparent = 0, rright = 0, rleft = 0, rkey = - 1, rtype = 1, rdata = 0\<rparr>,
      2 \<mapsto> \<lparr>rparent = 0, rright = 3, rleft = 1, rkey = 5, rtype = 1, rdata = 0\<rparr>,
      3 \<mapsto> \<lparr>rparent = 2, rright = 1, rleft = 1, rkey = 7, rtype = 0, rdata = 0\<rparr>]\<rparr>"

text \<open>C10: Deletion goes through: it takes the node, and nothing else, out of the order, the other nodes keep keys and data, and
  a red-black search tree is left. Only when the root is deleted with one other node in the tree, that node, the new
  root, keeps the deleted node as its parent.\<close>

theorem delete_removes:
  assumes "rbt t T" "inorder T = xs @ x # ys"
  shows "\<exists>t' T'. rbtree_delete t x = Some t' \<and> inorder T' = xs @ ys \<and> keeps_others x t t' \<and>
    (if x = rroot t \<and> size T = 2 then rb_parent t' (rroot t') = Some x \<and> rbt (clear_root t') T' else rbt t' T')"
proof -
  have "x \<in> set_tree T" using arg_cong [OF assms(2), of set] by simp
  then obtain C l r where T: "T = plug C (Node l x r)" using node_path by blast
  have rb: "rb t T" using assms(1) by (simp add: rbt_def)
  have "distinct ((lefts C @ inorder l) @ x # inorder r @ rights C)" using rb by (simp add: rb_def T inorder_plug)
  then have "x \<notin> set (lefts C @ inorder l)" "x \<notin> set (inorder r @ rights C)" by auto
  moreover have "(lefts C @ inorder l) @ x # inorder r @ rights C = xs @ x # ys" using assms(2) by (simp add: T inorder_plug)
  ultimately have io: "lefts C @ inorder l = xs" "inorder r @ rights C = ys"
    using append_Cons_eq_iff [of x "lefts C @ inorder l" "inorder r @ rights C" xs ys] by blast+
  have io': "lefts C @ inorder l @ inorder r @ rights C = xs @ ys" unfolding io [symmetric] by simp
  have root: "x = rroot t \<longleftrightarrow> C = []" using root_plug [OF rb [unfolded T]] .
  show ?thesis
  proof (cases "l \<noteq> Leaf \<and> r \<noteq> Leaf")
    case True
    then have "\<not> (x = rroot t \<and> size T = 2)" using root T by (cases l; cases r) auto
    then show ?thesis using delete_replaced [OF assms(1) [unfolded T]] True unfolding io' by auto
  next
    case False
    then obtain N where N: "only_child l r N" by (auto simp: only_child_def)
    show ?thesis
    proof (cases C rule: path_set.cases)
      case 1
      have ok: "okh (reds t) (Node l x r)" "okc (reds t) (Node l x r)" using assms(1) 1 by (auto simp: rbt_def T)
      have "inorder N = xs @ ys" "size T = Suc (size N)" using N io 1 by (auto simp: only_child_def T)
      moreover obtain t' where "rbtree_delete t x = Some t'" "keeps_others x t t'"
        "if N = Leaf then rbt t' Leaf else rb_parent t' (rroot t') = Some x \<and> rbt (clear_root t') N"
        using delete_root [OF _ N, of t x] assms(1) 1 by (auto simp: T simp del: if_split_asm)
      ultimately show ?thesis
        using only_child_of_root [OF ok N] root 1 by (intro exI [of _ t'] exI [of _ N]) auto
    next
      case (2 lft p u C')
      then have "x \<noteq> rroot t" using root by simp
      then show ?thesis using delete_inner [OF _ N, of t lft p u C' x] assms(1) io' 2 by (auto simp: T)
    qed
  qed
qed

theorem delete_removes_witness:
  "(\<exists>t' T'. rbtree_delete ex_tree 3 = Some t' \<and> inorder T' = [2, 4] \<and> rbt t' T') \<and>
   (\<exists>t' T'. rbtree_delete ex_pair 2 = Some t' \<and> inorder T' = [3] \<and> rb_parent t' (rroot t') = Some 2 \<and> rbt (clear_root t') T')"
proof
  have "rroot ex_tree = 3" "size ex_shape \<noteq> 2" by (simp_all add: ex_tree_def ex_shape_def)
  then show "\<exists>t' T'. rbtree_delete ex_tree 3 = Some t' \<and> inorder T' = [2, 4] \<and> rbt t' T'"
    using delete_removes [OF ex_rbt, of "[2]" 3 "[4]"] by (auto simp: ex_shape_def)
  have "rbt ex_pair (Node Leaf 2 (Node Leaf 3 Leaf))"
    by (auto simp: rbt_def rb_def ex_pair_def ordered_def keyof_def reds_def rbtree_is_red_def rbtree_is_black_def RB_COLORMASK_def)
  moreover have "rroot ex_pair = 2" by (simp add: ex_pair_def)
  ultimately
  show "\<exists>t' T'. rbtree_delete ex_pair 2 = Some t' \<and> inorder T' = [3] \<and> rb_parent t' (rroot t') = Some 2 \<and> rbt (clear_root t') T'"
    using delete_removes [of ex_pair "Node Leaf 2 (Node Leaf 3 Leaf)" "[]" 2 "[3]"] by auto
qed

end
