(* ===== verification/Spsc_Buffer.thy ===== *)
theory Spsc_Buffer
  imports Prelude
begin

text \<open>
  The single-producer single-consumer buffer of \<^verbatim>\<open>ksid/spsc_buffer.h\<close>, step by step
  between the accesses to the shared counters and cells. A cell holds one datum of
  \<open>dataSize\<close> bytes; copying to or from a place outside the buffer is undefined behaviour.
\<close>

section \<open>Operations\<close>

record 'a spsc_buffer =
  bhead :: uint64
  btail :: uint64
  buffer :: "'a list"

text \<open>The cells are not initialised: \<open>junk\<close> is what they hold.\<close>

definition ksiSPSCBufferAlloc :: "'a list \<Rightarrow> 'a spsc_buffer" where
  "ksiSPSCBufferAlloc junk = \<lparr>bhead = 0, btail = 0, buffer = junk\<rparr>"

text \<open>Where a call is: with the value of \<open>_head\<close> or \<open>_tail\<close> read, or done with its result.\<close>

datatype 'a buffer_push_pc = PushStart | PushHead uint64 | PushCopy uint64 | PushStore uint64 | PushDone int

definition buffer_push_step :: "nat \<Rightarrow> 'a \<Rightarrow> 'a buffer_push_pc \<Rightarrow> 'a spsc_buffer \<Rightarrow> ('a buffer_push_pc \<times> 'a spsc_buffer) option" where
  "buffer_push_step bufferSize data pc s =
     (case pc of
        PushStart \<Rightarrow> Some (PushHead (bhead s), s)
      | PushHead h \<Rightarrow> Some (if h \<ge> btail s + of_nat bufferSize then PushDone (- 1) else PushCopy h, s)
      | PushCopy h \<Rightarrow> do { b \<leftarrow> set_at (buffer s) (uint h) data; Some (PushStore h, s\<lparr>buffer := b\<rparr>) }
      | PushStore h \<Rightarrow> Some (PushDone 0, s\<lparr>bhead := h + 1\<rparr>)
      | PushDone r \<Rightarrow> None)"

datatype 'a buffer_pop_pc = PopStart | PopHead uint64 | PopCopy uint64 | PopStore uint64 'a | PopDone "'a option"

text \<open>The result is the datum copied, or \<^const>\<open>None\<close> for \<open>- 1\<close>.\<close>

definition buffer_pop_step :: "'a buffer_pop_pc \<Rightarrow> 'a spsc_buffer \<Rightarrow> ('a buffer_pop_pc \<times> 'a spsc_buffer) option" where
  "buffer_pop_step pc s =
     (case pc of
        PopStart \<Rightarrow> Some (PopHead (bhead s), s)
      | PopHead h \<Rightarrow> Some (if h \<le> btail s then PopDone None else PopCopy (btail s), s)
      | PopCopy t \<Rightarrow> do { d \<leftarrow> get_at (buffer s) (uint t); Some (PopStore t d, s) }
      | PopStore t d \<Rightarrow> Some (PopDone (Some d), s\<lparr>btail := t + 1\<rparr>)
      | PopDone r \<Rightarrow> None)"

section \<open>Runs\<close>

text \<open>A producer and a consumer that make one call after the other. \<open>sent\<close> and \<open>got\<close> are the data of
  the calls that returned 0.\<close>

record 'a sbuf_run =
  sbuf :: "'a spsc_buffer"
  pushing :: "('a \<times> 'a buffer_push_pc) option"
  popping :: "'a buffer_pop_pc option"
  sent :: "'a list"
  got :: "'a list"

datatype 'a sbuf_event = BeginPush 'a | BeginPop | Produce | Consume

definition sbuf_do :: "nat \<Rightarrow> 'a sbuf_event \<Rightarrow> 'a sbuf_run \<Rightarrow> 'a sbuf_run option" where
  "sbuf_do n ev r =
     (case ev of
        BeginPush d \<Rightarrow> do { need (pushing r = None); Some (r\<lparr>pushing := Some (d, PushStart)\<rparr>) }
      | BeginPop \<Rightarrow> do { need (popping r = None); Some (r\<lparr>popping := Some PopStart\<rparr>) }
      | Produce \<Rightarrow> do {
          (d, pc) \<leftarrow> pushing r;
          (pc, s) \<leftarrow> buffer_push_step n d pc (sbuf r);
          Some (r\<lparr>sbuf := s, pushing := (case pc of PushDone x \<Rightarrow> None | _ \<Rightarrow> Some (d, pc)),
                  sent := (if pc = PushDone 0 then sent r @ [d] else sent r)\<rparr>)
        }
      | Consume \<Rightarrow> do {
          pc \<leftarrow> popping r;
          (pc, s) \<leftarrow> buffer_pop_step pc (sbuf r);
          Some (r\<lparr>sbuf := s, popping := (case pc of PopDone x \<Rightarrow> None | _ \<Rightarrow> Some pc),
                  got := (case pc of PopDone (Some d) \<Rightarrow> got r @ [d] | _ \<Rightarrow> got r)\<rparr>)
        })"

fun sbuf_steps :: "nat \<Rightarrow> 'a sbuf_event list \<Rightarrow> 'a sbuf_run \<Rightarrow> 'a sbuf_run option" where
  "sbuf_steps n [] r = Some r"
| "sbuf_steps n (ev # evs) r = do { r \<leftarrow> sbuf_do n ev r; sbuf_steps n evs r }"

definition sbuf_start :: "'a list \<Rightarrow> 'a sbuf_run" where
  "sbuf_start junk = \<lparr>sbuf = ksiSPSCBufferAlloc junk, pushing = None, popping = None, sent = [], got = []\<rparr>"

section \<open>What holds in every interleaving\<close>

definition push_ok :: "nat \<Rightarrow> uint64 \<Rightarrow> 'a list \<Rightarrow> nat \<Rightarrow> ('a \<times> 'a buffer_push_pc) option \<Rightarrow> bool" where
  "push_ok n head cells k p \<longleftrightarrow>
     (case p of None \<Rightarrow> True
      | Some (d, pc) \<Rightarrow>
          (case pc of PushStart \<Rightarrow> True
           | PushHead h \<Rightarrow> h = head
           | PushCopy h \<Rightarrow> h = head
           | PushStore h \<Rightarrow> h = head \<and> k < n \<and> cells ! k = d
           | PushDone x \<Rightarrow> False))"

definition pop_ok :: "uint64 \<Rightarrow> 'a list \<Rightarrow> nat \<Rightarrow> 'a buffer_pop_pc option \<Rightarrow> bool" where
  "pop_ok tail xs k p \<longleftrightarrow>
     (case p of None \<Rightarrow> True
      | Some pc \<Rightarrow>
          (case pc of PopStart \<Rightarrow> True
           | PopHead h \<Rightarrow> unat h \<le> length xs
           | PopCopy t \<Rightarrow> t = tail \<and> k < length xs
           | PopStore t d \<Rightarrow> t = tail \<and> k < length xs \<and> d = xs ! k
           | PopDone x \<Rightarrow> False))"

lemma push_ok_simps [simp]:
  "push_ok n h c k None" "push_ok n h c k (Some (d, PushStart))" "push_ok n h c k (Some (d, PushHead g)) \<longleftrightarrow> g = h"
  "push_ok n h c k (Some (d, PushCopy g)) \<longleftrightarrow> g = h"
  "push_ok n h c k (Some (d, PushStore g)) \<longleftrightarrow> g = h \<and> k < n \<and> c ! k = d" "\<not> push_ok n h c k (Some (d, PushDone x))"
  by (simp_all add: push_ok_def)

lemma pop_ok_simps [simp]:
  "pop_ok t xs k None" "pop_ok t xs k (Some PopStart)" "pop_ok t xs k (Some (PopHead h)) \<longleftrightarrow> unat h \<le> length xs"
  "pop_ok t xs k (Some (PopCopy u)) \<longleftrightarrow> u = t \<and> k < length xs"
  "pop_ok t xs k (Some (PopStore u d)) \<longleftrightarrow> u = t \<and> k < length xs \<and> d = xs ! k" "\<not> pop_ok t xs k (Some (PopDone x))"
  by (simp_all add: pop_ok_def)

lemma pop_ok_longer: "pop_ok t xs k p \<Longrightarrow> pop_ok t (xs @ ys) k p"
  by (cases p rule: option.exhaust; cases "the p") (auto simp: nth_append)

definition sbuf_inv :: "nat \<Rightarrow> 'a sbuf_run \<Rightarrow> bool" where
  "sbuf_inv n r \<longleftrightarrow>
     length (buffer (sbuf r)) = n \<and> length (sent r) \<le> n \<and> length (got r) \<le> length (sent r) \<and>
     unat (bhead (sbuf r)) = length (sent r) \<and> unat (btail (sbuf r)) = length (got r) \<and>
     take (length (sent r)) (buffer (sbuf r)) = sent r \<and> got r = take (length (got r)) (sent r) \<and>
     push_ok n (bhead (sbuf r)) (buffer (sbuf r)) (length (sent r)) (pushing r) \<and>
     pop_ok (btail (sbuf r)) (sent r) (length (got r)) (popping r)"

lemma sbuf_start_inv: "sbuf_inv (length junk) (sbuf_start junk)"
  by (simp add: sbuf_inv_def sbuf_start_def ksiSPSCBufferAlloc_def)

lemma unat_Suc: "unat (w :: uint64) < 2 ^ 63 \<Longrightarrow> unat (w + 1) = Suc (unat w)"
  by (subst unat_plus_simple [THEN iffD1]) (auto simp: no_olen_add_nat)

lemma take_write: "length xs = n \<Longrightarrow> k < n \<Longrightarrow> take k (xs[k := d]) = take k xs"
  by simp

lemma take_nth: "take k xs = ys \<Longrightarrow> k < length xs \<Longrightarrow> take (Suc k) xs = ys @ [xs ! k]"
  by (simp add: take_Suc_conv_app_nth)

lemma produce_inv:
  assumes "sbuf_inv n r" "sbuf_do n Produce r = Some r'" "n < 2 ^ 63"
  shows "sbuf_inv n r'"
proof -
  obtain d pc where p: "pushing r = Some (d, pc)" using assms(2) by (auto simp: sbuf_do_def bind_eq_Some_conv)
  have i: "uint (bhead (sbuf r)) = int (length (sent r))" using assms(1) by (simp add: sbuf_inv_def flip: uint_nat) (metis uint_nat)
  show ?thesis
  proof (cases pc)
    case PushStart
    then show ?thesis using assms p by (auto simp: sbuf_do_def buffer_push_step_def sbuf_inv_def)
  next
    case (PushHead h)
    then show ?thesis using assms p by (auto simp: sbuf_do_def buffer_push_step_def sbuf_inv_def split: if_split_asm)
  next
    case (PushCopy h)
    then show ?thesis using assms p i
      by (auto simp: sbuf_do_def buffer_push_step_def sbuf_inv_def set_at_def bind_eq_Some_conv split: if_split_asm)
  next
    case (PushStore h)
    let ?k = "length (sent r)"
    have h: "h = bhead (sbuf r)" "?k < n" "buffer (sbuf r) ! ?k = d" "unat (bhead (sbuf r)) = ?k"
      "take ?k (buffer (sbuf r)) = sent r" "length (buffer (sbuf r)) = n"
      using assms(1) p PushStore by (simp_all add: sbuf_inv_def)
    have "unat (bhead (sbuf r) + 1) = Suc ?k" using h assms(3) by (subst unat_Suc) simp_all
    moreover have "take (Suc ?k) (buffer (sbuf r)) = sent r @ [d]" using take_nth [OF h(5)] h by simp
    moreover have "r' = r\<lparr>sbuf := (sbuf r)\<lparr>bhead := h + 1\<rparr>, pushing := None, sent := sent r @ [d]\<rparr>"
      using assms(2) p PushStore by (auto simp: sbuf_do_def buffer_push_step_def)
    ultimately show ?thesis using assms(1) h
      by (auto simp: sbuf_inv_def pop_ok_longer)
  next
    case (PushDone x)
    then show ?thesis using assms p by (auto simp: sbuf_do_def buffer_push_step_def)
  qed
qed

lemma consume_inv:
  assumes "sbuf_inv n r" "sbuf_do n Consume r = Some r'" "n < 2 ^ 63"
  shows "sbuf_inv n r'"
proof -
  obtain pc where p: "popping r = Some pc" using assms(2) by (auto simp: sbuf_do_def bind_eq_Some_conv)
  have i: "uint (btail (sbuf r)) = int (length (got r))" using assms(1) by (simp add: sbuf_inv_def flip: uint_nat) (metis uint_nat)
  show ?thesis
  proof (cases pc)
    case PopStart
    then show ?thesis using assms p by (auto simp: sbuf_do_def buffer_pop_step_def sbuf_inv_def)
  next
    case (PopHead h)
    then show ?thesis using assms p
      by (auto simp: sbuf_do_def buffer_pop_step_def sbuf_inv_def word_le_nat_alt split: if_split_asm)
  next
    case (PopCopy t)
    let ?k = "length (got r)"
    have t: "t = btail (sbuf r)" "?k < length (sent r)" "take (length (sent r)) (buffer (sbuf r)) = sent r"
      using assms(1) p PopCopy by (simp_all add: sbuf_inv_def)
    have "buffer (sbuf r) ! ?k = sent r ! ?k" using t(2) by (subst t(3) [symmetric]) simp
    moreover obtain d where "get_at (buffer (sbuf r)) (uint t) = Some d" "r' = r\<lparr>popping := Some (PopStore t d)\<rparr>"
      using assms(2) p PopCopy by (auto simp: sbuf_do_def buffer_pop_step_def bind_eq_Some_conv)
    ultimately show ?thesis using assms(1) t i by (auto simp: sbuf_inv_def get_at_def split: if_split_asm)
  next
    case (PopStore t d)
    let ?k = "length (got r)"
    have t: "t = btail (sbuf r)" "?k < length (sent r)" "d = sent r ! ?k" "unat (btail (sbuf r)) = ?k" "length (sent r) \<le> n"
      "got r = take ?k (sent r)"
      using assms(1) p PopStore by (simp_all add: sbuf_inv_def)
    have "unat (btail (sbuf r) + 1) = Suc ?k" using t assms(3) by (subst unat_Suc) simp_all
    moreover have "got r @ [d] = take (Suc ?k) (sent r)" using take_nth [OF t(6) [symmetric] t(2)] t(3) by simp
    moreover have "r' = r\<lparr>sbuf := (sbuf r)\<lparr>btail := t + 1\<rparr>, popping := None, got := got r @ [d]\<rparr>"
      using assms(2) p PopStore by (auto simp: sbuf_do_def buffer_pop_step_def)
    ultimately show ?thesis using assms(1) t
      by (auto simp: sbuf_inv_def)
  next
    case (PopDone x)
    then show ?thesis using assms p by (auto simp: sbuf_do_def buffer_pop_step_def)
  qed
qed

lemma step_inv:
  assumes "sbuf_inv n r" "sbuf_do n ev r = Some r'" "n < 2 ^ 63"
  shows "sbuf_inv n r'"
proof (cases ev)
  case (BeginPush d)
  then show ?thesis using assms by (auto simp: sbuf_do_def sbuf_inv_def bind_eq_Some_conv split: if_split_asm)
next
  case BeginPop
  then show ?thesis using assms by (auto simp: sbuf_do_def sbuf_inv_def bind_eq_Some_conv split: if_split_asm)
qed (use assms produce_inv consume_inv in auto)

lemma steps_inv: "sbuf_steps n evs r = Some r' \<Longrightarrow> sbuf_inv n r \<Longrightarrow> n < 2 ^ 63 \<Longrightarrow> sbuf_inv n r'"
  by (induction evs arbitrary: r) (auto simp: bind_eq_Some_conv dest: step_inv)

section \<open>Properties\<close>

text \<open>C39: In every interleaving of a producer and a consumer the data got are the first of those sent, in order, and the
  consumer never leaves the buffer; the producer leaves it when it copies after having sent as many data
  as the buffer has cells, and only then.\<close>

theorem spsc_buffer_in_order:
  assumes "sbuf_steps (length junk) evs (sbuf_start junk) = Some r" "length junk < 2 ^ 63"
  shows "got r = take (length (got r)) (sent r) \<and> length (sent r) \<le> length junk \<and>
    (\<forall>pc. popping r = Some pc \<longrightarrow> sbuf_do (length junk) Consume r \<noteq> None) \<and>
    (\<forall>d pc. pushing r = Some (d, pc) \<longrightarrow>
       (sbuf_do (length junk) Produce r = None \<longleftrightarrow> length (sent r) = length junk \<and> pc = PushCopy (bhead (sbuf r))))"
proof -
  have inv: "sbuf_inv (length junk) r" using steps_inv [OF assms(1) sbuf_start_inv assms(2)] .
  have u: "uint (bhead (sbuf r)) = int (length (sent r))" "uint (btail (sbuf r)) = int (length (got r))"
    using inv by (metis sbuf_inv_def uint_nat)+
  have "sbuf_do (length junk) Consume r \<noteq> None" if "popping r = Some pc" for pc
    using that inv u(2) by (cases pc) (auto simp: sbuf_do_def buffer_pop_step_def sbuf_inv_def get_at_def)
  moreover have "sbuf_do (length junk) Produce r = None \<longleftrightarrow> length (sent r) = length junk \<and> pc = PushCopy (bhead (sbuf r))"
    if "pushing r = Some (d, pc)" for d pc
    using that inv u(1) by (cases pc) (auto simp: sbuf_do_def buffer_push_step_def sbuf_inv_def set_at_def split: if_split)
  ultimately show ?thesis using inv by (auto simp: sbuf_inv_def)
qed

theorem spsc_buffer_in_order_witness:
  "\<exists>r. sbuf_steps (length ''xy'') [BeginPush CHR ''a'', Produce, Produce, BeginPop, Consume, Produce, Produce, Consume] (sbuf_start ''xy'') = Some r \<and>
     got r = take (length (got r)) (sent r) \<and> sent r = ''a''"
proof -
  let ?evs = "[BeginPush CHR ''a'', Produce, Produce, BeginPop, Consume, Produce, Produce, Consume]"
  have "map_option sent (sbuf_steps (length ''xy'') ?evs (sbuf_start ''xy'')) = Some ''a''" by code_simp
  then obtain r where r: "sbuf_steps (length ''xy'') ?evs (sbuf_start ''xy'') = Some r" "sent r = ''a''" by auto
  have "length ''xy'' < 2 ^ 63" by simp
  from spsc_buffer_in_order [OF r(1) this] have "got r = take (length (got r)) (sent r)" by blast
  then show ?thesis using r by (intro exI [of _ r] conjI)
qed

text \<open>So a buffer is used up: once as many data have been sent as it has cells, and one has been taken, the next push
  writes behind the buffer.\<close>

theorem spsc_buffer_used_up:
  assumes "sbuf_steps (length junk) evs (sbuf_start junk) = Some r" "length junk < 2 ^ 63"
    "length (sent r) = length junk" "got r \<noteq> []" "pushing r = None"
  shows "sbuf_steps (length junk) [BeginPush d, Produce, Produce, Produce] r = None"
proof -
  let ?n = "length junk"
  have inv: "sbuf_inv ?n r" using steps_inv [OF assms(1) sbuf_start_inv assms(2)] .
  then have u: "unat (bhead (sbuf r)) = ?n" "unat (btail (sbuf r)) = length (got r)" "length (got r) \<le> ?n" "length (buffer (sbuf r)) = ?n"
    using assms(3) by (auto simp: sbuf_inv_def)
  have nn: "unat (of_nat ?n :: uint64) = ?n" using assms(2) by (simp add: unat_of_nat)
  have "unat (btail (sbuf r) + of_nat ?n) = length (got r) + ?n"
    using u nn assms(2) by (subst unat_plus_simple [THEN iffD1]) (auto simp: no_olen_add_nat)
  then have "\<not> bhead (sbuf r) \<ge> btail (sbuf r) + of_nat ?n" using u assms(4) by (simp add: word_le_nat_alt)
  moreover have "set_at (buffer (sbuf r)) (uint (bhead (sbuf r))) d = None"
    using u by (simp add: set_at_def uint_nat)
  ultimately show ?thesis using assms(5)
    by (simp add: sbuf_do_def buffer_push_step_def)
qed

lemma sbuf_steps_append: "sbuf_steps n (xs @ ys) r = do { r \<leftarrow> sbuf_steps n xs r; sbuf_steps n ys r }"
  by (induction xs arbitrary: r) (simp_all split: Option.bind_splits)

theorem spsc_buffer_used_up_witness:
  "sbuf_steps (length ''x'') ((BeginPush CHR ''a'' # replicate 4 Produce @ BeginPop # replicate 4 Consume) @
     [BeginPush CHR ''b'', Produce, Produce, Produce]) (sbuf_start ''x'') = None"
proof -
  let ?evs = "BeginPush CHR ''a'' # replicate 4 Produce @ BeginPop # replicate 4 Consume"
  have "map_option (\<lambda>r. (sent r, got r, pushing r = None)) (sbuf_steps (length ''x'') ?evs (sbuf_start ''x'')) = Some (''a'', ''a'', True)"
    by code_simp
  then obtain r where r: "sbuf_steps (length ''x'') ?evs (sbuf_start ''x'') = Some r" "sent r = ''a''" "got r = ''a''" "pushing r = None"
    by auto
  have "length ''x'' < 2 ^ 63" "length (sent r) = length ''x''" "got r \<noteq> []" using r by simp_all
  note none = spsc_buffer_used_up [OF r(1) this r(4), of "CHR ''b''"]
  show ?thesis unfolding sbuf_steps_append [of _ ?evs] r(1) Option.bind.simps by (rule none)
qed

end
