(* ===== verification/Spec2Isabelle.thy ===== *)
theory Spec2Isabelle
  imports Terminal Schedule Work_Queue Node_Funcs Rbtree_Delete Spsc_Buffer
begin

text \<open>
  Verification of ksi, a real-time audio engine (\<^verbatim>\<open>ksid/\<close>).

  The program. An engine owns a graph of nodes (oscillators, envelopes, players) that the
  audio threads evaluate once per buffer. The graph exists twice: version \<open>epoch\<close> belongs to
  the audio threads, the other one is edited. An editing call
  (\<^verbatim>\<open>dagedit.c\<close>) runs an operation of \<^verbatim>\<open>dagedit_kernels.h\<close> with \<open>flag = 0\<close> on
  the edited version, records the shared memory it allocates (\<open>mallocBufs\<close>) and gives up
  (\<open>freeBufs\<close>) and queues itself (\<open>syncCmds\<close>); a commit exchanges the versions and wakes
  the committer thread (\<^verbatim>\<open>dagedit_commit.c\<close>), which waits for the audio threads to
  migrate and then replays the queued commands with \<open>flag = 1\<close> on the version they left,
  taking the recorded memory from the queues.

  Theories, in the order of their dependencies.
  \<^item> \<open>Prelude\<close>: pointers, checked array accesses; \<^const>\<open>None\<close> is undefined
    behaviour or a failed assertion, error codes are values.
  \<^item> \<open>Vec\<close> (\<^verbatim>\<open>vec.h\<close>): the id-allocating vector, as the locale \<open>id_table\<close> and
    its interpretation; a run of insertions and deletions implements a finite table.
  \<^item> \<open>Spsc\<close> (\<^verbatim>\<open>spsc_queue.h\<close>): the single-producer single-consumer list with its
    recycled cells, cell by cell; it implements the interface \<open>fifo\<close>.
  \<^item> \<open>Data\<close> (\<^verbatim>\<open>data.h\<close>, \<^verbatim>\<open>err.h\<close>, \<^verbatim>\<open>inline_meta.h\<close>): samples with IEEE
    single precision arithmetic, port types, error codes, the plugin table.
  \<^item> \<open>Scan\<close>: the integer conversion of \<open>sscanf\<close>.
  \<^item> \<open>Engine_State\<close> (\<^verbatim>\<open>engine.h\<close>, \<^verbatim>\<open>dag.h\<close>, \<^verbatim>\<open>events.h\<close>,
    \<^verbatim>\<open>mvcc_utils.h\<close>): the engine record, nodes, versions, shared blocks.
  \<^item> \<open>Kernels\<close> (\<^verbatim>\<open>dagedit_kernels.h\<close> and the editing commands of the plugins): every
    editing operation, for both values of \<open>flag\<close>.
  \<^item> \<open>Replay\<close>, \<open>Replay_Ops\<close>: the relation between an editor's run and the committer's
    run of the same operation, with rules for sequencing and branching, and its proof for every
    operation.
  \<^item> \<open>Owner\<close>, \<open>Owner_Nodes\<close>: every shared block is owned by one port of one node or
    waits in \<open>freeBufs\<close>; every operation keeps this.
  \<^item> \<open>Dagedit\<close> (\<^verbatim>\<open>dagedit.c\<close>, \<^verbatim>\<open>dagedit_commit.c\<close>, \<^verbatim>\<open>cond.h\<close>): the editor's
    calls and the committer's round.
  \<^item> \<open>Edit_Log\<close>, \<open>Log_Nodes\<close>, \<open>Edit_Calls\<close>: what each call queues leads a committer
    from a copy of the old graph to a copy of the new one.
  \<^item> \<open>Sync\<close>: whole sessions; the two versions are equal again after each round.

  \<^item> \<open>Rbtree\<close> (\<^verbatim>\<open>rbtree.c\<close>): the pointer-linked red-black trees of time sequences;
    \<open>Rbtree_Rep\<close> (trees and paths in memory, left rotation), \<open>Rbtree_Bal\<close> (mirror images,
    colours, turns of the re-balancing loop), \<open>Rbtree_Insert\<close> (the loop and insertion),
    \<open>Rbtree_Search\<close> (successors, lookup, destruction), \<open>Rbtree_Fixup\<close> and \<open>Rbtree_Delete\<close>
    (deletion: the loop that repairs the black heights, and taking a node out).
  \<^item> \<open>Timeseq\<close> (\<^verbatim>\<open>resource.c\<close>): reading a file of notes into a tree and
    registering it; the locale \<open>sorted_store\<close> is what the reader relies on.
  \<^item> \<open>Schedule\<close> (\<^verbatim>\<open>engine.c\<close>): the evaluation of the graph for one buffer by any
    number of workers, as a step relation over all interleavings: order, termination,
    completeness, and when the callback is signalled.
  \<^item> \<open>Mix\<close> (\<^verbatim>\<open>engine.c\<close>, \<^verbatim>\<open>dag.h\<close>): how a worker mixes the inputs of a node, and
    what the node reads.
  \<^item> \<open>Pool\<close> (\<^verbatim>\<open>engine.c\<close>): how the workers wait, sleep, wake and end, step by step over all
    interleavings; \<open>Schedule\<close> is what they do between two waits.
  \<^item> \<open>Engine_Run\<close> (\<^verbatim>\<open>engine.c\<close>): launch, stop, pause, resume, reset and the audio callback
    around the evaluation, with the pool and the committer's handshake.
  \<^item> \<open>Ring_Buffer\<close> (\<^verbatim>\<open>ring_buffer.c\<close>): a worker's own queue, its segments and
    epochs; \<open>Ring_Rep\<close> (what every call keeps), \<open>Ring_Queue\<close> (runs of calls against the
    locale \<open>deque\<close>, and calls that overlap).
  \<^item> \<open>Format\<close>: \<open>sscanf\<close> with several conversions, floating point input with its rounding, decimal
    output; \<open>Lifecycle\<close> (\<^verbatim>\<open>pa_io.c\<close>, \<^verbatim>\<open>engine.c\<close>): the audio stream and the
    end of an engine.
  \<^item> \<open>Cmd\<close> (\<^verbatim>\<open>cmd.c\<close>): the commands, one definition per case; command files, which may load
    each other, with a bound on the nesting. \<open>Daemon\<close> (\<^verbatim>\<open>daemon/rpc.c\<close>): the lines of a
    session, replies and batches. \<open>Session\<close>: a line is a call, a batch is a session of \<open>Sync\<close>,
    the nesting bound does not matter for files that end.
    \<open>Terminal\<close> (\<^verbatim>\<open>cmd/main.c\<close>): the program that reads the lines from a terminal.

  \<^item> \<open>Ebr\<close> (\<^verbatim>\<open>lcrq/ebr.c\<close>): epochs with registered producers.
    \<open>Lcrq\<close> (\<^verbatim>\<open>lcrq/lcrq.c\<close>): the queue of seed tasks, access by access to the shared
    rings; \<open>Lcrq_Safe\<close>: what holds in every interleaving of its processes; \<open>Lcrq_Ring\<close>,
    \<open>Lcrq_Seq\<close>, \<open>Lcrq_Queue\<close>: one ring, the chain of rings with its collection, and runs
    of calls that do not overlap, against the locale \<open>fifo\<close>.
  \<^item> \<open>Work_Queue\<close> (\<^verbatim>\<open>queue.c\<close>): all queues of a pool; where a worker looks for a
    task, and what can be found.

  \<^item> \<open>Float_Ops\<close>: the floating point operations of the node functions, in single and double
    precision. \<open>Events\<close> (\<^verbatim>\<open>dag.h\<close>, \<^verbatim>\<open>events.h\<close>): iteration over the events of a port.
    \<open>Sound\<close>: the state a node function works on, and its frame loop.
  \<^item> \<open>Oscillators\<close> (\<^verbatim>\<open>linear_builtins.c\<close>, \<^verbatim>\<open>wavetable.c\<close>), \<open>Adsr\<close>
    (\<^verbatim>\<open>adsr.c\<close>), \<open>Midi_Seg\<close> (\<^verbatim>\<open>midiseg.c\<close>): what the nodes compute.
    \<open>Node_Funcs\<close> (\<^verbatim>\<open>engine.c\<close>): mixing the inputs of a node and calling its function, the
    step \<open>Schedule\<close> calls the evaluation of a node.

  \<^item> \<open>Spsc_Buffer\<close> (\<^verbatim>\<open>spsc_buffer.h\<close>): the buffer for one producer and one consumer,
    access by access; it is used up after one round.

  Granularity. A call or a round runs under the engine's lock and is one step; calls that
  would wait are not steps. Queue cells, shared blocks and plugin data are separate address
  spaces numbered from 1. Sizes are in bytes and memory is unbounded.

  Bounds. The loops over trees are partial functions that the theorems show to end on trees in
  order; the walk that destroys a list is bounded by the number of its cells; the
  nesting of command files has a bound on which the result does not depend; the loop over the
  notes of one frame is a partial function, whose value is \<open>None\<close> when it is never left.

  Parameters. \<open>expf\<close>, \<open>sinf\<close>, \<open>powf\<close> (the record \<open>libm\<close>), the function a client
  hands over as \<open>extArgs\<close>, PortAudio, the contents of files.

  Not modelled. Reading a line from the terminal and the number of processors; the memory
  figures of \<^verbatim>\<open>profile.c\<close>; the macros of \<^verbatim>\<open>util.h\<close> (their results are
  modelled), aligned allocation; the thread that calls the collectors every 10 ms; the pipes,
  signals and threads of the daemon; orders of memory accesses weaker than sequential
  consistency; the tests, the graphical editor and the control library.
\<close>

end
